(* ===== verification/Prelude.thy ===== *)
theory Prelude
  imports Main "HOL-Library.Word" "HOL-Library.While_Combinator"
begin

unbundle bit_operations_syntax

text \<open>
  Shared vocabulary of the development. Bytes (\<open>quint8\<close>, \<open>char\<close> of a \<open>QByteArray\<close>) are
  \<open>8 word\<close>; a \<open>QByteArray\<close> or a \<open>memcpy\<close> region is a list of bytes. The library functions the
  sources call (\<open>memchr\<close>, \<open>memcmp\<close>, \<open>memcpy\<close> into a ring) are written out here once, together
  with the list and word facts every component uses.
\<close>

named_theorems list_reads \<open>element-wise reads of blits, slices and rings\<close>
named_theorems framing \<open>unfolding rules of the framing layer\<close>

type_synonym byte = "8 word"
type_synonym bytes = "byte list"

section \<open>Memory regions\<close>

text \<open>\<open>blit dst at src\<close> is \<open>memcpy(&dst[at], src, |src|)\<close> inside a region large enough.\<close>

definition blit :: "'a list \<Rightarrow> nat \<Rightarrow> 'a list \<Rightarrow> 'a list" where
  "blit dst at src = take at dst @ src @ drop (at + length src) dst"

lemma length_blit [simp]: "at + length src \<le> length dst \<Longrightarrow> length (blit dst at src) = length dst"
  by (simp add: blit_def)

lemma blit_nth [list_reads]:
  "at + length src \<le> length dst \<Longrightarrow> i < length dst \<Longrightarrow>
   blit dst at src ! i = (if at \<le> i \<and> i < at + length src then src ! (i - at) else dst ! i)"
  by (auto simp: blit_def nth_append)

text \<open>\<open>slice xs from n\<close> is the region \<open>xs[from .. from + n)\<close>.\<close>

definition slice :: "'a list \<Rightarrow> nat \<Rightarrow> nat \<Rightarrow> 'a list" where
  "slice xs from n = take n (drop from xs)"

lemma length_slice: "from + n \<le> length xs \<Longrightarrow> length (slice xs from n) = n"
  by (simp add: slice_def)

lemma nth_slice [list_reads]:
  "from + n \<le> length xs \<Longrightarrow> i < n \<Longrightarrow> slice xs from n ! i = xs ! (from + i)"
  by (simp add: slice_def)

lemma slice_append: "slice xs i m @ slice xs (i + m) n = slice xs i (m + n)"
  by (simp add: slice_def take_add add.commute)

lemma slice_prefix [simp]: "slice xs 0 n = take n xs"
  by (simp add: slice_def)

lemma slice_0 [simp]: "slice xs i 0 = []"
  by (simp add: slice_def)

text \<open>The last \<open>n\<close> elements of a list, all of it when it is shorter.\<close>

definition take_last :: "nat \<Rightarrow> 'a list \<Rightarrow> 'a list" where
  "take_last n xs = drop (length xs - n) xs"

lemma length_take_last [simp]: "length (take_last n xs) = min n (length xs)"
  by (simp add: take_last_def)

lemma take_last_all [simp]: "length xs \<le> n \<Longrightarrow> take_last n xs = xs"
  by (simp add: take_last_def)

lemma nth_take_last [list_reads]:
  "i < min n (length xs) \<Longrightarrow> take_last n xs ! i = xs ! (length xs - n + i)"
  by (simp add: take_last_def)

lemma take_last_Nil [simp]: "take_last n [] = []"
  by (simp add: take_last_def)

lemma take_last_append_take_last [simp]:
  "take_last n (take_last n xs @ ys) = take_last n (xs @ ys)"
  by (cases "length xs \<le> n") (auto simp: take_last_def drop_append add.commute)

section \<open>Library searches\<close>

text \<open>\<open>memchr\<close> over a region: the offset of the first byte equal to \<open>c\<close>.\<close>

fun memchr :: "byte \<Rightarrow> bytes \<Rightarrow> nat option" where
  "memchr c [] = None"
| "memchr c (x # xs) = (if x = c then Some 0 else map_option Suc (memchr c xs))"

lemma memchr_None: "memchr c xs = None \<longleftrightarrow> (\<forall>k < length xs. xs ! k \<noteq> c)"
  by (induction xs) (auto simp: nth_Cons less_Suc_eq_0_disj split: nat.splits)

lemma memchr_Some:
  "memchr c xs = Some i \<longleftrightarrow> i < length xs \<and> xs ! i = c \<and> (\<forall>k < i. xs ! k \<noteq> c)"
proof (induction xs arbitrary: i)
  case (Cons x xs)
  show ?case
  proof (cases i)
    case (Suc j)
    then show ?thesis
      using Cons.IH [of j] by (auto simp: less_Suc_eq_0_disj)
  qed auto
qed simp

section \<open>First index with a property\<close>

text \<open>
  \<open>first_idx P lo hi\<close> is the least index of \<open>[lo, hi)\<close> that satisfies \<open>P\<close>: the specification
  every scan of the ring buffer is compared with.
\<close>

definition first_idx :: "(nat \<Rightarrow> bool) \<Rightarrow> nat \<Rightarrow> nat \<Rightarrow> nat option" where
  "first_idx P lo hi = find P [lo..<hi]"

lemma first_idx_None: "first_idx P lo hi = None \<longleftrightarrow> (\<forall>k. lo \<le> k \<and> k < hi \<longrightarrow> \<not> P k)"
  by (auto simp: first_idx_def find_None_iff)

lemma first_idx_Some:
  "first_idx P lo hi = Some i \<longleftrightarrow> lo \<le> i \<and> i < hi \<and> P i \<and> (\<forall>k. lo \<le> k \<and> k < i \<longrightarrow> \<not> P k)"
proof -
  have "first_idx P lo hi = Some i \<longleftrightarrow>
    (\<exists>j < hi - lo. P (lo + j) \<and> i = lo + j \<and> (\<forall>k < j. \<not> P (lo + k)))"
    by (auto simp: first_idx_def find_Some_iff)
  also have "\<dots> \<longleftrightarrow> lo \<le> i \<and> i < hi \<and> P i \<and> (\<forall>k. lo \<le> k \<and> k < i \<longrightarrow> \<not> P k)"
    (is "?L \<longleftrightarrow> ?R")
  proof
    assume ?L
    then obtain j where j: "j < hi - lo" "P (lo + j)" "i = lo + j" "\<forall>k < j. \<not> P (lo + k)" by blast
    have "\<not> P k" if "lo \<le> k" "k < i" for k
    proof -
      obtain d where d: "k = lo + d" using \<open>lo \<le> k\<close> le_Suc_ex by blast
      with \<open>k < i\<close> j(3) have "d < j" by simp
      with j(4) d show ?thesis by simp
    qed
    with j show ?R by auto
  next
    assume r: ?R
    then have "i - lo < hi - lo \<and> P (lo + (i - lo)) \<and> i = lo + (i - lo)
      \<and> (\<forall>k < i - lo. \<not> P (lo + k))" by auto
    then show ?L by blast
  qed
  finally show ?thesis .
qed

lemma first_idx_eqI:
  assumes "\<And>i. r = Some i \<Longrightarrow> lo \<le> i \<and> i < hi \<and> P i \<and> (\<forall>k. lo \<le> k \<and> k < i \<longrightarrow> \<not> P k)"
    and "r = None \<Longrightarrow> (\<forall>k. lo \<le> k \<and> k < hi \<longrightarrow> \<not> P k)"
  shows "r = first_idx P lo hi"
proof (cases r)
  case None
  then show ?thesis using assms(2) by (simp add: first_idx_None [THEN iffD2])
next
  case (Some i)
  then show ?thesis using assms(1) by (simp add: first_idx_Some [THEN iffD2])
qed

lemma first_idx_cong:
  "(\<And>k. lo \<le> k \<Longrightarrow> k < hi \<Longrightarrow> P k = Q k) \<Longrightarrow> first_idx P lo hi = first_idx Q lo hi"
  by (auto simp: first_idx_def intro!: find_cong)

section \<open>Powers of two and masks\<close>

lemma and_mask_mod: "(x :: nat) AND (2 ^ k - 1) = x mod 2 ^ k"
  by (metis mask_eq_exp_minus_1 take_bit_eq_mask take_bit_eq_mod)

lemmas and_mask_mod_Suc = and_mask_mod [simplified]

text \<open>\<open>memcmp(base + i, p, |p|) == 0\<close> inside a region: the pattern occurs at offset \<open>i\<close>.\<close>

definition occurs_at :: "bytes \<Rightarrow> bytes \<Rightarrow> nat \<Rightarrow> bool" where
  "occurs_at xs p i \<longleftrightarrow> i + length p \<le> length xs \<and> slice xs i (length p) = p"

lemma occurs_at_iff:
  "occurs_at xs p i \<longleftrightarrow> i + length p \<le> length xs \<and> (\<forall>k < length p. xs ! (i + k) = p ! k)"
  by (auto simp: occurs_at_def slice_def list_eq_iff_nth_eq)

lemma occurs_at_first:
  assumes "occurs_at xs p i" "p \<noteq> []"
  shows "i < length xs" "xs ! i = p ! 0"
proof -
  have "0 < length p" using assms(2) by simp
  moreover have "i + length p \<le> length xs" "\<forall>k < length p. xs ! (i + k) = p ! k"
    using assms(1) by (auto simp: occurs_at_iff)
  ultimately show "i < length xs" "xs ! i = p ! 0" by (linarith, metis add.right_neutral)
qed

text \<open>The first occurrence of \<open>p\<close> at or after \<open>pos\<close>.\<close>

definition find_pattern :: "bytes \<Rightarrow> bytes \<Rightarrow> nat \<Rightarrow> nat option" where
  "find_pattern xs p pos = first_idx (occurs_at xs p) pos (Suc (length xs))"

lemma find_pattern_Some:
  "find_pattern xs p pos = Some i \<longleftrightarrow>
   pos \<le> i \<and> occurs_at xs p i \<and> (\<forall>k. pos \<le> k \<and> k < i \<longrightarrow> \<not> occurs_at xs p k)"
  by (auto simp: find_pattern_def first_idx_Some occurs_at_def)

lemma find_pattern_None:
  "find_pattern xs p pos = None \<longleftrightarrow> (\<forall>k \<ge> pos. \<not> occurs_at xs p k)"
  by (auto simp: find_pattern_def first_idx_None occurs_at_def)

lemma find_pattern_eqI:
  assumes "\<And>i. r = Some i \<Longrightarrow> pos \<le> i \<and> occurs_at xs p i
      \<and> (\<forall>k. pos \<le> k \<and> k < i \<longrightarrow> \<not> occurs_at xs p k)"
    and "r = None \<Longrightarrow> (\<forall>k \<ge> pos. \<not> occurs_at xs p k)"
  shows "r = find_pattern xs p pos"
  by (cases r) (use assms in \<open>auto simp: find_pattern_None [THEN iffD2] find_pattern_Some [THEN iffD2]\<close>)

lemma xor_eq_0_iff: "(a :: 'w::len word) XOR b = 0 \<longleftrightarrow> a = b"
  by (metis xor.assoc xor.left_neutral xor.right_neutral xor_self_eq)

lemma xor_cancel: "(a :: 'w::len word) XOR c = b XOR c \<longleftrightarrow> a = b"
  by (metis xor.assoc xor.right_neutral xor_self_eq)

lemma xor_cancel_left: "(c :: 'w::len word) XOR a = c XOR b \<longleftrightarrow> a = b"
  by (metis xor.assoc xor.left_neutral xor_self_eq)

definition pow2 :: "nat \<Rightarrow> bool" where
  "pow2 n \<longleftrightarrow> (\<exists>k > 0. n = 2 ^ k)"

lemma pow2_gt_1: "pow2 n \<Longrightarrow> 1 < n"
  using one_less_power [of "2::nat"] by (auto simp: pow2_def)

section \<open>Smearing the top bit to the right\<close>

text \<open>\<open>v |= v >> s\<close>.\<close>

definition smear :: "nat \<Rightarrow> nat \<Rightarrow> nat" where
  "smear s v = v OR drop_bit s v"

lemma bit_smear: "bit (smear s v) n \<longleftrightarrow> bit v n \<or> bit v (n + s)"
  by (simp add: smear_def bit_or_iff bit_drop_bit_eq add.commute)

text \<open>\<open>w\<close> has a bit wherever \<open>v\<close> has one among the next \<open>k\<close> positions.\<close>

definition smeared :: "nat \<Rightarrow> nat \<Rightarrow> nat \<Rightarrow> bool" where
  "smeared k v w \<longleftrightarrow> (\<forall>n. bit w n \<longleftrightarrow> (\<exists>j < k. bit v (n + j)))"

lemma smeared_start: "smeared 1 v v"
  by (simp add: smeared_def)

lemma smeared_step:
  assumes "smeared k v w" and l: "k + k = l"
  shows "smeared l v (smear k w)"
  unfolding smeared_def l [symmetric]
proof
  fix n
  have "(\<exists>j < k + k. bit v (n + j)) \<longleftrightarrow>
      (\<exists>j < k. bit v (n + j)) \<or> (\<exists>j < k. bit v (n + k + j))" (is "?l \<longleftrightarrow> ?r")
  proof
    assume ?l
    then obtain j where j: "j < k + k" "bit v (n + j)" by blast
    show ?r
    proof (cases "j < k")
      case False
      then have "j - k < k" "n + k + (j - k) = n + j" using j(1) by auto
      then show ?r using j(2) by metis
    qed (use j in blast)
  next
    assume ?r
    then show ?l
    proof
      assume "\<exists>j < k. bit v (n + k + j)"
      then obtain j where "j < k" "bit v (n + (k + j))" by (auto simp: add.assoc)
      then show ?l by (intro exI [of _ "k + j"]) simp
    qed (auto intro: trans_less_add1)
  qed
  then show "bit (smear k w) n \<longleftrightarrow> (\<exists>j < k + k. bit v (n + j))"
    using assms(1) by (simp add: bit_smear smeared_def)
qed

lemma smeared_mask:
  assumes "smeared k v w" "2 ^ m \<le> v" "v < 2 ^ Suc m" "m < k"
  shows "w = 2 ^ Suc m - 1"
proof -
  have "v div 2 ^ m = 1" by (rule div_nat_eqI) (use assms(2,3) in auto)
  then have top: "bit v m" by (simp add: bit_iff_odd)
  have hi: "\<not> bit v i" if "m < i" for i
    using assms(3) that less_le_trans [OF assms(3) power_increasing [of "Suc m" i 2]]
    by (simp add: bit_iff_odd)
  have "bit w n \<longleftrightarrow> n \<le> m" for n
  proof
    assume "bit w n"
    then show "n \<le> m" using assms(1) hi by (auto simp: smeared_def) (metis hi leI less_add_Suc1 not_le trans_less_add1)
  next
    assume "n \<le> m"
    then have "m - n < k" "n + (m - n) = m" using assms(4) by auto
    then show "bit w n" using assms(1) top by (metis smeared_def)
  qed
  then have "w = mask (Suc m)"
    by (intro bit_eqI) (auto simp: bit_mask_iff possible_bit_def less_Suc_eq_le)
  then show ?thesis by (simp add: mask_eq_exp_minus_1)
qed

section \<open>Loops\<close>

lemma funpow_8: "(f ^^ 8) x = f (f (f (f (f (f (f (f x)))))))"
  by (simp add: eval_nat_numeral)

text \<open>Total correctness of a loop: an invariant and a measure that the body decreases.\<close>

lemma total_while:
  fixes f :: "'s \<Rightarrow> nat"
  assumes "P s" and step: "\<And>s. P s \<Longrightarrow> b s \<Longrightarrow> P (c s) \<and> f (c s) < f s"
  shows "\<exists>t. while_option b c s = Some t \<and> P t \<and> \<not> b t"
proof -
  obtain t where t: "while_option b c s = Some t"
    using measure_while_option_Some [of P b c f s] assms by blast
  moreover have "P t" using while_option_rule [of P b c s t] t assms by blast
  moreover have "\<not> b t" using while_option_stop [OF t] .
  ultimately show ?thesis by blast
qed

text \<open>
  \<open>while (iterations < n) { ++iterations; body }\<close> where the body may \<open>break\<close> (\<open>False\<close>).
\<close>

fun bounded_loop :: "nat \<Rightarrow> ('s \<Rightarrow> bool \<times> 's) \<Rightarrow> 's \<Rightarrow> 's" where
  "bounded_loop 0 body s = s"
| "bounded_loop (Suc n) body s =
     (case body s of (False, s') \<Rightarrow> s' | (True, s') \<Rightarrow> bounded_loop n body s')"

lemma bounded_loop_inv:
  assumes "P s" and "\<And>s. P s \<Longrightarrow> P (snd (body s))"
  shows "P (bounded_loop n body s)"
  using assms(1) by (induction n arbitrary: s) (use assms(2) in \<open>force split: prod.splits bool.splits\<close>)+

end
