(* ===== verification/Fifo_Interface.thy ===== *)
theory Fifo_Interface
  imports Prelude
begin

text \<open>
  The contract the two ring buffers of the program share: a bounded sequence that never refuses
  data and forgets its oldest elements instead (\<open>overwriting_fifo\<close>), and its extension by the
  consumer side (\<open>fifo_buffer\<close>). The frame reader's byte ring provides both, the plot history
  (\<open>DSP::FixedQueue\<close>) the first.
\<close>

datatype 'a fifo_op = Put "'a list" | Take nat

text \<open>The abstract bounded queue: what a sequence of operations leaves behind.\<close>

fun spec_step :: "nat \<Rightarrow> 'a list \<Rightarrow> 'a fifo_op \<Rightarrow> 'a list" where
  "spec_step room xs (Put ys) = take_last room (xs @ ys)"
| "spec_step room xs (Take n) = drop n xs"

definition spec_run :: "nat \<Rightarrow> 'a list \<Rightarrow> 'a fifo_op list \<Rightarrow> 'a list" where
  "spec_run room = foldl (spec_step room)"

lemma spec_step_bound: "length xs \<le> room \<Longrightarrow> length (spec_step room xs p) \<le> room"
  by (cases p) auto

locale overwriting_fifo =
  fixes put :: "'a list \<Rightarrow> 'q \<Rightarrow> 'q"
    and items :: "'q \<Rightarrow> 'a list"
    and room :: "'q \<Rightarrow> nat"
    and ok :: "'q \<Rightarrow> bool"
  assumes put_ok: "ok q \<Longrightarrow> ok (put xs q)"
    and put_items: "ok q \<Longrightarrow> items (put xs q) = take_last (room q) (items q @ xs)"
    and put_room: "ok q \<Longrightarrow> room (put xs q) = room q"
    and items_bound: "ok q \<Longrightarrow> length (items q) \<le> room q"
begin

lemma puts:
  assumes "ok q"
  shows "ok (fold put xss q)" "room (fold put xss q) = room q"
    "items (fold put xss q) = take_last (room q) (items q @ concat xss)"
  using assms
proof (induction xss arbitrary: q)
  case Nil
  { case 1 then show ?case by simp }
  { case 2 then show ?case by simp }
  { case 3 then show ?case using items_bound by simp }
next
  case (Cons xs xss)
  { case 1 then show ?case using Cons.IH(1) put_ok by simp }
  { case 2 then show ?case using Cons.IH(2) put_ok put_room by simp }
  { case 3
    then have "items (fold put (xs # xss) q)
        = take_last (room q) (take_last (room q) (items q @ xs) @ concat xss)"
      using Cons.IH(3) [OF put_ok [OF 3]] put_room put_items by simp
    then show ?case by simp }
qed

text \<open>Chunking is invisible: many puts leave what one put of the concatenation leaves.\<close>

lemma puts_concat: "ok q \<Longrightarrow> items (fold put xss q) = items (put (concat xss) q)"
  by (simp add: puts(3) put_items)

text \<open>Nothing is lost while everything fits.\<close>

lemma puts_lossless:
  "ok q \<Longrightarrow> length (items q) + length (concat xss) \<le> room q
    \<Longrightarrow> items (fold put xss q) = items q @ concat xss"
  by (simp add: puts(3))

end

locale fifo_buffer = overwriting_fifo put items room ok
  for put :: "'a list \<Rightarrow> 'q \<Rightarrow> 'q" and items room ok +
  fixes advance :: "nat \<Rightarrow> 'q \<Rightarrow> 'q"
    and look :: "nat \<Rightarrow> nat \<Rightarrow> 'q \<Rightarrow> 'a list"
  assumes advance_ok: "ok q \<Longrightarrow> ok (advance n q)"
    and advance_items: "ok q \<Longrightarrow> items (advance n q) = drop n (items q)"
    and advance_room: "ok q \<Longrightarrow> room (advance n q) = room q"
    and look_items: "ok q \<Longrightarrow> look from n q = slice (items q) from n"
begin

definition exec :: "'q \<Rightarrow> 'a fifo_op \<Rightarrow> 'q" where
  "exec q p = (case p of Put xs \<Rightarrow> put xs q | Take n \<Rightarrow> advance n q)"

lemma exec_refines:
  "ok q \<Longrightarrow> ok (exec q p) \<and> room (exec q p) = room q
    \<and> items (exec q p) = spec_step (room q) (items q) p"
  by (cases p)
    (simp_all add: exec_def put_ok put_room put_items advance_ok advance_room advance_items)

text \<open>Every run of producer and consumer operations refines the abstract bounded queue.\<close>

lemma run_refines:
  assumes "ok q"
  shows "ok (foldl exec q ps) \<and> room (foldl exec q ps) = room q
    \<and> items (foldl exec q ps) = spec_run (room q) (items q) ps"
  using assms
proof (induction ps arbitrary: q)
  case (Cons p ps)
  then show ?case using exec_refines [OF Cons.prems, of p] by (simp add: spec_run_def)
qed (simp add: spec_run_def)

text \<open>Bytes read at the front and then skipped are the bytes the next read continues from.\<close>

lemma look_advance:
  "ok q \<Longrightarrow> look 0 m q @ look 0 n (advance m q) = look 0 (m + n) q"
  by (simp add: look_items advance_ok advance_items slice_def take_add)

end

end
