(* ===== verification/Circular_Buffer.thy ===== *)
theory Circular_Buffer
  imports Fifo_Interface
begin

unbundle bit_operations_syntax

text \<open>
  \<open>IO::CircularBuffer\<close> of \<open>core/Core/CircularBuffer.h\<close>: the byte ring the frame reader scans.
  The state is the class's members; each operation below is one member function, read
  sequentially (producer and consumer are the same thread in \<open>FrameReader\<close>, so the atomics are
  plain reads and writes). Sizes and positions are \<open>nat\<close>: the code's \<open>qsizetype\<close> values are
  non-negative wherever they are used as sizes, and a negative argument takes the branch of \<open>0\<close>.
  The scans are in \<open>Pattern_Scan\<close>.
\<close>

section \<open>State and construction\<close>

record ring =
  cb_head :: nat
  cb_tail :: nat
  cb_overflow :: nat
  cb_capacity :: nat
  cb_mask :: nat
  cb_buffer :: bytes

text \<open>\<open>roundUpToPowerOfTwo\<close>: smear the top bit of \<open>value - 1\<close> to the right, then add one.\<close>

definition roundUpToPowerOfTwo :: "nat \<Rightarrow> nat" where
  "roundUpToPowerOfTwo value =
     (let v = (if value < 2 then 2 else value);
          v = v - 1;
          v = smear 1 v;
          v = smear 2 v;
          v = smear 4 v;
          v = smear 8 v;
          v = smear 16 v;
          v = smear 32 v
      in v + 1)"

definition new_ring :: "nat \<Rightarrow> ring" where
  "new_ring capacity =
     (let cap = roundUpToPowerOfTwo capacity
      in \<lparr>cb_head = 0, cb_tail = 0, cb_overflow = 0, cb_capacity = cap, cb_mask = cap - 1,
          cb_buffer = replicate cap 0\<rparr>)"

section \<open>Operations\<close>

definition ring_size :: "ring \<Rightarrow> nat" where
  "ring_size r =
     (if cb_tail r \<ge> cb_head r then cb_tail r - cb_head r
      else cb_capacity r - cb_head r + cb_tail r)"

definition freeSpace :: "ring \<Rightarrow> nat" where
  "freeSpace r = cb_capacity r - ring_size r"

definition ring_at :: "ring \<Rightarrow> nat \<Rightarrow> byte" where
  "ring_at r index =
     (if index \<ge> ring_size r then cb_buffer r ! 0
      else cb_buffer r ! ((cb_head r + index) AND cb_mask r))"

definition ring_clear :: "ring \<Rightarrow> ring" where
  "ring_clear r = r\<lparr>cb_head := 0, cb_tail := 0, cb_overflow := 0\<rparr>"

definition resetOverflowCount :: "ring \<Rightarrow> ring" where
  "resetOverflowCount r = r\<lparr>cb_overflow := 0\<rparr>"

text \<open>
  \<open>setCapacity\<close> empties the ring and resizes its storage: \<open>std::vector::resize\<close> keeps the old
  bytes that still fit and value-initialises the rest.
\<close>

definition setCapacity :: "nat \<Rightarrow> ring \<Rightarrow> ring" where
  "setCapacity capacity r =
     (let r = ring_clear r; cap = roundUpToPowerOfTwo capacity
      in r\<lparr>cb_capacity := cap, cb_mask := cap - 1,
           cb_buffer := take cap (cb_buffer r) @ replicate (cap - length (cb_buffer r)) 0\<rparr>)"

text \<open>
  \<open>append\<close>: one slot stays unused, a chunk longer than the usable capacity keeps its tail, and an
  over-full ring drops its oldest bytes; both losses are counted.
\<close>

definition append :: "bytes \<Rightarrow> ring \<Rightarrow> ring" where
  "append data r =
     (if data = [] then r
      else let usable = cb_capacity r - 1;
               dataSize = length data;
               src = (if dataSize > usable then drop (dataSize - usable) data else data);
               copySize = (if dataSize > usable then usable else dataSize);
               lost = (if dataSize > usable then dataSize - usable else 0);
               head = cb_head r;
               tail = cb_tail r;
               current_size = (if tail \<ge> head then tail - head else cb_capacity r - head + tail);
               free_space = usable - current_size;
               overwrite = (if copySize > free_space then copySize - free_space else 0);
               new_head = (if copySize > free_space then (head + overwrite) AND cb_mask r else head);
               firstChunk = min copySize (cb_capacity r - tail);
               buf = blit (cb_buffer r) tail (take firstChunk src);
               buf = (if copySize > firstChunk then blit buf 0 (drop firstChunk src) else buf);
               new_tail = (tail + copySize) AND cb_mask r
           in r\<lparr>cb_head := new_head, cb_tail := new_tail, cb_buffer := buf,
                cb_overflow := cb_overflow r + lost + overwrite\<rparr>)"

definition ring_read :: "nat \<Rightarrow> ring \<Rightarrow> bytes \<times> ring" where
  "ring_read sz r =
     (if sz > ring_size r then ([], r)
      else let head = cb_head r;
               firstChunk = min sz (cb_capacity r - head);
               result = slice (cb_buffer r) head firstChunk
                 @ (if sz > firstChunk then slice (cb_buffer r) 0 (sz - firstChunk) else [])
           in (result, r\<lparr>cb_head := (head + sz) AND cb_mask r\<rparr>))"

definition discard :: "nat \<Rightarrow> ring \<Rightarrow> ring" where
  "discard sz r =
     (let current_size = ring_size r
      in if sz = 0 \<or> current_size = 0 then r
         else let toAdvance = min sz current_size
              in r\<lparr>cb_head := (cb_head r + toAdvance) AND cb_mask r\<rparr>)"

text \<open>
  \<open>peekRangeInto\<close>: the bytes the caller's container holds afterwards (its earlier content and
  whether it is detached only decide how it is allocated).
\<close>

definition peekRange :: "nat \<Rightarrow> nat \<Rightarrow> ring \<Rightarrow> bytes" where
  "peekRange offset sz r =
     (let current_size = ring_size r
      in if offset \<ge> current_size \<or> sz = 0 then []
         else let sz = min sz (current_size - offset);
                  start = (cb_head r + offset) AND cb_mask r;
                  firstChunk = min sz (cb_capacity r - start)
              in slice (cb_buffer r) start firstChunk
                 @ (if sz > firstChunk then slice (cb_buffer r) 0 (sz - firstChunk) else []))"

definition peek :: "nat \<Rightarrow> ring \<Rightarrow> bytes" where
  "peek sz r = peekRange 0 sz r"

section \<open>Well-formedness and the bytes a ring holds\<close>

definition ring_ok :: "ring \<Rightarrow> bool" where
  "ring_ok r \<longleftrightarrow> pow2 (cb_capacity r) \<and> cb_mask r = cb_capacity r - 1
     \<and> length (cb_buffer r) = cb_capacity r \<and> cb_head r < cb_capacity r \<and> cb_tail r < cb_capacity r"

definition contents :: "ring \<Rightarrow> bytes" where
  "contents r = map (\<lambda>i. cb_buffer r ! ((cb_head r + i) mod cb_capacity r)) [0..<ring_size r]"

definition usable_capacity :: "ring \<Rightarrow> nat" where
  "usable_capacity r = cb_capacity r - 1"

lemma length_contents [simp]: "length (contents r) = ring_size r"
  by (simp add: contents_def)

lemma contents_nth [list_reads]:
  "i < ring_size r \<Longrightarrow> contents r ! i = cb_buffer r ! ((cb_head r + i) mod cb_capacity r)"
  by (simp add: contents_def)

lemma ring_okD:
  assumes "ring_ok r"
  shows "cb_capacity r > 1" "length (cb_buffer r) = cb_capacity r"
    "cb_head r < cb_capacity r" "cb_tail r < cb_capacity r" "cb_mask r = cb_capacity r - 1"
    "ring_size r < cb_capacity r"
proof -
  show "cb_capacity r > 1"
    using assms one_less_power [of "2::nat"] by (auto simp: ring_ok_def pow2_def)
qed (use assms in \<open>auto simp: ring_ok_def ring_size_def\<close>)

lemma ring_mask: "ring_ok r \<Longrightarrow> x AND cb_mask r = x mod cb_capacity r"
  by (auto simp: ring_ok_def pow2_def and_mask_mod_Suc)

lemma ring_size_eqI:
  assumes "cb_head r < cb_capacity r" "n < cb_capacity r"
    "cb_tail r = (cb_head r + n) mod cb_capacity r"
  shows "ring_size r = n"
proof (cases "cb_head r + n < cb_capacity r")
  case False
  then have "cb_tail r = cb_head r + n - cb_capacity r"
    using assms by (simp add: mod_if)
  then show ?thesis using False assms(1,2) by (simp add: ring_size_def)
qed (use assms in \<open>simp add: ring_size_def\<close>)

lemma ring_tail: "ring_ok r \<Longrightarrow> cb_tail r = (cb_head r + ring_size r) mod cb_capacity r"
  using ring_okD(3,4) [of r] by (auto simp: ring_size_def mod_if)

section \<open>Reading and writing around the wrap\<close>

text \<open>
  A write of \<open>src\<close> at \<open>tail\<close> in two \<open>memcpy\<close> steps puts \<open>src ! j\<close> at the \<open>j\<close>-th position
  after \<open>tail\<close>, counted around the ring, and leaves every other position alone.
\<close>

definition wrap_write :: "bytes \<Rightarrow> nat \<Rightarrow> bytes \<Rightarrow> bytes" where
  "wrap_write buf tail src =
     (let firstChunk = min (length src) (length buf - tail);
          buf = blit buf tail (take firstChunk src)
      in if length src > firstChunk then blit buf 0 (drop firstChunk src) else buf)"

lemma length_wrap_write [simp]:
  "tail < length buf \<Longrightarrow> length src < length buf \<Longrightarrow> length (wrap_write buf tail src) = length buf"
  by (auto simp: wrap_write_def Let_def)

lemma wrap_write_nth:
  assumes "tail < length buf" "length src < length buf" "j < length buf"
  shows "wrap_write buf tail src ! ((tail + j) mod length buf) =
    (if j < length src then src ! j else buf ! ((tail + j) mod length buf))"
proof (cases "tail + j < length buf")
  case True
  then show ?thesis
    using assms by (auto simp: wrap_write_def Let_def list_reads min_def)
next
  case False
  then have p: "(tail + j) mod length buf = tail + j - length buf"
    using assms by (simp add: mod_if)
  have "tail + j - length buf < tail" using False assms by simp
  with False assms show ?thesis
    by (auto simp: wrap_write_def Let_def list_reads p min_def)
qed

text \<open>A read of \<open>n\<close> bytes from \<open>start\<close> in two pieces is the \<open>n\<close> positions after \<open>start\<close>.\<close>

lemma wrap_read:
  assumes len: "length buf = c" and "start < c" "n \<le> c"
  shows "slice buf start (min n (c - start))
      @ (if n > min n (c - start) then slice buf 0 (n - min n (c - start)) else [])
    = map (\<lambda>i. buf ! ((start + i) mod c)) [0..<n]" (is "?l = ?r")
proof -
  define k where "k = min n (c - start)"
  have l: "?l = slice buf start k @ (if n > k then slice buf 0 (n - k) else [])" by (simp add: k_def)
  have lk: "length (slice buf start k) = k" using assms by (simp add: k_def slice_def)
  show ?thesis
    unfolding l
  proof (rule nth_equalityI)
    show len: "length (slice buf start k @ (if n > k then slice buf 0 (n - k) else [])) = length ?r"
      using assms by (auto simp: slice_def k_def)
    fix i assume i: "i < length (slice buf start k @ (if n > k then slice buf 0 (n - k) else []))"
    with len have n: "i < n" by simp
    show "(slice buf start k @ (if n > k then slice buf 0 (n - k) else [])) ! i = ?r ! i"
    proof (cases "i < k")
      case True
      moreover have "start + i < c" "i < c - start"
        using True assms by (auto simp: k_def less_diff_conv)
      ultimately show ?thesis using n assms by (simp add: nth_append lk slice_def)
    next
      case False
      then have "(start + i) mod c = i - k"
        using n assms by (auto simp: k_def mod_if)
      moreover have "slice buf 0 (n - k) ! (i - k) = buf ! (i - k)"
        using False n assms by (subst nth_slice) auto
      ultimately show ?thesis using False n by (auto simp: nth_append lk)
    qed
  qed
qed

section \<open>The ring refines a bounded byte sequence\<close>

lemma append_unfold:
  assumes "ring_ok r" "data \<noteq> []"
  defines "src \<equiv> take_last (usable_capacity r) data"
  defines "ow \<equiv> length src - (usable_capacity r - ring_size r)"
  shows "append data r = r\<lparr>cb_head := (cb_head r + ow) mod cb_capacity r,
      cb_tail := (cb_tail r + length src) mod cb_capacity r,
      cb_buffer := wrap_write (cb_buffer r) (cb_tail r) src,
      cb_overflow := cb_overflow r + (length data - length src) + ow\<rparr>"
proof -
  note ok = ring_okD [OF assms(1)]
  have cs: "(if cb_tail r \<ge> cb_head r then cb_tail r - cb_head r
      else cb_capacity r - cb_head r + cb_tail r) = ring_size r"
    by (simp add: ring_size_def)
  have s: "(if length data > cb_capacity r - 1 then drop (length data - (cb_capacity r - 1)) data
      else data) = src"
    by (simp add: src_def usable_capacity_def take_last_def)
  have n: "(if length data > cb_capacity r - 1 then cb_capacity r - 1 else length data) = length src"
    by (simp add: src_def usable_capacity_def)
  have l: "(if length data > cb_capacity r - 1 then length data - (cb_capacity r - 1) else 0)
      = length data - length src"
    by (simp add: src_def usable_capacity_def)
  have o: "(if length src > cb_capacity r - 1 - ring_size r
      then length src - (cb_capacity r - 1 - ring_size r) else 0) = ow"
    by (simp add: ow_def usable_capacity_def)
  have h: "(if length src > cb_capacity r - 1 - ring_size r then (cb_head r + ow) mod cb_capacity r
      else cb_head r) = (cb_head r + ow) mod cb_capacity r"
    using ok(3) by (auto simp: ow_def usable_capacity_def)
  show ?thesis
    using assms(2) ok(2)
    by (simp only: append_def Let_def ring_mask [OF assms(1)] cs s n l o h wrap_write_def if_False)
qed

lemma append_ok: "ring_ok r \<Longrightarrow> ring_ok (append data r)"
proof (cases "data = []")
  case False
  assume ok: "ring_ok r"
  have "min (usable_capacity r) (length data) < cb_capacity r"
    using ring_okD(1) [OF ok] by (simp add: usable_capacity_def)
  then show ?thesis
    using False ok ring_okD [OF ok] by (simp add: append_unfold ring_ok_def)
qed (simp add: append_def)

lemma append_size:
  assumes "ring_ok r"
  shows "ring_size (append data r) = min (usable_capacity r) (ring_size r + length data)"
proof (cases "data = []")
  case True
  then show ?thesis using ring_okD [OF assms] by (simp add: append_def usable_capacity_def)
next
  case False
  note ok = ring_okD [OF assms]
  define src where "src = take_last (usable_capacity r) data"
  define ow where "ow = length src - (usable_capacity r - ring_size r)"
  define c where "c = cb_capacity r"
  have src: "length src = min (usable_capacity r) (length data)" by (simp add: src_def)
  have eq: "cb_head (append data r) = (cb_head r + ow) mod c"
      "cb_tail (append data r) = (cb_tail r + length src) mod c"
      "cb_capacity (append data r) = c"
    using append_unfold [OF assms False] by (simp_all add: src_def ow_def c_def)
  define n where "n = ring_size r + length src - ow"
  have n: "n < c" "ow \<le> ring_size r"
    using ok(1,6) src unfolding n_def ow_def usable_capacity_def c_def by linarith+
  have "cb_tail (append data r) = (cb_head (append data r) + n) mod c"
  proof -
    have "cb_tail (append data r) = (cb_head r + ring_size r + length src) mod c"
      by (simp add: eq ring_tail [OF assms] c_def mod_simps)
    also have "cb_head r + ring_size r + length src = cb_head r + ow + n"
      using n by (simp add: n_def)
    finally show ?thesis by (simp add: eq mod_simps)
  qed
  moreover have "cb_head (append data r) < c" using ok(1) by (simp add: eq c_def)
  ultimately have "ring_size (append data r) = n"
    using n(1) by (intro ring_size_eqI) (simp_all add: eq(3))
  then show ?thesis
    using ok(6) src unfolding n_def ow_def usable_capacity_def by linarith
qed

text \<open>The main fact: appending keeps the newest bytes of the sequence, as many as are usable.\<close>

lemma append_contents:
  assumes "ring_ok r"
  shows "contents (append data r) = take_last (usable_capacity r) (contents r @ data)"
proof (cases "data = []")
  case True
  then show ?thesis using ring_okD [OF assms] by (simp add: append_def usable_capacity_def)
next
  case False
  note ok = ring_okD [OF assms]
  define src where "src = take_last (usable_capacity r) data"
  define ow where "ow = length src - (usable_capacity r - ring_size r)"
  define c where "c = cb_capacity r"
  define r' where "r' = append data r"
  have src: "length src = min (usable_capacity r) (length data)" by (simp add: src_def)
  have eq: "cb_head r' = (cb_head r + ow) mod c"
      "cb_buffer r' = wrap_write (cb_buffer r) (cb_tail r) src" "cb_capacity r' = c"
    using append_unfold [OF assms False] by (simp_all add: src_def ow_def c_def r'_def)
  have size: "ring_size r' = min (usable_capacity r) (ring_size r + length data)"
    by (simp add: r'_def append_size [OF assms])
  have u: "usable_capacity r = c - 1" by (simp add: usable_capacity_def c_def)
  have ow: "ow \<le> ring_size r" "ring_size r - ow + length src < c"
    "ring_size r' = ring_size r - ow + length src"
    using ok(1,6) src size unfolding ow_def u c_def by linarith+
  have short: "ow = ring_size r + length data - usable_capacity r \<and> length src = length data"
    if "length data \<le> usable_capacity r"
    using that src ok(6) by (simp add: ow_def u c_def)
  have long: "ow = ring_size r \<and> length src = usable_capacity r"
    if "\<not> length data \<le> usable_capacity r"
    using that src ok(6) by (simp add: ow_def u c_def)
  have w: "wrap_write (cb_buffer r) (cb_tail r) src ! ((cb_tail r + j) mod c)
      = (if j < length src then src ! j else cb_buffer r ! ((cb_tail r + j) mod c))"
    if "j < c" for j
    using wrap_write_nth [of "cb_tail r" "cb_buffer r" src j] that ok src
    by (simp add: c_def usable_capacity_def)
  have "contents r' ! i = take_last (usable_capacity r) (contents r @ data) ! i"
    if i: "i < ring_size r'" for i
  proof (cases "i < ring_size r - ow")
    case True
    let ?j = "c - (ring_size r - ow - i)"
    have "ring_size r + ?j = ow + i + c"
      using True ok(6) by (simp add: c_def)
    then have "(cb_tail r + ?j) mod c = (cb_head r + ow + i + c) mod c"
      unfolding ring_tail [OF assms] c_def [symmetric] mod_add_left_eq by (simp add: ac_simps)
    then have pos: "(cb_tail r + ?j) mod c = (cb_head r + ow + i) mod c" by simp
    have "contents r' ! i = cb_buffer r' ! ((cb_head r + ow + i) mod c)"
      using i by (simp add: list_reads eq mod_simps)
    also have "\<dots> = cb_buffer r ! ((cb_head r + ow + i) mod c)"
    proof -
      have "?j < c" "\<not> ?j < length src" using True ok(6) ow by (auto simp: c_def)
      then show ?thesis using w [of ?j] by (simp only: eq(2) pos if_False)
    qed
    also have "\<dots> = contents r ! (ow + i)"
      using True by (simp add: list_reads c_def add.assoc)
    also have "\<dots> = take_last (usable_capacity r) (contents r @ data) ! i"
    proof -
      have "ring_size r + length data - usable_capacity r = ow"
        using True short long by (cases "length data \<le> usable_capacity r") auto
      moreover have "ow + i < ring_size r" using True by simp
      ultimately show ?thesis using i size by (simp add: nth_take_last nth_append)
    qed
    finally show ?thesis .
  next
    case False
    let ?j = "i - (ring_size r - ow)"
    have j: "?j < length src" using False i ow by simp
    have "ring_size r + ?j = ow + i" using False ow(1) by simp
    then have "(cb_head r + ow + i) mod c = (cb_tail r + ?j) mod c"
      unfolding ring_tail [OF assms] c_def [symmetric] mod_add_left_eq by (simp add: ac_simps)
    then have "contents r' ! i = src ! ?j"
      using i j w [of ?j] ow(2) by (simp add: list_reads eq mod_simps)
    also have "\<dots> = take_last (usable_capacity r) (contents r @ data) ! i"
    proof -
      have "ring_size r + length data - usable_capacity r + i - ring_size r
          = length data - usable_capacity r + ?j"
        "\<not> ring_size r + length data - usable_capacity r + i < ring_size r"
        using False short long by (cases "length data \<le> usable_capacity r"; auto)+
      then show ?thesis
        using i j size src by (simp add: nth_take_last nth_append src_def)
    qed
    finally show ?thesis .
  qed
  then have "contents r' = take_last (usable_capacity r) (contents r @ data)"
    using size by (intro nth_equalityI) simp_all
  then show ?thesis by (simp add: r'_def)
qed

text \<open>Bytes lost by an append are exactly the ones the counter reports.\<close>

lemma append_overflow:
  assumes "ring_ok r"
  shows "cb_overflow (append data r) + ring_size (append data r)
    = cb_overflow r + ring_size r + length data"
proof (cases "data = []")
  case False
  note ok = ring_okD [OF assms]
  have "cb_overflow (append data r) = cb_overflow r
      + (length data - min (usable_capacity r) (length data))
      + (min (usable_capacity r) (length data) - (usable_capacity r - ring_size r))"
    by (simp add: append_unfold [OF assms False])
  then show ?thesis
    using ok(6) by (auto simp: append_size [OF assms] usable_capacity_def min_def)
qed (simp add: append_def)

lemma append_capacity [simp]: "cb_capacity (append data r) = cb_capacity r"
  by (simp add: append_def Let_def)

lemma discard_capacity [simp]: "cb_capacity (discard n r) = cb_capacity r"
  by (simp add: discard_def Let_def)

lemma discard_overflow [simp]: "cb_overflow (discard n r) = cb_overflow r"
  by (simp add: discard_def Let_def)

lemma discard_ok: "ring_ok r \<Longrightarrow> ring_ok (discard n r)"
  using ring_okD(1) [of r] ring_mask [of r] by (auto simp: discard_def Let_def ring_ok_def)

lemma discard_size:
  assumes "ring_ok r"
  shows "ring_size (discard n r) = ring_size r - n"
proof (cases "n = 0 \<or> ring_size r = 0")
  case False
  note ok = ring_okD [OF assms]
  define k where "k = min n (ring_size r)"
  define c where "c = cb_capacity r"
  have d: "discard n r = r\<lparr>cb_head := (cb_head r + k) mod c\<rparr>"
    using False by (simp add: discard_def Let_def k_def c_def ring_mask [OF assms])
  have "cb_tail r = (cb_head r + k + (ring_size r - k)) mod c"
    using ring_tail [OF assms] by (simp add: k_def c_def)
  then have t: "cb_tail r = ((cb_head r + k) mod c + (ring_size r - k)) mod c"
    by (simp add: mod_simps)
  have "(cb_head r + k) mod c < c" "ring_size r - k < c" using ok by (simp_all add: c_def)
  then have "ring_size (discard n r) = ring_size r - k"
    unfolding d using t by (intro ring_size_eqI) (simp_all add: c_def)
  then show ?thesis by (simp add: k_def)
qed (auto simp: discard_def)

lemma discard_contents:
  assumes "ring_ok r"
  shows "contents (discard n r) = drop n (contents r)"
proof (rule nth_equalityI)
  show "length (contents (discard n r)) = length (drop n (contents r))"
    by (simp add: discard_size [OF assms])
  fix i assume i: "i < length (contents (discard n r))"
  then have n: "n + i < ring_size r" by (simp add: discard_size [OF assms])
  then have "cb_head (discard n r) = (cb_head r + n) mod cb_capacity r"
      "cb_buffer (discard n r) = cb_buffer r"
    using ring_okD(3) [OF assms] by (auto simp: discard_def Let_def ring_mask [OF assms])
  then show "contents (discard n r) ! i = drop n (contents r) ! i"
    using i n by (simp add: list_reads mod_simps add.assoc)
qed

lemma peekRange_contents:
  assumes "ring_ok r"
  shows "peekRange offset n r = slice (contents r) offset n"
proof (cases "offset \<ge> ring_size r \<or> n = 0")
  case False
  note ok = ring_okD [OF assms]
  define start where "start = (cb_head r + offset) mod cb_capacity r"
  define k where "k = min n (ring_size r - offset)"
  have s: "start < cb_capacity r" "k \<le> cb_capacity r"
    using ok by (auto simp: start_def k_def)
  have "peekRange offset n r = map (\<lambda>i. cb_buffer r ! ((start + i) mod cb_capacity r)) [0..<k]"
    unfolding peekRange_def Let_def ring_mask [OF assms] start_def [symmetric] k_def [symmetric]
      wrap_read [OF ok(2) s] using False by simp
  also have "\<dots> = slice (contents r) offset n"
    using False
    by (intro nth_equalityI)
      (auto simp: slice_def k_def list_reads start_def mod_simps add.assoc)
  finally show ?thesis .
qed (auto simp: peekRange_def slice_def)

lemma ring_read_contents:
  assumes "ring_ok r" "n \<le> ring_size r"
  shows "fst (ring_read n r) = take n (contents r)"
    and "contents (snd (ring_read n r)) = drop n (contents r)"
    and "ring_ok (snd (ring_read n r))"
proof -
  note ok = ring_okD [OF assms(1)]
  have "n \<le> cb_capacity r" using assms(2) ok(6) by simp
  then have "fst (ring_read n r)
      = map (\<lambda>i. cb_buffer r ! ((cb_head r + i) mod cb_capacity r)) [0..<n]"
    unfolding ring_read_def Let_def wrap_read [OF ok(2,3) \<open>n \<le> cb_capacity r\<close>]
    using assms(2) by simp
  then show "fst (ring_read n r) = take n (contents r)"
    using assms(2) by (intro nth_equalityI) (auto simp: list_reads)
  have "snd (ring_read n r) = discard n r"
    using assms ok(3) by (auto simp: ring_read_def discard_def Let_def ring_mask)
  then show "contents (snd (ring_read n r)) = drop n (contents r)" "ring_ok (snd (ring_read n r))"
    using discard_contents [OF assms(1)] discard_ok [OF assms(1)] by simp_all
qed

lemma ring_read_short: "ring_size r < n \<Longrightarrow> ring_read n r = ([], r)"
  by (simp add: ring_read_def)

section \<open>Capacity rounding and construction\<close>

text \<open>
  \<open>roundUpToPowerOfTwo\<close> returns the least power of two that is at least 2 and at least its
  argument, for every argument a 64-bit size can hold without overflowing.
\<close>

lemma roundUp_between:
  assumes "value \<le> 2 ^ 63"
  obtains m where "roundUpToPowerOfTwo value = 2 ^ Suc m" "max 2 value \<le> 2 ^ Suc m"
    "2 ^ m < max 2 value"
proof -
  define v where "v = max 2 value - 1"
  have v: "0 < v" by (simp add: v_def)
  obtain m where m: "2 ^ m \<le> v" "v < 2 ^ Suc m"
    using ex_power_ivl1 [of 2 v] v by auto
  have "m < 64"
  proof (rule ccontr)
    assume "\<not> m < 64"
    then have "(2::nat) ^ 64 \<le> 2 ^ m" by (intro power_increasing) auto
    with m(1) assms show False by (simp add: v_def max_def split: if_splits)
  qed
  have "smeared 64 v (smear 32 (smear 16 (smear 8 (smear 4 (smear 2 (smear 1 v))))))"
    by (rule smeared_step smeared_start | simp)+
  then have "smear 32 (smear 16 (smear 8 (smear 4 (smear 2 (smear 1 v))))) = 2 ^ Suc m - 1"
    by (rule smeared_mask) (use m \<open>m < 64\<close> in auto)
  moreover have "(if value < 2 then 2 else value) - 1 = v" by (simp add: v_def max_def)
  ultimately have "roundUpToPowerOfTwo value = 2 ^ Suc m"
    by (simp add: roundUpToPowerOfTwo_def Let_def)
  then show ?thesis using m v by (intro that [of m]) (auto simp: v_def)
qed

lemma roundUp_pow2: "value \<le> 2 ^ 63 \<Longrightarrow> pow2 (roundUpToPowerOfTwo value)"
  by (metis pow2_def roundUp_between zero_less_Suc)

lemma roundUp_ge:
  assumes "value \<le> 2 ^ 63"
  shows "value \<le> roundUpToPowerOfTwo value" "2 \<le> roundUpToPowerOfTwo value"
  using roundUp_between [OF assms] by (metis max.bounded_iff)+

lemma roundUp_least:
  assumes "value \<le> 2 ^ 63" "pow2 n" "value \<le> n"
  shows "roundUpToPowerOfTwo value \<le> n"
proof -
  obtain m where m: "roundUpToPowerOfTwo value = 2 ^ Suc m" "2 ^ m < max 2 value"
    using roundUp_between [OF assms(1)] by metis
  obtain k where k: "n = 2 ^ k" "0 < k" using assms(2) by (auto simp: pow2_def)
  have "max 2 value \<le> n" using assms(3) pow2_gt_1 [OF assms(2)] by simp
  with m k have "(2::nat) ^ m < 2 ^ k" by linarith
  then have "m < k" by simp
  then have "(2::nat) ^ Suc m \<le> 2 ^ k" by (intro power_increasing) auto
  then show ?thesis using m k by simp
qed

lemma new_ring_ok: "capacity \<le> 2 ^ 63 \<Longrightarrow> ring_ok (new_ring capacity)"
  using roundUp_pow2 [of capacity] pow2_gt_1 [of "roundUpToPowerOfTwo capacity"]
  by (simp add: new_ring_def Let_def ring_ok_def)

lemma new_ring_empty: "contents (new_ring capacity) = []"
  by (simp add: new_ring_def Let_def contents_def ring_size_def)

lemma clear_ok: "ring_ok r \<Longrightarrow> ring_ok (ring_clear r)"
  by (auto simp: ring_ok_def ring_clear_def pow2_def)

lemma clear_empty: "contents (ring_clear r) = []"
  by (simp add: ring_clear_def contents_def ring_size_def)

lemma setCapacity_ok: "capacity \<le> 2 ^ 63 \<Longrightarrow> ring_ok (setCapacity capacity r)"
  using roundUp_pow2 [of capacity] pow2_gt_1 [of "roundUpToPowerOfTwo capacity"]
  by (simp add: setCapacity_def Let_def ring_ok_def ring_clear_def)

lemma setCapacity_empty: "contents (setCapacity capacity r) = []"
  by (simp add: setCapacity_def Let_def ring_clear_def contents_def ring_size_def)

section \<open>The ring provides both contracts\<close>

interpretation byte_ring: fifo_buffer append contents usable_capacity ring_ok discard peekRange
proof unfold_locales
  fix q :: ring and xs :: bytes and n at :: nat
  assume ok: "ring_ok q"
  show "ring_ok (append xs q)" by (rule append_ok [OF ok])
  show "contents (append xs q) = take_last (usable_capacity q) (contents q @ xs)"
    by (rule append_contents [OF ok])
  show "usable_capacity (append xs q) = usable_capacity q" by (simp add: usable_capacity_def)
  show "length (contents q) \<le> usable_capacity q"
    using ring_okD(6) [OF ok] by (simp add: usable_capacity_def)
  show "ring_ok (discard n q)" by (rule discard_ok [OF ok])
  show "contents (discard n q) = drop n (contents q)" by (rule discard_contents [OF ok])
  show "usable_capacity (discard n q) = usable_capacity q" by (simp add: usable_capacity_def)
  show "peekRange at n q = slice (contents q) at n" by (rule peekRange_contents [OF ok])
qed

section \<open>Properties\<close>

text \<open>C32: Appending to the ring keeps its representation well formed, leaves the newest bytes
(as many as the usable capacity holds) in arrival order, and the overflow counter grows by exactly
the number of bytes that were lost.\<close>

theorem append_keeps_newest:
  assumes "ring_ok r"
  shows "ring_ok (append data r)
    \<and> contents (append data r) = take_last (usable_capacity r) (contents r @ data)
    \<and> cb_overflow (append data r) + ring_size (append data r)
      = cb_overflow r + ring_size r + length data"
  using assms by (simp add: append_ok append_contents append_overflow)

text \<open>Five bytes into a fresh ring of capacity four: three stay, two are counted as lost.\<close>

theorem append_keeps_newest_witness:
  "contents (append [1, 2, 3, 4, 5] (new_ring 4)) = [3, 4, 5]"
proof -
  have "ring_ok (new_ring 4)" by (simp add: new_ring_ok)
  moreover have "contents (new_ring 4) = []" by (rule new_ring_empty)
  moreover have "usable_capacity (new_ring 4) = 3"
    by (simp add: usable_capacity_def new_ring_def roundUpToPowerOfTwo_def smear_def)
  ultimately show ?thesis
    using append_keeps_newest[of "new_ring 4" "[1, 2, 3, 4, 5]"] by (simp add: take_last_def)
qed

end
