(* ===== verification/Pattern_Scan.thy ===== *)
theory Pattern_Scan
  imports Circular_Buffer
begin

unbundle bit_operations_syntax

text \<open>
  The searches of \<open>IO::CircularBuffer\<close>: single bytes, short delimiters, KMP over the linear and the
  wrapped ring, the multi-pattern scan and the masked-byte scans of the fixed-length mode. A \<open>-1\<close>
  result is \<open>None\<close>; the KMP loops are \<open>while_option\<close>, so a scan that would not return is \<open>None\<close>
  one level further out, and that it never happens is proved.
\<close>

section \<open>Single bytes\<close>

definition byteScanLinear :: "bytes \<Rightarrow> nat \<Rightarrow> nat \<Rightarrow> byte \<Rightarrow> nat option" where
  "byteScanLinear base current_size pos b =
     (if pos \<ge> current_size then None
      else map_option (\<lambda>hit. pos + hit) (memchr b (slice base pos (current_size - pos))))"

definition byteScanWrap :: "ring \<Rightarrow> nat \<Rightarrow> nat \<Rightarrow> nat \<Rightarrow> byte \<Rightarrow> nat option" where
  "byteScanWrap r current_size pos head b =
     (let firstLen = cb_capacity r - head;
          hit1 = (if pos < firstLen
                  then map_option (\<lambda>hit. pos + hit)
                         (memchr b (slice (cb_buffer r) (head + pos) (firstLen - pos)))
                  else None)
      in case hit1 of
           Some i \<Rightarrow> Some i
         | None \<Rightarrow>
             let start2 = max pos firstLen
             in if start2 < current_size
                then map_option (\<lambda>hit. start2 + hit)
                       (memchr b (slice (cb_buffer r) (start2 - firstLen) (current_size - start2)))
                else None)"

section \<open>Short patterns over the linear region\<close>

function short_loop :: "bytes \<Rightarrow> bytes \<Rightarrow> nat \<Rightarrow> nat \<Rightarrow> nat \<Rightarrow> nat \<Rightarrow> nat option" where
  "short_loop base pData last_pos pos it i =
     (if it \<le> last_pos - pos \<and> i \<le> last_pos
      then case memchr (pData ! 0) (slice base i (last_pos - i + 1)) of
             None \<Rightarrow> None
           | Some hit \<Rightarrow>
               (if slice base (i + hit) (length pData) = pData then Some (i + hit)
                else short_loop base pData last_pos pos (it + 1) (i + hit + 1))
      else None)"
  by pat_completeness auto
termination
  by (relation "measure (\<lambda>(base, pData, last_pos, pos, it, i). Suc last_pos - i)") auto

declare short_loop.simps [simp del]

definition shortPatternScanLinear :: "bytes \<Rightarrow> nat \<Rightarrow> nat \<Rightarrow> bytes \<Rightarrow> nat option" where
  "shortPatternScanLinear base current_size pos pData =
     (let last_pos = current_size - length pData
      in if pos > last_pos then None else short_loop base pData last_pos pos 0 pos)"

section \<open>Knuth-Morris-Pratt\<close>

text \<open>State of the scans: \<open>i\<close>, \<open>j\<close> and the value returned from inside the loop, if any.\<close>

definition kmp_step :: "bytes \<Rightarrow> bytes \<Rightarrow> nat list \<Rightarrow> nat \<times> nat \<times> nat option \<Rightarrow> nat \<times> nat \<times> nat option"
  where
  "kmp_step base pData lps = (\<lambda>(i, j, res).
     if base ! i = pData ! j
     then (if j + 1 = length pData then (i + 1, j + 1, Some (i + 1 - (j + 1)))
           else (i + 1, j + 1, None))
     else if j \<noteq> 0 then (i, lps ! (j - 1), None)
     else (i + 1, j, None))"

definition kmpScanLinear :: "bytes \<Rightarrow> nat \<Rightarrow> nat \<Rightarrow> bytes \<Rightarrow> nat list \<Rightarrow> nat option option" where
  "kmpScanLinear base current_size pos pData lps =
     map_option (\<lambda>(i, j, res). res)
       (while_option (\<lambda>(i, j, res). res = None \<and> i < current_size) (kmp_step base pData lps)
          (pos, 0, None))"

definition kmp_wrap_step ::
  "ring \<Rightarrow> bytes \<Rightarrow> nat list \<Rightarrow> nat \<times> nat \<times> nat \<times> nat option \<Rightarrow> nat \<times> nat \<times> nat \<times> nat option"
  where
  "kmp_wrap_step r pData lps = (\<lambda>(bufferIdx, i, j, res).
     if cb_buffer r ! bufferIdx = pData ! j
     then (let bufferIdx = (bufferIdx + 1) AND cb_mask r
           in if j + 1 = length pData then (bufferIdx, i + 1, j + 1, Some (i + 1 - (j + 1)))
              else (bufferIdx, i + 1, j + 1, None))
     else if j \<noteq> 0 then (bufferIdx, i, lps ! (j - 1), None)
     else ((bufferIdx + 1) AND cb_mask r, i + 1, j, None))"

definition kmpScanWrap :: "ring \<Rightarrow> nat \<Rightarrow> nat \<Rightarrow> nat \<Rightarrow> bytes \<Rightarrow> nat list \<Rightarrow> nat option option" where
  "kmpScanWrap r current_size pos head pData lps =
     map_option (\<lambda>(bufferIdx, i, j, res). res)
       (while_option (\<lambda>(bufferIdx, i, j, res). res = None \<and> i < current_size)
          (kmp_wrap_step r pData lps) ((head + pos) AND cb_mask r, pos, 0, None))"

definition kmp_table_step :: "bytes \<Rightarrow> nat \<times> nat \<times> nat list \<Rightarrow> nat \<times> nat \<times> nat list" where
  "kmp_table_step p = (\<lambda>(i, len, lps).
     if p ! i = p ! len then (i + 1, len + 1, lps[i := len + 1])
     else if len \<noteq> 0 then (i, lps ! (len - 1), lps)
     else (i + 1, len, lps[i := 0]))"

definition computeKMPTable :: "bytes \<Rightarrow> nat list option" where
  "computeKMPTable p =
     map_option (\<lambda>(i, len, lps). lps)
       (while_option (\<lambda>(i, len, lps). i < length p) (kmp_table_step p)
          (1, 0, replicate (length p) 0))"

section \<open>The dispatching search\<close>

definition kShortPatternMax :: nat where
  "kShortPatternMax = 8"

definition findPatternKMP :: "ring \<Rightarrow> bytes \<Rightarrow> nat list \<Rightarrow> nat \<Rightarrow> nat option option" where
  "findPatternKMP r pattern lps pos =
     (let current_size = ring_size r
      in if pattern = [] \<or> current_size < length pattern then Some None
         else let head = cb_head r;
                  linear = (head + current_size \<le> cb_capacity r);
                  base = drop head (cb_buffer r)
              in if length pattern = 1
                 then (if linear then Some (byteScanLinear base current_size pos (pattern ! 0))
                       else Some (byteScanWrap r current_size pos head (pattern ! 0)))
                 else if linear \<and> length pattern \<le> kShortPatternMax
                 then Some (shortPatternScanLinear base current_size pos pattern)
                 else if linear then kmpScanLinear base current_size pos pattern lps
                 else kmpScanWrap r current_size pos head pattern lps)"

text \<open>The overload that computes the table for this call.\<close>

definition findPatternKMP_now :: "ring \<Rightarrow> bytes \<Rightarrow> nat \<Rightarrow> nat option option" where
  "findPatternKMP_now r pattern pos =
     Option.bind (computeKMPTable pattern) (\<lambda>lps. findPatternKMP r pattern lps pos)"

section \<open>Masked scans\<close>

text \<open>
  \<open>scanMasked<Match>\<close>: both linear segments in turn; \<open>mt\<close> is the template argument \<open>Match\<close>.
\<close>

definition scanMasked :: "bool \<Rightarrow> ring \<Rightarrow> byte \<Rightarrow> byte \<Rightarrow> nat \<Rightarrow> nat \<Rightarrow> nat option" where
  "scanMasked mt r msk value from_pos to_pos =
     (let end_pos = min to_pos (ring_size r)
      in if from_pos \<ge> end_pos then None
         else let head = cb_head r;
                  firstLen = min end_pos (cb_capacity r - head)
              in case first_idx (\<lambda>i. ((cb_buffer r ! (head + i) AND msk) = value) = mt)
                        from_pos firstLen of
                   Some i \<Rightarrow> Some i
                 | None \<Rightarrow>
                     first_idx (\<lambda>i. ((cb_buffer r ! (i - firstLen) AND msk) = value) = mt)
                       (max from_pos firstLen) end_pos)"

definition findMaskedByte :: "ring \<Rightarrow> byte \<Rightarrow> byte \<Rightarrow> nat \<Rightarrow> nat option" where
  "findMaskedByte r msk value from_pos = scanMasked True r msk value from_pos (ring_size r)"

definition findMaskedMismatch :: "ring \<Rightarrow> byte \<Rightarrow> byte \<Rightarrow> nat \<Rightarrow> nat \<Rightarrow> nat option" where
  "findMaskedMismatch r msk value from_pos to_pos = scanMasked False r msk value from_pos to_pos"

section \<open>Multi-pattern scan\<close>

definition kMaxPatterns :: nat where
  "kMaxPatterns = 8"

definition buildPatternAnchors :: "bytes list \<Rightarrow> bytes" where
  "buildPatternAnchors patterns =
     fold (\<lambda>p anchors. let c = (case p of [] \<Rightarrow> 0 | c # cs \<Rightarrow> c) in if c \<in> set anchors then anchors else anchors @ [c])
       (take kMaxPatterns patterns) []"

definition simdFindAnyByte :: "bytes \<Rightarrow> nat \<Rightarrow> bytes \<Rightarrow> nat" where
  "simdFindAnyByte dat len needles =
     (if \<not> (1 \<le> length needles \<and> length needles \<le> 8) then len
      else case first_idx (\<lambda>i. dat ! i \<in> set needles) 0 len of Some i \<Rightarrow> i | None \<Rightarrow> len)"

text \<open>\<open>matchAt\<close>: the first pattern that lies at offset \<open>i\<close>.\<close>

definition matchAt :: "(nat \<Rightarrow> byte) \<Rightarrow> nat \<Rightarrow> bytes list \<Rightarrow> nat \<Rightarrow> nat option" where
  "matchAt byteAt bufSize patterns i =
     first_idx (\<lambda>p. i + length (patterns ! p) \<le> bufSize
         \<and> (\<forall>j \<in> set [0..<length (patterns ! p)]. byteAt (i + j) = patterns ! p ! j))
       0 (min (length patterns) kMaxPatterns)"

function anchored_loop ::
  "bytes \<Rightarrow> nat \<Rightarrow> nat \<Rightarrow> bytes list \<Rightarrow> bytes \<Rightarrow> nat \<Rightarrow> nat \<Rightarrow> (nat \<times> nat) option" where
  "anchored_loop base bufSize scanEnd patterns anchors it i =
     (if it < scanEnd \<and> i < scanEnd
      then let rel = simdFindAnyByte (drop i base) (scanEnd - i) anchors
           in if rel \<ge> scanEnd - i then None
              else case matchAt (\<lambda>k. base ! k) bufSize patterns (i + rel) of
                     Some hit \<Rightarrow> Some (i + rel, hit)
                   | None \<Rightarrow> anchored_loop base bufSize scanEnd patterns anchors (it + 1) (i + rel + 1)
      else None)"
  by pat_completeness auto
termination
  by (relation "measure (\<lambda>(base, bufSize, scanEnd, patterns, anchors, it, i). scanEnd - i)") auto

declare anchored_loop.simps [simp del]

definition wrapped_scan :: "ring \<Rightarrow> nat \<Rightarrow> nat \<Rightarrow> bytes list \<Rightarrow> (nat \<times> nat) option" where
  "wrapped_scan r bufSize scanEnd patterns =
     (let byteAt = (\<lambda>k. cb_buffer r ! ((cb_head r + k) AND cb_mask r))
      in map_option (\<lambda>i. (i, the (matchAt byteAt bufSize patterns i)))
           (first_idx (\<lambda>i. matchAt byteAt bufSize patterns i \<noteq> None) 0 scanEnd))"

definition findFirstOfPatterns :: "ring \<Rightarrow> bytes list \<Rightarrow> bytes \<Rightarrow> (nat \<times> nat) option" where
  "findFirstOfPatterns r patterns anchors =
     (let bufSize = ring_size r
      in if patterns = [] \<or> bufSize = 0 then None
         else let minLen = fold (\<lambda>p m. min m (length p)) (take kMaxPatterns patterns) bufSize
              in if minLen = 0 \<or> bufSize < minLen then None
                 else let scanEnd = bufSize - minLen + 1
                      in if cb_head r + bufSize \<le> cb_capacity r
                         then anchored_loop (drop (cb_head r) (cb_buffer r)) bufSize scanEnd
                                patterns anchors 0 0
                         else wrapped_scan r bufSize scanEnd patterns)"


section \<open>The failure table\<close>

text \<open>\<open>border p j k\<close>: the prefix of length \<open>k\<close> is a proper suffix of the prefix of length \<open>j\<close>.\<close>

definition border :: "bytes \<Rightarrow> nat \<Rightarrow> nat \<Rightarrow> bool" where
  "border p j k \<longleftrightarrow> k < j \<and> (\<forall>t < k. p ! t = p ! (j - k + t))"

definition longest_border :: "bytes \<Rightarrow> nat \<Rightarrow> nat \<Rightarrow> bool" where
  "longest_border p j k \<longleftrightarrow> border p j k \<and> (\<forall>l. border p j l \<longrightarrow> l \<le> k)"

definition lps_ok :: "bytes \<Rightarrow> nat list \<Rightarrow> bool" where
  "lps_ok p lps \<longleftrightarrow> length lps = length p
     \<and> (\<forall>j. 1 \<le> j \<and> j \<le> length p \<longrightarrow> longest_border p j (lps ! (j - 1)))"

lemma border_0 [simp]: "border p j 0 \<longleftrightarrow> 0 < j"
  by (simp add: border_def)

lemma border_Suc: "border p (Suc j) (Suc k) \<longleftrightarrow> border p j k \<and> p ! k = p ! j"
  by (auto simp: border_def less_Suc_eq)

lemma border_trans: "border p j l \<Longrightarrow> border p l k \<Longrightarrow> border p j k"
proof -
  assume a: "border p j l" "border p l k"
  have "p ! t = p ! (j - k + t)" if "t < k" for t
  proof -
    have "k < l" using a(2) by (simp add: border_def)
    then have t: "l - k + t < l" using that by linarith
    have "p ! t = p ! (l - k + t)" using a(2) that by (simp add: border_def)
    also have "\<dots> = p ! (j - l + (l - k + t))" using a(1) t unfolding border_def by blast
    also have "j - l + (l - k + t) = j - k + t" using a by (simp add: border_def)
    finally show ?thesis .
  qed
  with a show ?thesis by (simp add: border_def)
qed

lemma border_between: "border p j l \<Longrightarrow> border p j k \<Longrightarrow> k < l \<Longrightarrow> border p l k"
proof -
  assume a: "border p j l" "border p j k" "k < l"
  have "p ! t = p ! (l - k + t)" if "t < k" for t
  proof -
    have t: "l - k + t < l" using a(3) that by linarith
    have "p ! (l - k + t) = p ! (j - l + (l - k + t))" using a(1) t unfolding border_def by blast
    also have "j - l + (l - k + t) = j - k + t" using a by (simp add: border_def)
    finally show ?thesis using a(2) that by (simp add: border_def)
  qed
  with a show ?thesis by (simp add: border_def)
qed

definition table_inv :: "bytes \<Rightarrow> nat \<times> nat \<times> nat list \<Rightarrow> bool" where
  "table_inv p = (\<lambda>(i, len, lps). 1 \<le> i \<and> i \<le> max 1 (length p) \<and> length lps = length p
     \<and> (\<forall>j. 1 \<le> j \<and> j \<le> i \<and> j \<le> length p \<longrightarrow> longest_border p j (lps ! (j - 1)))
     \<and> border p i len \<and> (\<forall>l. border p (Suc i) l \<longrightarrow> l \<le> Suc len))"

lemma table_inv_grow:
  assumes inv: "table_inv p (i, len, lps)" and i: "i < length p"
    and b: "longest_border p (Suc i) b"
  shows "table_inv p (i + 1, b, lps[i := b])"
proof -
  have "longest_border p j (lps[i := b] ! (j - 1))" if "1 \<le> j" "j \<le> i + 1" "j \<le> length p" for j
    using that inv i b by (cases "j = i + 1") (auto simp: table_inv_def nth_list_update)
  moreover have "l \<le> Suc b" if "border p (Suc (i + 1)) l" for l
    using that b by (cases l) (auto simp: longest_border_def border_Suc)
  ultimately show ?thesis
    using inv i b by (auto simp: table_inv_def longest_border_def)
qed

lemma table_inv_step:
  assumes inv: "table_inv p (i, len, lps)" and i: "i < length p"
  shows "table_inv p (kmp_table_step p (i, len, lps))"
proof -
  have bd: "border p i len" and top: "\<And>l. border p (Suc i) l \<Longrightarrow> l \<le> Suc len" and i1: "1 \<le> i"
    and tab: "\<And>j. 1 \<le> j \<Longrightarrow> j \<le> i \<Longrightarrow> longest_border p j (lps ! (j - 1))"
    using inv i by (auto simp: table_inv_def)
  consider (same) "p ! i = p ! len" | (retry) "p ! i \<noteq> p ! len" "len \<noteq> 0"
    | (none) "p ! i \<noteq> p ! len" "len = 0" by blast
  then show ?thesis
  proof cases
    case same
    then have "longest_border p (Suc i) (Suc len)"
      using bd top by (auto simp: longest_border_def border_Suc)
    from table_inv_grow [OF inv i this] same show ?thesis by (simp add: kmp_table_step_def)
  next
    case retry
    let ?l = "lps ! (len - 1)"
    have lb: "longest_border p len ?l" using tab [of len] retry bd by (auto simp: border_def)
    have "l \<le> Suc ?l" if l: "border p (Suc i) l" for l
    proof (cases l)
      case (Suc k)
      then have k: "border p i k" "p ! k = p ! i" using l by (auto simp: border_Suc)
      then have "k < len" using top [OF l] Suc retry(1) by (cases "k = len") auto
      with k bd have "border p len k" by (auto intro: border_between)
      then show ?thesis using lb Suc by (auto simp: longest_border_def)
    qed simp
    moreover have "border p i ?l" using bd lb by (auto intro: border_trans simp: longest_border_def)
    ultimately show ?thesis
      using inv retry by (auto simp: table_inv_def kmp_table_step_def)
  next
    case none
    have "l = 0" if l: "border p (Suc i) l" for l
      using top [OF l] l none by (cases l) (auto simp: border_Suc)
    then have "longest_border p (Suc i) 0" by (auto simp: longest_border_def)
    from table_inv_grow [OF inv i this] none show ?thesis by (simp add: kmp_table_step_def)
  qed
qed

lemma table_step_decreases:
  assumes inv: "table_inv p (i, len, lps)" and i: "i < length p"
  shows "(\<lambda>(i, len, lps). 2 * (length p - i) + len) (kmp_table_step p (i, len, lps))
     < 2 * (length p - i) + len"
proof -
  have "len \<noteq> 0 \<Longrightarrow> longest_border p len (lps ! (len - 1))"
    using inv i by (auto simp: table_inv_def border_def)
  then have "len \<noteq> 0 \<Longrightarrow> lps ! (len - 1) < len" by (auto simp: longest_border_def border_def)
  then show ?thesis using i by (auto simp: kmp_table_step_def)
qed

lemma computeKMPTable_ok: "\<exists>lps. computeKMPTable p = Some lps \<and> lps_ok p lps"
proof -
  have "Suc 0 \<le> length p \<Longrightarrow> replicate (length p) (0 :: nat) ! 0 = 0" by (cases "length p") auto
  then have start: "table_inv p (1, 0, replicate (length p) 0)"
    by (auto simp: table_inv_def longest_border_def border_def)
  have "\<exists>t. while_option (\<lambda>(i, len, lps). i < length p) (kmp_table_step p)
      (1, 0, replicate (length p) 0) = Some t \<and> table_inv p t
      \<and> \<not> (\<lambda>(i, len, lps). i < length p) t"
  proof (rule total_while [where f = "\<lambda>(i, len, lps). 2 * (length p - i) + len"])
    fix s assume "table_inv p s" "(\<lambda>(i, len, lps). i < length p) s"
    then show "table_inv p (kmp_table_step p s)
        \<and> (\<lambda>(i, len, lps). 2 * (length p - i) + len) (kmp_table_step p s)
          < (\<lambda>(i, len, lps). 2 * (length p - i) + len) s"
      using table_inv_step table_step_decreases by (cases s) simp
  qed (rule start)
  then show ?thesis by (auto simp: computeKMPTable_def table_inv_def lps_ok_def)
qed

section \<open>The scans\<close>

definition kmp_inv :: "bytes \<Rightarrow> bytes \<Rightarrow> nat \<Rightarrow> nat \<times> nat \<times> nat option \<Rightarrow> bool" where
  "kmp_inv xs p pos = (\<lambda>(i, j, res). case res of
       None \<Rightarrow> j < length p \<and> pos + j \<le> i \<and> (\<forall>t < j. xs ! (i - j + t) = p ! t)
         \<and> (\<forall>k. pos \<le> k \<and> k + j < i \<longrightarrow> \<not> occurs_at xs p k)
     | Some q \<Rightarrow> find_pattern xs p pos = Some q)"

lemma kmp_inv_step:
  assumes inv: "kmp_inv xs p pos (i, j, None)" and i: "i < length xs" and lps: "lps_ok p lps"
  shows "kmp_inv xs p pos (kmp_step xs p lps (i, j, None))"
proof -
  have j: "j < length p" "pos + j \<le> i" and pre: "\<And>t. t < j \<Longrightarrow> xs ! (i - j + t) = p ! t"
    and no: "\<And>k. pos \<le> k \<Longrightarrow> k + j < i \<Longrightarrow> \<not> occurs_at xs p k"
    using inv by (auto simp: kmp_inv_def)
  consider (same) "xs ! i = p ! j" | (retry) "xs ! i \<noteq> p ! j" "j \<noteq> 0" | (none) "xs ! i \<noteq> p ! j" "j = 0"
    by blast
  then show ?thesis
  proof cases
    case same
    then have all: "xs ! (i - j + t) = p ! t" if "t < Suc j" for t
      using that pre [of t] j by (cases "t = j") auto
    show ?thesis
    proof (cases "j + 1 = length p")
      case True
      then have "occurs_at xs p (i - j)" using all i j by (auto simp: occurs_at_iff)
      then have "find_pattern xs p pos = Some (i - j)"
        using j no by (auto simp: find_pattern_Some)
      then show ?thesis using same True by (simp add: kmp_step_def kmp_inv_def)
    next
      case False
      then show ?thesis using same all j no by (auto simp: kmp_step_def kmp_inv_def)
    qed
  next
    case retry
    let ?l = "lps ! (j - 1)"
    have lb: "longest_border p j ?l" using lps retry j by (auto simp: lps_ok_def)
    then have bd: "border p j ?l" and lt: "?l < j" by (auto simp: longest_border_def border_def)
    have "xs ! (i - ?l + t) = p ! t" if "t < ?l" for t
    proof -
      have "xs ! (i - j + (j - ?l + t)) = p ! (j - ?l + t)" using that lt by (intro pre) simp
      moreover have "i - j + (j - ?l + t) = i - ?l + t" using lt j by simp
      moreover have "p ! t = p ! (j - ?l + t)" using bd that by (simp add: border_def)
      ultimately show ?thesis by (simp only:)
    qed
    moreover have "\<not> occurs_at xs p k" if k: "pos \<le> k" "k + ?l < i" for k
    proof
      assume occ: "occurs_at xs p k"
      then have "\<not> k + j < i" using no k by blast
      moreover have "k + j \<noteq> i" using occ retry j by (auto simp: occurs_at_iff)
      ultimately have l: "i - k < j" "k < i" using k by auto
      have "p ! t = p ! (j - (i - k) + t)" if t: "t < i - k" for t
      proof -
        have "p ! t = xs ! (k + t)" using occ t l j by (simp add: occurs_at_iff)
        also have "k + t = i - j + (j - (i - k) + t)" using l j by simp
        also have "xs ! \<dots> = p ! (j - (i - k) + t)" using l t by (intro pre) simp
        finally show ?thesis .
      qed
      then have "border p j (i - k)" using l by (simp add: border_def)
      then show False using lb k by (auto simp: longest_border_def)
    qed
    ultimately show ?thesis using retry lt j by (auto simp: kmp_step_def kmp_inv_def)
  next
    case none
    have "\<not> occurs_at xs p k" if "pos \<le> k" "k < Suc i" for k
      using no [of k] that none j by (cases "k = i") (auto simp: occurs_at_iff)
    then show ?thesis using none j by (auto simp: kmp_step_def kmp_inv_def)
  qed
qed

definition kmp_measure :: "nat \<Rightarrow> nat \<times> nat \<times> nat option \<Rightarrow> nat" where
  "kmp_measure n = (\<lambda>(i, j, res). 2 * (n - i) + j)"

lemma kmp_step_decreases:
  assumes "kmp_inv xs p pos (i, j, None)" "i < length xs" "lps_ok p lps"
  shows "kmp_measure (length xs) (kmp_step xs p lps (i, j, None)) < kmp_measure (length xs) (i, j, None)"
proof -
  have "j \<noteq> 0 \<Longrightarrow> lps ! (j - 1) < j"
    using assms by (auto simp: kmp_inv_def lps_ok_def longest_border_def border_def)
  then show ?thesis using assms(2) by (auto simp: kmp_step_def kmp_measure_def)
qed

lemma kmp_inv_start: "p \<noteq> [] \<Longrightarrow> kmp_inv xs p pos (pos, 0, None)"
  by (auto simp: kmp_inv_def)

lemma kmp_inv_stop:
  assumes "kmp_inv xs p pos (i, j, res)" "\<not> (res = None \<and> i < length xs)"
  shows "res = find_pattern xs p pos"
proof (cases res)
  case None
  have "\<not> occurs_at xs p k" if "pos \<le> k" for k
    using assms None that by (auto simp: kmp_inv_def occurs_at_iff)
  then show ?thesis using None by (simp add: find_pattern_None [THEN iffD2])
qed (use assms in \<open>simp add: kmp_inv_def\<close>)

lemma kmp_step_cong:
  "base ! i = xs ! i \<Longrightarrow> kmp_step base p lps (i, j, res) = kmp_step xs p lps (i, j, res)"
  by (simp add: kmp_step_def)

lemma kmpScanLinear_correct:
  assumes lps: "lps_ok p lps" and p: "p \<noteq> []"
    and base: "\<And>i. i < length xs \<Longrightarrow> base ! i = xs ! i"
  shows "kmpScanLinear base (length xs) pos p lps = Some (find_pattern xs p pos)"
proof -
  let ?b = "\<lambda>(i, j, res). res = None \<and> i < length xs"
  have "\<exists>t. while_option ?b (kmp_step base p lps) (pos, 0, None) = Some t \<and> kmp_inv xs p pos t \<and> \<not> ?b t"
  proof (rule total_while [where f = "kmp_measure (length xs)"])
    fix s assume inv: "kmp_inv xs p pos s" and b: "?b s"
    obtain i j where s: "s = (i, j, None)" "i < length xs" using b by (cases s) auto
    have "kmp_step base p lps s = kmp_step xs p lps s" unfolding s(1) by (rule kmp_step_cong) (use base s in blast)
    then show "kmp_inv xs p pos (kmp_step base p lps s)
        \<and> kmp_measure (length xs) (kmp_step base p lps s) < kmp_measure (length xs) s"
      using kmp_inv_step [of xs p pos i j lps] kmp_step_decreases [of xs p pos i j lps] inv s lps
      by simp
  qed (use p kmp_inv_start in blast)
  then obtain t where t: "while_option ?b (kmp_step base p lps) (pos, 0, None) = Some t"
    "kmp_inv xs p pos t" "\<not> ?b t" by blast
  obtain i j res where "t = (i, j, res)" by (cases t)
  with t show ?thesis using kmp_inv_stop [of xs p pos i j res] by (simp add: kmpScanLinear_def)
qed

text \<open>
  The wrapped scan keeps a physical index beside the logical one; on the ring's contents its steps
  are those of the linear scan.
\<close>

lemma kmp_wrap_step_abs:
  assumes ok: "ring_ok r" and i: "i < ring_size r"
  shows "kmp_wrap_step r p lps ((cb_head r + i) mod cb_capacity r, i, j, res) =
     (let (i', j', res') = kmp_step (contents r) p lps (i, j, res)
      in ((cb_head r + i') mod cb_capacity r, i', j', res'))"
proof -
  have "((cb_head r + i) mod cb_capacity r + 1) mod cb_capacity r = (cb_head r + (i + 1)) mod cb_capacity r"
    by (simp add: mod_Suc_eq)
  then show ?thesis
    using i by (simp add: kmp_wrap_step_def kmp_step_def ring_mask [OF ok] contents_nth
        del: One_nat_def add_Suc_right)
qed

lemma kmpScanWrap_correct:
  assumes ok: "ring_ok r" and lps: "lps_ok p lps" and p: "p \<noteq> []"
  shows "kmpScanWrap r (ring_size r) pos (cb_head r) p lps = Some (find_pattern (contents r) p pos)"
proof -
  let ?b = "\<lambda>(bufferIdx, i, j, res). res = None \<and> i < ring_size r"
  let ?inv = "\<lambda>(b, i, j, res). b = (cb_head r + i) mod cb_capacity r \<and> kmp_inv (contents r) p pos (i, j, res)"
  have "\<exists>t. while_option ?b (kmp_wrap_step r p lps)
      ((cb_head r + pos) AND cb_mask r, pos, 0, None) = Some t \<and> ?inv t \<and> \<not> ?b t"
  proof (rule total_while [where f = "\<lambda>s. kmp_measure (ring_size r) (snd s)"])
    fix s assume inv: "?inv s" and b: "?b s"
    obtain i j where s: "s = ((cb_head r + i) mod cb_capacity r, i, j, None)" "i < ring_size r"
      "kmp_inv (contents r) p pos (i, j, None)" using inv b by (auto split: prod.splits)
    obtain i' j' res' where k: "kmp_step (contents r) p lps (i, j, None) = (i', j', res')"
      by (metis prod_cases3)
    show "?inv (kmp_wrap_step r p lps s)
        \<and> kmp_measure (ring_size r) (snd (kmp_wrap_step r p lps s)) < kmp_measure (ring_size r) (snd s)"
      using kmp_inv_step [OF s(3) _ lps] kmp_step_decreases [OF s(3) _ lps] s(1,2) k
      by (simp add: kmp_wrap_step_abs [OF ok])
  qed (use p kmp_inv_start in \<open>simp add: ring_mask [OF ok]\<close>)
  then obtain b i j res where "while_option ?b (kmp_wrap_step r p lps)
      ((cb_head r + pos) AND cb_mask r, pos, 0, None) = Some (b, i, j, res)"
    and "kmp_inv (contents r) p pos (i, j, res)" "\<not> (res = None \<and> i < ring_size r)" by auto
  then show ?thesis using kmp_inv_stop [of "contents r" p pos i j res] by (simp add: kmpScanWrap_def)
qed

section \<open>Every branch finds the first occurrence\<close>

lemma find_pattern_single:
  "find_pattern xs [c] pos = first_idx (\<lambda>i. xs ! i = c) pos (length xs)"
  by (intro find_pattern_eqI [symmetric])
     (auto simp: first_idx_Some first_idx_None occurs_at_iff)

lemma memchr_first_idx:
  "from + n \<le> length xs \<Longrightarrow>
   map_option (\<lambda>hit. from + hit) (memchr c (slice xs from n)) = first_idx (\<lambda>i. xs ! i = c) from (from + n)"
proof (rule first_idx_eqI)
  assume le: "from + n \<le> length xs"
  fix i assume "map_option (\<lambda>hit. from + hit) (memchr c (slice xs from n)) = Some i"
  then obtain h where h: "i = from + h" "memchr c (slice xs from n) = Some h" by auto
  then have "h < n" "xs ! (from + h) = c" "\<And>k. k < h \<Longrightarrow> xs ! (from + k) \<noteq> c"
    using le by (auto simp: memchr_Some length_slice nth_slice)
  then show "from \<le> i \<and> i < from + n \<and> xs ! i = c \<and> (\<forall>k. from \<le> k \<and> k < i \<longrightarrow> xs ! k \<noteq> c)"
    using h by (auto dest!: le_Suc_ex)
next
  assume "from + n \<le> length xs" "map_option (\<lambda>hit. from + hit) (memchr c (slice xs from n)) = None"
  then show "\<forall>k. from \<le> k \<and> k < from + n \<longrightarrow> xs ! k \<noteq> c"
    by (auto simp: memchr_None length_slice nth_slice dest!: le_Suc_ex)
qed

lemma byteScanLinear_correct:
  assumes "n \<le> length base" and "\<And>i. i < n \<Longrightarrow> base ! i = xs ! i" and "n = length xs"
  shows "byteScanLinear base n pos c = find_pattern xs [c] pos"
proof (cases "pos < n")
  case True
  have "first_idx (\<lambda>i. base ! i = c) pos n = first_idx (\<lambda>i. xs ! i = c) pos n"
    by (rule first_idx_cong) (use assms in simp)
  then show ?thesis
    using True assms memchr_first_idx [of pos "n - pos" base c]
    by (simp add: byteScanLinear_def find_pattern_single)
next
  case False
  then show ?thesis
    using assms by (simp add: byteScanLinear_def find_pattern_single) (simp add: first_idx_def)
qed

lemma first_idx_split:
  "lo \<le> mid \<Longrightarrow> mid \<le> hi \<Longrightarrow> first_idx P lo hi =
     (case first_idx P lo mid of Some i \<Rightarrow> Some i | None \<Rightarrow> first_idx P mid hi)"
proof (rule first_idx_eqI [symmetric])
qed (auto simp: first_idx_None first_idx_Some split: option.splits; metis not_le)+

lemma byteScanWrap_correct:
  assumes ok: "ring_ok r" and wrap: "cb_capacity r < cb_head r + ring_size r"
  shows "byteScanWrap r (ring_size r) pos (cb_head r) c = find_pattern (contents r) [c] pos"
proof -
  let ?f = "cb_capacity r - cb_head r" and ?n = "ring_size r"
  let ?P = "\<lambda>i. contents r ! i = c"
  have b: "?f \<le> ?n" "cb_head r < cb_capacity r" "length (cb_buffer r) = cb_capacity r"
      "?n < cb_capacity r"
    using wrap ring_okD [OF ok] by auto
  have first: "(if pos < ?f then map_option (\<lambda>hit. pos + hit)
        (memchr c (slice (cb_buffer r) (cb_head r + pos) (?f - pos))) else None) = first_idx ?P pos ?f"
  proof (cases "pos < ?f")
    case True
    have "map_option (\<lambda>hit. pos + hit) (memchr c (slice (drop (cb_head r) (cb_buffer r)) pos (?f - pos)))
        = first_idx (\<lambda>i. drop (cb_head r) (cb_buffer r) ! i = c) pos ?f"
      using memchr_first_idx [of pos "?f - pos" "drop (cb_head r) (cb_buffer r)" c] True b by simp
    also have "\<dots> = first_idx ?P pos ?f"
      by (rule first_idx_cong) (use b in \<open>simp add: contents_nth\<close>)
    finally have "map_option (\<lambda>hit. pos + hit) (memchr c (slice (drop (cb_head r) (cb_buffer r)) pos (?f - pos)))
      = first_idx ?P pos ?f" .
    moreover have "slice (drop (cb_head r) (cb_buffer r)) pos (?f - pos)
      = slice (cb_buffer r) (cb_head r + pos) (?f - pos)" by (simp add: slice_def add.commute)
    ultimately show ?thesis using True by simp
  qed (simp add: first_idx_def)
  have second: "(if max pos ?f < ?n then map_option (\<lambda>hit. max pos ?f + hit)
        (memchr c (slice (cb_buffer r) (max pos ?f - ?f) (?n - max pos ?f))) else None)
      = first_idx ?P (max pos ?f) ?n"
  proof (cases "max pos ?f < ?n")
    case True
    let ?s = "max pos ?f"
    have "map_option (\<lambda>hit. ?s + hit) (memchr c (slice (cb_buffer r) (?s - ?f) (?n - ?s)))
        = map_option ((+) ?s) (memchr c (slice (contents r) ?s (?n - ?s)))"
    proof -
      have "slice (cb_buffer r) (?s - ?f) (?n - ?s) = slice (contents r) ?s (?n - ?s)"
      proof (rule nth_equalityI)
        fix k assume "k < length (slice (cb_buffer r) (?s - ?f) (?n - ?s))"
        then have k: "k < ?n - ?s" using b True by (simp add: slice_def)
        define s where "s = ?s"
        have s: "?f \<le> s" "s + k < ?n" using k by (auto simp: s_def)
        then have "(cb_head r + (s + k)) mod cb_capacity r = cb_head r + (s + k) - cb_capacity r"
          using b by (subst mod_if) auto
        moreover have "cb_head r + (s + k) - cb_capacity r = s - ?f + k" using b s by simp
        ultimately show "slice (cb_buffer r) (?s - ?f) (?n - ?s) ! k = slice (contents r) ?s (?n - ?s) ! k"
          using k b s True unfolding s_def [symmetric] by (simp add: nth_slice contents_nth)
      qed (use b True in \<open>simp add: slice_def\<close>)
      then show ?thesis by simp
    qed
    then show ?thesis using memchr_first_idx [of ?s "?n - ?s" "contents r" c] True by simp
  qed (simp add: first_idx_def del: max_less_iff_conj)
  have "byteScanWrap r ?n pos (cb_head r) c =
      (case first_idx ?P pos ?f of Some i \<Rightarrow> Some i | None \<Rightarrow> first_idx ?P (max pos ?f) ?n)"
    unfolding byteScanWrap_def Let_def first second ..
  also have "\<dots> = first_idx ?P pos ?n"
  proof (cases "pos \<le> ?f")
    case True
    then have "max pos ?f = ?f" by simp
    then show ?thesis using first_idx_split [OF True b(1), of ?P] by (simp only:)
  next
    case False
    then have "first_idx ?P pos ?f = None" "max pos ?f = pos" by (simp_all add: first_idx_def)
    then show ?thesis by simp
  qed
  finally show ?thesis by (simp add: find_pattern_single)
qed

lemma short_loop_correct:
  "p \<noteq> [] \<Longrightarrow> length xs = last_pos + length p \<Longrightarrow> length xs \<le> length base \<Longrightarrow>
   (\<And>k. k < length xs \<Longrightarrow> base ! k = xs ! k) \<Longrightarrow> pos + it \<le> i \<Longrightarrow>
   short_loop base p last_pos pos it i = find_pattern xs p i"
proof (induction base p last_pos pos it i rule: short_loop.induct [case_names step])
  case (step base p last_pos pos it i)
  note base = step.prems(4) and len = step.prems(1-3)
  have outside: "\<not> occurs_at xs p k" if "last_pos < k" for k
    using that len by (simp add: occurs_at_iff)
  have occurs: "occurs_at xs p k \<longleftrightarrow> slice base k (length p) = p" if "k \<le> last_pos" for k
  proof -
    have "slice base k (length p) = slice xs k (length p)"
      by (rule nth_equalityI) (use that len base in \<open>auto simp: length_slice nth_slice\<close>)
    then show ?thesis using that len(2) by (simp add: occurs_at_def)
  qed
  have first: "occurs_at xs p k \<Longrightarrow> base ! k = p ! 0" for k
  proof -
    assume o: "occurs_at xs p k"
    then have "xs ! (k + 0) = p ! 0" "k < length xs" using occurs_at_first [OF o len(1)] by auto
    then show ?thesis using base [of k] by simp
  qed
  show ?case
  proof (cases "i \<le> last_pos")
    case False
    then have "find_pattern xs p i = None" using outside by (auto simp: find_pattern_None)
    then show ?thesis using False by (subst short_loop.simps) simp
  next
    case True
    let ?seg = "slice base i (last_pos - i + 1)"
    have ls: "length ?seg = last_pos - i + 1" using True len by (intro length_slice) (cases p; simp)
    have nth: "?seg ! k = base ! (i + k)" if "k \<le> last_pos - i" for k
      using that True len by (intro nth_slice) (cases p; simp)+
    have it: "it \<le> last_pos - pos" using step.prems(5) True by simp
    show ?thesis
    proof (cases "memchr (p ! 0) ?seg")
      case None
      then have "base ! (i + k) \<noteq> p ! 0" if "k \<le> last_pos - i" for k
        using that nth ls by (simp add: memchr_None)
      then have "\<not> occurs_at xs p k" if "i \<le> k" for k
        using that first outside by (metis add_diff_inverse_nat diff_le_mono not_le)
      then have "find_pattern xs p i = None" by (auto simp: find_pattern_None)
      then show ?thesis using None True it by (subst short_loop.simps) simp
    next
      case (Some hit)
      then have hit: "hit \<le> last_pos - i" and before: "\<And>k. k < hit \<Longrightarrow> base ! (i + k) \<noteq> p ! 0"
        using ls nth by (auto simp: memchr_Some)
      have skip: "\<not> occurs_at xs p k" if "i \<le> k" "k < i + hit" for k
        using that first before by (metis add_diff_inverse_nat nat_add_left_cancel_less not_le)
      show ?thesis
      proof (cases "slice base (i + hit) (length p) = p")
        case found: True
        then have "find_pattern xs p i = Some (i + hit)"
          using occurs [of "i + hit"] hit True skip by (auto simp: find_pattern_Some)
        then show ?thesis using Some True it found by (subst short_loop.simps) simp
      next
        case miss: False
        have "find_pattern xs p i = find_pattern xs p (i + hit + 1)"
        proof (rule find_pattern_eqI [symmetric])
          have no: "\<not> occurs_at xs p k" if "i \<le> k" "k < i + hit + 1" for k
            using that skip occurs [of "i + hit"] miss hit True by (cases "k = i + hit") auto
          { fix q assume "find_pattern xs p (i + hit + 1) = Some q"
            then show "i \<le> q \<and> occurs_at xs p q \<and> (\<forall>k. i \<le> k \<and> k < q \<longrightarrow> \<not> occurs_at xs p k)"
              using no by (auto simp: find_pattern_Some) (metis Suc_leI not_less_eq) }
          assume "find_pattern xs p (i + hit + 1) = None"
          then show "\<forall>k\<ge>i. \<not> occurs_at xs p k"
            using no by (auto simp: find_pattern_None) (metis not_less_eq_eq not_less less_Suc_eq_le)
        qed
        moreover have "short_loop base p last_pos pos (it + 1) (i + hit + 1) = find_pattern xs p (i + hit + 1)"
          by (rule step.IH) (use step.prems True it Some miss in auto)
        ultimately show ?thesis using Some True it miss by (subst short_loop.simps) simp
      qed
    qed
  qed
qed

lemma shortPatternScanLinear_correct:
  assumes "p \<noteq> []" "length p \<le> n" "n = length xs" "n \<le> length base"
    and "\<And>k. k < n \<Longrightarrow> base ! k = xs ! k"
  shows "shortPatternScanLinear base n pos p = find_pattern xs p pos"
proof (cases "pos \<le> n - length p")
  case True
  then show ?thesis
    unfolding shortPatternScanLinear_def Let_def
    using assms by (subst short_loop_correct [where xs = xs]) auto
next
  case False
  then have "find_pattern xs p pos = None"
    using assms(2,3) by (auto simp: find_pattern_None occurs_at_iff)
  then show ?thesis using False by (simp add: shortPatternScanLinear_def)
qed

text \<open>The dispatcher agrees with the specification in whichever branch it takes.\<close>

lemma findPatternKMP_spec:
  assumes ok: "ring_ok r" and lps: "lps_ok p lps" and p: "p \<noteq> []"
  shows "findPatternKMP r p lps pos = Some (find_pattern (contents r) p pos)"
proof -
  let ?n = "ring_size r" and ?base = "drop (cb_head r) (cb_buffer r)"
  have single: "[p ! 0] = p" if "length p = 1" using that by (cases p) auto
  have base: "?base ! k = contents r ! k" if "cb_head r + ?n \<le> cb_capacity r" "k < ?n" for k
    using that ring_okD [OF ok] by (simp add: contents_nth)
  have lb: "?n \<le> length ?base" if "cb_head r + ?n \<le> cb_capacity r"
    using that ring_okD [OF ok] by simp
  consider (short) "?n < length p"
    | (byte) "length p \<le> ?n" "length p = 1" "cb_head r + ?n \<le> cb_capacity r"
    | (byte_wrap) "length p \<le> ?n" "length p = 1" "\<not> cb_head r + ?n \<le> cb_capacity r"
    | (small) "length p \<le> ?n" "length p \<noteq> 1" "cb_head r + ?n \<le> cb_capacity r" "length p \<le> kShortPatternMax"
    | (linear) "length p \<le> ?n" "length p \<noteq> 1" "cb_head r + ?n \<le> cb_capacity r" "\<not> length p \<le> kShortPatternMax"
    | (wrapped) "length p \<le> ?n" "length p \<noteq> 1" "\<not> cb_head r + ?n \<le> cb_capacity r" by linarith
  then show ?thesis
  proof cases
    case short
    then have "find_pattern (contents r) p pos = None" by (auto simp: find_pattern_None occurs_at_iff)
    then show ?thesis using short by (simp add: findPatternKMP_def)
  next
    case byte
    have "byteScanLinear ?base ?n pos (p ! 0) = find_pattern (contents r) [p ! 0] pos"
      by (rule byteScanLinear_correct) (use base lb byte in auto)
    then show ?thesis using byte p single by (simp add: findPatternKMP_def Let_def)
  next
    case byte_wrap
    then show ?thesis
      using byteScanWrap_correct [OF ok, of pos "p ! 0"] p single by (simp add: findPatternKMP_def Let_def)
  next
    case small
    have "shortPatternScanLinear ?base ?n pos p = find_pattern (contents r) p pos"
      by (rule shortPatternScanLinear_correct) (use base lb small p in auto)
    then show ?thesis using small p by (simp add: findPatternKMP_def Let_def)
  next
    case linear
    have "kmpScanLinear ?base (length (contents r)) pos p lps = Some (find_pattern (contents r) p pos)"
      by (rule kmpScanLinear_correct) (use base linear p lps in auto)
    then show ?thesis using linear p by (simp add: findPatternKMP_def Let_def)
  next
    case wrapped
    then show ?thesis
      using kmpScanWrap_correct [OF ok lps p] p by (simp add: findPatternKMP_def Let_def)
  qed
qed

section \<open>Masked and multi-pattern scans against the contents\<close>

lemma first_idx_empty: "hi \<le> lo \<Longrightarrow> first_idx P lo hi = None"
  by (simp add: first_idx_def)

lemma scanMasked_spec:
  assumes ok: "ring_ok r"
  shows "scanMasked mt r msk v from_pos to_pos =
     first_idx (\<lambda>i. ((contents r ! i AND msk) = v) = mt) from_pos (min to_pos (ring_size r))"
proof -
  let ?e = "min to_pos (ring_size r)" and ?Q = "\<lambda>i. ((contents r ! i AND msk) = v) = mt"
  let ?f = "min ?e (cb_capacity r - cb_head r)"
  note b = ring_okD [OF ok]
  have first: "first_idx (\<lambda>i. ((cb_buffer r ! (cb_head r + i) AND msk) = v) = mt) from_pos ?f
      = first_idx ?Q from_pos ?f"
    by (rule first_idx_cong) (simp add: contents_nth less_diff_conv add.commute)
  have second: "first_idx (\<lambda>i. ((cb_buffer r ! (i - ?f) AND msk) = v) = mt) (max from_pos ?f) ?e
      = first_idx ?Q (max from_pos ?f) ?e"
  proof (rule first_idx_cong)
    fix k assume k: "max from_pos ?f \<le> k" "k < ?e"
    then have f: "?f = cb_capacity r - cb_head r" "k < ring_size r" by auto
    then have "cb_capacity r - cb_head r \<le> k" using k by simp
    then have "(cb_head r + k) mod cb_capacity r = k - (cb_capacity r - cb_head r)"
      using f b by (subst mod_if) auto
    then show "(((cb_buffer r ! (k - ?f)) AND msk) = v) = mt \<longleftrightarrow> ?Q k"
      using f by (simp add: contents_nth)
  qed
  show ?thesis
  proof (cases "from_pos \<ge> ?e")
    case True
    then show ?thesis by (simp add: scanMasked_def first_idx_empty del: min.bounded_iff)
  next
    case False
    have "scanMasked mt r msk v from_pos to_pos =
        (case first_idx ?Q from_pos ?f of Some i \<Rightarrow> Some i | None \<Rightarrow> first_idx ?Q (max from_pos ?f) ?e)"
      using False unfolding scanMasked_def Let_def first second by simp
    also have "\<dots> = first_idx ?Q from_pos ?e"
    proof (cases "from_pos \<le> ?f")
      case le: True
      have "max from_pos ?f = ?f" using le by (rule max_absorb2)
      then show ?thesis using first_idx_split [OF le min.cobounded1, of ?Q] by (simp only:)
    next
      case gt: False
      then have "?f \<le> from_pos" using nat_le_linear by blast
      then have "first_idx ?Q from_pos ?f = None" "max from_pos ?f = from_pos"
        by (rule first_idx_empty, rule max_absorb1)
      then show ?thesis by simp
    qed
    finally show ?thesis .
  qed
qed

text \<open>The least offset where one of the patterns lies, with the first such pattern.\<close>

definition first_of_patterns :: "bytes \<Rightarrow> bytes list \<Rightarrow> (nat \<times> nat) option" where
  "first_of_patterns xs ps =
     map_option (\<lambda>i. (i, the (first_idx (\<lambda>k. occurs_at xs (ps ! k) i) 0 (length ps))))
       (first_idx (\<lambda>i. \<exists>p \<in> set ps. occurs_at xs p i) 0 (length xs))"

lemma matchAt_spec:
  assumes "length ps \<le> kMaxPatterns" and "\<And>k. k < length xs \<Longrightarrow> byteAt k = xs ! k"
  shows "matchAt byteAt (length xs) ps i = first_idx (\<lambda>k. occurs_at xs (ps ! k) i) 0 (length ps)"
  unfolding matchAt_def
  using assms by (auto simp: occurs_at_iff min_absorb1 intro!: first_idx_cong)

lemma pattern_hit: "first_idx (\<lambda>k. occurs_at xs (ps ! k) i) 0 (length ps) = None \<longleftrightarrow>
   \<not> (\<exists>p \<in> set ps. occurs_at xs p i)"
  unfolding first_idx_None by (metis in_set_conv_nth le0)

lemma anchors_cover:
  "p \<in> set ps \<Longrightarrow> p \<noteq> [] \<Longrightarrow> length ps \<le> kMaxPatterns \<Longrightarrow> p ! 0 \<in> set (buildPatternAnchors ps)"
proof -
  let ?f = "\<lambda>p anchors. let c = (case p of [] \<Rightarrow> 0 | c # cs \<Rightarrow> c) in
      if c \<in> set anchors then anchors else anchors @ [c]"
  have keep: "set as \<subseteq> set (fold ?f qs as)" for qs as
  proof (induction qs arbitrary: as)
    case (Cons q qs)
    have "set as \<subseteq> set (?f q as)" by (auto simp: Let_def)
    then show ?case using Cons.IH [of "?f q as"] by simp
  qed simp
  have "p \<in> set qs \<Longrightarrow> p \<noteq> [] \<Longrightarrow> p ! 0 \<in> set (fold ?f qs as)" for qs as
  proof (induction qs arbitrary: as)
    case (Cons q qs)
    have "p = q \<Longrightarrow> p ! 0 \<in> set (?f q as)" using Cons.prems(2) by (cases p) (auto simp: Let_def)
    then show ?case using Cons keep [of "?f q as" qs] by auto
  qed simp
  moreover assume "p \<in> set ps" "p \<noteq> []" "length ps \<le> kMaxPatterns"
  ultimately show ?thesis by (simp add: buildPatternAnchors_def)
qed

lemma anchors_size: "length (buildPatternAnchors ps) \<le> kMaxPatterns"
  and anchors_some: "ps \<noteq> [] \<Longrightarrow> buildPatternAnchors ps \<noteq> []"
proof -
  let ?f = "\<lambda>p anchors. let c = (case p of [] \<Rightarrow> 0 | c # cs \<Rightarrow> c) in
      if c \<in> set anchors then anchors else anchors @ [c]"
  have "length (fold ?f qs as) \<le> length qs + length as" for qs as
  proof (induction qs arbitrary: as)
    case (Cons q qs)
    have "length (?f q as) \<le> Suc (length as)" by (simp add: Let_def)
    then show ?case using Cons.IH [of "?f q as"] by simp
  qed simp
  from this [of "take kMaxPatterns ps" "[]"] show "length (buildPatternAnchors ps) \<le> kMaxPatterns"
    by (simp add: buildPatternAnchors_def)
  have "as \<noteq> [] \<Longrightarrow> fold ?f qs as \<noteq> []" for qs as
    by (induction qs arbitrary: as) (auto simp: Let_def)
  then show "ps \<noteq> [] \<Longrightarrow> buildPatternAnchors ps \<noteq> []"
    by (cases ps) (auto simp: buildPatternAnchors_def kMaxPatterns_def Let_def)
qed

lemma simdFindAnyByte_spec:
  "needles \<noteq> [] \<Longrightarrow> length needles \<le> 8 \<Longrightarrow>
   simdFindAnyByte d n needles = (case first_idx (\<lambda>i. d ! i \<in> set needles) 0 n of Some i \<Rightarrow> i | None \<Rightarrow> n)"
  by (cases needles) (simp_all add: simdFindAnyByte_def)

definition hit_of :: "bytes \<Rightarrow> bytes list \<Rightarrow> nat option \<Rightarrow> (nat \<times> nat) option" where
  "hit_of xs ps = map_option (\<lambda>i. (i, the (first_idx (\<lambda>k. occurs_at xs (ps ! k) i) 0 (length ps))))"

lemma first_idx_skip:
  "lo \<le> mid \<Longrightarrow> (\<And>k. lo \<le> k \<Longrightarrow> k < mid \<Longrightarrow> \<not> P k) \<Longrightarrow> first_idx P lo hi = first_idx P mid hi"
  by (rule first_idx_eqI [symmetric]) (auto simp: first_idx_Some first_idx_None, (metis not_le)+)

lemma anchored_loop_spec:
  "length ps \<le> kMaxPatterns \<Longrightarrow> (\<And>k. k < length xs \<Longrightarrow> base ! k = xs ! k) \<Longrightarrow>
   scanEnd \<le> length xs \<Longrightarrow> length xs \<le> length base \<Longrightarrow> [] \<notin> set ps \<Longrightarrow> ps \<noteq> [] \<Longrightarrow> it \<le> i \<Longrightarrow>
   anchored_loop base (length xs) scanEnd ps (buildPatternAnchors ps) it i
     = hit_of xs ps (first_idx (\<lambda>i. \<exists>p \<in> set ps. occurs_at xs p i) i scanEnd)"
proof (induction base "length xs" scanEnd ps "buildPatternAnchors ps" it i
    rule: anchored_loop.induct [case_names step])
  case (step base scanEnd ps it i)
  let ?Q = "\<lambda>i. \<exists>p \<in> set ps. occurs_at xs p i" and ?as = "buildPatternAnchors ps"
  show ?case
  proof (cases "i < scanEnd")
    case False
    then show ?thesis by (subst anchored_loop.simps) (simp add: first_idx_empty hit_of_def)
  next
    case True
    note go = True step.prems(7)
    define rel where "rel = simdFindAnyByte (drop i base) (scanEnd - i) ?as"
    have rel: "rel = (case first_idx (\<lambda>j. drop i base ! j \<in> set ?as) 0 (scanEnd - i) of
        Some j \<Rightarrow> j | None \<Rightarrow> scanEnd - i)"
      unfolding rel_def using anchors_size [of ps] anchors_some [of ps] step.prems(6)
      by (intro simdFindAnyByte_spec) (auto simp: kMaxPatterns_def)
    have quiet: "\<not> ?Q k" if "i \<le> k" "k < i + rel" "k < scanEnd" for k
    proof
      assume "?Q k"
      then obtain p where p: "p \<in> set ps" "occurs_at xs p k" by blast
      then have "p \<noteq> []" using step.prems(5) by auto
      then have "xs ! k = p ! 0" "k < length xs" using occurs_at_first [OF p(2)] by auto
      then have "base ! k \<in> set ?as"
        using anchors_cover [OF p(1) \<open>p \<noteq> []\<close> step.prems(1)] step.prems(2) by simp
      moreover have "base ! k \<notin> set ?as"
      proof -
        have "drop i base ! (k - i) \<notin> set ?as"
          using that rel by (auto simp: first_idx_Some first_idx_None split: option.splits)
        then show ?thesis using that(1,3) step.prems(3,4) by simp
      qed
      ultimately show False by simp
    qed
    show ?thesis
    proof (cases "rel \<ge> scanEnd - i")
      case stop: True
      then have "first_idx ?Q i scanEnd = None"
        using quiet by (auto simp: first_idx_None)
      then show ?thesis
        using go stop by (subst anchored_loop.simps) (simp add: hit_of_def flip: rel_def)
    next
      case on: False
      then have lt: "i + rel < scanEnd" by simp
      have m: "matchAt (\<lambda>k. base ! k) (length xs) ps (i + rel)
          = first_idx (\<lambda>k. occurs_at xs (ps ! k) (i + rel)) 0 (length ps)"
        using step.prems(1,2) by (intro matchAt_spec) auto
      have skip: "first_idx ?Q i scanEnd = first_idx ?Q (i + rel) scanEnd"
        by (rule first_idx_skip) (use quiet lt in auto)
      show ?thesis
      proof (cases "matchAt (\<lambda>k. base ! k) (length xs) ps (i + rel)")
        case (Some hit)
        then have "?Q (i + rel)" using m pattern_hit [of xs ps "i + rel"] by auto
        then have "first_idx ?Q (i + rel) scanEnd = Some (i + rel)"
          using lt unfolding first_idx_Some by auto
        then show ?thesis
          using go on Some m skip by (subst anchored_loop.simps) (simp add: hit_of_def flip: rel_def)
      next
        case None
        then have no: "\<not> ?Q (i + rel)" using m pattern_hit [of xs ps "i + rel"] by auto
        have "first_idx ?Q (i + rel) scanEnd = first_idx ?Q (i + rel + 1) scanEnd"
          by (rule first_idx_skip) (use no in \<open>auto simp: le_less_Suc_eq\<close>)
        moreover have "anchored_loop base (length xs) scanEnd ps ?as (it + 1) (i + rel + 1)
            = hit_of xs ps (first_idx ?Q (i + rel + 1) scanEnd)"
          by (rule step.hyps) (use step.prems go on None in \<open>auto simp: rel_def\<close>)
        ultimately show ?thesis
          using go on None skip by (subst anchored_loop.simps) (simp flip: rel_def)
      qed
    qed
  qed
qed

lemma minLen_fold:
  "fold (\<lambda>p m. min m (length p)) ps n = Min (set (n # map length ps))"
proof (induction ps arbitrary: n)
  case (Cons p ps)
  have "Min (insert (min n (length p)) S) = Min (insert n (insert (length p) S))" if "finite S" for S
    using that by (cases "S = {}") (simp_all add: min.assoc)
  then show ?case using Cons.IH [of "min n (length p)"] by simp
qed simp

lemma findFirstOfPatterns_spec:
  assumes ok: "ring_ok r" and ps: "length ps \<le> kMaxPatterns" "[] \<notin> set ps"
  shows "findFirstOfPatterns r ps (buildPatternAnchors ps) = first_of_patterns (contents r) ps"
proof (cases "ps = [] \<or> ring_size r = 0")
  case True
  then have "first_idx (\<lambda>i. \<exists>p \<in> set ps. occurs_at (contents r) p i) 0 (length (contents r)) = None"
    by (auto simp: first_idx_None)
  then show ?thesis using True by (simp add: findFirstOfPatterns_def first_of_patterns_def)
next
  case False
  let ?xs = "contents r" and ?n = "ring_size r"
  let ?Q = "\<lambda>i. \<exists>p \<in> set ps. occurs_at ?xs p i"
  define m where "m = fold (\<lambda>p m. min m (length p)) (take kMaxPatterns ps) ?n"
  have m: "m = Min (set (?n # map length ps))" using ps(1) by (simp add: m_def minLen_fold)
  have "m \<in> set (?n # map length ps)" unfolding m by (rule Min_in) auto
  then have m0: "m \<noteq> 0" using False ps(2) by auto
  have mle: "m \<le> ?n" "\<And>p. p \<in> set ps \<Longrightarrow> m \<le> length p" unfolding m by (auto intro: Min_le)
  let ?e = "?n - m + 1"
  have cut: "first_idx ?Q 0 ?n = first_idx ?Q 0 ?e"
  proof -
    have "first_idx ?Q ?e ?n = None"
      using mle by (fastforce simp: first_idx_None occurs_at_iff)
    then show ?thesis using first_idx_split [of 0 ?e ?n ?Q] mle m0 by (simp split: option.splits)
  qed
  show ?thesis
  proof (cases "cb_head r + ?n \<le> cb_capacity r")
    case True
    have "anchored_loop (drop (cb_head r) (cb_buffer r)) (length ?xs) ?e ps (buildPatternAnchors ps) 0 0
        = hit_of ?xs ps (first_idx ?Q 0 ?e)"
      by (rule anchored_loop_spec)
         (use True ps False m0 mle ring_okD [OF ok] in \<open>auto simp: contents_nth\<close>)
    then show ?thesis
      using True False m0 mle(1) cut
      by (simp add: findFirstOfPatterns_def first_of_patterns_def hit_of_def Let_def flip: m_def)
  next
    case wrapped: False
    let ?at = "\<lambda>k. cb_buffer r ! ((cb_head r + k) AND cb_mask r)"
    have at: "matchAt ?at ?n ps i = first_idx (\<lambda>k. occurs_at ?xs (ps ! k) i) 0 (length ps)" for i
      using matchAt_spec [OF ps(1), of ?xs ?at i] by (simp add: contents_nth ring_mask [OF ok])
    then have "(matchAt ?at ?n ps i \<noteq> None) = ?Q i" for i using pattern_hit by simp
    then have "wrapped_scan r ?n ?e ps = hit_of ?xs ps (first_idx ?Q 0 ?e)"
      using at by (simp add: wrapped_scan_def Let_def hit_of_def)
    then show ?thesis
      using wrapped False m0 mle(1) cut
      by (simp add: findFirstOfPatterns_def first_of_patterns_def hit_of_def Let_def flip: m_def)
  qed
qed

text \<open>Patterns after the eighth are never looked at.\<close>

lemma matchAt_take: "matchAt byteAt n (take kMaxPatterns ps) i = matchAt byteAt n ps i"
  unfolding matchAt_def by (auto simp: min_def intro!: first_idx_cong)

lemma anchored_loop_take:
  "anchored_loop base n e (take kMaxPatterns ps) as it i = anchored_loop base n e ps as it i"
proof (induction base n e ps as it i rule: anchored_loop.induct [case_names step])
  case (step base n e ps as it i)
  show ?case
    by (subst (1 2) anchored_loop.simps)
       (use step.IH in \<open>auto simp: matchAt_take Let_def split: option.split\<close>)
qed

lemma findFirstOfPatterns_eight:
  assumes ok: "ring_ok r" and ps: "[] \<notin> set ps"
  shows "findFirstOfPatterns r ps (buildPatternAnchors ps)
    = first_of_patterns (contents r) (take kMaxPatterns ps)"
proof -
  have "findFirstOfPatterns r ps (buildPatternAnchors ps)
      = findFirstOfPatterns r (take kMaxPatterns ps) (buildPatternAnchors (take kMaxPatterns ps))"
  proof -
    have "(ps = []) = (take kMaxPatterns ps = [])" by (simp add: kMaxPatterns_def)
    then show ?thesis
      by (simp add: findFirstOfPatterns_def buildPatternAnchors_def Let_def anchored_loop_take
          wrapped_scan_def matchAt_take)
  qed
  also have "\<dots> = first_of_patterns (contents r) (take kMaxPatterns ps)"
    by (rule findFirstOfPatterns_spec [OF ok]) (use ps in \<open>auto dest: in_set_takeD\<close>)
  finally show ?thesis .
qed

lemma first_of_single:
  "p \<noteq> [] \<Longrightarrow> first_of_patterns xs [p] = map_option (\<lambda>i. (i, 0)) (find_pattern xs p 0)"
proof -
  assume p: "p \<noteq> []"
  have "first_idx (\<lambda>i. occurs_at xs p i) 0 (length xs) = find_pattern xs p 0"
    by (rule find_pattern_eqI)
       (use p in \<open>auto simp: first_idx_Some first_idx_None dest: occurs_at_first\<close>)
  moreover have "the (first_idx (\<lambda>k. occurs_at xs ([p] ! k) i) 0 (length [p])) = 0"
    if "find_pattern xs p 0 = Some i" for i
    using that by (simp add: first_idx_def find_pattern_Some)
  ultimately show ?thesis
    by (cases "find_pattern xs p 0") (simp_all add: first_of_patterns_def)
qed

lemma first_of_patterns_Some:
  "first_of_patterns xs ps = Some (i, k) \<Longrightarrow> k < length ps \<and> occurs_at xs (ps ! k) i"
proof -
  assume "first_of_patterns xs ps = Some (i, k)"
  then have i: "first_idx (\<lambda>i. \<exists>p \<in> set ps. occurs_at xs p i) 0 (length xs) = Some i"
    and k: "k = the (first_idx (\<lambda>k. occurs_at xs (ps ! k) i) 0 (length ps))"
    by (auto simp: first_of_patterns_def)
  from i have "\<exists>p \<in> set ps. occurs_at xs p i" by (simp add: first_idx_Some)
  then obtain k' where "first_idx (\<lambda>k. occurs_at xs (ps ! k) i) 0 (length ps) = Some k'"
    using pattern_hit by (metis option.exhaust)
  with k show ?thesis by (simp add: first_idx_Some)
qed

section \<open>Properties\<close>

lemma small_ring: "contents (append data (new_ring 8)) = take_last 7 data"
proof -
  have "usable_capacity (new_ring 8) = 7"
    by (simp add: usable_capacity_def new_ring_def roundUpToPowerOfTwo_def smear_def)
  then show ?thesis by (simp add: append_contents[OF new_ring_ok] new_ring_empty)
qed

text \<open>Building the failure table of a delimiter ends and gives, for every prefix, the length of
its longest proper border.\<close>

theorem failure_table_built: "\<exists>lps. computeKMPTable p = Some lps \<and> lps_ok p lps"
  by (rule computeKMPTable_ok)

text \<open>C31: The pattern search (byte scan, short scan or Knuth-Morris-Pratt, on a contiguous or a
wrapped ring) returns the first occurrence of the pattern at or after the start position, and
\<open>-1\<close> exactly when there is none.\<close>

theorem search_finds_first:
  assumes "ring_ok r" and "p \<noteq> []"
  shows "findPatternKMP r p (the (computeKMPTable p)) pos = Some (find_pattern (contents r) p pos)"
proof -
  obtain lps where "computeKMPTable p = Some lps" "lps_ok p lps" using computeKMPTable_ok by blast
  then show ?thesis using assms by (simp add: findPatternKMP_spec)
qed

theorem search_finds_first_witness:
  "findPatternKMP (append [97, 13, 13, 10] (new_ring 8)) [13, 10]
     (the (computeKMPTable [13, 10])) 0 = Some (Some 2)"
proof -
  have "contents (append [97, 13, 13, 10] (new_ring 8)) = [97, 13, 13, 10]" by (simp add: small_ring take_last_def)
  moreover have "find_pattern [97, 13, 13, 10 :: byte] [13, 10] 0 = Some 2" by code_simp
  ultimately show ?thesis
    using search_finds_first[of "append [97, 13, 13, 10] (new_ring 8)" "[13, 10]" 0]
    by (simp add: append_ok new_ring_ok)
qed

text \<open>The multi-delimiter search with its anchor bytes returns the earliest position at which
any delimiter occurs, and the first delimiter of the list that occurs there.\<close>

theorem multi_search_finds_first:
  assumes "ring_ok r" and "length ps \<le> kMaxPatterns" and "[] \<notin> set ps"
  shows "findFirstOfPatterns r ps (buildPatternAnchors ps) = first_of_patterns (contents r) ps"
  using assms by (rule findFirstOfPatterns_spec)

theorem multi_search_finds_first_witness:
  "findFirstOfPatterns (append [97, 59, 10] (new_ring 8)) [[10], [59]]
     (buildPatternAnchors [[10], [59]]) = Some (1, 1)"
proof -
  have "contents (append [97, 59, 10] (new_ring 8)) = [97, 59, 10]" by (simp add: small_ring take_last_def)
  moreover have "first_of_patterns [97, 59, 10 :: byte] [[10], [59]] = Some (1, 1)" by code_simp
  ultimately show ?thesis
    using multi_search_finds_first[of "append [97, 59, 10] (new_ring 8)" "[[10], [59]]"]
    by (simp add: append_ok new_ring_ok kMaxPatterns_def)
qed

end
