(* ===== verification/Fixed_Queue.thy ===== *)
theory Fixed_Queue
  imports Circular_Buffer
begin

unbundle bit_operations_syntax

text \<open>
  \<open>DSP::FixedQueue\<close> of \<open>core/Pipeline/DSP/FixedQueue.h\<close>: the overwriting history ring behind every
  plot. Storage is a list (\<open>T[]\<close>), sized to a power of two or exactly to the capacity; \<open>d\<close> stands
  for the default-initialised elements \<open>new T[n]\<close> leaves in it. Copies of a queue share one
  array in the code; a value of this model is one queue that nobody else holds.
\<close>

record 'a fixed_queue =
  fq_capacity :: nat
  fq_storage :: nat
  fq_mask :: nat
  fq_exact :: bool
  fq_data :: "'a list"
  fq_start :: nat
  fq_size :: nat

definition dsp_roundUpToPowerOfTwo :: "nat \<Rightarrow> nat" where
  "dsp_roundUpToPowerOfTwo value =
     (let v = (if value < 2 then 2 else value);
          v = v - 1;
          v = smear 1 v;
          v = smear 2 v;
          v = smear 4 v;
          v = smear 8 v;
          v = smear 16 v;
          v = smear 32 v
      in v + 1)"

definition new_queue :: "'a \<Rightarrow> nat \<Rightarrow> 'a fixed_queue" where
  "new_queue d capacity =
     (let cap = (if capacity < 1 then 1 else capacity);
          storage = dsp_roundUpToPowerOfTwo (if capacity < 1 then 1 else capacity)
      in \<lparr>fq_capacity = cap, fq_storage = storage, fq_mask = storage - 1, fq_exact = False,
          fq_data = replicate storage d, fq_start = 0, fq_size = 0\<rparr>)"

definition new_exact_queue :: "'a \<Rightarrow> nat \<Rightarrow> 'a fixed_queue" where
  "new_exact_queue d capacity =
     (let cap = (if capacity < 1 then 1 else capacity)
      in \<lparr>fq_capacity = cap, fq_storage = cap, fq_mask = cap - 1, fq_exact = True,
          fq_data = replicate cap d, fq_start = 0, fq_size = 0\<rparr>)"

section \<open>Index arithmetic\<close>

definition wrap :: "'a fixed_queue \<Rightarrow> nat \<Rightarrow> nat" where
  "wrap q index = (if index \<ge> fq_storage q then index - fq_storage q else index)"

definition endIndex :: "'a fixed_queue \<Rightarrow> nat" where
  "endIndex q = wrap q (fq_start q + fq_size q)"

definition wrappedIndex :: "'a fixed_queue \<Rightarrow> nat \<Rightarrow> nat" where
  "wrappedIndex q index = wrap q (fq_start q + index)"

definition nextIndex :: "'a fixed_queue \<Rightarrow> nat \<Rightarrow> nat" where
  "nextIndex q idx = (if idx + 1 \<ge> fq_storage q then 0 else idx + 1)"

section \<open>Operations\<close>

definition queue_get :: "'a fixed_queue \<Rightarrow> nat \<Rightarrow> 'a" where
  "queue_get q index = fq_data q ! wrappedIndex q (if index < fq_size q then index else 0)"

definition queue_at :: "'a fixed_queue \<Rightarrow> nat \<Rightarrow> 'a" where
  "queue_at q index = fq_data q ! wrappedIndex q (if index < fq_capacity q then index else 0)"

definition queue_full :: "'a fixed_queue \<Rightarrow> bool" where
  "queue_full q \<longleftrightarrow> fq_size q = fq_capacity q"

definition queue_empty :: "'a fixed_queue \<Rightarrow> bool" where
  "queue_empty q \<longleftrightarrow> fq_size q = 0"

definition queue_front :: "'a fixed_queue \<Rightarrow> 'a" where
  "queue_front q = (if fq_size q = 0 then fq_data q ! 0 else fq_data q ! fq_start q)"

definition queue_back :: "'a fixed_queue \<Rightarrow> 'a" where
  "queue_back q =
     (if fq_size q = 0 then fq_data q ! 0 else fq_data q ! wrappedIndex q (fq_size q - 1))"

definition queue_clear :: "'a fixed_queue \<Rightarrow> 'a fixed_queue" where
  "queue_clear q = q\<lparr>fq_start := 0, fq_size := 0\<rparr>"

definition queue_advance :: "'a fixed_queue \<Rightarrow> 'a fixed_queue" where
  "queue_advance q =
     (if fq_size q < fq_capacity q then q\<lparr>fq_size := fq_size q + 1\<rparr>
      else q\<lparr>fq_start := wrap q (fq_start q + 1)\<rparr>)"

definition push :: "'a \<Rightarrow> 'a fixed_queue \<Rightarrow> 'a fixed_queue" where
  "push item q = queue_advance (q\<lparr>fq_data := (fq_data q)[endIndex q := item]\<rparr>)"

definition queue_fill :: "'a \<Rightarrow> 'a fixed_queue \<Rightarrow> 'a fixed_queue" where
  "queue_fill value q = (push value ^^ fq_capacity q) (queue_clear q)"

definition fillRange :: "'a::{semiring_1} \<Rightarrow> 'a \<Rightarrow> 'a fixed_queue \<Rightarrow> 'a fixed_queue" where
  "fillRange start step q =
     fold (\<lambda>i. push (start + of_nat i * step)) [0..<fq_capacity q] (queue_clear q)"

definition resize :: "'a \<Rightarrow> nat \<Rightarrow> 'a fixed_queue \<Rightarrow> 'a fixed_queue" where
  "resize d newCapacity q =
     (let newCapacity = (if newCapacity < 1 then 1 else newCapacity)
      in if newCapacity = fq_capacity q then q
         else let newStorage = (if fq_exact q then newCapacity
                                else dsp_roundUpToPowerOfTwo newCapacity);
                  elementsToCopy = min (fq_size q) newCapacity;
                  newData = map (\<lambda>i. queue_get q (fq_size q - elementsToCopy + i)) [0..<elementsToCopy]
                    @ replicate (newStorage - elementsToCopy) d
              in q\<lparr>fq_start := 0, fq_size := elementsToCopy, fq_capacity := newCapacity,
                   fq_storage := newStorage, fq_mask := newStorage - 1, fq_data := newData\<rparr>)"

section \<open>Well-formedness and the elements a queue holds\<close>

definition queue_ok :: "'a fixed_queue \<Rightarrow> bool" where
  "queue_ok q \<longleftrightarrow> 1 \<le> fq_capacity q \<and> fq_capacity q \<le> fq_storage q \<and> fq_mask q = fq_storage q - 1
     \<and> length (fq_data q) = fq_storage q \<and> fq_start q < fq_storage q \<and> fq_size q \<le> fq_capacity q
     \<and> (fq_exact q \<longrightarrow> fq_storage q = fq_capacity q) \<and> (\<not> fq_exact q \<longrightarrow> pow2 (fq_storage q))"

definition elements :: "'a fixed_queue \<Rightarrow> 'a list" where
  "elements q = map (\<lambda>i. fq_data q ! wrappedIndex q i) [0..<fq_size q]"

lemma queue_okD:
  assumes "queue_ok q"
  shows "0 < fq_capacity q" "fq_capacity q \<le> fq_storage q" "length (fq_data q) = fq_storage q"
    "fq_start q < fq_storage q" "fq_size q \<le> fq_capacity q"
  using assms by (auto simp: queue_ok_def)

lemma length_elements [simp]: "length (elements q) = fq_size q"
  by (simp add: elements_def)

lemma elements_nth [list_reads]: "i < fq_size q \<Longrightarrow> elements q ! i = fq_data q ! wrappedIndex q i"
  by (simp add: elements_def)

text \<open>The compare-and-subtract wrap is reduction modulo the storage size.\<close>

lemma wrap_mod: "index < 2 * fq_storage q \<Longrightarrow> wrap q index = index mod fq_storage q"
  by (simp add: wrap_def mod_if)

lemma wrappedIndex_inj:
  assumes "queue_ok q" "i < fq_storage q" "j < fq_storage q" "wrappedIndex q i = wrappedIndex q j"
  shows "i = j"
  using assms queue_okD(4) [OF assms(1)]
  by (auto simp: wrappedIndex_def wrap_def split: if_splits)

lemma wrappedIndex_bound:
  "queue_ok q \<Longrightarrow> i < fq_storage q \<Longrightarrow> wrappedIndex q i < fq_storage q"
  using queue_okD(4) [of q] by (auto simp: wrappedIndex_def wrap_def)

lemma push_ok: "queue_ok q \<Longrightarrow> queue_ok (push item q)"
  by (auto simp: queue_ok_def push_def queue_advance_def wrap_def)

lemma push_capacity [simp]: "fq_capacity (push item q) = fq_capacity q"
  by (simp add: push_def queue_advance_def)

text \<open>Pushing keeps the newest \<open>capacity\<close> elements, in order.\<close>

lemma push_elements:
  assumes "queue_ok q"
  shows "elements (push item q) = take_last (fq_capacity q) (elements q @ [item])"
proof (cases "fq_size q < fq_capacity q")
  case True
  have e: "endIndex q = wrappedIndex q (fq_size q)" by (simp add: endIndex_def wrappedIndex_def)
  have b: "fq_size q < fq_storage q" using True queue_okD(2) [OF assms] by simp
  have "elements (push item q) = elements q @ [item]"
  proof (rule nth_equalityI)
    show "length (elements (push item q)) = length (elements q @ [item])"
      using True by (simp add: push_def queue_advance_def)
    fix i assume "i < length (elements (push item q))"
    then have i: "i \<le> fq_size q" using True by (simp add: push_def queue_advance_def)
    have "wrappedIndex (push item q) i = wrappedIndex q i"
      using True by (simp add: push_def queue_advance_def wrappedIndex_def wrap_def)
    moreover have "fq_data (push item q) = (fq_data q)[wrappedIndex q (fq_size q) := item]"
      using True by (simp add: push_def queue_advance_def e)
    moreover have "wrappedIndex q (fq_size q) < length (fq_data q)"
      using wrappedIndex_bound [OF assms b] queue_okD(3) [OF assms] by simp
    ultimately show "elements (push item q) ! i = (elements q @ [item]) ! i"
      using i b True wrappedIndex_inj [OF assms, of "fq_size q" i]
      by (cases "i = fq_size q")
        (auto simp: nth_append list_reads push_def queue_advance_def nth_list_update)
  qed
  then show ?thesis using True by simp
next
  case False
  then have full: "fq_size q = fq_capacity q" using queue_okD(5) [OF assms] by simp
  note ok = queue_okD [OF assms]
  have idx: "wrappedIndex (push item q) i = wrappedIndex q (Suc i)" if "i < fq_capacity q" for i
    using full ok that by (auto simp: push_def queue_advance_def wrappedIndex_def wrap_def)
  have data: "fq_data (push item q) = (fq_data q)[endIndex q := item]"
    using full by (simp add: push_def queue_advance_def)
  have fin: "wrappedIndex q (fq_capacity q) = endIndex q"
    using full by (simp add: endIndex_def wrappedIndex_def)
  have e: "endIndex q < length (fq_data q)"
    using ok full by (auto simp: endIndex_def wrap_def)
  have distinct: "endIndex q \<noteq> wrappedIndex q (Suc i)" if "Suc i < fq_capacity q" for i
    using ok that full by (auto simp: endIndex_def wrappedIndex_def wrap_def)
  have "elements (push item q) = drop 1 (elements q @ [item])"
  proof (rule nth_equalityI)
    show "length (elements (push item q)) = length (drop 1 (elements q @ [item]))"
      using full ok by (simp add: push_def queue_advance_def)
    fix i assume "i < length (elements (push item q))"
    then have i: "i < fq_capacity q" and i': "i < fq_size (push item q)"
      using full by (simp_all add: push_def queue_advance_def)
    show "elements (push item q) ! i = drop 1 (elements q @ [item]) ! i"
    proof (cases "Suc i = fq_capacity q")
      case True
      then have "elements (push item q) ! i = item"
        using e fin by (simp add: elements_nth [OF i'] idx [OF i] data)
      moreover have "drop 1 (elements q @ [item]) ! i = (elements q @ [item]) ! fq_size q"
        using True full by (subst nth_drop) simp_all
      ultimately show ?thesis by (simp add: nth_append)
    next
      case False
      then have "Suc i < fq_capacity q" "i < fq_capacity q - Suc 0" using i by simp_all
      then show ?thesis
        using full distinct [of i]
        by (simp add: elements_nth [OF i'] idx [OF i] data nth_append list_reads)
    qed
  qed
  then show ?thesis using full by (simp add: take_last_def)
qed

text \<open>The queue provides the overwriting contract, one \<open>push\<close> per element.\<close>

lemma pushes:
  assumes "queue_ok q"
  shows "queue_ok (fold push xs q)" "fq_capacity (fold push xs q) = fq_capacity q"
    "elements (fold push xs q) = take_last (fq_capacity q) (elements q @ xs)"
  using assms
proof (induction xs arbitrary: q)
  case Nil
  { case 1 then show ?case by simp }
  { case 2 then show ?case by simp }
  { case 3 then show ?case using queue_okD(5) [OF 3] by simp }
next
  case (Cons x xs)
  { case 1 then show ?case using Cons.IH(1) [OF push_ok [OF 1]] by simp }
  { case 2 then show ?case using Cons.IH(2) [OF push_ok [OF 2]] by simp }
  { case 3
    then have "elements (fold push (x # xs) q)
        = take_last (fq_capacity q) (take_last (fq_capacity q) (elements q @ [x]) @ xs)"
      using Cons.IH(3) [OF push_ok [OF 3]] push_elements [OF 3] by simp
    then show ?case by simp }
qed

interpretation history: overwriting_fifo "fold push" elements fq_capacity queue_ok
  by unfold_locales (use pushes queue_okD(5) in auto)

section \<open>Construction, access, filling and resizing\<close>

lemma dsp_roundUp_eq: "dsp_roundUpToPowerOfTwo value = roundUpToPowerOfTwo value"
  by (simp add: dsp_roundUpToPowerOfTwo_def roundUpToPowerOfTwo_def)

lemma new_queue_ok: "capacity \<le> 2 ^ 63 \<Longrightarrow> queue_ok (new_queue d capacity)"
  using roundUp_pow2 [of capacity] roundUp_ge [of capacity] roundUp_pow2 [of 1] roundUp_ge [of 1]
  by (cases "capacity = 0") (auto simp: new_queue_def queue_ok_def dsp_roundUp_eq Let_def)

lemma new_exact_queue_ok: "queue_ok (new_exact_queue d capacity)"
  by (simp add: new_exact_queue_def queue_ok_def Let_def)

lemma new_queue_empty: "elements (new_queue d capacity) = []"
  "elements (new_exact_queue d capacity) = []"
  by (simp_all add: new_queue_def new_exact_queue_def elements_def Let_def)

lemma queue_get_elements: "i < fq_size q \<Longrightarrow> queue_get q i = elements q ! i"
  by (simp add: queue_get_def list_reads)

lemma queue_front_elements:
  "queue_ok q \<Longrightarrow> \<not> queue_empty q \<Longrightarrow> queue_front q = hd (elements q)"
  using queue_okD(4) [of q]
  by (simp add: queue_empty_def queue_front_def elements_def hd_map upt_conv_Cons wrappedIndex_def
      wrap_def)

lemma queue_back_elements: "\<not> queue_empty q \<Longrightarrow> queue_back q = last (elements q)"
  by (simp add: queue_empty_def queue_back_def elements_def last_map)

lemma queue_clear_ok: "queue_ok q \<Longrightarrow> queue_ok (queue_clear q)"
  by (auto simp: queue_ok_def queue_clear_def)

lemma queue_clear_elements [simp]: "elements (queue_clear q) = []"
  by (simp add: queue_clear_def elements_def)

lemma queue_clear_capacity [simp]: "fq_capacity (queue_clear q) = fq_capacity q"
  by (simp add: queue_clear_def)

lemma queue_fill_elements:
  "queue_ok q \<Longrightarrow> elements (queue_fill v q) = replicate (fq_capacity q) v"
  using pushes(3) [OF queue_clear_ok, of q "replicate (fq_capacity q) v"]
  by (simp add: queue_fill_def)

lemma fillRange_elements:
  assumes "queue_ok q"
  shows "elements (fillRange start step q)
    = map (\<lambda>i. start + of_nat i * step) [0..<fq_capacity q]"
proof -
  have "fillRange start step q
      = fold push (map (\<lambda>i. start + of_nat i * step) [0..<fq_capacity q]) (queue_clear q)"
    by (simp add: fillRange_def fold_map comp_def)
  then show ?thesis by (simp add: pushes(3) queue_clear_ok assms)
qed

text \<open>Resizing keeps the newest elements, as many as fit, and stays well-formed.\<close>

lemma resize_ok:
  assumes "queue_ok q" "newCapacity \<le> 2 ^ 63"
  shows "queue_ok (resize d newCapacity q)"
proof -
  define n where "n = (if newCapacity < 1 then 1 else newCapacity)"
  have n: "1 \<le> n" "n \<le> 2 ^ 63" using assms(2) by (simp_all add: n_def)
  define storage where "storage = (if fq_exact q then n else dsp_roundUpToPowerOfTwo n)"
  have "n \<le> storage" "fq_exact q \<longrightarrow> storage = n" "\<not> fq_exact q \<longrightarrow> pow2 storage"
    using roundUp_ge(1) [OF n(2)] roundUp_pow2 [OF n(2)] by (auto simp: storage_def dsp_roundUp_eq)
  then show ?thesis
    using assms(1) n(1)
    unfolding resize_def Let_def n_def [symmetric] storage_def [symmetric]
    by (simp add: queue_ok_def)
qed

lemma resize_elements:
  assumes "queue_ok q" "newCapacity \<le> 2 ^ 63"
  shows "elements (resize d newCapacity q) = take_last (max 1 newCapacity) (elements q)"
proof (cases "max 1 newCapacity = fq_capacity q")
  case True
  then have "resize d newCapacity q = q" by (simp add: resize_def Let_def max_def split: if_splits)
  then show ?thesis using queue_okD(5) [OF assms(1)] True by simp
next
  case False
  define n where "n = max 1 newCapacity"
  define k where "k = min (fq_size q) n"
  define storage where "storage = (if fq_exact q then n else dsp_roundUpToPowerOfTwo n)"
  define dat where "dat = map (\<lambda>i. queue_get q (fq_size q - k + i)) [0..<k] @ replicate (storage - k) d"
  have r: "resize d newCapacity q = q\<lparr>fq_start := 0, fq_size := k, fq_capacity := n,
      fq_storage := storage, fq_mask := storage - 1, fq_data := dat\<rparr>"
    using False
    by (simp add: resize_def Let_def n_def k_def dat_def storage_def max_def split: if_splits)
  have "k \<le> storage"
    using roundUp_ge(1) [of n] assms(2) by (auto simp: storage_def k_def n_def dsp_roundUp_eq)
  then have "elements (resize d newCapacity q) = map (\<lambda>i. dat ! i) [0..<k]"
    unfolding r by (simp add: elements_def wrappedIndex_def wrap_def)
  also have "\<dots> = take_last n (elements q)"
    by (intro nth_equalityI)
      (auto simp: dat_def k_def nth_append list_reads queue_get_def min_def)
  finally show ?thesis by (simp add: n_def)
qed

section \<open>Properties\<close>

text \<open>Pushing samples into the history queue keeps its representation well formed and its
capacity, and the queue then holds the newest samples, oldest first.\<close>

theorem push_keeps_newest:
  assumes "queue_ok q"
  shows "queue_ok (fold push xs q) \<and> fq_capacity (fold push xs q) = fq_capacity q
    \<and> elements (fold push xs q) = take_last (fq_capacity q) (elements q @ xs)"
  using assms by (simp add: pushes)

theorem push_keeps_newest_witness:
  "elements (fold push [1, 2, 3, 4] (new_exact_queue 0 3)) = [2, 3, 4 :: nat]"
proof -
  have "fq_capacity (new_exact_queue (0 :: nat) 3) = 3" by code_simp
  then show ?thesis
    using push_keeps_newest[of "new_exact_queue 0 3" "[1, 2, 3, 4 :: nat]"]
    by (simp add: new_exact_queue_ok new_queue_empty take_last_def)
qed

end
