(* ===== verification/Checksums.thy ===== *)
theory Checksums
  imports Prelude
begin

unbundle bit_operations_syntax

text \<open>
  The frame checksums of \<open>core/Core/Checksum.cpp\<close>, the table-driven CRCs of the file-transfer
  protocols (\<open>core/Protocols/FileTransfer/CRC.h\<close>) and the CRC trailer of the Modbus RTU codec, at the
  widths of the code (\<open>8/16/32 word\<close>, shifts truncate as \<open><<=\<close> on the unsigned types does).
  A \<open>for j < 8\<close> bit loop is the eight-fold iterate of its body, a byte loop a \<open>fold\<close>.
\<close>

section \<open>Bit loops\<close>

definition crc8_bit :: "8 word \<Rightarrow> 8 word" where
  "crc8_bit crc = (if crc AND 0x80 \<noteq> 0 then push_bit 1 crc XOR 0x31 else push_bit 1 crc)"

definition ccitt_bit :: "16 word \<Rightarrow> 16 word" where
  "ccitt_bit crc = (if crc AND 0x8000 \<noteq> 0 then push_bit 1 crc XOR 0x1021 else push_bit 1 crc)"

definition modbus_bit :: "16 word \<Rightarrow> 16 word" where
  "modbus_bit crc = (if crc AND 0x0001 \<noteq> 0 then drop_bit 1 crc XOR 0xA001 else drop_bit 1 crc)"

definition crc32_bit :: "32 word \<Rightarrow> 32 word" where
  "crc32_bit crc = (if crc AND 1 \<noteq> 0 then drop_bit 1 crc XOR 0xEDB88320 else drop_bit 1 crc)"

section \<open>Checksum implementations\<close>

definition xor8 :: "bytes \<Rightarrow> 8 word" where
  "xor8 data = fold (\<lambda>b checksum. checksum XOR b) data 0"

definition crc8 :: "bytes \<Rightarrow> 8 word" where
  "crc8 data = fold (\<lambda>b crc. (crc8_bit ^^ 8) (crc XOR b)) data 0xFF"

definition mod256 :: "bytes \<Rightarrow> 8 word" where
  "mod256 data =
     (let sum = fold (\<lambda>b sum. sum + ucast b) data (0 :: 16 word) in ucast (sum AND 0xFF))"

text \<open>The nibble recurrence of \<open>crc16\<close>: \<open>x\<close> is a \<open>uint8_t\<close>, the shifts of it are taken at 16 bits.\<close>

definition crc16_byte :: "byte \<Rightarrow> 16 word \<Rightarrow> 16 word" where
  "crc16_byte b crc =
     (let x = ucast (drop_bit 8 crc) XOR b :: 8 word;
          x = x XOR drop_bit 4 x
      in push_bit 8 crc XOR push_bit 12 (ucast x) XOR push_bit 5 (ucast x) XOR ucast x)"

definition crc16 :: "bytes \<Rightarrow> 16 word" where
  "crc16 data = fold crc16_byte data 0xFFFF"

definition crc32 :: "bytes \<Rightarrow> 32 word" where
  "crc32 data = NOT (fold (\<lambda>b crc. (crc32_bit ^^ 8) (crc XOR ucast b)) data 0xFFFFFFFF)"

definition crc16_modbus :: "bytes \<Rightarrow> 16 word" where
  "crc16_modbus data = fold (\<lambda>b crc. (modbus_bit ^^ 8) (crc XOR ucast b)) data 0xFFFF"

definition crc16_ccitt :: "bytes \<Rightarrow> 16 word" where
  "crc16_ccitt data = fold (\<lambda>b crc. (ccitt_bit ^^ 8) (crc XOR push_bit 8 (ucast b))) data 0x0000"

text \<open>
  The two modular sums share their loop: 32-bit accumulators, reduced once per block.
\<close>

definition sum_block :: "bytes \<Rightarrow> 32 word \<times> 32 word \<Rightarrow> 32 word \<times> 32 word" where
  "sum_block = fold (\<lambda>x (a, b). let a = a + ucast x in (a, b + a))"

function sum_loop :: "32 word \<Rightarrow> nat \<Rightarrow> bytes \<Rightarrow> 32 word \<times> 32 word \<Rightarrow> 32 word \<times> 32 word" where
  "sum_loop m block data acc =
     (if data = [] \<or> block = 0 then acc
      else let span = (if length data < block then length data else block);
               (a, b) = sum_block (take span data) acc
           in sum_loop m block (drop span data) (a mod m, b mod m))"
  by pat_completeness auto
termination
  by (relation "measure (\<lambda>(m, block, data, acc). length data)") auto

declare sum_loop.simps [simp del]

definition kModAdler :: "32 word" where "kModAdler = 65521"
definition kAdlerBlock :: nat where "kAdlerBlock = 5552"
definition kModFletcher :: "32 word" where "kModFletcher = 255"
definition kFletcherBlock :: nat where "kFletcherBlock = 4096"

definition adler32 :: "bytes \<Rightarrow> 32 word" where
  "adler32 data = (let (a, b) = sum_loop kModAdler kAdlerBlock data (1, 0) in push_bit 16 b OR a)"

definition fletcher16 :: "bytes \<Rightarrow> 16 word" where
  "fletcher16 data =
     (let (sum1, sum2) = sum_loop kModFletcher kFletcherBlock data (0, 0)
      in ucast (push_bit 8 sum2 OR sum1))"

section \<open>Packing and the algorithm map\<close>

text \<open>The memory image of a value on the little-endian targets the application ships for.\<close>

definition image16 :: "16 word \<Rightarrow> bytes" where
  "image16 v = [ucast v, ucast (drop_bit 8 v)]"

definition image32 :: "32 word \<Rightarrow> bytes" where
  "image32 v = [ucast v, ucast (drop_bit 8 v), ucast (drop_bit 16 v), ucast (drop_bit 24 v)]"

definition big_endian_memcpy :: "bytes \<Rightarrow> bytes" where
  "big_endian_memcpy raw_data = map (\<lambda>i. raw_data ! (length raw_data - 1 - i)) [0..<length raw_data]"

definition little_endian_memcpy :: "bytes \<Rightarrow> bytes" where
  "little_endian_memcpy raw_data = raw_data"

definition packByte :: "8 word \<Rightarrow> bytes" where "packByte v = [v]"
definition packU16BE :: "16 word \<Rightarrow> bytes" where "packU16BE v = big_endian_memcpy (image16 v)"
definition packU16LE :: "16 word \<Rightarrow> bytes" where "packU16LE v = little_endian_memcpy (image16 v)"
definition packU32BE :: "32 word \<Rightarrow> bytes" where "packU32BE v = big_endian_memcpy (image32 v)"

definition checksumFunctionMap :: "(string \<times> (bytes \<Rightarrow> bytes)) list" where
  "checksumFunctionMap =
     [('''', \<lambda>d. []),
      (''XOR-8'', \<lambda>d. packByte (xor8 d)),
      (''MOD-256'', \<lambda>d. packByte (mod256 d)),
      (''CRC-8'', \<lambda>d. packByte (crc8 d)),
      (''CRC-16'', \<lambda>d. packU16BE (crc16 d)),
      (''CRC-16-MODBUS'', \<lambda>d. packU16LE (crc16_modbus d)),
      (''CRC-16-CCITT'', \<lambda>d. packU16BE (crc16_ccitt d)),
      (''Fletcher-16'', \<lambda>d. packU16BE (fletcher16 d)),
      (''CRC-32'', \<lambda>d. packU32BE (crc32 d)),
      (''Adler-32'', \<lambda>d. packU32BE (adler32 d))]"

definition checksum :: "string \<Rightarrow> bytes \<Rightarrow> bytes" where
  "checksum name data =
     (case map_of checksumFunctionMap name of Some f \<Rightarrow> f data | None \<Rightarrow> [])"

section \<open>The CRCs of the file-transfer protocols\<close>

definition kCrc16Table :: "16 word list" where
  "kCrc16Table = map (\<lambda>i. (ccitt_bit ^^ 8) (push_bit 8 (word_of_nat i))) [0..<256]"

definition kCrc32Table :: "32 word list" where
  "kCrc32Table = map (\<lambda>i. (crc32_bit ^^ 8) (word_of_nat i)) [0..<256]"

definition ft_crc16 :: "bytes \<Rightarrow> 16 word" where
  "ft_crc16 data = fold (\<lambda>b crc. push_bit 8 crc XOR
     kCrc16Table ! unat ((drop_bit 8 crc XOR ucast b) AND 0xFF)) data 0x0000"

definition ft_crc32 :: "bytes \<Rightarrow> 32 word" where
  "ft_crc32 data = NOT (fold (\<lambda>b crc. drop_bit 8 crc XOR
     kCrc32Table ! unat ((crc XOR ucast b) AND 0xFF)) data 0xFFFFFFFF)"

section \<open>The Modbus RTU codec\<close>

definition functionCodeForType :: "8 word \<Rightarrow> 8 word" where
  "functionCodeForType registerType =
     (if registerType = 1 then 0x04
      else if registerType = 2 then 0x01
      else if registerType = 3 then 0x02
      else 0x03)"

definition kCrcSeed :: "16 word" where "kCrcSeed = 0xFFFF"
definition kCrcPolynomial :: "16 word" where "kCrcPolynomial = 0xA001"

definition appendCrc :: "bytes \<Rightarrow> bytes" where
  "appendCrc frame =
     (if frame = [] then frame
      else let crc = fold (\<lambda>octet crc.
                 ((\<lambda>crc. if crc AND 1 \<noteq> 0 then drop_bit 1 crc XOR kCrcPolynomial
                        else drop_bit 1 crc) ^^ 8) (crc XOR ucast octet)) frame kCrcSeed
           in frame @ [ucast (crc AND 0xFF), ucast (drop_bit 8 crc AND 0xFF)])"

section \<open>Registers as linear maps\<close>

text \<open>
  A CRC register over any polynomial: the bit step is additive for \<open>XOR\<close> and loses nothing, and a
  byte is loaded injectively. Everything below is proved from these laws only.
\<close>

locale crc_register =
  fixes bit_step :: "'w::len word \<Rightarrow> 'w word" and load :: "byte \<Rightarrow> 'w word"
  assumes step_xor: "bit_step (x XOR y) = bit_step x XOR bit_step y"
    and step_kernel: "bit_step x = 0 \<Longrightarrow> x = 0"
    and load_xor: "load (a XOR b) = load a XOR load b"
    and load_kernel: "load a = 0 \<Longrightarrow> a = 0"
begin

lemma steps_xor: "(bit_step ^^ n) (x XOR y) = (bit_step ^^ n) x XOR (bit_step ^^ n) y"
  by (induction n) (simp_all add: step_xor)

lemma steps_0: "(bit_step ^^ n) 0 = 0"
  using steps_xor [of n 0 0] by simp

lemma steps_kernel: "(bit_step ^^ n) x = 0 \<Longrightarrow> x = 0"
  by (induction n arbitrary: x) (auto dest: step_kernel)

lemma steps_inj: "(bit_step ^^ n) x = (bit_step ^^ n) y \<Longrightarrow> x = y"
  using steps_xor [of n x y] steps_kernel [of n "x XOR y"] by (simp add: xor_eq_0_iff)

lemma load_inj: "load a = load b \<Longrightarrow> a = b"
  using load_xor [of a b] load_kernel [of "a XOR b"] by (simp add: xor_eq_0_iff)

abbreviation run :: "'w word \<Rightarrow> bytes \<Rightarrow> 'w word" where
  "run s data \<equiv> fold (\<lambda>b s. (bit_step ^^ 8) (s XOR load b)) data s"

lemma run_inj: "run s data = run t data \<Longrightarrow> s = t"
proof (induction data arbitrary: s t)
  case (Cons b data)
  then have "(bit_step ^^ 8) (s XOR load b) = (bit_step ^^ 8) (t XOR load b)" by simp
  then have "s XOR load b = t XOR load b" by (rule steps_inj)
  then show ?case by (simp add: xor_cancel)
qed simp

text \<open>A message changed in one byte, however many of its bits, has another register value.\<close>

lemma detects_byte: "run s (xs @ a # ys) = run s (xs @ b # ys) \<Longrightarrow> a = b"
proof -
  assume "run s (xs @ a # ys) = run s (xs @ b # ys)"
  then have "run ((bit_step ^^ 8) (run s xs XOR load a)) ys = run ((bit_step ^^ 8) (run s xs XOR load b)) ys"
    by simp
  then have "run s xs XOR load a = run s xs XOR load b" by (blast dest: run_inj steps_inj)
  then have "load a = load b" by (simp add: xor_cancel xor.commute)
  then show "a = b" by (rule load_inj)
qed

end

section \<open>The four registers of the code\<close>

lemma and_top: "(x :: 'w::len word) AND 2 ^ n = 0 \<longleftrightarrow> \<not> bit x n"
proof
  assume z: "x AND 2 ^ n = 0"
  show "\<not> bit x n"
  proof
    assume "bit x n"
    then have "bit (x AND 2 ^ n) n" by (auto simp: bit_and_iff bit_exp_iff dest: bit_imp_possible_bit)
    then show False using z by simp
  qed
next
  assume "\<not> bit x n"
  then show "x AND 2 ^ n = 0"
    by (intro bit_eqI) (auto simp: bit_and_iff bit_exp_iff)
qed

text \<open>Shift left, feed the polynomial back when the top bit leaves.\<close>

lemma left_xor:
  fixes poly :: "'w::len word" and n :: nat
  defines "f \<equiv> \<lambda>x. if bit x n then push_bit 1 x XOR poly else push_bit 1 x"
  shows "f (x XOR y) = f x XOR f y"
  by (simp add: f_def bit_xor_iff push_bit_xor ac_simps)

lemma right_xor:
  fixes poly :: "'w::len word" and n :: nat
  defines "f \<equiv> \<lambda>x. if bit x n then drop_bit 1 x XOR poly else drop_bit 1 x"
  shows "f (x XOR y) = f x XOR f y"
  by (simp add: f_def bit_xor_iff drop_bit_xor ac_simps)

lemma left_kernel:
  fixes poly :: "'w::len word"
  assumes "bit poly 0" and "(if bit x (LENGTH('w) - 1) then push_bit 1 x XOR poly else push_bit 1 x) = 0"
  shows "x = 0"
proof (cases "bit x (LENGTH('w) - 1)")
  case True
  then have "push_bit 1 x = poly" using assms(2) by (simp add: xor_eq_0_iff)
  then show ?thesis using assms(1) by (metis bit_push_bit_iff less_one not_le)
next
  case False
  then have z: "push_bit 1 x = 0" using assms(2) by simp
  show ?thesis
  proof (rule bit_eqI)
    fix k assume k: "possible_bit TYPE('w word) k"
    show "bit x k = bit (0 :: 'w word) k"
    proof (cases "k = LENGTH('w) - 1")
      case True
      then show ?thesis using False by simp
    next
      case other: False
      then have "bit (push_bit 1 x) (Suc k) = bit x k"
        using k by (subst bit_push_bit_iff) (auto simp: possible_bit_def)
      then show ?thesis using z by simp
    qed
  qed
qed

lemma right_kernel:
  fixes poly :: "'w::len word"
  assumes "bit poly (LENGTH('w) - 1)" and "(if bit x 0 then drop_bit 1 x XOR poly else drop_bit 1 x) = 0"
  shows "x = 0"
proof (cases "bit x 0")
  case True
  then have "drop_bit 1 x = poly" using assms(2) by (simp add: xor_eq_0_iff)
  then have "bit x (LENGTH('w))" using assms(1) by (auto simp: bit_drop_bit_eq)
  then show ?thesis by (auto dest: bit_imp_le_length)
next
  case False
  then have z: "drop_bit 1 x = 0" using assms(2) by simp
  have "\<not> bit x k" for k
    using False z by (cases k) (auto simp: bit_drop_bit_eq dest: arg_cong [of _ 0 "\<lambda>v. bit v (k - 1)"])
  then show ?thesis by (intro bit_eqI) simp
qed

lemma crc8_bit_alt: "crc8_bit x = (if bit x 7 then push_bit 1 x XOR 0x31 else push_bit 1 x)"
  using and_top [of x 7] by (simp add: crc8_bit_def)

lemma ccitt_bit_alt: "ccitt_bit x = (if bit x 15 then push_bit 1 x XOR 0x1021 else push_bit 1 x)"
  using and_top [of x 15] by (simp add: ccitt_bit_def)

lemma modbus_bit_alt: "modbus_bit x = (if bit x 0 then drop_bit 1 x XOR 0xA001 else drop_bit 1 x)"
  using and_top [of x 0] by (simp add: modbus_bit_def)

lemma crc32_bit_alt: "crc32_bit x = (if bit x 0 then drop_bit 1 x XOR 0xEDB88320 else drop_bit 1 x)"
  using and_top [of x 0] by (simp add: crc32_bit_def)

lemma ucast_xor_byte: "(ucast (a XOR b :: byte) :: 'w::len word) = ucast a XOR ucast b"
  by (rule bit_eqI) (auto simp: bit_ucast_iff bit_xor_iff)

lemma ucast_kernel: "8 \<le> LENGTH('w) \<Longrightarrow> (ucast (a :: byte) :: 'w::len word) = 0 \<Longrightarrow> a = 0"
proof (rule bit_eqI)
  fix k assume l: "8 \<le> LENGTH('w)" and z: "(ucast a :: 'w word) = 0" and k: "possible_bit TYPE(byte) k"
  have "bit (ucast a :: 'w word) k = bit a k"
    using l k by (simp add: bit_ucast_iff possible_bit_def)
  then have "bit (0 :: 'w word) k = bit a k" unfolding z .
  then show "bit a k = bit (0 :: byte) k" by simp
qed

lemma push8_kernel: "push_bit 8 (ucast (a :: byte) :: 16 word) = 0 \<Longrightarrow> a = 0"
proof (rule bit_eqI)
  fix k assume z: "push_bit 8 (ucast a :: 16 word) = 0" and k: "possible_bit TYPE(byte) k"
  then have "k < 8" by (simp add: possible_bit_def)
  then have "bit (push_bit 8 (ucast a :: 16 word)) (8 + k) = bit a k"
    by (subst bit_push_bit_iff) (simp add: bit_ucast_iff possible_bit_def)
  then show "bit a k = bit (0 :: byte) k" using z by simp
qed

interpretation crc8_reg: crc_register crc8_bit "\<lambda>b. b"
proof unfold_locales
  fix x y :: byte
  show "crc8_bit (x XOR y) = crc8_bit x XOR crc8_bit y"
    unfolding crc8_bit_alt by (rule left_xor)
  assume "crc8_bit x = 0"
  then show "x = 0" unfolding crc8_bit_alt by (intro left_kernel [of "0x31" x]) simp_all
qed simp_all

interpretation ccitt_reg: crc_register ccitt_bit "\<lambda>b. push_bit 8 (ucast b)"
proof unfold_locales
  fix x y :: "16 word"
  show "ccitt_bit (x XOR y) = ccitt_bit x XOR ccitt_bit y"
    unfolding ccitt_bit_alt by (rule left_xor)
  assume "ccitt_bit x = 0"
  then show "x = 0" unfolding ccitt_bit_alt by (intro left_kernel [of "0x1021" x]) simp_all
qed (simp_all only: ucast_xor_byte push_bit_xor push8_kernel)

interpretation modbus_reg: crc_register modbus_bit "\<lambda>b. ucast b"
proof unfold_locales
  fix x y :: "16 word"
  show "modbus_bit (x XOR y) = modbus_bit x XOR modbus_bit y"
    unfolding modbus_bit_alt by (rule right_xor)
  assume "modbus_bit x = 0"
  then show "x = 0" unfolding modbus_bit_alt by (intro right_kernel [of "0xA001" x]) simp_all
qed (rule ucast_xor_byte, rule ucast_kernel, simp_all)

interpretation crc32_reg: crc_register crc32_bit "\<lambda>b. ucast b"
proof unfold_locales
  fix x y :: "32 word"
  show "crc32_bit (x XOR y) = crc32_bit x XOR crc32_bit y"
    unfolding crc32_bit_alt by (rule right_xor)
  assume "crc32_bit x = 0"
  then show "x = 0" unfolding crc32_bit_alt by (intro right_kernel [of "0xEDB88320" x]) simp_all
qed (rule ucast_xor_byte, rule ucast_kernel, simp_all)

section \<open>Additive functions are determined by the basis\<close>

lemma additive_eqI:
  fixes f g :: "'a::len word \<Rightarrow> 'b::len word"
  assumes f: "\<And>x y. f (x XOR y) = f x XOR f y" and g: "\<And>x y. g (x XOR y) = g x XOR g y"
    and basis: "\<And>i. i < LENGTH('a) \<Longrightarrow> f (2 ^ i) = g (2 ^ i)"
  shows "f x = g x"
proof -
  have f0: "f 0 = 0" and g0: "g 0 = 0" using f [of 0 0] g [of 0 0] by simp_all
  have "n \<le> LENGTH('a) \<Longrightarrow> f (take_bit n x) = g (take_bit n x)" for n
  proof (induction n)
    case (Suc n)
    have "take_bit (Suc n) x = take_bit n x XOR (if bit x n then 2 ^ n else 0)"
      by (rule bit_eqI) (auto simp: bit_take_bit_iff bit_xor_iff bit_exp_iff less_Suc_eq possible_bit_def)
    then show ?case using Suc basis [of n] by (auto simp: f g f0 g0)
  qed (simp add: f0 g0)
  from this [of "LENGTH('a)"] show ?thesis by simp
qed

section \<open>Table-driven and nibble-wise updates are the bit loop\<close>

lemma and_FF: "(x :: 'w::len word) AND 0xFF = take_bit 8 x"
  by (simp add: take_bit_eq_mask mask_eq_exp_minus_1)

lemma ccitt_steps_low:
  "n \<le> 16 \<Longrightarrow> (\<And>k. 16 - n \<le> k \<Longrightarrow> \<not> bit x k) \<Longrightarrow> (ccitt_bit ^^ n) x = push_bit n x"
proof (induction n)
  case (Suc n)
  have s: "(ccitt_bit ^^ n) x = push_bit n x" using Suc by auto
  have "\<not> bit (push_bit n x) 15" using Suc.prems by (subst bit_push_bit_iff) auto
  then have "ccitt_bit (push_bit n x) = push_bit 1 (push_bit n x)" unfolding ccitt_bit_alt by (rule if_not_P)
  then show ?case using s by (simp only: funpow.simps o_apply push_bit_push_bit) simp
qed simp

lemma crc32_steps_high:
  "(\<And>k. k < n \<Longrightarrow> \<not> bit x k) \<Longrightarrow> (crc32_bit ^^ n) x = drop_bit n x"
proof (induction n)
  case (Suc n)
  have s: "(crc32_bit ^^ n) x = drop_bit n x" using Suc by auto
  have "\<not> bit (drop_bit n x) 0" using Suc.prems [of n] by (simp add: bit_drop_bit_eq)
  then have "crc32_bit (drop_bit n x) = drop_bit 1 (drop_bit n x)" unfolding crc32_bit_alt by (rule if_not_P)
  then show ?case using s by (simp only: funpow.simps o_apply drop_bit_drop_bit) simp
qed simp

lemma ccitt_byte_split:
  fixes crc :: "16 word"
  shows "crc XOR push_bit 8 (ucast b)
    = take_bit 8 crc XOR push_bit 8 (ucast (ucast (drop_bit 8 crc) XOR b :: byte))"
proof (rule bit_eqI)
  fix n assume n: "possible_bit TYPE(16 word) n"
  show "bit (crc XOR push_bit 8 (ucast b)) n
    = bit (take_bit 8 crc XOR push_bit 8 (ucast (ucast (drop_bit 8 crc) XOR b :: byte))) n"
  proof (cases "n < 8")
    case False
    then obtain m where "n = 8 + m" using le_Suc_ex not_less by blast
    then show ?thesis
      using n unfolding bit_xor_iff bit_take_bit_iff bit_push_bit_iff bit_ucast_iff bit_drop_bit_eq
      by (auto simp: possible_bit_def)
  qed (simp only: bit_xor_iff bit_take_bit_iff bit_push_bit_iff; simp)
qed

lemma ccitt_byte:
  "(ccitt_bit ^^ 8) (crc XOR push_bit 8 (ucast b)) = push_bit 8 crc
     XOR (ccitt_bit ^^ 8) (push_bit 8 (ucast (ucast (drop_bit 8 crc) XOR b :: byte)))"
proof -
  have "(ccitt_bit ^^ 8) (take_bit 8 crc) = push_bit 8 (take_bit 8 crc)"
    by (rule ccitt_steps_low) (simp_all add: bit_take_bit_iff)
  also have "\<dots> = push_bit 8 crc"
    by (rule bit_eqI) (simp only: bit_push_bit_iff bit_take_bit_iff, auto simp: possible_bit_def)
  finally show ?thesis unfolding ccitt_byte_split [of crc b] by (simp only: ccitt_reg.steps_xor)
qed

lemma nibble_basis:
  "list_all (\<lambda>i. (ccitt_bit ^^ 8) (push_bit 8 (ucast (2 ^ i :: byte)))
     = push_bit 12 (ucast (2 ^ i XOR drop_bit 4 (2 ^ i) :: byte))
       XOR push_bit 5 (ucast (2 ^ i XOR drop_bit 4 (2 ^ i) :: byte))
       XOR ucast (2 ^ i XOR drop_bit 4 (2 ^ i) :: byte)) [0, 1, 2, 3, 4, 5, 6, 7]"
  by (simp add: funpow_8 ccitt_bit_def)

lemma nibble_table:
  "(ccitt_bit ^^ 8) (push_bit 8 (ucast (t :: byte)))
     = (let x = t XOR drop_bit 4 t
        in push_bit 12 (ucast x) XOR push_bit 5 (ucast x) XOR ucast x)"
  unfolding Let_def
proof (rule additive_eqI [where x = t])
  fix i assume "i < LENGTH(8)"
  then have "i \<in> set [0, 1, 2, 3, 4, 5, 6, 7]" by (simp, linarith)
  then show "(ccitt_bit ^^ 8) (push_bit 8 (ucast (2 ^ i :: byte)))
     = push_bit 12 (ucast (2 ^ i XOR drop_bit 4 (2 ^ i) :: byte))
       XOR push_bit 5 (ucast (2 ^ i XOR drop_bit 4 (2 ^ i) :: byte)) XOR ucast (2 ^ i XOR drop_bit 4 (2 ^ i) :: byte)"
    using nibble_basis unfolding list_all_iff by blast
qed (simp_all only: ucast_xor_byte push_bit_xor drop_bit_xor ccitt_reg.steps_xor ac_simps)

lemma crc16_byte_eq: "crc16_byte b crc = (ccitt_bit ^^ 8) (crc XOR push_bit 8 (ucast b))"
  unfolding ccitt_byte nibble_table crc16_byte_def Let_def by (simp only: ac_simps)

lemma table16: "i < 256 \<Longrightarrow> kCrc16Table ! i = (ccitt_bit ^^ 8) (push_bit 8 (word_of_nat i))"
  by (simp add: kCrc16Table_def)

lemma table32: "i < 256 \<Longrightarrow> kCrc32Table ! i = (crc32_bit ^^ 8) (word_of_nat i)"
  by (simp add: kCrc32Table_def)

lemma unat_low_byte: "unat ((x :: 'w::len word) AND 0xFF) < 256"
proof -
  have "unat (take_bit 8 x) = take_bit 8 (unat x)" by (rule unsigned_take_bit_eq)
  also have "\<dots> < 2 ^ 8" by (rule take_bit_nat_less_exp)
  finally show ?thesis unfolding and_FF by simp
qed

lemma ft_crc16_byte:
  "push_bit 8 crc XOR kCrc16Table ! unat ((drop_bit 8 crc XOR ucast b) AND 0xFF)
     = (ccitt_bit ^^ 8) (crc XOR push_bit 8 (ucast (b :: byte)))"
proof -
  have "(drop_bit 8 crc XOR ucast b) AND 0xFF = ucast (ucast (drop_bit 8 crc) XOR b :: byte)"
    unfolding and_FF by (rule bit_eqI) (auto simp: bit_take_bit_iff bit_ucast_iff bit_xor_iff
        dest: bit_imp_le_length)
  then show ?thesis
    using unat_low_byte [of "drop_bit 8 crc XOR ucast b :: 16 word"]
    by (simp add: ccitt_byte table16)
qed

lemma crc32_byte:
  "(crc32_bit ^^ 8) (crc XOR ucast (b :: byte))
     = drop_bit 8 crc XOR (crc32_bit ^^ 8) (take_bit 8 (crc XOR ucast b))"
proof -
  let ?hi = "push_bit 8 (drop_bit 8 crc)"
  have "crc XOR ucast b = ?hi XOR take_bit 8 (crc XOR ucast b)"
    by (rule bit_eqI) (auto simp: bit_xor_iff bit_push_bit_iff bit_take_bit_iff bit_ucast_iff
       bit_drop_bit_eq not_le dest: bit_imp_le_length)
  then have "(crc32_bit ^^ 8) (crc XOR ucast b)
      = (crc32_bit ^^ 8) ?hi XOR (crc32_bit ^^ 8) (take_bit 8 (crc XOR ucast b))"
    by (metis crc32_reg.steps_xor)
  moreover have "(crc32_bit ^^ 8) ?hi = drop_bit 8 ?hi"
    by (rule crc32_steps_high) (simp add: bit_push_bit_iff)
  moreover have "drop_bit 8 ?hi = drop_bit 8 crc"
    by (rule bit_eqI) (auto simp: bit_push_bit_iff bit_drop_bit_eq dest: bit_imp_le_length)
  ultimately show ?thesis by simp
qed

lemma ft_crc32_byte:
  "drop_bit 8 crc XOR kCrc32Table ! unat ((crc XOR ucast b) AND 0xFF)
     = (crc32_bit ^^ 8) (crc XOR ucast (b :: byte))"
  using unat_low_byte [of "crc XOR ucast b :: 32 word"]
  by (simp add: crc32_byte table32 and_FF)

lemma ft_crc16_is_ccitt: "ft_crc16 data = crc16_ccitt data"
  by (simp only: ft_crc16_def crc16_ccitt_def ft_crc16_byte)

lemma ft_crc32_is_crc32: "ft_crc32 data = crc32 data"
  by (simp only: ft_crc32_def crc32_def ft_crc32_byte)

lemma crc16_is_ccitt_seeded:
  "crc16 data = fold (\<lambda>b crc. (ccitt_bit ^^ 8) (crc XOR push_bit 8 (ucast b))) data 0xFFFF"
proof -
  have "crc16_byte = (\<lambda>b crc. (ccitt_bit ^^ 8) (crc XOR push_bit 8 (ucast b)))"
    by (intro ext) (rule crc16_byte_eq)
  then show ?thesis by (simp only: crc16_def)
qed

section \<open>Appending the checksum clears the register\<close>

lemmas pack_defs = packByte_def packU16BE_def packU16LE_def packU32BE_def image16_def image32_def
  big_endian_memcpy_def little_endian_memcpy_def

lemma packU16BE_bytes: "packU16BE v = [ucast (drop_bit 8 v), ucast v]"
  by (simp add: pack_defs upt_rec)

lemma packU16LE_bytes: "packU16LE v = [ucast v, ucast (drop_bit 8 v)]"
  by (simp add: pack_defs)

lemma packU32BE_bytes:
  "packU32BE v = [ucast (drop_bit 24 v), ucast (drop_bit 16 v), ucast (drop_bit 8 v), ucast v]"
  by (simp add: pack_defs upt_rec)

text \<open>Most significant byte first through a left-shifting register of two bytes.\<close>

lemma ccitt_absorb:
  "fold (\<lambda>b crc. (ccitt_bit ^^ 8) (crc XOR push_bit 8 (ucast b))) (packU16BE c) c = 0"
proof -
  have "(ccitt_bit ^^ 8) (c XOR push_bit 8 (ucast (ucast (drop_bit 8 c) :: byte))) = push_bit 8 c"
    unfolding ccitt_byte by (simp add: ccitt_reg.steps_0)
  moreover have "push_bit 8 c XOR push_bit 8 (ucast (ucast c :: byte)) = 0"
    unfolding xor_eq_0_iff
    by (rule bit_eqI) (auto simp: bit_push_bit_iff bit_ucast_iff)
  ultimately show ?thesis by (simp add: packU16BE_bytes ccitt_reg.steps_0)
qed

lemma modbus_steps_high:
  "(\<And>k. k < n \<Longrightarrow> \<not> bit x k) \<Longrightarrow> (modbus_bit ^^ n) x = drop_bit n x"
proof (induction n)
  case (Suc n)
  have s: "(modbus_bit ^^ n) x = drop_bit n x" using Suc by auto
  have "\<not> bit (drop_bit n x) 0" using Suc.prems [of n] by (simp add: bit_drop_bit_eq)
  then have "modbus_bit (drop_bit n x) = drop_bit 1 (drop_bit n x)" unfolding modbus_bit_alt by (rule if_not_P)
  then show ?case using s by (simp only: funpow.simps o_apply drop_bit_drop_bit) simp
qed simp

lemma modbus_absorb:
  "fold (\<lambda>b crc. (modbus_bit ^^ 8) (crc XOR ucast b)) (packU16LE c) c = 0"
proof -
  have "(modbus_bit ^^ 8) (c XOR ucast (ucast c :: byte)) = drop_bit 8 (c XOR ucast (ucast c :: byte))"
    by (rule modbus_steps_high) (simp add: bit_xor_iff bit_ucast_iff)
  also have "\<dots> = ucast (ucast (drop_bit 8 c) :: byte)"
    by (rule bit_eqI) (auto simp: bit_xor_iff bit_ucast_iff bit_drop_bit_eq dest: bit_imp_le_length)
  finally show ?thesis by (simp add: packU16LE_bytes modbus_reg.steps_0)
qed

lemma ccitt_residue: "crc16_ccitt (data @ packU16BE (crc16_ccitt data)) = 0"
  using ccitt_absorb by (simp add: crc16_ccitt_def)

lemma crc16_residue: "crc16 (data @ packU16BE (crc16 data)) = 0"
  using ccitt_absorb by (simp add: crc16_is_ccitt_seeded)

lemma modbus_residue: "crc16_modbus (data @ packU16LE (crc16_modbus data)) = 0"
  using modbus_absorb by (simp add: crc16_modbus_def)

lemma crc8_residue: "crc8 (data @ packByte (crc8 data)) = 0"
  by (simp add: crc8_def packByte_def crc8_reg.steps_0)

lemma appendCrc_modbus:
  "frame \<noteq> [] \<Longrightarrow> appendCrc frame = frame @ packU16LE (crc16_modbus frame)"
proof -
  have "(\<lambda>crc :: 16 word. if crc AND 1 \<noteq> 0 then drop_bit 1 crc XOR kCrcPolynomial else drop_bit 1 crc)
      = modbus_bit"
    by (intro ext) (simp add: modbus_bit_def kCrcPolynomial_def)
  moreover have "ucast (c AND 0xFF) = (ucast c :: byte)" "ucast (drop_bit 8 c AND 0xFF) = (ucast (drop_bit 8 c) :: byte)"
    for c :: "16 word"
    unfolding and_FF by (rule bit_eqI, auto simp: bit_ucast_iff bit_take_bit_iff)+
  moreover assume "frame \<noteq> []"
  ultimately show ?thesis
    by (simp only: appendCrc_def Let_def crc16_modbus_def kCrcSeed_def packU16LE_bytes if_False)
qed

section \<open>A corrupted byte is always noticed\<close>

lemma crc8_detects: "crc8 (xs @ a # ys) = crc8 (xs @ b # ys) \<Longrightarrow> a = b"
  unfolding crc8_def by (rule crc8_reg.detects_byte)

lemma ccitt_detects: "crc16_ccitt (xs @ a # ys) = crc16_ccitt (xs @ b # ys) \<Longrightarrow> a = b"
  unfolding crc16_ccitt_def by (rule ccitt_reg.detects_byte)

lemma crc16_detects: "crc16 (xs @ a # ys) = crc16 (xs @ b # ys) \<Longrightarrow> a = b"
  unfolding crc16_is_ccitt_seeded by (rule ccitt_reg.detects_byte)

lemma modbus_detects: "crc16_modbus (xs @ a # ys) = crc16_modbus (xs @ b # ys) \<Longrightarrow> a = b"
  unfolding crc16_modbus_def by (rule modbus_reg.detects_byte)

lemma crc32_detects: "crc32 (xs @ a # ys) = crc32 (xs @ b # ys) \<Longrightarrow> a = b"
  unfolding crc32_def by (rule crc32_reg.detects_byte) simp

section \<open>The block-reduced sums\<close>

text \<open>The sums over unbounded naturals, and with a reduction after every byte.\<close>

definition nat_sums :: "bytes \<Rightarrow> nat \<times> nat \<Rightarrow> nat \<times> nat" where
  "nat_sums = fold (\<lambda>x (a, b). (a + unat x, b + (a + unat x)))"

definition bytewise_sums :: "nat \<Rightarrow> bytes \<Rightarrow> nat \<times> nat \<Rightarrow> nat \<times> nat" where
  "bytewise_sums m = fold (\<lambda>x (a, b). ((a + unat x) mod m, (b + (a + unat x) mod m) mod m))"

lemma nat_sums_simps [simp]:
  "nat_sums [] s = s"
  "nat_sums (x # xs) (a, b) = nat_sums xs (a + unat x, b + (a + unat x))"
  by (simp_all add: nat_sums_def)

lemma nat_sums_append: "nat_sums (xs @ ys) s = nat_sums ys (nat_sums xs s)"
  by (simp add: nat_sums_def)

lemma nat_sums_mono: "nat_sums xs (a, b) = (A, B) \<Longrightarrow> a \<le> A \<and> b \<le> B"
  by (induction xs arbitrary: a b) force+

lemma nat_sums_bound:
  "nat_sums xs (a, b) = (A, B) \<Longrightarrow>
   A \<le> a + 255 * length xs \<and> 2 * B \<le> 2 * b + 2 * length xs * a + 255 * (length xs * (length xs + 1))"
proof (induction xs arbitrary: a b)
  case (Cons x xs)
  have x: "unat x \<le> 255" using unsigned_less [of x, where 'a = nat] by simp
  from Cons.IH [of "a + unat x" "b + (a + unat x)"] Cons.prems
  have ih: "A \<le> a + unat x + 255 * length xs"
    "2 * B \<le> 2 * (b + (a + unat x)) + 2 * length xs * (a + unat x) + 255 * (length xs * (length xs + 1))"
    by simp_all
  note ih(2)
  also have "2 * (b + (a + unat x)) + 2 * length xs * (a + unat x) + 255 * (length xs * (length xs + 1))
      \<le> 2 * (b + (a + 255)) + 2 * length xs * (a + 255) + 255 * (length xs * (length xs + 1))"
    using x by (intro add_mono mult_le_mono le_refl) simp_all
  also have "\<dots> = 2 * b + 2 * length (x # xs) * a + 255 * (length (x # xs) * (length (x # xs) + 1))"
    by (simp add: algebra_simps)
  finally show ?case using ih(1) x by simp
qed simp

lemma nat_sums_mod:
  "bytewise_sums m xs (a mod m, b mod m) = (fst (nat_sums xs (a, b)) mod m, snd (nat_sums xs (a, b)) mod m)"
proof (induction xs arbitrary: a b)
  case (Cons x xs)
  have "(a mod m + unat x) mod m = (a + unat x) mod m"
    "(b mod m + (a mod m + unat x) mod m) mod m = (b + (a + unat x)) mod m"
    by (simp_all add: mod_add_left_eq mod_add_right_eq)
  then show ?case using Cons.IH [of "a + unat x" "b + (a + unat x)"] by (simp add: bytewise_sums_def)
qed (simp add: bytewise_sums_def)

lemma sum_block_exact:
  "nat_sums xs (unat a, unat b) = (A, B) \<Longrightarrow> A < 2 ^ 32 \<Longrightarrow> B < 2 ^ 32 \<Longrightarrow>
   sum_block xs (a, b) = (word_of_nat A, word_of_nat B)"
proof (induction xs arbitrary: a b)
  case Nil
  then show ?case by (auto simp: sum_block_def)
next
  case (Cons x xs)
  let ?a = "unat a + unat x" and ?b = "unat b + (unat a + unat x)"
  have lt: "?a < 2 ^ 32" "?b < 2 ^ 32"
    using Cons.prems nat_sums_mono [of xs ?a ?b A B] by auto
  have ua: "unat (a + ucast x) = ?a"
    using lt(1) by (simp add: unat_word_ariths unsigned_ucast_eq take_bit_nat_eq_self)
  then have ub: "unat (b + (a + ucast x)) = ?b"
    using lt(2) by (simp add: unat_word_ariths)
  have "sum_block xs (a + ucast x, b + (a + ucast x)) = (word_of_nat A, word_of_nat B)"
    by (rule Cons.IH) (use Cons.prems ua ub in simp_all)
  then show ?case by (simp add: sum_block_def Let_def)
qed

lemma sum_loop_exact:
  assumes m: "0 < unat m" "0 < block"
    and fits: "2 * unat m + 2 * block * unat m + 255 * (block * (block + 1)) < 2 ^ 33"
  shows "unat a < unat m \<Longrightarrow> unat b < unat m \<Longrightarrow> nat_sums data (unat a, unat b) = (A, B) \<Longrightarrow>
    sum_loop m block data (a, b) = (word_of_nat (A mod unat m), word_of_nat (B mod unat m))"
proof (induction "length data" arbitrary: data a b A B rule: less_induct)
  case less
  show ?case
  proof (cases "data = []")
    case True
    then show ?thesis using less.prems by (subst sum_loop.simps) auto
  next
    case False
    define n where "n = (if length data < block then length data else block)"
    have n: "n \<le> block" "0 < n" "length (take n data) = n" using False m(2) by (auto simp: n_def)
    obtain A1 B1 where s: "nat_sums (take n data) (unat a, unat b) = (A1, B1)" by fastforce
    have bd: "A1 \<le> unat a + 255 * n" "2 * B1 \<le> 2 * unat b + 2 * n * unat a + 255 * (n * (n + 1))"
      using nat_sums_bound [OF s] n(3) by auto
    have le: "2 * n * unat a \<le> 2 * block * unat m" "n * (n + 1) \<le> block * (block + 1)"
      using n(1) less.prems(1) by (intro mult_le_mono; simp)+
    have "2 * B1 < 2 ^ 33" using bd(2) le less.prems(2) fits by linarith
    moreover have "block * 2 \<le> block * (block + 1)" using m(2) by (intro mult_le_mono2) simp
    then have "2 * A1 < 2 ^ 33" using bd(1) n(1) less.prems(1) fits by linarith
    then have "A1 < 2 ^ 32" by simp
    ultimately have blk: "sum_block (take n data) (a, b) = (word_of_nat A1, word_of_nat B1)"
      using s by (intro sum_block_exact) simp_all
    have u: "unat (word_of_nat A1 mod m :: 32 word) = A1 mod unat m" "unat (word_of_nat B1 mod m :: 32 word) = B1 mod unat m"
      using \<open>A1 < 2 ^ 32\<close> \<open>2 * B1 < 2 ^ 33\<close> by (simp_all add: unat_mod unat_of_nat)
    obtain A2 B2 where t: "nat_sums (drop n data) (A1 mod unat m, B1 mod unat m) = (A2, B2)" by fastforce
    have "nat_sums (drop n data) (A1, B1) = (A, B)"
      using less.prems(3) s by (metis append_take_drop_id nat_sums_append)
    then have "A2 mod unat m = A mod unat m" "B2 mod unat m = B mod unat m"
      using nat_sums_mod [of "unat m" "drop n data" A1 B1]
        nat_sums_mod [of "unat m" "drop n data" "A1 mod unat m" "B1 mod unat m"] t by simp_all
    moreover have "sum_loop m block (drop n data) (word_of_nat A1 mod m, word_of_nat B1 mod m)
        = (word_of_nat (A2 mod unat m), word_of_nat (B2 mod unat m))"
      by (rule less.hyps) (use n False m t u in auto)
    ultimately show ?thesis
      using False m(2) blk by (subst sum_loop.simps) (simp add: Let_def flip: n_def)
  qed
qed

text \<open>Both block sizes keep the accumulators inside 32 bits.\<close>

lemma pack_sums:
  assumes "a < 2 ^ k" "b < 2 ^ k" "2 * k \<le> 32"
  shows "unat (push_bit k (word_of_nat b :: 32 word) OR word_of_nat a) = b * 2 ^ k + a"
proof -
  have hi: "\<not> bit (word_of_nat a :: 32 word) n" if "k \<le> n" for n
  proof -
    have "a < 2 ^ n" using assms(1) power_increasing [OF that, of "2 :: nat"] by linarith
    then have "\<not> bit a n" by (simp add: bit_iff_odd)
    then have "\<not> bit (word_of_int (int a) :: 32 word) n"
      unfolding bit_word_of_int_iff by (simp add: bit_of_nat_iff_bit)
    then show ?thesis by simp
  qed
  have "push_bit k (word_of_nat b :: 32 word) AND word_of_nat a = 0"
    by (rule bit_eqI) (use hi in \<open>auto simp: bit_and_iff bit_push_bit_iff\<close>)
  then have "push_bit k (word_of_nat b :: 32 word) OR word_of_nat a
      = push_bit k (word_of_nat b) + word_of_nat a"
    by (rule disjunctive_add_eq_or [symmetric])
  also have "\<dots> = word_of_nat (b * 2 ^ k + a)" by (simp add: push_bit_eq_mult)
  finally have w: "push_bit k (word_of_nat b :: 32 word) OR word_of_nat a = word_of_nat (b * 2 ^ k + a)" .
  have "b * 2 ^ k + a < (b + 1) * 2 ^ k" using assms(1) by simp
  also have "\<dots> \<le> 2 ^ k * 2 ^ k" using assms(2) by (intro mult_le_mono1) simp
  also have "\<dots> = 2 ^ (2 * k)" by (simp add: mult_2 flip: power_add)
  also have "\<dots> \<le> 2 ^ 32" using assms(3) by (intro power_increasing) simp_all
  finally show ?thesis unfolding w by (simp only: unat_of_nat) simp
qed

lemma adler32_bytewise:
  "bytewise_sums 65521 data (1, 0) = (a, b) \<Longrightarrow> unat (adler32 data) = b * 65536 + a"
proof -
  assume ref: "bytewise_sums 65521 data (1, 0) = (a, b)"
  obtain A B where s: "nat_sums data (1, 0) = (A, B)" by fastforce
  have ab: "a = A mod 65521" "b = B mod 65521"
    using nat_sums_mod [of 65521 data 1 0] ref s by simp_all
  have "sum_loop kModAdler kAdlerBlock data (1, 0) = (word_of_nat a, word_of_nat b)"
    using sum_loop_exact [of kModAdler kAdlerBlock 1 0 data A B] s ab
    by (simp add: kModAdler_def kAdlerBlock_def)
  moreover have "a < 65521" "b < 65521" using ab by simp_all
  ultimately show ?thesis using pack_sums [of a 16 b] by (simp add: adler32_def)
qed

lemma fletcher16_bytewise:
  "bytewise_sums 255 data (0, 0) = (a, b) \<Longrightarrow> unat (fletcher16 data) = b * 256 + a"
proof -
  assume ref: "bytewise_sums 255 data (0, 0) = (a, b)"
  obtain A B where s: "nat_sums data (0, 0) = (A, B)" by fastforce
  have ab: "a = A mod 255" "b = B mod 255"
    using nat_sums_mod [of 255 data 0 0] ref s by simp_all
  have "sum_loop kModFletcher kFletcherBlock data (0, 0) = (word_of_nat a, word_of_nat b)"
    using sum_loop_exact [of kModFletcher kFletcherBlock 0 0 data A B] s ab
    by (simp add: kModFletcher_def kFletcherBlock_def)
  moreover have lt: "a < 255" "b < 255" using ab by simp_all
  moreover have "b * 256 + a < 65536" using lt by simp
  ultimately show ?thesis
    using pack_sums [of a 8 b] by (simp add: fletcher16_def unsigned_ucast_eq take_bit_nat_eq_self)
qed

section \<open>The algorithm map\<close>

lemmas checksum_defs = checksum_def checksumFunctionMap_def

definition checksum_width :: "string \<Rightarrow> nat" where
  "checksum_width name =
     (if name \<in> {''XOR-8'', ''MOD-256'', ''CRC-8''} then 1
      else if name \<in> {''CRC-16'', ''CRC-16-MODBUS'', ''CRC-16-CCITT'', ''Fletcher-16''} then 2
      else if name \<in> {''CRC-32'', ''Adler-32''} then 4 else 0)"

lemma checksum_length: "length (checksum name data) = checksum_width name"
  by (simp add: checksum_defs checksum_width_def packByte_def packU16BE_bytes packU16LE_bytes packU32BE_bytes)

text \<open>The algorithms that notice any change confined to one byte, and one that does not.\<close>

definition byte_safe :: "string list" where
  "byte_safe = [''XOR-8'', ''MOD-256'', ''CRC-8'', ''CRC-16'', ''CRC-16-MODBUS'', ''CRC-16-CCITT'', ''CRC-32'']"

lemma xor8_detects: "xor8 (xs @ a # ys) = xor8 (xs @ b # ys) \<Longrightarrow> a = b"
proof -
  have inj: "fold (\<lambda>b c. c XOR b) ys s = fold (\<lambda>b c. c XOR b) ys t \<Longrightarrow> s = t" for s t :: byte
  proof (induction ys arbitrary: s t)
    case (Cons y ys)
    have "fold (\<lambda>b c. c XOR b) ys (s XOR y) = fold (\<lambda>b c. c XOR b) ys (t XOR y)"
      using Cons.prems by simp
    from Cons.IH [OF this] show ?case by (simp add: xor_cancel)
  qed simp
  assume "xor8 (xs @ a # ys) = xor8 (xs @ b # ys)"
  then have "fold (\<lambda>b c. c XOR b) ys (xor8 xs XOR a) = fold (\<lambda>b c. c XOR b) ys (xor8 xs XOR b)"
    by (simp add: xor8_def)
  then have "xor8 xs XOR a = xor8 xs XOR b" by (rule inj)
  then show "a = b" by (simp only: xor_cancel_left)
qed

lemma mod256_sum: "mod256 data = sum_list data"
proof -
  have "(ucast (fold (\<lambda>b sum. sum + ucast b) data s :: 16 word) :: byte) = ucast s + sum_list data" for s :: "16 word"
  proof (induction data arbitrary: s)
    case (Cons b data)
    have "(ucast (s + ucast b) :: byte) = ucast s + b"
    proof (rule word_unat_eq_iff [THEN iffD2])
      show "unat (ucast (s + ucast b) :: byte) = unat (ucast s + b :: byte)"
        by (simp add: unat_word_ariths unsigned_ucast_eq take_bit_eq_mod mod_mod_cancel mod_simps)
    qed
    then show ?case using Cons by (simp add: add.assoc)
  qed simp
  moreover have "(ucast (w AND 0xFF) :: byte) = ucast w" for w :: "16 word"
    unfolding and_FF by (rule bit_eqI) (auto simp: bit_ucast_iff bit_take_bit_iff)
  ultimately show ?thesis by (simp add: mod256_def)
qed

lemma packU16BE_inj: "packU16BE v = packU16BE w \<Longrightarrow> v = w"
proof -
  assume "packU16BE v = packU16BE w"
  then have e: "(ucast (drop_bit 8 v) :: byte) = ucast (drop_bit 8 w)" "(ucast v :: byte) = ucast w"
    by (simp_all add: packU16BE_bytes)
  show "v = w"
  proof (rule bit_eqI)
    fix n assume "possible_bit TYPE(16 word) n"
    then have n: "n < 16" by (simp add: possible_bit_def)
    show "bit v n = bit w n"
    proof (cases "n < 8")
      case True
      then show ?thesis using arg_cong [OF e(2), of "\<lambda>x. bit x n"] by (simp add: bit_ucast_iff)
    next
      case False
      then have "n - 8 < 8" "8 + (n - 8) = n" using n by auto
      then show ?thesis
        using arg_cong [OF e(1), of "\<lambda>x. bit x (n - 8)"] by (simp add: bit_ucast_iff bit_drop_bit_eq)
    qed
  qed
qed

lemma packU16LE_inj: "packU16LE v = packU16LE w \<Longrightarrow> v = w"
  by (rule packU16BE_inj) (simp add: packU16LE_bytes packU16BE_bytes)

lemma packU32BE_inj: "packU32BE v = packU32BE w \<Longrightarrow> v = w"
proof -
  assume "packU32BE v = packU32BE w"
  then have e: "(ucast (drop_bit (8 * k) v) :: byte) = ucast (drop_bit (8 * k) w)" if "k < 4" for k
    using that by (auto simp: packU32BE_bytes less_Suc_eq eval_nat_numeral(2,3))
  show "v = w"
  proof (rule bit_eqI)
    fix n assume "possible_bit TYPE(32 word) n"
    then have n: "n div 8 < 4" "n mod 8 < 8" "8 * (n div 8) + n mod 8 = n" by (auto simp: possible_bit_def)
    then show "bit v n = bit w n"
      using arg_cong [OF e [OF n(1)], of "\<lambda>x. bit x (n mod 8)"]
      by (simp add: bit_ucast_iff bit_drop_bit_eq)
  qed
qed

lemma checksum_detects_byte:
  assumes "name \<in> set byte_safe" "checksum name (xs @ a # ys) = checksum name (xs @ b # ys)"
  shows "a = b"
proof -
  have "mod256 (xs @ a # ys) = mod256 (xs @ b # ys) \<Longrightarrow> a = b" by (simp add: mod256_sum)
  then show ?thesis
    using assms unfolding byte_safe_def checksum_defs
    by (auto simp: packByte_def dest!: packU16BE_inj packU16LE_inj packU32BE_inj
        dest: xor8_detects crc8_detects crc16_detects modbus_detects ccitt_detects crc32_detects)
qed

section \<open>Properties\<close>

text \<open>C39: With any of the protocol checksums but Fletcher-16 and Adler-32, two messages that
differ in one byte have different checksums.\<close>

theorem byte_errors_detected:
  assumes "name \<in> set byte_safe" and "a \<noteq> b"
  shows "checksum name (xs @ a # ys) \<noteq> checksum name (xs @ b # ys)"
  using checksum_detects_byte[OF assms(1)] assms(2) by blast

theorem byte_errors_detected_witness:
  "checksum (hd byte_safe) ([1] @ 2 # [3]) \<noteq> checksum (hd byte_safe) ([1] @ 4 # [3])"
  by (rule byte_errors_detected) (simp_all add: byte_safe_def)

text \<open>The table-driven CRC-16 and CRC-32 of the file-transfer protocols equal the bit-serial
ones of the checksum library.\<close>

theorem transfer_crcs_agree: "ft_crc16 data = crc16_ccitt data \<and> ft_crc32 data = crc32 data"
  by (simp add: ft_crc16_is_ccitt ft_crc32_is_crc32)

text \<open>A Modbus frame that the codec completed has the frame followed by its CRC, low byte
first, and the CRC of the completed frame is zero.\<close>

theorem completed_modbus_frame:
  assumes "frame \<noteq> []"
  shows "appendCrc frame = frame @ packU16LE (crc16_modbus frame) \<and> crc16_modbus (appendCrc frame) = 0"
  using assms by (simp add: appendCrc_modbus modbus_residue)

theorem completed_modbus_frame_witness: "crc16_modbus (appendCrc [0x11, 3, 0, 0x6B]) = 0"
  by (rule conjunct2[OF completed_modbus_frame]) simp

end
