(* ===== verification/Frame_Reader.thy ===== *)
theory Frame_Reader
  imports Pattern_Scan Checksums "HOL-Library.Sublist"
begin

unbundle bit_operations_syntax

text \<open>
  The frame extractor \<open>IO::FrameReader\<close> (\<open>core/Pipeline/IO/FrameReader.cpp\<close>): a ring of received
  bytes, the timing records of the chunks they came in, and the queue of extracted frames. Times are
  integers (nanoseconds of the steady clock) and the current time is an argument, the queue is the
  list of its elements with the capacity of the vendored queue as a field, and a shared captured
  buffer is its value. The slot pool (\<open>claimCapturedSlot\<close>) and the memory pin only choose where a
  frame is stored, so they have no state here.
\<close>

section \<open>Data\<close>

datatype operation_mode = ProjectFile | ConsoleOnly | QuickPlot

datatype frame_detection =
  EndDelimiterOnly | StartAndEndDelimiter | NoDelimiters | StartDelimiterOnly | FixedLength

datatype validation_status = FrameOk | ChecksumError | ChecksumIncomplete

record captured =
  cd_data :: bytes
  cd_timestamp :: int
  cd_frameStep :: int
  cd_logicalFramesHint :: nat

record pending_chunk =
  pc_chunk :: captured
  pc_bytesRemaining :: nat
  pc_nextFrameTimestamp :: int
  pc_frameStep :: int

record frame_reader =
  fr_checksum :: string
  fr_checksumFunc :: "(bytes \<Rightarrow> bytes) option"
  fr_checksumLength :: nat
  fr_bodyMask :: byte
  fr_bodyValue :: byte
  fr_headerMask :: byte
  fr_headerValue :: byte
  fr_fixedFrameLength :: nat
  fr_startSequences :: "bytes list"
  fr_finishSequences :: "bytes list"
  fr_startSequenceLps :: "nat list list"
  fr_finishSequenceLps :: "nat list list"
  fr_finishAnchors :: bytes
  fr_operationMode :: operation_mode
  fr_frameDetectionMode :: frame_detection
  fr_circularBuffer :: ring
  fr_pendingChunks :: "pending_chunk list"
  fr_queue :: "captured list"
  fr_queueCapacity :: nat
  fr_bytesIn :: nat
  fr_droppedFrames :: nat
  fr_checksumErrors :: nat
  fr_framesExtracted :: nat
  fr_totalOverflowBytes :: nat
  fr_lastDropNotify :: int
  fr_lastOverflowLog :: int
  fr_lastChecksumLog :: int
  fr_warnings :: "(int \<times> nat) list"

text \<open>Five seconds of the steady clock, in nanoseconds.\<close>

definition log_interval :: int where
  "log_interval = 5000000000"

definition new_reader :: "int \<Rightarrow> nat \<Rightarrow> frame_reader" where
  "new_reader now queue_capacity =
     \<lparr>fr_checksum = '''', fr_checksumFunc = None, fr_checksumLength = 0,
      fr_bodyMask = 0, fr_bodyValue = 0, fr_headerMask = 0, fr_headerValue = 0,
      fr_fixedFrameLength = 0, fr_startSequences = [], fr_finishSequences = [],
      fr_startSequenceLps = [], fr_finishSequenceLps = [], fr_finishAnchors = [],
      fr_operationMode = QuickPlot, fr_frameDetectionMode = EndDelimiterOnly,
      fr_circularBuffer = new_ring (1024 * 1024), fr_pendingChunks = [],
      fr_queue = [], fr_queueCapacity = queue_capacity,
      fr_bytesIn = 0, fr_droppedFrames = 0, fr_checksumErrors = 0, fr_framesExtracted = 0,
      fr_totalOverflowBytes = 0, fr_lastDropNotify = now, fr_lastOverflowLog = 0,
      fr_lastChecksumLog = 0, fr_warnings = []\<rparr>"

definition resetDiagnosticCounters :: "frame_reader \<Rightarrow> frame_reader" where
  "resetDiagnosticCounters s =
     s\<lparr>fr_bytesIn := 0, fr_droppedFrames := 0, fr_checksumErrors := 0, fr_framesExtracted := 0,
       fr_totalOverflowBytes := 0\<rparr>"

section \<open>Chunk bookkeeping\<close>

definition appendChunk :: "captured \<Rightarrow> frame_reader \<Rightarrow> frame_reader" where
  "appendChunk d s =
     (if cd_data d = [] then s
      else s\<lparr>fr_circularBuffer := append (cd_data d) (fr_circularBuffer s),
             fr_pendingChunks := fr_pendingChunks s @
               [\<lparr>pc_chunk = d, pc_bytesRemaining = length (cd_data d),
                 pc_nextFrameTimestamp = cd_timestamp d, pc_frameStep = max 1 (cd_frameStep d)\<rparr>]\<rparr>)"

text \<open>
  \<open>discardPendingBytes\<close> on the deque: a front chunk that keeps bytes has used up the request, which
  ends the loop.
\<close>

fun discard_pending :: "nat \<Rightarrow> pending_chunk list \<Rightarrow> pending_chunk list" where
  "discard_pending n [] = []"
| "discard_pending n (c # cs) =
     (if n = 0 then c # cs
      else let toConsume = min n (pc_bytesRemaining c);
               c' = c\<lparr>pc_bytesRemaining := pc_bytesRemaining c - toConsume\<rparr>
           in if pc_bytesRemaining c' = 0 then discard_pending (n - toConsume) cs else c' # cs)"

definition discardPendingBytes :: "nat \<Rightarrow> frame_reader \<Rightarrow> frame_reader" where
  "discardPendingBytes n s = s\<lparr>fr_pendingChunks := discard_pending n (fr_pendingChunks s)\<rparr>"

definition consumeBytes :: "nat \<Rightarrow> frame_reader \<Rightarrow> frame_reader" where
  "consumeBytes n s =
     (if n = 0 then s
      else discardPendingBytes n (s\<lparr>fr_circularBuffer := discard n (fr_circularBuffer s)\<rparr>))"

section \<open>Configuration\<close>

definition setChecksum :: "string \<Rightarrow> frame_reader \<Rightarrow> frame_reader" where
  "setChecksum name s =
     (case map_of checksumFunctionMap name of
        Some f \<Rightarrow> s\<lparr>fr_checksum := name, fr_checksumFunc := Some f,
                    fr_checksumLength := length (f [])\<rparr>
      | None \<Rightarrow> s\<lparr>fr_checksum := name, fr_checksumFunc := None, fr_checksumLength := 0\<rparr>)"

definition setStartSequences :: "bytes list \<Rightarrow> frame_reader \<Rightarrow> frame_reader" where
  "setStartSequences starts s =
     (let kept = filter (\<lambda>p. p \<noteq> []) starts
      in s\<lparr>fr_startSequences := kept,
           fr_startSequenceLps := map (\<lambda>p. the (computeKMPTable p)) kept\<rparr>)"

definition setFinishSequences :: "bytes list \<Rightarrow> frame_reader \<Rightarrow> frame_reader" where
  "setFinishSequences finishes s =
     (let kept = filter (\<lambda>p. p \<noteq> []) finishes
      in s\<lparr>fr_finishSequences := kept,
           fr_finishSequenceLps := map (\<lambda>p. the (computeKMPTable p)) kept,
           fr_finishAnchors := (if kept \<noteq> [] then buildPatternAnchors kept else [])\<rparr>)"

definition setOperationMode :: "operation_mode \<Rightarrow> frame_reader \<Rightarrow> frame_reader" where
  "setOperationMode mode s =
     (let s = s\<lparr>fr_operationMode := mode\<rparr>
      in if mode \<noteq> ProjectFile
         then s\<lparr>fr_checksumLength := 0, fr_checksumFunc := None, fr_checksum := ''''\<rparr> else s)"

definition setFixedLength :: "int \<Rightarrow> frame_reader \<Rightarrow> frame_reader" where
  "setFixedLength len s = s\<lparr>fr_fixedFrameLength := nat (max 0 len)\<rparr>"

definition setByteRules :: "byte \<Rightarrow> byte \<Rightarrow> byte \<Rightarrow> byte \<Rightarrow> frame_reader \<Rightarrow> frame_reader" where
  "setByteRules headerMask headerValue bodyMask bodyValue s =
     s\<lparr>fr_headerMask := headerMask, fr_headerValue := headerValue AND headerMask,
       fr_bodyMask := bodyMask, fr_bodyValue := bodyValue AND bodyMask\<rparr>"

definition setFrameDetectionMode :: "frame_detection \<Rightarrow> frame_reader \<Rightarrow> frame_reader" where
  "setFrameDetectionMode mode s = s\<lparr>fr_frameDetectionMode := mode\<rparr>"

section \<open>Checksum, timing and the queue\<close>

definition validate :: "int \<Rightarrow> bytes \<Rightarrow> nat \<Rightarrow> frame_reader \<Rightarrow> validation_status \<times> frame_reader" where
  "validate now frame crcPosition s =
     (if frame = [] then (ChecksumError, s)
      else if fr_checksumLength s = 0 then (FrameOk, s)
      else case fr_checksumFunc s of
             None \<Rightarrow> (ChecksumError, s)
           | Some f \<Rightarrow>
               (if ring_size (fr_circularBuffer s) < crcPosition + fr_checksumLength s
                then (ChecksumIncomplete, s)
                else if f frame = peekRange crcPosition (fr_checksumLength s) (fr_circularBuffer s)
                then (FrameOk, s)
                else (ChecksumError,
                      let s = s\<lparr>fr_checksumErrors := fr_checksumErrors s + 1\<rparr>
                      in if now - fr_lastChecksumLog s \<ge> log_interval
                         then s\<lparr>fr_lastChecksumLog := now\<rparr> else s)))"

fun stamp_chunks :: "nat \<Rightarrow> pending_chunk list \<Rightarrow> (int \<times> pending_chunk list) option" where
  "stamp_chunks offset [] = None"
| "stamp_chunks offset (c # cs) =
     (if offset < pc_bytesRemaining c
      then Some (pc_nextFrameTimestamp c,
                 c\<lparr>pc_nextFrameTimestamp := pc_nextFrameTimestamp c + pc_frameStep c\<rparr> # cs)
      else map_option (\<lambda>(t, cs'). (t, c # cs')) (stamp_chunks (offset - pc_bytesRemaining c) cs))"

definition frameTimestamp :: "int \<Rightarrow> nat \<Rightarrow> frame_reader \<Rightarrow> int \<times> frame_reader" where
  "frameTimestamp now endOffsetExclusive s =
     (let chunks = fr_pendingChunks s
      in if chunks = [] then (now, s)
         else case stamp_chunks (endOffsetExclusive - 1) chunks of
                Some (t, cs) \<Rightarrow> (t, s\<lparr>fr_pendingChunks := cs\<rparr>)
              | None \<Rightarrow>
                  let c = last chunks
                  in (pc_nextFrameTimestamp c,
                      s\<lparr>fr_pendingChunks := butlast chunks @
                          [c\<lparr>pc_nextFrameTimestamp := pc_nextFrameTimestamp c + pc_frameStep c\<rparr>]\<rparr>))"

definition noteDroppedFrame :: "int \<Rightarrow> frame_reader \<Rightarrow> frame_reader" where
  "noteDroppedFrame now s =
     (let s = s\<lparr>fr_droppedFrames := fr_droppedFrames s + 1\<rparr>
      in if now - fr_lastDropNotify s < log_interval then s
         else s\<lparr>fr_lastDropNotify := now, fr_warnings := fr_warnings s @ [(now, fr_droppedFrames s)]\<rparr>)"

text \<open>\<open>try_enqueue\<close> of the bounded queue followed by the caller's accounting.\<close>

definition offer :: "int \<Rightarrow> captured \<Rightarrow> frame_reader \<Rightarrow> frame_reader" where
  "offer now d s =
     (if length (fr_queue s) < fr_queueCapacity s
      then s\<lparr>fr_queue := fr_queue s @ [d], fr_framesExtracted := fr_framesExtracted s + 1\<rparr>
      else noteDroppedFrame now s)"

definition enqueueCaptured :: "int \<Rightarrow> bytes \<Rightarrow> nat \<Rightarrow> frame_reader \<Rightarrow> frame_reader" where
  "enqueueCaptured now dat frameEndPos s =
     (let (t, s) = frameTimestamp now frameEndPos s;
          s = offer now \<lparr>cd_data = dat, cd_timestamp = t, cd_frameStep = 1,
                         cd_logicalFramesHint = 0\<rparr> s
      in consumeBytes frameEndPos s)"

text \<open>The tail every extraction loop shares: validate, then enqueue, skip or wait.\<close>

definition settle :: "int \<Rightarrow> bytes \<Rightarrow> nat \<Rightarrow> nat \<Rightarrow> nat \<Rightarrow> frame_reader \<Rightarrow> bool \<times> frame_reader" where
  "settle now dat crcPosition frameEndPos badSkip s =
     (case validate now dat crcPosition s of
        (ChecksumIncomplete, s) \<Rightarrow> (False, s)
      | (FrameOk, s) \<Rightarrow> (True, enqueueCaptured now dat frameEndPos s)
      | (ChecksumError, s) \<Rightarrow> (True, consumeBytes badSkip s))"

section \<open>Extraction loops\<close>

definition kMaxFramesPerCall :: nat where
  "kMaxFramesPerCall = 32768"

text \<open>\<open>findPatternKMP\<close> with a cached table; the search returns (lemma \<open>scan_spec\<close>).\<close>

definition scan :: "frame_reader \<Rightarrow> bytes \<Rightarrow> nat list \<Rightarrow> nat \<Rightarrow> nat option" where
  "scan s p lps pos = the (findPatternKMP (fr_circularBuffer s) p lps pos)"

definition end_match :: "frame_reader \<Rightarrow> (nat \<times> bytes) option" where
  "end_match s =
     (if length (fr_finishSequences s) = 1
      then map_option (\<lambda>i. (i, fr_finishSequences s ! 0))
             (scan s (fr_finishSequences s ! 0) (fr_finishSequenceLps s ! 0) 0)
      else map_option (\<lambda>(i, k). (i, fr_finishSequences s ! k))
             (findFirstOfPatterns (fr_circularBuffer s) (fr_finishSequences s) (fr_finishAnchors s)))"

definition end_step :: "int \<Rightarrow> frame_reader \<Rightarrow> bool \<times> frame_reader" where
  "end_step now s =
     (case end_match s of
        None \<Rightarrow> (False, s)
      | Some (endIndex, delimiter) \<Rightarrow>
          let dat = peekRange 0 endIndex (fr_circularBuffer s);
              crcPosition = endIndex + length delimiter;
              frameEndPos = crcPosition + fr_checksumLength s
          in if dat = [] then (True, consumeBytes frameEndPos s)
             else settle now dat crcPosition frameEndPos frameEndPos s)"

definition readEndDelimitedFrames :: "int \<Rightarrow> frame_reader \<Rightarrow> frame_reader" where
  "readEndDelimitedFrames now s =
     (if cb_capacity (fr_circularBuffer s) = 0 then s
      else if fr_finishSequences s = [] then s
      else if \<not> (fr_operationMode s = QuickPlot \<or> fr_frameDetectionMode s = EndDelimiterOnly) then s
      else bounded_loop kMaxFramesPerCall (end_step now) s)"

definition start_step :: "int \<Rightarrow> frame_reader \<Rightarrow> bool \<times> frame_reader" where
  "start_step now s =
     (let startSeq = fr_startSequences s ! 0;
          startLps = fr_startSequenceLps s ! 0
      in case scan s startSeq startLps 0 of
           None \<Rightarrow> (False, s)
         | Some startIndex \<Rightarrow>
             let s = consumeBytes startIndex s
             in case scan s startSeq startLps (length startSeq) of
                  None \<Rightarrow> (False, s)
                | Some nextStartIndex \<Rightarrow>
                    let frameStart = length startSeq;
                        frameEndPos = nextStartIndex
                    in if frameEndPos \<le> frameStart then (True, consumeBytes frameEndPos s)
                       else if frameEndPos < frameStart + fr_checksumLength s
                       then (True, consumeBytes frameEndPos s)
                       else let crcPosition = frameEndPos - fr_checksumLength s;
                                dat = peekRange frameStart
                                        (frameEndPos - frameStart - fr_checksumLength s)
                                        (fr_circularBuffer s)
                            in if dat = [] then (True, consumeBytes frameEndPos s)
                               else settle now dat crcPosition frameEndPos frameEndPos s)"

definition readStartDelimitedFrames :: "int \<Rightarrow> frame_reader \<Rightarrow> frame_reader" where
  "readStartDelimitedFrames now s =
     (if fr_startSequences s = [] then s
      else if fr_startSequenceLps s = [] then s
      else if cb_capacity (fr_circularBuffer s) = 0 then s
      else bounded_loop kMaxFramesPerCall (start_step now) s)"

definition start_end_step :: "int \<Rightarrow> frame_reader \<Rightarrow> bool \<times> frame_reader" where
  "start_end_step now s =
     (let startSeq = fr_startSequences s ! 0; startLps = fr_startSequenceLps s ! 0;
          finishSeq = fr_finishSequences s ! 0; finishLps = fr_finishSequenceLps s ! 0
      in case scan s finishSeq finishLps 0 of
           None \<Rightarrow> (False, s)
         | Some finishIndex \<Rightarrow>
             (case scan s startSeq startLps 0 of
                None \<Rightarrow> (True, consumeBytes (finishIndex + length finishSeq) s)
              | Some startIndex \<Rightarrow>
                  if startIndex \<ge> finishIndex
                  then (True, consumeBytes (finishIndex + length finishSeq) s)
                  else let frameStart = startIndex + length startSeq
                       in if finishIndex \<le> frameStart
                          then (True, consumeBytes (finishIndex + length finishSeq) s)
                          else let crcPosition = finishIndex + length finishSeq;
                                   frameEndPos = crcPosition + fr_checksumLength s;
                                   dat = peekRange frameStart (finishIndex - frameStart)
                                           (fr_circularBuffer s)
                               in if dat = [] then (True, consumeBytes frameEndPos s)
                                  else settle now dat crcPosition frameEndPos frameEndPos s))"

definition readStartEndDelimitedFrames :: "int \<Rightarrow> frame_reader \<Rightarrow> frame_reader" where
  "readStartEndDelimitedFrames now s =
     (if fr_startSequences s = [] then s
      else if fr_startSequenceLps s = [] then s
      else if fr_finishSequences s = [] then s
      else if fr_finishSequenceLps s = [] then s
      else bounded_loop kMaxFramesPerCall (start_end_step now) s)"

definition alignFixedLengthFrame :: "nat \<Rightarrow> frame_reader \<Rightarrow> bool \<times> frame_reader" where
  "alignFixedLengthFrame len s =
     (if ring_size (fr_circularBuffer s) < len then (False, s)
      else if fr_headerMask s = 0 then (True, s)
      else case findMaskedByte (fr_circularBuffer s) (fr_headerMask s) (fr_headerValue s) 0 of
             None \<Rightarrow> (False, consumeBytes (ring_size (fr_circularBuffer s)) s)
           | Some header \<Rightarrow>
               if \<not> header < ring_size (fr_circularBuffer s) then (False, s)
               else let s = consumeBytes header s
                    in (ring_size (fr_circularBuffer s) \<ge> len, s))"

definition fixed_step :: "int \<Rightarrow> nat \<Rightarrow> nat \<Rightarrow> frame_reader \<Rightarrow> bool \<times> frame_reader" where
  "fixed_step now len payload s =
     (case alignFixedLengthFrame len s of
        (False, s) \<Rightarrow> (False, s)
      | (True, s) \<Rightarrow>
          (let violation =
                 (if fr_bodyMask s \<noteq> 0
                  then findMaskedMismatch (fr_circularBuffer s) (fr_bodyMask s) (fr_bodyValue s) 1 payload
                  else None)
           in case violation of
                Some v \<Rightarrow>
                  if v > 0 then (True, consumeBytes v s)
                  else settle now (peekRange 0 payload (fr_circularBuffer s)) payload len
                         (if fr_headerMask s \<noteq> 0 then 1 else len) s
              | None \<Rightarrow>
                  settle now (peekRange 0 payload (fr_circularBuffer s)) payload len
                    (if fr_headerMask s \<noteq> 0 then 1 else len) s))"

definition readFixedLengthFrames :: "int \<Rightarrow> frame_reader \<Rightarrow> frame_reader" where
  "readFixedLengthFrames now s =
     (if \<not> cb_capacity (fr_circularBuffer s) > fr_fixedFrameLength s then s
      else if fr_fixedFrameLength s \<le> fr_checksumLength s
      then consumeBytes (ring_size (fr_circularBuffer s)) s
      else let len = fr_fixedFrameLength s; payload = len - fr_checksumLength s
           in bounded_loop kMaxFramesPerCall (fixed_step now len payload) s)"

section \<open>The entry point\<close>

definition absorb_overflow :: "int \<Rightarrow> frame_reader \<Rightarrow> frame_reader" where
  "absorb_overflow now s =
     (let overflow = cb_overflow (fr_circularBuffer s)
      in if overflow > 0
         then let s = (if now - fr_lastOverflowLog s \<ge> log_interval
                       then s\<lparr>fr_lastOverflowLog := now\<rparr> else s);
                  s = s\<lparr>fr_totalOverflowBytes := fr_totalOverflowBytes s + overflow\<rparr>;
                  s = discardPendingBytes overflow s
              in s\<lparr>fr_circularBuffer := resetOverflowCount (fr_circularBuffer s)\<rparr>
         else s)"

text \<open>The result says whether \<open>readyRead()\<close> is emitted.\<close>

definition processData :: "int \<Rightarrow> captured \<Rightarrow> frame_reader \<Rightarrow> bool \<times> frame_reader" where
  "processData now d s =
     (if cd_data d = [] then (False, s)
      else if fr_operationMode s = ConsoleOnly then (False, s)
      else let s = s\<lparr>fr_bytesIn := fr_bytesIn s + length (cd_data d)\<rparr>
           in if fr_operationMode s = ProjectFile \<and> fr_frameDetectionMode s = NoDelimiters
              then let s' = offer now d s
                   in (length (fr_queue s) < fr_queueCapacity s \<or> length (fr_queue s') > 0, s')
              else let s = absorb_overflow now (appendChunk d s);
                       initialSize = length (fr_queue s);
                       s = (case fr_operationMode s of
                              QuickPlot \<Rightarrow> readEndDelimitedFrames now s
                            | ProjectFile \<Rightarrow>
                                (case fr_frameDetectionMode s of
                                   EndDelimiterOnly \<Rightarrow> readEndDelimitedFrames now s
                                 | StartDelimiterOnly \<Rightarrow> readStartDelimitedFrames now s
                                 | StartAndEndDelimiter \<Rightarrow> readStartEndDelimitedFrames now s
                                 | FixedLength \<Rightarrow> readFixedLengthFrames now s
                                 | NoDelimiters \<Rightarrow> s)
                            | ConsoleOnly \<Rightarrow> s)
                   in (length (fr_queue s) > initialSize \<or> length (fr_queue s) > 0, s))"

text \<open>The consumer side of the queue: \<open>try_dequeue\<close> by the frame builder.\<close>

definition take_frame :: "frame_reader \<Rightarrow> captured option \<times> frame_reader" where
  "take_frame s = (case fr_queue s of [] \<Rightarrow> (None, s) | d # ds \<Rightarrow> (Some d, s\<lparr>fr_queue := ds\<rparr>))"

section \<open>Well-formed readers\<close>

definition pending_sum :: "pending_chunk list \<Rightarrow> nat" where
  "pending_sum cs = sum_list (map pc_bytesRemaining cs)"

text \<open>
  The two views of the buffered bytes agree: the ring holds exactly the bytes the timing records
  account for, and no record is spent.
\<close>

definition buffers_ok :: "frame_reader \<Rightarrow> bool" where
  "buffers_ok s \<longleftrightarrow> ring_ok (fr_circularBuffer s)
     \<and> cb_overflow (fr_circularBuffer s) = 0
     \<and> pending_sum (fr_pendingChunks s) = ring_size (fr_circularBuffer s)
     \<and> (\<forall>c \<in> set (fr_pendingChunks s). 0 < pc_bytesRemaining c)
     \<and> length (fr_queue s) \<le> fr_queueCapacity s"

definition checksum_fits :: "(bytes \<Rightarrow> bytes) option \<Rightarrow> nat \<Rightarrow> bool" where
  "checksum_fits func n \<longleftrightarrow>
     (case func of None \<Rightarrow> n = 0 | Some f \<Rightarrow> \<forall>d. length (f d) = n)"

definition config_ok :: "frame_reader \<Rightarrow> bool" where
  "config_ok s \<longleftrightarrow> [] \<notin> set (fr_startSequences s) \<and> [] \<notin> set (fr_finishSequences s)
     \<and> list_all2 lps_ok (fr_startSequences s) (fr_startSequenceLps s)
     \<and> list_all2 lps_ok (fr_finishSequences s) (fr_finishSequenceLps s)
     \<and> (fr_finishSequences s \<noteq> [] \<longrightarrow> fr_finishAnchors s = buildPatternAnchors (fr_finishSequences s))
     \<and> checksum_fits (fr_checksumFunc s) (fr_checksumLength s)"

definition reader_ok :: "frame_reader \<Rightarrow> bool" where
  "reader_ok s \<longleftrightarrow> buffers_ok s \<and> config_ok s"

text \<open>The bytes waiting in the scan buffer, and the payloads of the queue.\<close>

abbreviation stream :: "frame_reader \<Rightarrow> bytes" where
  "stream s \<equiv> contents (fr_circularBuffer s)"

abbreviation frames :: "frame_reader \<Rightarrow> bytes list" where
  "frames s \<equiv> map cd_data (fr_queue s)"

text \<open>The fields no extraction touches.\<close>

definition config :: "frame_reader \<Rightarrow> _" where
  "config s = (fr_checksum s, fr_checksumFunc s, fr_checksumLength s, fr_bodyMask s, fr_bodyValue s,
     fr_headerMask s, fr_headerValue s, fr_fixedFrameLength s, fr_startSequences s,
     fr_finishSequences s, fr_startSequenceLps s, fr_finishSequenceLps s, fr_finishAnchors s,
     fr_operationMode s, fr_frameDetectionMode s, fr_queueCapacity s, cb_capacity (fr_circularBuffer s))"

lemma config_ok_cong: "config s = config s' \<Longrightarrow> config_ok s \<longleftrightarrow> config_ok s'"
  by (simp add: config_def config_ok_def)

lemma discard_pending_0 [simp]: "discard_pending 0 cs = cs"
  by (cases cs) auto

lemma pending_sum_simps [simp]:
  "pending_sum [] = 0" "pending_sum (c # cs) = pc_bytesRemaining c + pending_sum cs"
  "pending_sum (cs @ ds) = pending_sum cs + pending_sum ds"
  by (simp_all add: pending_sum_def)

lemma discard_pending_sum [simp]: "pending_sum (discard_pending n cs) = pending_sum cs - n"
  by (induction n cs rule: discard_pending.induct) (auto simp: Let_def min_def)

lemma discard_pending_positive:
  "\<forall>c \<in> set cs. 0 < pc_bytesRemaining c \<Longrightarrow> \<forall>c \<in> set (discard_pending n cs). 0 < pc_bytesRemaining c"
  by (induction n cs rule: discard_pending.induct) (auto simp: Let_def)

lemma consumeBytes_eq:
  "consumeBytes n s = s\<lparr>fr_circularBuffer := discard n (fr_circularBuffer s),
     fr_pendingChunks := discard_pending n (fr_pendingChunks s)\<rparr>"
  by (simp add: consumeBytes_def discardPendingBytes_def discard_def)

lemma consumeBytes_ok [intro]: "buffers_ok s \<Longrightarrow> buffers_ok (consumeBytes n s)"
  by (auto simp: buffers_ok_def consumeBytes_eq discard_ok discard_size
      dest: discard_pending_positive [of _ n, THEN bspec, rotated])

lemma consumeBytes_stream [simp]: "buffers_ok s \<Longrightarrow> stream (consumeBytes n s) = drop n (stream s)"
  by (simp add: buffers_ok_def consumeBytes_eq discard_contents)

lemma consumeBytes_simps [simp]:
  "config (consumeBytes n s) = config s" "fr_queue (consumeBytes n s) = fr_queue s"
  by (simp_all add: consumeBytes_eq config_def)

text \<open>Progress of a reader: some prefix of the stream consumed, frames with \<open>Q\<close> queued.\<close>

definition progress :: "(bytes \<Rightarrow> bool) \<Rightarrow> frame_reader \<Rightarrow> frame_reader \<Rightarrow> bool" where
  "progress Q s s' \<longleftrightarrow> buffers_ok s' \<and> config s' = config s
     \<and> (\<exists>k. stream s' = drop k (stream s))
     \<and> (\<exists>new. fr_queue s' = fr_queue s @ new \<and> (\<forall>d \<in> set new. Q (cd_data d)))"

lemma progress_refl: "buffers_ok s \<Longrightarrow> progress Q s s"
  by (auto simp: progress_def intro: exI [of _ 0])

lemma progress_trans: "progress Q s s' \<Longrightarrow> progress Q s' s'' \<Longrightarrow> progress Q s s''"
  by (fastforce simp: progress_def)

lemma progress_consume: "buffers_ok s \<Longrightarrow> progress Q s (consumeBytes n s)"
  by (auto simp: progress_def)

lemma progress_mono: "progress Q s s' \<Longrightarrow> (\<And>d. Q d \<Longrightarrow> R d) \<Longrightarrow> progress R s s'"
  unfolding progress_def by blast

lemma progress_reader_ok: "progress Q s s' \<Longrightarrow> reader_ok s \<Longrightarrow> reader_ok s'"
  by (metis progress_def reader_ok_def config_ok_cong)

section \<open>Checksum and timing do not disturb the buffers\<close>

lemma validate_eq:
  "\<exists>e t. snd (validate now dat pos s) = s\<lparr>fr_checksumErrors := e, fr_lastChecksumLog := t\<rparr>"
  by (intro exI [of _ "fr_checksumErrors (snd (validate now dat pos s))"]
      exI [of _ "fr_lastChecksumLog (snd (validate now dat pos s))"])
     (auto simp: validate_def Let_def split: option.split)

lemma stamp_chunks_bytes:
  "stamp_chunks n cs = Some (t, cs') \<Longrightarrow> map pc_bytesRemaining cs' = map pc_bytesRemaining cs"
  by (induction n cs arbitrary: cs' rule: stamp_chunks.induct) (auto split: if_splits)

lemma frameTimestamp_eq:
  "\<exists>cs. snd (frameTimestamp now n s) = s\<lparr>fr_pendingChunks := cs\<rparr>
     \<and> map pc_bytesRemaining cs = map pc_bytesRemaining (fr_pendingChunks s)"
proof (cases "fr_pendingChunks s = []")
  case False
  then obtain cs c where cs: "fr_pendingChunks s = cs @ [c]" by (metis rev_exhaust)
  show ?thesis
  proof (cases "stamp_chunks (n - 1) (fr_pendingChunks s)")
    case None
    then show ?thesis by (auto simp: frameTimestamp_def Let_def cs)
  next
    case (Some r)
    obtain t cs' where "stamp_chunks (n - 1) (fr_pendingChunks s) = Some (t, cs')"
      using Some by (cases r) simp
    then show ?thesis using False stamp_chunks_bytes by (fastforce simp: frameTimestamp_def)
  qed
qed (auto simp: frameTimestamp_def intro: exI [of _ "fr_pendingChunks s"])

lemma sum_positive_cong:
  "map pc_bytesRemaining cs = map pc_bytesRemaining ds \<Longrightarrow>
   pending_sum cs = pending_sum ds
     \<and> ((\<forall>c \<in> set cs. 0 < pc_bytesRemaining c) \<longleftrightarrow> (\<forall>c \<in> set ds. 0 < pc_bytesRemaining c))"
  unfolding pending_sum_def by (metis (mono_tags, lifting) image_iff list.set_map)

lemma frameTimestamp_ok:
  assumes "buffers_ok s" "frameTimestamp now n s = (t, s')"
  shows "buffers_ok s'" "config s' = config s" "fr_queue s' = fr_queue s"
    "fr_circularBuffer s' = fr_circularBuffer s"
proof -
  obtain cs where cs: "s' = s\<lparr>fr_pendingChunks := cs\<rparr>"
    "map pc_bytesRemaining cs = map pc_bytesRemaining (fr_pendingChunks s)"
    using frameTimestamp_eq [of now n s] assms(2) by auto
  then show "config s' = config s" "fr_queue s' = fr_queue s" "fr_circularBuffer s' = fr_circularBuffer s"
    by (simp_all add: config_def)
  show "buffers_ok s'"
    using assms(1) sum_positive_cong [OF cs(2)] cs(1) by (simp add: buffers_ok_def)
qed

lemma noteDroppedFrame_simps [simp]:
  "config (noteDroppedFrame now s) = config s"
  "fr_queue (noteDroppedFrame now s) = fr_queue s"
  "fr_circularBuffer (noteDroppedFrame now s) = fr_circularBuffer s"
  "fr_pendingChunks (noteDroppedFrame now s) = fr_pendingChunks s"
  "fr_queueCapacity (noteDroppedFrame now s) = fr_queueCapacity s"
  by (simp_all add: noteDroppedFrame_def Let_def config_def)

lemma offer_simps [simp]:
  "config (offer now d s) = config s"
  "fr_circularBuffer (offer now d s) = fr_circularBuffer s"
  "fr_pendingChunks (offer now d s) = fr_pendingChunks s"
  "fr_queueCapacity (offer now d s) = fr_queueCapacity s"
  "fr_queue (offer now d s) =
     (if length (fr_queue s) < fr_queueCapacity s then fr_queue s @ [d] else fr_queue s)"
proof -
  show "config (offer now d s) = config s"
    by (cases "length (fr_queue s) < fr_queueCapacity s") (simp add: offer_def config_def, simp add: offer_def)
qed (simp_all add: offer_def)

lemma offer_ok: "buffers_ok s \<Longrightarrow> buffers_ok (offer now d s)"
  by (simp add: buffers_ok_def)

lemma enqueueCaptured_ok:
  assumes "buffers_ok s"
  shows "buffers_ok (enqueueCaptured now dat n s)"
    and "config (enqueueCaptured now dat n s) = config s"
    and "stream (enqueueCaptured now dat n s) = drop n (stream s)"
    and "frames (enqueueCaptured now dat n s) =
      (if length (fr_queue s) < fr_queueCapacity s then frames s @ [dat] else frames s)"
proof -
  obtain t s' where ts: "frameTimestamp now n s = (t, s')" by fastforce
  note ok = frameTimestamp_ok [OF assms ts]
  have "fr_queueCapacity s' = fr_queueCapacity s" using ok(2) by (simp add: config_def)
  then show "buffers_ok (enqueueCaptured now dat n s)"
    "config (enqueueCaptured now dat n s) = config s"
    "stream (enqueueCaptured now dat n s) = drop n (stream s)"
    "frames (enqueueCaptured now dat n s) =
      (if length (fr_queue s) < fr_queueCapacity s then frames s @ [dat] else frames s)"
    using ok offer_ok [OF ok(1)] by (auto simp: enqueueCaptured_def ts Let_def)
qed

text \<open>The bytes a frame's checksum field must hold.\<close>

definition trailer :: "frame_reader \<Rightarrow> bytes \<Rightarrow> bytes" where
  "trailer s dat = (case fr_checksumFunc s of Some f \<Rightarrow> f dat | None \<Rightarrow> [])"

lemma trailer_length: "config_ok s \<Longrightarrow> length (trailer s dat) = fr_checksumLength s"
  by (auto simp: config_ok_def checksum_fits_def trailer_def split: option.splits)

lemma trailer_cong: "config s = config s' \<Longrightarrow> trailer s = trailer s'"
  by (simp add: config_def trailer_def fun_eq_iff)

text \<open>The verdict on a frame, in terms of the stream alone.\<close>

lemma validate_verdict:
  assumes ok: "reader_ok s" and dat: "dat \<noteq> []" "pos \<le> length (stream s)"
  shows "fst (validate now dat pos s) =
     (if length (stream s) < pos + fr_checksumLength s then ChecksumIncomplete
      else if slice (stream s) pos (fr_checksumLength s) = trailer s dat then FrameOk
      else ChecksumError)"
proof -
  have ring: "ring_ok (fr_circularBuffer s)" and len: "length (trailer s dat) = fr_checksumLength s"
    using ok by (simp_all add: reader_ok_def buffers_ok_def trailer_length)
  show ?thesis
  proof (cases "fr_checksumLength s = 0")
    case True
    then have "trailer s dat = []" using len by simp
    then show ?thesis using True dat by (simp add: validate_def slice_def)
  next
    case False
    then obtain f where "fr_checksumFunc s = Some f"
      using ok by (cases "fr_checksumFunc s") (auto simp: reader_ok_def config_ok_def checksum_fits_def)
    then show ?thesis
      using False dat by (auto simp: validate_def trailer_def Let_def peekRange_contents [OF ring])
  qed
qed

lemma validate_ok:
  assumes "buffers_ok s" "validate now dat pos s = (v, s')"
  shows "buffers_ok s'" "config s' = config s" "fr_queue s' = fr_queue s"
    "fr_circularBuffer s' = fr_circularBuffer s" "fr_pendingChunks s' = fr_pendingChunks s"
proof -
  obtain e t where "s' = s\<lparr>fr_checksumErrors := e, fr_lastChecksumLog := t\<rparr>"
    using validate_eq [of now dat pos s] assms(2) by auto
  then show "buffers_ok s'" "config s' = config s" "fr_queue s' = fr_queue s"
    "fr_circularBuffer s' = fr_circularBuffer s" "fr_pendingChunks s' = fr_pendingChunks s"
    using assms(1) by (simp_all add: buffers_ok_def config_def)
qed

text \<open>What \<open>settle\<close> does, branch by branch.\<close>

lemma settle_cases:
  assumes ok: "reader_ok s" and dat: "dat \<noteq> []" "pos \<le> length (stream s)"
    and st: "settle now dat pos e bad s = (go, s')"
  obtains (wait) "length (stream s) < pos + fr_checksumLength s" "\<not> go"
      "reader_ok s'" "config s' = config s" "stream s' = stream s" "fr_queue s' = fr_queue s"
  | (frame) "pos + fr_checksumLength s \<le> length (stream s)"
      "slice (stream s) pos (fr_checksumLength s) = trailer s dat" "go"
      "reader_ok s'" "config s' = config s" "stream s' = drop e (stream s)"
      "frames s' = (if length (fr_queue s) < fr_queueCapacity s then frames s @ [dat] else frames s)"
      "fr_queue s' = fr_queue s \<or> (\<exists>d. cd_data d = dat \<and> fr_queue s' = fr_queue s @ [d])"
  | (reject) "pos + fr_checksumLength s \<le> length (stream s)"
      "slice (stream s) pos (fr_checksumLength s) \<noteq> trailer s dat" "go"
      "reader_ok s'" "config s' = config s" "stream s' = drop bad (stream s)" "fr_queue s' = fr_queue s"
proof -
  obtain v s1 where v: "validate now dat pos s = (v, s1)" by fastforce
  have b: "buffers_ok s" using ok by (simp add: reader_ok_def)
  note s1 = validate_ok [OF b v]
  have r: "reader_ok x" if "buffers_ok x" "config x = config s" for x
    using that ok config_ok_cong [OF that(2)] by (simp add: reader_ok_def)
  have verdict: "v = (if length (stream s) < pos + fr_checksumLength s then ChecksumIncomplete
      else if slice (stream s) pos (fr_checksumLength s) = trailer s dat then FrameOk
      else ChecksumError)" using validate_verdict [OF ok dat, of now] v by simp
  consider "length (stream s) < pos + fr_checksumLength s"
    | "pos + fr_checksumLength s \<le> length (stream s)"
      "slice (stream s) pos (fr_checksumLength s) = trailer s dat"
    | "pos + fr_checksumLength s \<le> length (stream s)"
      "slice (stream s) pos (fr_checksumLength s) \<noteq> trailer s dat" by linarith
  then show ?thesis
  proof cases
    case 1
    then have s': "\<not> go" "s' = s1" using verdict st v by (simp_all add: settle_def)
    show ?thesis by (rule wait [OF 1]) (use s' s1 r [OF s1(1,2)] in simp_all)
  next
    case 2
    then have s': "go" "s' = enqueueCaptured now dat e s1" using verdict st v by (simp_all add: settle_def)
    have cap: "fr_queueCapacity s1 = fr_queueCapacity s" using s1(2) by (simp add: config_def)
    have q: "fr_queue s' = fr_queue s \<or> (\<exists>d. cd_data d = dat \<and> fr_queue s' = fr_queue s @ [d])"
      unfolding s' enqueueCaptured_def Let_def
      using frameTimestamp_ok(3) [OF s1(1)] s1(3)
      by (auto split: prod.split) 
    show ?thesis
      using 2 s' enqueueCaptured_ok [OF s1(1), of now dat e] s1 cap q
      by (intro frame r) simp_all
  next
    case 3
    then have s': "go" "s' = consumeBytes bad s1" using verdict st v by (auto simp: settle_def)
    show ?thesis
      using 3 s' s1 consumeBytes_ok [OF s1(1), of bad]
      by (intro reject r) simp_all
  qed
qed

lemma settle_progress:
  assumes ok: "reader_ok s" and dat: "dat \<noteq> []" "pos \<le> length (stream s)"
    and Q: "pos + fr_checksumLength s \<le> length (stream s) \<Longrightarrow>
      slice (stream s) pos (fr_checksumLength s) = trailer s dat \<Longrightarrow> Q dat"
  shows "progress Q s (snd (settle now dat pos e bad s))"
proof -
  obtain go s' where st: "settle now dat pos e bad s = (go, s')" by fastforce
  show ?thesis
    using ok dat st
  proof (cases rule: settle_cases)
    case wait
    then show ?thesis using st by (auto simp: progress_def reader_ok_def intro: exI [of _ 0])
  next
    case frame
    then show ?thesis using st Q by (auto simp: progress_def reader_ok_def)
  next
    case reject
    then show ?thesis using st by (auto simp: progress_def reader_ok_def)
  qed
qed

section \<open>The searches of a well-formed reader\<close>

lemma scan_finish:
  "reader_ok s \<Longrightarrow> i < length (fr_finishSequences s) \<Longrightarrow>
   scan s (fr_finishSequences s ! i) (fr_finishSequenceLps s ! i) pos
     = find_pattern (stream s) (fr_finishSequences s ! i) pos"
  unfolding scan_def
  by (subst findPatternKMP_spec)
     (auto simp: reader_ok_def buffers_ok_def config_ok_def list_all2_conv_all_nth in_set_conv_nth)

lemma scan_start:
  "reader_ok s \<Longrightarrow> i < length (fr_startSequences s) \<Longrightarrow>
   scan s (fr_startSequences s ! i) (fr_startSequenceLps s ! i) pos
     = find_pattern (stream s) (fr_startSequences s ! i) pos"
  unfolding scan_def
  by (subst findPatternKMP_spec)
     (auto simp: reader_ok_def buffers_ok_def config_ok_def list_all2_conv_all_nth in_set_conv_nth)

text \<open>The delimiters an end-delimited reader compares with: the first eight.\<close>

abbreviation delimiters :: "frame_reader \<Rightarrow> bytes list" where
  "delimiters s \<equiv> take kMaxPatterns (fr_finishSequences s)"

lemma end_match_spec:
  assumes ok: "reader_ok s" and "fr_finishSequences s \<noteq> []"
  shows "end_match s = map_option (\<lambda>(i, k). (i, delimiters s ! k)) (first_of_patterns (stream s) (delimiters s))"
proof (cases "length (fr_finishSequences s) = 1")
  case True
  then obtain p where p: "fr_finishSequences s = [p]" by (cases "fr_finishSequences s") auto
  then have "p \<noteq> []" "delimiters s = [p]" using ok by (auto simp: reader_ok_def config_ok_def kMaxPatterns_def)
  moreover have "scan s p (fr_finishSequenceLps s ! 0) 0 = find_pattern (stream s) p 0"
    using scan_finish [OF ok, of 0] p by simp
  ultimately show ?thesis
    by (simp add: end_match_def p first_of_single option.map_comp comp_def)
next
  case False
  have "findFirstOfPatterns (fr_circularBuffer s) (fr_finishSequences s) (fr_finishAnchors s)
      = first_of_patterns (stream s) (delimiters s)"
    using ok assms(2) by (simp add: reader_ok_def buffers_ok_def config_ok_def findFirstOfPatterns_eight)
  then show ?thesis
    using False first_of_patterns_Some [of "stream s" "delimiters s"]
    by (cases "first_of_patterns (stream s) (delimiters s)") (auto simp: end_match_def)
qed

lemma end_match_Some:
  assumes ok: "reader_ok s" "fr_finishSequences s \<noteq> []" and "end_match s = Some (i, p)"
  shows "p \<in> set (fr_finishSequences s)" "p \<noteq> []" "occurs_at (stream s) p i"
    "i + length p \<le> length (stream s)"
proof -
  obtain k where k: "first_of_patterns (stream s) (delimiters s) = Some (i, k)" "p = delimiters s ! k"
    using assms(3) unfolding end_match_spec [OF ok] by auto
  then have "k < length (delimiters s)" "occurs_at (stream s) p i"
    using first_of_patterns_Some [OF k(1)] k(2) by auto
  then show "p \<in> set (fr_finishSequences s)" "p \<noteq> []" "occurs_at (stream s) p i"
    "i + length p \<le> length (stream s)"
    using k(2) ok(1) nth_mem [of k "delimiters s"]
    by (auto simp: reader_ok_def config_ok_def occurs_at_def dest: in_set_takeD)
qed

section \<open>What a queued frame looks like on the wire\<close>

definition end_frame :: "frame_reader \<Rightarrow> bytes \<Rightarrow> bool" where
  "end_frame s dat \<longleftrightarrow> dat \<noteq> []
     \<and> (\<exists>p \<in> set (fr_finishSequences s). sublist (dat @ p @ trailer s dat) (stream s))"

definition start_frame :: "frame_reader \<Rightarrow> bytes \<Rightarrow> bool" where
  "start_frame s dat \<longleftrightarrow> dat \<noteq> []
     \<and> sublist (hd (fr_startSequences s) @ dat @ trailer s dat @ hd (fr_startSequences s)) (stream s)"

definition start_end_frame :: "frame_reader \<Rightarrow> bytes \<Rightarrow> bool" where
  "start_end_frame s dat \<longleftrightarrow> dat \<noteq> []
     \<and> sublist (hd (fr_startSequences s) @ dat @ hd (fr_finishSequences s) @ trailer s dat) (stream s)"

definition fixed_frame :: "frame_reader \<Rightarrow> bytes \<Rightarrow> bool" where
  "fixed_frame s dat \<longleftrightarrow> length dat + fr_checksumLength s = fr_fixedFrameLength s \<and> dat \<noteq> []
     \<and> (fr_headerMask s \<noteq> 0 \<longrightarrow> hd dat AND fr_headerMask s = fr_headerValue s)
     \<and> (fr_bodyMask s \<noteq> 0 \<longrightarrow> (\<forall>b \<in> set (tl dat). b AND fr_bodyMask s = fr_bodyValue s))
     \<and> sublist (dat @ trailer s dat) (stream s)"

text \<open>
  The contract of an extraction loop: its step keeps the reader well formed, only consumes, and
  queues nothing but frames that are on the wire.
\<close>

locale extractor =
  fixes step :: "frame_reader \<Rightarrow> bool \<times> frame_reader"
    and ready :: "frame_reader \<Rightarrow> bool"
    and frame_ok :: "frame_reader \<Rightarrow> bytes \<Rightarrow> bool"
  assumes step_progress: "reader_ok s \<Longrightarrow> ready s \<Longrightarrow> progress (frame_ok s) s (snd (step s))"
    and ready_config: "config s' = config s \<Longrightarrow> ready s \<Longrightarrow> ready s'"
    and frame_later: "config s' = config s \<Longrightarrow> stream s' = drop k (stream s) \<Longrightarrow>
      frame_ok s' dat \<Longrightarrow> frame_ok s dat"
begin

lemma loop_progress:
  "reader_ok s \<Longrightarrow> ready s \<Longrightarrow> progress (frame_ok s) s (bounded_loop n step s)"
proof (induction n arbitrary: s)
  case 0
  then show ?case by (simp add: progress_refl reader_ok_def)
next
  case (Suc n)
  obtain go s' where st: "step s = (go, s')" by fastforce
  have p: "progress (frame_ok s) s s'" using step_progress [OF Suc.prems] st by simp
  then have c: "config s' = config s" and "\<exists>k. stream s' = drop k (stream s)"
    by (simp_all add: progress_def)
  then have later: "frame_ok s' dat \<Longrightarrow> frame_ok s dat" for dat using frame_later by blast
  have "progress (frame_ok s') s' (bounded_loop n step s')"
    using Suc.IH progress_reader_ok [OF p Suc.prems(1)] ready_config [OF c Suc.prems(2)] .
  then have "progress (frame_ok s) s' (bounded_loop n step s')" by (rule progress_mono) (rule later)
  then have "progress (frame_ok s) s (bounded_loop n step s')" by (rule progress_trans [OF p])
  then show ?case using p st by (cases go) simp_all
qed

lemma loop_ok: "reader_ok s \<Longrightarrow> ready s \<Longrightarrow> reader_ok (bounded_loop n step s)"
  using progress_reader_ok [OF loop_progress] .

end

section \<open>The four loops honour the contract\<close>

lemma sublist_slice: "i + n \<le> length xs \<Longrightarrow> sublist (slice xs i n) xs"
  unfolding slice_def by (meson sublist_drop sublist_order.order.trans sublist_take)

lemma sublist_later: "stream s' = drop k (stream s) \<Longrightarrow> sublist xs (stream s') \<Longrightarrow> sublist xs (stream s)"
  by (metis sublist_drop sublist_order.order.trans)

lemma config_trailer: "config s' = config s \<Longrightarrow> trailer s' = trailer s"
  by (rule trailer_cong)

lemma config_fields:
  assumes "config s' = config s"
  shows "fr_startSequences s' = fr_startSequences s" "fr_finishSequences s' = fr_finishSequences s"
    "fr_checksumLength s' = fr_checksumLength s" "fr_fixedFrameLength s' = fr_fixedFrameLength s"
    "fr_headerMask s' = fr_headerMask s" "fr_headerValue s' = fr_headerValue s"
    "fr_bodyMask s' = fr_bodyMask s" "fr_bodyValue s' = fr_bodyValue s"
    "fr_queueCapacity s' = fr_queueCapacity s" "fr_startSequenceLps s' = fr_startSequenceLps s"
    "fr_finishSequenceLps s' = fr_finishSequenceLps s" "fr_operationMode s' = fr_operationMode s"
    "fr_frameDetectionMode s' = fr_frameDetectionMode s"
    "cb_capacity (fr_circularBuffer s') = cb_capacity (fr_circularBuffer s)"
  using assms by (simp_all add: config_def)

lemma peek_stream: "buffers_ok s \<Longrightarrow> peekRange i n (fr_circularBuffer s) = slice (stream s) i n"
  by (simp add: buffers_ok_def peekRange_contents)

interpretation end_loop: extractor "end_step now" "\<lambda>s. fr_finishSequences s \<noteq> []" end_frame
proof unfold_locales
  fix s assume ok: "reader_ok s" and fin: "fr_finishSequences s \<noteq> []"
  then have b: "buffers_ok s" by (simp add: reader_ok_def)
  show "progress (end_frame s) s (snd (end_step now s))"
  proof (cases "end_match s")
    case None
    then show ?thesis by (simp add: end_step_def progress_refl b)
  next
    case (Some ip)
    obtain i p where m: "end_match s = Some (i, p)" using Some by (cases ip) simp
    note mt = end_match_Some [OF ok fin m]
    let ?dat = "peekRange 0 i (fr_circularBuffer s)"
    have dat: "?dat = take i (stream s)" using peek_stream [OF b] by simp
    show ?thesis
    proof (cases "?dat = []")
      case True
      then show ?thesis using m by (simp add: end_step_def Let_def progress_consume b)
    next
      case False
      have "end_frame s ?dat"
        if t: "i + length p + fr_checksumLength s \<le> length (stream s)"
          "slice (stream s) (i + length p) (fr_checksumLength s) = trailer s ?dat"
      proof -
        have "slice (stream s) i (length p) = p" using mt(3) by (simp add: occurs_at_def)
        then have "?dat @ p @ trailer s ?dat
            = slice (stream s) 0 (i + length p + fr_checksumLength s)"
          using slice_append [of "stream s" 0 i "length p + fr_checksumLength s"]
            slice_append [of "stream s" i "length p" "fr_checksumLength s"] t(2) dat
          by (simp add: add.assoc)
        moreover have "sublist (slice (stream s) 0 (i + length p + fr_checksumLength s)) (stream s)"
          using t(1) by (intro sublist_slice) simp
        ultimately show ?thesis using False mt(1) unfolding end_frame_def by metis
      qed
      then have "progress (end_frame s) s (snd (settle now ?dat (i + length p)
          (i + length p + fr_checksumLength s) (i + length p + fr_checksumLength s) s))"
        using ok False mt(4) by (intro settle_progress) auto
      then show ?thesis using m False by (simp add: end_step_def Let_def)
    qed
  qed
next
  fix s s' :: frame_reader and k dat
  assume c: "config s' = config s" and "stream s' = drop k (stream s)" "end_frame s' dat"
  then show "end_frame s dat"
    using config_trailer [OF c] config_fields [OF c] sublist_later unfolding end_frame_def by metis
qed (metis config_fields(2))

text \<open>Everything up to the first match of a start sequence is dropped before it is used.\<close>

lemma find_pattern_drop:
  assumes "find_pattern xs p 0 = Some i"
  shows "occurs_at (drop i xs) p 0"
proof -
  have "occurs_at xs p i" using assms by (simp add: find_pattern_Some)
  then show ?thesis by (auto simp: occurs_at_def slice_def)
qed

lemma reader_ok_consume: "reader_ok s \<Longrightarrow> reader_ok (consumeBytes n s)"
  using progress_reader_ok progress_consume by (metis reader_ok_def)

definition starts_ok :: "frame_reader \<Rightarrow> bool" where
  "starts_ok s \<longleftrightarrow> fr_startSequences s \<noteq> []"

lemma start_step_progress:
  assumes ok: "reader_ok s" and st: "starts_ok s"
  shows "progress (start_frame s) s (snd (start_step now s))"
proof -
  have b: "buffers_ok s" using ok by (simp add: reader_ok_def)
  let ?S = "fr_startSequences s ! 0"
  have hd: "hd (fr_startSequences s) = ?S" using st by (simp add: starts_ok_def hd_conv_nth)
  have scan0: "scan s ?S (fr_startSequenceLps s ! 0) 0 = find_pattern (stream s) ?S 0"
    using ok st by (intro scan_start) (simp_all add: starts_ok_def)
  show ?thesis
  proof (cases "find_pattern (stream s) ?S 0")
    case None
    then show ?thesis using scan0 by (simp add: start_step_def progress_refl b)
  next
    case (Some i)
    define s1 where "s1 = consumeBytes i s"
    have s1: "reader_ok s1" "buffers_ok s1" "config s1 = config s" "stream s1 = drop i (stream s)"
      using reader_ok_consume [OF ok, of i] b by (simp_all add: s1_def reader_ok_def)
    note f = config_fields [OF s1(3)]
    have p1: "progress (start_frame s) s s1" unfolding s1_def using b by (rule progress_consume)
    have front: "occurs_at (stream s1) ?S 0" using find_pattern_drop [OF Some] s1(4) by simp
    have scan1: "scan s1 ?S (fr_startSequenceLps s ! 0) (length ?S) = find_pattern (stream s1) ?S (length ?S)"
      using scan_start [OF s1(1), of 0] st f by (simp add: starts_ok_def)
    show ?thesis
    proof (cases "find_pattern (stream s1) ?S (length ?S)")
      case None
      then show ?thesis using Some scan0 scan1 p1 by (simp add: start_step_def s1_def)
    next
      case nx: (Some e)
      then have e: "length ?S \<le> e" "occurs_at (stream s1) ?S e" by (simp_all add: find_pattern_Some)
      let ?n = "fr_checksumLength s"
      let ?dat = "peekRange (length ?S) (e - length ?S - ?n) (fr_circularBuffer s1)"
      have dat: "?dat = slice (stream s1) (length ?S) (e - length ?S - ?n)" by (rule peek_stream [OF s1(2)])
      have skip: "progress (start_frame s) s (consumeBytes e s1)"
        using p1 progress_consume [OF s1(2)] progress_trans by blast
      show ?thesis
      proof (cases "e < length ?S + ?n \<or> e \<le> length ?S \<or> ?dat = []")
        case True
        then show ?thesis using Some nx scan0 scan1 skip f by (auto simp: start_step_def Let_def simp flip: s1_def)
      next
        case False
        then have n: "length ?S + ?n \<le> e" "\<not> e \<le> length ?S" "?dat \<noteq> []" by auto
        have "start_frame s ?dat"
          if t: "slice (stream s1) (e - ?n) ?n = trailer s1 ?dat"
        proof -
          have len: "e + length ?S \<le> length (stream s1)" using e(2) by (simp add: occurs_at_def)
          have "?S @ ?dat @ trailer s ?dat @ ?S = slice (stream s1) 0 (e + length ?S)"
          proof -
            have "slice (stream s1) 0 (length ?S) = ?S" "slice (stream s1) e (length ?S) = ?S"
              using front e(2) by (simp_all add: occurs_at_def)
            moreover have "trailer s ?dat = slice (stream s1) (e - ?n) ?n"
              using t config_trailer [OF s1(3)] by simp
            ultimately show ?thesis
              using slice_append [of "stream s1" 0 "length ?S" "e - length ?S - ?n"]
                slice_append [of "stream s1" 0 "e - ?n" ?n] slice_append [of "stream s1" 0 e "length ?S"] n(1)
              unfolding dat by (simp add: append_assoc [symmetric] del: append_assoc slice_prefix)
          qed
          moreover have "sublist (slice (stream s1) 0 (e + length ?S)) (stream s1)"
            using len by (intro sublist_slice) simp
          ultimately show ?thesis
            using n(3) s1(4) sublist_later hd unfolding start_frame_def by metis
        qed
        then have "progress (start_frame s) s1 (snd (settle now ?dat (e - ?n) e e s1))"
          using s1(1) n(3) e(2) f by (intro settle_progress) (auto simp: occurs_at_def)
        then have "progress (start_frame s) s (snd (settle now ?dat (e - ?n) e e s1))"
          by (rule progress_trans [OF p1])
        then show ?thesis using Some nx scan0 scan1 n f by (simp add: start_step_def Let_def flip: s1_def)
      qed
    qed
  qed
qed

interpretation start_loop: extractor "start_step now" starts_ok start_frame
proof unfold_locales
  fix s s' :: frame_reader and k dat
  assume c: "config s' = config s"
  show "starts_ok s \<Longrightarrow> starts_ok s'" using config_fields [OF c] by (simp add: starts_ok_def)
  assume "stream s' = drop k (stream s)" "start_frame s' dat"
  then show "start_frame s dat"
    using config_trailer [OF c] config_fields [OF c] sublist_later unfolding start_frame_def by metis
qed (rule start_step_progress)

definition both_ok :: "frame_reader \<Rightarrow> bool" where
  "both_ok s \<longleftrightarrow> fr_startSequences s \<noteq> [] \<and> fr_finishSequences s \<noteq> []"

lemma start_end_step_progress:
  assumes ok: "reader_ok s" and st: "both_ok s"
  shows "progress (start_end_frame s) s (snd (start_end_step now s))"
proof -
  have b: "buffers_ok s" using ok by (simp add: reader_ok_def)
  let ?S = "fr_startSequences s ! 0" and ?F = "fr_finishSequences s ! 0" and ?n = "fr_checksumLength s"
  have hd: "hd (fr_startSequences s) = ?S" "hd (fr_finishSequences s) = ?F"
    using st by (simp_all add: both_ok_def hd_conv_nth)
  have scans: "scan s ?S (fr_startSequenceLps s ! 0) 0 = find_pattern (stream s) ?S 0"
      "scan s ?F (fr_finishSequenceLps s ! 0) 0 = find_pattern (stream s) ?F 0"
    using ok st by (simp_all add: scan_start scan_finish both_ok_def)
  have skip: "progress (start_end_frame s) s (consumeBytes m s)" for m using b by (rule progress_consume)
  show ?thesis
  proof (cases "find_pattern (stream s) ?F 0")
    case None
    then show ?thesis using scans by (simp add: start_end_step_def progress_refl b)
  next
    case f: (Some e)
    then have e: "occurs_at (stream s) ?F e" by (simp add: find_pattern_Some)
    show ?thesis
    proof (cases "find_pattern (stream s) ?S 0")
      case None
      then show ?thesis using scans f skip by (simp add: start_end_step_def)
    next
      case g: (Some i)
      then have i: "occurs_at (stream s) ?S i" by (simp add: find_pattern_Some)
      let ?dat = "peekRange (i + length ?S) (e - (i + length ?S)) (fr_circularBuffer s)"
      have dat: "?dat = slice (stream s) (i + length ?S) (e - (i + length ?S))" by (rule peek_stream [OF b])
      show ?thesis
      proof (cases "e \<le> i \<or> e \<le> i + length ?S \<or> ?dat = []")
        case True
        then show ?thesis using scans f g skip by (auto simp: start_end_step_def Let_def)
      next
        case False
        have "start_end_frame s ?dat"
          if t: "e + length ?F + ?n \<le> length (stream s)"
            "slice (stream s) (e + length ?F) ?n = trailer s ?dat"
        proof -
          have "?S @ ?dat @ ?F @ trailer s ?dat = slice (stream s) i (e - i + length ?F + ?n)"
          proof -
            have "slice (stream s) i (length ?S) = ?S" "slice (stream s) e (length ?F) = ?F"
              using i e by (simp_all add: occurs_at_def)
            then show ?thesis
              using slice_append [of "stream s" i "length ?S" "e - (i + length ?S)"]
                slice_append [of "stream s" i "e - i" "length ?F"]
                slice_append [of "stream s" i "e - i + length ?F" ?n] False t(2)
              unfolding dat by (simp add: append_assoc [symmetric] del: append_assoc)
          qed
          moreover have "sublist (slice (stream s) i (e - i + length ?F + ?n)) (stream s)"
            using t(1) False by (intro sublist_slice) simp
          ultimately show ?thesis using False hd unfolding start_end_frame_def by metis
        qed
        then have "progress (start_end_frame s) s (snd (settle now ?dat (e + length ?F)
            (e + length ?F + ?n) (e + length ?F + ?n) s))"
          using ok False e by (intro settle_progress) (auto simp: occurs_at_def)
        then show ?thesis using scans f g False by (auto simp: start_end_step_def Let_def)
      qed
    qed
  qed
qed

interpretation start_end_loop: extractor "start_end_step now" both_ok start_end_frame
proof unfold_locales
  fix s s' :: frame_reader and k dat
  assume c: "config s' = config s"
  show "both_ok s \<Longrightarrow> both_ok s'" using config_fields [OF c] by (simp add: both_ok_def)
  assume "stream s' = drop k (stream s)" "start_end_frame s' dat"
  then show "start_end_frame s dat"
    using config_trailer [OF c] config_fields [OF c] sublist_later unfolding start_end_frame_def by metis
qed (rule start_end_step_progress)

definition fixed_ready :: "nat \<Rightarrow> nat \<Rightarrow> frame_reader \<Rightarrow> bool" where
  "fixed_ready len payload s \<longleftrightarrow>
     fr_fixedFrameLength s = len \<and> payload = len - fr_checksumLength s \<and> fr_checksumLength s < len"

lemma align_cases:
  assumes ok: "reader_ok s" and al: "alignFixedLengthFrame len s = (go, s')" and len: "0 < len"
  shows "progress Q s s'"
    and "go \<Longrightarrow> len \<le> length (stream s')"
    and "go \<Longrightarrow> fr_headerMask s \<noteq> 0 \<Longrightarrow> hd (stream s') AND fr_headerMask s = fr_headerValue s"
proof -
  have b: "buffers_ok s" and r: "ring_ok (fr_circularBuffer s)" using ok by (simp_all add: reader_ok_def buffers_ok_def)
  have h: "findMaskedByte (fr_circularBuffer s) (fr_headerMask s) (fr_headerValue s) 0
      = first_idx (\<lambda>i. stream s ! i AND fr_headerMask s = fr_headerValue s) 0 (length (stream s))"
    by (simp add: findMaskedByte_def scanMasked_spec [OF r])
  have "progress Q s s' \<and> (go \<longrightarrow> len \<le> length (stream s')
      \<and> (fr_headerMask s \<noteq> 0 \<longrightarrow> hd (stream s') AND fr_headerMask s = fr_headerValue s))"
  proof (cases "length (stream s) < len \<or> fr_headerMask s = 0")
    case True
    then show ?thesis using al b by (auto simp: alignFixedLengthFrame_def progress_refl split: if_splits)
  next
    case False
    show ?thesis
    proof (cases "first_idx (\<lambda>i. stream s ! i AND fr_headerMask s = fr_headerValue s) 0 (length (stream s))")
      case None
      then show ?thesis using al b False h by (auto simp: alignFixedLengthFrame_def progress_consume)
    next
      case (Some i)
      then have i: "i < length (stream s)" "stream s ! i AND fr_headerMask s = fr_headerValue s"
        by (simp_all add: first_idx_Some)
      have "hd (drop i (stream s)) = stream s ! i" using i(1) by (rule hd_drop_conv_nth)
      moreover have "go = (len \<le> ring_size (fr_circularBuffer (consumeBytes i s)))" "s' = consumeBytes i s"
        using al False h Some i by (auto simp: alignFixedLengthFrame_def Let_def)
      moreover have "ring_size (fr_circularBuffer (consumeBytes i s)) = length (stream (consumeBytes i s))" by simp
      ultimately show ?thesis using i b by (simp add: progress_consume del: length_contents)
    qed
  qed
  then show "progress Q s s'" "go \<Longrightarrow> len \<le> length (stream s')"
    "go \<Longrightarrow> fr_headerMask s \<noteq> 0 \<Longrightarrow> hd (stream s') AND fr_headerMask s = fr_headerValue s"
    by blast+
qed

lemma fixed_step_progress:
  assumes ok: "reader_ok s" and rdy: "fixed_ready len payload s"
  shows "progress (fixed_frame s) s (snd (fixed_step now len payload s))"
proof -
  have pl: "0 < payload" "payload + fr_checksumLength s = len" "0 < len" "fr_fixedFrameLength s = len"
    using rdy by (auto simp: fixed_ready_def)
  obtain go s1 where al: "alignFixedLengthFrame len s = (go, s1)" by fastforce
  note a = align_cases [OF ok al pl(3)]
  have p1: "progress Q s s1" for Q by (rule a(1))
  have s1: "reader_ok s1" "config s1 = config s" "\<exists>k. stream s1 = drop k (stream s)"
    using p1 progress_reader_ok [OF p1 ok] by (auto simp: progress_def)
  have b1: "buffers_ok s1" "ring_ok (fr_circularBuffer s1)" using s1(1) by (simp_all add: reader_ok_def buffers_ok_def)
  note f = config_fields [OF s1(2)]
  show ?thesis
  proof (cases go)
    case False
    then show ?thesis using al p1 by (simp add: fixed_step_def)
  next
    case go: True
    have size1: "len \<le> length (stream s1)" by (rule a(2) [OF go])
    let ?dat = "peekRange 0 payload (fr_circularBuffer s1)"
    let ?bad = "if fr_headerMask s1 \<noteq> 0 then 1 else len"
    let ?viol = "if fr_bodyMask s1 \<noteq> 0
        then findMaskedMismatch (fr_circularBuffer s1) (fr_bodyMask s1) (fr_bodyValue s1) 1 payload else None"
    have viol: "fr_bodyMask s1 \<noteq> 0 \<Longrightarrow> ?viol
        = first_idx (\<lambda>i. stream s1 ! i AND fr_bodyMask s1 \<noteq> fr_bodyValue s1) 1 payload"
      using size1 pl(2) by (simp add: findMaskedMismatch_def scanMasked_spec [OF b1(2)] min_absorb1)
    have dat: "?dat = take payload (stream s1)" using peek_stream [OF b1(1)] by simp
    have ldat: "length ?dat = payload" unfolding dat using size1 pl(2) by simp
    show ?thesis
    proof (cases ?viol)
      case (Some v)
      then have m: "fr_bodyMask s1 \<noteq> 0" by (auto split: if_splits)
      have "first_idx (\<lambda>i. stream s1 ! i AND fr_bodyMask s1 \<noteq> fr_bodyValue s1) 1 payload = Some v"
        using viol [OF m] Some by (simp only:)
      then have "0 < v" by (simp add: first_idx_Some)
      then show ?thesis
        using al go Some p1 progress_consume [OF b1(1)] progress_trans
        by (simp add: fixed_step_def Let_def split del: if_split) blast
    next
      case None
      have "fixed_frame s ?dat" if t: "slice (stream s1) payload (fr_checksumLength s) = trailer s1 ?dat"
      proof -
        have "?dat \<noteq> []" using ldat pl(1) by auto
        moreover have "hd ?dat AND fr_headerMask s = fr_headerValue s" if "fr_headerMask s \<noteq> 0"
          using a(3) [OF go that] dat pl(1) by (simp add: hd_take)
        moreover have "b AND fr_bodyMask s = fr_bodyValue s" if m: "fr_bodyMask s \<noteq> 0" and bt: "b \<in> set (tl ?dat)" for b
        proof -
          obtain i where i: "i < length (tl ?dat)" "b = tl ?dat ! i" using bt by (metis in_set_conv_nth)
          then have "b = stream s1 ! Suc i" "Suc i < payload" using ldat dat by (auto simp: nth_tl)
          have m1: "fr_bodyMask s1 \<noteq> 0" using m f by simp
          have "first_idx (\<lambda>i. stream s1 ! i AND fr_bodyMask s1 \<noteq> fr_bodyValue s1) 1 payload = None"
            using viol [OF m1] None by (simp only:)
          then have "stream s1 ! Suc i AND fr_bodyMask s1 = fr_bodyValue s1"
            using \<open>Suc i < payload\<close> unfolding first_idx_None by force
          then show ?thesis using \<open>b = stream s1 ! Suc i\<close> f by simp
        qed
        moreover have "?dat @ trailer s ?dat = slice (stream s1) 0 len"
          using t slice_append [of "stream s1" 0 payload "fr_checksumLength s"] pl(2) dat config_trailer [OF s1(2)]
          by simp
        then have "sublist (?dat @ trailer s ?dat) (stream s1)"
          using sublist_slice [of 0 len "stream s1"] size1 by (simp del: slice_prefix)
        ultimately show ?thesis
          using ldat pl s1(3) sublist_later unfolding fixed_frame_def by metis
      qed
      then have "progress (fixed_frame s) s1 (snd (settle now ?dat payload len ?bad s1))"
        using s1(1) ldat pl size1 f by (intro settle_progress) auto
      then have "progress (fixed_frame s) s (snd (settle now ?dat payload len ?bad s1))"
        by (rule progress_trans [OF p1])
      then show ?thesis using al go None by (simp add: fixed_step_def Let_def split del: if_split)
    qed
  qed
qed

interpretation fixed_loop: extractor "fixed_step now len payload" "fixed_ready len payload" fixed_frame
proof unfold_locales
  fix s s' :: frame_reader and k dat
  assume c: "config s' = config s"
  show "fixed_ready len payload s \<Longrightarrow> fixed_ready len payload s'"
    using config_fields [OF c] by (simp add: fixed_ready_def)
  assume "stream s' = drop k (stream s)" "fixed_frame s' dat"
  then show "fixed_frame s dat"
    using config_trailer [OF c] config_fields [OF c] sublist_later unfolding fixed_frame_def by metis
qed (rule fixed_step_progress)

section \<open>Receiving a chunk\<close>

lemma reset_ring [simp]:
  "contents (resetOverflowCount r) = contents r" "ring_size (resetOverflowCount r) = ring_size r"
  "ring_ok (resetOverflowCount r) = ring_ok r" "cb_overflow (resetOverflowCount r) = 0"
  "cb_capacity (resetOverflowCount r) = cb_capacity r"
  by (simp_all add: resetOverflowCount_def contents_def ring_size_def ring_ok_def)

text \<open>
  The overflow repair keeps the timing records in step with the ring whatever the size of the chunk,
  also one larger than the whole ring.
\<close>

lemma receive_ok:
  assumes b: "buffers_ok s" and d: "cd_data d \<noteq> []"
  shows "buffers_ok (absorb_overflow now (appendChunk d s))"
    and "config (absorb_overflow now (appendChunk d s)) = config s"
    and "fr_queue (absorb_overflow now (appendChunk d s)) = fr_queue s"
    and "stream (absorb_overflow now (appendChunk d s))
      = take_last (usable_capacity (fr_circularBuffer s)) (stream s @ cd_data d)"
proof -
  let ?r = "append (cd_data d) (fr_circularBuffer s)"
  let ?c = "\<lparr>pc_chunk = d, pc_bytesRemaining = length (cd_data d),
    pc_nextFrameTimestamp = cd_timestamp d, pc_frameStep = max 1 (cd_frameStep d)\<rparr>"
  have r: "ring_ok (fr_circularBuffer s)" "cb_overflow (fr_circularBuffer s) = 0"
    "pending_sum (fr_pendingChunks s) = ring_size (fr_circularBuffer s)"
    "\<forall>c \<in> set (fr_pendingChunks s). 0 < pc_bytesRemaining c" "length (fr_queue s) \<le> fr_queueCapacity s"
    using b by (simp_all add: buffers_ok_def)
  have app: "appendChunk d s = s\<lparr>fr_circularBuffer := ?r, fr_pendingChunks := fr_pendingChunks s @ [?c]\<rparr>"
    using d by (simp add: appendChunk_def)
  have sum: "cb_overflow ?r + ring_size ?r = ring_size (fr_circularBuffer s) + length (cd_data d)"
    using append_overflow [OF r(1)] r(2) by simp
  have ok: "ring_ok ?r" by (rule append_ok [OF r(1)])
  show "stream (absorb_overflow now (appendChunk d s))
      = take_last (usable_capacity (fr_circularBuffer s)) (stream s @ cd_data d)"
    by (simp add: absorb_overflow_def app discardPendingBytes_def Let_def append_contents [OF r(1)])
  show "config (absorb_overflow now (appendChunk d s)) = config s"
    "fr_queue (absorb_overflow now (appendChunk d s)) = fr_queue s"
    by (simp_all add: absorb_overflow_def app discardPendingBytes_def Let_def config_def)
  have pos: "\<forall>c \<in> set (fr_pendingChunks s @ [?c]). 0 < pc_bytesRemaining c" using r(4) d by simp
  show "buffers_ok (absorb_overflow now (appendChunk d s))"
  proof (cases "cb_overflow ?r = 0")
    case True
    then show ?thesis using ok sum pos r by (simp add: absorb_overflow_def app buffers_ok_def)
  next
    case False
    then show ?thesis
      using ok sum discard_pending_positive [OF pos, of "cb_overflow ?r"] r
      by (simp add: absorb_overflow_def app buffers_ok_def discardPendingBytes_def Let_def)
  qed
qed

text \<open>Whatever the mode, one call of \<open>processData\<close> keeps the reader well formed.\<close>

lemma readers_ok:
  assumes "reader_ok s"
  shows "reader_ok (readEndDelimitedFrames now s)" "reader_ok (readStartDelimitedFrames now s)"
    "reader_ok (readStartEndDelimitedFrames now s)" "reader_ok (readFixedLengthFrames now s)"
proof -
  show "reader_ok (readEndDelimitedFrames now s)"
    using assms by (auto simp: readEndDelimitedFrames_def intro: end_loop.loop_ok)
  show "reader_ok (readStartDelimitedFrames now s)"
    using assms by (auto simp: readStartDelimitedFrames_def starts_ok_def intro: start_loop.loop_ok)
  show "reader_ok (readStartEndDelimitedFrames now s)"
    using assms by (auto simp: readStartEndDelimitedFrames_def both_ok_def intro: start_end_loop.loop_ok)
  show "reader_ok (readFixedLengthFrames now s)"
    using assms by (auto simp: readFixedLengthFrames_def fixed_ready_def Let_def
        intro: fixed_loop.loop_ok reader_ok_consume)
qed

lemma buffers_ok_bytesIn: "reader_ok (s\<lparr>fr_bytesIn := n\<rparr>) = reader_ok s"
  by (simp add: reader_ok_def buffers_ok_def config_ok_def)

lemma reader_ok_offer: "reader_ok s \<Longrightarrow> reader_ok (offer now d s)"
  using offer_ok config_ok_cong [of "offer now d s" s] by (simp add: reader_ok_def)

lemma reader_ok_receive:
  "reader_ok s \<Longrightarrow> cd_data d \<noteq> [] \<Longrightarrow> reader_ok (absorb_overflow now (appendChunk d s))"
  using receive_ok [of s d now] config_ok_cong [of "absorb_overflow now (appendChunk d s)" s]
  by (simp add: reader_ok_def)

lemma processData_ok: "reader_ok s \<Longrightarrow> reader_ok (snd (processData now d s))"
  by (auto simp: processData_def Let_def buffers_ok_bytesIn reader_ok_offer readers_ok reader_ok_receive
      split: operation_mode.split frame_detection.split)

lemma new_reader_ok: "reader_ok (new_reader now qcap)"
proof -
  have "ring_ok (new_ring (1024 * 1024))" by (rule new_ring_ok) simp
  moreover have "ring_size (new_ring (1024 * 1024)) = 0"
    using length_contents [of "new_ring (1024 * 1024)"] new_ring_empty by simp
  moreover have "cb_overflow (new_ring n) = 0" for n by (simp add: new_ring_def Let_def)
  ultimately show ?thesis
    by (simp add: reader_ok_def buffers_ok_def config_ok_def checksum_fits_def new_reader_def)
qed

section \<open>Reconfiguration\<close>

lemma checksumFunctionMap_length:
  "map_of checksumFunctionMap name = Some f \<Longrightarrow> length (f d) = length (f [])"
  using checksum_length [of name d] checksum_length [of name "[]"] by (simp add: checksum_def)

lemma kept_tables: "list_all2 lps_ok ps (map (\<lambda>p. the (computeKMPTable p)) ps)"
proof -
  have "lps_ok p (the (computeKMPTable p))" for p using computeKMPTable_ok [of p] by auto
  then show ?thesis by (simp add: list_all2_conv_all_nth)
qed

lemma setters_ok:
  assumes "reader_ok s"
  shows "reader_ok (setChecksum name s)" "reader_ok (setStartSequences starts s)"
    "reader_ok (setFinishSequences finishes s)" "reader_ok (setOperationMode mode s)"
    "reader_ok (setFixedLength len s)" "reader_ok (setByteRules hm hv bm bv s)"
    "reader_ok (setFrameDetectionMode det s)" "reader_ok (resetDiagnosticCounters s)"
    "reader_ok (snd (take_frame s))"
proof -
  have b: "buffers_ok s" and c: "config_ok s" using assms by (simp_all add: reader_ok_def)
  show "reader_ok (setChecksum name s)"
  proof (cases "map_of checksumFunctionMap name")
    case (Some f)
    have "checksum_fits (Some f) (length (f []))"
      using checksumFunctionMap_length [OF Some] unfolding checksum_fits_def by auto
    then show ?thesis
      using b c Some by (simp add: setChecksum_def reader_ok_def config_ok_def buffers_ok_def)
  next
    case None
    then show ?thesis
      using b c by (simp add: setChecksum_def reader_ok_def config_ok_def buffers_ok_def checksum_fits_def)
  qed
  show "reader_ok (setStartSequences starts s)" "reader_ok (setFinishSequences finishes s)"
    using b c
    by (simp_all add: kept_tables setStartSequences_def setFinishSequences_def reader_ok_def
        config_ok_def buffers_ok_def Let_def)
  have none: "checksum_fits None 0" by (simp add: checksum_fits_def)
  show "reader_ok (setOperationMode mode s)"
    using b c none
    by (cases "mode = ProjectFile")
       (simp_all add: setOperationMode_def reader_ok_def config_ok_def buffers_ok_def)
  show "reader_ok (snd (take_frame s))"
    using b c
    by (cases "fr_queue s") (simp_all add: take_frame_def reader_ok_def config_ok_def buffers_ok_def)
  show "reader_ok (setFixedLength len s)"
    "reader_ok (setByteRules hm hv bm bv s)" "reader_ok (setFrameDetectionMode det s)"
    "reader_ok (resetDiagnosticCounters s)"
    using b c
    by (simp_all add: setFixedLength_def setByteRules_def setFrameDetectionMode_def
        resetDiagnosticCounters_def reader_ok_def config_ok_def buffers_ok_def)
qed

section \<open>End-delimited extraction as a parser\<close>

lemma match_bound:
  "first_of_patterns xs ps = Some (i, k) \<Longrightarrow> i + length (ps ! k) \<le> length xs"
  by (auto dest: first_of_patterns_Some simp: occurs_at_def)

lemma match_shrinks:
  assumes "first_of_patterns xs ps = Some (i, k)" "ps ! k \<noteq> []"
  shows "length (drop (i + length (ps ! k) + n) xs) < length xs"
proof -
  have "0 < length (ps ! k)" using assms(2) by simp
  moreover have "i + length (ps ! k) \<le> length xs" by (rule match_bound [OF assms(1)])
  ultimately show ?thesis unfolding length_drop by linarith
qed

text \<open>
  The reference: cut the bytes at the first delimiter, drop empty frames together with their
  delimiter and checksum field, keep a frame when the field matches, stop when the field is not
  complete. It returns the frames and the bytes left over.
\<close>

function end_parse :: "(bytes \<Rightarrow> bytes) \<Rightarrow> nat \<Rightarrow> bytes list \<Rightarrow> bytes \<Rightarrow> bytes list \<times> bytes" where
  "end_parse tr n ps xs =
     (case first_of_patterns xs ps of
        None \<Rightarrow> ([], xs)
      | Some (i, k) \<Rightarrow>
          if ps ! k = [] then ([], xs)
          else let e = i + length (ps ! k)
               in if i = 0 then end_parse tr n ps (drop (e + n) xs)
                  else if length xs < e + n then ([], xs)
                  else let (fs, rest) = end_parse tr n ps (drop (e + n) xs)
                       in (if slice xs e n = tr (take i xs) then take i xs # fs else fs, rest))"
  by pat_completeness auto

termination
  by (relation "measure (\<lambda>(tr, n, ps, xs). length xs)") (use match_shrinks in fastforce)+

declare end_parse.simps [simp del]

lemma end_loop_parse:
  assumes "reader_ok s" "fr_finishSequences s \<noteq> []" "0 < m" "\<forall>p \<in> set (delimiters s). m \<le> length p"
    and "length (stream s) \<le> n * m"
    and "end_parse (trailer s) (fr_checksumLength s) (delimiters s) (stream s) = (fs, rest)"
    and "length (fr_queue s) + length fs \<le> fr_queueCapacity s"
  shows "stream (bounded_loop n (end_step now) s) = rest
      \<and> frames (bounded_loop n (end_step now) s) = frames s @ fs"
  using assms
proof (induction n arbitrary: s fs)
  case 0
  then have "length (stream s) = 0" by simp
  then have "stream s = []" by (simp only: length_0_conv)
  moreover have "first_of_patterns [] (delimiters s) = None"
    by (simp add: first_of_patterns_def first_idx_def)
  ultimately show ?case using "0.prems"(6) by (simp add: end_parse.simps [of _ _ _ "[]"])
next
  case (Suc n)
  note ok = Suc.prems(1,2)
  have b: "buffers_ok s" using ok(1) by (simp add: reader_ok_def)
  let ?xs = "stream s" and ?n = "fr_checksumLength s"
  note parse = Suc.prems(6) [unfolded end_parse.simps [of _ _ _ ?xs]]
  show ?case
  proof (cases "first_of_patterns ?xs (delimiters s)")
    case None
    then have "end_match s = None" unfolding end_match_spec [OF ok] by simp
    then show ?thesis using parse None by (simp add: end_step_def)
  next
    case (Some ik)
    obtain i k where m: "first_of_patterns ?xs (delimiters s) = Some (i, k)" using Some by (cases ik) simp
    let ?p = "delimiters s ! k"
    have em: "end_match s = Some (i, ?p)" unfolding end_match_spec [OF ok] using m by simp
    note mt = end_match_Some [OF ok em]
    have mp: "m \<le> length ?p" using first_of_patterns_Some [OF m] Suc.prems(4) nth_mem by blast
    let ?e = "i + length ?p"
    have dat: "peekRange 0 i (fr_circularBuffer s) = take i ?xs" using peek_stream [OF b] by simp
    have shrink: "length (drop (?e + ?n) ?xs) \<le> n * m" using Suc.prems(5) mp mt(4) by simp
    have again: "stream (bounded_loop n (end_step now) s') = rest
        \<and> frames (bounded_loop n (end_step now) s') = frames s' @ fs'"
      if s': "reader_ok s'" "config s' = config s" "stream s' = drop (?e + ?n) ?xs"
        and fs': "end_parse (trailer s) ?n (delimiters s) (drop (?e + ?n) ?xs) = (fs', rest)"
        and room: "length (fr_queue s') + length fs' \<le> fr_queueCapacity s" for s' fs'
    proof (rule Suc.IH)
      note c = config_fields [OF s'(2)]
      show "reader_ok s'" "fr_finishSequences s' \<noteq> []" "\<forall>p \<in> set (delimiters s'). m \<le> length p"
        "length (stream s') \<le> n * m"
        using s' ok(2) c Suc.prems(4) shrink by simp_all
      show "end_parse (trailer s') (fr_checksumLength s') (delimiters s') (stream s') = (fs', rest)"
        using fs' s' c config_trailer [OF s'(2)] by simp
      show "length (fr_queue s') + length fs' \<le> fr_queueCapacity s'" using room c by simp
    qed (rule \<open>0 < m\<close>)
    show ?thesis
    proof (cases "i = 0")
      case True
      then have st: "end_step now s = (True, consumeBytes (?e + ?n) s)"
        using em dat by (simp add: end_step_def)
      have "end_parse (trailer s) ?n (delimiters s) (drop (?e + ?n) ?xs) = (fs, rest)"
        using parse m True mt(2) by simp
      then show ?thesis
        using again [of "consumeBytes (?e + ?n) s" fs] reader_ok_consume [OF ok(1)] b Suc.prems(7) st by simp
    next
      case False
      have "0 < length ?xs" using False mt(4) by linarith
      then have "?xs \<noteq> []" unfolding length_greater_0_conv .
      then have ne1: "take i ?xs \<noteq> []" using False unfolding take_eq_Nil by blast
      then have ne: "take i ?xs \<noteq> []" "peekRange 0 i (fr_circularBuffer s) \<noteq> []"
        using ne1 dat by simp_all
      obtain go s' where st: "settle now (take i ?xs) ?e (?e + ?n) (?e + ?n) s = (go, s')" by fastforce
      have step: "end_step now s = (go, s')" using em dat ne(1) st by (simp add: end_step_def Let_def)
      have pos: "?e \<le> length ?xs" by (rule mt(4))
      show ?thesis
        using ok(1) ne(1) pos st
      proof (cases rule: settle_cases)
        case wait
        then show ?thesis using parse m mt(2) False step by simp
      next
        case frame
        obtain fs' r where p': "end_parse (trailer s) ?n (delimiters s) (drop (?e + ?n) ?xs) = (fs', r)"
          by fastforce
        then have fs: "fs = take i ?xs # fs'" "r = rest"
          using parse m mt(2) False frame(1,2) by (auto simp: Let_def split: if_splits)
        have room: "length (fr_queue s) < fr_queueCapacity s" using Suc.prems(7) fs by simp
        have q: "frames s' = frames s @ [take i ?xs]" using frame(7) room by simp
        then have "length (fr_queue s') = Suc (length (fr_queue s))"
          by (metis length_append_singleton length_map)
        then have "length (fr_queue s') + length fs' \<le> fr_queueCapacity s" using Suc.prems(7) fs by simp
        then show ?thesis using again [OF frame(4-6)] p' fs(2) step frame(3) q fs(1) by simp
      next
        case reject
        obtain fs' r where p': "end_parse (trailer s) ?n (delimiters s) (drop (?e + ?n) ?xs) = (fs', r)"
          by fastforce
        then have "fs' = fs" "r = rest"
          using parse m mt(2) False reject(1,2) by (auto simp: Let_def split: if_splits)
        then show ?thesis using again [OF reject(4-6)] p' Suc.prems(7) step reject(3,7) by simp
      qed
    qed
  qed
qed

section \<open>Extraction does not depend on how the stream was cut into chunks\<close>

text \<open>One delimiter and no checksum field.\<close>

definition split_at :: "bytes \<Rightarrow> bytes \<Rightarrow> bytes list \<times> bytes" where
  "split_at p xs = end_parse (\<lambda>d. []) 0 [p] xs"

lemma split_at_unfold:
  "p \<noteq> [] \<Longrightarrow> split_at p xs =
     (case find_pattern xs p 0 of
        None \<Rightarrow> ([], xs)
      | Some i \<Rightarrow> let (fs, rest) = split_at p (drop (i + length p) xs)
                  in (if i = 0 then fs else take i xs # fs, rest))"
proof (cases "find_pattern xs p 0")
  case (Some i)
  assume p: "p \<noteq> []"
  have "i + length p \<le> length xs" using Some by (simp add: find_pattern_Some occurs_at_def)
  then show ?thesis
    using Some p unfolding split_at_def
    by (subst end_parse.simps) (auto simp: first_of_single split: prod.split)
qed (simp add: split_at_def end_parse.simps [of _ _ _ xs] first_of_single)

lemma split_at_induct [consumes 1, case_names none some]:
  assumes "p \<noteq> []" and "\<And>xs. find_pattern xs p 0 = None \<Longrightarrow> P xs"
    and "\<And>xs i. find_pattern xs p 0 = Some i \<Longrightarrow> P (drop (i + length p) xs) \<Longrightarrow> P xs"
  shows "P xs"
proof (induction "length xs" arbitrary: xs rule: less_induct)
  case less
  show ?case
  proof (cases "find_pattern xs p 0")
    case (Some i)
    then have "i + length p \<le> length xs" by (simp add: find_pattern_Some occurs_at_def)
    moreover have "0 < length p" using assms(1) by simp
    ultimately have "length (drop (i + length p) xs) < length xs" unfolding length_drop by linarith
    then show ?thesis using assms(3) Some less by blast
  qed (rule assms(2))
qed

lemma occurs_at_append:
  "occurs_at xs p i \<Longrightarrow> occurs_at (xs @ ys) p i"
  "occurs_at (xs @ ys) p i \<Longrightarrow> i + length p \<le> length xs \<Longrightarrow> occurs_at xs p i"
  by (auto simp: occurs_at_iff nth_append)

lemma find_pattern_append:
  "find_pattern xs p 0 = Some i \<Longrightarrow> find_pattern (xs @ ys) p 0 = Some i"
proof -
  assume f: "find_pattern xs p 0 = Some i"
  have "\<not> occurs_at (xs @ ys) p k" if "k < i" for k
  proof
    assume "occurs_at (xs @ ys) p k"
    moreover have "k + length p \<le> length xs" using f that by (simp add: find_pattern_Some occurs_at_def)
    ultimately have "occurs_at xs p k" by (rule occurs_at_append(2))
    then show False using f that by (simp add: find_pattern_Some)
  qed
  then show ?thesis using f occurs_at_append(1) by (simp add: find_pattern_Some)
qed

lemma split_at_append:
  assumes p: "p \<noteq> []"
  shows "split_at p xs = (fs, r) \<Longrightarrow> split_at p (r @ ys) = (gs, r') \<Longrightarrow>
    split_at p (xs @ ys) = (fs @ gs, r')"
proof (induction xs arbitrary: fs rule: split_at_induct [OF p, case_names none some])
  case (none xs)
  then show ?case using split_at_unfold [OF p, of xs] by simp
next
  case (some xs i)
  obtain fs' r0 where s: "split_at p (drop (i + length p) xs) = (fs', r0)" by fastforce
  have le: "i + length p \<le> length xs" using some(1) by (simp add: find_pattern_Some occurs_at_def)
  have r0: "r0 = r" "fs = (if i = 0 then fs' else take i xs # fs')"
    using some.prems(1) split_at_unfold [OF p, of xs] some(1) s by auto
  have "split_at p (drop (i + length p) xs @ ys) = (fs' @ gs, r')"
    using some(2) s r0(1) some.prems(2) by blast
  then show ?case
    using split_at_unfold [OF p, of "xs @ ys"] find_pattern_append [OF some(1), of ys] le r0(2) by simp
qed

lemma split_at_rest:
  assumes p: "p \<noteq> []"
  shows "split_at p xs = (fs, r) \<Longrightarrow> split_at p r = ([], r)"
proof (induction xs arbitrary: fs rule: split_at_induct [OF p, case_names none some])
  case (none xs)
  then show ?case using split_at_unfold [OF p, of xs] by simp
next
  case (some xs i)
  then show ?case using split_at_unfold [OF p, of xs] by (auto split: prod.splits)
qed

lemma split_at_length:
  assumes p: "p \<noteq> []"
  shows "split_at p xs = (fs, r) \<Longrightarrow> length fs + length r \<le> length xs"
proof (induction xs arbitrary: fs rule: split_at_induct [OF p, case_names none some])
  case (none xs)
  then show ?case using split_at_unfold [OF p, of xs] by simp
next
  case (some xs i)
  obtain fs' r0 where s: "split_at p (drop (i + length p) xs) = (fs', r0)" by fastforce
  have r0: "r0 = r" "length fs \<le> Suc (length fs')"
    using some split_at_unfold [OF p, of xs] s by auto
  have "i + length p \<le> length xs" "0 < length p"
    using some(1) p by (auto simp: find_pattern_Some occurs_at_def)
  moreover have "length fs' + length r0 \<le> length xs - (i + length p)" using some(2) s r0(1) by simp
  moreover have "length r0 = length r" using r0(1) by simp
  ultimately show ?case using r0(2) by linarith
qed

text \<open>The modes that look for end delimiters.\<close>

definition end_mode :: "frame_reader \<Rightarrow> bool" where
  "end_mode s \<longleftrightarrow> fr_finishSequences s \<noteq> []
     \<and> (fr_operationMode s = QuickPlot
        \<or> fr_operationMode s = ProjectFile \<and> fr_frameDetectionMode s = EndDelimiterOnly)"

text \<open>
  One call in such a mode is the reference parser run on the buffered bytes with the chunk appended,
  as long as the ring and the queue take everything and the call does not hit its loop limit.
\<close>

lemma end_chunk:
  fixes now :: int
  assumes ok: "reader_ok s" and mode: "end_mode s" and d: "cd_data d \<noteq> []"
    and m: "0 < m" "\<forall>p \<in> set (delimiters s). m \<le> length p"
    and size: "length (stream s) + length (cd_data d) < cb_capacity (fr_circularBuffer s)"
      "length (stream s) + length (cd_data d) \<le> kMaxFramesPerCall * m"
    and parse: "end_parse (trailer s) (fr_checksumLength s) (delimiters s) (stream s @ cd_data d) = (fs, rest)"
    and room: "length (fr_queue s) + length fs \<le> fr_queueCapacity s"
  defines "s' \<equiv> snd (processData now d s)"
  shows "reader_ok s'" "config s' = config s" "stream s' = rest" "frames s' = frames s @ fs"
proof -
  let ?s0 = "s\<lparr>fr_bytesIn := fr_bytesIn s + length (cd_data d)\<rparr>"
  let ?s1 = "absorb_overflow now (appendChunk d ?s0)"
  have ok0: "reader_ok ?s0" using ok by (simp add: buffers_ok_bytesIn)
  then have b0: "buffers_ok ?s0" by (simp add: reader_ok_def)
  note rc = receive_ok [OF b0 d, of now]
  have ok1: "reader_ok ?s1" using ok0 d by (rule reader_ok_receive)
  have c1: "config ?s1 = config s" using rc(2) by (simp add: config_def)
  note c = config_fields [OF c1]
  have mode1: "fr_finishSequences ?s1 \<noteq> []" using mode c by (simp add: end_mode_def)
  have str: "stream ?s1 = stream s @ cd_data d"
    using rc(4) size(1) by (simp add: usable_capacity_def)
  have go: "s' = bounded_loop kMaxFramesPerCall (end_step now) ?s1"
  proof -
    have cap: "cb_capacity (fr_circularBuffer ?s1) \<noteq> 0" using c size(1) by simp
    have "s' = readEndDelimitedFrames now ?s1"
      using mode d c
      by (auto simp: s'_def processData_def Let_def end_mode_def split: operation_mode.split
          frame_detection.split)
    also have "\<dots> = bounded_loop kMaxFramesPerCall (end_step now) ?s1"
      using mode c cap by (auto simp: readEndDelimitedFrames_def end_mode_def)
    finally show ?thesis .
  qed
  have prog: "progress (end_frame ?s1) ?s1 s'"
    unfolding go using ok1 mode1 by (rule end_loop.loop_progress)
  then show "config s' = config s" using c1 by (simp add: progress_def)
  show "reader_ok s'" using prog ok1 by (rule progress_reader_ok)
  have "stream s' = rest \<and> frames s' = frames ?s1 @ fs"
    unfolding go
  proof (rule end_loop_parse [OF ok1 mode1 m(1)])
    show "\<forall>q \<in> set (delimiters ?s1). m \<le> length q" using m(2) c by simp
    show "length (stream ?s1) \<le> kMaxFramesPerCall * m" unfolding str using size(2) by simp
    show "end_parse (trailer ?s1) (fr_checksumLength ?s1) (delimiters ?s1) (stream ?s1) = (fs, rest)"
      using parse c config_trailer [OF c1] str by simp
    show "length (fr_queue ?s1) + length fs \<le> fr_queueCapacity ?s1" using room rc(3) c by simp
  qed
  then show "stream s' = rest" "frames s' = frames s @ fs" using rc(3) by simp_all
qed

text \<open>One end delimiter and no checksum field.\<close>

definition line_mode :: "bytes \<Rightarrow> frame_reader \<Rightarrow> bool" where
  "line_mode p s \<longleftrightarrow> end_mode s \<and> fr_finishSequences s = [p] \<and> fr_checksumLength s = 0"

lemma line_chunk:
  fixes now :: int
  assumes ok: "reader_ok s" and line: "line_mode p s" and d: "cd_data d \<noteq> []"
    and size: "length (stream s) + length (cd_data d) < cb_capacity (fr_circularBuffer s)"
      "length (stream s) + length (cd_data d) \<le> kMaxFramesPerCall * length p"
    and room: "length (fr_queue s) + length fs \<le> fr_queueCapacity s"
    and split: "split_at p (stream s @ cd_data d) = (fs, rest)"
  defines "s' \<equiv> snd (processData now d s)"
  shows "reader_ok s'" "line_mode p s'" "stream s' = rest" "frames s' = frames s @ fs"
    "cb_capacity (fr_circularBuffer s') = cb_capacity (fr_circularBuffer s)"
    "fr_queueCapacity s' = fr_queueCapacity s"
proof -
  have p: "p \<noteq> []" using ok line by (auto simp: reader_ok_def config_ok_def line_mode_def)
  have del: "delimiters s = [p]" using line by (simp add: line_mode_def kMaxPatterns_def)
  have tr: "trailer s = (\<lambda>d. [])"
    using trailer_length [of s] ok line by (auto simp: reader_ok_def line_mode_def fun_eq_iff)
  have parse: "end_parse (trailer s) (fr_checksumLength s) (delimiters s) (stream s @ cd_data d) = (fs, rest)"
    using split line tr del by (simp add: split_at_def line_mode_def)
  have m: "0 < length p" "\<forall>q \<in> set (delimiters s). length p \<le> length q" using p del by simp_all
  have mode: "end_mode s" using line by (simp add: line_mode_def)
  note e = end_chunk [OF ok mode d m size parse room, of now, folded s'_def]
  show "reader_ok s'" "stream s' = rest" "frames s' = frames s @ fs" by (fact e)+
  show "line_mode p s'" "cb_capacity (fr_circularBuffer s') = cb_capacity (fr_circularBuffer s)"
    "fr_queueCapacity s' = fr_queueCapacity s"
    using line config_fields [OF e(2)] by (simp_all add: line_mode_def end_mode_def)
qed

text \<open>Feeding a sequence of timed chunks.\<close>

definition feed :: "(int \<times> captured) list \<Rightarrow> frame_reader \<Rightarrow> frame_reader" where
  "feed cs s = fold (\<lambda>(now, d) s. snd (processData now d s)) cs s"

definition payload_of :: "(int \<times> captured) list \<Rightarrow> bytes" where
  "payload_of cs = concat (map (cd_data \<circ> snd) cs)"

lemma feed_simps [simp]:
  "feed [] s = s" "feed ((now, d) # cs) s = feed cs (snd (processData now d s))"
  "payload_of [] = []" "payload_of ((now, d) # cs) = cd_data d @ payload_of cs"
  by (simp_all add: feed_def payload_of_def)

text \<open>Each chunk, with the unfinished piece before it, fits into the ring and keeps the call below its limit
of loop rounds, each of which takes at least a delimiter.\<close>

definition chunks_fit :: "bytes \<Rightarrow> nat \<Rightarrow> bytes \<Rightarrow> (int \<times> captured) list \<Rightarrow> bool" where
  "chunks_fit p capacity pending cs \<longleftrightarrow> (\<forall>k < length cs.
     length (snd (split_at p (pending @ payload_of (take k cs)))) + length (cd_data (snd (cs ! k)))
       < min capacity (Suc (kMaxFramesPerCall * length p)))"

lemma feed_line:
  assumes "reader_ok s" "line_mode p s" "split_at p (stream s) = ([], stream s)"
    and "chunks_fit p (cb_capacity (fr_circularBuffer s)) (stream s) cs"
  shows "split_at p (stream s @ payload_of cs) = (fs, rest) \<Longrightarrow>
     length (fr_queue s) + length fs \<le> fr_queueCapacity s \<Longrightarrow>
     frames (feed cs s) = frames s @ fs \<and> stream (feed cs s) = rest"
  using assms
proof (induction cs arbitrary: s fs rest)
  case Nil
  then show ?case by simp
next
  case (Cons c cs)
  obtain now d where c: "c = (now, d)" by (cases c)
  have p: "p \<noteq> []" using Cons.prems(3,4) by (auto simp: reader_ok_def config_ok_def line_mode_def)
  have later: "length (snd (split_at p (stream s @ cd_data d @ payload_of (take k cs)))) + length (cd_data (snd (cs ! k)))
      < min (cb_capacity (fr_circularBuffer s)) (Suc (kMaxFramesPerCall * length p))" if "k < length cs" for k
    using Cons.prems(6) that unfolding chunks_fit_def c by (auto dest: spec[of _ "Suc k"])
  obtain f1 r1 where s1: "split_at p (stream s @ cd_data d) = (f1, r1)" by fastforce
  have rest_of: "split_at p (stream s @ cd_data d @ payload_of xs)
      = (f1 @ fst (split_at p (r1 @ payload_of xs)), snd (split_at p (r1 @ payload_of xs)))" for xs
    using split_at_append [OF p s1, of "payload_of xs"] by (cases "split_at p (r1 @ payload_of xs)") simp
  show ?case
  proof (cases "cd_data d = []")
    case True
    have "chunks_fit p (cb_capacity (fr_circularBuffer s)) (stream s) cs"
      using later True unfolding chunks_fit_def by simp
    then show ?thesis using Cons.IH [of s fs rest] Cons.prems c True by (simp add: processData_def)
  next
    case False
    obtain f2 r2 where s2: "split_at p (r1 @ payload_of cs) = (f2, r2)" by fastforce
    have all: "fs = f1 @ f2" "rest = r2"
      using rest_of[of cs] s2 Cons.prems(1) c by simp_all
    have "length (snd (split_at p (stream s))) + length (cd_data d)
        < min (cb_capacity (fr_circularBuffer s)) (Suc (kMaxFramesPerCall * length p))"
      using Cons.prems(6) unfolding chunks_fit_def c by (auto dest: spec[of _ 0])
    then have size: "length (stream s) + length (cd_data d) < cb_capacity (fr_circularBuffer s)"
      "length (stream s) + length (cd_data d) \<le> kMaxFramesPerCall * length p"
      using Cons.prems(5) by simp_all
    have room: "length (fr_queue s) + length f1 \<le> fr_queueCapacity s" using Cons.prems(2) all(1) by simp
    note n = line_chunk [OF Cons.prems(3,4) False size room s1, of now]
    let ?s = "snd (processData now d s)"
    have q: "length (fr_queue ?s) = length (fr_queue s) + length f1"
      using arg_cong [OF n(4), of length] by simp
    have fit: "chunks_fit p (cb_capacity (fr_circularBuffer ?s)) (stream ?s) cs"
      using later rest_of unfolding chunks_fit_def n(3,5) by simp
    have "frames (feed cs ?s) = frames ?s @ f2 \<and> stream (feed cs ?s) = r2"
    proof (rule Cons.IH)
      show "split_at p (stream ?s @ payload_of cs) = (f2, r2)" using s2 n(3) by simp
      show "length (fr_queue ?s) + length f2 \<le> fr_queueCapacity ?s" using q n(6) Cons.prems(2) all(1) by simp
      show "split_at p (stream ?s) = ([], stream ?s)" using split_at_rest [OF p s1] n(3) by simp
    qed (use n fit in simp_all)
    then show ?thesis using all c n(4) by simp
  qed
qed

section \<open>Equal start and end delimiters\<close>

text \<open>
  When the two delimiters of the start-and-end mode are the same byte string, the first end match is
  also the first start match, so every match is skipped.
\<close>

lemma same_delimiters_step:
  assumes ok: "reader_ok s" and st: "both_ok s" and eq: "hd (fr_startSequences s) = hd (fr_finishSequences s)"
  shows "fr_queue (snd (start_end_step now s)) = fr_queue s"
proof -
  have "scan s (fr_startSequences s ! 0) (fr_startSequenceLps s ! 0) 0
      = scan s (fr_finishSequences s ! 0) (fr_finishSequenceLps s ! 0) 0"
    using scan_start [OF ok, of 0 0] scan_finish [OF ok, of 0 0] st eq
    by (simp add: both_ok_def hd_conv_nth)
  then show ?thesis by (simp add: start_end_step_def Let_def split: option.split)
qed

lemma same_delimiters_loop:
  "reader_ok s \<Longrightarrow> both_ok s \<Longrightarrow> hd (fr_startSequences s) = hd (fr_finishSequences s) \<Longrightarrow>
   fr_queue (bounded_loop n (start_end_step now) s) = fr_queue s"
proof (induction n arbitrary: s)
  case (Suc n)
  obtain go s' where st: "start_end_step now s = (go, s')" by fastforce
  have p: "progress (start_end_frame s) s s'" using start_end_step_progress [OF Suc.prems(1,2), of now] st by simp
  then have c: "config s' = config s" by (simp add: progress_def)
  have "fr_queue (bounded_loop n (start_end_step now) s') = fr_queue s'"
    using progress_reader_ok [OF p Suc.prems(1)] Suc.prems config_fields [OF c]
    by (intro Suc.IH) (simp_all add: both_ok_def)
  moreover have "fr_queue s' = fr_queue s" using same_delimiters_step [OF Suc.prems, of now] st by simp
  ultimately show ?case using st by (cases go) simp_all
qed simp

section \<open>Runs of the reader\<close>

text \<open>The calls the device manager and the frame builder make on a reader.\<close>

inductive reader_step :: "frame_reader \<Rightarrow> frame_reader \<Rightarrow> bool" where
  on_data: "reader_step s (snd (processData now d s))"
| on_take: "reader_step s (snd (take_frame s))"
| on_checksum: "reader_step s (setChecksum name s)"
| on_starts: "reader_step s (setStartSequences starts s)"
| on_finishes: "reader_step s (setFinishSequences finishes s)"
| on_mode: "reader_step s (setOperationMode mode s)"
| on_length: "reader_step s (setFixedLength len s)"
| on_rules: "reader_step s (setByteRules hm hv bm bv s)"
| on_detection: "reader_step s (setFrameDetectionMode det s)"
| on_reset: "reader_step s (resetDiagnosticCounters s)"

inductive_cases reader_step_cases: "reader_step s s'"

lemma reader_step_ok: "\<lbrakk>reader_step s s'; reader_ok s\<rbrakk> \<Longrightarrow> reader_ok s'"
  by (induction rule: reader_step.induct) (simp_all add: processData_ok setters_ok)

lemma reader_run_ok: "\<lbrakk>reader_step\<^sup>*\<^sup>* s s'; reader_ok s\<rbrakk> \<Longrightarrow> reader_ok s'"
  by (induction rule: rtranclp_induct) (auto intro: reader_step_ok)

lemma end_mode_frames:
  assumes ok: "reader_ok s" and mode: "end_mode s" and d: "cd_data d \<noteq> []"
  shows "\<exists>new. frames (snd (processData now d s)) = frames s @ new
    \<and> (\<forall>dat \<in> set new. dat \<noteq> [] \<and> (\<exists>p \<in> set (fr_finishSequences s).
         sublist (dat @ p @ trailer s dat) (stream s @ cd_data d)))"
proof -
  let ?s0 = "s\<lparr>fr_bytesIn := fr_bytesIn s + length (cd_data d)\<rparr>"
  let ?s1 = "absorb_overflow now (appendChunk d ?s0)"
  have ok0: "reader_ok ?s0" using ok by (simp add: buffers_ok_bytesIn)
  then have b0: "buffers_ok ?s0" by (simp add: reader_ok_def)
  note rc = receive_ok [OF b0 d, of now]
  have ok1: "reader_ok ?s1" using ok0 d by (rule reader_ok_receive)
  have c: "config ?s1 = config s" using rc(2) by (simp add: config_def)
  note f = config_fields [OF c]
  have run: "snd (processData now d s) = bounded_loop kMaxFramesPerCall (end_step now) ?s1
      \<or> snd (processData now d s) = ?s1"
    using mode d f by (auto simp: processData_def Let_def end_mode_def readEndDelimitedFrames_def)
  have "fr_finishSequences ?s1 \<noteq> []" using mode f by (simp add: end_mode_def)
  from end_loop.loop_progress [OF ok1 this]
  have "progress (end_frame ?s1) ?s1 (snd (processData now d s))"
    using run ok1 by (auto simp: reader_ok_def intro: progress_refl)
  then obtain new where new: "fr_queue (snd (processData now d s)) = fr_queue ?s1 @ new"
    "\<forall>x \<in> set new. end_frame ?s1 (cd_data x)" by (auto simp: progress_def)
  have "sublist (stream ?s1) (stream s @ cd_data d)"
    using rc(4) by (simp add: take_last_def del: drop_append)
  then have "end_frame ?s1 dat \<Longrightarrow> dat \<noteq> [] \<and> (\<exists>p \<in> set (fr_finishSequences s).
         sublist (dat @ p @ trailer s dat) (stream s @ cd_data d))" for dat
    using f(2) config_trailer [OF c] by (auto simp: end_frame_def intro: sublist_order.order.trans)
  then show ?thesis using new rc(3) by (intro exI[of _ "map cd_data new"]) auto
qed

text \<open>Readers used as examples: text lines, in quick-plot mode.\<close>

definition line_reader :: "bytes \<Rightarrow> frame_reader" where
  "line_reader p = setFinishSequences [p] (new_reader 0 8)"

definition chunk :: "bytes \<Rightarrow> captured" where
  "chunk xs = \<lparr>cd_data = xs, cd_timestamp = 0, cd_frameStep = 1, cd_logicalFramesHint = 1\<rparr>"

lemma line_reader_ok:
  "reader_ok (line_reader p)" "p \<noteq> [] \<Longrightarrow> line_mode p (line_reader p)" "stream (line_reader p) = []"
  "fr_queue (line_reader p) = []" "fr_queueCapacity (line_reader p) = 8"
  "cb_capacity (fr_circularBuffer (line_reader p)) = roundUpToPowerOfTwo (1024 * 1024)"
  using setters_ok(3) [OF new_reader_ok, of "[p]" 0 8] new_ring_empty
  by (simp_all add: line_reader_def setFinishSequences_def new_reader_def line_mode_def end_mode_def
      new_ring_def Let_def)

section \<open>Properties\<close>

text \<open>Whatever the order of configuration, arriving chunks and taken frames, the reader stays
well formed: its ring and timing records agree on the bytes that are waiting, the queue stays within
its capacity, and the search tables belong to the configured delimiters.\<close>

theorem reader_runs_ok:
  assumes "reader_step\<^sup>*\<^sup>* (new_reader t n) s"
  shows "reader_ok s"
  using assms new_reader_ok by (rule reader_run_ok)

theorem reader_runs_ok_witness: "reader_ok (setFinishSequences [[10]] (new_reader 0 8))"
  by (rule reader_runs_ok) (rule r_into_rtranclp, rule on_finishes)

text \<open>C26: In end-delimiter mode every frame that a chunk adds to the queue is nonempty and stands on
the wire followed by a delimiter and by its own checksum; no frame is invented or altered, and no
frame with a wrong checksum is delivered.\<close>

theorem delivered_frames_on_wire:
  assumes "reader_ok s" and "end_mode s" and "cd_data d \<noteq> []"
  shows "\<exists>new. frames (snd (processData now d s)) = frames s @ new
    \<and> (\<forall>dat \<in> set new. dat \<noteq> [] \<and> (\<exists>p \<in> set (fr_finishSequences s).
         sublist (dat @ p @ trailer s dat) (stream s @ cd_data d)))"
  using assms by (rule end_mode_frames)

theorem delivered_frames_on_wire_witness:
  "\<exists>new. frames (snd (processData 5 (chunk [97, 10]) (line_reader [10])))
    = frames (line_reader [10]) @ new"
  using delivered_frames_on_wire[of "line_reader [10]" "chunk [97, 10]" 5] line_reader_ok[of "[10]"]
  by (auto simp: line_mode_def chunk_def)

text \<open>C27: With one end delimiter and without checksum, the frames extracted from a stream do not depend on how
the stream is cut into chunks: they are the nonempty pieces between delimiters, in order, and the unfinished piece
stays buffered.  The stream may be of any length; every chunk, with the unfinished piece before it, is shorter
than the ring and no longer than 32768 delimiters (the limit of loop rounds of one call: 32 KiB for a line feed),
and the queue has room for the frames, as nothing takes them meanwhile.\<close>

theorem chunks_do_not_matter:
  assumes "reader_ok s" and "line_mode p s" and "split_at p (stream s) = ([], stream s)"
    and "chunks_fit p (cb_capacity (fr_circularBuffer s)) (stream s) cs"
    and "length (fr_queue s) + length (fst (split_at p (stream s @ payload_of cs))) \<le> fr_queueCapacity s"
  shows "frames (feed cs s) = frames s @ fst (split_at p (stream s @ payload_of cs))
    \<and> stream (feed cs s) = snd (split_at p (stream s @ payload_of cs))"
  using feed_line [OF assms(1-4)] assms(5) by (cases "split_at p (stream s @ payload_of cs)") simp

theorem chunks_do_not_matter_witness:
  "frames (feed [(0, chunk [97, 98]), (1, chunk [10, 99])] (line_reader [10])) = [[97, 98]]"
proof -
  have sp: "split_at [10] [97, 98, 10, 99] = ([[97, 98]], [99])"
    and "split_at [10] [] = ([], [])" and "split_at [10] [97, 98] = ([], [97, 98])"
    by (simp_all add: split_at_def, code_simp+)
  moreover have "4 < roundUpToPowerOfTwo (1024 * 1024)"
    using roundUp_ge(1)[of "1024 * 1024"] by simp
  ultimately show ?thesis
    using chunks_do_not_matter[of "line_reader [10]" "[10]" "[(0, chunk [97, 98]), (1, chunk [10, 99])]"]
      line_reader_ok[of "[10]"]
    by (simp add: chunk_def kMaxFramesPerCall_def chunks_fit_def less_Suc_eq numeral_2_eq_2)
qed

text \<open>In start-and-end mode a reader whose two delimiters are the same byte string never
delivers a frame.\<close>

theorem same_delimiters_starve:
  assumes "reader_ok s" and "fr_startSequences s = [p]" and "fr_finishSequences s = [p]"
  shows "fr_queue (readStartEndDelimitedFrames now s) = fr_queue s"
  using assms same_delimiters_loop[of s]
  by (simp add: readStartEndDelimitedFrames_def both_ok_def)

theorem same_delimiters_starve_witness:
  "fr_queue (readStartEndDelimitedFrames 0 (setStartSequences [[10]] (line_reader [10]))) = []"
  using same_delimiters_starve[of "setStartSequences [[10]] (line_reader [10])" "[10]" 0]
    setters_ok(2)[OF line_reader_ok(1), of "[[10]]" "[10]"] line_reader_ok(4)
  by (simp add: setStartSequences_def line_reader_def setFinishSequences_def Let_def)

end
