(* ===== verification/Iec104_Apci.thy ===== *)
theory Iec104_Apci
  imports Prelude
begin

unbundle bit_operations_syntax

text \<open>
  The APCI transport layer of the IEC 60870-5-104 driver (\<open>core/Protocols/Iec104/Apci.cpp\<close>): the
  15-bit sequence numbers, the \<open>k\<close> and \<open>w\<close> windows and the \<open>t1/t2/t3\<close> deadlines against an external
  millisecond clock. Counters and clocks are integers; \<open>-1\<close> is the code's mark for a deadline that is
  not armed.
\<close>

section \<open>Data\<close>

definition kStartByte :: byte where "kStartByte = 0x68"
definition kControlBytes :: nat where "kControlBytes = 4"
definition kApciBytes :: nat where "kApciBytes = 6"
definition kMinApduLength :: nat where "kMinApduLength = 4"
definition kMaxApduLength :: nat where "kMaxApduLength = 253"
definition kMaxAsduBytes :: nat where "kMaxAsduBytes = kMaxApduLength - kControlBytes"
definition kSequenceModulo :: int where "kSequenceModulo = 32768"
definition kMinWindow :: int where "kMinWindow = 1"
definition kMaxWindow :: int where "kMaxWindow = 32767"
definition kMinTimeMs :: int where "kMinTimeMs = 1000"
definition kMaxTimeMs :: int where "kMaxTimeMs = 255000"
definition kNotArmed :: int where "kNotArmed = -1"

lemmas apci_constants = kStartByte_def kControlBytes_def kApciBytes_def kMinApduLength_def
  kMaxApduLength_def kMaxAsduBytes_def kSequenceModulo_def kMinWindow_def kMaxWindow_def
  kMinTimeMs_def kMaxTimeMs_def kNotArmed_def

datatype frame_type = Information | Supervisory | Unnumbered | Invalid

datatype u_function = UNone | StartDtAct | StartDtCon | StopDtAct | StopDtCon | TestFrAct | TestFrCon

fun u_code :: "u_function \<Rightarrow> byte" where
  "u_code UNone = 0x00"
| "u_code StartDtAct = 0x07"
| "u_code StartDtCon = 0x0B"
| "u_code StopDtAct = 0x13"
| "u_code StopDtCon = 0x23"
| "u_code TestFrAct = 0x43"
| "u_code TestFrCon = 0x83"

datatype parse_result = Ok | NeedMore | OutOfOrder | Malformed

record apdu =
  ad_type :: frame_type
  ad_function :: u_function
  ad_sendSeq :: int
  ad_recvSeq :: int
  ad_apduSize :: nat
  ad_asduOffset :: nat
  ad_asduSize :: nat

definition blank_apdu :: apdu where
  "blank_apdu = \<lparr>ad_type = Invalid, ad_function = UNone, ad_sendSeq = 0, ad_recvSeq = 0,
     ad_apduSize = 0, ad_asduOffset = 0, ad_asduSize = 0\<rparr>"

record connection =
  ap_k :: int
  ap_w :: int
  ap_t1 :: int
  ap_t2 :: int
  ap_t3 :: int
  ap_sendSeq :: int
  ap_recvSeq :: int
  ap_ackedSeq :: int
  ap_unackedRx :: int
  ap_lastTrafficMs :: int
  ap_firstUnackedRxMs :: int
  ap_sendPendingMs :: int
  ap_controlPendingMs :: int
  ap_malformed :: nat
  ap_sequenceErrors :: nat
  ap_framesSent :: nat
  ap_framesReceived :: nat

section \<open>Construction and inspection\<close>

definition new_connection :: connection where
  "new_connection =
     \<lparr>ap_k = 12, ap_w = 8, ap_t1 = 15000, ap_t2 = 10000, ap_t3 = 20000,
      ap_sendSeq = 0, ap_recvSeq = 0, ap_ackedSeq = 0, ap_unackedRx = 0,
      ap_lastTrafficMs = kNotArmed, ap_firstUnackedRxMs = kNotArmed,
      ap_sendPendingMs = kNotArmed, ap_controlPendingMs = kNotArmed,
      ap_malformed = 0, ap_sequenceErrors = 0, ap_framesSent = 0, ap_framesReceived = 0\<rparr>"

definition apci_reset :: "int \<Rightarrow> connection \<Rightarrow> connection" where
  "apci_reset nowMs c =
     c\<lparr>ap_sendSeq := 0, ap_recvSeq := 0, ap_ackedSeq := 0, ap_unackedRx := 0,
       ap_lastTrafficMs := nowMs, ap_firstUnackedRxMs := kNotArmed,
       ap_sendPendingMs := kNotArmed, ap_controlPendingMs := kNotArmed\<rparr>"

definition qBound :: "int \<Rightarrow> int \<Rightarrow> int \<Rightarrow> int" where
  "qBound lo v hi = max lo (min hi v)"

definition apci_configure :: "int \<Rightarrow> int \<Rightarrow> int \<Rightarrow> int \<Rightarrow> int \<Rightarrow> connection \<Rightarrow> connection" where
  "apci_configure k w t1Ms t2Ms t3Ms c =
     (let k' = qBound kMinWindow k kMaxWindow;
          t1' = qBound kMinTimeMs t1Ms kMaxTimeMs
      in c\<lparr>ap_k := k', ap_w := qBound kMinWindow w k',
           ap_t1 := t1', ap_t2 := qBound kMinTimeMs t2Ms t1',
           ap_t3 := qBound kMinTimeMs t3Ms kMaxTimeMs\<rparr>)"

definition outstanding :: "connection \<Rightarrow> int" where
  "outstanding c = (ap_sendSeq c - ap_ackedSeq c + kSequenceModulo) mod kSequenceModulo"

definition sendWindowOpen :: "connection \<Rightarrow> bool" where
  "sendWindowOpen c \<longleftrightarrow> outstanding c < ap_k c"

definition ackDue :: "int \<Rightarrow> connection \<Rightarrow> bool" where
  "ackDue nowMs c =
     (if ap_unackedRx c \<le> 0 then False
      else if ap_unackedRx c \<ge> ap_w c then True
      else ap_firstUnackedRxMs c \<noteq> kNotArmed \<and> nowMs - ap_firstUnackedRxMs c \<ge> ap_t2 c)"

definition testDue :: "int \<Rightarrow> connection \<Rightarrow> bool" where
  "testDue nowMs c =
     (if ap_lastTrafficMs c = kNotArmed \<or> ap_controlPendingMs c \<noteq> kNotArmed then False
      else nowMs - ap_lastTrafficMs c \<ge> ap_t3 c)"

definition confirmOverdue :: "int \<Rightarrow> connection \<Rightarrow> bool" where
  "confirmOverdue nowMs c =
     (if ap_sendPendingMs c \<noteq> kNotArmed \<and> nowMs - ap_sendPendingMs c \<ge> ap_t1 c then True
      else ap_controlPendingMs c \<noteq> kNotArmed \<and> nowMs - ap_controlPendingMs c \<ge> ap_t1 c)"

fun isConfirmation :: "u_function \<Rightarrow> bool" where
  "isConfirmation f \<longleftrightarrow> f = StartDtCon \<or> f = StopDtCon \<or> f = TestFrCon"

fun confirmationFor :: "u_function \<Rightarrow> u_function" where
  "confirmationFor StartDtAct = StartDtCon"
| "confirmationFor StopDtAct = StopDtCon"
| "confirmationFor TestFrAct = TestFrCon"
| "confirmationFor f = UNone"

fun isKnownFunction :: "u_function \<Rightarrow> bool" where
  "isKnownFunction UNone = False"
| "isKnownFunction f = True"

text \<open>The cast of a control octet to the enumeration, where it names a function.\<close>

definition u_of_byte :: "byte \<Rightarrow> u_function option" where
  "u_of_byte b = find (\<lambda>f. u_code f = b)
     [UNone, StartDtAct, StartDtCon, StopDtAct, StopDtCon, TestFrAct, TestFrCon]"

section \<open>Sequence numbers on the wire\<close>

definition readSequence :: "bytes \<Rightarrow> nat \<Rightarrow> int" where
  "readSequence buffer pos =
     (if \<not> pos + 1 < length buffer then 0
      else (push_bit 7 (uint (buffer ! (pos + 1))) OR drop_bit 1 (uint (buffer ! pos))) AND 0x7FFF)"

definition writeSequence :: "bytes \<Rightarrow> nat \<Rightarrow> int \<Rightarrow> bytes" where
  "writeSequence apdu pos value =
     (if \<not> pos + 1 < length apdu then apdu
      else apdu[pos := word_of_int (push_bit 1 value AND 0xFE),
                pos + 1 := word_of_int (drop_bit 7 value AND 0xFF)])"

section \<open>Encoders\<close>

text \<open>An empty result is an encoder's refusal.\<close>

definition encodeUnnumbered :: "u_function \<Rightarrow> int \<Rightarrow> connection \<Rightarrow> bytes \<times> connection" where
  "encodeUnnumbered f nowMs c =
     (if \<not> isKnownFunction f then ([], c)
      else let apdu = (replicate kApciBytes 0)[0 := kStartByte, 1 := of_nat kMinApduLength, 2 := u_code f];
               c = (if \<not> isConfirmation f \<and> ap_controlPendingMs c = kNotArmed
                    then c\<lparr>ap_controlPendingMs := nowMs\<rparr> else c)
           in (apdu, c\<lparr>ap_lastTrafficMs := nowMs, ap_framesSent := ap_framesSent c + 1\<rparr>))"

definition encodeSupervisory :: "int \<Rightarrow> connection \<Rightarrow> bytes \<times> connection" where
  "encodeSupervisory nowMs c =
     (let apdu = (replicate kApciBytes 0)[0 := kStartByte, 1 := of_nat kMinApduLength, 2 := 0x01]
      in (writeSequence apdu 4 (ap_recvSeq c),
          c\<lparr>ap_unackedRx := 0, ap_firstUnackedRxMs := kNotArmed, ap_lastTrafficMs := nowMs,
            ap_framesSent := ap_framesSent c + 1\<rparr>))"

definition encodeInformation :: "bytes \<Rightarrow> int \<Rightarrow> connection \<Rightarrow> bytes \<times> connection" where
  "encodeInformation asdu nowMs c =
     (if asdu = [] then ([], c)
      else if length asdu > kMaxAsduBytes then ([], c\<lparr>ap_malformed := ap_malformed c + 1\<rparr>)
      else if \<not> sendWindowOpen c then ([], c)
      else let apdu = (replicate kApciBytes 0)[0 := kStartByte, 1 := of_nat (kControlBytes + length asdu)];
               apdu = writeSequence apdu 2 (ap_sendSeq c);
               apdu = writeSequence apdu 4 (ap_recvSeq c);
               apdu = apdu @ asdu;
               c = c\<lparr>ap_sendSeq := (ap_sendSeq c + 1) mod kSequenceModulo\<rparr>;
               c = (if ap_sendPendingMs c = kNotArmed then c\<lparr>ap_sendPendingMs := nowMs\<rparr> else c)
           in (apdu, c\<lparr>ap_unackedRx := 0, ap_firstUnackedRxMs := kNotArmed,
                       ap_lastTrafficMs := nowMs, ap_framesSent := ap_framesSent c + 1\<rparr>))"

section \<open>Decoder\<close>

definition acknowledge :: "int \<Rightarrow> int \<Rightarrow> connection \<Rightarrow> bool \<times> connection" where
  "acknowledge recvSeq nowMs c =
     (if \<not> (recvSeq \<ge> 0 \<and> recvSeq < kSequenceModulo) then (False, c)
      else let pending = outstanding c;
               advance = (recvSeq - ap_ackedSeq c + kSequenceModulo) mod kSequenceModulo
           in if advance > pending then (False, c)
              else let c = c\<lparr>ap_ackedSeq := recvSeq\<rparr>
                   in (True, if outstanding c = 0 then c\<lparr>ap_sendPendingMs := kNotArmed\<rparr>
                             else if advance > 0 then c\<lparr>ap_sendPendingMs := nowMs\<rparr> else c))"

definition noteConfirmation :: "u_function \<Rightarrow> connection \<Rightarrow> connection" where
  "noteConfirmation f c = (if isConfirmation f then c\<lparr>ap_controlPendingMs := kNotArmed\<rparr> else c)"

definition acceptInformation ::
  "bytes \<Rightarrow> apdu \<Rightarrow> int \<Rightarrow> connection \<Rightarrow> parse_result \<times> apdu \<times> connection" where
  "acceptInformation buffer out nowMs c =
     (if \<not> ad_apduSize out \<ge> kApciBytes then (Malformed, out, c)
      else let out = out\<lparr>ad_type := Information, ad_sendSeq := readSequence buffer 2,
                         ad_recvSeq := readSequence buffer 4, ad_asduOffset := kApciBytes,
                         ad_asduSize := ad_apduSize out - kApciBytes\<rparr>
           in if ad_sendSeq out \<noteq> ap_recvSeq c
              then (OutOfOrder, out, c\<lparr>ap_sequenceErrors := ap_sequenceErrors c + 1\<rparr>)
              else case acknowledge (ad_recvSeq out) nowMs c of
                     (False, c) \<Rightarrow> (OutOfOrder, out, c\<lparr>ap_sequenceErrors := ap_sequenceErrors c + 1\<rparr>)
                   | (True, c) \<Rightarrow>
                       let c = c\<lparr>ap_recvSeq := (ap_recvSeq c + 1) mod kSequenceModulo\<rparr>;
                           c = (if ap_unackedRx c = 0 then c\<lparr>ap_firstUnackedRxMs := nowMs\<rparr> else c)
                       in (Ok, out, c\<lparr>ap_unackedRx := ap_unackedRx c + 1\<rparr>))"

definition acceptSupervisory ::
  "bytes \<Rightarrow> apdu \<Rightarrow> int \<Rightarrow> connection \<Rightarrow> parse_result \<times> apdu \<times> connection" where
  "acceptSupervisory buffer out nowMs c =
     (if ad_apduSize out \<noteq> kApciBytes
      then (Malformed, out, c\<lparr>ap_malformed := ap_malformed c + 1\<rparr>)
      else let out = out\<lparr>ad_type := Supervisory, ad_recvSeq := readSequence buffer 4\<rparr>
           in case acknowledge (ad_recvSeq out) nowMs c of
                (False, c) \<Rightarrow> (OutOfOrder, out, c\<lparr>ap_sequenceErrors := ap_sequenceErrors c + 1\<rparr>)
              | (True, c) \<Rightarrow> (Ok, out, c))"

definition acceptUnnumbered :: "bytes \<Rightarrow> apdu \<Rightarrow> connection \<Rightarrow> parse_result \<times> apdu \<times> connection" where
  "acceptUnnumbered buffer out c =
     (if ad_apduSize out \<noteq> kApciBytes
      then (Malformed, out, c\<lparr>ap_malformed := ap_malformed c + 1\<rparr>)
      else case u_of_byte (buffer ! 2) of
             None \<Rightarrow> (Malformed, out, c\<lparr>ap_malformed := ap_malformed c + 1\<rparr>)
           | Some f \<Rightarrow>
               if \<not> isKnownFunction f
               then (Malformed, out, c\<lparr>ap_malformed := ap_malformed c + 1\<rparr>)
               else (Ok, out\<lparr>ad_type := Unnumbered, ad_function := f\<rparr>, noteConfirmation f c))"

definition consume :: "bytes \<Rightarrow> int \<Rightarrow> connection \<Rightarrow> parse_result \<times> apdu \<times> connection" where
  "consume buffer nowMs c =
     (let out = blank_apdu
      in if length buffer < 2 then (NeedMore, out, c)
         else if buffer ! 0 \<noteq> kStartByte
         then (Malformed, out, c\<lparr>ap_malformed := ap_malformed c + 1\<rparr>)
         else let len = unat (buffer ! 1)
              in if len < kMinApduLength \<or> len > kMaxApduLength
                 then (Malformed, out, c\<lparr>ap_malformed := ap_malformed c + 1\<rparr>)
                 else let total = len + 2
                      in if length buffer < total then (NeedMore, out, c)
                         else let out = out\<lparr>ad_apduSize := total\<rparr>;
                                  c = c\<lparr>ap_lastTrafficMs := nowMs,
                                        ap_framesReceived := ap_framesReceived c + 1\<rparr>;
                                  control = buffer ! 2
                              in if control AND 0x01 = 0 then acceptInformation buffer out nowMs c
                                 else if control AND 0x03 = 0x01 then acceptSupervisory buffer out nowMs c
                                 else acceptUnnumbered buffer out c)"

section \<open>Sequence numbers survive the wire\<close>

lemma uint_octet: "0 \<le> x \<Longrightarrow> x < 256 \<Longrightarrow> uint (word_of_int x :: byte) = x"
  by (simp add: uint_word_of_int)

lemma low_octet: "0 \<le> (v :: int) \<Longrightarrow> v < 32768 \<Longrightarrow> push_bit 1 v AND 0xFE = 2 * (v mod 128)"
proof -
  assume "0 \<le> v" "v < (32768 :: int)"
  have "push_bit 1 v AND 0xFE = push_bit 1 v AND push_bit 1 (mask 7)" by (simp add: mask_eq_exp_minus_1)
  also have "\<dots> = push_bit 1 (take_bit 7 v)" by (simp only: push_bit_and take_bit_eq_mask)
  finally show ?thesis by (simp add: take_bit_eq_mod push_bit_eq_mult)
qed

lemma high_octet: "0 \<le> v \<Longrightarrow> v < 32768 \<Longrightarrow> drop_bit 7 v AND 0xFF = v div (128 :: int)"
proof -
  assume v: "0 \<le> v" "v < (32768 :: int)"
  have "drop_bit 7 v AND 0xFF = take_bit 8 (v div 128)"
    by (simp add: take_bit_eq_mask mask_eq_exp_minus_1 drop_bit_eq_div)
  also have "\<dots> = v div 128" using v by (simp add: take_bit_eq_mod)
  finally show ?thesis .
qed

lemma sequence_roundtrip:
  assumes v: "0 \<le> v" "v < 32768" and pos: "pos + 1 < length b"
  shows "readSequence (writeSequence b pos v) pos = v"
proof -
  have r: "0 \<le> v mod 128" "v mod 128 < 128" "0 \<le> v div 128" "v div 128 < 256" using v by auto
  have lo: "uint (word_of_int (2 * (v mod 128)) :: byte) = 2 * (v mod 128)"
    and hi: "uint (word_of_int (v div 128) :: byte) = v div 128"
    by (rule uint_octet; use r in simp)+
  have "(push_bit 7 (v div 128) OR (v mod 128)) = push_bit 7 (v div 128) + v mod 128"
  proof (rule disjunctive_add_eq_or [symmetric])
    have "v mod 128 = take_bit 7 v" by (simp add: take_bit_eq_mod)
    then show "push_bit 7 (v div 128) AND v mod 128 = 0"
      by (intro bit_eqI) (simp only: bit_and_iff bit_push_bit_iff bit_take_bit_iff; simp)
  qed
  also have "\<dots> = v" by (simp add: push_bit_eq_mult)
  finally have e: "push_bit 7 (v div 128) OR (v mod 128) = v" .
  have "v AND 0x7FFF = take_bit 15 v" by (simp add: take_bit_eq_mask mask_eq_exp_minus_1)
  also have "\<dots> = v" using v by (simp add: take_bit_eq_mod)
  finally have m: "v AND 0x7FFF = v" .
  define L :: byte where "L = word_of_int (2 * (v mod 128))"
  define H :: byte where "H = word_of_int (v div 128)"
  have w: "writeSequence b pos v = b[pos := L, pos + 1 := H]"
    unfolding writeSequence_def low_octet [OF v] high_octet [OF v] L_def H_def using pos by simp
  have "readSequence (writeSequence b pos v) pos = (push_bit 7 (uint H) OR drop_bit 1 (uint L)) AND 0x7FFF"
    unfolding readSequence_def w using pos by simp
  also have "\<dots> = (push_bit 7 (v div 128) OR v mod 128) AND 0x7FFF"
    unfolding lo hi L_def H_def by (simp add: drop_bit_eq_div)
  finally show ?thesis unfolding e m .
qed

section \<open>What the encoders put on the wire\<close>

definition header :: "nat \<Rightarrow> byte \<Rightarrow> bytes" where
  "header len control = [kStartByte, of_nat len, control, 0, 0, 0]"

definition i_apdu :: "int \<Rightarrow> int \<Rightarrow> bytes \<Rightarrow> bytes" where
  "i_apdu ns nr d = writeSequence (writeSequence (header (4 + length d) 0) 2 ns) 4 nr @ d"

definition s_apdu :: "int \<Rightarrow> bytes" where
  "s_apdu nr = writeSequence (header 4 0x01) 4 nr"

definition u_apdu :: "u_function \<Rightarrow> bytes" where
  "u_apdu f = header 4 (u_code f)"

lemma length_writeSequence [simp]: "length (writeSequence b pos v) = length b"
  by (simp add: writeSequence_def)

lemma writeSequence_other:
  "i \<noteq> pos \<Longrightarrow> i \<noteq> pos + 1 \<Longrightarrow> writeSequence b pos v ! i = b ! i"
  by (simp add: writeSequence_def)

lemma readSequence_other:
  "pos + 1 < q \<or> q + 1 < pos \<Longrightarrow> readSequence (writeSequence b q v) pos = readSequence b pos"
  by (auto simp: readSequence_def writeSequence_other)

lemma readSequence_append: "pos + 1 < length b \<Longrightarrow> readSequence (b @ d) pos = readSequence b pos"
  by (simp add: readSequence_def nth_append)

lemma blank_header: "replicate kApciBytes (0 :: byte) = [0, 0, 0, 0, 0, 0]"
  by (simp add: kApciBytes_def eval_nat_numeral)

lemma encodeInformation_apdu:
  assumes "d \<noteq> []" "length d \<le> 249" "sendWindowOpen c"
  shows "fst (encodeInformation d t c) = i_apdu (ap_sendSeq c) (ap_recvSeq c) d"
  using assms
  by (simp add: encodeInformation_def blank_header header_def Let_def i_apdu_def kMaxAsduBytes_def
      kMaxApduLength_def kControlBytes_def)

lemma encodeSupervisory_apdu: "fst (encodeSupervisory t c) = s_apdu (ap_recvSeq c)"
  by (simp add: encodeSupervisory_def blank_header header_def s_apdu_def kMinApduLength_def Let_def)

lemma encodeUnnumbered_apdu: "isKnownFunction f \<Longrightarrow> fst (encodeUnnumbered f t c) = u_apdu f"
  by (simp add: encodeUnnumbered_def blank_header header_def u_apdu_def kMinApduLength_def Let_def)

abbreviation touched :: "int \<Rightarrow> connection \<Rightarrow> connection" where
  "touched t c \<equiv> c\<lparr>ap_lastTrafficMs := t, ap_framesReceived := ap_framesReceived c + 1\<rparr>"

lemma low_octet_even: "word_of_int (push_bit 1 v AND 0xFE) AND (1 :: byte) = 0"
  by (rule bit_eqI) (unfold bit_and_iff bit_1_iff bit_word_of_int_iff bit_push_bit_iff, auto)

lemma consume_i_apdu:
  assumes ns: "0 \<le> ns" "ns < 32768" and nr: "0 \<le> nr" "nr < 32768" and d: "length d \<le> 249"
  shows "consume (i_apdu ns nr d) t c = acceptInformation (i_apdu ns nr d)
      (blank_apdu\<lparr>ad_apduSize := 6 + length d\<rparr>) t (touched t c)"
    and "readSequence (i_apdu ns nr d) 2 = ns" "readSequence (i_apdu ns nr d) 4 = nr"
    and "slice (i_apdu ns nr d) 6 (length d) = d"
proof -
  let ?h = "header (4 + length d) 0"
  have h: "length ?h = 6" by (simp add: header_def)
  show "readSequence (i_apdu ns nr d) 2 = ns"
    by (simp add: i_apdu_def readSequence_append readSequence_other h sequence_roundtrip [OF ns])
  show "readSequence (i_apdu ns nr d) 4 = nr"
    by (simp add: i_apdu_def readSequence_append h sequence_roundtrip [OF nr])
  show "slice (i_apdu ns nr d) 6 (length d) = d" by (simp add: i_apdu_def slice_def h)
  have b0: "i_apdu ns nr d ! 0 = kStartByte" "i_apdu ns nr d ! 1 = of_nat (4 + length d)"
    by (simp_all add: i_apdu_def nth_append h writeSequence_other, simp_all add: header_def)
  have b2: "i_apdu ns nr d ! 2 = word_of_int (push_bit 1 ns AND 0xFE)"
    by (simp add: i_apdu_def nth_append h writeSequence_other) (simp add: writeSequence_def h)
  have "i_apdu ns nr d ! 2 AND 0x01 = 0"
    unfolding b2 by (rule low_octet_even)
  moreover have "unat (i_apdu ns nr d ! 1) = 4 + length d"
    unfolding b0(2) unat_of_nat using d by simp
  moreover have "length (i_apdu ns nr d) = 6 + length d" by (simp add: i_apdu_def h)
  ultimately show "consume (i_apdu ns nr d) t c = acceptInformation (i_apdu ns nr d)
      (blank_apdu\<lparr>ad_apduSize := 6 + length d\<rparr>) t (touched t c)"
    using d b0(1) by (simp add: consume_def Let_def kMinApduLength_def kMaxApduLength_def)
qed

lemma consume_s_apdu:
  assumes nr: "0 \<le> nr" "nr < 32768"
  shows "consume (s_apdu nr) t c = acceptSupervisory (s_apdu nr) (blank_apdu\<lparr>ad_apduSize := 6\<rparr>) t (touched t c)"
    and "readSequence (s_apdu nr) 4 = nr"
proof -
  have h: "length (header 4 0x01) = 6" by (simp add: header_def)
  show "readSequence (s_apdu nr) 4 = nr" by (simp add: s_apdu_def h sequence_roundtrip [OF nr])
  have "s_apdu nr ! 0 = kStartByte" "s_apdu nr ! 1 = 4" "s_apdu nr ! 2 = 1"
    by (simp_all add: s_apdu_def writeSequence_other, simp_all add: header_def)
  moreover have "length (s_apdu nr) = 6" by (simp add: s_apdu_def h)
  ultimately show "consume (s_apdu nr) t c
      = acceptSupervisory (s_apdu nr) (blank_apdu\<lparr>ad_apduSize := 6\<rparr>) t (touched t c)"
    by (simp add: consume_def Let_def kMinApduLength_def kMaxApduLength_def)
qed

lemma u_of_code: "u_of_byte (u_code f) = Some f"
  by (cases f) (simp_all add: u_of_byte_def)

lemma consume_u_apdu:
  "isKnownFunction f \<Longrightarrow> consume (u_apdu f) t c =
     (Ok, blank_apdu\<lparr>ad_apduSize := 6, ad_type := Unnumbered, ad_function := f\<rparr>,
      noteConfirmation f (touched t c))"
proof -
  assume f: "isKnownFunction f"
  have "u_apdu f ! 0 = kStartByte" "u_apdu f ! 1 = 4" "u_apdu f ! 2 = u_code f" "length (u_apdu f) = 6"
    by (simp_all add: u_apdu_def header_def)
  moreover have "u_code f AND 0x01 \<noteq> 0" "u_code f AND 0x03 \<noteq> 0x01" using f by (cases f; simp)+
  ultimately show ?thesis
    using f by (simp add: consume_def Let_def kMinApduLength_def kMaxApduLength_def acceptUnnumbered_def
        kApciBytes_def u_of_code blank_apdu_def)
qed

section \<open>The state of a connection\<close>

definition conn_ok :: "connection \<Rightarrow> bool" where
  "conn_ok c \<longleftrightarrow> 0 \<le> ap_sendSeq c \<and> ap_sendSeq c < kSequenceModulo
     \<and> 0 \<le> ap_recvSeq c \<and> ap_recvSeq c < kSequenceModulo
     \<and> 0 \<le> ap_ackedSeq c \<and> ap_ackedSeq c < kSequenceModulo
     \<and> 1 \<le> ap_w c \<and> ap_w c \<le> ap_k c \<and> ap_k c \<le> kMaxWindow
     \<and> kMinTimeMs \<le> ap_t2 c \<and> ap_t2 c \<le> ap_t1 c \<and> ap_t1 c \<le> kMaxTimeMs
     \<and> outstanding c \<le> ap_k c
     \<and> 0 \<le> ap_unackedRx c \<and> (ap_unackedRx c = 0 \<longleftrightarrow> ap_firstUnackedRxMs c = kNotArmed)
     \<and> (outstanding c = 0 \<longleftrightarrow> ap_sendPendingMs c = kNotArmed)"

text \<open>The calls a driver makes; opening a link applies the configuration and resets.\<close>

datatype apci_event =
    Open int int int int int int
  | Send_U u_function int
  | Send_S int
  | Send_I bytes int
  | Arrive bytes int

inductive apci_step :: "connection \<Rightarrow> apci_event \<Rightarrow> connection \<Rightarrow> bool" where
  step_open: "0 \<le> t \<Longrightarrow>
    apci_step c (Open k w t1 t2 t3 t) (apci_reset t (apci_configure k w t1 t2 t3 c))"
| step_u: "0 \<le> t \<Longrightarrow> apci_step c (Send_U f t) (snd (encodeUnnumbered f t c))"
| step_s: "0 \<le> t \<Longrightarrow> apci_step c (Send_S t) (snd (encodeSupervisory t c))"
| step_i: "0 \<le> t \<Longrightarrow> apci_step c (Send_I d t) (snd (encodeInformation d t c))"
| step_arrive: "0 \<le> t \<Longrightarrow> apci_step c (Arrive b t) (snd (snd (consume b t c)))"

inductive_cases apci_step_cases: "apci_step c e c'"

inductive apci_reachable :: "connection \<Rightarrow> bool" where
  start: "apci_reachable new_connection"
| step: "apci_reachable c \<Longrightarrow> apci_step c e c' \<Longrightarrow> apci_reachable c'"

lemma new_connection_ok: "conn_ok new_connection"
  by (simp add: conn_ok_def new_connection_def outstanding_def apci_constants)

lemma readSequence_range: "0 \<le> readSequence b pos" "readSequence b pos < kSequenceModulo"
proof -
  have "(x :: int) AND 0x7FFF = take_bit 15 x" for x by (simp add: take_bit_eq_mask mask_eq_exp_minus_1)
  then have "0 \<le> (x :: int) AND 0x7FFF \<and> x AND 0x7FFF < 32768" for x by (simp add: take_bit_eq_mod)
  then show "0 \<le> readSequence b pos" "readSequence b pos < kSequenceModulo"
    unfolding readSequence_def kSequenceModulo_def by auto
qed

lemma mod_shift:
  assumes "0 \<le> s" "s < m" "0 \<le> a" "a < (m :: int)"
  shows "(s - a + m) mod m = (if a \<le> s then s - a else s - a + m)"
proof (cases "a \<le> s")
  case True
  then have "(s - a + m) mod m = (s - a) mod m" by simp
  then show ?thesis using True assms by (simp add: mod_pos_pos_trivial)
next
  case False
  then have "0 \<le> s - a + m" "s - a + m < m" using assms by linarith+
  then have "(s - a + m) mod m = s - a + m" by (rule mod_pos_pos_trivial)
  then show ?thesis using False by simp
qed

text \<open>How far a received count is ahead of the acknowledged one.\<close>

definition advance :: "int \<Rightarrow> connection \<Rightarrow> int" where
  "advance r c = (r - ap_ackedSeq c + kSequenceModulo) mod kSequenceModulo"

lemma advance_nonneg: "0 \<le> advance r c"
  by (simp add: advance_def kSequenceModulo_def)

lemma acknowledge_alt:
  "acknowledge r t c =
     (if 0 \<le> r \<and> r < kSequenceModulo \<and> advance r c \<le> outstanding c
      then (True, let d = c\<lparr>ap_ackedSeq := r\<rparr> in
         if outstanding d = 0 then d\<lparr>ap_sendPendingMs := kNotArmed\<rparr>
         else d\<lparr>ap_sendPendingMs := if advance r c > 0 then t else ap_sendPendingMs c\<rparr>)
      else (False, c))"
  by (auto simp: acknowledge_def advance_def Let_def)

lemma outstanding_after_ack:
  assumes "conn_ok c" "0 \<le> r" "r < kSequenceModulo" "advance r c \<le> outstanding c"
  shows "outstanding (c\<lparr>ap_ackedSeq := r\<rparr>) = outstanding c - advance r c"
proof -
  have rng: "0 \<le> ap_sendSeq c" "ap_sendSeq c < kSequenceModulo" "0 \<le> ap_ackedSeq c"
    "ap_ackedSeq c < kSequenceModulo" using assms(1) by (simp_all add: conn_ok_def)
  have "outstanding (c\<lparr>ap_ackedSeq := r\<rparr>) = (if r \<le> ap_sendSeq c then ap_sendSeq c - r else ap_sendSeq c - r + kSequenceModulo)"
    using mod_shift [OF rng(1,2) assms(2,3)] by (simp add: outstanding_def)
  moreover have "outstanding c = (if ap_ackedSeq c \<le> ap_sendSeq c then ap_sendSeq c - ap_ackedSeq c
      else ap_sendSeq c - ap_ackedSeq c + kSequenceModulo)"
    using mod_shift [OF rng] by (simp add: outstanding_def)
  moreover have "advance r c = (if ap_ackedSeq c \<le> r then r - ap_ackedSeq c
      else r - ap_ackedSeq c + kSequenceModulo)"
    using mod_shift [OF assms(2,3) rng(3,4)] by (simp add: advance_def)
  ultimately show ?thesis using assms(4) rng assms(2,3) by (simp split: if_splits)
qed

lemma acknowledge_ok:
  assumes ok: "conn_ok c" and t: "0 \<le> t" and a: "acknowledge r t c = (acc, c')"
  shows "conn_ok c'" "ap_recvSeq c' = ap_recvSeq c" "ap_unackedRx c' = ap_unackedRx c"
proof -
  show "ap_recvSeq c' = ap_recvSeq c" "ap_unackedRx c' = ap_unackedRx c"
    using a by (auto simp: acknowledge_def Let_def split: if_splits)
  show "conn_ok c'"
  proof (cases "0 \<le> r \<and> r < kSequenceModulo \<and> advance r c \<le> outstanding c")
    case False
    then have "c' = c" using a by (auto simp: acknowledge_alt split: if_splits)
    then show ?thesis using ok by simp
  next
    case True
    define o1 where "o1 = outstanding (c\<lparr>ap_ackedSeq := r\<rparr>)"
    have o1: "o1 = outstanding c - advance r c" unfolding o1_def using outstanding_after_ack ok True by blast
    have c': "c' = c\<lparr>ap_ackedSeq := r, ap_sendPendingMs :=
        (if o1 = 0 then kNotArmed else if advance r c > 0 then t else ap_sendPendingMs c)\<rparr>"
      using a True by (auto simp: acknowledge_alt o1_def Let_def)
    have o': "outstanding c' = o1" unfolding c' o1_def by (simp add: outstanding_def)
    have "t \<noteq> kNotArmed" using t by (simp add: kNotArmed_def)
    moreover have "outstanding c = 0 \<longleftrightarrow> ap_sendPendingMs c = kNotArmed" using ok by (simp add: conn_ok_def)
    ultimately have "o1 = 0 \<longleftrightarrow> ap_sendPendingMs c' = kNotArmed"
      using o1 advance_nonneg [of r c] unfolding c' by auto
    moreover have "o1 \<le> ap_k c" using o1 advance_nonneg [of r c] ok by (simp add: conn_ok_def)
    ultimately show ?thesis using ok True o' unfolding c' by (simp add: conn_ok_def)
  qed
qed

lemma conn_ok_touch: "conn_ok (c\<lparr>ap_lastTrafficMs := t, ap_framesReceived := n\<rparr>) = conn_ok c"
  "conn_ok (c\<lparr>ap_malformed := m\<rparr>) = conn_ok c" "conn_ok (c\<lparr>ap_sequenceErrors := m\<rparr>) = conn_ok c"
  "conn_ok (c\<lparr>ap_controlPendingMs := t\<rparr>) = conn_ok c"
  by (simp_all add: conn_ok_def outstanding_def)

lemma accept_ok:
  assumes "conn_ok c" "0 \<le> t"
  shows "conn_ok (snd (snd (acceptInformation b out t c)))"
    and "conn_ok (snd (snd (acceptSupervisory b out t c)))"
    and "conn_ok (snd (snd (acceptUnnumbered b out c)))"
proof -
  obtain acc c1 where a: "acknowledge (readSequence b 4) t c = (acc, c1)" by fastforce
  note c1 = acknowledge_ok [OF assms a]
  have "t \<noteq> kNotArmed" using assms(2) by (simp add: kNotArmed_def)
  then have "conn_ok (let c = c1\<lparr>ap_recvSeq := (ap_recvSeq c1 + 1) mod kSequenceModulo\<rparr>;
      c = (if ap_unackedRx c = 0 then c\<lparr>ap_firstUnackedRxMs := t\<rparr> else c)
      in c\<lparr>ap_unackedRx := ap_unackedRx c + 1\<rparr>)"
    using c1(1) by (auto simp: conn_ok_def outstanding_def Let_def kSequenceModulo_def)
  then show "conn_ok (snd (snd (acceptInformation b out t c)))"
    using a c1(1) assms(1)
    by (cases acc) (auto simp: acceptInformation_def Let_def conn_ok_touch)
  show "conn_ok (snd (snd (acceptSupervisory b out t c)))"
    using a c1(1) assms(1)
    by (cases acc) (auto simp: acceptSupervisory_def Let_def conn_ok_touch)
  show "conn_ok (snd (snd (acceptUnnumbered b out c)))"
    using assms(1)
    by (auto simp: acceptUnnumbered_def noteConfirmation_def conn_ok_touch split: option.split)
qed

lemma consume_ok: "conn_ok c \<Longrightarrow> 0 \<le> t \<Longrightarrow> conn_ok (snd (snd (consume b t c)))"
  by (auto simp: consume_def Let_def conn_ok_touch intro: accept_ok)

lemma encodeInformation_ok:
  assumes ok: "conn_ok c" and t: "0 \<le> t"
  shows "conn_ok (snd (encodeInformation d t c))"
proof (cases "d = [] \<or> length d > kMaxAsduBytes \<or> \<not> sendWindowOpen c")
  case True
  then show ?thesis using ok by (auto simp: encodeInformation_def conn_ok_touch)
next
  case False
  then have o: "outstanding c < ap_k c" by (simp add: sendWindowOpen_def)
  have rng: "0 \<le> ap_sendSeq c" "ap_sendSeq c < kSequenceModulo" "0 \<le> ap_ackedSeq c"
    "ap_ackedSeq c < kSequenceModulo" "ap_k c < kSequenceModulo"
    using ok by (simp_all add: conn_ok_def kMaxWindow_def kSequenceModulo_def)
  let ?s = "(ap_sendSeq c + 1) mod kSequenceModulo"
  have o0: "0 \<le> outstanding c" by (simp add: outstanding_def kSequenceModulo_def)
  have o1: "(?s - ap_ackedSeq c + kSequenceModulo) mod kSequenceModulo = outstanding c + 1"
  proof -
    have "(?s - ap_ackedSeq c + kSequenceModulo) mod kSequenceModulo
        = (ap_sendSeq c + 1 - ap_ackedSeq c) mod kSequenceModulo" by (simp add: mod_diff_left_eq)
    also have "\<dots> = (ap_sendSeq c - ap_ackedSeq c + kSequenceModulo + 1) mod kSequenceModulo"
    proof -
      have "ap_sendSeq c - ap_ackedSeq c + kSequenceModulo + 1 = (ap_sendSeq c + 1 - ap_ackedSeq c) + kSequenceModulo"
        by simp
      then show ?thesis by (simp only: mod_add_self2)
    qed
    also have "\<dots> = ((ap_sendSeq c - ap_ackedSeq c + kSequenceModulo) mod kSequenceModulo + 1) mod kSequenceModulo"
      by (simp only: mod_add_left_eq)
    also have "\<dots> = outstanding c + 1"
      using o o0 rng(5) by (simp add: outstanding_def mod_pos_pos_trivial)
    finally show ?thesis .
  qed
  have "t \<noteq> kNotArmed" using t by (simp add: kNotArmed_def)
  then show ?thesis
    using False ok o o0 o1
    by (auto simp: encodeInformation_def Let_def conn_ok_def outstanding_def kSequenceModulo_def)
qed

lemma configure_ok: "0 \<le> t \<Longrightarrow> conn_ok (apci_reset t (apci_configure k w t1 t2 t3 c))"
  by (auto simp: conn_ok_def apci_reset_def apci_configure_def Let_def outstanding_def qBound_def
      apci_constants)

lemma apci_step_ok: "apci_step c e c' \<Longrightarrow> conn_ok c \<Longrightarrow> conn_ok c'"
proof (induction rule: apci_step.induct)
  case (step_u t c f)
  then show ?case
    by (auto simp: encodeUnnumbered_def Let_def conn_ok_def outstanding_def)
next
  case (step_s t c)
  then show ?case by (auto simp: encodeSupervisory_def Let_def conn_ok_def outstanding_def)
qed (auto intro: configure_ok encodeInformation_ok consume_ok)

lemma apci_reachable_ok: "apci_reachable c \<Longrightarrow> conn_ok c"
  by (induction rule: apci_reachable.induct) (auto intro: new_connection_ok apci_step_ok)

section \<open>The timers\<close>

text \<open>What each timer has to hold after a call, said without the code: the control timer the time of the first
activation sent since a confirmation arrived, the traffic timer that of the last frame sent or received, the send
timer that of the first unacknowledged frame or of the last progress, the receive timer that of the first
frame not acknowledged yet.\<close>

definition whole_frame :: "bytes \<Rightarrow> bool" where
  "whole_frame b \<longleftrightarrow> 2 \<le> length b \<and> b ! 0 = 0x68 \<and> 4 \<le> unat (b ! 1) \<and> unat (b ! 1) \<le> 253
     \<and> unat (b ! 1) + 2 \<le> length b"

definition confirms :: "bytes \<Rightarrow> bool" where
  "confirms b \<longleftrightarrow> 6 \<le> length b \<and> b ! 0 = 0x68 \<and> b ! 1 = 4 \<and> b ! 2 \<in> {0x0B, 0x23, 0x83}"

definition goes_out :: "bytes \<Rightarrow> connection \<Rightarrow> bool" where
  "goes_out d c \<longleftrightarrow> d \<noteq> [] \<and> length d \<le> 249 \<and> outstanding c < ap_k c"

fun control_time :: "connection \<Rightarrow> apci_event \<Rightarrow> int" where
  "control_time c (Open k w t1 t2 t3 t) = kNotArmed"
| "control_time c (Send_U f t) = (if f \<in> {StartDtAct, StopDtAct, TestFrAct} \<and> ap_controlPendingMs c = kNotArmed
     then t else ap_controlPendingMs c)"
| "control_time c (Arrive b t) = (if confirms b then kNotArmed else ap_controlPendingMs c)"
| "control_time c _ = ap_controlPendingMs c"

fun traffic_time :: "connection \<Rightarrow> apci_event \<Rightarrow> int" where
  "traffic_time c (Open k w t1 t2 t3 t) = t"
| "traffic_time c (Send_U f t) = (if f = UNone then ap_lastTrafficMs c else t)"
| "traffic_time c (Send_S t) = t"
| "traffic_time c (Send_I d t) = (if goes_out d c then t else ap_lastTrafficMs c)"
| "traffic_time c (Arrive b t) = (if whole_frame b then t else ap_lastTrafficMs c)"

fun send_time :: "connection \<Rightarrow> apci_event \<Rightarrow> connection \<Rightarrow> int" where
  "send_time c (Open k w t1 t2 t3 t) c' = kNotArmed"
| "send_time c (Send_I d t) c' = (if goes_out d c \<and> outstanding c = 0 then t else ap_sendPendingMs c)"
| "send_time c (Arrive b t) c' = (if outstanding c' = 0 then kNotArmed
     else if outstanding c' < outstanding c then t else ap_sendPendingMs c)"
| "send_time c _ c' = ap_sendPendingMs c"

fun receive_time :: "connection \<Rightarrow> apci_event \<Rightarrow> connection \<Rightarrow> int" where
  "receive_time c (Open k w t1 t2 t3 t) c' = kNotArmed"
| "receive_time c (Send_U f t) c' = ap_firstUnackedRxMs c"
| "receive_time c (Send_S t) c' = kNotArmed"
| "receive_time c (Send_I d t) c' = (if goes_out d c then kNotArmed else ap_firstUnackedRxMs c)"
| "receive_time c (Arrive b t) c' = (if ap_unackedRx c = 0 \<and> ap_unackedRx c' = 1 then t else ap_firstUnackedRxMs c)"

lemma u_of_byte_Some: "u_of_byte b = Some f \<Longrightarrow> b = u_code f"
  unfolding u_of_byte_def find_Some_iff by blast

lemma u_of_byte_confirms:
  "(case u_of_byte b of Some f \<Rightarrow> isConfirmation f | None \<Rightarrow> False) \<longleftrightarrow> b \<in> {0x0B, 0x23, 0x83}"
proof
  assume "case u_of_byte b of Some f \<Rightarrow> isConfirmation f | None \<Rightarrow> False"
  then show "b \<in> {0x0B, 0x23, 0x83}" using u_of_byte_Some[of b] by (auto split: option.splits)
qed (auto simp: u_of_byte_def)

lemma acknowledge_keeps:
  "ap_controlPendingMs (snd (acknowledge r t c)) = ap_controlPendingMs c"
  "ap_lastTrafficMs (snd (acknowledge r t c)) = ap_lastTrafficMs c"
  "ap_firstUnackedRxMs (snd (acknowledge r t c)) = ap_firstUnackedRxMs c"
  "ap_unackedRx (snd (acknowledge r t c)) = ap_unackedRx c"
  by (simp_all add: acknowledge_def Let_def)

text \<open>A whole frame moves the traffic timer and goes to the reader of its format; anything else is counted at most.\<close>

lemma consume_not_whole:
  assumes "\<not> whole_frame b"
  shows "snd (snd (consume b t c)) = c \<or> snd (snd (consume b t c)) = c\<lparr>ap_malformed := ap_malformed c + 1\<rparr>"
  using assms by (auto simp: consume_def whole_frame_def Let_def apci_constants)

lemma consume_whole:
  assumes "whole_frame b"
  shows "consume b t c = (let out = blank_apdu\<lparr>ad_apduSize := unat (b ! 1) + 2\<rparr>; c = touched t c in
    if b ! 2 AND 1 = 0 then acceptInformation b out t c
    else if b ! 2 AND 3 = 1 then acceptSupervisory b out t c else acceptUnnumbered b out c)"
  using assms by (simp add: consume_def whole_frame_def Let_def apci_constants)

lemma confirms_whole:
  assumes "confirms b"
  shows "whole_frame b" and "b ! 2 AND 1 \<noteq> 0" and "b ! 2 AND 3 \<noteq> 1" and "unat (b ! 1) = 4"
  using assms by (auto simp: confirms_def whole_frame_def)

lemma acceptInformation_state:
  fixes b out t c
  defines "c' \<equiv> snd (snd (acceptInformation b out t c))"
  shows "ap_controlPendingMs c' = ap_controlPendingMs c" and "ap_lastTrafficMs c' = ap_lastTrafficMs c"
    and "ap_unackedRx c' = ap_unackedRx c \<and> ap_firstUnackedRxMs c' = ap_firstUnackedRxMs c
      \<or> ap_unackedRx c' = ap_unackedRx c + 1
        \<and> ap_firstUnackedRxMs c' = (if ap_unackedRx c = 0 then t else ap_firstUnackedRxMs c)"
    and "\<exists>r. outstanding c' = outstanding (snd (acknowledge r t c)) \<and> ap_sendPendingMs c' = ap_sendPendingMs (snd (acknowledge r t c))
      \<or> outstanding c' = outstanding c \<and> ap_sendPendingMs c' = ap_sendPendingMs c"
proof -
  obtain acc c1 where a: "acknowledge (readSequence b 4) t c = (acc, c1)" by fastforce
  note k = acknowledge_keeps[of "readSequence b 4" t c, unfolded a snd_conv]
  show "ap_controlPendingMs c' = ap_controlPendingMs c" "ap_lastTrafficMs c' = ap_lastTrafficMs c"
    "ap_unackedRx c' = ap_unackedRx c \<and> ap_firstUnackedRxMs c' = ap_firstUnackedRxMs c
      \<or> ap_unackedRx c' = ap_unackedRx c + 1
        \<and> ap_firstUnackedRxMs c' = (if ap_unackedRx c = 0 then t else ap_firstUnackedRxMs c)"
    using k by (cases acc; simp add: c'_def acceptInformation_def Let_def a)+
  show "\<exists>r. outstanding c' = outstanding (snd (acknowledge r t c)) \<and> ap_sendPendingMs c' = ap_sendPendingMs (snd (acknowledge r t c))
      \<or> outstanding c' = outstanding c \<and> ap_sendPendingMs c' = ap_sendPendingMs c"
    by (rule exI[of _ "readSequence b 4"], cases acc)
      (simp_all add: c'_def acceptInformation_def Let_def a outstanding_def)
qed

lemma acceptSupervisory_state:
  fixes b out t c
  defines "c' \<equiv> snd (snd (acceptSupervisory b out t c))"
  shows "ap_controlPendingMs c' = ap_controlPendingMs c" and "ap_lastTrafficMs c' = ap_lastTrafficMs c"
    and "ap_unackedRx c' = ap_unackedRx c \<and> ap_firstUnackedRxMs c' = ap_firstUnackedRxMs c"
    and "\<exists>r. outstanding c' = outstanding (snd (acknowledge r t c)) \<and> ap_sendPendingMs c' = ap_sendPendingMs (snd (acknowledge r t c))
      \<or> outstanding c' = outstanding c \<and> ap_sendPendingMs c' = ap_sendPendingMs c"
proof -
  obtain acc c1 where a: "acknowledge (readSequence b 4) t c = (acc, c1)" by fastforce
  note k = acknowledge_keeps[of "readSequence b 4" t c, unfolded a snd_conv]
  show "ap_controlPendingMs c' = ap_controlPendingMs c" "ap_lastTrafficMs c' = ap_lastTrafficMs c"
    "ap_unackedRx c' = ap_unackedRx c \<and> ap_firstUnackedRxMs c' = ap_firstUnackedRxMs c"
    using k by (cases acc; simp add: c'_def acceptSupervisory_def Let_def a)+
  show "\<exists>r. outstanding c' = outstanding (snd (acknowledge r t c)) \<and> ap_sendPendingMs c' = ap_sendPendingMs (snd (acknowledge r t c))
      \<or> outstanding c' = outstanding c \<and> ap_sendPendingMs c' = ap_sendPendingMs c"
    by (rule exI[of _ "readSequence b 4"], cases acc)
      (simp_all add: c'_def acceptSupervisory_def Let_def a outstanding_def)
qed

lemma acceptUnnumbered_state:
  fixes b out c
  defines "c' \<equiv> snd (snd (acceptUnnumbered b out c))"
  shows "ap_controlPendingMs c' = (if ad_apduSize out = 6 \<and> b ! 2 \<in> {0x0B, 0x23, 0x83} then kNotArmed else ap_controlPendingMs c)"
    and "ap_lastTrafficMs c' = ap_lastTrafficMs c" and "ap_unackedRx c' = ap_unackedRx c"
    and "ap_firstUnackedRxMs c' = ap_firstUnackedRxMs c" and "outstanding c' = outstanding c"
    and "ap_sendPendingMs c' = ap_sendPendingMs c"
proof -
  show "ap_controlPendingMs c' = (if ad_apduSize out = 6 \<and> b ! 2 \<in> {0x0B, 0x23, 0x83} then kNotArmed else ap_controlPendingMs c)"
    unfolding u_of_byte_confirms[symmetric] c'_def acceptUnnumbered_def noteConfirmation_def kApciBytes_def
    by (auto split: option.split elim: isKnownFunction.elims)
qed (auto simp: c'_def acceptUnnumbered_def noteConfirmation_def outstanding_def split: option.split)

lemma acknowledge_send:
  assumes "conn_ok c"
  shows "ap_sendPendingMs (snd (acknowledge r t c)) = (if outstanding (snd (acknowledge r t c)) = 0 then kNotArmed
    else if outstanding (snd (acknowledge r t c)) < outstanding c then t else ap_sendPendingMs c)"
proof (cases "0 \<le> r \<and> r < kSequenceModulo \<and> advance r c \<le> outstanding c")
  case True
  then have "outstanding (c\<lparr>ap_ackedSeq := r\<rparr>) = outstanding c - advance r c"
    using outstanding_after_ack[OF assms] by blast
  moreover have "outstanding (c\<lparr>ap_ackedSeq := r, ap_sendPendingMs := x\<rparr>) = outstanding (c\<lparr>ap_ackedSeq := r\<rparr>)" for x
    by (simp add: outstanding_def)
  ultimately show ?thesis using True by (simp add: acknowledge_alt Let_def)
next
  case False
  then have "snd (acknowledge r t c) = c" unfolding acknowledge_alt by (simp only: if_False snd_conv)
  then show ?thesis using assms by (simp add: conn_ok_def)
qed

lemma touched_same:
  "outstanding (touched t c) = outstanding c" "conn_ok (touched t c) = conn_ok c"
  "ap_sendPendingMs (touched t c) = ap_sendPendingMs c"
  by (simp_all add: outstanding_def conn_ok_touch)

lemma arrive_send:
  assumes "conn_ok c"
  shows "ap_sendPendingMs (snd (snd (consume b t c))) = send_time c (Arrive b t) (snd (snd (consume b t c)))"
proof -
  let ?c = "snd (snd (consume b t c))"
  have idle: "ap_sendPendingMs ?c = send_time c (Arrive b t) ?c"
    if "outstanding ?c = outstanding c \<and> ap_sendPendingMs ?c = ap_sendPendingMs c"
    using that assms by (simp add: conn_ok_def)
  have ack: "ap_sendPendingMs ?c = send_time c (Arrive b t) ?c"
    if "\<exists>r. outstanding ?c = outstanding (snd (acknowledge r t (touched t c)))
        \<and> ap_sendPendingMs ?c = ap_sendPendingMs (snd (acknowledge r t (touched t c)))
      \<or> outstanding ?c = outstanding (touched t c) \<and> ap_sendPendingMs ?c = ap_sendPendingMs (touched t c)"
  proof -
    have a: "ap_sendPendingMs (snd (acknowledge r t (touched t c)))
      = (if outstanding (snd (acknowledge r t (touched t c))) = 0 then kNotArmed
         else if outstanding (snd (acknowledge r t (touched t c))) < outstanding c then t else ap_sendPendingMs c)" for r
      using acknowledge_send[of "touched t c" r t] assms unfolding touched_same by blast
    have "outstanding ?c = outstanding c \<and> ap_sendPendingMs ?c = ap_sendPendingMs c
      \<or> (\<exists>r. outstanding ?c = outstanding (snd (acknowledge r t (touched t c)))
        \<and> ap_sendPendingMs ?c = ap_sendPendingMs (snd (acknowledge r t (touched t c))))"
      using that unfolding touched_same by blast
    then show ?thesis
    proof
      assume "\<exists>r. outstanding ?c = outstanding (snd (acknowledge r t (touched t c)))
        \<and> ap_sendPendingMs ?c = ap_sendPendingMs (snd (acknowledge r t (touched t c)))"
      then show ?thesis unfolding send_time.simps using a by metis
    qed (rule idle)
  qed
  show ?thesis
  proof (cases "whole_frame b")
    case False
    then show ?thesis using consume_not_whole[of b t c] by (intro idle) (auto simp: outstanding_def)
  next
    case True
    note w = consume_whole[OF True, of t c, unfolded Let_def]
    consider "?c = snd (snd (acceptInformation b (blank_apdu\<lparr>ad_apduSize := unat (b ! 1) + 2\<rparr>) t (touched t c)))"
      | "?c = snd (snd (acceptSupervisory b (blank_apdu\<lparr>ad_apduSize := unat (b ! 1) + 2\<rparr>) t (touched t c)))"
      | "?c = snd (snd (acceptUnnumbered b (blank_apdu\<lparr>ad_apduSize := unat (b ! 1) + 2\<rparr>) (touched t c)))"
      using w by (auto split: if_splits)
    then show ?thesis
    proof cases
      case 1 show ?thesis by (rule ack) (unfold 1, rule acceptInformation_state(4))
    next
      case 2 show ?thesis by (rule ack) (unfold 2, rule acceptSupervisory_state(4))
    next
      case 3 show ?thesis by (rule idle) (unfold 3 acceptUnnumbered_state touched_same, simp)
    qed
  qed
qed

lemma arrive_timers:
  "ap_controlPendingMs (snd (snd (consume b t c))) = control_time c (Arrive b t)"
  "ap_lastTrafficMs (snd (snd (consume b t c))) = traffic_time c (Arrive b t)"
  "ap_firstUnackedRxMs (snd (snd (consume b t c))) = receive_time c (Arrive b t) (snd (snd (consume b t c)))"
proof -
  let ?c = "snd (snd (consume b t c))" and ?out = "blank_apdu\<lparr>ad_apduSize := unat (b ! 1) + 2\<rparr>"
  have all: "ap_controlPendingMs ?c = control_time c (Arrive b t) \<and> ap_lastTrafficMs ?c = traffic_time c (Arrive b t)
    \<and> ap_firstUnackedRxMs ?c = receive_time c (Arrive b t) ?c"
  proof (cases "whole_frame b")
    case False
    then have "\<not> confirms b" using confirms_whole(1) by blast
    then show ?thesis using consume_not_whole[OF False, of t c] False by auto
  next
    case True
    note w = consume_whole[OF True, of t c, unfolded Let_def]
    have len: "unat (b ! 1) = 4 \<longleftrightarrow> b ! 1 = 4" by (simp add: word_unat_eq_iff)
    have sure: "confirms b \<longleftrightarrow> b ! 1 = 4 \<and> b ! 2 \<in> {0x0B, 0x23, 0x83}"
      using True len by (auto simp: confirms_def whole_frame_def)
    consider (I) "b ! 2 AND 1 = 0" "?c = snd (snd (acceptInformation b ?out t (touched t c)))"
      | (S) "b ! 2 AND 1 \<noteq> 0" "b ! 2 AND 3 = 1" "?c = snd (snd (acceptSupervisory b ?out t (touched t c)))"
      | (U) "?c = snd (snd (acceptUnnumbered b ?out (touched t c)))"
      using w by (auto split: if_splits)
    then show ?thesis
    proof cases
      case I
      then have "\<not> confirms b" using confirms_whole(2) by blast
      then show ?thesis
        using True acceptInformation_state(3)[of b ?out t "touched t c"]
        by (simp add: I(2) acceptInformation_state) auto
    next
      case S
      then have "\<not> confirms b" using confirms_whole(3) by blast
      then show ?thesis using True by (simp add: S(3) acceptSupervisory_state)
    next
      case U
      show ?thesis using True len by (auto simp: U acceptUnnumbered_state sure)
    qed
  qed
  then show "ap_controlPendingMs ?c = control_time c (Arrive b t)" "ap_lastTrafficMs ?c = traffic_time c (Arrive b t)"
    "ap_firstUnackedRxMs ?c = receive_time c (Arrive b t) ?c" by blast+
qed

lemma step_timers:
  assumes "apci_step c e c'" and "conn_ok c"
  shows "ap_controlPendingMs c' = control_time c e \<and> ap_lastTrafficMs c' = traffic_time c e
    \<and> ap_sendPendingMs c' = send_time c e c' \<and> ap_firstUnackedRxMs c' = receive_time c e c'"
  using assms
proof (induction rule: apci_step.induct)
  case (step_open t c k w t1 t2 t3)
  show ?case by (simp add: apci_reset_def)
next
  case (step_u t c f)
  show ?case by (cases f) (simp_all add: encodeUnnumbered_def Let_def)
next
  case (step_s t c)
  show ?case by (simp add: encodeSupervisory_def Let_def)
next
  case (step_i t c d)
  then have "outstanding c = 0 \<longleftrightarrow> ap_sendPendingMs c = kNotArmed" by (simp add: conn_ok_def)
  then show ?case
    by (auto simp: encodeInformation_def Let_def goes_out_def sendWindowOpen_def kMaxAsduBytes_def kMaxApduLength_def
        kControlBytes_def)
next
  case (step_arrive t c b)
  then show ?case using arrive_timers[of b t c] arrive_send[of c b t] by blast
qed

section \<open>Properties\<close>

text \<open>A send or receive sequence number of fifteen bits survives the two control octets.\<close>

theorem sequence_number_roundtrip:
  assumes "0 \<le> v" and "v < kSequenceModulo" and "pos + 1 < length b"
  shows "readSequence (writeSequence b pos v) pos = v"
  using assms by (intro sequence_roundtrip) (simp_all add: kSequenceModulo_def)

theorem sequence_number_roundtrip_witness:
  "readSequence (writeSequence [0, 0, 0, 0] 2 32767) 2 = 32767"
  by (rule sequence_number_roundtrip) (simp_all add: kSequenceModulo_def)

text \<open>C30: In every state a connection reaches, the sequence numbers are in range, no more than \<open>k\<close> frames are
outstanding, and the send and the receive timer are armed exactly while a frame waits for an acknowledgement of the
peer or of this side.  Every call moves the four timers as they should: the send timer starts with the first
unacknowledged frame, restarts when some are acknowledged and stops when all are; the receive timer starts with the
first frame not acknowledged and stops with the next frame that carries the count; the control timer starts with the
first activation sent, goes on when others follow, and any confirmation that arrives stops it, whichever
activation it confirms; the traffic timer restarts with each frame sent or received; opening the link
restarts the last one and stops the others.  Nothing else changes a timer.\<close>

theorem connection_invariant:
  assumes "apci_reachable c"
  shows "conn_ok c \<and> (\<forall>e c'. apci_step c e c' \<longrightarrow> ap_controlPendingMs c' = control_time c e
    \<and> ap_lastTrafficMs c' = traffic_time c e \<and> ap_sendPendingMs c' = send_time c e c'
    \<and> ap_firstUnackedRxMs c' = receive_time c e c')"
  using apci_reachable_ok[OF assms] step_timers by blast

theorem connection_invariant_witness:
  "conn_ok (snd (encodeUnnumbered StartDtAct 5 new_connection))
   \<and> ap_controlPendingMs (snd (snd (consume [0x68, 4, 0x0B, 0, 0, 0] 9 (snd (encodeUnnumbered StartDtAct 5 new_connection))))) = kNotArmed"
proof -
  have r: "apci_reachable (snd (encodeUnnumbered StartDtAct 5 new_connection))"
    by (rule step, rule start, rule step_u) simp
  have st: "apci_step c (Arrive [0x68, 4, 0x0B, 0, 0, 0] 9) (snd (snd (consume [0x68, 4, 0x0B, 0, 0, 0] 9 c)))" for c
    by (rule step_arrive) simp
  show ?thesis using connection_invariant[OF r] st by (fastforce simp: confirms_def)
qed

end
