(* ===== verification/Iec104_Link.thy ===== *)
theory Iec104_Link
  imports Iec104_Apci
begin

text \<open>
  Two APCI connections (\<open>Connection\<close> of \<open>core/Protocols/Iec104/Apci.cpp\<close>) joined by a lossless
  in-order byte stream, as TCP gives it: the frames in flight each way, and the ASDUs each side handed
  over and accepted. Every interleaving of sends and deliveries is a run of \<open>link_step\<close>.
\<close>

record link =
  lk_a :: connection
  lk_b :: connection
  lk_ab :: "bytes list"
  lk_ba :: "bytes list"
  lk_sent_a :: "bytes list"
  lk_sent_b :: "bytes list"
  lk_got_a :: "bytes list"
  lk_got_b :: "bytes list"

definition swap_link :: "link \<Rightarrow> link" where
  "swap_link l = \<lparr>lk_a = lk_b l, lk_b = lk_a l, lk_ab = lk_ba l, lk_ba = lk_ab l,
     lk_sent_a = lk_sent_b l, lk_sent_b = lk_sent_a l, lk_got_a = lk_got_b l, lk_got_b = lk_got_a l\<rparr>"

text \<open>Steps that send from the first endpoint or deliver to the second.\<close>

inductive half_step :: "link \<Rightarrow> link \<Rightarrow> bool" where
  send_i: "0 \<le> t \<Longrightarrow> d \<noteq> [] \<Longrightarrow> length d \<le> kMaxAsduBytes \<Longrightarrow> sendWindowOpen (lk_a l) \<Longrightarrow>
    encodeInformation d t (lk_a l) = (f, a') \<Longrightarrow>
    half_step l (l\<lparr>lk_a := a', lk_ab := lk_ab l @ [f], lk_sent_a := lk_sent_a l @ [d]\<rparr>)"
| send_s: "0 \<le> t \<Longrightarrow> encodeSupervisory t (lk_a l) = (f, a') \<Longrightarrow>
    half_step l (l\<lparr>lk_a := a', lk_ab := lk_ab l @ [f]\<rparr>)"
| send_u: "0 \<le> t \<Longrightarrow> isKnownFunction u \<Longrightarrow> encodeUnnumbered u t (lk_a l) = (f, a') \<Longrightarrow>
    half_step l (l\<lparr>lk_a := a', lk_ab := lk_ab l @ [f]\<rparr>)"
| deliver: "0 \<le> t \<Longrightarrow> lk_ab l = f # fs \<Longrightarrow> consume f t (lk_b l) = (r, out, b') \<Longrightarrow>
    half_step l (l\<lparr>lk_b := b', lk_ab := fs, lk_got_b := lk_got_b l @
      (if r = Ok \<and> ad_type out = Information then [slice f (ad_asduOffset out) (ad_asduSize out)] else [])\<rparr>)"

definition link_step :: "link \<Rightarrow> link \<Rightarrow> bool" where
  "link_step l l' \<longleftrightarrow> half_step l l' \<or> half_step (swap_link l) (swap_link l')"

text \<open>Both ends configured and reset, nothing in flight.\<close>

definition fresh :: "connection \<Rightarrow> bool" where
  "fresh c \<longleftrightarrow> conn_ok c \<and> ap_sendSeq c = 0 \<and> ap_recvSeq c = 0 \<and> ap_ackedSeq c = 0
     \<and> ap_sequenceErrors c = 0 \<and> ap_malformed c = 0"

inductive link_reachable :: "link \<Rightarrow> bool" where
  link_start: "fresh a \<Longrightarrow> fresh b \<Longrightarrow>
    link_reachable \<lparr>lk_a = a, lk_b = b, lk_ab = [], lk_ba = [], lk_sent_a = [], lk_sent_b = [],
      lk_got_a = [], lk_got_b = []\<rparr>"
| link_next: "link_reachable l \<Longrightarrow> link_step l l' \<Longrightarrow> link_reachable l'"

section \<open>Frames with unbounded counters\<close>

datatype gframe = GI nat nat bytes | GS nat | GU u_function

abbreviation wrap15 :: "nat \<Rightarrow> int" where
  "wrap15 n \<equiv> int n mod kSequenceModulo"

fun wire :: "gframe \<Rightarrow> bytes" where
  "wire (GI n r d) = i_apdu (wrap15 n) (wrap15 r) d"
| "wire (GS r) = s_apdu (wrap15 r)"
| "wire (GU u) = u_apdu u"

fun gframe_ok :: "gframe \<Rightarrow> bool" where
  "gframe_ok (GI n r d) = (length d \<le> 249)"
| "gframe_ok (GS r) = True"
| "gframe_ok (GU u) = isKnownFunction u"

fun infos :: "gframe list \<Rightarrow> (nat \<times> bytes) list" where
  "infos [] = []"
| "infos (GI n r d # gs) = (n, d) # infos gs"
| "infos (g # gs) = infos gs"

fun acks :: "gframe list \<Rightarrow> nat list" where
  "acks [] = []"
| "acks (GI n r d # gs) = r # acks gs"
| "acks (GS r # gs) = r # acks gs"
| "acks (GU u # gs) = acks gs"

lemma infos_append [simp]: "infos (gs @ hs) = infos gs @ infos hs"
  by (induction gs rule: infos.induct) auto

lemma acks_append [simp]: "acks (gs @ hs) = acks gs @ acks hs"
  by (induction gs rule: acks.induct) auto

definition within :: "int \<Rightarrow> nat \<Rightarrow> nat \<Rightarrow> bool" where
  "within k n K \<longleftrightarrow> int (n - K) \<le> k"

text \<open>
  One direction: the frames from \<open>a\<close> to \<open>b\<close> carry the ASDUs not yet accepted, numbered in order; the
  frames on the way back carry growing receive counts, between what \<open>a\<close> has seen acknowledged and
  what \<open>b\<close> has accepted.
\<close>

definition way_ok ::
  "connection \<Rightarrow> connection \<Rightarrow> gframe list \<Rightarrow> gframe list \<Rightarrow> bytes list \<Rightarrow> bytes list \<Rightarrow> nat \<Rightarrow> bool" where
  "way_ok a b gs hs sent got K \<longleftrightarrow> conn_ok a \<and> ap_sequenceErrors a = 0 \<and> ap_malformed a = 0
     \<and> list_all gframe_ok gs
     \<and> sent = got @ map snd (infos gs) \<and> map fst (infos gs) = [length got..<length sent]
     \<and> ap_sendSeq a = wrap15 (length sent) \<and> ap_recvSeq b = wrap15 (length got)
     \<and> ap_ackedSeq a = wrap15 K
     \<and> sorted (K # acks hs @ [length got]) \<and> within (ap_k a) (length sent) K"

definition link_ok :: "link \<Rightarrow> bool" where
  "link_ok l \<longleftrightarrow> (\<exists>gs hs K J. lk_ab l = map wire gs \<and> lk_ba l = map wire hs
     \<and> way_ok (lk_a l) (lk_b l) gs hs (lk_sent_a l) (lk_got_b l) K
     \<and> way_ok (lk_b l) (lk_a l) hs gs (lk_sent_b l) (lk_got_a l) J)"

lemma link_ok_swap: "link_ok (swap_link l) = link_ok l"
  unfolding link_ok_def swap_link_def by (simp, blast)

lemma wrap15_range: "0 \<le> wrap15 n" "wrap15 n < 32768"
  by (simp_all add: kSequenceModulo_def)

lemma wrap15_diff:
  "K \<le> S \<Longrightarrow> int (S - K) < kSequenceModulo \<Longrightarrow>
   (wrap15 S - wrap15 K + kSequenceModulo) mod kSequenceModulo = int (S - K)"
proof -
  assume k: "K \<le> S" "int (S - K) < kSequenceModulo"
  have "(wrap15 S - wrap15 K + kSequenceModulo) mod kSequenceModulo = (int S - int K) mod kSequenceModulo"
    by (simp add: mod_diff_eq)
  also have "\<dots> = int (S - K)" using k by (simp add: of_nat_diff mod_pos_pos_trivial)
  finally show ?thesis .
qed

lemma wrap15_Suc: "(wrap15 n + 1) mod kSequenceModulo = wrap15 (Suc n)"
  unfolding mod_add_left_eq by (simp add: add.commute)

lemma way_lengths:
  assumes "way_ok a b gs hs sent got K"
  shows "K \<le> length got" "length got \<le> length sent" "outstanding a = int (length sent - K)"
    "set (acks hs) \<subseteq> {K..length got}" "int (length sent - K) < kSequenceModulo"
proof -
  show l: "length got \<le> length sent" using assms by (simp add: way_ok_def)
  show k: "K \<le> length got" using assms by (simp add: way_ok_def)
  show m: "int (length sent - K) < kSequenceModulo"
  proof -
    have "int (length sent - K) \<le> ap_k a" "conn_ok a" using assms unfolding way_ok_def within_def by blast+
    moreover have "ap_k a \<le> 32767" using \<open>conn_ok a\<close> by (simp add: conn_ok_def kMaxWindow_def)
    ultimately show ?thesis unfolding kSequenceModulo_def by linarith
  qed
  show "outstanding a = int (length sent - K)"
    using assms wrap15_diff [of K "length sent"] l k m by (simp add: way_ok_def outstanding_def)
  show "set (acks hs) \<subseteq> {K..length got}"
    using assms by (auto simp: way_ok_def sorted_append)
qed

text \<open>Receiving a count that the invariant admits is always accepted.\<close>

lemma ack_accepted:
  assumes w: "way_ok b a hs gs sent got J" and r: "J \<le> r" "r \<le> length got"
  shows "fst (acknowledge (wrap15 r) t b)"
    and "ap_ackedSeq (snd (acknowledge (wrap15 r) t b)) = wrap15 r"
proof -
  note l = way_lengths [OF w]
  have "advance (wrap15 r) b = int (r - J)"
    using wrap15_diff [of J r] r l w by (simp add: advance_def way_ok_def)
  then have "advance (wrap15 r) b \<le> outstanding b" using r l by simp
  then show "fst (acknowledge (wrap15 r) t b)" "ap_ackedSeq (snd (acknowledge (wrap15 r) t b)) = wrap15 r"
    using wrap15_range [of r] by (simp_all add: acknowledge_alt kSequenceModulo_def Let_def)
qed

lemma acknowledge_fields:
  "ap_sendSeq (snd (acknowledge r t c)) = ap_sendSeq c"
  "ap_recvSeq (snd (acknowledge r t c)) = ap_recvSeq c"
  "ap_k (snd (acknowledge r t c)) = ap_k c"
  "ap_sequenceErrors (snd (acknowledge r t c)) = ap_sequenceErrors c"
  "ap_malformed (snd (acknowledge r t c)) = ap_malformed c"
  by (simp_all add: acknowledge_alt Let_def)

section \<open>The steps keep the invariant\<close>

lemma i_sent_ok:
  assumes w: "way_ok a b gs hs sent got K" and v: "way_ok b a hs gs back mine J"
    and d: "0 \<le> t" "d \<noteq> []" "length d \<le> 249" "sendWindowOpen a"
  defines "g \<equiv> GI (length sent) (length mine) d"
  shows "fst (encodeInformation d t a) = wire g"
    and "way_ok (snd (encodeInformation d t a)) b (gs @ [g]) hs (sent @ [d]) got K"
    and "way_ok b (snd (encodeInformation d t a)) hs (gs @ [g]) back mine J"
proof -
  let ?a = "snd (encodeInformation d t a)"
  note l = way_lengths [OF w] and l' = way_lengths [OF v]
  have f: "ap_sendSeq ?a = (ap_sendSeq a + 1) mod kSequenceModulo" "ap_recvSeq ?a = ap_recvSeq a"
    "ap_ackedSeq ?a = ap_ackedSeq a" "ap_k ?a = ap_k a" "ap_sequenceErrors ?a = ap_sequenceErrors a"
    "ap_malformed ?a = ap_malformed a"
    using d by (auto simp: encodeInformation_def Let_def kMaxAsduBytes_def kMaxApduLength_def kControlBytes_def)
  have wk: "conn_ok a" "ap_sendSeq a = wrap15 (length sent)" "ap_ackedSeq a = wrap15 K"
    "map fst (infos gs) = [length got..<length sent]" "sent = got @ map snd (infos gs)"
    using w unfolding way_ok_def by blast+
  show "fst (encodeInformation d t a) = wire g"
    using encodeInformation_apdu [OF d(2-4)] wk v by (simp add: g_def way_ok_def)
  have "int (length sent - K) < ap_k a" using d(4) l(3) by (simp add: sendWindowOpen_def)
  then have k: "within (ap_k a) (length (sent @ [d])) K" using l(1,2) by (simp add: within_def)
  have s: "ap_sendSeq ?a = wrap15 (length (sent @ [d]))" using f(1) wk(2) wrap15_Suc by simp
  have i: "map fst (infos (gs @ [g])) = [length got..<length (sent @ [d])]"
    "sent @ [d] = got @ map snd (infos (gs @ [g]))"
    using wk(4) l(2) arg_cong [OF wk(5), of "\<lambda>x. x @ [d]"] by (simp_all add: g_def)
  have "conn_ok ?a" using encodeInformation_ok [OF wk(1) d(1)] .
  then show "way_ok ?a b (gs @ [g]) hs (sent @ [d]) got K"
    using w f k s i d(3) unfolding way_ok_def by (simp add: g_def)
  show "way_ok b ?a hs (gs @ [g]) back mine J"
    using v f l'(4) unfolding way_ok_def by (auto simp: g_def sorted_append)
qed

lemma ack_sent_ok:
  assumes w: "way_ok a b gs hs sent got K" and v: "way_ok b a hs gs back mine J"
    and a': "conn_ok a'" "ap_sendSeq a' = ap_sendSeq a" "ap_recvSeq a' = ap_recvSeq a"
      "ap_ackedSeq a' = ap_ackedSeq a" "ap_k a' = ap_k a"
      "ap_sequenceErrors a' = ap_sequenceErrors a" "ap_malformed a' = ap_malformed a"
    and g: "g = GS (length mine) \<or> (\<exists>u. g = GU u \<and> isKnownFunction u)"
  shows "way_ok a' b (gs @ [g]) hs sent got K" "way_ok b a' hs (gs @ [g]) back mine J"
proof -
  have g': "infos [g] = []" "gframe_ok g" using g by auto
  show "way_ok a' b (gs @ [g]) hs sent got K"
    using w a' g' unfolding way_ok_def by auto
  show "way_ok b a' hs (gs @ [g]) back mine J"
    using v a' way_lengths(4) [OF v] g unfolding way_ok_def by (auto simp: sorted_append)
qed

lemma touched_fields:
  "ap_sendSeq (touched t c) = ap_sendSeq c" "ap_ackedSeq (touched t c) = ap_ackedSeq c"
  "conn_ok (touched t c) = conn_ok c"
  by (simp_all add: conn_ok_touch)

lemma way_touched:
  "way_ok (touched t c) b gs hs sent got K = way_ok c b gs hs sent got K"
  "way_ok b (touched t c) gs hs sent got K = way_ok b c gs hs sent got K"
  by (simp_all add: way_ok_def conn_ok_touch)

text \<open>An acknowledgement carried by any frame moves the counters of its receiver.\<close>

lemma ack_received_ok:
  assumes v: "way_ok b a hs (g # gs) back mine J" and r: "acks [g] = [r]" and t: "0 \<le> t"
  defines "b' \<equiv> snd (acknowledge (wrap15 r) t b)"
  shows "fst (acknowledge (wrap15 r) t b)" "way_ok b' a hs gs back mine r"
    "way_ok a b X Y s q L \<Longrightarrow> way_ok a b' X Y s q L"
proof -
  have ag: "acks (g # gs) = r # acks gs" using r acks_append [of "[g]" gs] by simp
  have rng: "J \<le> r" "r \<le> length mine" using v ag unfolding way_ok_def by (auto simp: sorted_append)
  note acc = ack_accepted [OF v rng, of t]
  show "fst (acknowledge (wrap15 r) t b)" by (rule acc(1))
  have b: "conn_ok b" using v by (simp add: way_ok_def)
  have ok: "conn_ok b'"
    unfolding b'_def using acknowledge_ok(1) [OF b t, of "wrap15 r"] by (metis prod.collapse)
  note f = acknowledge_fields [of "wrap15 r" t b, folded b'_def]
  have "within (ap_k b) (length back) J" using v unfolding way_ok_def by blast
  then have "within (ap_k b) (length back) r" using rng unfolding within_def by linarith
  then show "way_ok b' a hs gs back mine r"
    using v ok f acc(2) ag unfolding way_ok_def b'_def by (auto simp: sorted_append)
  show "way_ok a b X Y s q L \<Longrightarrow> way_ok a b' X Y s q L" using f by (auto simp: way_ok_def)
qed

lemma acceptInformation_ok:
  "readSequence f 2 = ap_recvSeq c \<Longrightarrow> readSequence f 4 = q \<Longrightarrow> acknowledge q t c = (True, c1) \<Longrightarrow>
   6 \<le> ad_apduSize out \<Longrightarrow>
   acceptInformation f out t c =
     (Ok, out\<lparr>ad_type := Information, ad_sendSeq := ap_recvSeq c, ad_recvSeq := q,
        ad_asduOffset := 6, ad_asduSize := ad_apduSize out - 6\<rparr>,
      let c2 = c1\<lparr>ap_recvSeq := (ap_recvSeq c1 + 1) mod kSequenceModulo\<rparr>;
          c3 = (if ap_unackedRx c2 = 0 then c2\<lparr>ap_firstUnackedRxMs := t\<rparr> else c2)
      in c3\<lparr>ap_unackedRx := ap_unackedRx c3 + 1\<rparr>)"
  by (simp add: acceptInformation_def kApciBytes_def Let_def)

lemma info_received_ok:
  assumes w: "way_ok a b (GI n r d # gs) hs sent got K" and v: "way_ok b a hs (GI n r d # gs) back mine J"
    and t: "0 \<le> t"
  shows "\<exists>b' out. consume (wire (GI n r d)) t b = (Ok, out, b') \<and> ad_type out = Information
     \<and> slice (wire (GI n r d)) (ad_asduOffset out) (ad_asduSize out) = d
     \<and> way_ok a b' gs hs sent (got @ [d]) K \<and> way_ok b' a hs gs back mine r"
proof -
  let ?f = "wire (GI n r d)"
  have d: "length d \<le> 249" using w by (simp add: way_ok_def)
  have raw: "map fst (infos (GI n r d # gs)) = [length got..<length sent]"
    "sent = got @ map snd (infos (GI n r d # gs))" using w unfolding way_ok_def by blast+
  then have "length got < length sent" by simp
  then have n: "n = length got" "sent = got @ d # map snd (infos gs)"
    "map fst (infos gs) = [Suc (length got)..<length sent]"
    using raw upt_conv_Cons [of "length got" "length sent"] by simp_all
  note c = consume_i_apdu(1) [OF wrap15_range [of n] wrap15_range [of r] d, of t b]
    consume_i_apdu(2-4) [OF wrap15_range [of n] wrap15_range [of r] d]
  define b0 where "b0 = touched t b"
  have v0: "way_ok b0 a hs (GI n r d # gs) back mine J" and w0: "way_ok a b0 (GI n r d # gs) hs sent got K"
    using v w unfolding b0_def way_touched by blast+
  define b1 where "b1 = snd (acknowledge (wrap15 r) t b0)"
  have ar: "acks [GI n r d] = [r]" by simp
  note acc = ack_received_ok [OF v0 ar t, folded b1_def]
  have w1: "way_ok a b1 (GI n r d # gs) hs sent got K" by (rule acc(3) [OF w0])
  define b2 where "b2 = b1\<lparr>ap_recvSeq := (ap_recvSeq b1 + 1) mod kSequenceModulo\<rparr>"
  define b3 where "b3 = (if ap_unackedRx b2 = 0 then b2\<lparr>ap_firstUnackedRxMs := t\<rparr> else b2)"
  define b' where "b' = b3\<lparr>ap_unackedRx := ap_unackedRx b3 + 1\<rparr>"
  let ?out = "blank_apdu\<lparr>ad_apduSize := 6 + length d, ad_type := Information, ad_sendSeq := wrap15 n,
    ad_recvSeq := wrap15 r, ad_asduOffset := 6, ad_asduSize := length d\<rparr>"
  have seq: "wrap15 n = ap_recvSeq b0" using w0 n(1) by (simp add: way_ok_def)
  have ack: "acknowledge (wrap15 r) t b0 = (True, b1)"
    using acc(1) unfolding b1_def by (metis prod.collapse)
  have res: "consume ?f t b = (Ok, ?out, b')"
  proof -
    have "consume ?f t b = acceptInformation ?f (blank_apdu\<lparr>ad_apduSize := 6 + length d\<rparr>) t b0"
      unfolding wire.simps b0_def by (rule c(1))
    also have "\<dots> = (Ok, ?out, b')"
      using acceptInformation_ok [of ?f b0 "wrap15 r" t b1] c(2,3) seq ack
      by (simp add: b'_def b3_def b2_def Let_def)
    finally show ?thesis .
  qed
  have ok: "conn_ok b'"
    using consume_ok [of b t ?f] v t res by (simp add: way_ok_def)
  have f: "ap_sendSeq b' = ap_sendSeq b1" "ap_ackedSeq b' = ap_ackedSeq b1" "ap_k b' = ap_k b1"
    "ap_sequenceErrors b' = ap_sequenceErrors b1" "ap_malformed b' = ap_malformed b1"
    "ap_recvSeq b' = (ap_recvSeq b1 + 1) mod kSequenceModulo"
    by (simp_all add: b'_def b3_def b2_def)
  have "ap_recvSeq b1 = wrap15 (length got)" using w1 by (simp add: way_ok_def)
  then have rs: "ap_recvSeq b' = wrap15 (length (got @ [d]))" using f(6) wrap15_Suc by simp
  have "way_ok a b' gs hs sent (got @ [d]) K"
    using w1 rs n unfolding way_ok_def by (auto simp: sorted_append le_SucI)
  moreover have "way_ok b' a hs gs back mine r"
    using acc(2) f ok unfolding way_ok_def by auto
  ultimately show ?thesis using res c(4) by auto
qed

lemma supervisory_received_ok:
  assumes w: "way_ok a b (GS r # gs) hs sent got K" and v: "way_ok b a hs (GS r # gs) back mine J"
    and t: "0 \<le> t"
  shows "\<exists>b' out. consume (wire (GS r)) t b = (Ok, out, b') \<and> ad_type out \<noteq> Information
     \<and> way_ok a b' gs hs sent got K \<and> way_ok b' a hs gs back mine r"
proof -
  note c = consume_s_apdu(1) [OF wrap15_range [of r], of t b] consume_s_apdu(2) [OF wrap15_range [of r]]
  define b0 where "b0 = touched t b"
  have v0: "way_ok b0 a hs (GS r # gs) back mine J" and w0: "way_ok a b0 (GS r # gs) hs sent got K"
    using v w unfolding b0_def way_touched by blast+
  define b1 where "b1 = snd (acknowledge (wrap15 r) t b0)"
  have ar: "acks [GS r] = [r]" by simp
  note acc = ack_received_ok [OF v0 ar t, folded b1_def]
  have ack: "acknowledge (wrap15 r) t b0 = (True, b1)"
    using acc(1) unfolding b1_def by (metis prod.collapse)
  have "consume (wire (GS r)) t b
      = (Ok, blank_apdu\<lparr>ad_apduSize := 6, ad_type := Supervisory, ad_recvSeq := wrap15 r\<rparr>, b1)"
  proof -
    have "consume (wire (GS r)) t b
        = acceptSupervisory (wire (GS r)) (blank_apdu\<lparr>ad_apduSize := 6\<rparr>) t b0"
      unfolding wire.simps b0_def by (rule c(1))
    then show ?thesis using c(2) ack by (simp add: acceptSupervisory_def kApciBytes_def)
  qed
  moreover have "way_ok a b1 gs hs sent got K" using acc(3) [OF w0] by (auto simp: way_ok_def)
  ultimately show ?thesis using acc(2) by auto
qed

lemma unnumbered_received_ok:
  assumes w: "way_ok a b (GU u # gs) hs sent got K" and v: "way_ok b a hs (GU u # gs) back mine J"
  shows "\<exists>b' out. consume (wire (GU u)) t b = (Ok, out, b') \<and> ad_type out \<noteq> Information
     \<and> way_ok a b' gs hs sent got K \<and> way_ok b' a hs gs back mine J"
proof -
  have u: "isKnownFunction u" using w by (simp add: way_ok_def)
  have "way_ok a (noteConfirmation u (touched t b)) gs hs sent got K"
    using w by (auto simp: way_ok_def noteConfirmation_def)
  moreover have "way_ok (noteConfirmation u (touched t b)) a hs gs back mine J"
    using v by (auto simp: way_ok_def noteConfirmation_def conn_ok_touch)
  ultimately show ?thesis using consume_u_apdu [OF u, of t b] by simp
qed

lemma half_step_ok: "half_step l l' \<Longrightarrow> link_ok l \<Longrightarrow> link_ok l'"
proof (induction rule: half_step.induct)
  case (send_i t d l f a')
  obtain gs hs K J where i: "lk_ab l = map wire gs" "lk_ba l = map wire hs"
    "way_ok (lk_a l) (lk_b l) gs hs (lk_sent_a l) (lk_got_b l) K"
    "way_ok (lk_b l) (lk_a l) hs gs (lk_sent_b l) (lk_got_a l) J"
    using send_i(6) unfolding link_ok_def by blast
  have "length d \<le> 249" using send_i(3) by (simp add: kMaxAsduBytes_def kMaxApduLength_def kControlBytes_def)
  note s = i_sent_ok [OF i(3,4) send_i(1,2) this send_i(4), unfolded send_i(5) fst_conv snd_conv]
  show ?case
    unfolding link_ok_def
    by (intro exI [of _ "gs @ [GI (length (lk_sent_a l)) (length (lk_got_a l)) d]"] exI [of _ hs]
        exI [of _ K] exI [of _ J]) (use i s in simp)
next
  case (send_s t l f a')
  obtain gs hs K J where i: "lk_ab l = map wire gs" "lk_ba l = map wire hs"
    "way_ok (lk_a l) (lk_b l) gs hs (lk_sent_a l) (lk_got_b l) K"
    "way_ok (lk_b l) (lk_a l) hs gs (lk_sent_b l) (lk_got_a l) J"
    using send_s(3) unfolding link_ok_def by blast
  have a': "a' = snd (encodeSupervisory t (lk_a l))" "f = s_apdu (ap_recvSeq (lk_a l))"
    using send_s(2) encodeSupervisory_apdu [of t "lk_a l"] by simp_all
  have "conn_ok a'"
    using apci_step_ok [OF step_s [OF send_s(1), of "lk_a l"]] i(3) a' by (simp add: way_ok_def)
  then have s: "way_ok a' (lk_b l) (gs @ [GS (length (lk_got_a l))]) hs (lk_sent_a l) (lk_got_b l) K"
    "way_ok (lk_b l) a' hs (gs @ [GS (length (lk_got_a l))]) (lk_sent_b l) (lk_got_a l) J"
    by (intro ack_sent_ok [OF i(3,4)]; simp add: a' encodeSupervisory_def Let_def)+
  have "f = wire (GS (length (lk_got_a l)))" using a'(2) i(4) by (simp add: way_ok_def)
  then show ?case
    unfolding link_ok_def
    by (intro exI [of _ "gs @ [GS (length (lk_got_a l))]"] exI [of _ hs] exI [of _ K] exI [of _ J])
       (use i s in simp)
next
  case (send_u t u l f a')
  obtain gs hs K J where i: "lk_ab l = map wire gs" "lk_ba l = map wire hs"
    "way_ok (lk_a l) (lk_b l) gs hs (lk_sent_a l) (lk_got_b l) K"
    "way_ok (lk_b l) (lk_a l) hs gs (lk_sent_b l) (lk_got_a l) J"
    using send_u(4) unfolding link_ok_def by blast
  have a': "a' = snd (encodeUnnumbered u t (lk_a l))" "f = u_apdu u"
    using send_u(3) encodeUnnumbered_apdu [OF send_u(2), of t "lk_a l"] by simp_all
  have "conn_ok a'"
    using apci_step_ok [OF step_u [OF send_u(1), of "lk_a l" u]] i(3) a' by (simp add: way_ok_def)
  then have s: "way_ok a' (lk_b l) (gs @ [GU u]) hs (lk_sent_a l) (lk_got_b l) K"
    "way_ok (lk_b l) a' hs (gs @ [GU u]) (lk_sent_b l) (lk_got_a l) J"
    by (intro ack_sent_ok [OF i(3,4)]; simp add: a' encodeUnnumbered_def Let_def send_u(2))+
  show ?case
    unfolding link_ok_def
    by (intro exI [of _ "gs @ [GU u]"] exI [of _ hs] exI [of _ K] exI [of _ J]) (use i s a' in simp)
next
  case (deliver t l f fs r out b')
  obtain gs hs K J where i: "lk_ab l = map wire gs" "lk_ba l = map wire hs"
    "way_ok (lk_a l) (lk_b l) gs hs (lk_sent_a l) (lk_got_b l) K"
    "way_ok (lk_b l) (lk_a l) hs gs (lk_sent_b l) (lk_got_a l) J"
    using deliver(4) unfolding link_ok_def by blast
  obtain g gs' where g: "gs = g # gs'" "f = wire g" "fs = map wire gs'"
    using deliver(2) i(1) by (cases gs) auto
  show ?case
  proof (cases g)
    case (GI n q d)
    then show ?thesis
      using info_received_ok [OF i(3,4) [unfolded g(1) GI] deliver(1)] deliver(3) g i(2)
      unfolding link_ok_def by (auto simp del: wire.simps)
  next
    case (GS q)
    then show ?thesis
      using supervisory_received_ok [OF i(3,4) [unfolded g(1) GS] deliver(1)] deliver(3) g i(2)
      unfolding link_ok_def by (auto simp del: wire.simps)
  next
    case (GU u)
    then show ?thesis
      using unnumbered_received_ok [OF i(3,4) [unfolded g(1) GU], of t] deliver(3) g i(2)
      unfolding link_ok_def by (auto simp del: wire.simps)
  qed
qed

lemma link_step_ok: "link_step l l' \<Longrightarrow> link_ok l \<Longrightarrow> link_ok l'"
  unfolding link_step_def using half_step_ok link_ok_swap by blast

lemma link_reachable_ok: "link_reachable l \<Longrightarrow> link_ok l"
proof (induction rule: link_reachable.induct)
  case (link_start a b)
  then have "way_ok a b [] [] [] [] 0" "way_ok b a [] [] [] [] 0"
    by (auto simp: fresh_def way_ok_def within_def conn_ok_def)
  then show ?case unfolding link_ok_def by (intro exI [of _ "[]"] exI [of _ 0]) simp
qed (rule link_step_ok)

lemma link_ok_consequences:
  assumes "link_ok l"
  shows "\<exists>ds. lk_sent_a l = lk_got_b l @ ds" "\<exists>ds. lk_sent_b l = lk_got_a l @ ds"
    "ap_sequenceErrors (lk_a l) = 0" "ap_sequenceErrors (lk_b l) = 0"
    "ap_malformed (lk_a l) = 0" "ap_malformed (lk_b l) = 0"
    "outstanding (lk_a l) \<le> ap_k (lk_a l)" "outstanding (lk_b l) \<le> ap_k (lk_b l)"
  using assms unfolding link_ok_def way_ok_def conn_ok_def by auto

section \<open>The link never gets stuck\<close>

lemma swap_swap [simp]: "swap_link (swap_link l) = l"
  by (cases l) (simp add: swap_link_def)

lemma link_step_swap: "link_step (swap_link l) (swap_link l') = link_step l l'"
  by (auto simp: link_step_def)

lemma link_steps_swap: "link_step\<^sup>*\<^sup>* l l' \<Longrightarrow> link_step\<^sup>*\<^sup>* (swap_link l) (swap_link l')"
  by (induction rule: rtranclp_induct) (auto intro: rtranclp.rtrancl_into_rtrancl simp: link_step_swap)

lemma link_steps_ok: "link_step\<^sup>*\<^sup>* l l' \<Longrightarrow> link_ok l \<Longrightarrow> link_ok l'"
  by (induction rule: rtranclp_induct) (auto intro: link_step_ok)

text \<open>What is in flight can be delivered.\<close>

lemma drain_ab:
  "\<exists>l'. link_step\<^sup>*\<^sup>* l l' \<and> lk_ab l' = [] \<and> lk_ba l' = lk_ba l
    \<and> lk_sent_a l' = lk_sent_a l \<and> lk_sent_b l' = lk_sent_b l"
proof (induction "lk_ab l" arbitrary: l)
  case Nil
  then show ?case by (intro exI[of _ l]) simp
next
  case (Cons f fs)
  obtain r out b' where c: "consume f 0 (lk_b l) = (r, out, b')" by (metis prod.collapse)
  let ?m = "l\<lparr>lk_b := b', lk_ab := fs, lk_got_b := lk_got_b l @
      (if r = Ok \<and> ad_type out = Information then [slice f (ad_asduOffset out) (ad_asduSize out)] else [])\<rparr>"
  have "half_step l ?m" by (rule deliver[OF _ Cons.hyps(2)[symmetric] c]) simp
  then have step: "link_step l ?m" by (simp add: link_step_def)
  from Cons.hyps(1)[of ?m] obtain l' where "link_step\<^sup>*\<^sup>* ?m l'" "lk_ab l' = []" "lk_ba l' = lk_ba l"
      "lk_sent_a l' = lk_sent_a l" "lk_sent_b l' = lk_sent_b l" by auto
  with step show ?case by (meson converse_rtranclp_into_rtranclp)
qed

lemma drained:
  assumes "link_ok l" and "lk_ab l = []" and "lk_ba l = []"
  shows "\<exists>K J. way_ok (lk_a l) (lk_b l) [] [] (lk_sent_a l) (lk_got_b l) K
    \<and> way_ok (lk_b l) (lk_a l) [] [] (lk_sent_b l) (lk_got_a l) J
    \<and> lk_got_b l = lk_sent_a l \<and> lk_got_a l = lk_sent_b l"
  using assms unfolding link_ok_def by (fastforce simp: way_ok_def)

text \<open>A supervisory frame of the second endpoint then acknowledges everything the first one sent.\<close>

lemma acknowledge_all:
  assumes "link_ok l" and "lk_ab l = []" and "lk_ba l = []"
  shows "\<exists>l'. link_step\<^sup>*\<^sup>* l l' \<and> lk_ab l' = [] \<and> lk_ba l' = [] \<and> outstanding (lk_a l') = 0
    \<and> outstanding (lk_b l') = outstanding (lk_b l) \<and> lk_sent_a l' = lk_sent_a l \<and> lk_sent_b l' = lk_sent_b l"
proof -
  let ?n = "length (lk_got_b l)"
  obtain f' b' where b': "encodeSupervisory 0 (lk_b l) = (f', b')" by (metis prod.collapse)
  then have snd_b: "b' = snd (encodeSupervisory 0 (lk_b l))" by simp
  obtain K J where w: "way_ok (lk_a l) (lk_b l) [] [] (lk_sent_a l) (lk_got_b l) K"
      "way_ok (lk_b l) (lk_a l) [] [] (lk_sent_b l) (lk_got_a l) J" "lk_got_b l = lk_sent_a l"
    using drained[OF assms] by blast
  have f: "encodeSupervisory 0 (lk_b l) = (wire (GS ?n), b')"
    using encodeSupervisory_apdu[of 0 "lk_b l"] w(1) b' by (simp add: way_ok_def)
  have "conn_ok b'" using apci_step_ok[OF step_s[of 0 "lk_b l"]] w(2) b' by (simp add: way_ok_def)
  then have v: "way_ok b' (lk_a l) [GS ?n] [] (lk_sent_b l) (lk_got_a l) J"
    "way_ok (lk_a l) b' [] [GS ?n] (lk_sent_a l) (lk_got_b l) K"
    using ack_sent_ok[OF w(2,1), of b' "GS ?n"] by (simp_all add: snd_b encodeSupervisory_def Let_def)
  obtain a' out where a': "consume (wire (GS ?n)) 0 (lk_a l) = (Ok, out, a')" "ad_type out \<noteq> Information"
      "way_ok a' b' [] [] (lk_sent_a l) (lk_got_b l) ?n"
    using supervisory_received_ok[OF v, of 0] by auto
  have fields: "outstanding b' = outstanding (lk_b l)"
    by (simp add: snd_b outstanding_def encodeSupervisory_def Let_def)
  let ?l1 = "l\<lparr>lk_b := b', lk_ba := [wire (GS ?n)]\<rparr>" and ?l2 = "l\<lparr>lk_b := b', lk_a := a'\<rparr>"
  have "half_step (swap_link l) ((swap_link l)\<lparr>lk_a := b', lk_ab := lk_ab (swap_link l) @ [wire (GS ?n)]\<rparr>)"
    by (rule send_s[of 0]) (simp_all add: swap_link_def f del: wire.simps)
  moreover have "(swap_link l)\<lparr>lk_a := b', lk_ab := lk_ab (swap_link l) @ [wire (GS ?n)]\<rparr> = swap_link ?l1"
    using assms(3) by (simp add: swap_link_def)
  ultimately have s1: "link_step l ?l1" by (simp add: link_step_def)
  have "half_step (swap_link ?l1) ((swap_link ?l1)\<lparr>lk_b := a', lk_ab := [], lk_got_b := lk_got_b (swap_link ?l1) @
      (if Ok = Ok \<and> ad_type out = Information then [slice (wire (GS ?n)) (ad_asduOffset out) (ad_asduSize out)] else [])\<rparr>)"
    by (rule deliver[of 0]) (simp_all add: swap_link_def a'(1) del: wire.simps)
  moreover have "(swap_link ?l1)\<lparr>lk_b := a', lk_ab := [], lk_got_b := lk_got_b (swap_link ?l1) @
      (if Ok = Ok \<and> ad_type out = Information then [slice (wire (GS ?n)) (ad_asduOffset out) (ad_asduSize out)] else [])\<rparr>
      = swap_link ?l2"
    using a'(2) assms(3) by (simp add: swap_link_def del: wire.simps)
  ultimately have s2: "link_step ?l1 ?l2" by (simp add: link_step_def)
  have "outstanding a' = 0" using way_lengths(3)[OF a'(3)] w(3) by simp
  moreover have "link_step\<^sup>*\<^sup>* l ?l2" using s1 s2 by (meson converse_rtranclp_into_rtranclp rtranclp.rtrancl_refl)
  ultimately show ?thesis using assms(2,3) fields by (intro exI[of _ ?l2]) simp
qed

section \<open>Properties\<close>

text \<open>C28: Between two endpoints over an in-order byte stream, whatever the interleaving of sends
and deliveries in both directions, every accepted ASDU is the next one the peer sent (nothing lost,
duplicated or reordered), no sequence error or malformed frame is ever counted, and neither side has
more than its window \<open>k\<close> unacknowledged.\<close>

theorem link_delivers_in_order:
  assumes "link_reachable l"
  shows "(\<exists>ds. lk_sent_a l = lk_got_b l @ ds) \<and> (\<exists>ds. lk_sent_b l = lk_got_a l @ ds)
    \<and> ap_sequenceErrors (lk_a l) = 0 \<and> ap_malformed (lk_a l) = 0
    \<and> ap_sequenceErrors (lk_b l) = 0 \<and> ap_malformed (lk_b l) = 0
    \<and> outstanding (lk_a l) \<le> ap_k (lk_a l) \<and> outstanding (lk_b l) \<le> ap_k (lk_b l)"
  using link_ok_consequences[OF link_reachable_ok[OF assms]] by blast

definition example_link :: link where
  "example_link = (let l = \<lparr>lk_a = new_connection, lk_b = new_connection, lk_ab = [], lk_ba = [],
      lk_sent_a = [], lk_sent_b = [], lk_got_a = [], lk_got_b = []\<rparr>;
      (f, a) = encodeInformation [100, 1] 7 new_connection
    in l\<lparr>lk_a := a, lk_ab := [f], lk_sent_a := [[100, 1]]\<rparr>)"

lemma example_reachable: "link_reachable example_link"
proof -
  have "fresh new_connection"
    using new_connection_ok by (simp add: fresh_def new_connection_def)
  then have "link_reachable \<lparr>lk_a = new_connection, lk_b = new_connection, lk_ab = [], lk_ba = [],
      lk_sent_a = [], lk_sent_b = [], lk_got_a = [], lk_got_b = []\<rparr>" (is "link_reachable ?l")
    using link_start by blast
  moreover obtain f a where e: "encodeInformation [100, 1] 7 new_connection = (f, a)" by fastforce
  have "half_step ?l (?l\<lparr>lk_a := a, lk_ab := lk_ab ?l @ [f], lk_sent_a := lk_sent_a ?l @ [[100, 1]]\<rparr>)"
    by (rule send_i[of 7]) (use e in \<open>simp_all\<close>,
      simp_all add: kMaxAsduBytes_def kMaxApduLength_def kControlBytes_def new_connection_def
        sendWindowOpen_def outstanding_def kSequenceModulo_def)
  ultimately have "link_reachable (?l\<lparr>lk_a := a, lk_ab := lk_ab ?l @ [f],
      lk_sent_a := lk_sent_a ?l @ [[100, 1]]\<rparr>)"
    by (blast intro: link_next link_step_def[THEN iffD2])
  then show ?thesis by (simp add: example_link_def e)
qed

theorem link_delivers_in_order_witness: "\<exists>ds. lk_sent_a example_link = lk_got_b example_link @ ds"
  using link_delivers_in_order[OF example_reachable] by blast

text \<open>C29: The link never gets stuck: whatever has happened, deliveries and one supervisory frame each way
lead to a state in which both sides have accepted everything the other sent and both may send again.\<close>

theorem link_drains:
  assumes "link_reachable l"
  shows "\<exists>l'. link_step\<^sup>*\<^sup>* l l' \<and> lk_sent_a l' = lk_sent_a l \<and> lk_sent_b l' = lk_sent_b l
    \<and> lk_got_b l' = lk_sent_a l \<and> lk_got_a l' = lk_sent_b l
    \<and> sendWindowOpen (lk_a l') \<and> sendWindowOpen (lk_b l')"
proof -
  have ok: "link_ok l" using link_reachable_ok[OF assms] .
  obtain l1 where l1: "link_step\<^sup>*\<^sup>* l l1" "lk_ab l1 = []" "lk_sent_a l1 = lk_sent_a l" "lk_sent_b l1 = lk_sent_b l"
    using drain_ab[of l] by blast
  obtain l2 where l2: "link_step\<^sup>*\<^sup>* (swap_link l1) l2" "lk_ab l2 = []" "lk_ba l2 = []"
      "lk_sent_a l2 = lk_sent_b l" "lk_sent_b l2 = lk_sent_a l"
    using drain_ab[of "swap_link l1"] l1(2-4) by (auto simp: swap_link_def)
  have ok2: "link_ok l2" using link_steps_ok[OF l2(1)] link_steps_ok[OF l1(1) ok] link_ok_swap by blast
  obtain l3 where l3: "link_step\<^sup>*\<^sup>* l2 l3" "lk_ab l3 = []" "lk_ba l3 = []" "outstanding (lk_a l3) = 0"
      "lk_sent_a l3 = lk_sent_b l" "lk_sent_b l3 = lk_sent_a l"
    using acknowledge_all[OF ok2 l2(2,3)] l2(4,5) by auto
  have ok3: "link_ok (swap_link l3)" using link_steps_ok[OF l3(1) ok2] link_ok_swap by blast
  obtain l4 where l4: "link_step\<^sup>*\<^sup>* (swap_link l3) l4" "lk_ab l4 = []" "lk_ba l4 = []"
      "outstanding (lk_a l4) = 0" "outstanding (lk_b l4) = 0" "lk_sent_a l4 = lk_sent_a l" "lk_sent_b l4 = lk_sent_b l"
    using acknowledge_all[OF ok3] l3 by (auto simp: swap_link_def)
  have "link_step\<^sup>*\<^sup>* (swap_link l1) l3" using l2(1) l3(1) by (rule rtranclp_trans)
  from link_steps_swap[OF this] have "link_step\<^sup>*\<^sup>* l1 (swap_link l3)" by simp
  with l1(1) l4(1) have steps: "link_step\<^sup>*\<^sup>* l l4" by (meson rtranclp_trans)
  have ok4: "link_ok l4" using link_steps_ok[OF l4(1) ok3] .
  then have "conn_ok (lk_a l4)" "conn_ok (lk_b l4)" unfolding link_ok_def way_ok_def by blast+
  then have "1 \<le> ap_k (lk_a l4)" "1 \<le> ap_k (lk_b l4)" unfolding conn_ok_def by linarith+
  then have "sendWindowOpen (lk_a l4)" "sendWindowOpen (lk_b l4)"
    using l4(4,5) by (simp_all add: sendWindowOpen_def)
  then show ?thesis
    using steps drained[OF ok4 l4(2,3)] l4(6,7) by metis
qed

theorem link_drains_witness:
  "\<exists>l'. link_step\<^sup>*\<^sup>* example_link l' \<and> lk_got_b l' = [[100, 1]] \<and> sendWindowOpen (lk_a l')"
proof -
  obtain f a where "encodeInformation [100, 1] 7 new_connection = (f, a)" by fastforce
  then have sent: "lk_sent_a example_link = [[100, 1]]" by (simp add: example_link_def)
  from link_drains[OF example_reachable] show ?thesis unfolding sent by blast
qed

end
