(* ===== verification/Javascript.thy ===== *)
theory Javascript
  imports Complex_Main "HOL-Library.Word" Prelude
begin

unbundle bit_operations_syntax

text \<open>
  The part of JavaScript the scripts under \<^verbatim>\<open>app/rcc\<close> use, shared by every script model.

  \<^item> \<open>jsval\<close>: script values.  Numbers are rationals: the doubles the scripts compute with are exact
    on the integers and the powers of two they decode, and the rounding of the remaining products
    (scale factors such as \<open>1e-7\<close>) is not modelled.  Objects are association lists, newest
    binding first for a key that is written twice by \<open>put_prop\<close>.
  \<^item> The bitwise operators work on 32-bit signed integers (\<open>to_int32\<close>), as the language has it;
    a shift counts modulo 32.
  \<^item> Frames of bytes are lists of 8-bit words; reading past the end gives \<open>undefined\<close>, which is 0
    as the operand of a bitwise operator (\<open>rd\<close>) and the value \<open>Undefined\<close> elsewhere
    (\<open>element\<close>).
  \<^item> Strings hold code units below 256, which covers the text the scripts take apart.
\<close>

section \<open>Values\<close>

datatype jsval = Undefined | Null | Bool bool | Num rat | NaN | Infinity | NegInfinity
  | Str string | Arr "jsval list" | Obj "(string \<times> jsval) list"

type_synonym byte = "8 word"

abbreviation NumI :: "int \<Rightarrow> jsval" where
  "NumI n \<equiv> Num (of_int n)"

definition truthy :: "jsval \<Rightarrow> bool" where
  "truthy v = (case v of Undefined \<Rightarrow> False | Null \<Rightarrow> False | Bool b \<Rightarrow> b | Num r \<Rightarrow> r \<noteq> 0
     | NaN \<Rightarrow> False | Str s \<Rightarrow> s \<noteq> [] | _ \<Rightarrow> True)"

text \<open>The value of \<open>a || b\<close>.\<close>

definition or_else :: "jsval \<Rightarrow> jsval \<Rightarrow> jsval" where
  "or_else a b = (if truthy a then a else b)"

text \<open>Properties of an object, reading and writing; other values have none of the names used.\<close>

definition props :: "jsval \<Rightarrow> (string \<times> jsval) list" where
  "props v = (case v of Obj kvs \<Rightarrow> kvs | _ \<Rightarrow> [])"

definition get_prop :: "jsval \<Rightarrow> string \<Rightarrow> jsval" where
  "get_prop v k = (case map_of (props v) k of Some x \<Rightarrow> x | None \<Rightarrow> Undefined)"

definition has_own :: "jsval \<Rightarrow> string \<Rightarrow> bool" where
  "has_own v k \<longleftrightarrow> k \<in> fst ` set (props v)"

fun assoc_put :: "string \<Rightarrow> 'a \<Rightarrow> (string \<times> 'a) list \<Rightarrow> (string \<times> 'a) list" where
  "assoc_put k x [] = [(k, x)]"
| "assoc_put k x ((k', y) # kvs) = (if k = k' then (k, x) # kvs else (k', y) # assoc_put k x kvs)"

definition elements :: "jsval \<Rightarrow> jsval list" where
  "elements v = (case v of Arr xs \<Rightarrow> xs | _ \<Rightarrow> [])"

text \<open>Writing an element of an array: in range it is replaced, past the end the array grows.\<close>

definition set_element :: "jsval list \<Rightarrow> nat \<Rightarrow> jsval \<Rightarrow> jsval list" where
  "set_element xs i v = (if i < length xs then xs[i := v]
     else xs @ replicate (i - length xs) Undefined @ [v])"

text \<open>\<open>for (i = 0; i < values.length && i < indices.length; i++) out[indices[i]] = values[i]\<close>.\<close>

fun store_values :: "nat list \<Rightarrow> jsval list \<Rightarrow> jsval list \<Rightarrow> jsval list" where
  "store_values (i # is) (v # vs) out = store_values is vs (set_element out i v)"
| "store_values _ _ out = out"

lemma map_of_assoc_put [simp]: "map_of (assoc_put k x kvs) = (map_of kvs)(k \<mapsto> x)"
  by (induction kvs) auto

lemma keys_assoc_put [simp]: "fst ` set (assoc_put k x kvs) = insert k (fst ` set kvs)"
  by (simp flip: dom_map_of_conv_image_fst)

lemma length_set_element [simp]: "i < length xs \<Longrightarrow> length (set_element xs i v) = length xs"
  by (simp add: set_element_def)

lemma length_store_values:
  "list_all (\<lambda>i. i < length out) is \<Longrightarrow> length (store_values is vs out) = length out"
  by (induction "is" vs out rule: store_values.induct) simp_all

lemma store_values_other:
  "\<lbrakk>list_all (\<lambda>i. i < length out) is; k \<notin> set is\<rbrakk> \<Longrightarrow> store_values is vs out ! k = out ! k"
  by (induction "is" vs out rule: store_values.induct) (auto simp: set_element_def)

lemma store_values_at:
  "\<lbrakk>list_all (\<lambda>i. i < length out) is; distinct is; j < length is; j < length vs\<rbrakk>
   \<Longrightarrow> store_values is vs out ! (is ! j) = vs ! j"
proof (induction "is" vs out arbitrary: j rule: store_values.induct)
  case (1 i "is" v vs out)
  have "list_all (\<lambda>k. k < length (set_element out i v)) is" using 1 by simp
  then show ?case
    using 1 store_values_other[of "set_element out i v" "is" i vs]
    by (cases j) (auto simp: set_element_def)
qed auto

text \<open>A loop that writes the first \<open>n\<close> elements.\<close>

lemma fold_set_elements:
  "n \<le> length xs \<Longrightarrow> fold (\<lambda>i xs. set_element xs i (f i)) [0..<n] xs = map f [0..<n] @ drop n xs"
proof (induction n)
  case (Suc n)
  then have "drop n xs = xs ! n # drop (Suc n) xs" by (simp add: Cons_nth_drop_Suc)
  moreover have "set_element (as @ x # bs) (length as) v = as @ v # bs" for as bs x v
    by (simp add: set_element_def)
  from this[of "map f [0..<n]"] have "set_element (map f [0..<n] @ x # bs) n v = map f [0..<n] @ v # bs" for bs x v
    by simp
  ultimately show ?case using Suc by simp
qed simp

text \<open>How natural numbers are printed, in base ten and with \<^verbatim>\<open>toString(16)\<close>.\<close>

fun nat_digits :: "nat \<Rightarrow> string" where
  "nat_digits n = (if n < 10 then [char_of (48 + n)]
     else nat_digits (n div 10) @ [char_of (48 + n mod 10)])"

declare nat_digits.simps [simp del]

fun hex_digits :: "nat \<Rightarrow> string" where
  "hex_digits n = (let d = n mod 16; c = char_of (if d < 10 then 48 + d else 87 + d) in
     if n < 16 then [c] else hex_digits (n div 16) @ [c])"

declare hex_digits.simps [simp del]

section \<open>32-bit integer operators\<close>

definition to_int32 :: "int \<Rightarrow> int" where
  "to_int32 n = signed_take_bit 31 n"

definition shl :: "int \<Rightarrow> nat \<Rightarrow> int" where
  "shl a n = to_int32 (push_bit (n mod 32) (to_int32 a))"

definition sar :: "int \<Rightarrow> nat \<Rightarrow> int" where
  "sar a n = drop_bit (n mod 32) (to_int32 a)"

definition shr_zero :: "int \<Rightarrow> nat \<Rightarrow> int" where
  "shr_zero a n = drop_bit (n mod 32) (take_bit 32 a)"

definition bit_and :: "int \<Rightarrow> int \<Rightarrow> int" where
  "bit_and a b = (to_int32 a AND to_int32 b)"

definition bit_or :: "int \<Rightarrow> int \<Rightarrow> int" where
  "bit_or a b = (to_int32 a OR to_int32 b)"

definition bit_xor :: "int \<Rightarrow> int \<Rightarrow> int" where
  "bit_xor a b = (to_int32 a XOR to_int32 b)"

definition rd :: "byte list \<Rightarrow> nat \<Rightarrow> int" where
  "rd xs i = (if i < length xs then uint (xs ! i) else 0)"

definition element :: "byte list \<Rightarrow> nat \<Rightarrow> jsval" where
  "element xs i = (if i < length xs then NumI (uint (xs ! i)) else Undefined)"

lemma rd_range [simp]: "0 \<le> rd xs i" "rd xs i < 256"
  using uint_lt2p[of "xs ! i"] by (auto simp: rd_def)

lemma to_int32_small: "\<lbrakk>- 2147483648 \<le> n; n < 2147483648\<rbrakk> \<Longrightarrow> to_int32 n = n"
  by (simp add: to_int32_def signed_take_bit_int_eq_self)

lemma to_int32_range: "- 2147483648 \<le> to_int32 n" "to_int32 n < 2147483648"
  using signed_take_bit_int_greater_eq_minus_exp[of 31 n] signed_take_bit_int_less_exp[of 31 n]
  by (simp_all add: to_int32_def)

lemma to_int32_mod: "to_int32 n = (n + 2147483648) mod 4294967296 - 2147483648"
  by (simp add: to_int32_def signed_take_bit_eq_take_bit_shift take_bit_eq_mod)

lemma to_int32_to_int32 [simp]: "to_int32 (to_int32 n) = to_int32 n"
  by (simp add: to_int32_def)

text \<open>Operators on operands in range are the operations on the integers.\<close>

lemma to_int32_congs:
  "to_int32 (to_int32 a + b) = to_int32 (a + b)" "to_int32 (a + to_int32 b) = to_int32 (a + b)"
  "to_int32 (to_int32 a * c) = to_int32 (a * c)" "to_int32 (c * to_int32 a) = to_int32 (c * a)"
  unfolding to_int32_def
  by (metis signed_take_bit_add signed_take_bit_signed_take_bit min.idem)
    (metis signed_take_bit_add signed_take_bit_signed_take_bit min.idem,
     metis signed_take_bit_mult signed_take_bit_signed_take_bit min.idem,
     metis signed_take_bit_mult signed_take_bit_signed_take_bit min.idem)

lemma shl_eq: "n < 32 \<Longrightarrow> shl a n = to_int32 (a * 2 ^ n)"
  by (simp add: shl_def push_bit_eq_mult to_int32_congs)

lemma bit_or_high:
  assumes "0 \<le> lo" and "lo < 2 ^ n" and "n < 32"
  shows "bit_or lo (shl a n) = to_int32 (lo + a * 2 ^ n)"
proof -
  have lo: "lo = take_bit n lo" using assms by (simp add: take_bit_int_eq_self)
  have "bit_or lo (shl a n) = to_int32 (lo OR push_bit n (to_int32 a))"
    using assms(3)
    by (auto simp: bit_or_def shl_def to_int32_def intro!: bit_eqI simp: bit_simps)
  also have "lo OR push_bit n (to_int32 a) = lo + push_bit n (to_int32 a)"
    by (subst (1 2) lo, rule disjunctive_add_eq_or [symmetric], rule bit_eqI)
      (auto simp: bit_simps)
  finally have "bit_or lo (shl a n) = to_int32 (lo + to_int32 a * 2 ^ n)"
    by (simp add: push_bit_eq_mult)
  then show ?thesis by (metis to_int32_congs(2,3))
qed

lemma bit_or_commute: "bit_or a b = bit_or b a"
  by (simp add: bit_or_def or.commute)

lemma bit_or_low:
  "\<lbrakk>0 \<le> lo; lo < 2 ^ n; n < 32\<rbrakk> \<Longrightarrow> bit_or (shl a n) lo = to_int32 (a * 2 ^ n + lo)"
  by (simp add: bit_or_commute[of "shl a n"] bit_or_high add.commute)

lemma bit_and_mask:
  assumes "n < 31"
  shows "bit_and a (mask n) = a mod 2 ^ n"
proof -
  have "to_int32 (mask n) = mask n"
    using assms power_increasing[of n 30 "2 :: int"]
    by (intro to_int32_small)
      (auto simp: mask_eq_exp_minus_1 intro: order.strict_trans[of _ 0])
  then have "bit_and a (mask n) = take_bit n (to_int32 a)"
    by (simp add: bit_and_def take_bit_eq_mask)
  also have "\<dots> = a mod 2 ^ n"
    using assms by (simp add: to_int32_def take_bit_signed_take_bit flip: take_bit_eq_mod)
  finally show ?thesis .
qed

lemma sar_eq: "n < 32 \<Longrightarrow> sar a n = to_int32 a div 2 ^ n"
  by (simp add: sar_def drop_bit_eq_div)

section \<open>Fields of a frame\<close>

text \<open>The unsigned and the two's complement value of a byte sequence, little-endian.\<close>

fun le_value :: "byte list \<Rightarrow> int" where
  "le_value [] = 0"
| "le_value (b # bs) = uint b + 256 * le_value bs"

definition twos :: "nat \<Rightarrow> int \<Rightarrow> int" where
  "twos n v = (if 2 * v < 2 ^ n then v else v - 2 ^ n)"

definition field :: "byte list \<Rightarrow> nat \<Rightarrow> nat \<Rightarrow> byte list" where
  "field xs i n = take n (drop i xs)"

lemma le_value_range: "0 \<le> le_value bs \<and> le_value bs < 256 ^ length bs"
proof (induction bs)
  case (Cons b bs)
  then show ?case using uint_lt2p[of b] by auto
qed simp

lemma field_Cons: "i < length xs \<Longrightarrow> field xs i (Suc n) = xs ! i # field xs (Suc i) n"
  by (simp add: field_def Cons_nth_drop_Suc[symmetric])

lemma field_0 [simp]: "field xs i 0 = []"
  by (simp add: field_def)

lemma rd_nth: "i < length xs \<Longrightarrow> rd xs i = uint (xs ! i)"
  by (simp add: rd_def)

lemma rd_out: "length xs \<le> i \<Longrightarrow> rd xs i = 0"
  by (simp add: rd_def)

text \<open>The four ways the parsers put bytes together.\<close>

lemma or_le16: "bit_or (rd xs i) (shl (rd xs j) 8) = rd xs i + 256 * rd xs j"
  using rd_range[of xs i] rd_range[of xs j]
  by (subst bit_or_high) (auto simp: to_int32_small simp del: rd_range)

lemma or_be16: "bit_or (shl (rd xs i) 8) (rd xs j) = 256 * rd xs i + rd xs j"
  using or_le16[of xs j i] by (simp add: bit_or_commute add.commute)

lemma or_le32:
  "bit_or (bit_or (bit_or (rd xs i) (shl (rd xs j) 8)) (shl (rd xs k) 16)) (shl (rd xs l) 24)
   = to_int32 (rd xs i + 256 * rd xs j + 65536 * rd xs k + 16777216 * rd xs l)"
proof -
  note r = rd_range[of xs i] rd_range[of xs j] rd_range[of xs k] rd_range[of xs l]
  have "bit_or (rd xs i + 256 * rd xs j) (shl (rd xs k) 16)
      = rd xs i + 256 * rd xs j + 65536 * rd xs k"
    using r by (subst bit_or_high) (auto simp: to_int32_small simp del: rd_range)
  then show ?thesis
    using r by (simp only: or_le16) (subst bit_or_high, auto simp: mult.commute simp del: rd_range)
qed

lemma or_be32:
  "bit_or (bit_or (bit_or (shl (rd xs l) 24) (shl (rd xs k) 16)) (shl (rd xs j) 8)) (rd xs i)
   = to_int32 (rd xs i + 256 * rd xs j + 65536 * rd xs k + 16777216 * rd xs l)"
proof -
  have "bit_or (bit_or a b) c = bit_or a (bit_or b c)"
    and "bit_or a (bit_or b c) = bit_or b (bit_or a c)" for a b c
    by (auto simp: bit_or_def to_int32_def bit_simps intro!: bit_eqI)
  then show ?thesis
    unfolding or_le32 [symmetric] by (simp only: bit_or_commute)
qed

lemma le_field2: "i + 1 < length xs \<Longrightarrow> le_value (field xs i 2) = rd xs i + 256 * rd xs (i + 1)"
  by (simp add: numeral_2_eq_2 field_Cons rd_nth)

lemma le_field4:
  "i + 3 < length xs \<Longrightarrow> le_value (field xs i 4)
     = rd xs i + 256 * rd xs (i + 1) + 65536 * rd xs (i + 2) + 16777216 * rd xs (i + 3)"
  by (simp add: numeral_eq_Suc field_Cons rd_nth)

lemma to_int32_twos:
  "\<lbrakk>0 \<le> v; v < 4294967296\<rbrakk> \<Longrightarrow> to_int32 v = twos 32 v"
  by (auto simp: to_int32_mod twos_def mod_pos_pos_trivial)
    (smt (verit) mod_add_self2 mod_pos_pos_trivial minus_mod_self2)

lemma twos16: "twos 16 v = (if v > 32767 then v - 65536 else v)"
  by (simp add: twos_def)

section \<open>Running a script\<close>

text \<open>A script function that keeps state is called once for every input; what the calls return.\<close>

fun outputs :: "('s \<Rightarrow> 'a \<Rightarrow> 'b \<times> 's) \<Rightarrow> 's \<Rightarrow> 'a list \<Rightarrow> 'b list" where
  "outputs step s [] = []"
| "outputs step s (x # xs) = (let (y, s) = step s x in y # outputs step s xs)"

lemma length_outputs [simp]: "length (outputs step s xs) = length xs"
  by (induction xs arbitrary: s) (simp_all add: split_beta)

end
