(* ===== verification/Base64.thy ===== *)
theory Base64
  imports Javascript
begin

unbundle bit_operations_syntax

text \<open>
  Binary data as text: the encoder every script of the SDK uses for binary arguments
  (\<^verbatim>\<open>SerialStudio._toBase64\<close>, \<^verbatim>\<open>_encode\<close> in \<^verbatim>\<open>app/rcc/api/SerialStudio.js\<close>), and
  the two frame parsers that read such text
  (\<^verbatim>\<open>parser/js/base64_encoded.js\<close>, \<^verbatim>\<open>parser/js/hexadecimal_bytes.js\<close>).
  The main lemmas: what the encoder writes the parser reads back, for every byte sequence.
\<close>

section \<open>Characters\<close>

definition js_space :: "char \<Rightarrow> bool" where
  "js_space c \<longleftrightarrow> of_char c \<in> {9, 10, 11, 12, 13, 32, 160 :: nat}"

definition hex_digit :: "char \<Rightarrow> int option" where
  "hex_digit c = (let n = (of_char c :: int) in
     if 48 \<le> n \<and> n \<le> 57 then Some (n - 48)
     else if 97 \<le> n \<and> n \<le> 102 then Some (n - 87)
     else if 65 \<le> n \<and> n \<le> 70 then Some (n - 55) else None)"

text \<open>\<^verbatim>\<open>parseInt(s, 16)\<close> on a string without leading blanks or prefix: the longest run of
digits, \<open>NaN\<close> when there is none.\<close>

fun hex_run :: "int \<Rightarrow> string \<Rightarrow> int" where
  "hex_run acc [] = acc"
| "hex_run acc (c # s) = (case hex_digit c of Some d \<Rightarrow> hex_run (16 * acc + d) s | None \<Rightarrow> acc)"

definition parseInt16 :: "string \<Rightarrow> int option" where
  "parseInt16 s = (case s of c # s' \<Rightarrow>
     (case hex_digit c of Some d \<Rightarrow> Some (hex_run d s') | None \<Rightarrow> None) | [] \<Rightarrow> None)"

text \<open>The function itself: it skips leading blanks and takes a sign and the prefix \<open>0x\<close>.\<close>

definition parse_hex_int :: "string \<Rightarrow> int option" where
  "parse_hex_int s =
     (let s = dropWhile js_space s;
          neg = (s \<noteq> [] \<and> hd s = CHR ''-'');
          s = (if s \<noteq> [] \<and> hd s \<in> {CHR ''-'', CHR ''+''} then tl s else s);
          s = (if take 2 s \<in> {''0x'', ''0X''} then drop 2 s else s)
      in map_option (\<lambda>v. if neg then - v else v) (parseInt16 s))"

definition js_code :: "char \<Rightarrow> int" where
  "js_code c = int (of_char c)"

definition js_char :: "int \<Rightarrow> char" where
  "js_char n = char_of (nat (n mod 256))"

lemma js_code_range [simp]: "0 \<le> js_code c" "js_code c < 256"
  using nat_of_char_less_256[of c] by (simp_all add: js_code_def)

lemma js_code_char: "js_code (js_char n) = n mod 256"
  by (simp add: js_code_def js_char_def nat_less_iff)

section \<open>The encoder of the SDK\<close>

definition b64 :: string where
  "b64 = ''ABCDEFGHIJKLMNOPQRSTUVWXYZabcdefghijklmnopqrstuvwxyz0123456789+/''"

definition charAt :: "string \<Rightarrow> int \<Rightarrow> string" where
  "charAt s i = (if 0 \<le> i \<and> nat i < length s then [s ! nat i] else [])"

function toBase64_from :: "int list \<Rightarrow> nat \<Rightarrow> string" where
  "toBase64_from bytes i = (let n = length bytes in
     if i < n then
       (let b1 = bit_and (bytes ! i) 255;
            has2 = i + 1 < n; has3 = i + 2 < n;
            b2 = (if has2 then bit_and (bytes ! (i + 1)) 255 else 0);
            b3 = (if has3 then bit_and (bytes ! (i + 2)) 255 else 0);
            t = bit_or (bit_or (shl b1 16) (shl b2 8)) b3
        in charAt b64 (bit_and (sar t 18) 63)
         @ charAt b64 (bit_and (sar t 12) 63)
         @ (if has2 then charAt b64 (bit_and (sar t 6) 63) else ''='')
         @ (if has3 then charAt b64 (bit_and t 63) else ''='')
         @ toBase64_from bytes (i + 3))
     else [])"
  by pat_completeness auto
termination
  by (relation "measure (\<lambda>(bytes, i). length bytes - i)") auto

declare toBase64_from.simps [simp del]

definition toBase64 :: "int list \<Rightarrow> string" where
  "toBase64 bytes = toBase64_from bytes 0"

text \<open>\<^verbatim>\<open>hex.substr(i, 2)\<close> for \<open>i = 0, 2, ...\<close>, parsed.\<close>

function hex_pairs_from :: "string \<Rightarrow> nat \<Rightarrow> int option list" where
  "hex_pairs_from hex i = (if i < length hex
     then parseInt16 (take 2 (drop i hex)) # hex_pairs_from hex (i + 2) else [])"
  by pat_completeness auto
termination
  by (relation "measure (\<lambda>(hex, i). length hex - i)") auto

declare hex_pairs_from.simps [simp del]

definition SS_Base64 :: rat where "SS_Base64 = 0"
definition SS_Hex :: rat where "SS_Hex = 1"
definition SS_Text :: rat where "SS_Text = 2"

text \<open>\<^verbatim>\<open>String(value)\<close>; how a number is printed is the parameter \<open>numstr\<close>.\<close>

fun js_string :: "(jsval \<Rightarrow> string) \<Rightarrow> jsval \<Rightarrow> string" where
  "js_string numstr (Str s) = s"
| "js_string numstr Undefined = ''undefined''"
| "js_string numstr Null = ''null''"
| "js_string numstr (Bool b) = (if b then ''true'' else ''false'')"
| "js_string numstr v = numstr v"

definition encode :: "(jsval \<Rightarrow> string) \<Rightarrow> jsval \<Rightarrow> jsval \<Rightarrow> jsval" where
  "encode numstr value encoding =
     (if encoding = Num SS_Hex then
        (let hex = filter (\<lambda>c. hex_digit c \<noteq> None) (js_string numstr value);
             bytes = map the (hex_pairs_from hex 0)
         in Str (toBase64 bytes))
      else if encoding = Num SS_Text then
        (let out = map (\<lambda>c. bit_and (js_code c) 255) (js_string numstr value)
         in Str (toBase64 out))
      else value)"

section \<open>The Base64 parser\<close>

definition strip_padding :: "string \<Rightarrow> string" where
  "strip_padding s = rev (dropWhile (\<lambda>c. js_space c \<or> c = CHR ''='') (rev s))"

definition indexOf_char :: "string \<Rightarrow> char \<Rightarrow> int" where
  "indexOf_char s c = (let n = length (takeWhile (\<lambda>x. x \<noteq> c) s) in
     if n < length s then int n else -1)"

fun atob_loop :: "int \<Rightarrow> nat \<Rightarrow> string \<Rightarrow> string + int list" where
  "atob_loop buffer bits [] = Inr []"
| "atob_loop buffer bits (c # s) =
     (let value = indexOf_char b64 c in
      if value = -1 then Inl ''Invalid character in Base64 string''
      else (let buffer = bit_or (shl buffer 6) value; bits = bits + 6 in
        if bits \<ge> 8 then
          (case atob_loop buffer (bits - 8) s of
             Inl e \<Rightarrow> Inl e
           | Inr out \<Rightarrow> Inr (bit_and (sar buffer (bits - 8)) 255 # out))
        else atob_loop buffer bits s))"

definition atob :: "string \<Rightarrow> string + int list" where
  "atob input = atob_loop 0 0 (strip_padding input)"

definition parse_base64 :: "string \<Rightarrow> int list" where
  "parse_base64 frame = (case atob frame of Inr out \<Rightarrow> out | Inl e \<Rightarrow> [])"

section \<open>The hexadecimal parser\<close>

definition parse_hex :: "string \<Rightarrow> int option list" where
  "parse_hex frame = hex_pairs_from (filter (\<lambda>c. \<not> js_space c) frame) 0"

section \<open>Encoder and parser agree\<close>

text \<open>The six-bit values of a byte sequence, as RFC 4648 groups them.\<close>

fun sextets :: "int list \<Rightarrow> int list" where
  "sextets [] = []"
| "sextets [a] = [a div 4, a mod 4 * 16]"
| "sextets [a, b] = [a div 4, a mod 4 * 16 + b div 16, b mod 16 * 4]"
| "sextets (a # b # c # bs) =
     [a div 4, a mod 4 * 16 + b div 16, b mod 16 * 4 + c div 64, c mod 64] @ sextets bs"

definition padding :: "nat \<Rightarrow> string" where
  "padding n = replicate ((3 - n mod 3) mod 3) CHR ''=''"

definition byte_values :: "int list \<Rightarrow> bool" where
  "byte_values bs \<longleftrightarrow> list_all (\<lambda>b. 0 \<le> b \<and> b < 256) bs"

abbreviation b64_digit :: "int \<Rightarrow> char" where
  "b64_digit v \<equiv> b64 ! nat v"

lemma length_b64: "length b64 = 64"
  by (simp add: b64_def)

lemma distinct_b64: "distinct b64"
  by (simp add: b64_def)

lemma b64_not_padding: "list_all (\<lambda>c. \<not> (js_space c \<or> c = CHR ''='')) b64"
  by (simp add: b64_def js_space_def)

lemma indexOf_char_nth:
  assumes "distinct s" and "i < length s"
  shows "indexOf_char s (s ! i) = int i"
proof -
  have "takeWhile (\<lambda>x. x \<noteq> s ! i) s = take i s"
    by (rule takeWhile_eq_take_P_nth) (use assms in \<open>auto simp: nth_eq_iff_index_eq\<close>)
  then show ?thesis using assms by (simp add: indexOf_char_def)
qed

lemma indexOf_digit: "\<lbrakk>0 \<le> v; v < 64\<rbrakk> \<Longrightarrow> indexOf_char b64 (b64_digit v) = v"
  using indexOf_char_nth[OF distinct_b64, of "nat v"] by (simp add: length_b64 nat_less_iff)

lemma charAt_b64: "\<lbrakk>0 \<le> v; v < 64\<rbrakk> \<Longrightarrow> charAt b64 v = [b64_digit v]"
  by (simp add: charAt_def length_b64 nat_less_iff)

lemma and_255: "bit_and n 255 = n mod 256"
  using bit_and_mask[of 8 n] by (simp add: mask_eq_exp_minus_1)

lemma and_63: "bit_and n 63 = n mod 64"
  using bit_and_mask[of 6 n] by (simp add: mask_eq_exp_minus_1)

lemma or_three:
  assumes "0 \<le> a" "a < 256" "0 \<le> b" "b < 256" "0 \<le> c" "c < 256"
  shows "bit_or (bit_or (shl a 16) (shl b 8)) c = 65536 * a + 256 * b + c"
proof -
  have "shl b 8 = 256 * b" using assms by (simp add: shl_eq to_int32_small)
  then have "bit_or (shl a 16) (shl b 8) = 65536 * a + 256 * b"
    using assms by (simp add: bit_or_low to_int32_small)
  also have "\<dots> = shl (256 * a + b) 8" using assms by (simp add: shl_eq to_int32_small)
  finally show ?thesis using assms by (simp add: bit_or_low to_int32_small)
qed

text \<open>The high and the low part of a number, and the four six-bit values of a 24-bit group.\<close>

lemma high_part: "\<lbrakk>0 \<le> q; q < m\<rbrakk> \<Longrightarrow> (m * w + q) div m = (w :: int)"
  by simp

lemma low_part: "\<lbrakk>0 \<le> q; q < m\<rbrakk> \<Longrightarrow> (m * w + q) mod m = (q :: int)"
  by simp

lemma group_values:
  fixes a b c :: int
  assumes "0 \<le> a" "a < 256" "0 \<le> b" "b < 256" "0 \<le> c" "c < 256"
  shows "(65536 * a + 256 * b + c) div 262144 mod 64 = a div 4"
    and "(65536 * a + 256 * b + c) div 4096 mod 64 = a mod 4 * 16 + b div 16"
    and "(65536 * a + 256 * b + c) div 64 mod 64 = b mod 16 * 4 + c div 64"
    and "(65536 * a + 256 * b + c) mod 64 = c mod 64"
proof -
  let ?t = "65536 * a + 256 * b + c"
  have cd: "0 \<le> c div 64" "c div 64 < 4" using assms by auto
  have bd: "0 \<le> b div 16" "b div 16 < 16" using assms by auto
  have t16: "?t div 65536 = a" using assms by (intro int_div_pos_eq[where r = "256 * b + c"]) auto
  have t8: "?t div 256 = 256 * a + b" using assms by (intro int_div_pos_eq[where r = c]) auto
  have t6: "?t div 64 = 1024 * a + 4 * b + c div 64" by simp
  have "?t div 262144 = ?t div 65536 div 4" by (simp flip: zdiv_zmult2_eq)
  then show "?t div 262144 mod 64 = a div 4" using assms by (simp add: t16)
  have "?t div 4096 = ?t div 256 div 16" by (simp flip: zdiv_zmult2_eq)
  also have "\<dots> = 16 * a + b div 16" by (simp only: t8)
  finally have t12: "?t div 4096 = 16 * a + b div 16" .
  show "?t div 4096 mod 64 = a mod 4 * 16 + b div 16"
  proof -
    have "16 * a + b div 16 = 64 * (a div 4) + (a mod 4 * 16 + b div 16)"
      using mult_div_mod_eq[of 4 a] by linarith
    moreover have "0 \<le> a mod 4 * 16 + b div 16" "a mod 4 * 16 + b div 16 < 64"
      using bd pos_mod_bound[of 4 a] pos_mod_sign[of 4 a] by linarith+
    ultimately show ?thesis by (simp only: t12 low_part)
  qed
  have "1024 * a + 4 * b + c div 64 = 64 * (16 * a + b div 16) + (b mod 16 * 4 + c div 64)"
  proof -
    have "4 * b = 64 * (b div 16) + b mod 16 * 4" using mult_div_mod_eq[of 16 b] by presburger
    then show ?thesis by (simp add: distrib_left)
  qed
  moreover have "0 \<le> b mod 16 * 4 + c div 64" "b mod 16 * 4 + c div 64 < 64"
    using cd pos_mod_bound[of 16 b] pos_mod_sign[of 16 b] by linarith+
  ultimately show "?t div 64 mod 64 = b mod 16 * 4 + c div 64" unfolding t6
    by (simp only: low_part)
  have "?t = 64 * (1024 * a + 4 * b) + c" by simp
  then show "?t mod 64 = c mod 64" by (simp only: mod_mult_self4)
qed

lemma sextet_ranges:
  fixes a b c :: int
  assumes "0 \<le> a" "a < 256" "0 \<le> b" "b < 256" "0 \<le> c" "c < 256"
  shows "0 \<le> a div 4" "a div 4 < 64" "0 \<le> a mod 4 * 16 + b div 16"
    "a mod 4 * 16 + b div 16 < 64" "0 \<le> b mod 16 * 4 + c div 64"
    "b mod 16 * 4 + c div 64 < 64" "0 \<le> c mod 64" "c mod 64 < 64"
  using assms by auto

definition group_chars :: "int \<Rightarrow> int \<Rightarrow> int \<Rightarrow> string list" where
  "group_chars a b c = (let t = bit_or (bit_or (shl a 16) (shl b 8)) c in
     [charAt b64 (bit_and (sar t 18) 63), charAt b64 (bit_and (sar t 12) 63),
      charAt b64 (bit_and (sar t 6) 63), charAt b64 (bit_and t 63)])"

lemma sar_63:
  assumes "to_int32 t = t"
  shows "bit_and (sar t 18) 63 = t div 262144 mod 64"
    and "bit_and (sar t 12) 63 = t div 4096 mod 64"
    and "bit_and (sar t 6) 63 = t div 64 mod 64"
  by (simp_all add: sar_eq assms and_63)

lemma group_chars_digits:
  assumes "0 \<le> a" "a < 256" "0 \<le> b" "b < 256" "0 \<le> c" "c < 256"
  shows "group_chars a b c = map (\<lambda>v. [b64_digit v])
     [a div 4, a mod 4 * 16 + b div 16, b mod 16 * 4 + c div 64, c mod 64]"
proof -
  define t where "t = 65536 * a + 256 * b + c"
  have t: "to_int32 t = t" "bit_or (bit_or (shl a 16) (shl b 8)) c = t"
    using assms by (simp_all add: t_def to_int32_small or_three)
  note g = group_values[OF assms, folded t_def] and r = sextet_ranges[OF assms]
  show ?thesis
    unfolding group_chars_def Let_def t(2) unfolding sar_63[OF t(1)] unfolding and_63 g
    by (simp only: charAt_b64 r list.map)
qed

lemma toBase64_unfold:
  assumes "i < length bytes" and "byte_values bytes"
  shows "toBase64_from bytes i = (let rest = toBase64_from bytes (i + 3);
      b = (if i + 1 < length bytes then bytes ! (i + 1) else 0);
      c = (if i + 2 < length bytes then bytes ! (i + 2) else 0);
      g = group_chars (bytes ! i) b c
    in g ! 0 @ g ! 1 @ (if i + 1 < length bytes then g ! 2 else ''='')
       @ (if i + 2 < length bytes then g ! 3 else ''='') @ rest)"
proof -
  have "bit_and (bytes ! k) 255 = bytes ! k" if "k < length bytes" for k
    using that assms(2) by (simp add: and_255 byte_values_def list_all_length)
  then show ?thesis
    using assms(1) by (subst toBase64_from.simps) (simp add: group_chars_def Let_def)
qed

lemma drop_step: "i < length xs \<Longrightarrow> drop i xs = xs ! i # drop (i + 1) xs"
  by (simp add: Cons_nth_drop_Suc)

lemma toBase64_sextets:
  assumes "byte_values bytes"
  shows "toBase64_from bytes i
       = map b64_digit (sextets (drop i bytes)) @ padding (length bytes - i)"
proof (induction "length bytes - i" arbitrary: i rule: less_induct)
  case less
  have byte: "0 \<le> bytes ! k \<and> bytes ! k < 256" if "k < length bytes" for k
    using that assms by (simp add: byte_values_def list_all_length)
  show ?case
  proof (cases "i < length bytes")
    case True
    then have IH: "toBase64_from bytes (i + 3)
        = map b64_digit (sextets (drop (i + 3) bytes)) @ padding (length bytes - (i + 3))"
      by (intro less) simp
    consider "length bytes = i + 1" | "length bytes = i + 2" | "i + 2 < length bytes"
      using True by linarith
    then show ?thesis
    proof cases
      case 1
      then have "drop i bytes = [bytes ! i]" using drop_step[of i bytes] by simp
      moreover have "group_chars (bytes ! i) 0 0 = map (\<lambda>v. [b64_digit v])
          [bytes ! i div 4, bytes ! i mod 4 * 16, 0, 0]"
        using group_chars_digits[of "bytes ! i" 0 0] byte[of i] 1 by simp
      ultimately show ?thesis
        using True IH 1 by (simp add: toBase64_unfold assms padding_def numeral_2_eq_2)
    next
      case 2
      then have "drop i bytes = [bytes ! i, bytes ! (i + 1)]"
        using drop_step[of i bytes] drop_step[of "i + 1" bytes] by simp
      moreover have "group_chars (bytes ! i) (bytes ! (i + 1)) 0 = map (\<lambda>v. [b64_digit v])
          [bytes ! i div 4, bytes ! i mod 4 * 16 + bytes ! (i + 1) div 16,
           bytes ! (i + 1) mod 16 * 4, 0]"
        using group_chars_digits[of "bytes ! i" "bytes ! (i + 1)" 0] byte[of i] byte[of "i + 1"] 2
        by simp
      ultimately show ?thesis
        using True IH 2 by (simp add: toBase64_unfold assms padding_def)
    next
      case 3
      let ?a = "bytes ! i" and ?b = "bytes ! (i + 1)" and ?c = "bytes ! (i + 2)"
      have "drop i bytes = ?a # ?b # ?c # drop (i + 3) bytes"
        using drop_step[of i bytes] drop_step[of "i + 1" bytes] drop_step[of "i + 2" bytes] 3
        by (simp add: numeral_eq_Suc)
      moreover have "padding (length bytes - i) = padding (length bytes - (i + 3))"
        using 3 mod_add_self2[of "length bytes - (i + 3)" 3] by (simp add: padding_def)
      moreover have "group_chars ?a ?b ?c = map (\<lambda>v. [b64_digit v])
          [?a div 4, ?a mod 4 * 16 + ?b div 16, ?b mod 16 * 4 + ?c div 64, ?c mod 64]"
        by (rule group_chars_digits) (use byte[of i] byte[of "i + 1"] byte[of "i + 2"] 3 in auto)
      ultimately show ?thesis
        using True IH 3 by (simp add: toBase64_unfold assms)
    qed
  next
    case False
    then show ?thesis by (subst toBase64_from.simps) (simp add: padding_def)
  qed
qed

lemma strip_sextets:
  assumes "list_all (\<lambda>v. 0 \<le> v \<and> v < 64) vs"
  shows "strip_padding (map b64_digit vs @ replicate p CHR ''='') = map b64_digit vs"
proof -
  have keep: "\<not> (js_space (b64_digit v) \<or> b64_digit v = CHR ''='')" if "v \<in> set vs" for v
  proof -
    have "b64_digit v \<in> set b64"
      using that assms by (intro nth_mem) (auto simp: list_all_iff length_b64)
    then show ?thesis using b64_not_padding by (auto simp: list_all_iff)
  qed
  have "dropWhile (\<lambda>c. js_space c \<or> c = CHR ''='') (replicate p CHR ''='' @ xs)
      = dropWhile (\<lambda>c. js_space c \<or> c = CHR ''='') xs" for xs
    by (induction p) auto
  moreover have "dropWhile (\<lambda>c. js_space c \<or> c = CHR ''='') (rev (map b64_digit vs))
      = rev (map b64_digit vs)"
    using keep by (cases vs rule: rev_cases) auto
  ultimately show ?thesis by (simp add: strip_padding_def)
qed

lemma sextets_range: "byte_values bs \<Longrightarrow> list_all (\<lambda>v. 0 \<le> v \<and> v < 64) (sextets bs)"
  by (induction bs rule: sextets.induct) (auto simp: byte_values_def)

lemma sar_low_byte:
  assumes "n \<le> 8"
  shows "bit_and (sar (to_int32 x) n) 255 = x div 2 ^ n mod 256"
proof -
  have "take_bit 8 (drop_bit n (to_int32 x)) = take_bit 8 (drop_bit n x)"
    by (rule bit_eqI) (use assms in \<open>auto simp: bit_simps to_int32_def\<close>)
  then show ?thesis
    using assms by (simp add: and_255 sar_def take_bit_eq_mod drop_bit_eq_div)
qed

lemma push_sextet: "0 \<le> v \<Longrightarrow> v < 64 \<Longrightarrow> bit_or (shl (to_int32 x) 6) v = to_int32 (64 * x + v)"
  by (simp add: bit_or_low) (metis to_int32_congs(1,3) mult.commute)

lemma atob_digit:
  assumes "0 \<le> v" and "v < 64"
  shows "atob_loop (to_int32 x) bits (b64_digit v # s) =
     (if bits + 6 \<ge> 8 then (case atob_loop (to_int32 (64 * x + v)) (bits - 2) s of
        Inl e \<Rightarrow> Inl e
      | Inr out \<Rightarrow> Inr (bit_and (sar (to_int32 (64 * x + v)) (bits - 2)) 255 # out))
      else atob_loop (to_int32 (64 * x + v)) (bits + 6) s)"
proof -
  have "bits + 6 - 8 = bits - 2" by simp
  then show ?thesis
    using assms by (simp only: atob_loop.simps indexOf_digit push_sextet Let_def) simp
qed

declare atob_loop.simps(2) [simp del]

text \<open>One digit, by the number of bits that wait: the first is kept, the others emit a byte.\<close>

lemma atob_steps:
  assumes "0 \<le> v" and "v < 64"
  shows "atob_loop (to_int32 x) 0 (b64_digit v # s) = atob_loop (to_int32 (64 * x + v)) 6 s"
    and "atob_loop (to_int32 x) 6 (b64_digit v # s) =
      (case atob_loop (to_int32 (64 * x + v)) 4 s of Inl e \<Rightarrow> Inl e
       | Inr out \<Rightarrow> Inr ((64 * x + v) div 16 mod 256 # out))"
    and "atob_loop (to_int32 x) 4 (b64_digit v # s) =
      (case atob_loop (to_int32 (64 * x + v)) 2 s of Inl e \<Rightarrow> Inl e
       | Inr out \<Rightarrow> Inr ((64 * x + v) div 4 mod 256 # out))"
    and "atob_loop (to_int32 x) 2 (b64_digit v # s) =
      (case atob_loop (to_int32 (64 * x + v)) 0 s of Inl e \<Rightarrow> Inl e
       | Inr out \<Rightarrow> Inr ((64 * x + v) mod 256 # out))"
  by (simp_all add: atob_digit[OF assms] sar_low_byte cong: sum.case_cong)

lemma emitted_bytes:
  fixes a b c :: int
  assumes "0 \<le> a" "a < 256" "0 \<le> b" "b < 256" "0 \<le> c" "c < 256"
  shows "(64 * (64 * x + a div 4) + (a mod 4 * 16 + b div 16)) div 16 mod 256 = a"
    and "(64 * (16 * y + b div 16) + (b mod 16 * 4 + c div 64)) div 4 mod 256 = b"
    and "(64 * (4 * z + c div 64) + c mod 64) mod 256 = c"
proof -
  have q: "0 \<le> b div 16" "b div 16 < 16" "0 \<le> c div 64" "c div 64 < 4" using assms by auto
  have e1: "64 * (64 * x + a div 4) + (a mod 4 * 16 + b div 16) = 16 * (256 * x + a) + b div 16"
    by presburger
  show "(64 * (64 * x + a div 4) + (a mod 4 * 16 + b div 16)) div 16 mod 256 = a"
    unfolding e1 by (simp only: high_part[OF q(1,2)] low_part[OF assms(1,2)])
  have e2: "64 * (16 * y + b div 16) + (b mod 16 * 4 + c div 64) = 4 * (256 * y + b) + c div 64"
    by presburger
  show "(64 * (16 * y + b div 16) + (b mod 16 * 4 + c div 64)) div 4 mod 256 = b"
    unfolding e2 by (simp only: high_part[OF q(3,4)] low_part[OF assms(3,4)])
  have e3: "64 * (4 * z + c div 64) + c mod 64 = 256 * z + c" by presburger
  show "(64 * (4 * z + c div 64) + c mod 64) mod 256 = c" unfolding e3 using assms(5,6) by simp
qed

lemma atob_pair:
  assumes "0 \<le> a" "a < 256" "0 \<le> b" "b < 256"
  shows "\<exists>y. atob_loop (to_int32 x) 0
       (b64_digit (a div 4) # b64_digit (a mod 4 * 16 + b div 16) # s)
     = (case atob_loop (to_int32 (16 * y + b div 16)) 4 s of
          Inl e \<Rightarrow> Inl e | Inr out \<Rightarrow> Inr (a # out))"
proof
  have r: "0 \<le> a div 4" "a div 4 < 64" "0 \<le> a mod 4 * 16 + b div 16"
    "a mod 4 * 16 + b div 16 < 64"
    using sextet_ranges[of a b 0] assms by simp_all
  have y: "64 * (64 * x + a div 4) + (a mod 4 * 16 + b div 16) = 16 * (256 * x + a) + b div 16"
    by presburger
  show "atob_loop (to_int32 x) 0
       (b64_digit (a div 4) # b64_digit (a mod 4 * 16 + b div 16) # s)
     = (case atob_loop (to_int32 (16 * (256 * x + a) + b div 16)) 4 s of
          Inl e \<Rightarrow> Inl e | Inr out \<Rightarrow> Inr (a # out))"
    unfolding atob_steps(1)[OF r(1,2)] atob_steps(2)[OF r(3,4)]
    using emitted_bytes(1)[of a b 0 x] assms by (simp only: y)
qed

lemma atob_sextets:
  "byte_values bs \<Longrightarrow> atob_loop (to_int32 x) 0 (map b64_digit (sextets bs)) = Inr bs"
proof (induction bs arbitrary: x rule: sextets.induct)
  case (2 a)
  then show ?case using atob_pair[of a 0 x "[]"] by (auto simp: byte_values_def)
next
  case (3 a b)
  then have r: "0 \<le> a" "a < 256" "0 \<le> b" "b < 256" by (simp_all add: byte_values_def)
  have d: "0 \<le> b mod 16 * 4" "b mod 16 * 4 < 64" by simp_all
  obtain y where y: "atob_loop (to_int32 x) 0 (map b64_digit (sextets [a, b]))
     = (case atob_loop (to_int32 (16 * y + b div 16)) 4 [b64_digit (b mod 16 * 4)] of
          Inl e \<Rightarrow> Inl e | Inr out \<Rightarrow> Inr (a # out))"
    using atob_pair[OF r, of x "[b64_digit (b mod 16 * 4)]"] by auto
  show ?case
    unfolding y using atob_steps(3)[OF d, of "16 * y + b div 16" "[]"]
      emitted_bytes(2)[OF r, of 0 y] by simp
next
  case (4 a b c bs)
  then have r: "0 \<le> a" "a < 256" "0 \<le> b" "b < 256" "0 \<le> c" "c < 256" and bs: "byte_values bs"
    by (simp_all add: byte_values_def)
  note d = sextet_ranges[OF r]
  let ?s = "map b64_digit (sextets bs)"
  obtain y where y: "atob_loop (to_int32 x) 0 (map b64_digit (sextets (a # b # c # bs)))
     = (case atob_loop (to_int32 (16 * y + b div 16)) 4
          (b64_digit (b mod 16 * 4 + c div 64) # b64_digit (c mod 64) # ?s) of
          Inl e \<Rightarrow> Inl e | Inr out \<Rightarrow> Inr (a # out))"
    using atob_pair[OF r(1-4), of x] by auto
  have z: "64 * (16 * y + b div 16) + (b mod 16 * 4 + c div 64) = 4 * (256 * y + b) + c div 64"
    by presburger
  show ?case
    unfolding y atob_steps(3)[OF d(5,6)] emitted_bytes(2)[OF r]
    unfolding z atob_steps(4)[OF d(7,8)] emitted_bytes(3)[OF r]
    by (simp add: 4(1)[OF bs])
qed simp

lemma parse_toBase64: "byte_values bs \<Longrightarrow> parse_base64 (toBase64 bs) = bs"
  using atob_sextets[of bs 0] sextets_range[of bs]
  by (simp add: parse_base64_def toBase64_def toBase64_sextets atob_def padding_def strip_sextets
      to_int32_small)

section \<open>Hexadecimal text\<close>

text \<open>A byte in two digits, and the pairs of a digit string as a list recursion.\<close>

definition hex_char :: "int \<Rightarrow> char" where
  "hex_char d = ''0123456789abcdef'' ! nat d"

definition hex_text :: "int list \<Rightarrow> string" where
  "hex_text bs = concat (map (\<lambda>b. [hex_char (b div 16), hex_char (b mod 16)]) bs)"

fun hex_pairs :: "string \<Rightarrow> int option list" where
  "hex_pairs [] = []"
| "hex_pairs [c] = [parseInt16 [c]]"
| "hex_pairs (c # d # s) = parseInt16 [c, d] # hex_pairs s"

lemma hex_pairs_from_eq: "hex_pairs_from s i = hex_pairs (drop i s)"
proof (induction s i rule: hex_pairs_from.induct)
  case (1 s i)
  consider "length s \<le> i" | "length s = i + 1" | "i + 1 < length s" by linarith
  then show ?case
  proof cases
    case 2
    then have "drop i s = [s ! i]" by (simp add: drop_step)
    then show ?thesis using 1 2 by (subst hex_pairs_from.simps) simp
  next
    case 3
    then have "drop i s = s ! i # s ! (i + 1) # drop (i + 2) s"
      using drop_step[of i s] drop_step[of "i + 1" s] by simp
    then show ?thesis using 1 3 by (subst hex_pairs_from.simps) simp
  qed (simp add: hex_pairs_from.simps)
qed

lemma hex_digit_char:
  assumes "0 \<le> d" and "d < 16"
  shows "hex_digit (hex_char d) = Some d" and "\<not> js_space (hex_char d)"
proof -
  have "d \<in> {0, 1, 2, 3, 4, 5, 6, 7, 8, 9, 10, 11, 12, 13, 14, 15}"
    using assms by simp presburger
  then show "hex_digit (hex_char d) = Some d" "\<not> js_space (hex_char d)"
    by (auto simp: hex_char_def hex_digit_def js_space_def)
qed

lemma hex_text_digits:
  "byte_values bs \<Longrightarrow> list_all (\<lambda>c. hex_digit c \<noteq> None \<and> \<not> js_space c) (hex_text bs)"
  by (induction bs) (auto simp: hex_text_def byte_values_def hex_digit_char)

lemma hex_pairs_text: "byte_values bs \<Longrightarrow> hex_pairs (hex_text bs) = map Some bs"
  by (induction bs)
    (auto simp: hex_text_def byte_values_def hex_digit_char parseInt16_def)

lemma filter_all: "list_all P xs \<Longrightarrow> filter P xs = xs"
  by (simp add: list_all_iff)

lemma parse_hex_text: "byte_values bs \<Longrightarrow> parse_hex (hex_text bs) = map Some bs"
  using hex_text_digits[of bs]
  by (simp add: parse_hex_def hex_pairs_from_eq hex_pairs_text list_all_iff)

lemma encode_hex:
  "byte_values bs \<Longrightarrow> encode numstr (Str (hex_text bs)) (Num SS_Hex) = Str (toBase64 bs)"
  using hex_text_digits[of bs]
  by (simp add: encode_def hex_pairs_from_eq hex_pairs_text list_all_iff comp_def)

lemma encode_text: "encode numstr (Str s) (Num SS_Text) = Str (toBase64 (map js_code s))"
  by (simp add: encode_def SS_Hex_def SS_Text_def and_255)

lemma byte_values_code [simp]: "byte_values (map js_code s)"
  by (simp add: byte_values_def list_all_iff)

section \<open>Properties\<close>

text \<open>C3: A payload that a script encodes as Base64 is decoded by the Base64 frame parser to the
same bytes.\<close>

theorem base64_roundtrip:
  assumes "byte_values bs"
  shows "parse_base64 (toBase64 bs) = bs"
  using assms by (rule parse_toBase64)

theorem base64_roundtrip_witness: "parse_base64 (toBase64 [0, 255, 16, 7]) = [0, 255, 16, 7]"
  by (rule base64_roundtrip) (simp add: byte_values_def)

text \<open>Whatever the declared encoding, what reaches the gateway is the Base64 form of the same
bytes: hexadecimal text by its digit pairs, plain text by its character codes.\<close>

theorem encode_is_base64:
  assumes "byte_values bs"
  shows "encode numstr (Str (hex_text bs)) (Num SS_Hex) = Str (toBase64 bs)
    \<and> encode numstr (Str s) (Num SS_Text) = Str (toBase64 (map js_code s))"
  using assms by (simp add: encode_hex encode_text)

theorem encode_is_base64_witness:
  "encode (\<lambda>_. []) (Str (hex_text [171, 205])) (Num SS_Hex) = Str (toBase64 [171, 205])"
  by (rule conjunct1[OF encode_is_base64]) (simp add: byte_values_def)

end
