(* ===== verification/Byte_Stuffing.thy ===== *)
theory Byte_Stuffing
  imports Javascript
begin

unbundle bit_operations_syntax

text \<open>
  Frame parsers that undo byte stuffing: SLIP (\<^verbatim>\<open>parser/js/slip_encoded.js\<close>) and COBS
  (\<^verbatim>\<open>parser/js/cobs_encoded.js\<close>), with the encoders of RFC 1055 and of Cheshire and Baker as
  references.  Both parsers run over the rest of the frame from index \<open>i\<close> on.
\<close>

section \<open>SLIP\<close>

definition SLIP_END :: byte where "SLIP_END = 0xC0"
definition SLIP_ESC :: byte where "SLIP_ESC = 0xDB"
definition SLIP_ESC_END :: byte where "SLIP_ESC_END = 0xDC"
definition SLIP_ESC_ESC :: byte where "SLIP_ESC_ESC = 0xDD"

lemmas slip_bytes = SLIP_END_def SLIP_ESC_def SLIP_ESC_END_def SLIP_ESC_ESC_def

fun slip_parse :: "byte list \<Rightarrow> byte list" where
  "slip_parse [] = []"
| "slip_parse (x # frame) =
     (if x = SLIP_END then slip_parse frame
      else if x = SLIP_ESC then
        (case frame of [] \<Rightarrow> [SLIP_ESC]
         | nextByte # frame \<Rightarrow>
             (if nextByte = SLIP_ESC_END then [SLIP_END]
              else if nextByte = SLIP_ESC_ESC then [SLIP_ESC]
              else [SLIP_ESC, nextByte]) @ slip_parse frame)
      else x # slip_parse frame)"

text \<open>RFC 1055: the two special bytes are sent as escape pairs.\<close>

fun slip_encode :: "byte list \<Rightarrow> byte list" where
  "slip_encode [] = []"
| "slip_encode (x # xs) =
     (if x = SLIP_END then [SLIP_ESC, SLIP_ESC_END]
      else if x = SLIP_ESC then [SLIP_ESC, SLIP_ESC_ESC] else [x]) @ slip_encode xs"

lemma slip_encode_no_end: "SLIP_END \<notin> set (slip_encode xs)"
  by (induction xs) (auto simp: slip_bytes)

lemma slip_parse_encode: "slip_parse (slip_encode xs) = xs"
  by (induction xs) (auto simp: slip_bytes)

lemma slip_parse_ends:
  "slip_parse (replicate m SLIP_END @ slip_encode xs @ replicate n SLIP_END) = xs"
proof -
  have "slip_parse (replicate n SLIP_END) = []" by (induction n) simp_all
  then have "slip_parse (slip_encode xs @ replicate n SLIP_END) = xs"
    by (induction xs) (auto simp: slip_bytes)
  then show ?thesis by (induction m) simp_all
qed

section \<open>COBS\<close>

function cobs_parse :: "byte list \<Rightarrow> byte list" where
  "cobs_parse frame =
     (case frame of [] \<Rightarrow> []
      | code # frame \<Rightarrow>
          if code = 0 then []
          else (let block = take (unat code - 1) frame; frame = drop (unat code - 1) frame in
            block @ (if code < 0xFF \<and> frame \<noteq> [] then [0x00] else []) @ cobs_parse frame))"
  by pat_completeness auto
termination
  by (relation "measure length") auto

text \<open>The encoder: blocks of at most 254 nonzero bytes, each behind its length plus one; a block
shorter than that stands for its bytes and a zero, and one such zero is added at the end.\<close>

definition block_code :: "nat \<Rightarrow> byte" where
  "block_code n = word_of_nat (n + 1)"

function cobs_encode :: "byte list \<Rightarrow> byte list" where
  "cobs_encode xs =
     (let run = takeWhile (\<lambda>x. x \<noteq> 0) (take 254 xs); rest = drop (length run) xs in
      block_code (length run) # run
        @ (if rest = [] then []
           else if length run = 254 then cobs_encode rest
           else cobs_encode (tl rest)))"
  by pat_completeness auto
termination
proof (relation "measure length")
  fix xs run rest :: "byte list"
  assume r: "run = takeWhile (\<lambda>x. x \<noteq> 0) (take 254 xs)" "rest = drop (length run) xs" "rest \<noteq> []"
  then show "length run = 254 \<Longrightarrow> (rest, xs) \<in> measure length" by auto
  show "(tl rest, xs) \<in> measure length" using r by (cases rest) (auto simp: drop_eq_Nil)
qed simp

declare cobs_parse.simps [simp del] cobs_encode.simps [simp del]

text \<open>A full block of 254 bytes that ends the data is followed by nothing.\<close>

lemma cobs_run:
  fixes xs :: "byte list"
  defines "run \<equiv> takeWhile (\<lambda>x. x \<noteq> 0) (take 254 xs)"
  shows "length run \<le> 254" "0 \<notin> set run" "length run < 254 \<Longrightarrow> drop (length run) xs \<noteq> []
    \<Longrightarrow> xs = run @ 0 # tl (drop (length run) xs)" "xs = run @ drop (length run) xs"
proof -
  show l: "length run \<le> 254"
    unfolding run_def by (rule order_trans[OF length_takeWhile_le]) simp
  show "0 \<notin> set run" unfolding run_def by (auto dest: set_takeWhileD)
  have "take (length run) xs = run"
    unfolding run_def by (metis l run_def length_takeWhile_le min.absorb1 min_def nle_le take_take
      takeWhile_eq_take take_all)
  then show split: "xs = run @ drop (length run) xs" by (metis append_take_drop_id)
  assume s: "length run < 254" "drop (length run) xs \<noteq> []"
  then have "length run < length xs" by simp
  then have "take 254 xs ! length run = 0"
    using s(1) nth_length_takeWhile[of "\<lambda>x. x \<noteq> 0" "take 254 xs"] unfolding run_def by simp
  then have "hd (drop (length run) xs) = 0" using s by (simp add: hd_drop_conv_nth)
  then show "xs = run @ 0 # tl (drop (length run) xs)" using split s(2) by (metis list.collapse)
qed

lemma unat_block_code: "n \<le> 254 \<Longrightarrow> unat (block_code n) = Suc n"
proof -
  assume "n \<le> 254"
  then have "(n + 1) mod 256 = n + 1" by simp
  moreover have "unat (word_of_nat k :: byte) = k mod 256" for k by (simp add: unat_of_nat)
  ultimately show ?thesis by (simp only: block_code_def)
qed

lemma block_code_nonzero: "n \<le> 254 \<Longrightarrow> block_code n \<noteq> 0"
  using unat_block_code[of n] by auto

lemma cobs_block:
  assumes "length run \<le> 254"
  shows "cobs_parse (block_code (length run) # run @ frame)
    = run @ (if length run < 254 \<and> frame \<noteq> [] then [0] else []) @ cobs_parse frame"
proof -
  note c = unat_block_code[OF assms]
  have "block_code (length run) < 0xFF \<longleftrightarrow> length run < 254" by (simp add: word_less_nat_alt c)
  then show ?thesis
    by (subst cobs_parse.simps) (simp add: c block_code_nonzero[OF assms])
qed

lemma cobs_encode_nonempty [simp]: "cobs_encode xs \<noteq> []"
  by (simp add: cobs_encode.simps[of xs] Let_def)

lemma cobs_parse_encode: "cobs_parse (cobs_encode xs) = xs"
proof (induction xs rule: cobs_encode.induct)
  case (1 xs)
  define run where "run = takeWhile (\<lambda>x. x \<noteq> 0) (take 254 xs)"
  define rest where "rest = drop (length run) xs"
  note f = cobs_run[of xs, folded run_def, folded rest_def]
  have e: "cobs_encode xs = block_code (length run) # run @ (if rest = [] then []
      else if length run = 254 then cobs_encode rest else cobs_encode (tl rest))"
    unfolding run_def rest_def by (subst cobs_encode.simps) (simp only: Let_def)
  have nil: "cobs_parse [] = []" by (simp add: cobs_parse.simps)
  consider "rest = []" | "rest \<noteq> []" "length run = 254" | "rest \<noteq> []" "length run < 254"
    using f(1) by linarith
  then show ?case
  proof cases
    case 1
    then show ?thesis using f(4) unfolding e cobs_block[OF f(1)] by (simp add: nil)
  next
    case 2
    then have "cobs_parse (cobs_encode rest) = rest"
      using "1.IH"(1)[OF run_def rest_def] by simp
    then show ?thesis using 2 f(4) cobs_block[OF f(1), of "cobs_encode rest"] unfolding e by simp
  next
    case 3
    then have "cobs_parse (cobs_encode (tl rest)) = tl rest"
      using "1.IH"(2)[OF run_def rest_def] by simp
    then show ?thesis using 3 f(3) unfolding e by (simp add: cobs_block)
  qed
qed

lemma cobs_encode_no_zero: "0 \<notin> set (cobs_encode xs)"
proof (induction xs rule: cobs_encode.induct)
  case (1 xs)
  define run where "run = takeWhile (\<lambda>x. x \<noteq> 0) (take 254 xs)"
  have "block_code (length run) \<noteq> 0"
    using cobs_run(1)[of xs] by (intro block_code_nonzero) (simp add: run_def)
  then show ?case
    using 1[OF run_def refl] cobs_run(2)[of xs] unfolding cobs_encode.simps[of xs] Let_def run_def[symmetric]
    by (auto split: if_splits)
qed

section \<open>Properties\<close>

text \<open>C35: The SLIP parser recovers every packet from its RFC 1055 encoding, and the encoding holds
no END byte, so the frame delimiter never splits it; END bytes left around it are ignored.\<close>

theorem slip_roundtrip:
  "slip_parse (replicate m SLIP_END @ slip_encode xs @ replicate n SLIP_END) = xs
   \<and> SLIP_END \<notin> set (slip_encode xs)"
  by (simp add: slip_parse_ends slip_encode_no_end)

text \<open>C36: The COBS parser recovers every packet from its encoding, runs of 254 and more nonzero
bytes included, and the encoding holds no zero byte.\<close>

theorem cobs_roundtrip: "cobs_parse (cobs_encode xs) = xs \<and> 0 \<notin> set (cobs_encode xs)"
  by (simp add: cobs_parse_encode cobs_encode_no_zero)

end
