(* ===== verification/Table_Parsers.thy ===== *)
theory Table_Parsers
  imports Javascript
begin

unbundle bit_operations_syntax

text \<open>
  Frame parsers that keep a table of values between frames and overwrite the entries a frame
  carries: \<^verbatim>\<open>parser/js/binary_tlv.js\<close> and \<^verbatim>\<open>parser/js/modbus.js\<close> (values only; the latter's log
  output is left out).  \<open>table_parser\<close> is what the application relies on: the number of values never
  changes, and each is a number.
\<close>

section \<open>The contract\<close>

definition is_number :: "jsval \<Rightarrow> bool" where
  "is_number v = (case v of Num _ \<Rightarrow> True | _ \<Rightarrow> False)"

lemma is_number_Num [simp]: "is_number (Num r)"
  by (simp add: is_number_def)

definition number_table :: "nat \<Rightarrow> jsval list \<Rightarrow> bool" where
  "number_table n vs \<longleftrightarrow> length vs = n \<and> list_all is_number vs"

lemma number_table_update:
  "\<lbrakk>number_table n vs; i < n\<rbrakk> \<Longrightarrow> number_table n (set_element vs i (Num r))"
  by (auto simp: number_table_def set_element_def list_all_length nth_list_update)

lemma number_table_fill: "number_table n (replicate n (Num r))"
  by (simp add: number_table_def list_all_iff)

locale table_parser =
  fixes parse :: "'f \<Rightarrow> 's \<Rightarrow> 's" and table :: "'s \<Rightarrow> jsval list" and start :: 's and size :: nat
  assumes starts: "number_table size (table start)"
    and keeps: "number_table size (table s) \<Longrightarrow> number_table size (table (parse f s))"
begin

lemma after_any_frames: "number_table size (table (fold parse frames start))"
proof -
  have "number_table size (table s) \<Longrightarrow> number_table size (table (fold parse frames s))" for s
    by (induction frames arbitrary: s) (simp_all add: keeps)
  then show ?thesis using starts .
qed

end

section \<open>Tag, length, value\<close>

definition tlv_numItems :: nat where "tlv_numItems = 5"

definition tagToIndexMap :: "(byte \<times> nat) list" where
  "tagToIndexMap = [(0x01, 0), (0x02, 1), (0x03, 2), (0x04, 3), (0x05, 4)]"

definition tlv_parsedValues :: "jsval list" where
  "tlv_parsedValues = replicate tlv_numItems (Num 0)"

definition tlv_value :: "byte list \<Rightarrow> int" where
  "tlv_value bytes = fold (\<lambda>b value. bit_or (shl value 8) (uint b)) bytes 0"

definition tlv_store :: "byte \<Rightarrow> int \<Rightarrow> jsval list \<Rightarrow> jsval list" where
  "tlv_store tag value vs =
     (case map_of tagToIndexMap tag of Some i \<Rightarrow> set_element vs i (NumI value) | None \<Rightarrow> vs)"

text \<open>The loop over the rest of the frame.\<close>

function tlv_parse :: "byte list \<Rightarrow> jsval list \<Rightarrow> jsval list" where
  "tlv_parse (tag # len # frame) vs =
     (if unat len > length frame then vs
      else tlv_parse (drop (unat len) frame) (tlv_store tag (tlv_value (take (unat len) frame)) vs))"
| "tlv_parse [] vs = vs"
| "tlv_parse [x] vs = vs"
  by pat_completeness auto
termination
  by (relation "measure (length \<circ> fst)") auto

interpretation tlv: table_parser tlv_parse "\<lambda>vs. vs" tlv_parsedValues tlv_numItems
proof unfold_locales
  show "number_table tlv_numItems tlv_parsedValues"
    by (simp add: tlv_parsedValues_def number_table_fill)
  have i: "map_of tagToIndexMap tag = Some i \<Longrightarrow> i < tlv_numItems" for tag i
    by (auto simp: tagToIndexMap_def tlv_numItems_def split: if_splits)
  have "number_table tlv_numItems vs \<Longrightarrow> number_table tlv_numItems (tlv_store tag v vs)" for vs tag v
    by (auto simp: tlv_store_def intro: number_table_update i split: option.split)
  then show "number_table tlv_numItems (tlv_parse f s)" if "number_table tlv_numItems s" for f s
    using that by (induction f s rule: tlv_parse.induct) simp_all
qed

text \<open>The bytes as a big-endian number; the parser's value is that number as a 32-bit integer.\<close>

definition be_value :: "byte list \<Rightarrow> int" where
  "be_value bytes = fold (\<lambda>b value. value * 256 + uint b) bytes 0"

lemma tlv_value_be: "tlv_value bytes = to_int32 (be_value bytes)"
proof -
  have "fold (\<lambda>b value. bit_or (shl value 8) (uint b)) bytes (to_int32 v)
      = to_int32 (fold (\<lambda>b value. value * 256 + uint b) bytes v)" for v
  proof (induction bytes arbitrary: v)
    case (Cons b bytes)
    have "bit_or (shl (to_int32 v) 8) (uint b) = to_int32 (to_int32 v * 256 + uint b)"
      using uint_lt2p[of b] by (simp add: bit_or_low)
    also have "\<dots> = to_int32 (v * 256 + uint b)"
      by (metis to_int32_congs(1,3))
    finally show ?case using Cons[of "v * 256 + uint b"] by simp
  qed simp
  from this[of 0] show ?thesis by (simp add: tlv_value_def be_value_def to_int32_small)
qed

lemma be_value_range: "0 \<le> be_value bytes \<and> be_value bytes < 256 ^ length bytes"
proof (induction bytes rule: rev_induct)
  case (snoc b bytes)
  have "be_value (bytes @ [b]) = be_value bytes * 256 + uint b" by (simp add: be_value_def)
  then show ?case using snoc uint_lt2p[of b] by simp
qed (simp add: be_value_def)

definition tlv_encode :: "(byte \<times> byte list) list \<Rightarrow> byte list" where
  "tlv_encode entries = concat (map (\<lambda>(tag, bytes). tag # word_of_nat (length bytes) # bytes) entries)"

lemma tlv_parse_encode:
  assumes "\<forall>(tag, bytes) \<in> set entries. length bytes < 256"
  shows "tlv_parse (tlv_encode entries) vs
    = fold (\<lambda>(tag, bytes). tlv_store tag (to_int32 (be_value bytes))) entries vs"
  using assms
proof (induction entries arbitrary: vs)
  case Nil
  then show ?case by (simp add: tlv_encode_def)
next
  case (Cons e entries)
  obtain tag bytes where e: "e = (tag, bytes)" by fastforce
  have n: "unat (word_of_nat (length bytes) :: byte) = length bytes"
    using Cons.prems by (simp add: e unat_of_nat)
  have "tlv_encode (e # entries) = tag # word_of_nat (length bytes) # bytes @ tlv_encode entries"
    by (simp add: tlv_encode_def e)
  then show ?case using Cons by (simp add: n e tlv_value_be)
qed

section \<open>Modbus\<close>

record reg_config =
  rc_name :: string
  rc_scale :: rat
  rc_signed :: bool
  rc_units :: string

definition reg :: "string \<Rightarrow> rat \<Rightarrow> string \<Rightarrow> reg_config" where
  "reg n scale units = \<lparr>rc_name = n, rc_scale = scale, rc_signed = False, rc_units = units\<rparr>"

definition modbus_numItems :: nat where "modbus_numItems = 9"
definition registerOffset :: int where "registerOffset = 0"

definition modbus_registers :: "(nat \<times> reg_config) list" where
  "modbus_registers =
     [(0, reg ''Emergency Stop'' 1 ''bool''), (1, reg ''Start LED'' 1 ''bool''),
      (2, reg ''Temperature'' 1 (CHR 0xB0 # ''F'')), (3, reg ''Pressure'' 1 ''PSI''),
      (4, reg ''Motor RPM'' 1 ''RPM''), (5, reg ''Valve Position'' 1 ''%''),
      (6, reg ''Flow Rate'' 10 ''GPM''), (7, reg ''Motor Load'' 1 ''%''),
      (8, reg ''Vibration'' 10 ''mm/s'')]"

definition MODBUS_EXCEPTIONS :: "(int \<times> string \<times> string) list" where
  "MODBUS_EXCEPTIONS =
     [(0x01, ''ILLEGAL_FUNCTION'', ''Function code not supported''),
      (0x02, ''ILLEGAL_DATA_ADDRESS'', ''Register address out of range''),
      (0x03, ''ILLEGAL_DATA_VALUE'', ''Value out of range for register''),
      (0x04, ''SERVER_DEVICE_FAILURE'', ''Unrecoverable device error''),
      (0x05, ''ACKNOWLEDGE'', ''Request accepted, processing''),
      (0x06, ''SERVER_DEVICE_BUSY'', ''Device busy, retry later''),
      (0x07, ''NEGATIVE_ACKNOWLEDGE'', ''Cannot perform request''),
      (0x08, ''MEMORY_PARITY_ERROR'', ''Memory parity check failed''),
      (0x0A, ''GATEWAY_PATH_UNAVAIL'', ''Gateway path not available''),
      (0x0B, ''GATEWAY_TARGET_FAILED'', ''Gateway target not responding'')]"

record modbus_exception =
  me_functionCode :: int
  me_exceptionCode :: int
  me_name :: string
  me_description :: string
  me_timestamp :: int

record modbus_state =
  mb_values :: "jsval list"
  mb_lastException :: "modbus_exception option"
  mb_frameCount :: nat

definition modbus_start :: modbus_state where
  "modbus_start = \<lparr>mb_values = replicate modbus_numItems (Num 0), mb_lastException = None, mb_frameCount = 0\<rparr>"

definition toSigned16 :: "int \<Rightarrow> int" where
  "toSigned16 value = (if value > 0x7FFF then value - 0x10000 else value)"

text \<open>The users of the script edit its table of registers, \<^verbatim>\<open>CONFIG.registers\<close>; it is the argument \<open>table\<close>, and
\<open>modbus_registers\<close> the one the script comes with.  A scale that is not given or 0 counts as 1.\<close>

definition getRegisterConfig :: "(nat \<times> reg_config) list \<Rightarrow> nat \<Rightarrow> reg_config" where
  "getRegisterConfig table index = (case map_of table index of Some c \<Rightarrow> c
     | None \<Rightarrow> reg (''Register '' @ nat_digits index) 1 [])"

definition processValue :: "(nat \<times> reg_config) list \<Rightarrow> nat \<Rightarrow> int \<Rightarrow> jsval" where
  "processValue table index rawValue =
     (let config = getRegisterConfig table index;
          value = (if rc_signed config then toSigned16 rawValue else rawValue)
      in Num (of_int value / (if rc_scale config = 0 then 1 else rc_scale config)))"

definition modbus_exception_frame :: "int \<Rightarrow> byte list \<Rightarrow> modbus_state \<Rightarrow> modbus_state" where
  "modbus_exception_frame now frame s =
     (let exceptionCode = rd frame 2;
          (n, d) = (case map_of MODBUS_EXCEPTIONS exceptionCode of Some e \<Rightarrow> e
             | None \<Rightarrow> (''UNKNOWN'', ''Unknown exception''))
      in s\<lparr>mb_lastException := Some \<lparr>me_functionCode = bit_and (rd frame 1) 0x7F,
             me_exceptionCode = exceptionCode, me_name = n, me_description = d, me_timestamp = now\<rparr>\<rparr>)"

text \<open>The two nested loops over bytes and bits write the entries in order.\<close>

definition modbus_read_bits :: "byte list \<Rightarrow> jsval list \<Rightarrow> jsval list" where
  "modbus_read_bits frame vs =
     (let byteCount = nat (rd frame 2) in
      fold (\<lambda>bitIndex vs. set_element vs bitIndex
          (NumI (bit_and (sar (rd frame (3 + bitIndex div 8)) (bitIndex mod 8)) 0x01)))
        [0..<min (8 * byteCount) modbus_numItems] vs)"

definition modbus_read_registers :: "(nat \<times> reg_config) list \<Rightarrow> byte list \<Rightarrow> jsval list \<Rightarrow> jsval list" where
  "modbus_read_registers table frame vs =
     (let registerCount = nat (rd frame 2) div 2 in
      fold (\<lambda>i vs. let offset = 3 + i * 2 in
          if offset + 1 \<ge> length frame then vs
          else set_element vs i
            (processValue table i (bit_or (shl (rd frame offset) 8) (rd frame (offset + 1)))))
        [0..<min registerCount modbus_numItems] vs)"

definition modbus_write_echo :: "(nat \<Rightarrow> int \<Rightarrow> jsval) \<Rightarrow> byte list \<Rightarrow> jsval list \<Rightarrow> jsval list" where
  "modbus_write_echo entry frame vs =
     (if length frame \<ge> 6 then
        (let address = bit_or (shl (rd frame 2) 8) (rd frame 3);
             value = bit_or (shl (rd frame 4) 8) (rd frame 5);
             index = address - registerOffset
         in if index \<ge> 0 \<and> index < int modbus_numItems
            then set_element vs (nat index) (entry (nat index) value) else vs)
      else vs)"

definition modbus_parse :: "(nat \<times> reg_config) list \<Rightarrow> int \<Rightarrow> byte list \<Rightarrow> modbus_state \<Rightarrow> modbus_state" where
  "modbus_parse table now frame s =
     (let s = s\<lparr>mb_frameCount := mb_frameCount s + 1\<rparr>; functionCode = rd frame 1; vs = mb_values s in
      if length frame < 3 then s
      else if functionCode \<ge> 0x80 then modbus_exception_frame now frame s
      else if functionCode = 0x01 \<or> functionCode = 0x02
      then s\<lparr>mb_values := modbus_read_bits frame vs\<rparr>
      else if functionCode = 0x03 \<or> functionCode = 0x04
      then s\<lparr>mb_values := modbus_read_registers table frame vs\<rparr>
      else if functionCode = 0x05
      then s\<lparr>mb_values := modbus_write_echo (\<lambda>i v. if v = 0xFF00 then Num 1 else Num 0) frame vs\<rparr>
      else if functionCode = 0x06
      then s\<lparr>mb_values := modbus_write_echo (processValue table) frame vs\<rparr>
      else s)"

definition modbus_getLastException :: "modbus_state \<Rightarrow> modbus_exception option" where
  "modbus_getLastException s = mb_lastException s"

definition modbus_getStats :: "modbus_state \<Rightarrow> nat \<times> modbus_exception option" where
  "modbus_getStats s = (mb_frameCount s, mb_lastException s)"

definition modbus_reset :: "modbus_state \<Rightarrow> modbus_state" where
  "modbus_reset s = s\<lparr>mb_values := map (\<lambda>_. Num 0) (mb_values s), mb_lastException := None,
     mb_frameCount := 0\<rparr>"

lemma processValue_number [simp]: "is_number (processValue table i v)"
  by (simp add: processValue_def Let_def)

lemma number_table_element:
  "\<lbrakk>number_table n vs; i < n; is_number v\<rbrakk> \<Longrightarrow> number_table n (set_element vs i v)"
  using number_table_update[of n vs i] by (cases v) (auto simp: is_number_def)

lemma number_table_fold:
  "\<lbrakk>number_table n vs; \<And>i vs. \<lbrakk>i < m; number_table n vs\<rbrakk> \<Longrightarrow> number_table n (f i vs)\<rbrakk>
   \<Longrightarrow> number_table n (fold f [0..<m] vs)"
  by (induction m) simp_all

lemma modbus_write_ok:
  "\<lbrakk>number_table modbus_numItems vs; \<And>i v. is_number (entry i v)\<rbrakk>
   \<Longrightarrow> number_table modbus_numItems (modbus_write_echo entry frame vs)"
  by (auto simp: modbus_write_echo_def Let_def intro!: number_table_element)

lemma modbus_parse_ok:
  assumes "number_table modbus_numItems (mb_values s)"
  shows "number_table modbus_numItems (mb_values (modbus_parse table now frame s))"
proof -
  have "number_table modbus_numItems (modbus_read_bits frame (mb_values s))"
    unfolding modbus_read_bits_def Let_def
    using assms by (rule number_table_fold) (simp add: number_table_element)
  moreover have "number_table modbus_numItems (modbus_read_registers table frame (mb_values s))"
    unfolding modbus_read_registers_def Let_def
    using assms by (rule number_table_fold) (simp add: number_table_element)
  ultimately show ?thesis
    using assms modbus_write_ok
    by (simp add: modbus_parse_def modbus_exception_frame_def Let_def split: prod.split)
qed

interpretation modbus: table_parser "\<lambda>(now, frame). modbus_parse table now frame" mb_values modbus_start modbus_numItems
proof unfold_locales
  show "number_table modbus_numItems (mb_values modbus_start)"
    by (simp add: modbus_start_def number_table_fill)
  show "number_table modbus_numItems (mb_values ((case f of (now, frame) \<Rightarrow> modbus_parse table now frame) s))"
    if "number_table modbus_numItems (mb_values s)" for f s
    using modbus_parse_ok[OF that] by (cases f) simp
qed

section \<open>What a register response puts into the table\<close>

lemma uint_of_length: "n < 256 \<Longrightarrow> uint (word_of_nat n :: byte) = int n"
  by (simp add: unsigned_of_nat take_bit_nat_eq_self)

definition register_bytes :: "16 word list \<Rightarrow> byte list" where
  "register_bytes regs = concat (map (\<lambda>r. [ucast (drop_bit 8 r), ucast r]) regs)"

lemma register_byte:
  "i < length regs \<Longrightarrow> register_bytes regs ! (2 * i) = ucast (drop_bit 8 (regs ! i))"
  "i < length regs \<Longrightarrow> register_bytes regs ! (Suc (2 * i)) = ucast (regs ! i)"
proof (induction regs arbitrary: i)
  case (Cons r regs)
  { case 1 then show ?case using Cons by (cases i) (simp_all add: register_bytes_def) }
  { case 2 then show ?case using Cons by (cases i) (simp_all add: register_bytes_def) }
qed simp_all

lemma length_register_bytes: "length (register_bytes regs) = 2 * length regs"
  by (induction regs) (simp_all add: register_bytes_def)

lemma word_of_bytes: "256 * uint (ucast (drop_bit 8 r) :: byte) + uint (ucast r :: byte) = uint (r :: 16 word)"
proof -
  have "uint (ucast r :: byte) = uint r mod 256" by (simp add: unsigned_ucast_eq take_bit_eq_mod)
  moreover have "uint (drop_bit 8 r) = drop_bit 8 (uint r)"
    using uint_lt2p[of r] by (simp add: unsigned_drop_bit_eq take_bit_int_eq_self)
  then have "uint (drop_bit 8 r) = uint r div 256" by (simp add: drop_bit_eq_div)
  moreover from this have "uint (ucast (drop_bit 8 r) :: byte) = uint r div 256 mod 256"
    by (simp add: unsigned_ucast_eq take_bit_eq_mod)
  moreover have "uint r div 256 mod 256 = uint r div 256"
    using uint_lt2p[of r] by (intro mod_pos_pos_trivial) (auto simp: pos_imp_zdiv_nonneg_iff)
  ultimately show ?thesis by (simp only: mult_div_mod_eq)
qed

definition register_response :: "byte \<Rightarrow> byte \<Rightarrow> 16 word list \<Rightarrow> byte list" where
  "register_response address function regs
     = [address, function, word_of_nat (2 * length regs)] @ register_bytes regs"

lemma register_response_entry:
  assumes "i < length regs"
  shows "bit_or (shl (rd (register_response a f regs) (3 + i * 2)) 8)
      (rd (register_response a f regs) (3 + i * 2 + 1)) = uint (regs ! i)"
proof -
  have "rd (register_response a f regs) (3 + i * 2) = uint (ucast (drop_bit 8 (regs ! i)) :: byte)"
    and "rd (register_response a f regs) (3 + i * 2 + 1) = uint (ucast (regs ! i) :: byte)"
    using assms register_byte[OF assms]
    by (simp_all add: register_response_def rd_def length_register_bytes mult.commute)
  then show ?thesis unfolding or_be16 by (simp only: word_of_bytes)
qed

lemma read_registers_response:
  assumes "length regs < 128" and "length vs = modbus_numItems"
  defines "n \<equiv> min (length regs) modbus_numItems"
  shows "modbus_read_registers table (register_response a f regs) vs
    = map (\<lambda>i. processValue table i (uint (regs ! i))) [0..<n] @ drop n vs"
proof -
  let ?frame = "register_response a f regs"
  have "rd ?frame 2 = uint (word_of_nat (2 * length regs) :: byte)"
    by (simp add: register_response_def rd_def)
  also have "\<dots> = int (2 * length regs)" using assms(1) by (intro uint_of_length) simp
  finally have c: "nat (rd ?frame 2) div 2 = length regs" by simp
  have "modbus_read_registers table ?frame vs
      = fold (\<lambda>i vs. set_element vs i (processValue table i (uint (regs ! i)))) [0..<n] vs"
    unfolding modbus_read_registers_def Let_def c n_def
  proof (rule fold_cong)
    fix i assume "i \<in> set [0..<min (length regs) modbus_numItems]"
    then have i: "i < length regs" by simp
    moreover have "length ?frame = 3 + 2 * length regs"
      by (simp add: register_response_def length_register_bytes)
    ultimately show "(\<lambda>vs. if length ?frame \<le> 3 + i * 2 + 1 then vs else set_element vs i
        (processValue table i (bit_or (shl (rd ?frame (3 + i * 2)) 8) (rd ?frame (3 + i * 2 + 1)))))
      = (\<lambda>vs. set_element vs i (processValue table i (uint (regs ! i))))"
      unfolding register_response_entry[OF i] by (simp add: fun_eq_iff)
  qed simp_all
  also have "\<dots> = map (\<lambda>i. processValue table i (uint (regs ! i))) [0..<n] @ drop n vs"
    by (rule fold_set_elements) (simp add: n_def assms(2))
  finally show ?thesis .
qed

lemma sint16: "sint (r :: 16 word) = toSigned16 (uint r)"
proof -
  have "sint r = take_bit 16 (uint r) - 65536 * of_bool (bit (uint r) 15)"
    by (simp add: sint_uint signed_take_bit_eq_take_bit_minus)
  moreover have "take_bit 16 (uint r) = uint r" using uint_lt2p[of r] by (simp add: take_bit_int_eq_self)
  moreover have "bit (uint r) 15 \<longleftrightarrow> 0x7FFF < uint r"
  proof -
    have "uint r div 32768 = (if 32767 < uint r then 1 else 0)" using uint_lt2p[of r] by auto
    then show ?thesis by (simp add: bit_iff_odd)
  qed
  ultimately show ?thesis by (simp add: toSigned16_def)
qed

text \<open>The value of a register: a sixteen-bit number, in two's complement where the table says signed, over the
scale; \<open>sint\<close> and \<open>uint\<close> are the library's readings of a word.\<close>

definition register_value :: "(nat \<times> reg_config) list \<Rightarrow> nat \<Rightarrow> 16 word \<Rightarrow> rat" where
  "register_value table i r = (case map_of table i of None \<Rightarrow> of_int (uint r)
     | Some c \<Rightarrow> (if rc_signed c then of_int (sint r) else of_int (uint r)) / (if rc_scale c = 0 then 1 else rc_scale c))"

lemma processValue_register: "processValue table i (uint r) = Num (register_value table i r)"
  by (auto simp: processValue_def register_value_def getRegisterConfig_def reg_def sint16 Let_def split: option.split)

section \<open>Properties\<close>

text \<open>Whatever frames arrive, the TLV parser and the Modbus parser keep returning the configured
number of values, each of them a number.\<close>

theorem tables_keep_their_shape:
  "number_table tlv_numItems (fold tlv_parse frames tlv_parsedValues)
   \<and> number_table modbus_numItems
      (mb_values (fold (\<lambda>(now, frame). modbus_parse table now frame) timed_frames modbus_start))"
  using tlv.after_any_frames modbus.after_any_frames by blast

text \<open>A TLV frame stores, for each entry in order, the big-endian value of its bytes (as a
32-bit integer) under the index of its tag, and ignores unknown tags.\<close>

theorem tlv_values:
  assumes "\<forall>(tag, bytes) \<in> set entries. length bytes < 256"
  shows "tlv_parse (tlv_encode entries) vs
    = fold (\<lambda>(tag, bytes). tlv_store tag (to_int32 (be_value bytes))) entries vs"
  using assms by (rule tlv_parse_encode)

theorem tlv_values_witness:
  "tlv_parse (tlv_encode [(1, [2, 1]), (9, [7])]) tlv_parsedValues
   = [Num 513, Num 0, Num 0, Num 0, Num 0]"
  by (subst tlv_values) (simp, code_simp)

text \<open>C37: For any table of registers, a Modbus response with holding or input registers puts the value of each
register into the entry of the same number and leaves the other entries alone: the sixteen bits are read as an
unsigned number, or in two's complement where the table says so, and divided by the register's scale.  Function
6, which echoes one written register, puts its value into its entry in the same way.\<close>

theorem modbus_registers_stored:
  assumes "length regs < 128" and "f = 3 \<or> f = 4" and "length (mb_values s) = modbus_numItems"
    and "regs \<noteq> []"
  shows "mb_values (modbus_parse table now (register_response a f regs) s)
    = map (\<lambda>i. Num (register_value table i (regs ! i))) [0..<min (length regs) modbus_numItems]
      @ drop (min (length regs) modbus_numItems) (mb_values s)
    \<and> (\<forall>i r. unat i < modbus_numItems \<longrightarrow> mb_values (modbus_parse table now (a # 6 # register_bytes [i, r]) s)
      = (mb_values s)[unat i := Num (register_value table (unat i) r)])"
proof -
  have "rd (register_response a f regs) 1 = uint f" "\<not> length (register_response a f regs) < 3"
    by (simp_all add: register_response_def rd_def)
  then have "mb_values (modbus_parse table now (register_response a f regs) s)
    = map (\<lambda>i. Num (register_value table i (regs ! i))) [0..<min (length regs) modbus_numItems]
      @ drop (min (length regs) modbus_numItems) (mb_values s)"
    using assms(2) read_registers_response[OF assms(1,3), of table a f]
    by (auto simp: modbus_parse_def Let_def processValue_register)
  moreover have "mb_values (modbus_parse table now (a # 6 # register_bytes [i, r]) s)
      = (mb_values s)[unat i := Num (register_value table (unat i) r)]" if i: "unat i < modbus_numItems" for i r
  proof -
    let ?f = "a # 6 # register_bytes [i, r]"
    have f: "rd ?f 1 = 6" "length ?f = 6" by (simp_all add: rd_def register_bytes_def)
    have b: "bit_or (shl (rd ?f 2) 8) (rd ?f 3) = uint i" "bit_or (shl (rd ?f 4) 8) (rd ?f 5) = uint r"
      unfolding or_be16 using word_of_bytes[of i] word_of_bytes[of r] by (simp_all add: rd_def register_bytes_def)
    have i': "uint i = int (unat i)" by (rule uint_nat)
    have u: "uint i < int modbus_numItems" using i unfolding i' of_nat_less_iff .
    have n: "nat (uint i) = unat i" by (rule unat_eq_nat_uint[symmetric])
    have "modbus_write_echo (processValue table) ?f (mb_values s) = set_element (mb_values s) (unat i) (processValue table (unat i) (uint r))"
      using u unfolding modbus_write_echo_def Let_def b f(2) registerOffset_def by (simp add: n)
    then show ?thesis
      using i assms(3) f by (simp add: modbus_parse_def Let_def processValue_register set_element_def)
  qed
  ultimately show ?thesis by blast
qed

text \<open>A signed temperature in tenths: the sixteen bits of -5 are -0.5.\<close>

theorem modbus_registers_stored_witness:
  "mb_values (modbus_parse [(1, (reg ''Temperature'' 10 ''C'')\<lparr>rc_signed := True\<rparr>)] 0 (register_response 1 3 [700, 65531]) modbus_start)
   = [Num 700, Num (- 1 / 2), Num 0, Num 0, Num 0, Num 0, Num 0, Num 0, Num 0]"
proof -
  have l: "length (mb_values modbus_start) = modbus_numItems" by (simp add: modbus_start_def)
  have v: "map (\<lambda>i. Num (register_value [(1, (reg ''Temperature'' 10 ''C'')\<lparr>rc_signed := True\<rparr>)] i ([700, 65531] ! i)))
      [0..<min (length [700 :: 16 word, 65531]) modbus_numItems]
    @ drop (min (length [700 :: 16 word, 65531]) modbus_numItems) (mb_values modbus_start)
    = [Num 700, Num (- 1 / 2), Num 0, Num 0, Num 0, Num 0, Num 0, Num 0, Num 0]" by code_simp
  show ?thesis
    using conjunct1[OF modbus_registers_stored[OF _ _ l, of "[700, 65531]" 3
        "[(1, (reg ''Temperature'' 10 ''C'')\<lparr>rc_signed := True\<rparr>)]" 0 1]] unfolding v by simp
qed

text \<open>An exception response changes no value; it is kept as the last exception, with the
function code it answers.\<close>

theorem modbus_exception_kept:
  assumes "3 \<le> length frame" and "0x80 \<le> rd frame 1"
  shows "mb_values (modbus_parse table now frame s) = mb_values s
    \<and> (\<exists>e. modbus_getLastException (modbus_parse table now frame s) = Some e
        \<and> me_functionCode e = rd frame 1 - 0x80 \<and> me_exceptionCode e = rd frame 2)"
proof -
  have "bit_and (rd frame 1) (mask 7) = rd frame 1 mod 2 ^ 7" by (rule bit_and_mask) simp
  then have "bit_and (rd frame 1) 127 = rd frame 1 mod 128" by (simp add: mask_eq_exp_minus_1)
  also have "rd frame 1 mod 128 = (rd frame 1 - 128) mod 128" by (simp add: mod_diff_right_eq)
  also have "\<dots> = rd frame 1 - 128" using assms(2) rd_range(2)[of frame 1] by (intro mod_pos_pos_trivial) auto
  finally show ?thesis
    using assms
    by (auto simp: modbus_parse_def modbus_exception_frame_def modbus_getLastException_def Let_def
        split: prod.split)
qed

theorem modbus_exception_kept_witness:
  "mb_values (modbus_parse modbus_registers 0 [1, 0x83, 2] modbus_start) = mb_values modbus_start"
  by (rule conjunct1[OF modbus_exception_kept]) (simp_all add: rd_def)

end
