(* ===== verification/Message_Parsers.thy ===== *)
theory Message_Parsers
  imports Base64
begin

unbundle bit_operations_syntax

text \<open>
  Frame parsers of binary protocols that carry numbered messages: u-blox UBX, SiRF, NMEA 2000,
  MAVLink and RTCM 3 (\<^verbatim>\<open>app/rcc/scripts/parser/js\<close>).  Each checks the frame, looks the message up and
  stores the fields of the message at the indices of the table that are set aside for it.

  Physical units are exact rationals; \<^verbatim>\<open>Math.PI\<close> is the double it is in the language.
\<close>

section \<open>The common part\<close>

text \<open>A field that is missing is undefined, and NaN once it is multiplied.\<close>

definition scaled :: "byte list \<Rightarrow> nat \<Rightarrow> rat \<Rightarrow> jsval" where
  "scaled xs i c = (if i < length xs then Num (of_int (uint (xs ! i)) * c) else NaN)"

definition times :: "int \<Rightarrow> rat \<Rightarrow> jsval" where
  "times n c = Num (of_int n * c)"

type_synonym 'k message_map = "('k \<times> nat list \<times> (byte list \<Rightarrow> jsval list)) list"

definition dispatch :: "'k message_map \<Rightarrow> 'k \<Rightarrow> byte list \<Rightarrow> jsval list \<Rightarrow> jsval list" where
  "dispatch messages key payload vs = (case map_of messages key of None \<Rightarrow> vs
     | Some (indices, parser) \<Rightarrow> store_values indices (parser payload) vs)"

text \<open>The contract of a message table: every message has its own indices within the table.\<close>

locale message_table =
  fixes messages :: "'k message_map" and size :: nat
  assumes inside: "list_all (\<lambda>(k, indices, parser). list_all (\<lambda>i. i < size) indices \<and> distinct indices) messages"
begin

lemma known:
  assumes "map_of messages key = Some (indices, parser)"
  shows "list_all (\<lambda>i. i < size) indices" "distinct indices"
  using inside map_of_SomeD[OF assms] by (auto simp: list_all_iff)

lemma dispatch_length: "length vs = size \<Longrightarrow> length (dispatch messages key payload vs) = size"
  using known by (auto simp: dispatch_def length_store_values split: option.split)

lemma dispatch_stores:
  assumes "length vs = size" and "map_of messages key = Some (indices, parser)"
    and "j < length indices" and "j < length (parser payload)"
  shows "dispatch messages key payload vs ! (indices ! j) = parser payload ! j"
  using assms known[OF assms(2)] by (simp add: dispatch_def store_values_at)

lemma dispatch_other:
  assumes "length vs = size" and "map_of messages key = Some (indices, parser)" and "i \<notin> set indices"
  shows "dispatch messages key payload vs ! i = vs ! i"
  using assms known[OF assms(2)] by (simp add: dispatch_def store_values_other)

end

section \<open>UBX\<close>

definition ubx_extractUint16LE :: "byte list \<Rightarrow> nat \<Rightarrow> int" where
  "ubx_extractUint16LE bytes offset = bit_or (rd bytes offset) (shl (rd bytes (offset + 1)) 8)"

definition ubx_extractUint32LE :: "byte list \<Rightarrow> nat \<Rightarrow> int" where
  "ubx_extractUint32LE bytes offset =
     bit_or (bit_or (bit_or (rd bytes offset) (shl (rd bytes (offset + 1)) 8))
       (shl (rd bytes (offset + 2)) 16)) (shl (rd bytes (offset + 3)) 24)"

definition ubx_extractInt32LE :: "byte list \<Rightarrow> nat \<Rightarrow> int" where
  "ubx_extractInt32LE bytes offset =
     (let value = bit_or (bit_or (bit_or (rd bytes offset) (shl (rd bytes (offset + 1)) 8))
       (shl (rd bytes (offset + 2)) 16)) (shl (rd bytes (offset + 3)) 24)
      in if value > 2147483647 then value - 4294967296 else value)"

definition ubx_numItems :: nat where "ubx_numItems = 20"

definition nav_pvt :: "byte list \<Rightarrow> jsval list" where
  "nav_pvt data =
     (let iTOW = ubx_extractUint32LE data 0;
          longitude = times (ubx_extractInt32LE data 24) (1 / 10 ^ 7);
          latitude = times (ubx_extractInt32LE data 28) (1 / 10 ^ 7);
          height = times (ubx_extractInt32LE data 32) (1 / 1000);
          hMSL = times (ubx_extractInt32LE data 36) (1 / 1000);
          velN = times (ubx_extractInt32LE data 48) (1 / 1000);
          velE = times (ubx_extractInt32LE data 52) (1 / 1000);
          velD = times (ubx_extractInt32LE data 56) (1 / 1000);
          gSpeed = times (ubx_extractInt32LE data 60) (1 / 1000);
          headMot = times (ubx_extractInt32LE data 64) (1 / 10 ^ 5);
          numSV = element data 23
      in [latitude, longitude, hMSL, height, gSpeed, headMot, velN, velE, velD, numSV, NumI iTOW])"

definition nav_sat :: "byte list \<Rightarrow> jsval list" where
  "nav_sat data = [NumI (ubx_extractUint32LE data 0), element data 4, element data 5]"

definition nav_sol :: "byte list \<Rightarrow> jsval list" where
  "nav_sol data =
     [times (ubx_extractInt32LE data 12) (1 / 100), times (ubx_extractInt32LE data 16) (1 / 100),
      times (ubx_extractInt32LE data 20) (1 / 100), times (ubx_extractUint32LE data 24) (1 / 100),
      element data 47]"

definition nav_posllh :: "byte list \<Rightarrow> jsval list" where
  "nav_posllh data =
     (let lon = times (ubx_extractInt32LE data 4) (1 / 10 ^ 7);
          lat = times (ubx_extractInt32LE data 8) (1 / 10 ^ 7);
          height = times (ubx_extractInt32LE data 12) (1 / 1000);
          hMSL = times (ubx_extractInt32LE data 16) (1 / 1000)
      in [lat, lon, hMSL, height])"

definition ubx_messageMap :: "string message_map" where
  "ubx_messageMap =
     [(''0x01-0x07'', [0, 1, 2, 3, 4, 5, 6, 7, 8, 9, 10], nav_pvt),
      (''0x01-0x35'', [11, 12, 13], nav_sat),
      (''0x01-0x06'', [14, 15, 16, 17, 18], nav_sol),
      (''0x01-0x02'', [0, 1, 2, 3], nav_posllh)]"

definition fletcher_step :: "int \<Rightarrow> int \<times> int \<Rightarrow> int \<times> int" where
  "fletcher_step b ck = (case ck of (calcCkA, calcCkB) \<Rightarrow>
     let calcCkA = bit_and (calcCkA + b) 0xFF in (calcCkA, bit_and (calcCkB + calcCkA) 0xFF))"

definition ubx_validateChecksum :: "int \<Rightarrow> int \<Rightarrow> int \<Rightarrow> byte list \<Rightarrow> int \<Rightarrow> int \<Rightarrow> bool" where
  "ubx_validateChecksum msgClass msgId len payload ckA ckB =
     (let ck = fletcher_step msgClass (0, 0);
          ck = fletcher_step msgId ck;
          ck = fletcher_step (bit_and len 0xFF) ck;
          ck = fletcher_step (bit_and (sar len 8) 0xFF) ck;
          (calcCkA, calcCkB) = fold (\<lambda>b. fletcher_step (uint b)) payload ck
      in calcCkA = ckA \<and> calcCkB = ckB)"

definition padStart2 :: "string \<Rightarrow> string" where
  "padStart2 s = replicate (2 - length s) (CHR ''0'') @ s"

definition ubx_key :: "int \<Rightarrow> int \<Rightarrow> string" where
  "ubx_key msgClass msgId = ''0x'' @ padStart2 (hex_digits (nat msgClass))
     @ ''-0x'' @ padStart2 (hex_digits (nat msgId))"

definition ubx_parse :: "byte list \<Rightarrow> jsval list \<Rightarrow> jsval list" where
  "ubx_parse frame parsedValues =
     (if length frame < 6 then parsedValues
      else (let msgClass = rd frame 0; msgId = rd frame 1;
                payloadLength = bit_or (rd frame 2) (shl (rd frame 3) 8); n = nat payloadLength in
        if length frame < 4 + n + 2 then parsedValues
        else (let payload = map (\<lambda>i. frame ! (4 + i)) [0..<n];
                  ckA = rd frame (4 + n); ckB = rd frame (4 + n + 1) in
          if \<not> ubx_validateChecksum msgClass msgId payloadLength payload ckA ckB then parsedValues
          else dispatch ubx_messageMap (ubx_key msgClass msgId) payload parsedValues)))"

interpretation ubx: message_table ubx_messageMap ubx_numItems
  by unfold_locales (simp add: ubx_messageMap_def ubx_numItems_def)

section \<open>SiRF\<close>

definition sirf_numItems :: nat where "sirf_numItems = 20"

definition sirf_extractUint16BE :: "byte list \<Rightarrow> nat \<Rightarrow> int" where
  "sirf_extractUint16BE bytes offset = bit_or (shl (rd bytes offset) 8) (rd bytes (offset + 1))"

definition sirf_extractInt16BE :: "byte list \<Rightarrow> nat \<Rightarrow> int" where
  "sirf_extractInt16BE bytes offset =
     (let value = bit_or (shl (rd bytes offset) 8) (rd bytes (offset + 1))
      in if value > 32767 then value - 65536 else value)"

definition sirf_extractUint32BE :: "byte list \<Rightarrow> nat \<Rightarrow> int" where
  "sirf_extractUint32BE bytes offset =
     bit_or (bit_or (bit_or (shl (rd bytes offset) 24) (shl (rd bytes (offset + 1)) 16))
       (shl (rd bytes (offset + 2)) 8)) (rd bytes (offset + 3))"

definition sirf_extractInt32BE :: "byte list \<Rightarrow> nat \<Rightarrow> int" where
  "sirf_extractInt32BE bytes offset =
     (let value = bit_or (bit_or (bit_or (shl (rd bytes offset) 24) (shl (rd bytes (offset + 1)) 16))
       (shl (rd bytes (offset + 2)) 8)) (rd bytes (offset + 3))
      in if value > 2147483647 then value - 4294967296 else value)"

definition geodetic_navigation :: "byte list \<Rightarrow> jsval list" where
  "geodetic_navigation data =
     (let navValid = sirf_extractUint16BE data 0;
          latitude = times (sirf_extractInt32BE data 23) (1 / 10 ^ 7);
          longitude = times (sirf_extractInt32BE data 27) (1 / 10 ^ 7);
          altEllipsoid = times (sirf_extractInt32BE data 31) (1 / 100);
          altMSL = times (sirf_extractInt32BE data 35) (1 / 100);
          speedOverGround = times (sirf_extractInt16BE data 40) (1 / 100);
          courseOverGround = times (sirf_extractUint16BE data 42) (1 / 100);
          numSatellites = element data 88;
          hdop = scaled data 89 (1 / 5)
      in [latitude, longitude, altMSL, altEllipsoid, speedOverGround, courseOverGround,
          numSatellites, hdop, NumI navValid])"

definition navigation_library :: "byte list \<Rightarrow> jsval list" where
  "navigation_library data =
     [NumI (sirf_extractInt32BE data 1), NumI (sirf_extractInt32BE data 5),
      NumI (sirf_extractInt32BE data 9), element data 28]"

definition measured_tracker :: "byte list \<Rightarrow> jsval list" where
  "measured_tracker data =
     [NumI (sirf_extractUint16BE data 1), times (sirf_extractUint32BE data 3) (1 / 100), element data 7]"

definition clock_status :: "byte list \<Rightarrow> jsval list" where
  "clock_status data =
     [NumI (sirf_extractUint16BE data 1), NumI (sirf_extractUint32BE data 3), element data 7]"

definition sirf_messageIdMap :: "int message_map" where
  "sirf_messageIdMap =
     [(41, [0, 1, 2, 3, 4, 5, 6, 7, 8], geodetic_navigation),
      (2, [10, 11, 12, 13], navigation_library),
      (4, [14, 15, 16], measured_tracker),
      (7, [17, 18, 19], clock_status)]"

definition sirf_validateChecksum :: "byte list \<Rightarrow> int \<Rightarrow> bool" where
  "sirf_validateChecksum payload receivedChecksum =
     (let sum = fold (\<lambda>b sum. sum + uint b) payload 0 in bit_and sum 0x7FFF = receivedChecksum)"

definition sirf_parse :: "byte list \<Rightarrow> jsval list \<Rightarrow> jsval list" where
  "sirf_parse frame parsedValues =
     (if length frame < 5 then parsedValues
      else (let payloadLength = nat (bit_or (shl (bit_and (rd frame 0) 0x7F) 8) (rd frame 1)) in
        if length frame < 2 + payloadLength + 2 then parsedValues
        else (let messageId = rd frame 2;
                  payload = map (\<lambda>i. frame ! i) [2..<2 + payloadLength];
                  checksumOffset = 2 + payloadLength;
                  receivedChecksum = bit_or (shl (bit_and (rd frame checksumOffset) 0x7F) 8)
                    (rd frame (checksumOffset + 1)) in
          if \<not> sirf_validateChecksum payload receivedChecksum then parsedValues
          else dispatch sirf_messageIdMap messageId (drop 1 payload) parsedValues)))"

interpretation sirf: message_table sirf_messageIdMap sirf_numItems
  by unfold_locales (simp add: sirf_messageIdMap_def sirf_numItems_def)

section \<open>NMEA 2000\<close>

definition n2k_numItems :: nat where "n2k_numItems = 20"

text \<open>\<^verbatim>\<open>Math.PI\<close>, exactly.\<close>

definition math_pi :: rat where
  "math_pi = 884279719003555 / 281474976710656"

definition n2k_extractUint16LE :: "byte list \<Rightarrow> nat \<Rightarrow> int" where
  "n2k_extractUint16LE bytes offset = bit_or (rd bytes offset) (shl (rd bytes (offset + 1)) 8)"

definition n2k_extractInt16LE :: "byte list \<Rightarrow> nat \<Rightarrow> int" where
  "n2k_extractInt16LE bytes offset =
     (let value = bit_or (rd bytes offset) (shl (rd bytes (offset + 1)) 8)
      in if value > 32767 then value - 65536 else value)"

definition n2k_extractUint32LE :: "byte list \<Rightarrow> nat \<Rightarrow> int" where
  "n2k_extractUint32LE bytes offset =
     bit_or (bit_or (bit_or (rd bytes offset) (shl (rd bytes (offset + 1)) 8))
       (shl (rd bytes (offset + 2)) 16)) (shl (rd bytes (offset + 3)) 24)"

definition n2k_extractInt32LE :: "byte list \<Rightarrow> nat \<Rightarrow> int" where
  "n2k_extractInt32LE bytes offset =
     (let value = bit_or (bit_or (bit_or (rd bytes offset) (shl (rd bytes (offset + 1)) 8))
       (shl (rd bytes (offset + 2)) 16)) (shl (rd bytes (offset + 3)) 24)
      in if value > 2147483647 then value - 4294967296 else value)"

definition extractPGN :: "int \<Rightarrow> int" where
  "extractPGN canId =
     (let pf = bit_and (sar canId 16) 0xFF;
          ps = bit_and (sar canId 8) 0xFF;
          dp = bit_and (sar canId 24) 0x01
      in if pf < 240 then bit_or (shl dp 16) (shl pf 8)
         else bit_or (bit_or (shl dp 16) (shl pf 8)) ps)"

definition n2k_attitude :: "byte list \<Rightarrow> jsval list" where
  "n2k_attitude data = map (\<lambda>i. times (n2k_extractInt16LE data i) (1 / 10000 * 180 / math_pi)) [1, 3, 5]"

definition n2k_position :: "byte list \<Rightarrow> jsval list" where
  "n2k_position data = [times (n2k_extractInt32LE data 0) (1 / 10 ^ 7), times (n2k_extractInt32LE data 4) (1 / 10 ^ 7)]"

definition n2k_cog_sog :: "byte list \<Rightarrow> jsval list" where
  "n2k_cog_sog data =
     (let cogRef = bit_and (rd data 1) 0x03;
          cog = times (n2k_extractUint16LE data 2) (1 / 10000 * 180 / math_pi);
          sog = times (n2k_extractUint16LE data 4) (1 / 100 * 194384 / 100000)
      in [cog, sog, NumI cogRef])"

definition n2k_speed :: "byte list \<Rightarrow> jsval list" where
  "n2k_speed data = [times (n2k_extractUint16LE data 1) (1 / 100 * 194384 / 100000),
     times (n2k_extractUint16LE data 3) (1 / 100 * 194384 / 100000)]"

definition n2k_depth :: "byte list \<Rightarrow> jsval list" where
  "n2k_depth data = [times (n2k_extractUint32LE data 1) (1 / 100), times (n2k_extractInt16LE data 5) (1 / 1000)]"

definition kelvin :: "int \<Rightarrow> jsval" where
  "kelvin n = Num (of_int n * (1 / 100) - 27315 / 100)"

definition n2k_water :: "byte list \<Rightarrow> jsval list" where
  "n2k_water data = [kelvin (n2k_extractUint16LE data 1), kelvin (n2k_extractUint16LE data 3)]"

definition n2k_atmosphere :: "byte list \<Rightarrow> jsval list" where
  "n2k_atmosphere data = [NumI (n2k_extractUint16LE data 1), kelvin (n2k_extractUint16LE data 3),
     times (n2k_extractInt16LE data 5) (4 / 1000)]"

definition pgnToIndexMap :: "int message_map" where
  "pgnToIndexMap =
     [(127257, [0, 1, 2], n2k_attitude), (129025, [3, 4], n2k_position), (129026, [5, 6, 7], n2k_cog_sog),
      (128259, [8, 9], n2k_speed), (128267, [10, 11], n2k_depth), (130310, [12, 13], n2k_water),
      (130311, [14, 15, 16], n2k_atmosphere)]"

definition n2k_parse :: "byte list \<Rightarrow> jsval list \<Rightarrow> jsval list" where
  "n2k_parse frame parsedValues =
     (if length frame < 6 then parsedValues
      else (let canId = bit_or (bit_or (bit_or (rd frame 0) (shl (rd frame 1) 8))
                  (shl (rd frame 2) 16)) (shl (rd frame 3) 24);
                dataLength = min (nat (rd frame 4)) 8;
                data = take dataLength (drop 5 frame)
            in dispatch pgnToIndexMap (extractPGN canId) data parsedValues))"

interpretation n2k: message_table pgnToIndexMap n2k_numItems
  by unfold_locales (simp add: pgnToIndexMap_def n2k_numItems_def)

section \<open>MAVLink\<close>

definition mav_numItems :: nat where "mav_numItems = 16"
definition mavlinkVersion :: nat where "mavlinkVersion = 1"

text \<open>An IEEE 754 single; its value is exact.\<close>

definition extractFloat32LE :: "byte list \<Rightarrow> nat \<Rightarrow> jsval" where
  "extractFloat32LE bytes offset =
     (let b0 = rd bytes offset; b1 = rd bytes (offset + 1);
          b2 = rd bytes (offset + 2); b3 = rd bytes (offset + 3);
          sign = (if bit_and b3 0x80 \<noteq> 0 then -1 else 1 :: int);
          exponent = bit_or (shl (bit_and b3 0x7F) 1) (sar b2 7);
          mantissa = bit_or (bit_or (shl (bit_and b2 0x7F) 16) (shl b1 8)) b0
      in if exponent = 0 then Num (of_int (sign * mantissa) / 2 ^ 149)
         else if exponent = 0xFF
         then (if mantissa \<noteq> 0 then NaN else if sign = 1 then Infinity else NegInfinity)
         else Num (of_int (sign * bit_or mantissa 0x800000)
           * (if exponent \<ge> 150 then 2 ^ nat (exponent - 150) else 1 / 2 ^ nat (150 - exponent))))"

definition mav_extractInt16LE :: "byte list \<Rightarrow> nat \<Rightarrow> int" where
  "mav_extractInt16LE bytes offset =
     (let value = bit_or (rd bytes offset) (shl (rd bytes (offset + 1)) 8)
      in if value > 32767 then value - 65536 else value)"

definition mav_extractUint16LE :: "byte list \<Rightarrow> nat \<Rightarrow> int" where
  "mav_extractUint16LE bytes offset = bit_or (rd bytes offset) (shl (rd bytes (offset + 1)) 8)"

definition mav_extractInt32LE :: "byte list \<Rightarrow> nat \<Rightarrow> int" where
  "mav_extractInt32LE bytes offset =
     (let value = bit_or (bit_or (bit_or (rd bytes offset) (shl (rd bytes (offset + 1)) 8))
       (shl (rd bytes (offset + 2)) 16)) (shl (rd bytes (offset + 3)) 24)
      in if value > 2147483647 then value - 4294967296 else value)"

definition mav_attitude :: "byte list \<Rightarrow> jsval list" where
  "mav_attitude payload = [extractFloat32LE payload 4, extractFloat32LE payload 8, extractFloat32LE payload 12]"

definition mav_vfr_hud :: "byte list \<Rightarrow> jsval list" where
  "mav_vfr_hud payload = [extractFloat32LE payload 0, extractFloat32LE payload 4,
     NumI (mav_extractInt16LE payload 8), NumI (mav_extractUint16LE payload 10)]"

definition mav_global_position :: "byte list \<Rightarrow> jsval list" where
  "mav_global_position payload =
     [times (mav_extractInt32LE payload 4) (1 / 10 ^ 7), times (mav_extractInt32LE payload 8) (1 / 10 ^ 7),
      times (mav_extractInt32LE payload 12) (1 / 1000)]"

definition messageIdToIndexMap :: "int message_map" where
  "messageIdToIndexMap =
     [(30, [0, 1, 2], mav_attitude), (74, [3, 4, 5, 6], mav_vfr_hud), (33, [7, 8, 9], mav_global_position)]"

definition mav_parse :: "byte list \<Rightarrow> jsval list \<Rightarrow> jsval list" where
  "mav_parse frame parsedValues =
     (if length frame < 8 then parsedValues
      else (let expectedMarker = (if mavlinkVersion = 2 then 0xFD else 0xFE) in
        if rd frame 0 \<noteq> expectedMarker then parsedValues
        else (let payloadLength = nat (rd frame 1); messageId = rd frame 5;
                  payload = take payloadLength (drop 6 frame)
              in dispatch messageIdToIndexMap messageId payload parsedValues)))"

interpretation mav: message_table messageIdToIndexMap mav_numItems
  by unfold_locales (simp add: messageIdToIndexMap_def mav_numItems_def)

section \<open>RTCM 3\<close>

definition rtcm_numItems :: nat where "rtcm_numItems = 16"

definition readBits :: "byte list \<Rightarrow> nat \<Rightarrow> nat \<Rightarrow> bool \<Rightarrow> int" where
  "readBits bytes bitPos numBits with_sign =
     (let value = fold (\<lambda>i value. let byteIndex = (bitPos + i) div 8; bitIndex = 7 - (bitPos + i) mod 8 in
            if byteIndex < length bytes
            then bit_or (shl value 1) (bit_and (sar (rd bytes byteIndex) bitIndex) 1) else value)
          [0..<numBits] 0
      in if with_sign \<and> numBits > 0 \<and> bit_and value (shl 1 (numBits - 1)) \<noteq> 0
         then value - shl 1 numBits else value)"

text \<open>The loop does not end for a negative value: shifting it right leaves \<open>-1\<close>.\<close>

partial_function (option) countBits_from :: "nat \<Rightarrow> int \<Rightarrow> nat option" where
  "countBits_from count value =
     (if value = 0 then Some count
      else countBits_from (count + nat (bit_and value 1)) (sar value 1))"

definition countBits :: "int \<Rightarrow> nat option" where
  "countBits value = countBits_from 0 value"

definition crc24_bit :: "int \<Rightarrow> int" where
  "crc24_bit crc = (let crc = shl crc 1 in
     if bit_and crc 0x1000000 \<noteq> 0 then bit_xor crc 0x1864CFB else crc)"

definition crc24_byte :: "byte \<Rightarrow> int \<Rightarrow> int" where
  "crc24_byte b crc = (crc24_bit ^^ 8) (bit_xor crc (shl (uint b) 16))"

definition validateCRC24 :: "byte list \<Rightarrow> bool" where
  "validateCRC24 data =
     (if length data < 6 then False
      else (let n = length data;
                crc = bit_and (fold crc24_byte (take (n - 3) data) 0) 0xFFFFFF;
                receivedCRC = bit_or (bit_or (shl (rd data (n - 3)) 16) (shl (rd data (n - 2)) 8))
                  (rd data (n - 1))
            in crc = receivedCRC))"

definition rtcm_station :: "byte list \<Rightarrow> nat \<Rightarrow> jsval list option" where
  "rtcm_station data bitPos =
     (let stationId = readBits data bitPos 12 False; bitPos = bitPos + 12; bitPos = bitPos + 6;
          ecefX = times (readBits data bitPos 38 True) (1 / 10000); bitPos = bitPos + 38;
          ecefY = times (readBits data bitPos 38 True) (1 / 10000); bitPos = bitPos + 38;
          ecefZ = times (readBits data bitPos 38 True) (1 / 10000)
      in Some [NumI stationId, ecefX, ecefY, ecefZ])"

definition rtcm_gps :: "byte list \<Rightarrow> nat \<Rightarrow> jsval list option" where
  "rtcm_gps data bitPos =
     (let stationId = readBits data bitPos 12 False; bitPos = bitPos + 12;
          epochTime = readBits data bitPos 30 False; bitPos = bitPos + 30;
          syncFlag = readBits data bitPos 1 False; bitPos = bitPos + 1
      in case countBits (readBits data bitPos 64 False) of None \<Rightarrow> None
         | Some n \<Rightarrow> Some [NumI stationId, NumI epochTime, NumI syncFlag, NumI (int n)])"

definition rtcm_glonass :: "byte list \<Rightarrow> nat \<Rightarrow> jsval list option" where
  "rtcm_glonass data bitPos =
     (let stationId = readBits data bitPos 12 False; bitPos = bitPos + 12;
          epochTime = readBits data bitPos 27 False; bitPos = bitPos + 27;
          syncFlag = readBits data bitPos 1 False; bitPos = bitPos + 1
      in case countBits (readBits data bitPos 64 False) of None \<Rightarrow> None
         | Some n \<Rightarrow> Some [NumI stationId, NumI epochTime, NumI syncFlag, NumI (int n)])"

definition messageTypeMap :: "(int \<times> nat list \<times> (byte list \<Rightarrow> nat \<Rightarrow> jsval list option)) list" where
  "messageTypeMap =
     [(1005, [0, 1, 2, 3], rtcm_station), (1077, [4, 5, 6, 7], rtcm_gps), (1087, [8, 9, 10, 11], rtcm_glonass)]"

text \<open>\<open>None\<close>: the call does not return.\<close>

definition rtcm_parse :: "byte list \<Rightarrow> jsval list \<Rightarrow> jsval list option" where
  "rtcm_parse frame parsedValues =
     (if length frame < 6 then Some parsedValues
      else if rd frame 0 \<noteq> 0xD3 then Some parsedValues
      else (let msgLength = nat (bit_or (shl (bit_and (rd frame 1) 0x03) 8) (rd frame 2)) in
        if length frame < 3 + msgLength + 3 then Some parsedValues
        else if \<not> validateCRC24 frame then Some parsedValues
        else (let payload = map (\<lambda>i. frame ! i) [3..<3 + msgLength];
                  messageType = readBits payload 0 12 False in
          case map_of messageTypeMap messageType of None \<Rightarrow> Some parsedValues
          | Some (indices, parser) \<Rightarrow> (case parser payload 12 of None \<Rightarrow> None
              | Some v \<Rightarrow> Some (store_values indices v parsedValues)))))"

section \<open>Integers are decoded in two's complement\<close>

lemma le32_twos:
  assumes "i + 3 < length xs"
  shows "bit_or (bit_or (bit_or (rd xs i) (shl (rd xs (i + 1)) 8)) (shl (rd xs (i + 2)) 16)) (shl (rd xs (i + 3)) 24)
    = twos 32 (le_value (field xs i 4))"
proof -
  have "0 \<le> le_value (field xs i 4)" "le_value (field xs i 4) < 4294967296"
    using le_value_range[of "field xs i 4"] assms by (simp_all add: field_def)
  then show ?thesis
    unfolding or_le32 le_field4[OF assms, symmetric] by (rule to_int32_twos)
qed

lemma twos32_small: "0 \<le> v \<Longrightarrow> v < 4294967296 \<Longrightarrow> twos 32 v \<le> 2147483647"
  by (simp add: twos_def)

lemma be_bytes: "rev (field xs i 4) = [xs ! (i + 3), xs ! (i + 2), xs ! (i + 1), xs ! i]" if "i + 3 < length xs"
  using that by (simp add: numeral_eq_Suc field_Cons)

lemma be32_twos:
  assumes "i + 3 < length xs"
  shows "bit_or (bit_or (bit_or (shl (rd xs i) 24) (shl (rd xs (i + 1)) 16)) (shl (rd xs (i + 2)) 8)) (rd xs (i + 3))
    = twos 32 (le_value (rev (field xs i 4)))"
proof -
  have "0 \<le> le_value (rev (field xs i 4))" "le_value (rev (field xs i 4)) < 4294967296"
    using le_value_range[of "rev (field xs i 4)"] assms by (simp_all add: field_def)
  moreover have "le_value (rev (field xs i 4))
      = rd xs (i + 3) + 256 * rd xs (i + 2) + 65536 * rd xs (i + 1) + 16777216 * rd xs i"
    using assms by (simp add: be_bytes rd_nth)
  ultimately show ?thesis unfolding or_be32 by (simp add: to_int32_twos)
qed

lemma signed32_fields:
  assumes "i + 3 < length xs"
  shows "ubx_extractInt32LE xs i = twos 32 (le_value (field xs i 4))"
    and "n2k_extractInt32LE xs i = twos 32 (le_value (field xs i 4))"
    and "mav_extractInt32LE xs i = twos 32 (le_value (field xs i 4))"
    and "sirf_extractInt32BE xs i = twos 32 (le_value (rev (field xs i 4)))"
proof -
  have "twos 32 (le_value bs) \<le> 2147483647" if "length bs = 4" for bs
    using le_value_range[of bs] that by (intro twos32_small) simp_all
  then have "\<not> twos 32 (le_value (field xs i 4)) > 2147483647"
    "\<not> twos 32 (le_value (rev (field xs i 4))) > 2147483647"
    using assms by (simp_all add: field_def not_less)
  then show "ubx_extractInt32LE xs i = twos 32 (le_value (field xs i 4))"
    "n2k_extractInt32LE xs i = twos 32 (le_value (field xs i 4))"
    "mav_extractInt32LE xs i = twos 32 (le_value (field xs i 4))"
    "sirf_extractInt32BE xs i = twos 32 (le_value (rev (field xs i 4)))"
    unfolding ubx_extractInt32LE_def n2k_extractInt32LE_def mav_extractInt32LE_def
      sirf_extractInt32BE_def le32_twos[OF assms] be32_twos[OF assms] by simp_all
qed

lemma signed16_fields:
  assumes "i + 1 < length xs"
  shows "n2k_extractInt16LE xs i = twos 16 (le_value (field xs i 2))"
    and "mav_extractInt16LE xs i = twos 16 (le_value (field xs i 2))"
    and "sirf_extractInt16BE xs i = twos 16 (le_value (rev (field xs i 2)))"
proof -
  have "rev (field xs i 2) = [xs ! (i + 1), xs ! i]"
    using assms by (simp add: numeral_eq_Suc field_Cons)
  then have b: "le_value (rev (field xs i 2)) = 256 * rd xs i + rd xs (i + 1)"
    using assms by (simp add: rd_nth)
  show "n2k_extractInt16LE xs i = twos 16 (le_value (field xs i 2))"
    "mav_extractInt16LE xs i = twos 16 (le_value (field xs i 2))"
    unfolding n2k_extractInt16LE_def mav_extractInt16LE_def or_le16 le_field2[OF assms] twos16 Let_def
    by (rule refl)+
  show "sirf_extractInt16BE xs i = twos 16 (le_value (rev (field xs i 2)))"
    unfolding sirf_extractInt16BE_def or_be16 b twos16 Let_def by (rule refl)
qed

section \<open>Counting satellites\<close>

text \<open>The number of ones among the lowest \<open>n\<close> bits.\<close>

definition ones :: "nat \<Rightarrow> int \<Rightarrow> nat" where
  "ones n v = length (filter (bit v) [0..<n])"

lemma ones_Suc: "ones (Suc n) v = (if odd v then 1 else 0) + ones n (v div 2)"
proof -
  have "[0..<Suc n] = 0 # map Suc [0..<n]" by (simp add: upt_conv_Cons map_Suc_upt del: upt_Suc)
  then show ?thesis
    by (simp add: ones_def filter_map comp_def bit_Suc bit_0 del: upt_Suc)
qed

lemma bit_and_1: "bit_and v 1 = v mod 2"
  using bit_and_mask[of 1 v] by (simp add: mask_eq_exp_minus_1)

lemma countBits_from_ones:
  "\<lbrakk>0 \<le> v; v < 2 ^ n; n \<le> 31\<rbrakk> \<Longrightarrow> countBits_from count v = Some (count + ones n v)"
proof (induction n arbitrary: v count)
  case 0
  then show ?case by (simp add: countBits_from.simps ones_def)
next
  case (Suc n)
  have "(2 :: int) ^ Suc n \<le> 2 ^ 31" using Suc.prems(3) by (intro power_increasing) simp_all
  then have "v < 2147483648" using Suc.prems by simp
  then have s: "sar v 1 = v div 2" using Suc.prems by (simp add: sar_eq to_int32_small)
  have "countBits_from (count + nat (v mod 2)) (v div 2) = Some (count + nat (v mod 2) + ones n (v div 2))"
    using Suc.prems by (intro Suc.IH) simp_all
  then show ?case
    by (cases "v = 0") (simp_all add: countBits_from.simps[of _ v] s[unfolded One_nat_def] bit_and_1 ones_Suc
        ones_def[of _ 0] odd_iff_mod_2_eq_one even_iff_mod_2_eq_zero split: if_splits)
qed

lemma countBits_from_returns:
  assumes "countBits_from count v = Some n"
  shows "0 \<le> to_int32 v"
proof (rule countBits_from.raw_induct[of "\<lambda>_ v _. 0 \<le> to_int32 v", OF _ assms])
  fix f count v n
  assume IH: "\<And>c v n. f c v = Some n \<Longrightarrow> 0 \<le> to_int32 v"
    and run: "(if v = 0 then Some count else f (count + nat (bit_and v 1)) (sar v 1)) = Some n"
  show "0 \<le> to_int32 v"
  proof (cases "v = 0")
    case False
    then have "0 \<le> to_int32 (sar v 1)" using IH run by auto
    moreover have "to_int32 (to_int32 v div 2) = to_int32 v div 2"
      using to_int32_range[of v] by (intro to_int32_small) linarith+
    ultimately show ?thesis by (simp add: sar_eq)
  qed (simp add: to_int32_small)
qed

section \<open>UBX frames\<close>

text \<open>The checksum as the protocol defines it: the sum of the bytes, and the sum of the sums.\<close>

definition fletcher :: "int list \<Rightarrow> int \<times> int" where
  "fletcher ns = fold (\<lambda>b (a, c). (a + b, c + (a + b))) ns (0, 0)"

definition ubx_header :: "byte \<Rightarrow> byte \<Rightarrow> nat \<Rightarrow> byte list" where
  "ubx_header c i n = [c, i, word_of_nat n, word_of_nat (n div 256)]"

definition ubx_frame :: "byte \<Rightarrow> byte \<Rightarrow> byte list \<Rightarrow> byte list" where
  "ubx_frame c i payload =
     (let body = ubx_header c i (length payload) @ payload; (a, b) = fletcher (map uint body)
      in body @ [word_of_int a, word_of_int b])"

lemma fletcher_fold:
  "fold fletcher_step ns (a mod 256, c mod 256)
   = (case fold (\<lambda>b (a, c). (a + b, c + (a + b))) ns (a, c) of (x, y) \<Rightarrow> (x mod 256, y mod 256))"
proof (induction ns arbitrary: a c)
  case (Cons b ns)
  have "fletcher_step b (a mod 256, c mod 256) = ((a + b) mod 256, (c + (a + b)) mod 256)"
  proof -
    have "(a mod 256 + b) mod 256 = (a + b) mod 256" by (rule mod_add_left_eq)
    moreover have "(c mod 256 + (a + b) mod 256) mod 256 = (c + (a + b)) mod 256" by (rule mod_add_eq)
    ultimately show ?thesis by (simp only: fletcher_step_def Let_def and_255 prod.case)
  qed
  then show ?case using Cons[of "a + b" "c + (a + b)"] by simp
qed simp

lemma fletcher_sum: "fst (fletcher ns) = sum_list ns"
proof -
  have "fst (fold (\<lambda>b (a, c). (a + b, c + (a + b))) ns (a, c)) = a + sum_list ns" for a c :: int
    by (induction ns arbitrary: a c) simp_all
  then show ?thesis by (simp add: fletcher_def)
qed

lemma length_word_bytes:
  assumes "n < 65536"
  shows "uint (word_of_nat n :: byte) = int n mod 256" "uint (word_of_nat (n div 256) :: byte) = int n div 256"
proof -
  show "uint (word_of_nat n :: byte) = int n mod 256"
    by (simp add: unsigned_of_nat take_bit_eq_mod of_nat_mod)
  have "uint (word_of_nat (n div 256) :: byte) = int (n div 256 mod 256)"
    by (simp add: unsigned_of_nat take_bit_eq_mod)
  also have "n div 256 mod 256 = n div 256" using assms by simp
  finally show "uint (word_of_nat (n div 256) :: byte) = int n div 256" by (simp add: zdiv_int)
qed

lemma ubx_validate:
  assumes "length payload < 65536"
  shows "ubx_validateChecksum (uint c) (uint i) (int (length payload)) payload ckA ckB
    \<longleftrightarrow> fst (fletcher (map uint (ubx_header c i (length payload) @ payload))) mod 256 = ckA
      \<and> snd (fletcher (map uint (ubx_header c i (length payload) @ payload))) mod 256 = ckB"
proof -
  let ?n = "length payload"
  have n: "0 \<le> int ?n" "int ?n < 2147483648" using assms by simp_all
  have "bit_and (int ?n) 255 = uint (word_of_nat ?n :: byte)"
    using length_word_bytes(1)[OF assms] by (simp add: and_255)
  moreover have "int ?n div 256 mod 256 = int ?n div 256" using assms by (intro mod_pos_pos_trivial) simp_all
  then have "bit_and (sar (int ?n) 8) 255 = uint (word_of_nat (?n div 256) :: byte)"
    using length_word_bytes(2)[OF assms] n by (simp add: and_255 sar_eq to_int32_small)
  moreover have "fold fletcher_step (map uint (ubx_header c i ?n @ payload)) (0, 0)
      = (fst (fletcher (map uint (ubx_header c i ?n @ payload))) mod 256,
         snd (fletcher (map uint (ubx_header c i ?n @ payload))) mod 256)"
    using fletcher_fold[of "map uint (ubx_header c i ?n @ payload)" 0 0]
    unfolding fletcher_def mod_0 split_beta .
  ultimately show ?thesis
    unfolding ubx_validateChecksum_def Let_def
    by (simp add: ubx_header_def fold_map comp_def split_beta)
qed

lemma ubx_parse_frame:
  assumes "length payload < 65536"
  shows "ubx_parse (ubx_header c i (length payload) @ payload @ [x, y]) vs =
    (if ubx_validateChecksum (uint c) (uint i) (int (length payload)) payload (uint x) (uint y)
     then dispatch ubx_messageMap (ubx_key (uint c) (uint i)) payload vs else vs)"
proof -
  let ?n = "length payload" and ?f = "ubx_header c i (length payload) @ payload @ [x, y]"
  have r: "rd ?f 0 = uint c" "rd ?f 1 = uint i" "rd ?f 2 = uint (word_of_nat ?n :: byte)"
    "rd ?f 3 = uint (word_of_nat (?n div 256) :: byte)" "rd ?f (4 + ?n) = uint x" "rd ?f (4 + ?n + 1) = uint y"
    by (simp_all add: rd_def ubx_header_def nth_append)
  have "bit_or (rd ?f 2) (shl (rd ?f 3) 8) = rd ?f 2 + 256 * rd ?f 3" by (rule or_le16)
  also have "\<dots> = int ?n" unfolding r length_word_bytes[OF assms] by (simp add: mod_mult_div_eq)
  finally have len: "bit_or (rd ?f 2) (shl (rd ?f 3) 8) = int ?n" .
  have "map (\<lambda>i. ?f ! (4 + i)) [0..<?n] = payload"
    by (rule nth_equalityI) (simp_all add: ubx_header_def nth_append)
  moreover have "length ?f = 4 + ?n + 2" by (simp add: ubx_header_def)
  ultimately show ?thesis unfolding ubx_parse_def Let_def len nat_int unfolding r by simp
qed

lemma ubx_frame_split:
  "ubx_frame c i payload = ubx_header c i (length payload) @ payload
    @ [word_of_int (fst (fletcher (map uint (ubx_header c i (length payload) @ payload)))),
       word_of_int (snd (fletcher (map uint (ubx_header c i (length payload) @ payload))))]"
  by (simp add: ubx_frame_def split_beta)

lemma uint_word_of_int_byte: "uint (word_of_int n :: byte) = n mod 256"
  by (simp add: unsigned_of_int take_bit_eq_mod)

lemma ubx_accepts:
  assumes "length payload < 65536"
  shows "ubx_parse (ubx_frame c i payload) vs
    = dispatch ubx_messageMap (ubx_key (uint c) (uint i)) payload vs"
  unfolding ubx_frame_split ubx_parse_frame[OF assms] ubx_validate[OF assms] uint_word_of_int_byte
  by simp

lemma sum_list_update_int: "k < length xs \<Longrightarrow> sum_list (xs[k := y]) = sum_list xs + (y - xs ! k :: int)"
  by (induction xs arbitrary: k) (auto simp: nth_Cons split: nat.split)

lemma sum_list_update_mod:
  assumes "k < length payload" and "b \<noteq> payload ! k"
  shows "sum_list (map uint (payload[k := b])) mod 256 \<noteq> sum_list (map uint (payload :: byte list)) mod 256"
proof
  have "sum_list (map uint (payload[k := b])) = sum_list (map uint payload) + (uint b - uint (payload ! k))"
    using assms(1) by (simp add: map_update sum_list_update_int)
  moreover assume "sum_list (map uint (payload[k := b])) mod 256 = sum_list (map uint payload) mod 256"
  ultimately have "(uint b - uint (payload ! k)) mod 256 = 0"
    by (metis add_diff_cancel_left' mod_diff_eq diff_self mod_0)
  then have "256 dvd uint b - uint (payload ! k)" by auto
  moreover have "\<bar>uint b - uint (payload ! k)\<bar> < 256"
  proof -
    have "0 \<le> uint b" "0 \<le> uint (payload ! k)" "uint b < 256" "uint (payload ! k) < 256"
      using uint_lt2p[of b] uint_lt2p[of "payload ! k"] by simp_all
    then show ?thesis by linarith
  qed
  ultimately have "uint b - uint (payload ! k) = 0" by (metis abs_of_nonneg dvd_imp_le_int not_le abs_numeral)
  then show False using assms(2) by (simp add: word_uint_eq_iff)
qed

lemma ubx_rejects:
  assumes n: "length payload < 65536" and k: "k < length payload" and b: "b \<noteq> payload ! k"
  shows "ubx_parse ((ubx_frame c i payload)[4 + k := b]) vs = vs"
proof -
  let ?p = "payload[k := b]" and ?h = "ubx_header c i (length payload)"
  have e: "(ubx_frame c i payload)[4 + k := b] = ubx_header c i (length ?p) @ ?p
    @ [word_of_int (fst (fletcher (map uint (?h @ payload)))),
       word_of_int (snd (fletcher (map uint (?h @ payload))))]"
    using k by (simp add: ubx_frame_split list_update_append ubx_header_def)
  have "sum_list (map uint (?h @ ?p)) mod 256 \<noteq> sum_list (map uint (?h @ payload)) mod 256"
  proof
    assume "sum_list (map uint (?h @ ?p)) mod 256 = sum_list (map uint (?h @ payload)) mod 256"
    then have "sum_list (map uint ?p) mod 256 = sum_list (map uint payload) mod 256"
      by (simp add: mod_eq_dvd_iff)
    then show False using sum_list_update_mod[OF k b] by blast
  qed
  then have "\<not> ubx_validateChecksum (uint c) (uint i) (int (length ?p)) ?p
      (fst (fletcher (map uint (?h @ payload))) mod 256) (snd (fletcher (map uint (?h @ payload))) mod 256)"
    using ubx_validate[of ?p] n by (simp add: fletcher_sum)
  then show ?thesis
    using ubx_parse_frame[of ?p c i _ _ vs] n unfolding e by (simp add: uint_word_of_int_byte)
qed

section \<open>Properties\<close>

text \<open>The signed 32-bit and 16-bit readers of the UBX, NMEA 2000, MAVLink and SiRF parsers return
the two's complement value of the bytes, in the byte order of the protocol.\<close>

theorem signed_fields_decoded:
  assumes "i + 3 < length xs"
  shows "ubx_extractInt32LE xs i = twos 32 (le_value (field xs i 4))
    \<and> n2k_extractInt32LE xs i = twos 32 (le_value (field xs i 4))
    \<and> mav_extractInt32LE xs i = twos 32 (le_value (field xs i 4))
    \<and> sirf_extractInt32BE xs i = twos 32 (le_value (rev (field xs i 4)))
    \<and> n2k_extractInt16LE xs i = twos 16 (le_value (field xs i 2))
    \<and> mav_extractInt16LE xs i = twos 16 (le_value (field xs i 2))
    \<and> sirf_extractInt16BE xs i = twos 16 (le_value (rev (field xs i 2)))"
  using signed32_fields[OF assms] signed16_fields[of i xs] assms by simp

theorem signed_fields_decoded_witness:
  "ubx_extractInt32LE [0xFE, 0xFF, 0xFF, 0xFF] 0 = twos 32 (le_value (field [0xFE, 0xFF, 0xFF, 0xFF] 0 4))"
  by (rule conjunct1[OF signed_fields_decoded]) simp

text \<open>The readers meant for unsigned 32-bit values return two's complement values too: they are
right below \<open>2^31\<close> and negative from there on.\<close>

theorem unsigned_fields_are_signed:
  assumes "i + 3 < length xs"
  shows "ubx_extractUint32LE xs i = twos 32 (le_value (field xs i 4))
    \<and> n2k_extractUint32LE xs i = twos 32 (le_value (field xs i 4))
    \<and> sirf_extractUint32BE xs i = twos 32 (le_value (rev (field xs i 4)))"
  using le32_twos[OF assms] be32_twos[OF assms]
  by (simp only: ubx_extractUint32LE_def n2k_extractUint32LE_def sirf_extractUint32BE_def simp_thms)

theorem unsigned_fields_are_signed_witness:
  "ubx_extractUint32LE [0, 0, 0, 0x80] 0 = -2147483648"
proof -
  have "twos 32 (le_value (field [0, 0, 0, 0x80] 0 4)) = -2147483648"
    by (simp add: twos_def field_def)
  then show ?thesis using unsigned_fields_are_signed[of 0 "[0, 0, 0, 0x80]"] by simp
qed

text \<open>The UBX parser accepts every frame that carries the protocol's checksum and stores the
fields of its message; with any one byte of the payload changed it leaves the table alone.\<close>

theorem ubx_checks_frames:
  assumes "length payload < 65536"
  shows "ubx_parse (ubx_frame c i payload) vs
      = dispatch ubx_messageMap (ubx_key (uint c) (uint i)) payload vs
    \<and> (\<forall>k < length payload. \<forall>b. b \<noteq> payload ! k \<longrightarrow> ubx_parse ((ubx_frame c i payload)[4 + k := b]) vs = vs)"
  using ubx_accepts[OF assms] ubx_rejects[OF assms] by blast

theorem ubx_checks_frames_witness:
  "ubx_parse ((ubx_frame 1 2 [7, 8, 9])[4 + 1 := 0]) [Num 5] = [Num 5]"
proof -
  have "length [7, 8, 9 :: byte] < 65536" by simp
  from conjunct2[OF ubx_checks_frames[OF this, of 1 2 "[Num 5]"], rule_format, of 1 0]
  show ?thesis by simp
qed

text \<open>C38: Counting the satellites of an RTCM message returns the number of ones of a mask below
\<open>2^31\<close>, and does not return for a mask whose bit 31 is set.\<close>

theorem satellite_count:
  assumes "- (2 ^ 31) \<le> v" and "v < 2 ^ 31"
  shows "countBits v = (if 0 \<le> v then Some (ones 31 v) else None)"
proof (cases "0 \<le> v")
  case False
  then have "\<not> 0 \<le> to_int32 v" using assms by (simp add: to_int32_small)
  then show ?thesis
    using countBits_from_returns[of 0 v] False by (cases "countBits_from 0 v") (auto simp: countBits_def)
qed (use countBits_from_ones[of v 31 0] assms in \<open>simp add: countBits_def\<close>)

theorem satellite_count_witness: "countBits (-1) = None"
  by (subst satellite_count) simp_all

end
