(* ===== verification/Annotations.thy ===== *)
theory Annotations
  imports Base64
begin

unbundle bit_operations_syntax

text \<open>
  The annotation decoders of the console (\<^verbatim>\<open>app/rcc/scripts/annotations\<close>) and the host that feeds
  them (\<^verbatim>\<open>core/Ui/Console/Annotations.cpp\<close>).

  A decoder gets the bytes not yet consumed and the position of the first one in the stream, marks
  ranges of the stream and says how many bytes it is done with; the host keeps the rest and puts it
  in front of the next chunk.  The loops of the scripts run over an index \<open>i\<close>; here they run over
  the bytes from \<open>i\<close> on and the stream position \<open>offset + i\<close>, and return the bytes consumed.

  \<open>stream_decoder\<close> is the contract between the two: decoding may stop and be resumed anywhere.
  From it the client lemma follows: the marks do not depend on how the stream is cut into chunks.
\<close>

section \<open>Marks\<close>

text \<open>\<^verbatim>\<open>ctx.annotate(from, to, row, class, texts)\<close>.\<close>

datatype mark = Mark (mark_from: int) (mark_to: int) (mark_row: nat) (mark_class: nat)
  (mark_texts: "string list")

abbreviation count_text :: "nat \<Rightarrow> string" where
  "count_text n \<equiv> nat_digits n @ '' bytes''"

abbreviation nbyte :: "byte \<Rightarrow> nat" where
  "nbyte \<equiv> unat"

lemma nbyte_less [simp]: "nbyte x < 256"
proof -
  have "unat x < 2 ^ LENGTH(8)" by (rule unsigned_less)
  then show ?thesis by simp
qed

lemma nbyte_le: "nbyte x \<le> 255"
  using nbyte_less[of x] by linarith

text \<open>How far a loop \<^verbatim>\<open>while (i < b.length && b[i] !== x) ++i\<close> runs.\<close>

definition until :: "byte \<Rightarrow> byte list \<Rightarrow> nat" where
  "until x b = length (takeWhile (\<lambda>y. y \<noteq> x) b)"

lemma until_le: "until x b \<le> length b"
  by (simp add: until_def length_takeWhile_le)

lemma until_Cons: "until x (y # b) = (if y = x then 0 else Suc (until x b))"
  by (simp add: until_def)

lemma until_append: "until x b < length b \<Longrightarrow> until x (b @ c) = until x b"
  by (induction b) (auto simp: until_def)

lemma until_hit: "until x b < length b \<Longrightarrow> b ! until x b = x"
  by (induction b) (auto simp: until_def)

lemma drop_resumed: "n \<le> length xs \<Longrightarrow> drop m (drop n xs @ ys) = drop (n + m) (xs @ ys)"
  by (metis add.commute drop_drop drop_append diff_is_0_eq drop0)

section \<open>Fixed records\<close>

definition RECORD_SIZE :: nat where "RECORD_SIZE = 16"
definition HEADER_SIZE :: nat where "HEADER_SIZE = 2"

function fixed_records :: "byte list \<Rightarrow> nat \<Rightarrow> nat \<times> mark list" where
  "fixed_records b p =
     (if RECORD_SIZE \<le> length b then
        (let (n, marks) = fixed_records (drop RECORD_SIZE b) (p + RECORD_SIZE) in
         (RECORD_SIZE + n,
          [Mark (int p) (int (p + RECORD_SIZE) - 1) 0 0 [count_text RECORD_SIZE, ''R''],
           Mark (int p) (int (p + HEADER_SIZE) - 1) 1 1 [''0x'' @ hex_digits (nbyte (b ! 0)), ''H'']]
          @ marks))
      else (0, []))"
  by pat_completeness auto
termination
  by (relation "measure (length \<circ> fst)") (auto simp: RECORD_SIZE_def)

section \<open>Lines\<close>

function line_framing :: "byte list \<Rightarrow> nat \<Rightarrow> nat \<times> mark list" where
  "line_framing b p =
     (let i = until 0x0A b in
      if i \<ge> length b then (0, [])
      else (let (n, marks) = line_framing (drop (i + 1) b) (p + (i + 1)) in
        (i + 1 + n,
         [Mark (int p) (int (p + i) - 1) 1 0 [count_text i, ''P''],
          Mark (int (p + i)) (int (p + i)) 0 1 [''LF'', ''n'']] @ marks)))"
  by pat_completeness auto
termination
  by (relation "measure (length \<circ> fst)") auto

section \<open>MAVLink 2\<close>

definition mavlink_total :: "byte list \<Rightarrow> nat" where
  "mavlink_total b = (let len = nbyte (b ! 1); signed = (b ! 2 AND 0x01 \<noteq> 0)
     in 12 + len + (if signed then 13 else 0))"

definition mavlink_marks :: "byte list \<Rightarrow> nat \<Rightarrow> mark list" where
  "mavlink_marks b p =
     (let len = nbyte (b ! 1);
          signed = (b ! 2 AND 0x01 \<noteq> 0);
          total = mavlink_total b;
          msgid = nat (bit_or (bit_or (rd b 7) (shl (rd b 8) 8)) (shl (rd b 9) 16))
      in [Mark (int p) (int p + 9) 0 0 [''msg '' @ nat_digits msgid, nat_digits msgid]]
         @ (if len > 0 then [Mark (int p + 10) (int p + 9 + int len) 1 1 [count_text len, ''P'']] else [])
         @ [Mark (int p + 10 + int len) (int p + 11 + int len) 1 2 [''CRC'', ''C'']]
         @ (if signed then [Mark (int p + 12 + int len) (int (p + total) - 1) 1 3 [''signature'', ''S'']]
            else []))"

function mavlink_v2 :: "byte list \<Rightarrow> nat \<Rightarrow> nat \<times> mark list" where
  "mavlink_v2 b0 p0 =
     (let i = until 0xFD b0; b = drop i b0; p = p0 + i in
      if length b < 10 then (i, [])
      else (let total = mavlink_total b in
        if length b < total then (i, [])
        else (let (n, marks) = mavlink_v2 (drop total b) (p + total) in
          (i + total + n, mavlink_marks b p @ marks))))"
  by pat_completeness auto
termination
  by (relation "measure (length \<circ> fst)") (auto simp: mavlink_total_def Let_def)

section \<open>Modbus RTU\<close>

definition COUNTED :: "nat list" where
  "COUNTED = [0x01, 0x02, 0x03, 0x04, 0x0C, 0x11, 0x14, 0x15, 0x17]"

definition modbus_total :: "byte list \<Rightarrow> nat" where
  "modbus_total b = (let fn = b ! 1 in
     if fn AND 0x80 \<noteq> 0 then 5
     else if nbyte fn \<in> set COUNTED then 3 + nbyte (b ! 2) + 2 else 8)"

function modbus_rtu :: "byte list \<Rightarrow> nat \<Rightarrow> nat \<times> mark list" where
  "modbus_rtu b p =
     (if length b < 4 then (0, [])
      else (let fn = b ! 1; bad = (fn AND 0x80 \<noteq> 0); total = modbus_total b in
        if length b < total then (0, [])
        else (let (n, marks) = modbus_rtu (drop total b) (p + total) in
          (total + n,
           [Mark (int p) (int p) 0 0 [''addr '' @ nat_digits (nbyte (b ! 0)), nat_digits (nbyte (b ! 0))],
            Mark (int p + 1) (int p + 1) 1 (if bad then 4 else 1)
              [if bad then ''exception'' else ''fn '' @ nat_digits (nbyte fn),
               nat_digits (nbyte (fn AND 0x7F))]]
           @ (if total > 4
              then [Mark (int p + 2) (int (p + total) - 3) 1 2 [count_text (total - 4), ''D'']] else [])
           @ [Mark (int (p + total) - 2) (int (p + total) - 1) 0 3 [''CRC'', ''C'']]
           @ marks))))"
  by pat_completeness auto
termination
  by (relation "measure (length \<circ> fst)") (auto simp: modbus_total_def Let_def)

section \<open>NMEA 0183\<close>

text \<open>A sentence is given by its bytes from the dollar sign up to the line feed, which is at \<open>j\<close>.  The
star the inner loop ends with is the last one.\<close>

definition last_star :: "byte list \<Rightarrow> nat option" where
  "last_star b = (case filter (\<lambda>k. b ! k = 0x2A) [1..<length b] of [] \<Rightarrow> None | ks \<Rightarrow> Some (last ks))"

definition xor_sum :: "byte list \<Rightarrow> byte" where
  "xor_sum bs = fold (\<lambda>x sum. sum XOR x) bs 0"

definition text_of :: "byte list \<Rightarrow> string" where
  "text_of bs = map (\<lambda>x. char_of (nbyte x)) bs"

definition nmea_sentence :: "byte list \<Rightarrow> nat \<Rightarrow> mark list" where
  "nmea_sentence b p = (let j = length b in
     case last_star b of None \<Rightarrow> []
      | Some star \<Rightarrow> if star + 2 \<ge> j then []
          else (let sum = xor_sum (take (star - 1) (drop 1 b));
                    hex = text_of [b ! (star + 1), b ! (star + 2)];
                    ok = (parse_hex_int hex = Some (uint sum));
                    comma = 1 + until 0x2C (take (star - 1) (drop 1 b));
                    kind = text_of (take (comma - 1) (drop 1 b))
                in [Mark (int p) (int (p + comma) - 1) 0 0 [kind, drop 2 kind],
                    Mark (int (p + comma)) (int (p + star) - 1) 1 1 [count_text (star - comma), ''F''],
                    Mark (int (p + star)) (int (p + star) + 2) 0 (if ok then 2 else 3)
                      [(if ok then ''CRC '' else ''BAD '') @ hex, if ok then ''*'' else ''X'']]))"

function nmea_0183 :: "byte list \<Rightarrow> nat \<Rightarrow> nat \<times> mark list" where
  "nmea_0183 b0 p0 =
     (let i = until 0x24 b0; b = drop i b0; p = p0 + i in
      if b = [] then (i, [])
      else (let j = 1 + until 0x0A (tl b) in
        if j \<ge> length b then (i, [])
        else (let (n, marks) = nmea_0183 (drop (j + 1) b) (p + (j + 1)) in
          (i + (j + 1) + n, nmea_sentence (take j b) p @ marks))))"
  by pat_completeness auto
termination
  by (relation "measure (length \<circ> fst)") auto

section \<open>SLIP\<close>

text \<open>The loop keeps the position where the packet started and those of its escapes; what it
returns is a stream position.\<close>

fun slip_loop :: "byte list \<Rightarrow> nat \<Rightarrow> nat \<Rightarrow> nat list \<Rightarrow> nat \<times> mark list" where
  "slip_loop [] p start escapes = (start, [])"
| "slip_loop (x # b) p start escapes =
     (if x = 0xDB then
        (case b of [] \<Rightarrow> (start, [])
         | y # b' \<Rightarrow> slip_loop b' (p + 2) start (escapes @ [p]))
      else if x \<noteq> 0xC0 then slip_loop b (p + 1) start escapes
      else (let (n, marks) = slip_loop b (p + 1) (p + 1) [] in
        (n, (if p > start then [Mark (int start) (int p - 1) 0 0 [count_text (p - start), ''P'']] else [])
          @ map (\<lambda>e. Mark (int e) (int e + 1) 1 2 [''ESC'', ''E'']) escapes
          @ [Mark (int p) (int p) 0 1 [''END'', ''C0'']]
          @ marks)))"

definition slip :: "byte list \<Rightarrow> nat \<Rightarrow> nat \<times> mark list" where
  "slip b p = (let (start, marks) = slip_loop b p p [] in (start - p, marks))"

section \<open>COBS\<close>

text \<open>The chain of code bytes of one packet; the last position of the packet is \<open>e\<close>.\<close>

function cobs_codes :: "byte list \<Rightarrow> nat \<Rightarrow> int \<Rightarrow> mark list" where
  "cobs_codes packet p e =
     (if packet = [] then []
      else (let code = nbyte (hd packet) in
        if code = 0 \<or> code > length packet
        then [Mark (int p) e 1 3 [''framing error'', ''!'']]
        else Mark (int p) (int p) 1 2 [CHR ''+'' # nat_digits code, nat_digits code]
             # cobs_codes (drop code packet) (p + code) e))"
  by pat_completeness auto
termination
  by (relation "measure (length \<circ> fst)") auto

function cobs :: "byte list \<Rightarrow> nat \<Rightarrow> nat \<times> mark list" where
  "cobs b p =
     (let i = until 0x00 b in
      if i \<ge> length b then (0, [])
      else (let (n, marks) = cobs (drop (i + 1) b) (p + (i + 1)) in
        (i + 1 + n,
         (if i > 0 then [Mark (int p) (int (p + i) - 1) 0 0 [count_text i, ''P'']]
             @ cobs_codes (take i b) p (int (p + i) - 1) else [])
         @ [Mark (int (p + i)) (int (p + i)) 0 1 [''0x00'', ''0'']] @ marks)))"
  by pat_completeness auto
termination
  by (relation "measure (length \<circ> fst)") auto

lemmas decoder_simps [simp del] = fixed_records.simps line_framing.simps mavlink_v2.simps
  modbus_rtu.simps nmea_0183.simps cobs.simps cobs_codes.simps

section \<open>The host\<close>

text \<open>\<^verbatim>\<open>AnnotationDecoder::feed\<close> while decoding is enabled and the script returns a number: the bytes
not consumed are carried over, up to \<open>kMaxCarry\<close> of them.\<close>

definition kMaxCarry :: nat where "kMaxCarry = 4096"

record console =
  carry :: "byte list"
  carryOffset :: nat
  shown :: "mark list"

definition feed :: "(byte list \<Rightarrow> nat \<Rightarrow> nat \<times> mark list) \<Rightarrow> byte list \<Rightarrow> console \<Rightarrow> console" where
  "feed decode bytes s =
     (if bytes = [] then s
      else (let buffer = carry s @ bytes; offset = carryOffset s;
                (returned, marks) = decode buffer offset;
                consumed = min returned (length buffer);
                rest = drop consumed buffer;
                dropped = length rest - kMaxCarry
            in \<lparr>carry = drop dropped rest, carryOffset = offset + consumed + dropped,
                shown = shown s @ marks\<rparr>))"

section \<open>The contract\<close>

text \<open>A decoder consumes no more than it has, and when it is called again with what it left and
more bytes, at the position where it stopped, the two calls do what one call on all bytes does.\<close>

locale stream_decoder =
  fixes decode :: "byte list \<Rightarrow> nat \<Rightarrow> nat \<times> mark list"
  assumes consumes: "fst (decode b p) \<le> length b"
    and resumes: "decode b p = (n, marks) \<Longrightarrow>
      decode (b @ c) p = (n + fst (decode (drop n b @ c) (p + n)),
        marks @ snd (decode (drop n b @ c) (p + n)))"
begin

text \<open>As long as nothing is dropped, the host's state is the one after a single call.\<close>

lemma feed_all:
  assumes "\<And>k. length (carry s @ concat (take k chunks))
      - fst (decode (carry s @ concat (take k chunks)) (carryOffset s)) \<le> kMaxCarry"
    and "fst (decode (carry s) (carryOffset s)) = 0" and "snd (decode (carry s) (carryOffset s)) = []"
  shows "fold (feed decode) chunks s
    = (let b = carry s @ concat chunks; (n, marks) = decode b (carryOffset s) in
       \<lparr>carry = drop n b, carryOffset = carryOffset s + n, shown = shown s @ marks\<rparr>)"
  using assms
proof (induction chunks arbitrary: s)
  case Nil
  then show ?case by (cases "decode (carry s) (carryOffset s)") simp
next
  case (Cons c chunks)
  let ?b = "carry s @ c" and ?p = "carryOffset s"
  obtain n marks where d: "decode ?b ?p = (n, marks)" by fastforce
  let ?s = "feed decode c s"
  have n: "n \<le> length ?b" using consumes[of ?b ?p] d by simp
  have "length ?b - n \<le> kMaxCarry" using Cons.prems(1)[of 1] d by simp
  then have s: "?s = \<lparr>carry = drop n ?b, carryOffset = ?p + n, shown = shown s @ marks\<rparr>"
    if "c \<noteq> []"
    using that d n by (simp add: feed_def)
  have "c = [] \<Longrightarrow> ?s = s \<and> n = 0 \<and> marks = []" using Cons.prems(2,3) d by (simp add: feed_def)
  then have s: "?s = \<lparr>carry = drop n ?b, carryOffset = ?p + n, shown = shown s @ marks\<rparr>"
    using s by (cases "c = []") auto
  have r: "decode (?b @ xs) ?p = (n + fst (decode (carry ?s @ xs) (carryOffset ?s)),
      marks @ snd (decode (carry ?s @ xs) (carryOffset ?s)))" for xs
    using resumes[OF d, of xs] by (simp add: s)
  have idle: "fst (decode (carry ?s) (carryOffset ?s)) = 0" "snd (decode (carry ?s) (carryOffset ?s)) = []"
    using r[of "[]"] d by simp_all
  have room: "length (carry ?s @ concat (take k chunks))
      - fst (decode (carry ?s @ concat (take k chunks)) (carryOffset ?s)) \<le> kMaxCarry" for k
    using Cons.prems(1)[of "Suc k"] r[of "concat (take k chunks)"] n by (simp add: s)
  have "fold (feed decode) chunks ?s
    = (let b = carry ?s @ concat chunks; (m, more) = decode b (carryOffset ?s) in
       \<lparr>carry = drop m b, carryOffset = carryOffset ?s + m, shown = shown ?s @ more\<rparr>)"
    by (rule Cons.IH) (rule room, rule idle(1), rule idle(2))
  also obtain m more where e: "decode (carry ?s @ concat chunks) (carryOffset ?s) = (m, more)"
    by fastforce
  moreover have "drop m (carry ?s @ concat chunks) = drop (n + m) (?b @ concat chunks)"
    using drop_resumed[OF n] by (simp only: s console.select_convs)
  ultimately show ?case using r[of "concat chunks"] by (simp add: s)
qed

end

text \<open>Most decoders work packet by packet: \<open>step\<close> takes the first packet (or one byte of noise) off
the bytes, or says that more bytes are needed; a packet that is complete stays the same when more
bytes arrive.\<close>

locale packet_decoder =
  fixes decode :: "byte list \<Rightarrow> nat \<Rightarrow> nat \<times> mark list"
    and step :: "byte list \<Rightarrow> nat \<Rightarrow> (nat \<times> mark list) option"
  assumes unfolds: "decode b p = (case step b p of None \<Rightarrow> (0, [])
      | Some (n, marks) \<Rightarrow> (n + fst (decode (drop n b) (p + n)), marks @ snd (decode (drop n b) (p + n))))"
    and takes: "step b p = Some (n, marks) \<Longrightarrow> 0 < n \<and> n \<le> length b"
    and stays: "step b p = Some r \<Longrightarrow> step (b @ c) p = Some r"
begin

lemma step_consumes: "fst (decode b p) \<le> length b"
proof (induction b arbitrary: p rule: length_induct)
  case (1 b)
  show ?case
  proof (cases "step b p")
    case (Some r)
    obtain n marks where r: "r = (n, marks)" by fastforce
    have n: "0 < n" "n \<le> length b" using takes[of b p] Some r by auto
    have "length (drop n b) < length b" using n by simp
    then have "fst (decode (drop n b) (p + n)) \<le> length (drop n b)" using 1 by blast
    then show ?thesis using n by (subst unfolds) (simp add: Some r)
  qed (simp add: unfolds[of b])
qed

lemma step_resumes:
  "decode b p = (n, marks) \<Longrightarrow> decode (b @ c) p =
     (n + fst (decode (drop n b @ c) (p + n)), marks @ snd (decode (drop n b @ c) (p + n)))"
proof (induction b arbitrary: p n marks rule: length_induct)
  case (1 b)
  show ?case
  proof (cases "step b p")
    case None
    then show ?thesis using 1(2) by (simp add: unfolds[of b])
  next
    case (Some r)
    obtain k first where r: "r = (k, first)" by fastforce
    have k: "0 < k" "k \<le> length b" using takes[of b p] Some r by auto
    obtain m more where d: "decode (drop k b) (p + k) = (m, more)" by fastforce
    have m: "m \<le> length (drop k b)" using step_consumes[of "drop k b" "p + k"] d by simp
    have "length (drop k b) < length b" using k by simp
    then have "decode (drop k b @ c) (p + k)
      = (m + fst (decode (drop m (drop k b) @ c) (p + k + m)),
         more @ snd (decode (drop m (drop k b) @ c) (p + k + m)))"
      using 1(1) d by blast
    moreover have "decode (b @ c) p = (k + fst (decode (drop k b @ c) (p + k)),
        first @ snd (decode (drop k b @ c) (p + k)))"
      using k by (subst unfolds) (simp add: stays[OF Some] r)
    moreover have "n = k + m" "marks = first @ more"
      using 1(2) by (simp_all add: unfolds[of b] Some r d)
    ultimately show ?thesis by (simp add: add.commute add.left_commute)
  qed
qed

end

sublocale packet_decoder \<subseteq> stream_decoder decode
  by unfold_locales (rule step_consumes, rule step_resumes)

section \<open>The decoders honour it\<close>

definition record_step :: "byte list \<Rightarrow> nat \<Rightarrow> (nat \<times> mark list) option" where
  "record_step b p = (if RECORD_SIZE \<le> length b then Some (RECORD_SIZE, snd (fixed_records (take RECORD_SIZE b) p))
     else None)"

interpretation records: packet_decoder fixed_records record_step
proof unfold_locales
  have short: "length b < RECORD_SIZE \<Longrightarrow> fixed_records b p = (0, [])" for b p
    by (simp add: fixed_records.simps[of b])
  fix b c :: "byte list" and p n marks r
  show "fixed_records b p = (case record_step b p of None \<Rightarrow> (0, [])
      | Some (n, marks) \<Rightarrow> (n + fst (fixed_records (drop n b) (p + n)),
          marks @ snd (fixed_records (drop n b) (p + n))))"
    using short[of "[]"]
    by (simp add: record_step_def fixed_records.simps[of b] fixed_records.simps[of "take 16 b"]
        RECORD_SIZE_def split: prod.split)
  show "record_step b p = Some (n, marks) \<Longrightarrow> 0 < n \<and> n \<le> length b"
    by (auto simp: record_step_def RECORD_SIZE_def split: if_splits)
  show "record_step b p = Some r \<Longrightarrow> record_step (b @ c) p = Some r"
    by (auto simp: record_step_def split: if_splits)
qed

definition line_step :: "byte list \<Rightarrow> nat \<Rightarrow> (nat \<times> mark list) option" where
  "line_step b p = (let i = until 0x0A b in if i \<ge> length b then None
     else Some (i + 1, snd (line_framing (take (i + 1) b) p)))"

lemma until_take: "until x b < length b \<Longrightarrow> until x (take (Suc (until x b)) b) = until x b"
  using until_append[of x "take (Suc (until x b)) b" "drop (Suc (until x b)) b"] until_hit[of x b]
  by (induction b) (auto simp: until_Cons)

interpretation lines: packet_decoder line_framing line_step
proof unfold_locales
  have nil: "line_framing [] p = (0, [])" for p by (simp add: line_framing.simps[of "[]"])
  fix b c :: "byte list" and p n marks r
  show "line_framing b p = (case line_step b p of None \<Rightarrow> (0, [])
      | Some (n, marks) \<Rightarrow> (n + fst (line_framing (drop n b) (p + n)),
          marks @ snd (line_framing (drop n b) (p + n))))"
    by (simp add: line_step_def Let_def line_framing.simps[of b]
        line_framing.simps[of "take (Suc (until 10 b)) b"] until_take nil split: prod.split)
  show "line_step b p = Some (n, marks) \<Longrightarrow> 0 < n \<and> n \<le> length b"
    by (auto simp: line_step_def Let_def split: if_splits)
  show "line_step b p = Some r \<Longrightarrow> line_step (b @ c) p = Some r"
    by (auto simp: line_step_def Let_def until_append split: if_splits)
qed

definition cobs_step :: "byte list \<Rightarrow> nat \<Rightarrow> (nat \<times> mark list) option" where
  "cobs_step b p = (let i = until 0x00 b in if i \<ge> length b then None
     else Some (i + 1, snd (cobs (take (i + 1) b) p)))"

interpretation cobs: packet_decoder cobs cobs_step
proof unfold_locales
  have nil: "cobs [] p = (0, [])" for p by (simp add: cobs.simps[of "[]"])
  fix b c :: "byte list" and p n marks r
  show "cobs b p = (case cobs_step b p of None \<Rightarrow> (0, [])
      | Some (n, marks) \<Rightarrow> (n + fst (cobs (drop n b) (p + n)),
          marks @ snd (cobs (drop n b) (p + n))))"
    by (simp add: cobs_step_def Let_def cobs.simps[of b]
        cobs.simps[of "take (Suc (until 0 b)) b"] until_take nil split: prod.split)
  show "cobs_step b p = Some (n, marks) \<Longrightarrow> 0 < n \<and> n \<le> length b"
    by (auto simp: cobs_step_def Let_def split: if_splits)
  show "cobs_step b p = Some r \<Longrightarrow> cobs_step (b @ c) p = Some r"
    by (auto simp: cobs_step_def Let_def until_append split: if_splits)
qed

definition modbus_step :: "byte list \<Rightarrow> nat \<Rightarrow> (nat \<times> mark list) option" where
  "modbus_step b p = (if 4 \<le> length b \<and> modbus_total b \<le> length b
     then Some (modbus_total b, snd (modbus_rtu (take (modbus_total b) b) p)) else None)"

lemma modbus_total_range: "5 \<le> modbus_total b" "modbus_total b \<le> 260"
  using nbyte_le[of "b ! 2"] by (auto simp: modbus_total_def Let_def)

lemma modbus_total_cong: "take 3 b = take 3 c \<Longrightarrow> 3 \<le> length b \<Longrightarrow> 3 \<le> length c
  \<Longrightarrow> modbus_total b = modbus_total c \<and> b ! 0 = c ! 0 \<and> b ! 1 = c ! 1"
  unfolding modbus_total_def by (metis nth_take numeral_3_eq_3 lessI less_Suc_eq zero_less_Suc One_nat_def numeral_2_eq_2)

interpretation rtu: packet_decoder modbus_rtu modbus_step
proof unfold_locales
  have nil: "modbus_rtu [] p = (0, [])" for p by (simp add: modbus_rtu.simps[of "[]"])
  fix b c :: "byte list" and p n marks r
  have same: "modbus_total (take (modbus_total b) b) = modbus_total b"
    "take (modbus_total b) b ! 0 = b ! 0" "take (modbus_total b) b ! Suc 0 = b ! Suc 0"
    if "4 \<le> length b"
    using modbus_total_cong[of "take (modbus_total b) b" b] modbus_total_range[of b] that
    by (auto simp: min_def)
  show "modbus_rtu b p = (case modbus_step b p of None \<Rightarrow> (0, [])
      | Some (n, marks) \<Rightarrow> (n + fst (modbus_rtu (drop n b) (p + n)),
          marks @ snd (modbus_rtu (drop n b) (p + n))))"
    using modbus_total_range[of b] same
    by (auto simp: modbus_step_def Let_def modbus_rtu.simps[of b]
        modbus_rtu.simps[of "take (modbus_total b) b"] nil split: prod.split)
  show "modbus_step b p = Some (n, marks) \<Longrightarrow> 0 < n \<and> n \<le> length b"
    using modbus_total_range[of b] by (auto simp: modbus_step_def split: if_splits)
  show "modbus_step b p = Some r \<Longrightarrow> modbus_step (b @ c) p = Some r"
    using modbus_total_cong[of b "b @ c"] by (auto simp: modbus_step_def split: if_splits)
qed

text \<open>The two decoders that look for a start byte take noise one byte at a time.\<close>

definition mavlink_step :: "byte list \<Rightarrow> nat \<Rightarrow> (nat \<times> mark list) option" where
  "mavlink_step b p = (case b of [] \<Rightarrow> None | x # _ \<Rightarrow>
     if x \<noteq> 0xFD then Some (1, [])
     else if 10 \<le> length b \<and> mavlink_total b \<le> length b
     then Some (mavlink_total b, mavlink_marks b p) else None)"

lemma mavlink_total_range: "12 \<le> mavlink_total b" "mavlink_total b \<le> 280"
  using nbyte_le[of "b ! 1"] by (auto simp: mavlink_total_def Let_def)

lemma mavlink_append:
  "10 \<le> length b \<Longrightarrow> mavlink_total (b @ c) = mavlink_total b \<and> mavlink_marks (b @ c) p = mavlink_marks b p"
  by (simp add: mavlink_total_def mavlink_marks_def nth_append rd_def)

lemma mavlink_nil: "mavlink_v2 [] p = (0, [])"
  by (simp add: mavlink_v2.simps[of "[]"] until_def)

lemma mavlink_noise: "x \<noteq> 0xFD \<Longrightarrow>
  mavlink_v2 (x # b) p = (Suc (fst (mavlink_v2 b (Suc p))), snd (mavlink_v2 b (Suc p)))"
  by (simp add: mavlink_v2.simps[of "x # b"] mavlink_v2.simps[of b] until_Cons Let_def
      split: prod.split)

interpretation mavlink: packet_decoder mavlink_v2 mavlink_step
proof unfold_locales
  fix b c :: "byte list" and p n marks r
  show "mavlink_v2 b p = (case mavlink_step b p of None \<Rightarrow> (0, [])
      | Some (n, marks) \<Rightarrow> (n + fst (mavlink_v2 (drop n b) (p + n)),
          marks @ snd (mavlink_v2 (drop n b) (p + n))))"
  proof (cases b)
    case (Cons x b')
    then show ?thesis
      by (cases "x = 0xFD") (simp_all add: mavlink_noise mavlink_step_def until_Cons Let_def
          mavlink_v2.simps[of "253 # b'"] split: prod.split)
  qed (simp add: mavlink_nil mavlink_step_def)
  show "mavlink_step b p = Some (n, marks) \<Longrightarrow> 0 < n \<and> n \<le> length b"
    using mavlink_total_range[of b] by (auto simp: mavlink_step_def split: if_splits list.splits)
  show "mavlink_step b p = Some r \<Longrightarrow> mavlink_step (b @ c) p = Some r"
    using mavlink_append[of b c p]
    by (auto simp: mavlink_step_def split: if_splits list.splits)
qed

definition nmea_step :: "byte list \<Rightarrow> nat \<Rightarrow> (nat \<times> mark list) option" where
  "nmea_step b p = (case b of [] \<Rightarrow> None | x # b' \<Rightarrow>
     if x \<noteq> 0x24 then Some (1, [])
     else (let j = 1 + until 0x0A b' in if j < length b then Some (j + 1, nmea_sentence (take j b) p) else None))"

lemma nmea_nil: "nmea_0183 [] p = (0, [])"
  by (simp add: nmea_0183.simps[of "[]"] until_def)

lemma nmea_noise: "x \<noteq> 0x24 \<Longrightarrow>
  nmea_0183 (x # b) p = (Suc (fst (nmea_0183 b (Suc p))), snd (nmea_0183 b (Suc p)))"
  by (simp add: nmea_0183.simps[of "x # b"] nmea_0183.simps[of b] until_Cons Let_def split: prod.split)

interpretation nmea: packet_decoder nmea_0183 nmea_step
proof unfold_locales
  fix b c :: "byte list" and p n marks r
  show "nmea_0183 b p = (case nmea_step b p of None \<Rightarrow> (0, [])
      | Some (n, marks) \<Rightarrow> (n + fst (nmea_0183 (drop n b) (p + n)),
          marks @ snd (nmea_0183 (drop n b) (p + n))))"
  proof (cases b)
    case (Cons x b')
    then show ?thesis
      by (cases "x = 0x24") (simp_all add: nmea_noise nmea_step_def nmea_0183.simps[of "36 # b'"]
          until_Cons Let_def split: prod.split)
  qed (simp add: nmea_nil nmea_step_def)
  show "nmea_step b p = Some (n, marks) \<Longrightarrow> 0 < n \<and> n \<le> length b"
    by (auto simp: nmea_step_def Let_def split: if_splits list.splits)
  show "nmea_step b p = Some r \<Longrightarrow> nmea_step (b @ c) p = Some r"
    by (auto simp: nmea_step_def Let_def until_append split: if_splits list.splits)
qed

text \<open>SLIP is read byte by byte; \<open>pre\<close> are the bytes of the packet that is being read.\<close>

lemma slip_loop_resumes:
  assumes "\<And>r. slip_loop (pre @ r) start start [] = slip_loop r p start escapes"
    and "p = start + length pre" and "slip_loop b p start escapes = (s, marks)"
  shows "start \<le> s \<and> s \<le> p + length b \<and> slip_loop (b @ c) p start escapes
    = (fst (slip_loop (drop (s - start) (pre @ b) @ c) s s []),
       marks @ snd (slip_loop (drop (s - start) (pre @ b) @ c) s s []))"
  using assms
proof (induction b p start escapes arbitrary: pre s marks rule: slip_loop.induct)
  case (1 p start escapes)
  then show ?case by simp
next
  case (2 x b p start escapes)
  consider (escape) y b' where "x = 0xDB" "b = y # b'" | (cut) "x = 0xDB" "b = []"
    | (plain) "x \<noteq> 0xDB" "x \<noteq> 0xC0" | (stop) "x \<noteq> 0xDB" "x = 0xC0"
    by (cases b) auto
  then show ?case
  proof cases
    case escape
    have "slip_loop ((pre @ [x, y]) @ r) start start [] = slip_loop r (p + 2) start (escapes @ [p])" for r
      using "2.prems"(1)[of "x # y # r"] escape by simp
    from "2.IH"(1)[OF escape this] show ?thesis using "2.prems"(2,3) escape by simp
  next
    case cut
    then have "s = start" "marks = []" using "2.prems"(3) by simp_all
    then show ?thesis using "2.prems"(1)[of "x # c"] "2.prems"(2) cut by simp
  next
    case plain
    have "slip_loop ((pre @ [x]) @ r) start start [] = slip_loop r (p + 1) start escapes" for r
      using "2.prems"(1)[of "x # r"] plain by simp
    from "2.IH"(2)[OF plain this] show ?thesis using "2.prems"(2,3) plain by simp
  next
    case stop
    obtain t more where r: "slip_loop b (p + 1) (p + 1) [] = (t, more)" by fastforce
    have "p + 1 \<le> t \<and> t \<le> p + 1 + length b \<and> slip_loop (b @ c) (p + 1) (p + 1) []
      = (fst (slip_loop (drop (t - (p + 1)) ([] @ b) @ c) t t []),
         more @ snd (slip_loop (drop (t - (p + 1)) ([] @ b) @ c) t t []))"
      using "2.IH"(3)[of "[]" t more] stop r by simp
    moreover have "t = s" using "2.prems"(3) stop r by simp
    moreover from calculation have "length pre \<le> s - start" "s - start - length pre = Suc (s - (p + 1))"
      using "2.prems"(2) by auto
    then have "drop (s - start) (pre @ x # b) = drop (s - (p + 1)) b" by simp
    ultimately show ?thesis using "2.prems"(2,3) stop r by (auto split: prod.splits)
  qed
qed

interpretation slip: stream_decoder slip
proof unfold_locales
  fix b c :: "byte list" and p n marks
  obtain s more where l: "slip_loop b p p [] = (s, more)" by fastforce
  note r = slip_loop_resumes[of "[]" p p "[]" b s more, simplified, OF l]
  have "p \<le> s \<and> s \<le> p + length b" using r by blast
  then show "fst (slip b p) \<le> length b" by (auto simp: slip_def l)
  assume "slip b p = (n, marks)"
  then have n: "n = s - p" "marks = more" by (simp_all add: slip_def l)
  have s: "s = p + n" using r n by auto
  have "slip_loop (b @ c) p p [] = (fst (slip_loop (drop n b @ c) s s []), marks @ snd (slip_loop (drop n b @ c) s s []))"
    using r n by blast
  moreover have "s \<le> fst (slip_loop (drop n b @ c) s s [])"
    using slip_loop_resumes[of "[]" s s "[]" "drop n b @ c"] by (cases "slip_loop (drop n b @ c) s s []") simp
  ultimately show "slip (b @ c) p = (n + fst (slip (drop n b @ c) (p + n)),
      marks @ snd (slip (drop n b @ c) (p + n)))"
    by (auto simp: slip_def s split: prod.splits)
qed

section \<open>From the first byte on\<close>

definition fresh_console :: console where
  "fresh_console = \<lparr>carry = [], carryOffset = 0, shown = []\<rparr>"

context stream_decoder
begin

lemma idle: "decode [] p = (0, [])"
proof (cases "decode [] p")
  case (Pair n marks)
  then show ?thesis using consumes[of "[]" p] resumes[OF Pair, of "[]"] by simp
qed

text \<open>It is enough that after each chunk what the decoder leaves of the stream so far fits into the buffer.\<close>

lemma feed_waiting:
  assumes "\<And>k. length (concat (take k chunks)) - fst (decode (concat (take k chunks)) 0) \<le> kMaxCarry"
  shows "shown (fold (feed decode) chunks fresh_console) = snd (decode (concat chunks) 0)"
  using feed_all[of fresh_console chunks] assms
  by (simp add: fresh_console_def idle Let_def split: prod.splits)

end

text \<open>A decoder that never leaves more than the host carries over needs no assumption on the data.\<close>

locale bounded_decoder = stream_decoder +
  assumes leaves_little: "length b - fst (decode b p) \<le> kMaxCarry"
begin

lemma feed_anything:
  "shown (fold (feed decode) chunks fresh_console) = snd (decode (concat chunks) 0)"
proof -
  have "fold (feed decode) chunks fresh_console
    = (let b = carry fresh_console @ concat chunks; (n, marks) = decode b (carryOffset fresh_console) in
       \<lparr>carry = drop n b, carryOffset = carryOffset fresh_console + n,
        shown = shown fresh_console @ marks\<rparr>)"
    by (rule feed_all) (rule leaves_little, simp_all add: fresh_console_def idle)
  then show ?thesis by (simp add: fresh_console_def Let_def split: prod.splits)
qed

end

context packet_decoder
begin

text \<open>The remainder of a packet decoder is what \<open>step\<close> cannot take.\<close>

lemma remainder:
  assumes "\<And>b p. step b p = None \<Longrightarrow> length b \<le> k"
  shows "length b - fst (decode b p) \<le> k"
proof (induction b arbitrary: p rule: length_induct)
  case (1 b)
  show ?case
  proof (cases "step b p")
    case None
    then show ?thesis using assms[OF None] by (simp add: unfolds[of b])
  next
    case (Some r)
    obtain n marks where r: "r = (n, marks)" by fastforce
    have n: "0 < n" "n \<le> length b" using takes[of b p] Some r by auto
    then have "length (drop n b) < length b" by simp
    then have "length (drop n b) - fst (decode (drop n b) (p + n)) \<le> k" using 1 by blast
    then show ?thesis by (subst unfolds) (simp add: Some r)
  qed
qed

end

interpretation short_records: bounded_decoder fixed_records
  by unfold_locales
    (rule order_trans[OF records.remainder[of 16]],
     auto simp: record_step_def RECORD_SIZE_def kMaxCarry_def split: if_splits)

interpretation short_rtu: bounded_decoder modbus_rtu
proof unfold_locales
  have "length b \<le> 260" if "modbus_step b p = None" for b p
    using that modbus_total_range(2)[of b] by (auto simp: modbus_step_def split: if_splits)
  from rtu.remainder[of 260, OF this]
  show "length b - fst (modbus_rtu b p) \<le> kMaxCarry" for b p
    by (rule order_trans) (simp_all add: kMaxCarry_def)
qed

interpretation short_mavlink: bounded_decoder mavlink_v2
proof unfold_locales
  have "length b \<le> 280" if "mavlink_step b p = None" for b p
    using that mavlink_total_range(2)[of b]
    by (cases b) (auto simp: mavlink_step_def split: if_splits)
  from mavlink.remainder[of 280, OF this]
  show "length b - fst (mavlink_v2 b p) \<le> kMaxCarry" for b p
    by (rule order_trans) (simp_all add: kMaxCarry_def)
qed

section \<open>What waits for a delimiter\<close>

text \<open>The bytes since the last delimiter, and those since the last one that is not the second byte of an escape.\<close>

definition waiting :: "byte \<Rightarrow> byte list \<Rightarrow> nat" where
  "waiting x s = length (takeWhile (\<lambda>y. y \<noteq> x) (rev s))"

fun slip_waiting :: "byte list \<Rightarrow> nat \<Rightarrow> nat" where
  "slip_waiting [] n = n"
| "slip_waiting (x # s) n =
     (if x = 0xDB then (case s of [] \<Rightarrow> Suc n | y # s' \<Rightarrow> slip_waiting s' (Suc (Suc n)))
      else slip_waiting s (if x = 0xC0 then 0 else Suc n))"

lemma waiting_drop: "waiting x (drop n s) \<le> waiting x s"
proof -
  have "rev s = rev (drop n s) @ rev (take n s)" by (metis append_take_drop_id rev_append)
  then show ?thesis
    using length_takeWhile_le[of "\<lambda>y. y \<noteq> x" "rev (drop n s)"] by (simp add: waiting_def takeWhile_append)
qed

lemma waiting_all:
  assumes "x \<notin> set s"
  shows "waiting x s = length s"
proof -
  have "takeWhile (\<lambda>y. y \<noteq> x) (rev s) = rev s" using assms by (auto simp: takeWhile_eq_all_conv)
  then show ?thesis unfolding waiting_def by (simp only: length_rev)
qed

lemma until_absent: "length s \<le> until x s \<Longrightarrow> x \<notin> set s"
  by (induction s) (auto simp: until_Cons split: if_splits)

context packet_decoder
begin

lemma leaves_waiting:
  assumes "\<And>b p. step b p = None \<Longrightarrow> length b \<le> waiting x b"
  shows "length b - fst (decode b p) \<le> waiting x b"
proof (induction b arbitrary: p rule: length_induct)
  case (1 b)
  show ?case
  proof (cases "step b p")
    case None
    then show ?thesis using assms[OF None] by (simp add: unfolds[of b])
  next
    case (Some r)
    obtain n marks where r: "r = (n, marks)" by fastforce
    have n: "0 < n" "n \<le> length b" using takes[of b p] Some r by auto
    then have "length (drop n b) < length b" by simp
    then have "length (drop n b) - fst (decode (drop n b) (p + n)) \<le> waiting x (drop n b)" using 1 by blast
    then have "length (drop n b) - fst (decode (drop n b) (p + n)) \<le> waiting x b" using waiting_drop order_trans by blast
    then show ?thesis by (subst unfolds) (simp add: Some r)
  qed
qed

end

lemma lines_leave: "length b - fst (line_framing b p) \<le> waiting 0x0A b"
  by (rule lines.leaves_waiting)
    (auto simp: line_step_def Let_def waiting_all until_absent split: if_splits)

lemma cobs_leaves: "length b - fst (cobs b p) \<le> waiting 0x00 b"
  by (rule cobs.leaves_waiting)
    (auto simp: cobs_step_def Let_def waiting_all until_absent split: if_splits)

lemma nmea_leaves: "length b - fst (nmea_0183 b p) \<le> waiting 0x0A b"
proof (rule nmea.leaves_waiting)
  fix b p assume n: "nmea_step b p = None"
  show "length b \<le> waiting 0x0A b"
  proof (cases b)
    case (Cons x c)
    then have "x = 0x24" "length c \<le> until 0x0A c" using n by (auto simp: nmea_step_def Let_def split: if_splits)
    then have "0x0A \<notin> set b" using until_absent[of c "0x0A"] Cons by simp
    then show ?thesis by (simp add: waiting_all)
  qed simp
qed

lemma slip_loop_leaves:
  "start \<le> p \<Longrightarrow> p + length b - fst (slip_loop b p start es) = slip_waiting b (p - start)"
proof (induction b p start es rule: slip_loop.induct)
  case (2 x b p start es)
  then show ?case by (cases b) (auto simp: Suc_diff_le split: prod.splits)
qed simp

lemma slip_leaves: "length b - fst (slip b 0) = slip_waiting b 0"
  using slip_loop_leaves[of 0 0 b "[]"] by (simp add: slip_def split: prod.splits)

section \<open>Properties\<close>

text \<open>C33: The marks that the decoders of fixed records, Modbus RTU and MAVLink 2 put on a stream do
not depend on how the stream arrives in chunks: they are those of one call on the whole stream.\<close>

theorem packet_marks_independent_of_chunks:
  "shown (fold (feed fixed_records) chunks fresh_console) = snd (fixed_records (concat chunks) 0)
   \<and> shown (fold (feed modbus_rtu) chunks fresh_console) = snd (modbus_rtu (concat chunks) 0)
   \<and> shown (fold (feed mavlink_v2) chunks fresh_console) = snd (mavlink_v2 (concat chunks) 0)"
  by (intro conjI short_records.feed_anything short_rtu.feed_anything short_mavlink.feed_anything)

text \<open>C34: The same holds for the decoders of lines, NMEA sentences, SLIP and COBS packets, on streams of any
length, as long as at the end of every chunk what waits for its delimiter fits into the host's carry buffer of
4096 bytes: the bytes since the last line feed, since the last zero, and since the last \<^verbatim>\<open>END\<close> that is not the
second byte of an escape.\<close>

theorem text_marks_independent_of_chunks:
  shows "((\<forall>k. waiting 0x0A (concat (take k chunks)) \<le> kMaxCarry) \<longrightarrow>
        shown (fold (feed line_framing) chunks fresh_console) = snd (line_framing (concat chunks) 0)
      \<and> shown (fold (feed nmea_0183) chunks fresh_console) = snd (nmea_0183 (concat chunks) 0))
    \<and> ((\<forall>k. slip_waiting (concat (take k chunks)) 0 \<le> kMaxCarry) \<longrightarrow>
        shown (fold (feed slip) chunks fresh_console) = snd (slip (concat chunks) 0))
    \<and> ((\<forall>k. waiting 0x00 (concat (take k chunks)) \<le> kMaxCarry) \<longrightarrow>
        shown (fold (feed cobs) chunks fresh_console) = snd (cobs (concat chunks) 0))"
  using order_trans[OF lines_leave] order_trans[OF nmea_leaves] order_trans[OF cobs_leaves]
  by (intro conjI impI lines.feed_waiting nmea.feed_waiting slip.feed_waiting cobs.feed_waiting) (auto simp: slip_leaves)

theorem text_marks_independent_of_chunks_witness:
  "shown (fold (feed slip) [[1, 0xDB], [0xDC, 0xC0]] fresh_console)
   = snd (slip (concat [[1, 0xDB], [0xDC, 0xC0]]) 0)"
proof -
  have "slip_waiting (concat (take k [[1, 0xDB], [0xDC, 0xC0]])) 0 \<le> kMaxCarry" for k
    by (simp add: take_Cons' kMaxCarry_def)
  then show ?thesis using text_marks_independent_of_chunks[of "[[1, 0xDB], [0xDC, 0xC0]]"] by blast
qed

end
