(* ===== verification/Sdk_Model.thy ===== *)
theory Sdk_Model
  imports Base64 "HOL-Library.Char_ord" "HOL-Library.List_Lexorder"
begin

text \<open>
  The generated part of the script SDK (\<^verbatim>\<open>app/rcc/api/SerialStudio.js\<close>): how its statements run.

  The file declares name spaces (\<^verbatim>\<open>io.ble = io.ble || {}\<close>) and assigns one function to each
  command of the application.  Every such function has the same form: an empty parameter object,
  assignments of the arguments to its properties, for some the properties of an options object
  copied on top, and the call of the gateway \<^verbatim>\<open>apiCall\<close> with the command's name.  \<open>wrapper\<close> is
  that function, statement by statement; \<open>request\<close> is what a call of it passes to the gateway.
  The file itself, as data, is \<^verbatim>\<open>Sdk_Commands\<close>.
\<close>

section \<open>Wrappers\<close>

text \<open>The value assigned: an argument, or an argument encoded as another one says.\<close>

datatype sdk_expr = Param string | Encoded string string

datatype sdk_stmt = Put string sdk_expr | Merge string

datatype wrapper =
  Wrapper (path: "string list") (formals: "string list") (body: "sdk_stmt list") (command: string)

type_synonym params = "(string \<times> jsval) list"

text \<open>The arguments by name; a missing one is undefined, surplus ones are dropped.\<close>

definition argument :: "string list \<Rightarrow> jsval list \<Rightarrow> string \<Rightarrow> jsval" where
  "argument fs args x = (case map_of (zip fs args) x of Some v \<Rightarrow> v | None \<Rightarrow> Undefined)"

text \<open>The properties a \<^verbatim>\<open>for (k in v)\<close> visits: those of an object, the indices of an array or a
string.\<close>

definition enumerable :: "jsval \<Rightarrow> params" where
  "enumerable v = (case v of Obj kvs \<Rightarrow> kvs
     | Arr xs \<Rightarrow> zip (map nat_digits [0..<length xs]) xs
     | Str s \<Rightarrow> zip (map nat_digits [0..<length s]) (map (\<lambda>c. Str [c]) s)
     | _ \<Rightarrow> [])"

definition copy_props :: "params \<Rightarrow> params \<Rightarrow> params" where
  "copy_props kvs p = fold (\<lambda>(k, v). assoc_put k v) kvs p"

fun exec :: "(jsval \<Rightarrow> string) \<Rightarrow> (string \<Rightarrow> jsval) \<Rightarrow> sdk_stmt \<Rightarrow> params \<Rightarrow> params" where
  "exec numstr env (Put k (Param x)) p = assoc_put k (env x) p"
| "exec numstr env (Put k (Encoded x e)) p = assoc_put k (encode numstr (env x) (env e)) p"
| "exec numstr env (Merge x) p =
     (if truthy (env x) then copy_props (enumerable (env x)) p else p)"

definition parameters :: "(jsval \<Rightarrow> string) \<Rightarrow> wrapper \<Rightarrow> jsval list \<Rightarrow> params" where
  "parameters numstr w args = fold (exec numstr (argument (formals w) args)) (body w) []"

text \<open>\<^verbatim>\<open>apiCall(method, params)\<close>: the gateway receives the method and the object.\<close>

definition request :: "(jsval \<Rightarrow> string) \<Rightarrow> wrapper \<Rightarrow> jsval list \<Rightarrow> string \<times> jsval" where
  "request numstr w args = (command w, Obj (parameters numstr w args))"

section \<open>Loading the file\<close>

text \<open>The top-level statements.  Declaring or assigning a member of an object that does not exist
throws, and the rest of the file is then not run.\<close>

datatype toplevel = Declare "string list" | Assign wrapper

record sdk_world =
  spaces :: "string list list"
  callables :: "(string list \<times> wrapper) list"

definition exists_parent :: "string list \<Rightarrow> sdk_world \<Rightarrow> bool" where
  "exists_parent q w \<longleftrightarrow> butlast q = [] \<or> butlast q \<in> set (spaces w)"

fun run_toplevel :: "toplevel \<Rightarrow> sdk_world \<Rightarrow> string list + sdk_world" where
  "run_toplevel (Declare q) w = (if exists_parent q w
     then Inr (w\<lparr>spaces := List.insert q (spaces w)\<rparr>) else Inl q)"
| "run_toplevel (Assign f) w = (if exists_parent (path f) w
     then Inr (w\<lparr>callables := (path f, f) # callables w\<rparr>) else Inl (path f))"

fun load :: "toplevel list \<Rightarrow> sdk_world \<Rightarrow> string list + sdk_world" where
  "load [] w = Inr w"
| "load (t # ts) w = (case run_toplevel t w of Inl e \<Rightarrow> Inl e | Inr w' \<Rightarrow> load ts w')"

definition dotted :: "string list \<Rightarrow> string" where
  "dotted q = concat (hd q # map (\<lambda>s. CHR ''.'' # s) (tl q))"

section \<open>What a wrapper is for\<close>

text \<open>The parameters it fills from arguments, and whether it is of the form described above: the
body a signature asks for (\<open>signature_body\<close>) puts each formal under its own name, in order, merges the
options, and encodes \<^verbatim>\<open>data\<close> where the signature has a \<^verbatim>\<open>dataEncoding\<close>; the options come last.  In
three functions \<^verbatim>\<open>options\<close> is a bit mask, a parameter like the others (\<open>options_sent\<close>).\<close>

definition put_key :: "sdk_stmt \<Rightarrow> string option" where
  "put_key s = (case s of Put k _ \<Rightarrow> Some k | Merge _ \<Rightarrow> None)"

definition options_sent :: "string list \<Rightarrow> bool" where
  "options_sent q \<longleftrightarrow> q \<in> set [[''project'', ''dataset'', ''add''],
     [''project'', ''dataset'', ''addMany''], [''project'', ''dataset'', ''setOptions'']]"

definition put_statement :: "string list \<Rightarrow> string list \<Rightarrow> string \<Rightarrow> sdk_stmt" where
  "put_statement q fs x = (if x = ''options'' \<and> \<not> options_sent q then Merge x
     else if x = ''data'' \<and> ''dataEncoding'' \<in> set fs then Put x (Encoded x ''dataEncoding'')
     else Put x (Param x))"

definition signature_body :: "string list \<Rightarrow> string list \<Rightarrow> sdk_stmt list" where
  "signature_body q fs = map (put_statement q fs) (filter (\<lambda>x. x \<noteq> ''dataEncoding'') fs)"

definition well_formed :: "wrapper \<Rightarrow> bool" where
  "well_formed w \<longleftrightarrow> command w = dotted (path w) \<and> path w \<noteq> [] \<and> distinct (formals w)
     \<and> list_all (\<lambda>s. case s of Put k (Param x) \<Rightarrow> x = k \<and> k \<in> set (formals w)
          | Put k (Encoded x e) \<Rightarrow> x = k \<and> k \<in> set (formals w) \<and> e \<in> set (formals w)
          | Merge x \<Rightarrow> x = ''options'' \<and> x \<in> set (formals w)) (body w)
     \<and> distinct (map put_key (body w))
     \<and> list_all (\<lambda>s. put_key s \<noteq> None) (butlast (body w))
     \<and> body w = signature_body (path w) (formals w)"

lemma copy_props_lookup:
  "map_of (copy_props kvs p) k
   = (case map_of (rev kvs) k of Some v \<Rightarrow> Some v | None \<Rightarrow> map_of p k)"
  by (induction kvs arbitrary: p) (auto simp: copy_props_def map_add_def split: option.splits)

section \<open>The parameters of a call\<close>

text \<open>The properties an options object contributes.\<close>

definition option_props :: "wrapper \<Rightarrow> jsval list \<Rightarrow> params" where
  "option_props w args = (let v = argument (formals w) args ''options'' in
     if Merge ''options'' \<in> set (body w) \<and> truthy v then enumerable v else [])"

fun put_value :: "(jsval \<Rightarrow> string) \<Rightarrow> (string \<Rightarrow> jsval) \<Rightarrow> sdk_expr \<Rightarrow> jsval" where
  "put_value numstr env (Param x) = env x"
| "put_value numstr env (Encoded x e) = encode numstr (env x) (env e)"

lemma exec_put: "exec numstr env (Put k e) p = assoc_put k (put_value numstr env e) p"
  by (cases e) simp_all

lemma fold_puts_lookup:
  assumes "list_all (\<lambda>s. put_key s \<noteq> None) ss" and "distinct (map put_key ss)"
    and "Put k e \<in> set ss"
  shows "map_of (fold (exec numstr env) ss p) k = Some (put_value numstr env e)"
  using assms
proof (induction ss rule: rev_induct)
  case (snoc s ss)
  obtain k' e' where s: "s = Put k' e'" using snoc.prems(1) by (cases s) (auto simp: put_key_def)
  show ?case
  proof (cases "Put k e = s")
    case False
    then have "Put k e \<in> set ss" using snoc.prems(3) by auto
    moreover from this have "k' \<noteq> k" using snoc.prems(2) by (auto simp: s put_key_def image_iff)
    ultimately show ?thesis using snoc s by (simp add: exec_put)
  qed (use s in \<open>simp add: exec_put\<close>)
qed simp

lemma fold_puts_keys:
  assumes "list_all (\<lambda>s. put_key s \<noteq> None) ss"
  shows "fst ` set (fold (exec numstr env) ss p)
       = fst ` set p \<union> {k. \<exists>e. Put k e \<in> set ss}"
  using assms
proof (induction ss rule: rev_induct)
  case (snoc s ss)
  then show ?case by (cases s) (auto simp: put_key_def exec_put)
qed simp

lemma well_formed_body:
  assumes "well_formed w"
  obtains puts where "list_all (\<lambda>s. put_key s \<noteq> None) puts" and "distinct (map put_key puts)"
    and "body w = puts \<or> body w = puts @ [Merge ''options'']"
proof (cases "body w" rule: rev_cases)
  case (snoc ss s)
  show ?thesis
  proof (cases s)
    case (Put k e)
    then show ?thesis
      using that[of "body w"] assms snoc by (auto simp: well_formed_def put_key_def)
  next
    case (Merge x)
    then have "x = ''options''" using assms snoc by (simp add: well_formed_def)
    then show ?thesis using that[of ss] assms snoc Merge by (simp add: well_formed_def)
  qed
qed (use that in auto)

lemma parameters_split:
  assumes "list_all (\<lambda>s. put_key s \<noteq> None) puts"
    and "body w = puts \<or> body w = puts @ [Merge ''options'']"
  shows "parameters numstr w args
    = copy_props (option_props w args) (fold (exec numstr (argument (formals w) args)) puts [])"
proof -
  have "Merge ''options'' \<notin> set puts" using assms(1) by (auto simp: list_all_iff put_key_def)
  then show ?thesis
    using assms(2) by (auto simp: parameters_def option_props_def copy_props_def Let_def)
qed

lemma parameters_lookup:
  assumes "well_formed w" and "Put k e \<in> set (body w)"
  shows "map_of (parameters numstr w args) k = Some
    (case map_of (rev (option_props w args)) k of Some v \<Rightarrow> v
     | None \<Rightarrow> put_value numstr (argument (formals w) args) e)"
proof -
  obtain puts where p: "list_all (\<lambda>s. put_key s \<noteq> None) puts" "distinct (map put_key puts)"
    "body w = puts \<or> body w = puts @ [Merge ''options'']"
    using well_formed_body[OF assms(1)] by blast
  then have "Put k e \<in> set puts" using assms(2) by auto
  then show ?thesis
    using fold_puts_lookup[OF p(1,2)] parameters_split[OF p(1,3)]
    by (simp add: copy_props_lookup split: option.splits)
qed

lemma parameters_keys:
  assumes "well_formed w"
  shows "fst ` set (parameters numstr w args)
    = {k. \<exists>e. Put k e \<in> set (body w)} \<union> fst ` set (option_props w args)"
proof -
  obtain puts where p: "list_all (\<lambda>s. put_key s \<noteq> None) puts" "distinct (map put_key puts)"
    "body w = puts \<or> body w = puts @ [Merge ''options'']"
    using well_formed_body[OF assms] by blast
  have "fst ` set (copy_props kvs q) = fst ` set q \<union> fst ` set kvs" for kvs :: params and q
    by (induction kvs arbitrary: q) (simp_all add: copy_props_def split_beta)
  then show ?thesis
    using p parameters_split[OF p(1,3)] fold_puts_keys[OF p(1)] by auto
qed

text \<open>In terms of the signature: the options a caller gives, the value of a formal, the names sent.\<close>

definition given_options :: "wrapper \<Rightarrow> jsval list \<Rightarrow> params" where
  "given_options w args = (let v = argument (formals w) args ''options'' in
     if truthy v \<and> \<not> options_sent (path w) then enumerable v else [])"

definition formal_value :: "(jsval \<Rightarrow> string) \<Rightarrow> string list \<Rightarrow> jsval list \<Rightarrow> string \<Rightarrow> jsval" where
  "formal_value numstr fs args x = (if x = ''data'' \<and> ''dataEncoding'' \<in> set fs
     then encode numstr (argument fs args ''data'') (argument fs args ''dataEncoding'')
     else argument fs args x)"

definition sent_formals :: "wrapper \<Rightarrow> string set" where
  "sent_formals w = {x \<in> set (formals w). x \<noteq> ''dataEncoding'' \<and> (x = ''options'' \<longrightarrow> options_sent (path w))}"

lemma argument_absent:
  assumes "x \<notin> set fs"
  shows "argument fs args x = Undefined"
proof -
  have "map_of (zip fs args) x = None" using assms by (auto simp: map_of_eq_None_iff dest: set_zip_leftD)
  then show ?thesis by (simp add: argument_def)
qed

lemma well_formed_merge:
  assumes "well_formed w"
  shows "Merge ''options'' \<in> set (body w)
    \<longleftrightarrow> ''options'' \<in> set (formals w) \<and> \<not> options_sent (path w)"
proof -
  have b: "body w = signature_body (path w) (formals w)" using assms by (simp add: well_formed_def)
  show ?thesis unfolding b signature_body_def put_statement_def by (auto simp: image_iff)
qed

lemma option_props_given: "well_formed w \<Longrightarrow> option_props w args = given_options w args"
  using argument_absent[of "''options''" "formals w" args]
  by (auto simp: option_props_def given_options_def well_formed_merge Let_def truthy_def)

lemma well_formed_put:
  assumes "well_formed w"
  shows "Put k e \<in> set (body w) \<longleftrightarrow> k \<in> sent_formals w
    \<and> e = (if k = ''data'' \<and> ''dataEncoding'' \<in> set (formals w)
         then Encoded k ''dataEncoding'' else Param k)"
proof -
  have b: "body w = signature_body (path w) (formals w)" using assms by (simp add: well_formed_def)
  show ?thesis
    unfolding b signature_body_def put_statement_def sent_formals_def
    by (auto simp: image_iff split: if_splits)
qed

lemma parameters_of_signature:
  assumes "well_formed w"
  shows "fst ` set (parameters numstr w args) = sent_formals w \<union> fst ` set (given_options w args)"
    and "x \<in> sent_formals w \<Longrightarrow> map_of (parameters numstr w args) x
      = Some (case map_of (rev (given_options w args)) x of Some v \<Rightarrow> v
          | None \<Rightarrow> formal_value numstr (formals w) args x)"
  using parameters_keys[OF assms] parameters_lookup[OF assms]
  by (auto simp: option_props_given[OF assms] well_formed_put[OF assms] formal_value_def
      split: option.splits)

lemma parameters_options:
  assumes "well_formed w" and "map_of (rev (given_options w args)) k = Some v"
  shows "map_of (parameters numstr w args) k = Some v"
proof -
  obtain puts where p: "list_all (\<lambda>s. put_key s \<noteq> None) puts"
    "body w = puts \<or> body w = puts @ [Merge ''options'']"
    using well_formed_body[OF assms(1)] by blast
  show ?thesis
    using parameters_split[OF p] assms(2) by (simp add: copy_props_lookup option_props_given[OF assms(1)])
qed

section \<open>Names in order\<close>

text \<open>The file lists the commands in the order of their names, so no two have one name.\<close>

fun ascending :: "'a :: linorder list \<Rightarrow> bool" where
  "ascending (x # y # zs) \<longleftrightarrow> x < y \<and> ascending (y # zs)"
| "ascending _ \<longleftrightarrow> True"

lemma ascending_sorted_wrt: "ascending xs \<Longrightarrow> sorted_wrt (<) xs"
proof (induction xs rule: ascending.induct)
  case (1 x y zs)
  then show ?case by (auto intro: less_trans)
qed auto

lemma ascending_distinct: "ascending xs \<Longrightarrow> distinct xs"
  by (drule ascending_sorted_wrt) (simp add: strict_sorted_iff)

section \<open>A file that loads\<close>

fun in_order :: "string list list \<Rightarrow> string list list \<Rightarrow> bool" where
  "in_order seen [] \<longleftrightarrow> True"
| "in_order seen (q # qs) \<longleftrightarrow> (butlast q = [] \<or> butlast q \<in> set seen) \<and> in_order (q # seen) qs"

lemma in_order_mono: "\<lbrakk>in_order seen qs; set seen \<subseteq> set seen'\<rbrakk> \<Longrightarrow> in_order seen' qs"
proof (induction qs arbitrary: seen seen')
  case (Cons q qs)
  then show ?case using Cons.IH[of "q # seen" "q # seen'"] by auto
qed simp

lemma load_append:
  "load (ts @ us) w = (case load ts w of Inl e \<Rightarrow> Inl e | Inr w' \<Rightarrow> load us w')"
  by (induction ts arbitrary: w) (auto split: sum.splits)

lemma load_declares:
  "in_order (spaces w) qs
   \<Longrightarrow> load (map Declare qs) w = Inr (w\<lparr>spaces := fold List.insert qs (spaces w)\<rparr>)"
proof (induction qs arbitrary: w)
  case (Cons q qs)
  let ?w = "w\<lparr>spaces := List.insert q (spaces w)\<rparr>"
  have "in_order (spaces ?w) qs"
    using Cons.prems by (auto intro: in_order_mono)
  then show ?case using Cons.prems Cons.IH[of ?w] by (auto simp: exists_parent_def)
qed simp

lemma load_assigns:
  "list_all (\<lambda>f. butlast (path f) \<in> set (spaces w)) fs
   \<Longrightarrow> load (map Assign fs) w
     = Inr (w\<lparr>callables := rev (map (\<lambda>f. (path f, f)) fs) @ callables w\<rparr>)"
proof (induction fs arbitrary: w)
  case (Cons f fs)
  let ?w = "w\<lparr>callables := (path f, f) # callables w\<rparr>"
  show ?case using Cons.prems Cons.IH[of ?w] by (simp add: exists_parent_def)
qed simp

lemma set_fold_insert [simp]: "set (fold List.insert qs ss) = set ss \<union> set qs"
  by (induction qs arbitrary: ss) auto

text \<open>After the file every function is reachable under its name.\<close>

lemma load_file:
  assumes "in_order [] qs" and "list_all (\<lambda>f. butlast (path f) \<in> set qs) fs"
    and "distinct (map path fs)" and "f \<in> set fs"
  shows "\<exists>w'. load (map Declare qs @ map Assign fs) w = Inr w' \<and> map_of (callables w') (path f) = Some f"
proof -
  have "in_order (spaces w) qs" using assms(1) by (rule in_order_mono) simp
  moreover have "list_all (\<lambda>f. butlast (path f) \<in> set (fold List.insert qs (spaces w))) fs"
    using assms(2) by (auto simp: list_all_iff)
  moreover have "map_of (rev (map (\<lambda>f. (path f, f)) fs) @ xs) (path f) = Some f" for xs
  proof -
    have "distinct (map fst (rev (map (\<lambda>f. (path f, f)) fs)))"
      using assms(3) by (simp add: rev_map[symmetric] comp_def)
    then have "map_of (rev (map (\<lambda>f. (path f, f)) fs)) (path f) = Some f"
      using assms(4) by (intro map_of_is_SomeI) auto
    then show ?thesis by (simp add: map_add_def)
  qed
  ultimately show ?thesis by (simp add: load_append load_declares load_assigns)
qed

lemma distinct_dotted:
  "\<lbrakk>list_all well_formed fs; distinct (map command fs)\<rbrakk> \<Longrightarrow> distinct (map path fs)"
  by (auto simp: distinct_map inj_on_def list_all_iff well_formed_def)

end
