(* ===== verification/Sdk_Commands.thy ===== *)
theory Sdk_Commands
  imports Sdk_Model
begin

text \<open>
  The generated part of \<^verbatim>\<open>app/rcc/api/SerialStudio.js\<close> as data, in file order: the name spaces
  it declares and its 464 command functions, a list for each stretch of the file.
\<close>

section \<open>Name spaces\<close>

definition sdk_spaces :: "string list list" where
  "sdk_spaces = [
     [''alarms''],
     [''api''],
     [''assistant''],
     [''assistant'', ''dataset''],
     [''assistant'', ''memory''],
     [''assistant'', ''project''],
     [''assistant'', ''script''],
     [''assistant'', ''workspace''],
     [''console''],
     [''consoleExport''],
     [''controlScript''],
     [''csvExport''],
     [''csvPlayer''],
     [''dashboard''],
     [''diagnostics''],
     [''extensions''],
     [''influx''],
     [''io''],
     [''io'', ''audio''],
     [''io'', ''ble''],
     [''io'', ''canbus''],
     [''io'', ''eip''],
     [''io'', ''hid''],
     [''io'', ''iec104''],
     [''io'', ''modbus''],
     [''io'', ''network''],
     [''io'', ''opcua''],
     [''io'', ''process''],
     [''io'', ''s7''],
     [''io'', ''uart''],
     [''io'', ''usb''],
     [''licensing''],
     [''mdf4Export''],
     [''mdf4Player''],
     [''mirror''],
     [''notifications''],
     [''problems''],
     [''project''],
     [''project'', ''action''],
     [''project'', ''dashboard''],
     [''project'', ''dataTable''],
     [''project'', ''dataset''],
     [''project'', ''dataset'', ''transform''],
     [''project'', ''declaration''],
     [''project'', ''dryRun''],
     [''project'', ''frameParser''],
     [''project'', ''group''],
     [''project'', ''mqtt''],
     [''project'', ''mqtt'', ''publisher''],
     [''project'', ''mqtt'', ''subscriber''],
     [''project'', ''outputWidget''],
     [''project'', ''painter''],
     [''project'', ''source''],
     [''project'', ''template''],
     [''project'', ''transformLibrary''],
     [''project'', ''workspace''],
     [''project'', ''workspace'', ''profile''],
     [''scripts''],
     [''sessions''],
     [''stream''],
     [''system''],
     [''ui''],
     [''ui'', ''automation''],
     [''ui'', ''window'']]"

section \<open>Commands\<close>

text \<open>\<^verbatim>\<open>alarms.acknowledge\<close> to \<^verbatim>\<open>console.send\<close>.\<close>

definition sdk_commands_1 :: "wrapper list" where
  "sdk_commands_1 = [
     Wrapper [''alarms'', ''acknowledge''] []
       []
       ''alarms.acknowledge'',
     Wrapper [''alarms'', ''clear''] []
       []
       ''alarms.clear'',
     Wrapper [''alarms'', ''getProjectSounds''] []
       []
       ''alarms.getProjectSounds'',
     Wrapper [''alarms'', ''reset''] []
       []
       ''alarms.reset'',
     Wrapper [''alarms'', ''setMuted''] [''muted'']
       [Put ''muted'' (Param ''muted'')]
       ''alarms.setMuted'',
     Wrapper [''alarms'', ''setProjectSounds''] [''sounds'']
       [Put ''sounds'' (Param ''sounds'')]
       ''alarms.setProjectSounds'',
     Wrapper [''alarms'', ''silence''] []
       []
       ''alarms.silence'',
     Wrapper [''alarms'', ''state''] []
       []
       ''alarms.state'',
     Wrapper [''alarms'', ''test''] []
       []
       ''alarms.test'',
     Wrapper [''api'', ''getCommands''] []
       []
       ''api.getCommands'',
     Wrapper [''assistant'', ''checkpoint''] [''options'']
       [Merge ''options'']
       ''assistant.checkpoint'',
     Wrapper [''assistant'', ''dataset'', ''resolve''] [''options'']
       [Merge ''options'']
       ''assistant.dataset.resolve'',
     Wrapper [''assistant'', ''listCheckpoints''] [''options'']
       [Merge ''options'']
       ''assistant.listCheckpoints'',
     Wrapper [''assistant'', ''memory'', ''propose''] [''category'', ''text'']
       [Put ''category'' (Param ''category''),
        Put ''text'' (Param ''text'')]
       ''assistant.memory.propose'',
     Wrapper [''assistant'', ''project'', ''bulkApply''] [''ops'', ''options'']
       [Put ''ops'' (Param ''ops''),
        Merge ''options'']
       ''assistant.project.bulkApply'',
     Wrapper [''assistant'', ''restore''] [''options'']
       [Merge ''options'']
       ''assistant.restore'',
     Wrapper [''assistant'', ''script'', ''apply''] [''kind'', ''code'', ''options'']
       [Put ''kind'' (Param ''kind''),
        Put ''code'' (Param ''code''),
        Merge ''options'']
       ''assistant.script.apply'',
     Wrapper [''assistant'', ''script'', ''dryRun''] [''kind'', ''options'']
       [Put ''kind'' (Param ''kind''),
        Merge ''options'']
       ''assistant.script.dryRun'',
     Wrapper [''assistant'', ''snapshot''] [''options'']
       [Merge ''options'']
       ''assistant.snapshot'',
     Wrapper [''assistant'', ''workspace'', ''addTile''] [''widgetType'', ''options'']
       [Put ''widgetType'' (Param ''widgetType''),
        Merge ''options'']
       ''assistant.workspace.addTile'',
     Wrapper [''assistant'', ''workspace'', ''plan''] [''options'']
       [Merge ''options'']
       ''assistant.workspace.plan'',
     Wrapper [''assistant'', ''workspace'', ''resolve''] [''options'']
       [Merge ''options'']
       ''assistant.workspace.resolve'',
     Wrapper [''console'', ''clear''] []
       []
       ''console.clear'',
     Wrapper [''console'', ''getConfig''] []
       []
       ''console.getConfig'',
     Wrapper [''console'', ''send''] [''data'']
       [Put ''data'' (Param ''data'')]
       ''console.send'']"

text \<open>\<^verbatim>\<open>console.setAnsiColorsEnabled\<close> to \<^verbatim>\<open>csvExport.setInterval\<close>.\<close>

definition sdk_commands_2 :: "wrapper list" where
  "sdk_commands_2 = [
     Wrapper [''console'', ''setAnsiColorsEnabled''] [''enabled'']
       [Put ''enabled'' (Param ''enabled'')]
       ''console.setAnsiColorsEnabled'',
     Wrapper [''console'', ''setChecksumMethod''] [''methodIndex'']
       [Put ''methodIndex'' (Param ''methodIndex'')]
       ''console.setChecksumMethod'',
     Wrapper [''console'', ''setCollapseDuplicates''] [''enabled'']
       [Put ''enabled'' (Param ''enabled'')]
       ''console.setCollapseDuplicates'',
     Wrapper [''console'', ''setDataMode''] [''modeIndex'']
       [Put ''modeIndex'' (Param ''modeIndex'')]
       ''console.setDataMode'',
     Wrapper [''console'', ''setDisplayMode''] [''modeIndex'']
       [Put ''modeIndex'' (Param ''modeIndex'')]
       ''console.setDisplayMode'',
     Wrapper [''console'', ''setEcho''] [''enabled'']
       [Put ''enabled'' (Param ''enabled'')]
       ''console.setEcho'',
     Wrapper [''console'', ''setEncoding''] [''encoding'']
       [Put ''encoding'' (Param ''encoding'')]
       ''console.setEncoding'',
     Wrapper [''console'', ''setFontFamily''] [''fontFamily'']
       [Put ''fontFamily'' (Param ''fontFamily'')]
       ''console.setFontFamily'',
     Wrapper [''console'', ''setFontSize''] [''fontSize'']
       [Put ''fontSize'' (Param ''fontSize'')]
       ''console.setFontSize'',
     Wrapper [''console'', ''setLineEnding''] [''endingIndex'']
       [Put ''endingIndex'' (Param ''endingIndex'')]
       ''console.setLineEnding'',
     Wrapper [''console'', ''setSearchCaseSensitive''] [''enabled'']
       [Put ''enabled'' (Param ''enabled'')]
       ''console.setSearchCaseSensitive'',
     Wrapper [''console'', ''setShowTimestamp''] [''enabled'']
       [Put ''enabled'' (Param ''enabled'')]
       ''console.setShowTimestamp'',
     Wrapper [''console'', ''setVt100Emulation''] [''enabled'']
       [Put ''enabled'' (Param ''enabled'')]
       ''console.setVt100Emulation'',
     Wrapper [''consoleExport'', ''close''] []
       []
       ''consoleExport.close'',
     Wrapper [''consoleExport'', ''getStatus''] []
       []
       ''consoleExport.getStatus'',
     Wrapper [''consoleExport'', ''setEnabled''] [''enabled'']
       [Put ''enabled'' (Param ''enabled'')]
       ''consoleExport.setEnabled'',
     Wrapper [''controlScript'', ''dryRun''] [''code'']
       [Put ''code'' (Param ''code'')]
       ''controlScript.dryRun'',
     Wrapper [''controlScript'', ''get''] []
       []
       ''controlScript.get'',
     Wrapper [''controlScript'', ''getCode''] []
       []
       ''controlScript.getCode'',
     Wrapper [''controlScript'', ''getStatus''] []
       []
       ''controlScript.getStatus'',
     Wrapper [''controlScript'', ''set''] [''code'']
       [Put ''code'' (Param ''code'')]
       ''controlScript.set'',
     Wrapper [''controlScript'', ''setCode''] [''code'']
       [Put ''code'' (Param ''code'')]
       ''controlScript.setCode'',
     Wrapper [''csvExport'', ''close''] []
       []
       ''csvExport.close'',
     Wrapper [''csvExport'', ''getStatus''] []
       []
       ''csvExport.getStatus'',
     Wrapper [''csvExport'', ''setEnabled''] [''enabled'']
       [Put ''enabled'' (Param ''enabled'')]
       ''csvExport.setEnabled'',
     Wrapper [''csvExport'', ''setInterval''] [''intervalMs'']
       [Put ''intervalMs'' (Param ''intervalMs'')]
       ''csvExport.setInterval'']"

text \<open>\<^verbatim>\<open>csvPlayer.close\<close> to \<^verbatim>\<open>extensions.removeRepository\<close>.\<close>

definition sdk_commands_3 :: "wrapper list" where
  "sdk_commands_3 = [
     Wrapper [''csvPlayer'', ''close''] []
       []
       ''csvPlayer.close'',
     Wrapper [''csvPlayer'', ''getStatus''] []
       []
       ''csvPlayer.getStatus'',
     Wrapper [''csvPlayer'', ''open''] [''filePath'']
       [Put ''filePath'' (Param ''filePath'')]
       ''csvPlayer.open'',
     Wrapper [''csvPlayer'', ''setPaused''] [''paused'']
       [Put ''paused'' (Param ''paused'')]
       ''csvPlayer.setPaused'',
     Wrapper [''csvPlayer'', ''setProgress''] [''progress'']
       [Put ''progress'' (Param ''progress'')]
       ''csvPlayer.setProgress'',
     Wrapper [''csvPlayer'', ''step''] [''options'']
       [Merge ''options'']
       ''csvPlayer.step'',
     Wrapper [''dashboard'', ''getData''] []
       []
       ''dashboard.getData'',
     Wrapper [''dashboard'', ''getFps''] []
       []
       ''dashboard.getFps'',
     Wrapper [''dashboard'', ''getOperationMode''] []
       []
       ''dashboard.getOperationMode'',
     Wrapper [''dashboard'', ''getStatus''] []
       []
       ''dashboard.getStatus'',
     Wrapper [''dashboard'', ''getTimeRange''] []
       []
       ''dashboard.getTimeRange'',
     Wrapper [''dashboard'', ''reprocess''] []
       []
       ''dashboard.reprocess'',
     Wrapper [''dashboard'', ''setFps''] [''fps'']
       [Put ''fps'' (Param ''fps'')]
       ''dashboard.setFps'',
     Wrapper [''dashboard'', ''setOperationMode''] [''mode'']
       [Put ''mode'' (Param ''mode'')]
       ''dashboard.setOperationMode'',
     Wrapper [''dashboard'', ''setTimeRange''] [''seconds'']
       [Put ''seconds'' (Param ''seconds'')]
       ''dashboard.setTimeRange'',
     Wrapper [''dashboard'', ''tailFrames''] [''options'']
       [Merge ''options'']
       ''dashboard.tailFrames'',
     Wrapper [''dashboard'', ''tick''] []
       []
       ''dashboard.tick'',
     Wrapper [''diagnostics'', ''run''] [''options'']
       [Merge ''options'']
       ''diagnostics.run'',
     Wrapper [''diagnostics'', ''status''] []
       []
       ''diagnostics.status'',
     Wrapper [''extensions'', ''addRepository''] [''url'']
       [Put ''url'' (Param ''url'')]
       ''extensions.addRepository'',
     Wrapper [''extensions'', ''getInfo''] [''extensionId'']
       [Put ''extensionId'' (Param ''extensionId'')]
       ''extensions.getInfo'',
     Wrapper [''extensions'', ''install''] [''addonIndex'']
       [Put ''addonIndex'' (Param ''addonIndex'')]
       ''extensions.install'',
     Wrapper [''extensions'', ''list''] []
       []
       ''extensions.list'',
     Wrapper [''extensions'', ''listRepositories''] []
       []
       ''extensions.listRepositories'',
     Wrapper [''extensions'', ''loadState''] [''pluginId'']
       [Put ''pluginId'' (Param ''pluginId'')]
       ''extensions.loadState'',
     Wrapper [''extensions'', ''refresh''] []
       []
       ''extensions.refresh'',
     Wrapper [''extensions'', ''removeRepository''] [''index'']
       [Put ''index'' (Param ''index'')]
       ''extensions.removeRepository'']"

text \<open>\<^verbatim>\<open>extensions.saveState\<close> to \<^verbatim>\<open>io.ble.selectService\<close>.\<close>

definition sdk_commands_4 :: "wrapper list" where
  "sdk_commands_4 = [
     Wrapper [''extensions'', ''saveState''] [''pluginId'', ''state'']
       [Put ''pluginId'' (Param ''pluginId''),
        Put ''state'' (Param ''state'')]
       ''extensions.saveState'',
     Wrapper [''extensions'', ''uninstall''] [''addonIndex'', ''options'']
       [Put ''addonIndex'' (Param ''addonIndex''),
        Merge ''options'']
       ''extensions.uninstall'',
     Wrapper [''influx'', ''getStatus''] []
       []
       ''influx.getStatus'',
     Wrapper [''influx'', ''setConfig''] [''options'']
       [Merge ''options'']
       ''influx.setConfig'',
     Wrapper [''influx'', ''setEnabled''] [''enabled'']
       [Put ''enabled'' (Param ''enabled'')]
       ''influx.setEnabled'',
     Wrapper [''io'', ''audio'', ''getConfig''] []
       []
       ''io.audio.getConfig'',
     Wrapper [''io'', ''audio'', ''listInputDevices''] []
       []
       ''io.audio.listInputDevices'',
     Wrapper [''io'', ''audio'', ''listInputFormats''] []
       []
       ''io.audio.listInputFormats'',
     Wrapper [''io'', ''audio'', ''listOutputDevices''] []
       []
       ''io.audio.listOutputDevices'',
     Wrapper [''io'', ''audio'', ''listOutputFormats''] []
       []
       ''io.audio.listOutputFormats'',
     Wrapper [''io'', ''audio'', ''listSampleRates''] []
       []
       ''io.audio.listSampleRates'',
     Wrapper [''io'', ''audio'', ''setInputChannelConfig''] [''channelIndex'']
       [Put ''channelIndex'' (Param ''channelIndex'')]
       ''io.audio.setInputChannelConfig'',
     Wrapper [''io'', ''audio'', ''setInputDevice''] [''deviceIndex'']
       [Put ''deviceIndex'' (Param ''deviceIndex'')]
       ''io.audio.setInputDevice'',
     Wrapper [''io'', ''audio'', ''setInputSampleFormat''] [''formatIndex'']
       [Put ''formatIndex'' (Param ''formatIndex'')]
       ''io.audio.setInputSampleFormat'',
     Wrapper [''io'', ''audio'', ''setNormalization''] [''enabled'']
       [Put ''enabled'' (Param ''enabled'')]
       ''io.audio.setNormalization'',
     Wrapper [''io'', ''audio'', ''setOutputChannelConfig''] [''channelIndex'']
       [Put ''channelIndex'' (Param ''channelIndex'')]
       ''io.audio.setOutputChannelConfig'',
     Wrapper [''io'', ''audio'', ''setOutputDevice''] [''deviceIndex'']
       [Put ''deviceIndex'' (Param ''deviceIndex'')]
       ''io.audio.setOutputDevice'',
     Wrapper [''io'', ''audio'', ''setOutputSampleFormat''] [''formatIndex'']
       [Put ''formatIndex'' (Param ''formatIndex'')]
       ''io.audio.setOutputSampleFormat'',
     Wrapper [''io'', ''audio'', ''setSampleRate''] [''rateIndex'']
       [Put ''rateIndex'' (Param ''rateIndex'')]
       ''io.audio.setSampleRate'',
     Wrapper [''io'', ''ble'', ''getConfig''] []
       []
       ''io.ble.getConfig'',
     Wrapper [''io'', ''ble'', ''getStatus''] []
       []
       ''io.ble.getStatus'',
     Wrapper [''io'', ''ble'', ''listCharacteristics''] []
       []
       ''io.ble.listCharacteristics'',
     Wrapper [''io'', ''ble'', ''listDevices''] []
       []
       ''io.ble.listDevices'',
     Wrapper [''io'', ''ble'', ''listServices''] []
       []
       ''io.ble.listServices'',
     Wrapper [''io'', ''ble'', ''selectDevice''] [''deviceIndex'']
       [Put ''deviceIndex'' (Param ''deviceIndex'')]
       ''io.ble.selectDevice'',
     Wrapper [''io'', ''ble'', ''selectService''] [''serviceIndex'']
       [Put ''serviceIndex'' (Param ''serviceIndex'')]
       ''io.ble.selectService'']"

text \<open>\<^verbatim>\<open>io.ble.selectServiceByUuid\<close> to \<^verbatim>\<open>io.eip.setProperty\<close>.\<close>

definition sdk_commands_5 :: "wrapper list" where
  "sdk_commands_5 = [
     Wrapper [''io'', ''ble'', ''selectServiceByUuid''] [''serviceUuid'']
       [Put ''serviceUuid'' (Param ''serviceUuid'')]
       ''io.ble.selectServiceByUuid'',
     Wrapper [''io'', ''ble'', ''setCharacteristicIndex''] [''characteristicIndex'']
       [Put ''characteristicIndex'' (Param ''characteristicIndex'')]
       ''io.ble.setCharacteristicIndex'',
     Wrapper [''io'', ''ble'', ''setNotifyCharacteristic''] [''characteristicUuid'']
       [Put ''characteristicUuid'' (Param ''characteristicUuid'')]
       ''io.ble.setNotifyCharacteristic'',
     Wrapper [''io'', ''ble'', ''startDiscovery''] []
       []
       ''io.ble.startDiscovery'',
     Wrapper [''io'', ''ble'', ''writeCharacteristic''] [''characteristicUuid'', ''data'', ''dataEncoding'']
       [Put ''characteristicUuid'' (Param ''characteristicUuid''),
        Put ''data'' (Encoded ''data'' ''dataEncoding'')]
       ''io.ble.writeCharacteristic'',
     Wrapper [''io'', ''canbus'', ''getConfig''] []
       []
       ''io.canbus.getConfig'',
     Wrapper [''io'', ''canbus'', ''getInterfaceError''] []
       []
       ''io.canbus.getInterfaceError'',
     Wrapper [''io'', ''canbus'', ''listBitrates''] []
       []
       ''io.canbus.listBitrates'',
     Wrapper [''io'', ''canbus'', ''listInterfaces''] []
       []
       ''io.canbus.listInterfaces'',
     Wrapper [''io'', ''canbus'', ''listPlugins''] []
       []
       ''io.canbus.listPlugins'',
     Wrapper [''io'', ''canbus'', ''setBitrate''] [''bitrate'']
       [Put ''bitrate'' (Param ''bitrate'')]
       ''io.canbus.setBitrate'',
     Wrapper [''io'', ''canbus'', ''setCanFd''] [''enabled'']
       [Put ''enabled'' (Param ''enabled'')]
       ''io.canbus.setCanFd'',
     Wrapper [''io'', ''canbus'', ''setDataBitrate''] [''dataBitrate'']
       [Put ''dataBitrate'' (Param ''dataBitrate'')]
       ''io.canbus.setDataBitrate'',
     Wrapper [''io'', ''canbus'', ''setInterfaceIndex''] [''interfaceIndex'']
       [Put ''interfaceIndex'' (Param ''interfaceIndex'')]
       ''io.canbus.setInterfaceIndex'',
     Wrapper [''io'', ''canbus'', ''setListenOnly''] [''enabled'']
       [Put ''enabled'' (Param ''enabled'')]
       ''io.canbus.setListenOnly'',
     Wrapper [''io'', ''canbus'', ''setLoopback''] [''enabled'']
       [Put ''enabled'' (Param ''enabled'')]
       ''io.canbus.setLoopback'',
     Wrapper [''io'', ''canbus'', ''setPluginIndex''] [''pluginIndex'']
       [Put ''pluginIndex'' (Param ''pluginIndex'')]
       ''io.canbus.setPluginIndex'',
     Wrapper [''io'', ''connect''] []
       []
       ''io.connect'',
     Wrapper [''io'', ''disconnect''] []
       []
       ''io.disconnect'',
     Wrapper [''io'', ''eip'', ''addTag''] [''tag'', ''type'', ''options'']
       [Put ''tag'' (Param ''tag''),
        Put ''type'' (Param ''type''),
        Merge ''options'']
       ''io.eip.addTag'',
     Wrapper [''io'', ''eip'', ''clearTags''] []
       []
       ''io.eip.clearTags'',
     Wrapper [''io'', ''eip'', ''generateProject''] []
       []
       ''io.eip.generateProject'',
     Wrapper [''io'', ''eip'', ''getConfig''] []
       []
       ''io.eip.getConfig'',
     Wrapper [''io'', ''eip'', ''getStatus''] []
       []
       ''io.eip.getStatus'',
     Wrapper [''io'', ''eip'', ''removeTag''] [''index'']
       [Put ''index'' (Param ''index'')]
       ''io.eip.removeTag'',
     Wrapper [''io'', ''eip'', ''setProperty''] [''key'', ''value'']
       [Put ''key'' (Param ''key''),
        Put ''value'' (Param ''value'')]
       ''io.eip.setProperty'']"

text \<open>\<^verbatim>\<open>io.getLatestFrame\<close> to \<^verbatim>\<open>io.modbus.setHost\<close>.\<close>

definition sdk_commands_6 :: "wrapper list" where
  "sdk_commands_6 = [
     Wrapper [''io'', ''getLatestFrame''] [''options'']
       [Merge ''options'']
       ''io.getLatestFrame'',
     Wrapper [''io'', ''getStatus''] []
       []
       ''io.getStatus'',
     Wrapper [''io'', ''hid'', ''getConfig''] []
       []
       ''io.hid.getConfig'',
     Wrapper [''io'', ''hid'', ''listDevices''] []
       []
       ''io.hid.listDevices'',
     Wrapper [''io'', ''hid'', ''setDeviceIndex''] [''deviceIndex'']
       [Put ''deviceIndex'' (Param ''deviceIndex'')]
       ''io.hid.setDeviceIndex'',
     Wrapper [''io'', ''iec104'', ''clearPoints''] []
       []
       ''io.iec104.clearPoints'',
     Wrapper [''io'', ''iec104'', ''generateProject''] []
       []
       ''io.iec104.generateProject'',
     Wrapper [''io'', ''iec104'', ''getConfig''] []
       []
       ''io.iec104.getConfig'',
     Wrapper [''io'', ''iec104'', ''getPoints''] []
       []
       ''io.iec104.getPoints'',
     Wrapper [''io'', ''iec104'', ''getStatus''] []
       []
       ''io.iec104.getStatus'',
     Wrapper [''io'', ''iec104'', ''setProperty''] [''key'', ''value'']
       [Put ''key'' (Param ''key''),
        Put ''value'' (Param ''value'')]
       ''io.iec104.setProperty'',
     Wrapper [''io'', ''listBuses''] []
       []
       ''io.listBuses'',
     Wrapper [''io'', ''modbus'', ''addRegisterGroup''] [''type'', ''startAddress'', ''count'', ''slaveAddress'']
       [Put ''type'' (Param ''type''),
        Put ''startAddress'' (Param ''startAddress''),
        Put ''count'' (Param ''count''),
        Put ''slaveAddress'' (Param ''slaveAddress'')]
       ''io.modbus.addRegisterGroup'',
     Wrapper [''io'', ''modbus'', ''clearRegisterGroups''] []
       []
       ''io.modbus.clearRegisterGroups'',
     Wrapper [''io'', ''modbus'', ''getConfig''] []
       []
       ''io.modbus.getConfig'',
     Wrapper [''io'', ''modbus'', ''listBaudRates''] []
       []
       ''io.modbus.listBaudRates'',
     Wrapper [''io'', ''modbus'', ''listDataBits''] []
       []
       ''io.modbus.listDataBits'',
     Wrapper [''io'', ''modbus'', ''listParities''] []
       []
       ''io.modbus.listParities'',
     Wrapper [''io'', ''modbus'', ''listProtocols''] []
       []
       ''io.modbus.listProtocols'',
     Wrapper [''io'', ''modbus'', ''listRegisterGroups''] []
       []
       ''io.modbus.listRegisterGroups'',
     Wrapper [''io'', ''modbus'', ''listRegisterTypes''] []
       []
       ''io.modbus.listRegisterTypes'',
     Wrapper [''io'', ''modbus'', ''listSerialPorts''] []
       []
       ''io.modbus.listSerialPorts'',
     Wrapper [''io'', ''modbus'', ''listStopBits''] []
       []
       ''io.modbus.listStopBits'',
     Wrapper [''io'', ''modbus'', ''removeRegisterGroup''] [''groupIndex'']
       [Put ''groupIndex'' (Param ''groupIndex'')]
       ''io.modbus.removeRegisterGroup'',
     Wrapper [''io'', ''modbus'', ''setBaudRate''] [''baudRate'']
       [Put ''baudRate'' (Param ''baudRate'')]
       ''io.modbus.setBaudRate'',
     Wrapper [''io'', ''modbus'', ''setDataBitsIndex''] [''dataBitsIndex'']
       [Put ''dataBitsIndex'' (Param ''dataBitsIndex'')]
       ''io.modbus.setDataBitsIndex'',
     Wrapper [''io'', ''modbus'', ''setHost''] [''host'']
       [Put ''host'' (Param ''host'')]
       ''io.modbus.setHost'']"

text \<open>\<^verbatim>\<open>io.modbus.setParityIndex\<close> to \<^verbatim>\<open>io.opcua.addTag\<close>.\<close>

definition sdk_commands_7 :: "wrapper list" where
  "sdk_commands_7 = [
     Wrapper [''io'', ''modbus'', ''setParityIndex''] [''parityIndex'']
       [Put ''parityIndex'' (Param ''parityIndex'')]
       ''io.modbus.setParityIndex'',
     Wrapper [''io'', ''modbus'', ''setPollInterval''] [''intervalMs'']
       [Put ''intervalMs'' (Param ''intervalMs'')]
       ''io.modbus.setPollInterval'',
     Wrapper [''io'', ''modbus'', ''setPort''] [''port'']
       [Put ''port'' (Param ''port'')]
       ''io.modbus.setPort'',
     Wrapper [''io'', ''modbus'', ''setProtocolIndex''] [''protocolIndex'']
       [Put ''protocolIndex'' (Param ''protocolIndex'')]
       ''io.modbus.setProtocolIndex'',
     Wrapper [''io'', ''modbus'', ''setSerialPortIndex''] [''portIndex'']
       [Put ''portIndex'' (Param ''portIndex'')]
       ''io.modbus.setSerialPortIndex'',
     Wrapper [''io'', ''modbus'', ''setSlaveAddress''] [''address'']
       [Put ''address'' (Param ''address'')]
       ''io.modbus.setSlaveAddress'',
     Wrapper [''io'', ''modbus'', ''setStopBitsIndex''] [''stopBitsIndex'']
       [Put ''stopBitsIndex'' (Param ''stopBitsIndex'')]
       ''io.modbus.setStopBitsIndex'',
     Wrapper [''io'', ''network'', ''getConfig''] []
       []
       ''io.network.getConfig'',
     Wrapper [''io'', ''network'', ''getStatus''] []
       []
       ''io.network.getStatus'',
     Wrapper [''io'', ''network'', ''listSocketTypes''] []
       []
       ''io.network.listSocketTypes'',
     Wrapper [''io'', ''network'', ''lookup''] [''host'']
       [Put ''host'' (Param ''host'')]
       ''io.network.lookup'',
     Wrapper [''io'', ''network'', ''setHttpBody''] [''body'']
       [Put ''body'' (Param ''body'')]
       ''io.network.setHttpBody'',
     Wrapper [''io'', ''network'', ''setHttpHeaders''] [''headers'']
       [Put ''headers'' (Param ''headers'')]
       ''io.network.setHttpHeaders'',
     Wrapper [''io'', ''network'', ''setHttpInterval''] [''interval'']
       [Put ''interval'' (Param ''interval'')]
       ''io.network.setHttpInterval'',
     Wrapper [''io'', ''network'', ''setHttpMethod''] [''method'']
       [Put ''method'' (Param ''method'')]
       ''io.network.setHttpMethod'',
     Wrapper [''io'', ''network'', ''setHttpUrl''] [''url'']
       [Put ''url'' (Param ''url'')]
       ''io.network.setHttpUrl'',
     Wrapper [''io'', ''network'', ''setIgnoreTlsErrors''] [''enabled'']
       [Put ''enabled'' (Param ''enabled'')]
       ''io.network.setIgnoreTlsErrors'',
     Wrapper [''io'', ''network'', ''setRemoteAddress''] [''address'']
       [Put ''address'' (Param ''address'')]
       ''io.network.setRemoteAddress'',
     Wrapper [''io'', ''network'', ''setSocketType''] [''socketTypeIndex'']
       [Put ''socketTypeIndex'' (Param ''socketTypeIndex'')]
       ''io.network.setSocketType'',
     Wrapper [''io'', ''network'', ''setTcpPort''] [''port'']
       [Put ''port'' (Param ''port'')]
       ''io.network.setTcpPort'',
     Wrapper [''io'', ''network'', ''setUdpLocalPort''] [''port'']
       [Put ''port'' (Param ''port'')]
       ''io.network.setUdpLocalPort'',
     Wrapper [''io'', ''network'', ''setUdpMulticast''] [''enabled'']
       [Put ''enabled'' (Param ''enabled'')]
       ''io.network.setUdpMulticast'',
     Wrapper [''io'', ''network'', ''setUdpRemotePort''] [''port'']
       [Put ''port'' (Param ''port'')]
       ''io.network.setUdpRemotePort'',
     Wrapper [''io'', ''network'', ''setWebSocketUrl''] [''url'']
       [Put ''url'' (Param ''url'')]
       ''io.network.setWebSocketUrl'',
     Wrapper [''io'', ''opcua'', ''addTag''] [''id'', ''name'', ''t'']
       [Put ''id'' (Param ''id''),
        Put ''name'' (Param ''name''),
        Put ''t'' (Param ''t'')]
       ''io.opcua.addTag'']"

text \<open>\<^verbatim>\<open>io.opcua.browse\<close> to \<^verbatim>\<open>io.opcua.startBrowse\<close>.\<close>

definition sdk_commands_8 :: "wrapper list" where
  "sdk_commands_8 = [
     Wrapper [''io'', ''opcua'', ''browse''] [''nodeId'']
       [Put ''nodeId'' (Param ''nodeId'')]
       ''io.opcua.browse'',
     Wrapper [''io'', ''opcua'', ''clearTags''] []
       []
       ''io.opcua.clearTags'',
     Wrapper [''io'', ''opcua'', ''discoverEndpoints''] []
       []
       ''io.opcua.discoverEndpoints'',
     Wrapper [''io'', ''opcua'', ''exportCertificate''] [''path'']
       [Put ''path'' (Param ''path'')]
       ''io.opcua.exportCertificate'',
     Wrapper [''io'', ''opcua'', ''generateProject''] []
       []
       ''io.opcua.generateProject'',
     Wrapper [''io'', ''opcua'', ''getCertificate''] []
       []
       ''io.opcua.getCertificate'',
     Wrapper [''io'', ''opcua'', ''getConfig''] []
       []
       ''io.opcua.getConfig'',
     Wrapper [''io'', ''opcua'', ''getStatus''] []
       []
       ''io.opcua.getStatus'',
     Wrapper [''io'', ''opcua'', ''listEndpoints''] []
       []
       ''io.opcua.listEndpoints'',
     Wrapper [''io'', ''opcua'', ''listTags''] []
       []
       ''io.opcua.listTags'',
     Wrapper [''io'', ''opcua'', ''listTrusted''] []
       []
       ''io.opcua.listTrusted'',
     Wrapper [''io'', ''opcua'', ''regenerateCertificate''] []
       []
       ''io.opcua.regenerateCertificate'',
     Wrapper [''io'', ''opcua'', ''removeTag''] [''index'']
       [Put ''index'' (Param ''index'')]
       ''io.opcua.removeTag'',
     Wrapper [''io'', ''opcua'', ''revokeTrust''] [''fingerprint'']
       [Put ''fingerprint'' (Param ''fingerprint'')]
       ''io.opcua.revokeTrust'',
     Wrapper [''io'', ''opcua'', ''setAuthMode''] [''mode'']
       [Put ''mode'' (Param ''mode'')]
       ''io.opcua.setAuthMode'',
     Wrapper [''io'', ''opcua'', ''setEndpointIndex''] [''index'']
       [Put ''index'' (Param ''index'')]
       ''io.opcua.setEndpointIndex'',
     Wrapper [''io'', ''opcua'', ''setEndpointUrl''] [''url'']
       [Put ''url'' (Param ''url'')]
       ''io.opcua.setEndpointUrl'',
     Wrapper [''io'', ''opcua'', ''setIdentityType''] [''type'']
       [Put ''type'' (Param ''type'')]
       ''io.opcua.setIdentityType'',
     Wrapper [''io'', ''opcua'', ''setPassword''] [''password'']
       [Put ''password'' (Param ''password'')]
       ''io.opcua.setPassword'',
     Wrapper [''io'', ''opcua'', ''setPublishingInterval''] [''intervalMs'']
       [Put ''intervalMs'' (Param ''intervalMs'')]
       ''io.opcua.setPublishingInterval'',
     Wrapper [''io'', ''opcua'', ''setSecurityMode''] [''mode'']
       [Put ''mode'' (Param ''mode'')]
       ''io.opcua.setSecurityMode'',
     Wrapper [''io'', ''opcua'', ''setSecurityPolicy''] [''policy'']
       [Put ''policy'' (Param ''policy'')]
       ''io.opcua.setSecurityPolicy'',
     Wrapper [''io'', ''opcua'', ''setTags''] [''tags'']
       [Put ''tags'' (Param ''tags'')]
       ''io.opcua.setTags'',
     Wrapper [''io'', ''opcua'', ''setUserCertificate''] [''certificate'', ''key'']
       [Put ''certificate'' (Param ''certificate''),
        Put ''key'' (Param ''key'')]
       ''io.opcua.setUserCertificate'',
     Wrapper [''io'', ''opcua'', ''setUsername''] [''username'']
       [Put ''username'' (Param ''username'')]
       ''io.opcua.setUsername'',
     Wrapper [''io'', ''opcua'', ''startBrowse''] []
       []
       ''io.opcua.startBrowse'']"

text \<open>\<^verbatim>\<open>io.opcua.stopBrowse\<close> to \<^verbatim>\<open>io.uart.setAutoReconnect\<close>.\<close>

definition sdk_commands_9 :: "wrapper list" where
  "sdk_commands_9 = [
     Wrapper [''io'', ''opcua'', ''stopBrowse''] []
       []
       ''io.opcua.stopBrowse'',
     Wrapper [''io'', ''opcua'', ''trustServer''] [''fingerprint'']
       [Put ''fingerprint'' (Param ''fingerprint'')]
       ''io.opcua.trustServer'',
     Wrapper [''io'', ''process'', ''getConfig''] []
       []
       ''io.process.getConfig'',
     Wrapper [''io'', ''process'', ''listRunning''] []
       []
       ''io.process.listRunning'',
     Wrapper [''io'', ''process'', ''setArguments''] [''arguments'']
       [Put ''arguments'' (Param ''arguments'')]
       ''io.process.setArguments'',
     Wrapper [''io'', ''process'', ''setExecutable''] [''executable'']
       [Put ''executable'' (Param ''executable'')]
       ''io.process.setExecutable'',
     Wrapper [''io'', ''process'', ''setMode''] [''mode'']
       [Put ''mode'' (Param ''mode'')]
       ''io.process.setMode'',
     Wrapper [''io'', ''process'', ''setPipePath''] [''pipePath'']
       [Put ''pipePath'' (Param ''pipePath'')]
       ''io.process.setPipePath'',
     Wrapper [''io'', ''process'', ''setWorkingDir''] [''workingDir'']
       [Put ''workingDir'' (Param ''workingDir'')]
       ''io.process.setWorkingDir'',
     Wrapper [''io'', ''s7'', ''addVariable''] [''address'', ''options'']
       [Put ''address'' (Param ''address''),
        Merge ''options'']
       ''io.s7.addVariable'',
     Wrapper [''io'', ''s7'', ''clearVariables''] []
       []
       ''io.s7.clearVariables'',
     Wrapper [''io'', ''s7'', ''generateProject''] []
       []
       ''io.s7.generateProject'',
     Wrapper [''io'', ''s7'', ''getConfig''] []
       []
       ''io.s7.getConfig'',
     Wrapper [''io'', ''s7'', ''getStatus''] []
       []
       ''io.s7.getStatus'',
     Wrapper [''io'', ''s7'', ''removeVariable''] [''index'']
       [Put ''index'' (Param ''index'')]
       ''io.s7.removeVariable'',
     Wrapper [''io'', ''s7'', ''setProperty''] [''key'', ''value'']
       [Put ''key'' (Param ''key''),
        Put ''value'' (Param ''value'')]
       ''io.s7.setProperty'',
     Wrapper [''io'', ''setBusType''] [''busType'']
       [Put ''busType'' (Param ''busType'')]
       ''io.setBusType'',
     Wrapper [''io'', ''setPaused''] [''paused'']
       [Put ''paused'' (Param ''paused'')]
       ''io.setPaused'',
     Wrapper [''io'', ''uart'', ''getConfig''] []
       []
       ''io.uart.getConfig'',
     Wrapper [''io'', ''uart'', ''getLineStates''] [''options'']
       [Merge ''options'']
       ''io.uart.getLineStates'',
     Wrapper [''io'', ''uart'', ''getSequence''] []
       []
       ''io.uart.getSequence'',
     Wrapper [''io'', ''uart'', ''listBaudRates''] []
       []
       ''io.uart.listBaudRates'',
     Wrapper [''io'', ''uart'', ''listPorts''] []
       []
       ''io.uart.listPorts'',
     Wrapper [''io'', ''uart'', ''runSequence''] [''options'']
       [Merge ''options'']
       ''io.uart.runSequence'',
     Wrapper [''io'', ''uart'', ''sendBreak''] [''durationMs'', ''options'']
       [Put ''durationMs'' (Param ''durationMs''),
        Merge ''options'']
       ''io.uart.sendBreak'',
     Wrapper [''io'', ''uart'', ''setAutoReconnect''] [''autoReconnect'']
       [Put ''autoReconnect'' (Param ''autoReconnect'')]
       ''io.uart.setAutoReconnect'']"

text \<open>\<^verbatim>\<open>io.uart.setBaudRate\<close> to \<^verbatim>\<open>licensing.getTrialStatus\<close>.\<close>

definition sdk_commands_10 :: "wrapper list" where
  "sdk_commands_10 = [
     Wrapper [''io'', ''uart'', ''setBaudRate''] [''baudRate'']
       [Put ''baudRate'' (Param ''baudRate'')]
       ''io.uart.setBaudRate'',
     Wrapper [''io'', ''uart'', ''setDataBits''] [''dataBitsIndex'']
       [Put ''dataBitsIndex'' (Param ''dataBitsIndex'')]
       ''io.uart.setDataBits'',
     Wrapper [''io'', ''uart'', ''setDevice''] [''device'']
       [Put ''device'' (Param ''device'')]
       ''io.uart.setDevice'',
     Wrapper [''io'', ''uart'', ''setDtrEnabled''] [''dtrEnabled'']
       [Put ''dtrEnabled'' (Param ''dtrEnabled'')]
       ''io.uart.setDtrEnabled'',
     Wrapper [''io'', ''uart'', ''setFlowControl''] [''flowControlIndex'']
       [Put ''flowControlIndex'' (Param ''flowControlIndex'')]
       ''io.uart.setFlowControl'',
     Wrapper [''io'', ''uart'', ''setLiveBaudRate''] [''baudRate'', ''options'']
       [Put ''baudRate'' (Param ''baudRate''),
        Merge ''options'']
       ''io.uart.setLiveBaudRate'',
     Wrapper [''io'', ''uart'', ''setParity''] [''parityIndex'']
       [Put ''parityIndex'' (Param ''parityIndex'')]
       ''io.uart.setParity'',
     Wrapper [''io'', ''uart'', ''setPortIndex''] [''portIndex'']
       [Put ''portIndex'' (Param ''portIndex'')]
       ''io.uart.setPortIndex'',
     Wrapper [''io'', ''uart'', ''setRtsEnabled''] [''rtsEnabled'']
       [Put ''rtsEnabled'' (Param ''rtsEnabled'')]
       ''io.uart.setRtsEnabled'',
     Wrapper [''io'', ''uart'', ''setSequence''] [''sequence'']
       [Put ''sequence'' (Param ''sequence'')]
       ''io.uart.setSequence'',
     Wrapper [''io'', ''uart'', ''setStopBits''] [''stopBitsIndex'']
       [Put ''stopBitsIndex'' (Param ''stopBitsIndex'')]
       ''io.uart.setStopBits'',
     Wrapper [''io'', ''usb'', ''getConfig''] []
       []
       ''io.usb.getConfig'',
     Wrapper [''io'', ''usb'', ''listDevices''] []
       []
       ''io.usb.listDevices'',
     Wrapper [''io'', ''usb'', ''setDeviceIndex''] [''deviceIndex'']
       [Put ''deviceIndex'' (Param ''deviceIndex'')]
       ''io.usb.setDeviceIndex'',
     Wrapper [''io'', ''usb'', ''setInEndpointIndex''] [''endpointIndex'']
       [Put ''endpointIndex'' (Param ''endpointIndex'')]
       ''io.usb.setInEndpointIndex'',
     Wrapper [''io'', ''usb'', ''setIsoPacketSize''] [''size'']
       [Put ''size'' (Param ''size'')]
       ''io.usb.setIsoPacketSize'',
     Wrapper [''io'', ''usb'', ''setOutEndpointIndex''] [''endpointIndex'']
       [Put ''endpointIndex'' (Param ''endpointIndex'')]
       ''io.usb.setOutEndpointIndex'',
     Wrapper [''io'', ''usb'', ''setTransferMode''] [''mode'']
       [Put ''mode'' (Param ''mode'')]
       ''io.usb.setTransferMode'',
     Wrapper [''io'', ''writeData''] [''data'', ''dataEncoding'']
       [Put ''data'' (Encoded ''data'' ''dataEncoding'')]
       ''io.writeData'',
     Wrapper [''licensing'', ''activate''] []
       []
       ''licensing.activate'',
     Wrapper [''licensing'', ''activateOffline''] [''path'']
       [Put ''path'' (Param ''path'')]
       ''licensing.activateOffline'',
     Wrapper [''licensing'', ''deactivate''] []
       []
       ''licensing.deactivate'',
     Wrapper [''licensing'', ''enableTrial''] []
       []
       ''licensing.enableTrial'',
     Wrapper [''licensing'', ''getGuardStatus''] []
       []
       ''licensing.getGuardStatus'',
     Wrapper [''licensing'', ''getStatus''] []
       []
       ''licensing.getStatus'',
     Wrapper [''licensing'', ''getTrialStatus''] []
       []
       ''licensing.getTrialStatus'']"

text \<open>\<^verbatim>\<open>licensing.setLicense\<close> to \<^verbatim>\<open>project.action.delete\<close>.\<close>

definition sdk_commands_11 :: "wrapper list" where
  "sdk_commands_11 = [
     Wrapper [''licensing'', ''setLicense''] [''licenseKey'']
       [Put ''licenseKey'' (Param ''licenseKey'')]
       ''licensing.setLicense'',
     Wrapper [''licensing'', ''validate''] []
       []
       ''licensing.validate'',
     Wrapper [''mdf4Export'', ''close''] []
       []
       ''mdf4Export.close'',
     Wrapper [''mdf4Export'', ''getStatus''] []
       []
       ''mdf4Export.getStatus'',
     Wrapper [''mdf4Export'', ''setEnabled''] [''enabled'']
       [Put ''enabled'' (Param ''enabled'')]
       ''mdf4Export.setEnabled'',
     Wrapper [''mdf4Player'', ''close''] []
       []
       ''mdf4Player.close'',
     Wrapper [''mdf4Player'', ''getStatus''] []
       []
       ''mdf4Player.getStatus'',
     Wrapper [''mdf4Player'', ''open''] [''filePath'']
       [Put ''filePath'' (Param ''filePath'')]
       ''mdf4Player.open'',
     Wrapper [''mdf4Player'', ''setPaused''] [''paused'']
       [Put ''paused'' (Param ''paused'')]
       ''mdf4Player.setPaused'',
     Wrapper [''mdf4Player'', ''setProgress''] [''progress'']
       [Put ''progress'' (Param ''progress'')]
       ''mdf4Player.setProgress'',
     Wrapper [''mdf4Player'', ''step''] [''options'']
       [Merge ''options'']
       ''mdf4Player.step'',
     Wrapper [''mirror'', ''getInfo''] []
       []
       ''mirror.getInfo'',
     Wrapper [''mirror'', ''getStructure''] [''options'']
       [Merge ''options'']
       ''mirror.getStructure'',
     Wrapper [''notifications'', ''clearAll''] []
       []
       ''notifications.clearAll'',
     Wrapper [''notifications'', ''clearChannel''] [''channel'']
       [Put ''channel'' (Param ''channel'')]
       ''notifications.clearChannel'',
     Wrapper [''notifications'', ''getUnreadCount''] []
       []
       ''notifications.getUnreadCount'',
     Wrapper [''notifications'', ''list''] [''options'']
       [Merge ''options'']
       ''notifications.list'',
     Wrapper [''notifications'', ''listChannels''] []
       []
       ''notifications.listChannels'',
     Wrapper [''notifications'', ''markRead''] []
       []
       ''notifications.markRead'',
     Wrapper [''notifications'', ''post''] [''level'', ''options'']
       [Put ''level'' (Param ''level''),
        Merge ''options'']
       ''notifications.post'',
     Wrapper [''notifications'', ''resolve''] [''options'']
       [Merge ''options'']
       ''notifications.resolve'',
     Wrapper [''problems'', ''list''] [''options'']
       [Merge ''options'']
       ''problems.list'',
     Wrapper [''problems'', ''listCheckers''] []
       []
       ''problems.listCheckers'',
     Wrapper [''problems'', ''run''] []
       []
       ''problems.run'',
     Wrapper [''project'', ''action'', ''add''] []
       []
       ''project.action.add'',
     Wrapper [''project'', ''action'', ''delete''] [''actionId'']
       [Put ''actionId'' (Param ''actionId'')]
       ''project.action.delete'']"

text \<open>\<^verbatim>\<open>project.action.duplicate\<close> to \<^verbatim>\<open>project.dataTable.setValueH\<close>.\<close>

definition sdk_commands_12 :: "wrapper list" where
  "sdk_commands_12 = [
     Wrapper [''project'', ''action'', ''duplicate''] [''actionId'']
       [Put ''actionId'' (Param ''actionId'')]
       ''project.action.duplicate'',
     Wrapper [''project'', ''action'', ''list''] []
       []
       ''project.action.list'',
     Wrapper [''project'', ''action'', ''update''] [''actionId'']
       [Put ''actionId'' (Param ''actionId'')]
       ''project.action.update'',
     Wrapper [''project'', ''activate''] []
       []
       ''project.activate'',
     Wrapper [''project'', ''batch''] [''ops'', ''options'']
       [Put ''ops'' (Param ''ops''),
        Merge ''options'']
       ''project.batch'',
     Wrapper [''project'', ''dashboard'', ''getTimeRange''] []
       []
       ''project.dashboard.getTimeRange'',
     Wrapper [''project'', ''dashboard'', ''getWidgetTitles''] []
       []
       ''project.dashboard.getWidgetTitles'',
     Wrapper [''project'', ''dashboard'', ''setTimeRange''] [''seconds'']
       [Put ''seconds'' (Param ''seconds'')]
       ''project.dashboard.setTimeRange'',
     Wrapper [''project'', ''dashboard'', ''setWidgetFreezeTitle''] [''widgetType'', ''uniqueId'', ''mode'']
       [Put ''widgetType'' (Param ''widgetType''),
        Put ''uniqueId'' (Param ''uniqueId''),
        Put ''mode'' (Param ''mode'')]
       ''project.dashboard.setWidgetFreezeTitle'',
     Wrapper [''project'', ''dashboard'', ''setWidgetTitle''] [''uniqueId'', ''options'']
       [Put ''uniqueId'' (Param ''uniqueId''),
        Merge ''options'']
       ''project.dashboard.setWidgetTitle'',
     Wrapper [''project'', ''dataTable'', ''add''] [''options'']
       [Merge ''options'']
       ''project.dataTable.add'',
     Wrapper [''project'', ''dataTable'', ''addRegister''] [''table'', ''name'', ''options'']
       [Put ''table'' (Param ''table''),
        Put ''name'' (Param ''name''),
        Merge ''options'']
       ''project.dataTable.addRegister'',
     Wrapper [''project'', ''dataTable'', ''delete''] [''name'', ''options'']
       [Put ''name'' (Param ''name''),
        Merge ''options'']
       ''project.dataTable.delete'',
     Wrapper [''project'', ''dataTable'', ''deleteRegister''] [''table'', ''name'', ''options'']
       [Put ''table'' (Param ''table''),
        Put ''name'' (Param ''name''),
        Merge ''options'']
       ''project.dataTable.deleteRegister'',
     Wrapper [''project'', ''dataTable'', ''get''] [''name'']
       [Put ''name'' (Param ''name'')]
       ''project.dataTable.get'',
     Wrapper [''project'', ''dataTable'', ''getValue''] [''table'', ''name'']
       [Put ''table'' (Param ''table''),
        Put ''name'' (Param ''name'')]
       ''project.dataTable.getValue'',
     Wrapper [''project'', ''dataTable'', ''getValueH''] [''handle'']
       [Put ''handle'' (Param ''handle'')]
       ''project.dataTable.getValueH'',
     Wrapper [''project'', ''dataTable'', ''handle''] [''table'', ''name'']
       [Put ''table'' (Param ''table''),
        Put ''name'' (Param ''name'')]
       ''project.dataTable.handle'',
     Wrapper [''project'', ''dataTable'', ''list''] []
       []
       ''project.dataTable.list'',
     Wrapper [''project'', ''dataTable'', ''rename''] [''oldName'', ''newName'']
       [Put ''oldName'' (Param ''oldName''),
        Put ''newName'' (Param ''newName'')]
       ''project.dataTable.rename'',
     Wrapper [''project'', ''dataTable'', ''setValue''] [''table'', ''name'', ''value'']
       [Put ''table'' (Param ''table''),
        Put ''name'' (Param ''name''),
        Put ''value'' (Param ''value'')]
       ''project.dataTable.setValue'',
     Wrapper [''project'', ''dataTable'', ''setValueH''] [''handle'', ''value'']
       [Put ''handle'' (Param ''handle''),
        Put ''value'' (Param ''value'')]
       ''project.dataTable.setValueH'']"

text \<open>\<^verbatim>\<open>project.dataTable.updateRegister\<close> to \<^verbatim>\<open>project.dataset.setTransformCode\<close>.\<close>

definition sdk_commands_13 :: "wrapper list" where
  "sdk_commands_13 = [
     Wrapper [''project'', ''dataTable'', ''updateRegister''] [''table'', ''name'', ''options'']
       [Put ''table'' (Param ''table''),
        Put ''name'' (Param ''name''),
        Merge ''options'']
       ''project.dataTable.updateRegister'',
     Wrapper [''project'', ''dataset'', ''add''] [''groupId'', ''options'']
       [Put ''groupId'' (Param ''groupId''),
        Put ''options'' (Param ''options'')]
       ''project.dataset.add'',
     Wrapper [''project'', ''dataset'', ''addMany''] [''groupId'', ''count'', ''options'']
       [Put ''groupId'' (Param ''groupId''),
        Put ''count'' (Param ''count''),
        Put ''options'' (Param ''options'')]
       ''project.dataset.addMany'',
     Wrapper [''project'', ''dataset'', ''delete''] [''groupId'', ''datasetId'', ''options'']
       [Put ''groupId'' (Param ''groupId''),
        Put ''datasetId'' (Param ''datasetId''),
        Merge ''options'']
       ''project.dataset.delete'',
     Wrapper [''project'', ''dataset'', ''duplicate''] [''groupId'', ''datasetId'']
       [Put ''groupId'' (Param ''groupId''),
        Put ''datasetId'' (Param ''datasetId'')]
       ''project.dataset.duplicate'',
     Wrapper [''project'', ''dataset'', ''getAlarmBands''] [''groupId'', ''datasetId'']
       [Put ''groupId'' (Param ''groupId''),
        Put ''datasetId'' (Param ''datasetId'')]
       ''project.dataset.getAlarmBands'',
     Wrapper [''project'', ''dataset'', ''getByPath''] [''path'']
       [Put ''path'' (Param ''path'')]
       ''project.dataset.getByPath'',
     Wrapper [''project'', ''dataset'', ''getByTitle''] [''title'', ''options'']
       [Put ''title'' (Param ''title''),
        Merge ''options'']
       ''project.dataset.getByTitle'',
     Wrapper [''project'', ''dataset'', ''getByUniqueId''] [''uniqueId'']
       [Put ''uniqueId'' (Param ''uniqueId'')]
       ''project.dataset.getByUniqueId'',
     Wrapper [''project'', ''dataset'', ''getExecutionOrder''] [''options'']
       [Merge ''options'']
       ''project.dataset.getExecutionOrder'',
     Wrapper [''project'', ''dataset'', ''getFFTMarkers''] [''groupId'', ''datasetId'']
       [Put ''groupId'' (Param ''groupId''),
        Put ''datasetId'' (Param ''datasetId'')]
       ''project.dataset.getFFTMarkers'',
     Wrapper [''project'', ''dataset'', ''getLabels''] [''groupId'', ''datasetId'']
       [Put ''groupId'' (Param ''groupId''),
        Put ''datasetId'' (Param ''datasetId'')]
       ''project.dataset.getLabels'',
     Wrapper [''project'', ''dataset'', ''list''] [''options'']
       [Merge ''options'']
       ''project.dataset.list'',
     Wrapper [''project'', ''dataset'', ''move''] [''uniqueId'', ''newPosition'', ''options'']
       [Put ''uniqueId'' (Param ''uniqueId''),
        Put ''newPosition'' (Param ''newPosition''),
        Merge ''options'']
       ''project.dataset.move'',
     Wrapper [''project'', ''dataset'', ''setAlarmBands''] [''groupId'', ''datasetId'', ''alarmBands'']
       [Put ''groupId'' (Param ''groupId''),
        Put ''datasetId'' (Param ''datasetId''),
        Put ''alarmBands'' (Param ''alarmBands'')]
       ''project.dataset.setAlarmBands'',
     Wrapper [''project'', ''dataset'', ''setFFTMarkers''] [''groupId'', ''datasetId'', ''fftMarkers'']
       [Put ''groupId'' (Param ''groupId''),
        Put ''datasetId'' (Param ''datasetId''),
        Put ''fftMarkers'' (Param ''fftMarkers'')]
       ''project.dataset.setFFTMarkers'',
     Wrapper [''project'', ''dataset'', ''setLabels''] [''groupId'', ''datasetId'', ''labels'', ''options'']
       [Put ''groupId'' (Param ''groupId''),
        Put ''datasetId'' (Param ''datasetId''),
        Put ''labels'' (Param ''labels''),
        Merge ''options'']
       ''project.dataset.setLabels'',
     Wrapper [''project'', ''dataset'', ''setOption''] [''groupId'', ''datasetId'', ''option'', ''enabled'']
       [Put ''groupId'' (Param ''groupId''),
        Put ''datasetId'' (Param ''datasetId''),
        Put ''option'' (Param ''option''),
        Put ''enabled'' (Param ''enabled'')]
       ''project.dataset.setOption'',
     Wrapper [''project'', ''dataset'', ''setOptions''] [''groupId'', ''datasetId'', ''options'']
       [Put ''groupId'' (Param ''groupId''),
        Put ''datasetId'' (Param ''datasetId''),
        Put ''options'' (Param ''options'')]
       ''project.dataset.setOptions'',
     Wrapper [''project'', ''dataset'', ''setTransformCode''] [''groupId'', ''datasetId'', ''code'', ''options'']
       [Put ''groupId'' (Param ''groupId''),
        Put ''datasetId'' (Param ''datasetId''),
        Put ''code'' (Param ''code''),
        Merge ''options'']
       ''project.dataset.setTransformCode'']"

text \<open>\<^verbatim>\<open>project.dataset.setVirtual\<close> to \<^verbatim>\<open>project.group.add\<close>.\<close>

definition sdk_commands_14 :: "wrapper list" where
  "sdk_commands_14 = [
     Wrapper [''project'', ''dataset'', ''setVirtual''] [''groupId'', ''datasetId'', ''virtual'']
       [Put ''groupId'' (Param ''groupId''),
        Put ''datasetId'' (Param ''datasetId''),
        Put ''virtual'' (Param ''virtual'')]
       ''project.dataset.setVirtual'',
     Wrapper [''project'', ''dataset'', ''transform'', ''dryRun''] [''code'', ''language'', ''values'']
       [Put ''code'' (Param ''code''),
        Put ''language'' (Param ''language''),
        Put ''values'' (Param ''values'')]
       ''project.dataset.transform.dryRun'',
     Wrapper [''project'', ''dataset'', ''update''] [''groupId'', ''datasetId'', ''options'']
       [Put ''groupId'' (Param ''groupId''),
        Put ''datasetId'' (Param ''datasetId''),
        Merge ''options'']
       ''project.dataset.update'',
     Wrapper [''project'', ''declaration'', ''adopt''] [''options'']
       [Merge ''options'']
       ''project.declaration.adopt'',
     Wrapper [''project'', ''declaration'', ''get''] []
       []
       ''project.declaration.get'',
     Wrapper [''project'', ''declaration'', ''keep''] []
       []
       ''project.declaration.keep'',
     Wrapper [''project'', ''dryRun'', ''endToEnd''] [''options'']
       [Merge ''options'']
       ''project.dryRun.endToEnd'',
     Wrapper [''project'', ''exportJson''] []
       []
       ''project.exportJson'',
     Wrapper [''project'', ''frameParser'', ''dryCompile''] [''code'', ''language'']
       [Put ''code'' (Param ''code''),
        Put ''language'' (Param ''language'')]
       ''project.frameParser.dryCompile'',
     Wrapper [''project'', ''frameParser'', ''dryRun''] [''code'', ''language'', ''options'']
       [Put ''code'' (Param ''code''),
        Put ''language'' (Param ''language''),
        Merge ''options'']
       ''project.frameParser.dryRun'',
     Wrapper [''project'', ''frameParser'', ''getCode''] [''options'']
       [Merge ''options'']
       ''project.frameParser.getCode'',
     Wrapper [''project'', ''frameParser'', ''getConfig''] []
       []
       ''project.frameParser.getConfig'',
     Wrapper [''project'', ''frameParser'', ''getLanguage''] [''options'']
       [Merge ''options'']
       ''project.frameParser.getLanguage'',
     Wrapper [''project'', ''frameParser'', ''getTemplate''] [''options'']
       [Merge ''options'']
       ''project.frameParser.getTemplate'',
     Wrapper [''project'', ''frameParser'', ''getTemplateSchema''] [''template'']
       [Put ''template'' (Param ''template'')]
       ''project.frameParser.getTemplateSchema'',
     Wrapper [''project'', ''frameParser'', ''listTemplates''] []
       []
       ''project.frameParser.listTemplates'',
     Wrapper [''project'', ''frameParser'', ''setCode''] [''code'', ''options'']
       [Put ''code'' (Param ''code''),
        Merge ''options'']
       ''project.frameParser.setCode'',
     Wrapper [''project'', ''frameParser'', ''setLanguage''] [''language'', ''options'']
       [Put ''language'' (Param ''language''),
        Merge ''options'']
       ''project.frameParser.setLanguage'',
     Wrapper [''project'', ''frameParser'', ''setTemplate''] [''template'', ''options'']
       [Put ''template'' (Param ''template''),
        Merge ''options'']
       ''project.frameParser.setTemplate'',
     Wrapper [''project'', ''frameParser'', ''update''] [''options'']
       [Merge ''options'']
       ''project.frameParser.update'',
     Wrapper [''project'', ''getStatus''] []
       []
       ''project.getStatus'',
     Wrapper [''project'', ''group'', ''add''] [''title'', ''widgetType'']
       [Put ''title'' (Param ''title''),
        Put ''widgetType'' (Param ''widgetType'')]
       ''project.group.add'']"

text \<open>\<^verbatim>\<open>project.group.delete\<close> to \<^verbatim>\<open>project.painter.getCode\<close>.\<close>

definition sdk_commands_15 :: "wrapper list" where
  "sdk_commands_15 = [
     Wrapper [''project'', ''group'', ''delete''] [''groupId'', ''options'']
       [Put ''groupId'' (Param ''groupId''),
        Merge ''options'']
       ''project.group.delete'',
     Wrapper [''project'', ''group'', ''duplicate''] [''groupId'']
       [Put ''groupId'' (Param ''groupId'')]
       ''project.group.duplicate'',
     Wrapper [''project'', ''group'', ''get''] [''options'']
       [Merge ''options'']
       ''project.group.get'',
     Wrapper [''project'', ''group'', ''list''] [''options'']
       [Merge ''options'']
       ''project.group.list'',
     Wrapper [''project'', ''group'', ''move''] [''groupId'', ''newPosition'', ''options'']
       [Put ''groupId'' (Param ''groupId''),
        Put ''newPosition'' (Param ''newPosition''),
        Merge ''options'']
       ''project.group.move'',
     Wrapper [''project'', ''group'', ''update''] [''groupId'']
       [Put ''groupId'' (Param ''groupId'')]
       ''project.group.update'',
     Wrapper [''project'', ''loadJson''] [''config'', ''options'']
       [Put ''config'' (Param ''config''),
        Merge ''options'']
       ''project.loadJson'',
     Wrapper [''project'', ''mqtt'', ''publisher'', ''getConfig''] []
       []
       ''project.mqtt.publisher.getConfig'',
     Wrapper [''project'', ''mqtt'', ''publisher'', ''getStatus''] []
       []
       ''project.mqtt.publisher.getStatus'',
     Wrapper [''project'', ''mqtt'', ''publisher'', ''setConfig''] [''options'']
       [Merge ''options'']
       ''project.mqtt.publisher.setConfig'',
     Wrapper [''project'', ''mqtt'', ''subscriber'', ''getConfig''] []
       []
       ''project.mqtt.subscriber.getConfig'',
     Wrapper [''project'', ''mqtt'', ''subscriber'', ''getStatus''] []
       []
       ''project.mqtt.subscriber.getStatus'',
     Wrapper [''project'', ''mqtt'', ''subscriber'', ''setConfig''] [''options'']
       [Merge ''options'']
       ''project.mqtt.subscriber.setConfig'',
     Wrapper [''project'', ''new''] [''options'']
       [Merge ''options'']
       ''project.new'',
     Wrapper [''project'', ''open''] [''filePath'', ''options'']
       [Put ''filePath'' (Param ''filePath''),
        Merge ''options'']
       ''project.open'',
     Wrapper [''project'', ''outputWidget'', ''add''] [''groupId'', ''type'']
       [Put ''groupId'' (Param ''groupId''),
        Put ''type'' (Param ''type'')]
       ''project.outputWidget.add'',
     Wrapper [''project'', ''outputWidget'', ''delete''] [''groupId'', ''widgetId'']
       [Put ''groupId'' (Param ''groupId''),
        Put ''widgetId'' (Param ''widgetId'')]
       ''project.outputWidget.delete'',
     Wrapper [''project'', ''outputWidget'', ''dryRun''] [''code'', ''options'']
       [Put ''code'' (Param ''code''),
        Merge ''options'']
       ''project.outputWidget.dryRun'',
     Wrapper [''project'', ''outputWidget'', ''duplicate''] [''groupId'', ''widgetId'']
       [Put ''groupId'' (Param ''groupId''),
        Put ''widgetId'' (Param ''widgetId'')]
       ''project.outputWidget.duplicate'',
     Wrapper [''project'', ''outputWidget'', ''get''] [''groupId'', ''widgetId'']
       [Put ''groupId'' (Param ''groupId''),
        Put ''widgetId'' (Param ''widgetId'')]
       ''project.outputWidget.get'',
     Wrapper [''project'', ''outputWidget'', ''update''] [''groupId'', ''widgetId'']
       [Put ''groupId'' (Param ''groupId''),
        Put ''widgetId'' (Param ''widgetId'')]
       ''project.outputWidget.update'',
     Wrapper [''project'', ''painter'', ''dryRun''] [''code'']
       [Put ''code'' (Param ''code'')]
       ''project.painter.dryRun'',
     Wrapper [''project'', ''painter'', ''getCode''] [''groupId'']
       [Put ''groupId'' (Param ''groupId'')]
       ''project.painter.getCode'']"

text \<open>\<^verbatim>\<open>project.painter.setCode\<close> to \<^verbatim>\<open>project.workspace.add\<close>.\<close>

definition sdk_commands_16 :: "wrapper list" where
  "sdk_commands_16 = [
     Wrapper [''project'', ''painter'', ''setCode''] [''groupId'', ''code'']
       [Put ''groupId'' (Param ''groupId''),
        Put ''code'' (Param ''code'')]
       ''project.painter.setCode'',
     Wrapper [''project'', ''redo''] []
       []
       ''project.redo'',
     Wrapper [''project'', ''save''] [''options'']
       [Merge ''options'']
       ''project.save'',
     Wrapper [''project'', ''search''] [''query'', ''options'']
       [Put ''query'' (Param ''query''),
        Merge ''options'']
       ''project.search'',
     Wrapper [''project'', ''setTitle''] [''title'']
       [Put ''title'' (Param ''title'')]
       ''project.setTitle'',
     Wrapper [''project'', ''snapshot''] [''options'']
       [Merge ''options'']
       ''project.snapshot'',
     Wrapper [''project'', ''source'', ''add''] []
       []
       ''project.source.add'',
     Wrapper [''project'', ''source'', ''delete''] [''sourceId'']
       [Put ''sourceId'' (Param ''sourceId'')]
       ''project.source.delete'',
     Wrapper [''project'', ''source'', ''getConfig''] [''sourceId'']
       [Put ''sourceId'' (Param ''sourceId'')]
       ''project.source.getConfig'',
     Wrapper [''project'', ''source'', ''getFrameParserCode''] [''sourceId'']
       [Put ''sourceId'' (Param ''sourceId'')]
       ''project.source.getFrameParserCode'',
     Wrapper [''project'', ''source'', ''list''] []
       []
       ''project.source.list'',
     Wrapper [''project'', ''source'', ''setFrameParserCode''] [''sourceId'', ''code'']
       [Put ''sourceId'' (Param ''sourceId''),
        Put ''code'' (Param ''code'')]
       ''project.source.setFrameParserCode'',
     Wrapper [''project'', ''source'', ''setProperties''] [''sourceId'', ''settings'']
       [Put ''sourceId'' (Param ''sourceId''),
        Put ''settings'' (Param ''settings'')]
       ''project.source.setProperties'',
     Wrapper [''project'', ''source'', ''setProperty''] [''sourceId'', ''key'', ''propertyValue'']
       [Put ''sourceId'' (Param ''sourceId''),
        Put ''key'' (Param ''key''),
        Put ''propertyValue'' (Param ''propertyValue'')]
       ''project.source.setProperty'',
     Wrapper [''project'', ''source'', ''update''] [''sourceId'', ''options'']
       [Put ''sourceId'' (Param ''sourceId''),
        Merge ''options'']
       ''project.source.update'',
     Wrapper [''project'', ''template'', ''apply''] [''templateId'', ''options'']
       [Put ''templateId'' (Param ''templateId''),
        Merge ''options'']
       ''project.template.apply'',
     Wrapper [''project'', ''template'', ''list''] []
       []
       ''project.template.list'',
     Wrapper [''project'', ''transformLibrary'', ''dryRun''] [''code'', ''options'']
       [Put ''code'' (Param ''code''),
        Merge ''options'']
       ''project.transformLibrary.dryRun'',
     Wrapper [''project'', ''transformLibrary'', ''get''] [''options'']
       [Merge ''options'']
       ''project.transformLibrary.get'',
     Wrapper [''project'', ''transformLibrary'', ''set''] [''code'', ''options'']
       [Put ''code'' (Param ''code''),
        Merge ''options'']
       ''project.transformLibrary.set'',
     Wrapper [''project'', ''undo''] []
       []
       ''project.undo'',
     Wrapper [''project'', ''validate''] []
       []
       ''project.validate'',
     Wrapper [''project'', ''workspace'', ''add''] [''options'']
       [Merge ''options'']
       ''project.workspace.add'']"

text \<open>\<^verbatim>\<open>project.workspace.addWidget\<close> to \<^verbatim>\<open>sessions.close\<close>.\<close>

definition sdk_commands_17 :: "wrapper list" where
  "sdk_commands_17 = [
     Wrapper [''project'', ''workspace'', ''addWidget''] [''workspaceId'', ''groupId'', ''widgetType'', ''options'']
       [Put ''workspaceId'' (Param ''workspaceId''),
        Put ''groupId'' (Param ''groupId''),
        Put ''widgetType'' (Param ''widgetType''),
        Merge ''options'']
       ''project.workspace.addWidget'',
     Wrapper [''project'', ''workspace'', ''autoGenerate''] []
       []
       ''project.workspace.autoGenerate'',
     Wrapper [''project'', ''workspace'', ''cleanup''] [''options'']
       [Merge ''options'']
       ''project.workspace.cleanup'',
     Wrapper [''project'', ''workspace'', ''clearAll''] [''options'']
       [Merge ''options'']
       ''project.workspace.clearAll'',
     Wrapper [''project'', ''workspace'', ''delete''] [''id'', ''options'']
       [Put ''id'' (Param ''id''),
        Merge ''options'']
       ''project.workspace.delete'',
     Wrapper [''project'', ''workspace'', ''get''] [''id'']
       [Put ''id'' (Param ''id'')]
       ''project.workspace.get'',
     Wrapper [''project'', ''workspace'', ''getCustomizeMode''] []
       []
       ''project.workspace.getCustomizeMode'',
     Wrapper [''project'', ''workspace'', ''list''] []
       []
       ''project.workspace.list'',
     Wrapper [''project'', ''workspace'', ''profile'', ''add''] [''title'']
       [Put ''title'' (Param ''title'')]
       ''project.workspace.profile.add'',
     Wrapper [''project'', ''workspace'', ''profile'', ''list''] []
       []
       ''project.workspace.profile.list'',
     Wrapper [''project'', ''workspace'', ''profile'', ''remove''] [''profileId'']
       [Put ''profileId'' (Param ''profileId'')]
       ''project.workspace.profile.remove'',
     Wrapper [''project'', ''workspace'', ''profile'', ''select''] [''options'']
       [Merge ''options'']
       ''project.workspace.profile.select'',
     Wrapper [''project'', ''workspace'', ''profile'', ''update''] [''profileId'', ''options'']
       [Put ''profileId'' (Param ''profileId''),
        Merge ''options'']
       ''project.workspace.profile.update'',
     Wrapper [''project'', ''workspace'', ''removeWidget''] [''options'']
       [Merge ''options'']
       ''project.workspace.removeWidget'',
     Wrapper [''project'', ''workspace'', ''rename''] [''id'', ''title'']
       [Put ''id'' (Param ''id''),
        Put ''title'' (Param ''title'')]
       ''project.workspace.rename'',
     Wrapper [''project'', ''workspace'', ''reorder''] [''workspaceIds'']
       [Put ''workspaceIds'' (Param ''workspaceIds'')]
       ''project.workspace.reorder'',
     Wrapper [''project'', ''workspace'', ''setCustomizeMode''] [''enabled'']
       [Put ''enabled'' (Param ''enabled'')]
       ''project.workspace.setCustomizeMode'',
     Wrapper [''project'', ''workspace'', ''update''] [''id'', ''options'']
       [Put ''id'' (Param ''id''),
        Merge ''options'']
       ''project.workspace.update'',
     Wrapper [''project'', ''workspace'', ''validate''] [''options'']
       [Merge ''options'']
       ''project.workspace.validate'',
     Wrapper [''scripts'', ''get''] [''kind'', ''id'']
       [Put ''kind'' (Param ''kind''),
        Put ''id'' (Param ''id'')]
       ''scripts.get'',
     Wrapper [''scripts'', ''list''] [''options'']
       [Merge ''options'']
       ''scripts.list'',
     Wrapper [''sessions'', ''addTag''] [''label'']
       [Put ''label'' (Param ''label'')]
       ''sessions.addTag'',
     Wrapper [''sessions'', ''assignTag''] [''sessionId'', ''tagId'']
       [Put ''sessionId'' (Param ''sessionId''),
        Put ''tagId'' (Param ''tagId'')]
       ''sessions.assignTag'',
     Wrapper [''sessions'', ''close''] []
       []
       ''sessions.close'']"

text \<open>\<^verbatim>\<open>sessions.delete\<close> to \<^verbatim>\<open>ui.automation.click\<close>.\<close>

definition sdk_commands_18 :: "wrapper list" where
  "sdk_commands_18 = [
     Wrapper [''sessions'', ''delete''] [''sessionId'']
       [Put ''sessionId'' (Param ''sessionId'')]
       ''sessions.delete'',
     Wrapper [''sessions'', ''deleteTag''] [''tagId'']
       [Put ''tagId'' (Param ''tagId'')]
       ''sessions.deleteTag'',
     Wrapper [''sessions'', ''exportToCsv''] [''sessionId'']
       [Put ''sessionId'' (Param ''sessionId'')]
       ''sessions.exportToCsv'',
     Wrapper [''sessions'', ''get''] [''sessionId'']
       [Put ''sessionId'' (Param ''sessionId'')]
       ''sessions.get'',
     Wrapper [''sessions'', ''getDbPath''] [''projectTitle'']
       [Put ''projectTitle'' (Param ''projectTitle'')]
       ''sessions.getDbPath'',
     Wrapper [''sessions'', ''getRegression''] []
       []
       ''sessions.getRegression'',
     Wrapper [''sessions'', ''getStatus''] []
       []
       ''sessions.getStatus'',
     Wrapper [''sessions'', ''getVerification''] [''sessionId'']
       [Put ''sessionId'' (Param ''sessionId'')]
       ''sessions.getVerification'',
     Wrapper [''sessions'', ''list''] []
       []
       ''sessions.list'',
     Wrapper [''sessions'', ''listTags''] []
       []
       ''sessions.listTags'',
     Wrapper [''sessions'', ''openDatabase''] [''filePath'']
       [Put ''filePath'' (Param ''filePath'')]
       ''sessions.openDatabase'',
     Wrapper [''sessions'', ''regress''] [''options'']
       [Merge ''options'']
       ''sessions.regress'',
     Wrapper [''sessions'', ''removeTag''] [''sessionId'', ''tagId'']
       [Put ''sessionId'' (Param ''sessionId''),
        Put ''tagId'' (Param ''tagId'')]
       ''sessions.removeTag'',
     Wrapper [''sessions'', ''renameTag''] [''tagId'', ''newLabel'']
       [Put ''tagId'' (Param ''tagId''),
        Put ''newLabel'' (Param ''newLabel'')]
       ''sessions.renameTag'',
     Wrapper [''sessions'', ''replay''] [''sessionId'']
       [Put ''sessionId'' (Param ''sessionId'')]
       ''sessions.replay'',
     Wrapper [''sessions'', ''setExportEnabled''] [''enabled'']
       [Put ''enabled'' (Param ''enabled'')]
       ''sessions.setExportEnabled'',
     Wrapper [''sessions'', ''setNotes''] [''sessionId'', ''notes'']
       [Put ''sessionId'' (Param ''sessionId''),
        Put ''notes'' (Param ''notes'')]
       ''sessions.setNotes'',
     Wrapper [''sessions'', ''verify''] [''sessionId'']
       [Put ''sessionId'' (Param ''sessionId'')]
       ''sessions.verify'',
     Wrapper [''stream'', ''getInfo''] []
       []
       ''stream.getInfo'',
     Wrapper [''stream'', ''getSources''] []
       []
       ''stream.getSources'',
     Wrapper [''system'', ''exec''] [''program'', ''options'']
       [Put ''program'' (Param ''program''),
        Merge ''options'']
       ''system.exec'',
     Wrapper [''system'', ''kill''] [''processId'']
       [Put ''processId'' (Param ''processId'')]
       ''system.kill'',
     Wrapper [''system'', ''projectDir''] []
       []
       ''system.projectDir'',
     Wrapper [''system'', ''runningProcesses''] []
       []
       ''system.runningProcesses'',
     Wrapper [''ui'', ''automation'', ''click''] [''options'']
       [Merge ''options'']
       ''ui.automation.click'']"

text \<open>\<^verbatim>\<open>ui.automation.key\<close> to \<^verbatim>\<open>ui.window.setWindowState\<close>.\<close>

definition sdk_commands_19 :: "wrapper list" where
  "sdk_commands_19 = [
     Wrapper [''ui'', ''automation'', ''key''] [''options'']
       [Merge ''options'']
       ''ui.automation.key'',
     Wrapper [''ui'', ''automation'', ''listElements''] [''options'']
       [Merge ''options'']
       ''ui.automation.listElements'',
     Wrapper [''ui'', ''automation'', ''listWindows''] []
       []
       ''ui.automation.listWindows'',
     Wrapper [''ui'', ''automation'', ''screenshot''] [''options'']
       [Merge ''options'']
       ''ui.automation.screenshot'',
     Wrapper [''ui'', ''automation'', ''setReduceMotion''] [''enabled'']
       [Put ''enabled'' (Param ''enabled'')]
       ''ui.automation.setReduceMotion'',
     Wrapper [''ui'', ''window'', ''getLayout''] []
       []
       ''ui.window.getLayout'',
     Wrapper [''ui'', ''window'', ''getStatus''] []
       []
       ''ui.window.getStatus'',
     Wrapper [''ui'', ''window'', ''getWidgetSettings''] [''widgetId'']
       [Put ''widgetId'' (Param ''widgetId'')]
       ''ui.window.getWidgetSettings'',
     Wrapper [''ui'', ''window'', ''listGroups''] []
       []
       ''ui.window.listGroups'',
     Wrapper [''ui'', ''window'', ''listWindowStates''] []
       []
       ''ui.window.listWindowStates'',
     Wrapper [''ui'', ''window'', ''loadLayout''] []
       []
       ''ui.window.loadLayout'',
     Wrapper [''ui'', ''window'', ''saveLayout''] []
       []
       ''ui.window.saveLayout'',
     Wrapper [''ui'', ''window'', ''setActiveGroup''] [''groupId'']
       [Put ''groupId'' (Param ''groupId'')]
       ''ui.window.setActiveGroup'',
     Wrapper [''ui'', ''window'', ''setActiveGroupIndex''] [''index'']
       [Put ''index'' (Param ''index'')]
       ''ui.window.setActiveGroupIndex'',
     Wrapper [''ui'', ''window'', ''setAutoLayout''] [''enabled'']
       [Put ''enabled'' (Param ''enabled'')]
       ''ui.window.setAutoLayout'',
     Wrapper [''ui'', ''window'', ''setLayout''] [''layout'']
       [Put ''layout'' (Param ''layout'')]
       ''ui.window.setLayout'',
     Wrapper [''ui'', ''window'', ''setLayoutPattern''] [''pattern'', ''options'']
       [Put ''pattern'' (Param ''pattern''),
        Merge ''options'']
       ''ui.window.setLayoutPattern'',
     Wrapper [''ui'', ''window'', ''setWidgetSetting''] [''widgetId'', ''key'', ''settingValue'']
       [Put ''widgetId'' (Param ''widgetId''),
        Put ''key'' (Param ''key''),
        Put ''settingValue'' (Param ''settingValue'')]
       ''ui.window.setWidgetSetting'',
     Wrapper [''ui'', ''window'', ''setWindowState''] [''id'', ''state'']
       [Put ''id'' (Param ''id''),
        Put ''state'' (Param ''state'')]
       ''ui.window.setWindowState'']"

definition sdk_commands :: "wrapper list" where
  "sdk_commands = sdk_commands_1 @
     sdk_commands_2 @
     sdk_commands_3 @
     sdk_commands_4 @
     sdk_commands_5 @
     sdk_commands_6 @
     sdk_commands_7 @
     sdk_commands_8 @
     sdk_commands_9 @
     sdk_commands_10 @
     sdk_commands_11 @
     sdk_commands_12 @
     sdk_commands_13 @
     sdk_commands_14 @
     sdk_commands_15 @
     sdk_commands_16 @
     sdk_commands_17 @
     sdk_commands_18 @
     sdk_commands_19"

text \<open>The whole generated part, in the order of its statements.\<close>

definition sdk_file :: "toplevel list" where
  "sdk_file = map Declare sdk_spaces @ map Assign sdk_commands"

section \<open>What the data satisfies\<close>

lemma sdk_commands_1_parents: "list_all (\<lambda>w. butlast (path w) \<in> set sdk_spaces) sdk_commands_1"
  by code_simp

lemma sdk_commands_1_ok: "list_all well_formed sdk_commands_1"
  by code_simp

lemma sdk_commands_2_parents: "list_all (\<lambda>w. butlast (path w) \<in> set sdk_spaces) sdk_commands_2"
  by code_simp

lemma sdk_commands_2_ok: "list_all well_formed sdk_commands_2"
  by code_simp

lemma sdk_commands_3_parents: "list_all (\<lambda>w. butlast (path w) \<in> set sdk_spaces) sdk_commands_3"
  by code_simp

lemma sdk_commands_3_ok: "list_all well_formed sdk_commands_3"
  by code_simp

lemma sdk_commands_4_parents: "list_all (\<lambda>w. butlast (path w) \<in> set sdk_spaces) sdk_commands_4"
  by code_simp

lemma sdk_commands_4_ok: "list_all well_formed sdk_commands_4"
  by code_simp

lemma sdk_commands_5_parents: "list_all (\<lambda>w. butlast (path w) \<in> set sdk_spaces) sdk_commands_5"
  by code_simp

lemma sdk_commands_5_ok: "list_all well_formed sdk_commands_5"
  by code_simp

lemma sdk_commands_6_parents: "list_all (\<lambda>w. butlast (path w) \<in> set sdk_spaces) sdk_commands_6"
  by code_simp

lemma sdk_commands_6_ok: "list_all well_formed sdk_commands_6"
  by code_simp

lemma sdk_commands_7_parents: "list_all (\<lambda>w. butlast (path w) \<in> set sdk_spaces) sdk_commands_7"
  by code_simp

lemma sdk_commands_7_ok: "list_all well_formed sdk_commands_7"
  by code_simp

lemma sdk_commands_8_parents: "list_all (\<lambda>w. butlast (path w) \<in> set sdk_spaces) sdk_commands_8"
  by code_simp

lemma sdk_commands_8_ok: "list_all well_formed sdk_commands_8"
  by code_simp

lemma sdk_commands_9_parents: "list_all (\<lambda>w. butlast (path w) \<in> set sdk_spaces) sdk_commands_9"
  by code_simp

lemma sdk_commands_9_ok: "list_all well_formed sdk_commands_9"
  by code_simp

lemma sdk_commands_10_parents: "list_all (\<lambda>w. butlast (path w) \<in> set sdk_spaces) sdk_commands_10"
  by code_simp

lemma sdk_commands_10_ok: "list_all well_formed sdk_commands_10"
  by code_simp

lemma sdk_commands_11_parents: "list_all (\<lambda>w. butlast (path w) \<in> set sdk_spaces) sdk_commands_11"
  by code_simp

lemma sdk_commands_11_ok: "list_all well_formed sdk_commands_11"
  by code_simp

lemma sdk_commands_12_parents: "list_all (\<lambda>w. butlast (path w) \<in> set sdk_spaces) sdk_commands_12"
  by code_simp

lemma sdk_commands_12_ok: "list_all well_formed sdk_commands_12"
  by code_simp

lemma sdk_commands_13_parents: "list_all (\<lambda>w. butlast (path w) \<in> set sdk_spaces) sdk_commands_13"
  by code_simp

lemma sdk_commands_13_ok: "list_all well_formed sdk_commands_13"
  by code_simp

lemma sdk_commands_14_parents: "list_all (\<lambda>w. butlast (path w) \<in> set sdk_spaces) sdk_commands_14"
  by code_simp

lemma sdk_commands_14_ok: "list_all well_formed sdk_commands_14"
  by code_simp

lemma sdk_commands_15_parents: "list_all (\<lambda>w. butlast (path w) \<in> set sdk_spaces) sdk_commands_15"
  by code_simp

lemma sdk_commands_15_ok: "list_all well_formed sdk_commands_15"
  by code_simp

lemma sdk_commands_16_parents: "list_all (\<lambda>w. butlast (path w) \<in> set sdk_spaces) sdk_commands_16"
  by code_simp

lemma sdk_commands_16_ok: "list_all well_formed sdk_commands_16"
  by code_simp

lemma sdk_commands_17_parents: "list_all (\<lambda>w. butlast (path w) \<in> set sdk_spaces) sdk_commands_17"
  by code_simp

lemma sdk_commands_17_ok: "list_all well_formed sdk_commands_17"
  by code_simp

lemma sdk_commands_18_parents: "list_all (\<lambda>w. butlast (path w) \<in> set sdk_spaces) sdk_commands_18"
  by code_simp

lemma sdk_commands_18_ok: "list_all well_formed sdk_commands_18"
  by code_simp

lemma sdk_commands_19_parents: "list_all (\<lambda>w. butlast (path w) \<in> set sdk_spaces) sdk_commands_19"
  by code_simp

lemma sdk_commands_19_ok: "list_all well_formed sdk_commands_19"
  by code_simp

lemma sdk_commands_ok: "list_all well_formed sdk_commands"
  by (simp add: sdk_commands_def list_all_append
     sdk_commands_1_ok
     sdk_commands_2_ok
     sdk_commands_3_ok
     sdk_commands_4_ok
     sdk_commands_5_ok
     sdk_commands_6_ok
     sdk_commands_7_ok
     sdk_commands_8_ok
     sdk_commands_9_ok
     sdk_commands_10_ok
     sdk_commands_11_ok
     sdk_commands_12_ok
     sdk_commands_13_ok
     sdk_commands_14_ok
     sdk_commands_15_ok
     sdk_commands_16_ok
     sdk_commands_17_ok
     sdk_commands_18_ok
     sdk_commands_19_ok)

lemma sdk_commands_names: "ascending (map command sdk_commands)"
  by code_simp

lemma sdk_spaces_in_order: "in_order [] sdk_spaces"
  by code_simp

lemma sdk_commands_distinct: "distinct (map path sdk_commands)"
  by (rule distinct_dotted[OF sdk_commands_ok ascending_distinct[OF sdk_commands_names]])

lemma sdk_commands_parents: "list_all (\<lambda>w. butlast (path w) \<in> set sdk_spaces) sdk_commands"
  by (simp add: sdk_commands_def list_all_append
     sdk_commands_1_parents
     sdk_commands_2_parents
     sdk_commands_3_parents
     sdk_commands_4_parents
     sdk_commands_5_parents
     sdk_commands_6_parents
     sdk_commands_7_parents
     sdk_commands_8_parents
     sdk_commands_9_parents
     sdk_commands_10_parents
     sdk_commands_11_parents
     sdk_commands_12_parents
     sdk_commands_13_parents
     sdk_commands_14_parents
     sdk_commands_15_parents
     sdk_commands_16_parents
     sdk_commands_17_parents
     sdk_commands_18_parents
     sdk_commands_19_parents)

end
