(* ===== verification/Sdk_Prelude.thy ===== *)
theory Sdk_Prelude
  imports Base64
begin

unbundle bit_operations_syntax

text \<open>
  The hand-written part of the script SDK (\<^verbatim>\<open>app/rcc/api/prelude.js\<close>, which the build prepends
  to \<^verbatim>\<open>app/rcc/api/SerialStudio.js\<close>; line numbers refer to the latter): the data-table and
  notification functions of a control script, the Modbus and CAN payload encoders, and the
  See/Decide/Act helpers \<open>newFrame\<close> and \<open>ensureDashboard\<close>.

  A function that talks to the application is an action: it takes the state and returns a thrown
  error or a value, and the new state.  The host's gateway \<^verbatim>\<open>__ss_bridge.call\<close> is the parameter
  \<open>call\<close>, with a state of its own; the script's own state is the sequence number of the last frame
  and the signature of the last dashboard.  \<open>stringify\<close> is \<^verbatim>\<open>JSON.stringify\<close>, a parameter too.
\<close>

section \<open>Actions\<close>

record 'h script =
  host :: 'h
  lastFrameSeq :: jsval
  ensuredSig :: string

type_synonym ('h, 'a) action = "'h script \<Rightarrow> (string + 'a) \<times> 'h script"

type_synonym 'h gateway = "string \<Rightarrow> jsval \<Rightarrow> 'h \<Rightarrow> jsval \<times> 'h"

definition return :: "'a \<Rightarrow> ('h, 'a) action" where
  "return x s = (Inr x, s)"

definition throw :: "string \<Rightarrow> ('h, 'a) action" where
  "throw e s = (Inl e, s)"

definition bind :: "('h, 'a) action \<Rightarrow> ('a \<Rightarrow> ('h, 'b) action) \<Rightarrow> ('h, 'b) action" where
  "bind m f s = (case m s of (Inl e, s') \<Rightarrow> (Inl e, s') | (Inr x, s') \<Rightarrow> f x s')"

definition bridge :: "'h gateway \<Rightarrow> string \<Rightarrow> (string \<times> jsval) list \<Rightarrow> ('h, jsval) action" where
  "bridge call method ps s = (let (r, h) = call method (Obj ps) (host s) in (Inr r, s\<lparr>host := h\<rparr>))"

text \<open>Reading a property; of \<open>undefined\<close> and \<open>null\<close> it throws.\<close>

definition member :: "jsval \<Rightarrow> string \<Rightarrow> ('h, jsval) action" where
  "member v k = (if v = Undefined \<or> v = Null then throw ''TypeError'' else return (get_prop v k))"

section \<open>Data tables and notifications of a control script\<close>

text \<open>\<^verbatim>\<open>res.ok && res.result\<close>.\<close>

definition good_result :: "jsval \<Rightarrow> ('h, bool) action" where
  "good_result res = bind (member res ''ok'') (\<lambda>ok.
     return (truthy ok \<and> truthy (get_prop res ''result'')))"

definition tableGet :: "'h gateway \<Rightarrow> jsval \<Rightarrow> jsval \<Rightarrow> ('h, jsval) action" where
  "tableGet call t r = bind (bridge call ''project.dataTable.getValue'' [(''table'', t), (''name'', r)])
     (\<lambda>res. bind (good_result res) (\<lambda>good.
        return (if good then get_prop (get_prop res ''result'') ''value'' else Undefined)))"

definition tableSet :: "'h gateway \<Rightarrow> jsval \<Rightarrow> jsval \<Rightarrow> jsval \<Rightarrow> ('h, jsval) action" where
  "tableSet call t r v =
     bind (bridge call ''project.dataTable.setValue'' [(''table'', t), (''name'', r), (''value'', v)])
       (\<lambda>_. return Undefined)"

definition tableHandle :: "'h gateway \<Rightarrow> jsval \<Rightarrow> jsval \<Rightarrow> ('h, jsval) action" where
  "tableHandle call t r = bind (bridge call ''project.dataTable.handle'' [(''table'', t), (''name'', r)])
     (\<lambda>res. bind (good_result res) (\<lambda>good.
        return (if good then get_prop (get_prop res ''result'') ''handle'' else Num (-1))))"

fun tableHandles :: "'h gateway \<Rightarrow> jsval \<Rightarrow> jsval list \<Rightarrow> ('h, jsval list) action" where
  "tableHandles call t [] = return []"
| "tableHandles call t (r # rs) = bind (tableHandle call t r)
     (\<lambda>x. bind (tableHandles call t rs) (\<lambda>xs. return (x # xs)))"

definition tableHandleMany :: "'h gateway \<Rightarrow> jsval \<Rightarrow> jsval \<Rightarrow> ('h, jsval) action" where
  "tableHandleMany call t regs = bind (tableHandles call t (elements regs)) (\<lambda>out. return (Arr out))"

definition tableGetH :: "'h gateway \<Rightarrow> jsval \<Rightarrow> ('h, jsval) action" where
  "tableGetH call h = bind (bridge call ''project.dataTable.getValueH'' [(''handle'', h)])
     (\<lambda>res. bind (good_result res) (\<lambda>good.
        return (if good \<and> truthy (get_prop (get_prop res ''result'') ''found'')
          then get_prop (get_prop res ''result'') ''value'' else Undefined)))"

definition tableSetH :: "'h gateway \<Rightarrow> jsval \<Rightarrow> jsval \<Rightarrow> ('h, jsval) action" where
  "tableSetH call h v = bind (bridge call ''project.dataTable.setValueH'' [(''handle'', h), (''value'', v)])
     (\<lambda>_. return Undefined)"

definition arg :: "jsval list \<Rightarrow> nat \<Rightarrow> jsval" where
  "arg xs i = (if i < length xs then xs ! i else Undefined)"

definition ssNotifyArgs :: "jsval list \<Rightarrow> jsval \<times> jsval \<times> jsval" where
  "ssNotifyArgs args =
     (if length args \<le> 1 then (Str ''Dashboard'', or_else (arg args 0) (Str []), Str [])
      else if length args = 2
        then (Str ''Dashboard'', or_else (arg args 0) (Str []), or_else (arg args 1) (Str []))
      else (or_else (arg args 0) (Str []), or_else (arg args 1) (Str []), or_else (arg args 2) (Str [])))"

definition level_Info :: jsval where "level_Info = Num 0"
definition level_Warning :: jsval where "level_Warning = Num 1"
definition level_Critical :: jsval where "level_Critical = Num 2"

definition notify :: "'h gateway \<Rightarrow> jsval \<Rightarrow> jsval list \<Rightarrow> ('h, jsval) action" where
  "notify call level args = (case ssNotifyArgs args of (a0, a1, a2) \<Rightarrow>
     bridge call ''notifications.post''
       [(''level'', level), (''channel'', a0), (''title'', a1), (''subtitle'', a2)])"

definition notify_as :: "'h gateway \<Rightarrow> jsval \<Rightarrow> jsval list \<Rightarrow> ('h, jsval) action" where
  "notify_as call level args =
     (case ssNotifyArgs args of (a0, a1, a2) \<Rightarrow> notify call level [a0, a1, a2])"

definition notifyInfo :: "'h gateway \<Rightarrow> jsval list \<Rightarrow> ('h, jsval) action" where
  "notifyInfo call args = notify_as call level_Info args"

definition notifyWarning :: "'h gateway \<Rightarrow> jsval list \<Rightarrow> ('h, jsval) action" where
  "notifyWarning call args = notify_as call level_Warning args"

definition notifyCritical :: "'h gateway \<Rightarrow> jsval list \<Rightarrow> ('h, jsval) action" where
  "notifyCritical call args = notify_as call level_Critical args"

definition notifyClear :: "'h gateway \<Rightarrow> jsval list \<Rightarrow> ('h, jsval) action" where
  "notifyClear call args = (case ssNotifyArgs args of (a0, a1, a2) \<Rightarrow>
     bridge call ''notifications.resolve'' [(''channel'', a0), (''title'', a1), (''subtitle'', a2)])"

section \<open>Payload encoders\<close>

text \<open>Payloads are binary strings: lists of code units.  Numbers that are not integers are cut off
by \<^verbatim>\<open>String.fromCharCode\<close> and rounded by \<^verbatim>\<open>Math.round\<close> (half up).\<close>

definition math_round :: "rat \<Rightarrow> int" where
  "math_round x = \<lfloor>x + 1 / 2\<rfloor>"

definition fromCharCode :: "int list \<Rightarrow> int list" where
  "fromCharCode ns = map (\<lambda>n. n mod 65536) ns"

text \<open>The trailing unit is a number or absent (\<open>undefined\<close>, \<open>null\<close>).\<close>

definition ssModbusUnit :: "rat option \<Rightarrow> int list" where
  "ssModbusUnit unit = (case unit of None \<Rightarrow> []
     | Some u \<Rightarrow> if u \<ge> 1 \<and> u \<le> 247 then fromCharCode [0xFF, 0x83, \<lfloor>u\<rfloor>] else [])"

definition modbusWriteRegister :: "int \<Rightarrow> rat \<Rightarrow> rat option \<Rightarrow> int list" where
  "modbusWriteRegister address value unit =
     (let a = bit_and address 0xFFFF; v = bit_and (math_round value) 0xFFFF
      in ssModbusUnit unit @ fromCharCode
        [bit_and (sar a 8) 0xFF, bit_and a 0xFF, bit_and (sar v 8) 0xFF, bit_and v 0xFF])"

fun registerBytes :: "rat list \<Rightarrow> int list" where
  "registerBytes [] = []"
| "registerBytes (value # values) = (let v = bit_and (math_round value) 0xFFFF
     in fromCharCode [bit_and (sar v 8) 0xFF, bit_and v 0xFF] @ registerBytes values)"

definition modbusWriteRegisters :: "int \<Rightarrow> rat list \<Rightarrow> rat option \<Rightarrow> int list" where
  "modbusWriteRegisters address values unit =
     (let a = bit_and address 0xFFFF
      in ssModbusUnit unit @ fromCharCode [bit_and (sar a 8) 0xFF, bit_and a 0xFF]
         @ registerBytes values)"

definition modbusWriteCoil :: "int \<Rightarrow> bool \<Rightarrow> rat option \<Rightarrow> int list" where
  "modbusWriteCoil address on unit =
     modbusWriteRegister address (if on then 0xFF00 else 0x0000) unit"

text \<open>The four bytes a \<^verbatim>\<open>DataView\<close> stores for a number are the parameter \<open>float32\<close>.\<close>

definition modbusWriteFloat :: "(rat \<Rightarrow> int list) \<Rightarrow> int \<Rightarrow> rat \<Rightarrow> rat option \<Rightarrow> int list" where
  "modbusWriteFloat float32 address value unit =
     (let b = float32 value; a = bit_and address 0xFFFF
      in ssModbusUnit unit
         @ fromCharCode [bit_and (sar a 8) 0xFF, bit_and a 0xFF, b ! 0, b ! 1, b ! 2, b ! 3])"

text \<open>The payload of a CAN frame: a binary string, an array of numbers, or anything else.\<close>

datatype can_payload = Text "int list" | Numbers "int list" | Other

definition can_data :: "can_payload \<Rightarrow> int list" where
  "can_data payload = (case payload of Text s \<Rightarrow> s
     | Numbers ns \<Rightarrow> fromCharCode (map (\<lambda>n. bit_and n 0xFF) ns) | Other \<Rightarrow> [])"

definition canSendFrame :: "int \<Rightarrow> can_payload \<Rightarrow> int list" where
  "canSendFrame canId payload = (let data = can_data payload in
     if canId > 0x7FF then
       (let extId = bit_and canId 0x1FFFFFFF
        in fromCharCode [bit_or 0x80 (bit_and (sar extId 24) 0x1F), bit_and (sar extId 16) 0xFF,
             bit_and (sar extId 8) 0xFF, bit_and extId 0xFF, int (length data)] @ data)
     else
       (let stdId = bit_and canId 0x7FF
        in fromCharCode [bit_and (sar stdId 8) 0xFF, bit_and stdId 0xFF, int (length data)] @ data))"

fun value_bytes :: "int \<Rightarrow> nat \<Rightarrow> int list" where
  "value_bytes v 0 = []"
| "value_bytes v (Suc i) = bit_and (sar v (i * 8)) 0xFF # value_bytes v i"

definition canSendValue :: "int \<Rightarrow> rat \<Rightarrow> nat \<Rightarrow> int list" where
  "canSendValue canId value bytes = (let bytes = (if bytes = 0 then 2 else bytes)
     in canSendFrame canId (Numbers (value_bytes (math_round value) bytes)))"

section \<open>Frames and dashboards\<close>

text \<open>The operator \<^verbatim>\<open>===\<close>; two objects that a script compares come from different replies, so they
are not the same object.\<close>

definition strict_eq :: "jsval \<Rightarrow> jsval \<Rightarrow> bool" where
  "strict_eq a b \<longleftrightarrow> a = b \<and> (case a of NaN \<Rightarrow> False | Arr _ \<Rightarrow> False | Obj _ \<Rightarrow> False | _ \<Rightarrow> True)"

text \<open>\<^verbatim>\<open>newFrame(sourceId)\<close>: the parameter counts only when it is a number.\<close>

definition newFrame :: "'h gateway \<Rightarrow> jsval \<Rightarrow> ('h, jsval) action" where
  "newFrame call sourceId =
     (let p = (case sourceId of Num _ \<Rightarrow> [(''sourceId'', sourceId)] | NaN \<Rightarrow> [(''sourceId'', sourceId)]
        | Infinity \<Rightarrow> [(''sourceId'', sourceId)] | NegInfinity \<Rightarrow> [(''sourceId'', sourceId)] | _ \<Rightarrow> [])
      in bind (bridge call ''io.getLatestFrame'' p) (\<lambda>r.
         bind (good_result r) (\<lambda>good. \<lambda>s.
           let result = get_prop r ''result'' in
           if \<not> (good \<and> truthy (get_prop result ''hasData'')) then return Null s
           else if strict_eq (get_prop result ''sequence'') (lastFrameSeq s) then return Null s
           else return result (s\<lparr>lastFrameSeq := get_prop result ''sequence''\<rparr>))))"

definition refreshDashboard :: "'h gateway \<Rightarrow> ('h, jsval) action" where
  "refreshDashboard call = bridge call ''dashboard.reprocess'' []"

definition dashboardTick :: "'h gateway \<Rightarrow> ('h, jsval) action" where
  "dashboardTick call = bridge call ''dashboard.tick'' []"

definition ssGroupWidgets :: "(string \<times> rat) list" where
  "ssGroupWidgets = [(''datagrid'', 0), (''accelerometer'', 1), (''gyroscope'', 2), (''gps'', 3),
     (''multiplot'', 4), (''none'', 5), (''plot3d'', 6), (''image'', 7), (''painter'', 8),
     (''webview'', 9), (''barpanel'', 10)]"

definition ssDatasetBits :: "(string \<times> int) list" where
  "ssDatasetBits = [(''plot'', 1), (''fft'', 2), (''bar'', 4), (''gauge'', 8), (''compass'', 16),
     (''led'', 32), (''waterfall'', 64)]"

definition ssDatasetOptions :: "jsval \<Rightarrow> jsval" where
  "ssDatasetOptions ds = (case get_prop ds ''options'' of Num r \<Rightarrow> Num r | NaN \<Rightarrow> NaN
     | Infinity \<Rightarrow> Infinity | NegInfinity \<Rightarrow> NegInfinity
     | _ \<Rightarrow> NumI (fold (\<lambda>(key, b) bits. if truthy (get_prop ds key) then bit_or bits b else bits)
          ssDatasetBits 0))"

text \<open>\<^verbatim>\<open>ensureDashboard(spec)\<close>.  A loop body either returns from the function (\<open>Inl\<close>) or goes on
(\<open>Inr\<close>) with the counters and the list of groups.\<close>

record ensure_out =
  out_ok :: bool
  createdGroups :: nat
  createdDatasets :: nat
  out_error :: jsval

definition fresh_out :: ensure_out where
  "fresh_out = \<lparr>out_ok = True, createdGroups = 0, createdDatasets = 0, out_error = Undefined\<rparr>"

definition ssEnsureFail :: "ensure_out \<Rightarrow> jsval \<Rightarrow> ensure_out" where
  "ssEnsureFail out error = out\<lparr>out_ok := False,
     out_error := or_else error (Str ''ensureDashboard: API call failed'')\<rparr>"

definition negative :: "jsval \<Rightarrow> bool" where
  "negative v = (case v of Num r \<Rightarrow> r < 0 | NegInfinity \<Rightarrow> True | _ \<Rightarrow> False)"

fun find_group :: "jsval list \<Rightarrow> jsval \<Rightarrow> ('h, jsval) action" where
  "find_group [] title = return (Num (-1))"
| "find_group (g # groups) title = bind (member g ''title'') (\<lambda>t.
     if strict_eq t title then return (get_prop g ''groupId'') else find_group groups title)"

text \<open>The indices a group's datasets have, as the keys of \<^verbatim>\<open>have\<close>.\<close>

fun have_indices :: "(jsval \<Rightarrow> string) \<Rightarrow> jsval list \<Rightarrow> jsval \<Rightarrow> ('h, string list) action" where
  "have_indices numstr [] groupId = return []"
| "have_indices numstr (d # ds) groupId = bind (member d ''groupId'') (\<lambda>g.
     bind (have_indices numstr ds groupId) (\<lambda>have.
     return (if strict_eq g groupId then js_string numstr (get_prop d ''index'') # have else have)))"

definition widget_type :: "jsval \<Rightarrow> jsval" where
  "widget_type want = (case or_else (get_prop want ''widget'') (Str ''none'') of
     Str key \<Rightarrow> (case map_of ssGroupWidgets key of Some n \<Rightarrow> Num n | None \<Rightarrow> Num 5)
   | _ \<Rightarrow> Num 5)"

definition list_of :: "jsval \<Rightarrow> string \<Rightarrow> ('h, jsval list) action" where
  "list_of res key = bind (member res ''result'') (\<lambda>r. bind (member r key) (\<lambda>g.
     return (elements (or_else g (Arr [])))))"

definition find_or_add_group ::
  "'h gateway \<Rightarrow> jsval \<Rightarrow> jsval list \<Rightarrow> ensure_out
   \<Rightarrow> ('h, ensure_out + jsval \<times> jsval list \<times> ensure_out) action" where
  "find_or_add_group call want groups out =
     bind (member want ''title'') (\<lambda>title. bind (find_group groups title) (\<lambda>groupId.
      if \<not> negative groupId then return (Inr (groupId, groups, out))
      else bind (bridge call ''project.group.add''
                  [(''title'', title), (''widgetType'', widget_type want)]) (\<lambda>added.
        bind (member added ''ok'') (\<lambda>ok.
        if \<not> truthy ok then return (Inl (ssEnsureFail out (get_prop added ''error'')))
        else bind (bridge call ''project.group.list'' []) (\<lambda>relist.
          bind (member relist ''ok'') (\<lambda>ok.
          if \<not> truthy ok then return (Inl (ssEnsureFail out (get_prop relist ''error'')))
          else bind (list_of relist ''groups'') (\<lambda>groups.
            bind (find_group groups title) (\<lambda>groupId.
            if negative groupId
            then return (Inl (ssEnsureFail out (Str ''ensureDashboard: group missing after add'')))
            else return (Inr (groupId, groups,
                   out\<lparr>createdGroups := createdGroups out + 1\<rparr>))))))))))"

fun add_datasets ::
  "(jsval \<Rightarrow> string) \<Rightarrow> 'h gateway \<Rightarrow> jsval \<Rightarrow> string list \<Rightarrow> jsval list \<Rightarrow> ensure_out
   \<Rightarrow> ('h, ensure_out + ensure_out) action" where
  "add_datasets numstr call groupId have [] out = return (Inr out)"
| "add_datasets numstr call groupId have (ds # wantDs) out =
     bind (member ds ''index'') (\<lambda>index. let key = js_string numstr index in
      if key \<in> set have then add_datasets numstr call groupId have wantDs out
      else bind (bridge call ''project.dataset.addMany''
        [(''groupId'', groupId), (''count'', Num 1), (''options'', ssDatasetOptions ds),
         (''titlePattern'', or_else (get_prop ds ''title'') (Str (''Channel '' @ key))),
         (''startIndex'', index)]) (\<lambda>addDs.
        bind (member addDs ''ok'') (\<lambda>ok.
        if \<not> truthy ok then return (Inl (ssEnsureFail out (get_prop addDs ''error'')))
        else (let result = get_prop addDs ''result'';
                  created = arg (elements (get_prop result ''created'')) 0;
                  out = out\<lparr>createdDatasets := createdDatasets out + 1\<rparr> in
          if truthy (get_prop ds ''units'') \<and> truthy created
          then bind (bridge call ''project.dataset.update''
                 [(''groupId'', groupId), (''datasetId'', get_prop created ''datasetId''),
                  (''units'', get_prop ds ''units'')])
               (\<lambda>_. add_datasets numstr call groupId have wantDs out)
          else add_datasets numstr call groupId have wantDs out))))"

fun ensure_groups ::
  "(jsval \<Rightarrow> string) \<Rightarrow> 'h gateway \<Rightarrow> jsval list \<Rightarrow> jsval list \<Rightarrow> jsval list \<Rightarrow> ensure_out
   \<Rightarrow> ('h, ensure_out + ensure_out) action" where
  "ensure_groups numstr call datasets [] groups out = return (Inr out)"
| "ensure_groups numstr call datasets (want # spec) groups out =
     bind (find_or_add_group call want groups out) (\<lambda>r. case r of Inl out \<Rightarrow> return (Inl out)
       | Inr (groupId, groups, out) \<Rightarrow>
         bind (have_indices numstr datasets groupId) (\<lambda>have.
          let wantDs = elements (or_else (get_prop want ''datasets'') (Arr [])) in
          bind (add_datasets numstr call groupId have wantDs out) (\<lambda>r. case r of
            Inl out \<Rightarrow> return (Inl out)
          | Inr out \<Rightarrow> ensure_groups numstr call datasets spec groups out)))"

definition ensure_run ::
  "(jsval \<Rightarrow> string) \<Rightarrow> 'h gateway \<Rightarrow> jsval list \<Rightarrow> string \<Rightarrow> ('h, ensure_out) action" where
  "ensure_run numstr call spec sig =
     bind (bridge call ''project.group.list'' []) (\<lambda>groupsRes.
     bind (bridge call ''project.dataset.list'' []) (\<lambda>dsRes.
     bind (member groupsRes ''ok'') (\<lambda>gok.
     bind (if truthy gok then member dsRes ''ok'' else return gok) (\<lambda>ok.
     if \<not> truthy ok then
       bind (if truthy (get_prop groupsRes ''error'') then return (get_prop groupsRes ''error'')
             else member dsRes ''error'') (\<lambda>e. return (ssEnsureFail fresh_out e))
     else bind (list_of groupsRes ''groups'') (\<lambda>groups.
       bind (list_of dsRes ''datasets'') (\<lambda>datasets.
       bind (ensure_groups numstr call datasets spec groups fresh_out) (\<lambda>r. case r of
         Inl out \<Rightarrow> return out
       | Inr out \<Rightarrow> (\<lambda>s. return out (s\<lparr>ensuredSig := sig\<rparr>)))))))))"

definition ensureDashboard ::
  "(jsval \<Rightarrow> string) \<Rightarrow> (jsval \<Rightarrow> string) \<Rightarrow> 'h gateway \<Rightarrow> jsval list \<Rightarrow> ('h, ensure_out) action" where
  "ensureDashboard numstr stringify call spec s =
     (if spec = [] then return fresh_out s
      else (let sig = stringify (Arr spec) in
        if sig = ensuredSig s then return fresh_out s else ensure_run numstr call spec sig s))"

section \<open>Reasoning about actions\<close>

text \<open>\<open>valid P m Q\<close>: from a state with \<open>P\<close> a run of \<open>m\<close> that does not throw ends with \<open>Q\<close>.\<close>

definition valid ::
  "('h script \<Rightarrow> bool) \<Rightarrow> ('h, 'a) action \<Rightarrow> ('a \<Rightarrow> 'h script \<Rightarrow> bool) \<Rightarrow> bool" where
  "valid P m Q \<longleftrightarrow> (\<forall>s x s'. P s \<and> m s = (Inr x, s') \<longrightarrow> Q x s')"

named_theorems action_rules

lemma valid_return [action_rules]: "(\<And>s. P s \<Longrightarrow> Q x s) \<Longrightarrow> valid P (return x) Q"
  by (simp add: valid_def return_def)

lemma valid_throw [action_rules]: "valid P (throw e) Q"
  by (simp add: valid_def throw_def)

lemma valid_bind:
  assumes "valid P m R" and "\<And>x. valid (R x) (f x) Q"
  shows "valid P (bind m f) Q"
  unfolding valid_def
proof (intro allI impI)
  fix s x s'
  assume "P s \<and> bind m f s = (Inr x, s')"
  then obtain y t where "m s = (Inr y, t)" "f y t = (Inr x, s')" and P: "P s"
    by (auto simp: bind_def split: prod.splits sum.splits)
  then have "R y t" using assms(1) unfolding valid_def by blast
  with \<open>f y t = (Inr x, s')\<close> show "Q x s'" using assms(2)[of y] unfolding valid_def by blast
qed

lemma valid_member: "(\<And>x s. P s \<Longrightarrow> Q x s) \<Longrightarrow> valid P (member v k) Q"
  by (simp add: member_def valid_return valid_throw)

lemma valid_weaken: "\<lbrakk>valid P m R; \<And>x s. R x s \<Longrightarrow> Q x s\<rbrakk> \<Longrightarrow> valid P m Q"
  by (auto simp: valid_def)

lemma valid_pre: "\<lbrakk>valid R m Q; \<And>s. P s \<Longrightarrow> R s\<rbrakk> \<Longrightarrow> valid P m Q"
  by (auto simp: valid_def)

lemma valid_if:
  "\<lbrakk>c \<Longrightarrow> valid P a Q; \<not> c \<Longrightarrow> valid P b Q\<rbrakk> \<Longrightarrow> valid P (if c then a else b) Q"
  by simp

lemma valid_list_of: "valid P (list_of v k) (\<lambda>_. P)"
  unfolding list_of_def
  by (rule valid_bind[where R = "\<lambda>_. P"], rule valid_member, assumption)
    (rule valid_bind[where R = "\<lambda>_. P"], rule valid_member, assumption, rule valid_return)

lemma valid_find_group: "valid P (find_group gs title) (\<lambda>_. P)"
proof (induction gs)
  case (Cons g gs)
  have "valid P (if c then return x else find_group gs title) (\<lambda>_. P)" for c x
    by (rule valid_if[OF valid_return Cons.IH])
  then show ?case by (simp add: valid_bind[OF valid_member[of P "\<lambda>_. P"]])
qed (simp add: valid_return)

lemma valid_have_indices: "valid P (have_indices numstr ds gid) (\<lambda>_. P)"
proof (induction ds)
  case (Cons d ds)
  have "valid P (bind (have_indices numstr ds gid) (\<lambda>have. return (f have))) (\<lambda>_. P)" for f
    by (rule valid_bind[OF Cons.IH]) (rule valid_return)
  then show ?case
    by (simp only: have_indices.simps) (rule valid_bind[OF valid_member[of P "\<lambda>_. P"]])
qed (simp add: valid_return)

section \<open>What ensureDashboard asks of the host\<close>

text \<open>The host as \<open>ensureDashboard\<close> sees it: an invariant \<open>I g d\<close> of the host's state that counts
the groups and the datasets it was asked to add; listing and updating leave the counts alone.\<close>

locale dashboard_host =
  fixes call :: "'h gateway" and I :: "nat \<Rightarrow> nat \<Rightarrow> 'h \<Rightarrow> bool"
  assumes lists: "\<lbrakk>I g d h; m = ''project.group.list'' \<or> m = ''project.dataset.list''\<rbrakk>
      \<Longrightarrow> I g d (snd (call m (Obj []) h))"
    and updates: "I g d h \<Longrightarrow> I g d (snd (call ''project.dataset.update'' ps h))"
    and adds_group: "I g d h \<Longrightarrow> I (Suc g) d (snd (call ''project.group.add'' ps h))"
    and adds_dataset: "I g d h \<Longrightarrow> I g (Suc d) (snd (call ''project.dataset.addMany'' ps h))"
begin

definition tallied :: "string \<Rightarrow> nat \<Rightarrow> nat \<Rightarrow> 'h script \<Rightarrow> bool" where
  "tallied sig g d s \<longleftrightarrow> ensuredSig s = sig \<and> I g d (host s)"

lemma valid_bridge:
  assumes "\<And>h. I g d h \<Longrightarrow> I g' d' (snd (call m (Obj ps) h))"
  shows "valid (tallied sig g d) (bridge call m ps) (\<lambda>_. tallied sig g' d')"
  using assms by (fastforce simp: valid_def bridge_def tallied_def split: prod.splits)

lemma bridge_list:
  "m = ''project.group.list'' \<or> m = ''project.dataset.list''
   \<Longrightarrow> valid (tallied sig g d) (bridge call m []) (\<lambda>_. tallied sig g d)"
  by (rule valid_bridge) (rule lists)

lemma bridge_update:
  "valid (tallied sig g d) (bridge call ''project.dataset.update'' ps) (\<lambda>_. tallied sig g d)"
  by (rule valid_bridge) (rule updates)

lemma bridge_add_group:
  "valid (tallied sig g d) (bridge call ''project.group.add'' ps) (\<lambda>_. tallied sig (Suc g) d)"
  by (rule valid_bridge) (rule adds_group)

lemma bridge_add_dataset:
  "valid (tallied sig g d) (bridge call ''project.dataset.addMany'' ps)
     (\<lambda>_. tallied sig g (Suc d))"
  by (rule valid_bridge) (rule adds_dataset)

text \<open>The outcome of a loop: returned with a failure, or going on with counters that match.\<close>

definition outcome :: "string \<Rightarrow> ensure_out + ensure_out \<Rightarrow> 'h script \<Rightarrow> bool" where
  "outcome sig r s \<longleftrightarrow> (case r of Inl out \<Rightarrow> \<not> out_ok out \<and> ensuredSig s = sig
     | Inr out \<Rightarrow> out_ok out \<and> tallied sig (createdGroups out) (createdDatasets out) s)"

lemma fail_outcome: "tallied sig g d s \<Longrightarrow> outcome sig (Inl (ssEnsureFail out e)) s"
  by (simp add: outcome_def ssEnsureFail_def tallied_def)

lemma add_datasets_valid:
  assumes "out_ok out"
  shows "valid (tallied sig (createdGroups out) (createdDatasets out))
    (add_datasets numstr call groupId have wantDs out) (outcome sig)"
  using assms
proof (induction wantDs arbitrary: out)
  case Nil
  then show ?case by (simp add: outcome_def valid_return)
next
  case (Cons ds wantDs)
  let ?g = "createdGroups out" and ?d = "createdDatasets out"
  let ?out = "out\<lparr>createdDatasets := ?d + 1\<rparr>"
  have next_ds: "valid (tallied sig ?g (Suc ?d)) (add_datasets numstr call groupId have wantDs ?out)
      (outcome sig)"
    using Cons.IH[of ?out] Cons.prems by simp
  have update: "valid (tallied sig ?g (Suc ?d)) (bind (bridge call ''project.dataset.update'' ps)
      (\<lambda>_. add_datasets numstr call groupId have wantDs ?out)) (outcome sig)" for ps
    by (rule valid_bind[OF bridge_update next_ds])
  show ?case
    using Cons.IH[OF Cons.prems] next_ds update
    by (auto simp: Let_def intro!: valid_bind[OF bridge_add_dataset]
        valid_bind[OF valid_member[of "tallied sig ?g ?d" "\<lambda>_. tallied sig ?g ?d"]]
        valid_bind[OF valid_member[of "tallied sig ?g (Suc ?d)" "\<lambda>_. tallied sig ?g (Suc ?d)"]]
        valid_return fail_outcome)
qed

text \<open>A group: found, or added and found in the new list.\<close>

definition group_outcome ::
  "string \<Rightarrow> ensure_out + jsval \<times> jsval list \<times> ensure_out \<Rightarrow> 'h script \<Rightarrow> bool" where
  "group_outcome sig r s \<longleftrightarrow> (case r of Inl out \<Rightarrow> outcome sig (Inl out) s
     | Inr (_, _, out) \<Rightarrow> outcome sig (Inr out) s)"

lemma find_or_add_group_valid:
  assumes "out_ok out"
  shows "valid (tallied sig (createdGroups out) (createdDatasets out))
    (find_or_add_group call want groups out) (group_outcome sig)"
proof -
  let ?g = "createdGroups out" and ?d = "createdDatasets out"
  let ?at = "\<lambda>_ :: jsval. tallied sig (Suc ?g) ?d"
  have fail: "tallied sig g d s \<Longrightarrow> group_outcome sig (Inl (ssEnsureFail out e)) s" for g d e s
    by (simp add: group_outcome_def fail_outcome)
  show ?thesis
    unfolding find_or_add_group_def Let_def
    by (intro valid_if valid_return valid_bind[OF valid_member[of "tallied sig ?g ?d" "\<lambda>_. tallied sig ?g ?d"]]
          valid_bind[OF valid_find_group[of "tallied sig ?g ?d"]]
          valid_bind[OF valid_find_group[of "tallied sig (Suc ?g) ?d"]] valid_bind[OF bridge_add_group] valid_bind[OF bridge_list]
          valid_bind[OF valid_member[of "tallied sig (Suc ?g) ?d" ?at]]
          valid_bind[OF valid_list_of[of "tallied sig (Suc ?g) ?d"]] fail)
      (use assms in \<open>auto simp: group_outcome_def outcome_def\<close>)
qed

lemma ensure_groups_valid:
  assumes "out_ok out"
  shows "valid (tallied sig (createdGroups out) (createdDatasets out))
    (ensure_groups numstr call datasets spec groups out) (outcome sig)"
  using assms
proof (induction spec arbitrary: groups out)
  case Nil
  then show ?case by (simp add: outcome_def valid_return)
next
  case (Cons want spec)
  have go: "valid (outcome sig r) (case r of Inl out \<Rightarrow> return (Inl out)
      | Inr out \<Rightarrow> ensure_groups numstr call datasets spec gs out) (outcome sig)" for r gs
    using Cons.IH by (cases r) (auto simp: outcome_def valid_def return_def)
  have add: "valid (group_outcome sig (Inr (x, gs, out)))
      (add_datasets numstr call gid hs ds out) (outcome sig)" for x gs gid hs ds out
    using add_datasets_valid by (auto simp: group_outcome_def outcome_def valid_def)
  show ?case
    by (auto simp: Let_def
        intro!: valid_bind[OF find_or_add_group_valid[OF Cons.prems]] valid_return
          valid_bind[OF valid_have_indices] valid_bind[OF add go] split: sum.split)
      (simp add: group_outcome_def)?
qed

text \<open>The whole function: the counters are those of the host; the signature is remembered exactly
after a run that succeeded.\<close>

definition run_outcome :: "string \<Rightarrow> string \<Rightarrow> ensure_out \<Rightarrow> 'h script \<Rightarrow> bool" where
  "run_outcome old sig out s \<longleftrightarrow> (if out_ok out
     then tallied sig (createdGroups out) (createdDatasets out) s else ensuredSig s = old)"

lemma ensure_run_valid:
  "valid (tallied old 0 0) (ensure_run numstr call spec sig) (run_outcome old sig)"
proof -
  let ?at = "tallied old 0 0"
  have fail: "valid ?at (return (ssEnsureFail fresh_out e)) (run_outcome old sig)" for e
    by (rule valid_return) (simp add: ssEnsureFail_def tallied_def run_outcome_def)
  have tail: "valid (outcome old r) (case r of Inl out \<Rightarrow> return out
      | Inr out \<Rightarrow> (\<lambda>s. return out (s\<lparr>ensuredSig := sig\<rparr>))) (run_outcome old sig)" for r
    by (cases r) (auto simp: valid_def return_def outcome_def tallied_def run_outcome_def)
  have start: "valid ?at (ensure_groups numstr call ds spec gs fresh_out) (outcome old)" for ds gs
    using ensure_groups_valid[of fresh_out old] by (simp add: fresh_out_def)
  have member: "valid ?at (member v k) (\<lambda>_. ?at)" for v k
    by (rule valid_member)
  show ?thesis
    unfolding ensure_run_def
    by (rule valid_bind[OF bridge_list], simp, rule valid_bind[OF bridge_list], simp,
        rule valid_bind[OF member], rule valid_bind[where R = "\<lambda>_. ?at"], rule valid_if,
        rule member, rule valid_return, assumption, rule valid_if,
        rule valid_bind[where R = "\<lambda>_. ?at"], rule valid_if, rule valid_return, assumption,
        rule member, rule fail, rule valid_bind[OF valid_list_of[of ?at]],
        rule valid_bind[OF valid_list_of[of ?at]], rule valid_bind[OF start tail])
qed

lemma ensureDashboard_ran:
  assumes "ensureDashboard numstr stringify call spec s = (Inr out, s')"
    and "spec \<noteq> []" and "ensuredSig s \<noteq> stringify (Arr spec)" and "I 0 0 (host s)"
  shows "run_outcome (ensuredSig s) (stringify (Arr spec)) out s'"
proof -
  have "ensure_run numstr call spec (stringify (Arr spec)) s = (Inr out, s')"
    using assms(1-3) unfolding ensureDashboard_def Let_def by (simp split: if_splits)
  moreover have "tallied (ensuredSig s) 0 0 s" using assms(4) by (simp add: tallied_def)
  ultimately show ?thesis using ensure_run_valid unfolding valid_def by blast
qed

end

context dashboard_host
begin

lemma run_sig: "run_outcome old sig out s \<Longrightarrow> ensuredSig s = (if out_ok out then sig else old)"
  by (simp add: run_outcome_def tallied_def split: if_splits)

lemma run_counts:
  "\<lbrakk>run_outcome old sig out s; out_ok out\<rbrakk>
   \<Longrightarrow> I (createdGroups out) (createdDatasets out) (host s)"
  by (simp add: run_outcome_def tallied_def)

end

text \<open>Any host counts as one that keeps no count; and a host with a log of its requests counts
the requests to add.\<close>

interpretation any_host: dashboard_host call "\<lambda>_ _ _. True" for call
  by unfold_locales simp_all

definition logged :: "'h gateway \<Rightarrow> ('h \<times> string list) gateway" where
  "logged call m ps h = (let (r, g) = call m ps (fst h) in (r, (g, snd h @ [m])))"

definition counted :: "nat \<Rightarrow> nat \<Rightarrow> 'h \<times> string list \<Rightarrow> bool" where
  "counted g d h \<longleftrightarrow> count_list (snd h) ''project.group.add'' = g
     \<and> count_list (snd h) ''project.dataset.addMany'' = d
     \<and> set (snd h) \<subseteq> {''project.group.list'', ''project.dataset.list'', ''project.group.add'',
          ''project.dataset.addMany'', ''project.dataset.update''}"

interpretation logging_host: dashboard_host "logged call" counted for call
  by unfold_locales (auto simp: logged_def counted_def split: prod.splits)

lemma ensure_success_remembered:
  assumes "ensureDashboard numstr stringify call spec s = (Inr out, s')" and "spec \<noteq> []"
  shows "ensuredSig s' = (if out_ok out then stringify (Arr spec) else ensuredSig s)"
proof (cases "ensuredSig s = stringify (Arr spec)")
  case True
  then show ?thesis
    using assms unfolding ensureDashboard_def Let_def by (auto simp: fresh_out_def return_def)
next
  case False
  then show ?thesis
    using any_host.run_sig[OF any_host.ensureDashboard_ran[OF assms False]] by simp
qed

text \<open>A dashboard that is in place is left alone: the second call makes no request.\<close>

lemma ensure_again:
  assumes "ensureDashboard numstr stringify call spec s = (Inr out, s')" and "out_ok out"
  shows "ensureDashboard numstr stringify call spec s' = (Inr fresh_out, s')"
proof (cases "spec = []")
  case False
  then show ?thesis
    using ensure_success_remembered[OF assms(1)] assms(2)
    by (simp add: ensureDashboard_def return_def)
qed (simp add: ensureDashboard_def return_def)

lemma ensure_counts:
  assumes "ensureDashboard numstr stringify (logged call) spec s = (Inr out, s')" and "out_ok out"
    and "spec \<noteq> []" and "ensuredSig s \<noteq> stringify (Arr spec)" and "snd (host s) = []"
  shows "counted (createdGroups out) (createdDatasets out) (host s')"
  using logging_host.run_counts[OF logging_host.ensureDashboard_ran[OF assms(1,3,4)] assms(2)]
    assms(5)
  by (simp add: counted_def)

section \<open>What the encoders write\<close>

lemma and_mask16: "bit_and n 65535 = n mod 65536"
  using bit_and_mask[of 16 n] by (simp add: mask_eq_exp_minus_1)

lemma and_mask29: "bit_and n 536870911 = n mod 536870912"
  using bit_and_mask[of 29 n] by (simp add: mask_eq_exp_minus_1)

lemma and_mask11: "bit_and n 2047 = n mod 2048"
  using bit_and_mask[of 11 n] by (simp add: mask_eq_exp_minus_1)

lemma and_mask5: "bit_and n 31 = n mod 32"
  using bit_and_mask[of 5 n] by (simp add: mask_eq_exp_minus_1)

lemmas masks = and_mask16 and_mask29 and_mask11 and_mask5 and_255

lemma to_int32_mod16 [simp]: "to_int32 (n mod 65536) = n mod 65536"
  by (rule to_int32_small) (auto intro: order_trans[of _ 0] less_trans[of _ 65536])

lemma to_int32_mod29 [simp]: "to_int32 (n mod 536870912) = n mod 536870912"
  by (rule to_int32_small) (auto intro: order_trans[of _ 0] less_trans[of _ 536870912])

lemma div_256_range: "\<lbrakk>0 \<le> m; m < 65536\<rbrakk> \<Longrightarrow> 0 \<le> m div 256 \<and> m div 256 < (256 :: int)"
  by auto

lemma word_high: "0 \<le> n mod 65536 div 256" "n mod 65536 div 256 < (256 :: int)"
  using div_256_range[of "n mod 65536"] by simp_all

lemma high_byte: "n mod 65536 div 256 mod 256 = (n :: int) mod 65536 div 256"
  using word_high[of n] by (rule mod_pos_pos_trivial)

lemma byte_code [simp]: "n mod 256 mod 65536 = (n :: int) mod 256"
  by (rule mod_pos_pos_trivial) (auto intro: less_trans[of _ 256])

text \<open>The big-endian bytes of a 16-bit word.\<close>

definition word_bytes :: "int \<Rightarrow> int list" where
  "word_bytes n = [n mod 65536 div 256, n mod 256]"

lemma two_bytes:
  "fromCharCode [bit_and (sar (bit_and n 0xFFFF) 8) 0xFF, bit_and (bit_and n 0xFFFF) 0xFF]
   = word_bytes n"
  using high_byte[of n] byte_code[of "n mod 65536 div 256"]
  by (simp add: masks sar_eq fromCharCode_def word_bytes_def mod_mod_cancel)

lemma fromCharCode_append: "fromCharCode (xs @ ys) = fromCharCode xs @ fromCharCode ys"
  by (simp add: fromCharCode_def)

lemma modbusWriteRegister_bytes:
  "modbusWriteRegister address value unit
   = ssModbusUnit unit @ word_bytes address @ word_bytes (math_round value)"
  unfolding modbusWriteRegister_def Let_def two_bytes [symmetric]
  by (simp add: fromCharCode_def)

lemma registerBytes_words:
  "registerBytes vs = concat (map (\<lambda>v. word_bytes (math_round v)) vs)"
  by (induction vs) (simp_all add: Let_def two_bytes)

lemma modbusWriteRegisters_bytes:
  "modbusWriteRegisters address values unit = ssModbusUnit unit @ word_bytes address
     @ concat (map (\<lambda>v. word_bytes (math_round v)) values)"
  by (simp add: modbusWriteRegisters_def Let_def two_bytes registerBytes_words)

lemma word_bytes_value:
  "word_bytes n = [h, l] \<Longrightarrow> 256 * h + l = n mod 65536 \<and> 0 \<le> h \<and> h < 256 \<and> 0 \<le> l \<and> l < 256"
proof -
  assume "word_bytes n = [h, l]"
  then have h: "h = n mod 65536 div 256" and l: "l = n mod 65536 mod 256"
    by (simp_all add: word_bytes_def mod_mod_cancel)
  have "256 * h + l = n mod 65536" unfolding h l by (rule mult_div_mod_eq)
  then show ?thesis using word_high[of n] h l by simp
qed

text \<open>How the CAN driver's payload is read: identifier, length and data.\<close>

definition can_decode :: "int list \<Rightarrow> bool \<times> int \<times> int \<times> int list" where
  "can_decode bs = (case bs of
     a # b # c # rest \<Rightarrow>
       (if a \<ge> 128 then (case rest of d # n # data \<Rightarrow>
            (True, (a - 128) * 16777216 + b * 65536 + c * 256 + d, n, data) | _ \<Rightarrow> (True, -1, 0, []))
        else (False, a * 256 + b, c, rest))
   | _ \<Rightarrow> (False, -1, 0, []))"

lemma bit_or_flag: "\<lbrakk>0 \<le> x; x < 128\<rbrakk> \<Longrightarrow> bit_or 128 x = 128 + x"
  using bit_or_low[of x 7 1] by (simp add: shl_eq to_int32_small)

lemma four_bytes:
  assumes "0 \<le> i" and "i < 536870912"
  shows "i div 16777216 mod 32 * 16777216 + i div 65536 mod 256 * 65536 + i div 256 mod 256 * 256
    + i mod 256 = (i :: int)"
proof -
  have "i div 16777216 < 32" "0 \<le> i div 16777216" using assms by auto
  then have a: "i div 16777216 mod 32 = i div 256 div 256 div 256" by (simp flip: zdiv_zmult2_eq)
  have b: "i div 65536 = i div 256 div 256" by (simp flip: zdiv_zmult2_eq)
  have digits: "q3 * 16777216 + r2 * 65536 + r1 * 256 + r0 = i"
    if "256 * q1 + r0 = i" "256 * q2 + r1 = q1" "256 * q3 + r2 = q2" for q1 q2 q3 r0 r1 r2
    using that by linarith
  show ?thesis unfolding a b by (rule digits) (rule mult_div_mod_eq)+
qed

lemma canSendFrame_decoded:
  assumes "0 \<le> i" and "i < 536870912" and "length (can_data p) < 65536"
  shows "can_decode (canSendFrame i p) = (i > 2047, i, int (length (can_data p)), can_data p)"
proof (cases "i > 2047")
  case True
  have e: "i mod 536870912 = i" using assms by simp
  define a b c d where "a = i div 16777216 mod 32" and "b = i div 65536 mod 256"
    and "c = i div 256 mod 256" and "d = i mod 256"
  have a: "0 \<le> a" "a < 128" by (auto simp: a_def intro: less_trans[of _ 32])
  have "a * 16777216 + b * 65536 + c * 256 + d = i"
    unfolding a_def b_def c_def d_def by (rule four_bytes[OF assms(1,2)])
  moreover have "fromCharCode [bit_or 128 a, b, c, d, int (length (can_data p))]
      = [128 + a, b, c, d, int (length (can_data p))]"
    using a assms(3) by (simp add: bit_or_flag fromCharCode_def b_def c_def d_def)
  moreover have "canSendFrame i p
      = fromCharCode [bit_or 128 a, b, c, d, int (length (can_data p))] @ can_data p"
  proof -
    have t: "to_int32 i = i" using to_int32_mod29[of i] by (simp only: e)
    have "sar i 24 = i div 16777216" "sar i 16 = i div 65536" "sar i 8 = i div 256"
      by (simp_all add: sar_eq t)
    then have "bit_and (sar i 24) 31 = a" "bit_and (sar i 16) 255 = b" "bit_and (sar i 8) 255 = c"
      "bit_and i 255 = d" "bit_and i 536870911 = i"
      by (simp_all only: masks a_def b_def c_def d_def e)
    then show ?thesis using True by (simp add: canSendFrame_def Let_def)
  qed
  ultimately show ?thesis using a True by (simp add: can_decode_def)
next
  case False
  then have e: "i mod 2048 = i" "to_int32 i = i" using assms by (simp_all add: to_int32_small)
  have "i div 256 < 8" "0 \<le> i div 256" using False assms by auto
  then show ?thesis
    using False assms mult_div_mod_eq[of 256 i]
    by (simp add: canSendFrame_def can_decode_def Let_def masks sar_eq e fromCharCode_def)
qed

lemma newFrame_cases:
  assumes "newFrame call src s = (Inr r, s')"
  shows "(r = Null \<and> lastFrameSeq s' = lastFrameSeq s)
    \<or> (truthy r \<and> truthy (get_prop r ''hasData'') \<and> lastFrameSeq s' = get_prop r ''sequence''
       \<and> \<not> strict_eq (get_prop r ''sequence'') (lastFrameSeq s))"
  using assms
  by (auto simp: newFrame_def bind_def bridge_def good_result_def member_def return_def throw_def
      Let_def split: if_splits prod.splits sum.splits)

section \<open>Properties\<close>

text \<open>\<^verbatim>\<open>newFrame()\<close> hands a frame to the script exactly once: it returns either null and
forgets nothing, or a frame with data whose sequence number differs from the last one handed out,
and remembers that number.\<close>

theorem newFrame_hands_out_once:
  assumes "newFrame call src s = (Inr r, s')"
  shows "(r = Null \<and> lastFrameSeq s' = lastFrameSeq s)
    \<or> (truthy r \<and> truthy (get_prop r ''hasData'') \<and> lastFrameSeq s' = get_prop r ''sequence''
       \<and> \<not> strict_eq (get_prop r ''sequence'') (lastFrameSeq s))"
  using assms by (rule newFrame_cases)

definition one_frame_host :: "unit gateway" where
  "one_frame_host m ps h = (Obj [(''ok'', Bool True),
     (''result'', Obj [(''hasData'', Bool True), (''sequence'', Num 7)])], h)"

theorem newFrame_hands_out_once_witness:
  "\<not> strict_eq (Num 7) (lastFrameSeq \<lparr>host = (), lastFrameSeq = Num 0, ensuredSig = []\<rparr>)"
proof -
  let ?r = "Obj [(''hasData'', Bool True), (''sequence'', Num 7)]"
  let ?s = "\<lparr>host = (), lastFrameSeq = Num 0, ensuredSig = []\<rparr>"
  have "newFrame one_frame_host Undefined ?s = (Inr ?r, ?s\<lparr>lastFrameSeq := Num 7\<rparr>)"
    by (simp add: newFrame_def one_frame_host_def bind_def bridge_def good_result_def member_def
        return_def get_prop_def props_def truthy_def strict_eq_def)
  then show ?thesis
    using newFrame_hands_out_once[of one_frame_host Undefined ?s ?r "?s\<lparr>lastFrameSeq := Num 7\<rparr>"]
    by (simp add: get_prop_def props_def)
qed

text \<open>C5: \<^verbatim>\<open>ensureDashboard()\<close> remembers the specification only when it succeeded; after a
failure the next call tries again.\<close>

theorem ensureDashboard_remembers_success:
  assumes "ensureDashboard numstr stringify call spec s = (Inr out, s')" and "spec \<noteq> []"
  shows "ensuredSig s' = (if out_ok out then stringify (Arr spec) else ensuredSig s)"
  using assms by (rule ensure_success_remembered)

definition refusing_host :: "unit gateway" where
  "refusing_host m ps h = (Obj [(''ok'', Bool False), (''error'', Str ''no project'')], h)"

theorem ensureDashboard_remembers_success_witness:
  "ensuredSig (snd (ensureDashboard (\<lambda>_. []) (\<lambda>_. ''sig'') refusing_host [Obj []]
     \<lparr>host = (), lastFrameSeq = Num 0, ensuredSig = ''old''\<rparr>)) = ''old''"
proof -
  let ?s = "\<lparr>host = (), lastFrameSeq = Num 0, ensuredSig = ''old''\<rparr>"
  let ?out = "ssEnsureFail fresh_out (Str ''no project'')"
  have "ensureDashboard (\<lambda>_. []) (\<lambda>_. ''sig'') refusing_host [Obj []] ?s = (Inr ?out, ?s)"
    by (simp add: ensureDashboard_def ensure_run_def refusing_host_def bind_def bridge_def
        member_def return_def get_prop_def props_def truthy_def)
  then show ?thesis
    using ensureDashboard_remembers_success[of "\<lambda>_. []" "\<lambda>_. ''sig''" refusing_host "[Obj []]" ?s
        ?out ?s]
    by (simp add: ssEnsureFail_def)
qed

text \<open>C4: Once \<^verbatim>\<open>ensureDashboard()\<close> succeeded for a specification, calling it again with the same
specification makes no request and changes nothing.\<close>

theorem ensureDashboard_idempotent:
  assumes "ensureDashboard numstr stringify call spec s = (Inr out, s')" and "out_ok out"
  shows "ensureDashboard numstr stringify call spec s' = (Inr fresh_out, s')"
  using assms by (rule ensure_again)

definition empty_project_host :: "unit gateway" where
  "empty_project_host m ps h = (if m = ''project.group.list''
     then (Obj [(''ok'', Bool True), (''result'', Obj [(''groups'', Arr [Obj [(''title'', Str ''A''),
             (''groupId'', Num 0)]])])], h)
     else (Obj [(''ok'', Bool True), (''result'', Obj [(''datasets'', Arr [])])], h))"

abbreviation spec_A :: "jsval list" where
  "spec_A \<equiv> [Obj [(''title'', Str ''A'')]]"

lemma ensure_spec_A:
  "ensureDashboard (\<lambda>_. []) (\<lambda>_. ''sig'') empty_project_host spec_A
     \<lparr>host = (), lastFrameSeq = Num 0, ensuredSig = []\<rparr>
   = (Inr fresh_out, \<lparr>host = (), lastFrameSeq = Num 0, ensuredSig = ''sig''\<rparr>)"
  by (simp add: ensureDashboard_def ensure_run_def empty_project_host_def bind_def bridge_def
      member_def return_def get_prop_def props_def truthy_def list_of_def or_else_def elements_def
      find_or_add_group_def strict_eq_def negative_def Let_def)

theorem ensureDashboard_idempotent_witness:
  "ensureDashboard (\<lambda>_. []) (\<lambda>_. ''sig'') empty_project_host spec_A
     \<lparr>host = (), lastFrameSeq = Num 0, ensuredSig = ''sig''\<rparr>
   = (Inr fresh_out, \<lparr>host = (), lastFrameSeq = Num 0, ensuredSig = ''sig''\<rparr>)"
  by (rule ensureDashboard_idempotent[OF ensure_spec_A]) (simp add: fresh_out_def)

text \<open>On success the counters \<^verbatim>\<open>createdGroups\<close> and \<^verbatim>\<open>createdDatasets\<close> are the numbers of add
requests that \<^verbatim>\<open>ensureDashboard()\<close> made of the application, and it makes no request but list, add
and update.\<close>

theorem ensureDashboard_counts_requests:
  assumes "ensureDashboard numstr stringify (logged call) spec s = (Inr out, s')" and "out_ok out"
    and "spec \<noteq> []" and "ensuredSig s \<noteq> stringify (Arr spec)" and "snd (host s) = []"
  shows "counted (createdGroups out) (createdDatasets out) (host s')"
  using assms by (rule ensure_counts)

theorem ensureDashboard_counts_requests_witness:
  "counted 0 0 ((), [''project.group.list'', ''project.dataset.list''])"
proof -
  let ?s = "\<lparr>host = ((), []), lastFrameSeq = Num 0, ensuredSig = []\<rparr>"
  let ?t = "\<lparr>host = ((), [''project.group.list'', ''project.dataset.list'']), lastFrameSeq = Num 0,
    ensuredSig = ''sig''\<rparr>"
  have "ensureDashboard (\<lambda>_. []) (\<lambda>_. ''sig'') (logged empty_project_host) spec_A ?s
      = (Inr fresh_out, ?t)"
    by (simp add: ensureDashboard_def ensure_run_def empty_project_host_def bind_def bridge_def
      member_def return_def get_prop_def props_def truthy_def list_of_def or_else_def elements_def
      find_or_add_group_def strict_eq_def negative_def Let_def logged_def)
  then show ?thesis
    using ensureDashboard_counts_requests[of "\<lambda>_. []" "\<lambda>_. ''sig''" empty_project_host spec_A ?s
        fresh_out ?t]
    by (simp add: fresh_out_def)
qed

text \<open>The Modbus register writes send the address and each value as big-endian 16-bit words,
modulo 65536, after the unit marker when a unit is given.\<close>

theorem modbus_register_layout:
  "modbusWriteRegister address value unit
     = ssModbusUnit unit @ word_bytes address @ word_bytes (math_round value)
   \<and> modbusWriteRegisters address values unit
     = ssModbusUnit unit @ word_bytes address @ concat (map (\<lambda>v. word_bytes (math_round v)) values)"
  by (simp add: modbusWriteRegister_bytes modbusWriteRegisters_bytes)

text \<open>A CAN payload carries the identifier (11 bits, or 29 bits with the extended flag), the
length and the data so that the driver's decoding recovers them.\<close>

theorem can_frame_roundtrip:
  assumes "0 \<le> i" and "i < 536870912" and "length (can_data p) < 65536"
  shows "can_decode (canSendFrame i p) = (i > 2047, i, int (length (can_data p)), can_data p)"
  using assms by (rule canSendFrame_decoded)

theorem can_frame_roundtrip_witness:
  "can_decode (canSendFrame 0x18DAF110 (Numbers [2, 16])) = (True, 0x18DAF110, 2, [2, 16])"
proof -
  have "can_data (Numbers [2, 16]) = [2, 16]"
    by (simp add: can_data_def fromCharCode_def masks)
  then show ?thesis using can_frame_roundtrip[of "0x18DAF110" "Numbers [2, 16]"] by simp
qed

end
