(* ===== verification/Key_Tables.thy ===== *)
theory Key_Tables
  imports Javascript
begin

text \<open>
  The table most parser scripts keep: a \<^verbatim>\<open>keyToIndexMap\<close> from names to indices and an array
  of \<^verbatim>\<open>numItems\<close> values, which a frame updates by the names it mentions.

  \<^item> \<open>store_known\<close> is the statement the scripts share,
    \<^verbatim>\<open>if (keyToIndexMap.hasOwnProperty(key)) parsedValues[keyToIndexMap[key]] = value\<close>.
  \<^item> The locale \<open>key_table\<close> states what such a table has to satisfy (no index used twice, every index
    inside the array) and shows what a sequence of stores leaves behind: the array keeps its length,
    and each index holds the last value stored under its name.
\<close>

definition store_known :: "(string \<times> nat) list \<Rightarrow> string \<Rightarrow> jsval \<Rightarrow> jsval list \<Rightarrow> jsval list" where
  "store_known keys k v vs = (case map_of keys k of Some i \<Rightarrow> set_element vs i v | None \<Rightarrow> vs)"

definition store_all :: "(string \<times> nat) list \<Rightarrow> (string \<times> jsval) list \<Rightarrow> jsval list \<Rightarrow> jsval list" where
  "store_all keys kvs vs = fold (\<lambda>(k, v). store_known keys k v) kvs vs"

lemma store_all_simps [simp]:
  "store_all keys [] vs = vs"
  "store_all keys ((k, v) # kvs) vs = store_all keys kvs (store_known keys k v vs)"
  "store_all keys (kvs @ kvs') vs = store_all keys kvs' (store_all keys kvs vs)"
  by (simp_all add: store_all_def)

lemma map_of_rev_distinct: "distinct (map fst kvs) \<Longrightarrow> map_of (rev kvs) = map_of kvs"
  by (rule map_of_eqI) (auto simp: rev_map[symmetric] distinct_map map_of_eq_Some_iff)

locale key_table =
  fixes keys :: "(string \<times> nat) list" and size :: nat
  assumes indices_small: "list_all (\<lambda>(k, i). i < size) keys"
    and indices_distinct: "distinct (map snd keys)"
begin

lemma index_small: "map_of keys k = Some i \<Longrightarrow> i < size"
  using indices_small by (auto simp: list_all_iff dest!: map_of_SomeD)

lemma index_inj: "map_of keys k = Some i \<Longrightarrow> map_of keys k' = Some i \<Longrightarrow> k = k'"
  using indices_distinct by (fastforce simp: distinct_map inj_on_def dest!: map_of_SomeD)

lemma store_length [simp]: "length vs = size \<Longrightarrow> length (store_known keys k v vs) = size"
  by (auto simp: store_known_def index_small split: option.split)

lemma store_at:
  "\<lbrakk>length vs = size; map_of keys k' = Some i\<rbrakk>
   \<Longrightarrow> store_known keys k v vs ! i = (if k = k' then v else vs ! i)"
  using index_small[of k'] index_small[of k] index_inj[of k i k']
  by (cases "map_of keys k") (auto simp: store_known_def set_element_def nth_list_update)

lemma store_all_length [simp]: "length vs = size \<Longrightarrow> length (store_all keys kvs vs) = size"
  by (induction kvs arbitrary: vs) auto

lemma store_all_at:
  assumes "length vs = size" and "map_of keys k = Some i"
  shows "store_all keys kvs vs ! i = (case map_of (rev kvs) k of Some v \<Rightarrow> v | None \<Rightarrow> vs ! i)"
proof (induction kvs rule: rev_induct)
  case (snoc kv kvs)
  then show ?case
    using assms by (cases kv) (auto simp: store_at split: option.split)
qed simp

lemma store_all_unknown: "map_of keys k = None \<Longrightarrow> store_known keys k v vs = vs"
  by (simp add: store_known_def)

end

end
