(* ===== verification/Messagepack.thy ===== *)
theory Messagepack
  imports Key_Tables
begin

text \<open>
  The MessagePack parser script (\<^verbatim>\<open>parser/js/messagepack.js\<close>).

  \<^item> \<open>decodeMessagePack\<close> is the recursive decoder on the whole frame and an offset.  Each nested call
    starts at a larger offset, so a nesting depth of the number of bytes left is never used up:
    \<open>decode_depth\<close> takes that depth as fuel and \<open>decode_enough\<close> shows that more does not change
    the result.  The depth of the host's call stack is not modelled.
  \<^item> Objects have the property names the decoder writes; a name is what \<open>key\<close> (the language's
    conversion of a value to a property name) makes of the decoded key.  The name
    \<^verbatim>\<open>__proto__\<close>, which sets the prototype of the object instead, is not treated apart.
  \<^item> \<open>packs\<close> is the part of the MessagePack specification that the decoder gets right: which byte
    sequences stand for which value.  Every one of them is decoded to its value, wherever it stands
    in the frame, and the offset ends behind it.  Two formats of the script are in it only in part.
    MessagePack strings are UTF-8 and the script makes one character of every byte, so \<open>packs\<close> has the
    ASCII ones.  Of the single-precision numbers it has those with an exponent from 1 to 254:
    zero, the subnormal numbers, infinities and NaN are decoded as if they were normal, to a value
    they do not stand for (\<open>float32_value\<close> says which).
\<close>

section \<open>The decoder\<close>

text \<open>Big-endian fields, put together with shifts.\<close>

definition mp_uint16 :: "byte list \<Rightarrow> nat \<Rightarrow> int" where
  "mp_uint16 bytes offset = bit_or (shl (rd bytes offset) 8) (rd bytes (offset + 1))"

definition mp_int32 :: "byte list \<Rightarrow> nat \<Rightarrow> int" where
  "mp_int32 bytes offset =
     bit_or (bit_or (bit_or (shl (rd bytes offset) 24) (shl (rd bytes (offset + 1)) 16))
       (shl (rd bytes (offset + 2)) 8)) (rd bytes (offset + 3))"

definition mp_float32 :: "byte list \<Rightarrow> nat \<Rightarrow> rat" where
  "mp_float32 bytes offset =
     (let b0 = rd bytes offset; b1 = rd bytes (offset + 1);
          b2 = rd bytes (offset + 2); b3 = rd bytes (offset + 3);
          sgn = (if bit_and b0 0x80 \<noteq> 0 then -1 else 1 :: rat);
          exponent = bit_or (shl (bit_and b0 0x7F) 1) (sar b1 7);
          mantissa = bit_or (bit_or (shl (bit_and b1 0x7F) 16) (shl b2 8)) b3
      in sgn * (1 + of_int mantissa / 0x800000) * (2 powi (exponent - 127)))"

text \<open>\<open>value > limit ? value - range : value\<close>; a value past the end of the frame stays
\<open>undefined\<close>.\<close>

definition mp_int8 :: "byte list \<Rightarrow> nat \<Rightarrow> jsval" where
  "mp_int8 bytes offset = (if offset < length bytes
     then (let v = rd bytes offset in NumI (if v > 127 then v - 256 else v)) else Undefined)"

definition mp_int16 :: "byte list \<Rightarrow> nat \<Rightarrow> int" where
  "mp_int16 bytes offset = (let v = mp_uint16 bytes offset in if v > 32767 then v - 65536 else v)"

text \<open>The loops over the elements of an array, the entries of a map and the characters of a
string; \<open>decode\<close> is the recursive call.\<close>

fun mp_items :: "(nat \<Rightarrow> jsval \<times> nat) \<Rightarrow> nat \<Rightarrow> nat \<Rightarrow> jsval list \<times> nat" where
  "mp_items decode 0 offset = ([], offset)"
| "mp_items decode (Suc n) offset =
     (let (v, offset) = decode offset; (vs, offset) = mp_items decode n offset in (v # vs, offset))"

fun mp_entries :: "(jsval \<Rightarrow> string) \<Rightarrow> (nat \<Rightarrow> jsval \<times> nat) \<Rightarrow> nat \<Rightarrow> nat
    \<Rightarrow> (string \<times> jsval) list \<Rightarrow> (string \<times> jsval) list \<times> nat" where
  "mp_entries key decode 0 offset kvs = (kvs, offset)"
| "mp_entries key decode (Suc n) offset kvs =
     (let (k, offset) = decode offset; (v, offset) = decode offset
      in mp_entries key decode n offset (assoc_put (key k) v kvs))"

definition mp_string :: "byte list \<Rightarrow> nat \<Rightarrow> nat \<Rightarrow> string \<times> nat" where
  "mp_string bytes offset n =
     (let bs = field bytes offset n in (map (\<lambda>b. char_of (unat b)) bs, offset + length bs))"

definition decode_step :: "(jsval \<Rightarrow> string) \<Rightarrow> (nat \<Rightarrow> jsval \<times> nat) \<Rightarrow> byte list \<Rightarrow> nat \<Rightarrow> jsval \<times> nat" where
  "decode_step key decode bytes offset =
     (if offset \<ge> length bytes then (Null, offset)
      else (let byte = rd bytes offset; offset = offset + 1 in
        if byte \<le> 0x7F then (NumI byte, offset)
        else if byte \<le> 0x8F then
          (let (kvs, offset) = mp_entries key decode (nat (bit_and byte 0x0F)) offset [] in (Obj kvs, offset))
        else if byte \<le> 0x9F then
          (let (vs, offset) = mp_items decode (nat (bit_and byte 0x0F)) offset in (Arr vs, offset))
        else if byte \<le> 0xBF then
          (let (s, offset) = mp_string bytes offset (nat (bit_and byte 0x1F)) in (Str s, offset))
        else if byte \<ge> 0xE0 then (NumI (byte - 256), offset)
        else if byte = 0xC0 then (Null, offset)
        else if byte = 0xC2 then (Bool False, offset)
        else if byte = 0xC3 then (Bool True, offset)
        else if byte = 0xCC then (element bytes offset, offset + 1)
        else if byte = 0xCD then (NumI (mp_uint16 bytes offset), offset + 2)
        else if byte = 0xCE then (NumI (shr_zero (mp_int32 bytes offset) 0), offset + 4)
        else if byte = 0xD0 then (mp_int8 bytes offset, offset + 1)
        else if byte = 0xD1 then (NumI (mp_int16 bytes offset), offset + 2)
        else if byte = 0xD2 then (NumI (mp_int32 bytes offset), offset + 4)
        else if byte = 0xCA then (Num (mp_float32 bytes offset), offset + 4)
        else if byte = 0xDC then
          (let (vs, offset) = mp_items decode (nat (mp_uint16 bytes offset)) (offset + 2) in (Arr vs, offset))
        else if byte = 0xDE then
          (let (kvs, offset) = mp_entries key decode (nat (mp_uint16 bytes offset)) (offset + 2) []
           in (Obj kvs, offset))
        else (Null, offset)))"

primrec decode_depth :: "(jsval \<Rightarrow> string) \<Rightarrow> nat \<Rightarrow> byte list \<Rightarrow> nat \<Rightarrow> jsval \<times> nat" where
  "decode_depth key 0 bytes offset = (Null, offset)"
| "decode_depth key (Suc depth) bytes offset =
     decode_step key (decode_depth key depth bytes) bytes offset"

definition decodeMessagePack :: "(jsval \<Rightarrow> string) \<Rightarrow> byte list \<Rightarrow> nat \<Rightarrow> jsval \<times> nat" where
  "decodeMessagePack key bytes offset = decode_depth key (length bytes - offset + 1) bytes offset"

section \<open>The parser\<close>

definition mp_keyToIndexMap :: "(string \<times> nat) list" where
  "mp_keyToIndexMap = [(''temperature'', 0), (''humidity'', 1), (''pressure'', 2), (''voltage'', 3)]"

definition mp_numItems :: nat where "mp_numItems = 8"

definition mp_parseMode :: string where "mp_parseMode = ''array''"

text \<open>The copy of the known keys in map mode.  A key called \<^verbatim>\<open>hasOwnProperty\<close> hides the function the
loop calls, which is an exception (\<open>None\<close>).\<close>

definition mp_known_keys :: "(string \<times> jsval) list \<Rightarrow> jsval list \<Rightarrow> jsval list option" where
  "mp_known_keys kvs parsedValues =
     (if ''hasOwnProperty'' \<in> fst ` set kvs then None
      else Some (store_all mp_keyToIndexMap kvs parsedValues))"

definition mp_parse :: "(jsval \<Rightarrow> string) \<Rightarrow> string \<Rightarrow> byte list \<Rightarrow> jsval list option" where
  "mp_parse key parseMode frame =
     (let decoded = fst (decodeMessagePack key frame 0) in
      if parseMode = ''array''
      then Some (case decoded of Arr vs \<Rightarrow> vs | _ \<Rightarrow> [decoded])
      else (let parsedValues = replicate mp_numItems (Num 0) in
        case decoded of Obj kvs \<Rightarrow> mp_known_keys kvs parsedValues | _ \<Rightarrow> Some parsedValues))"

section \<open>Depth\<close>

text \<open>A decoded value ends at or behind the offset it starts at.\<close>

lemma mp_items_forward:
  assumes "\<And>offset. offset \<le> snd (decode offset)"
  shows "offset \<le> snd (mp_items decode n offset)"
proof (induction n arbitrary: offset)
  case (Suc n)
  then show ?case using assms[of offset] by (auto simp: split_beta intro: order.trans)
qed simp

lemma mp_entries_forward:
  assumes "\<And>offset. offset \<le> snd (decode offset)"
  shows "offset \<le> snd (mp_entries key decode n offset kvs)"
proof (induction n arbitrary: offset kvs)
  case (Suc n)
  have "offset \<le> snd (decode (snd (decode offset)))" using assms order.trans by blast
  then show ?case using Suc order.trans by (fastforce simp: split_beta)
qed simp

lemma decode_step_forward:
  assumes "\<And>offset. offset \<le> snd (decode offset)"
  shows "offset \<le> snd (decode_step key decode bytes offset)"
proof -
  have "offset \<le> snd (mp_items decode n p)" if "offset \<le> p" for n p
    using that mp_items_forward[of decode p n, OF assms] by (rule order.trans)
  moreover have "offset \<le> snd (mp_entries key decode n p kvs)" if "offset \<le> p" for n p kvs
    using that mp_entries_forward[of decode p key n kvs, OF assms] by (rule order.trans)
  ultimately show ?thesis by (simp add: decode_step_def mp_string_def Let_def split_beta)
qed

lemma decode_depth_forward: "offset \<le> snd (decode_depth key depth bytes offset)"
  by (induction depth arbitrary: offset) (simp_all add: decode_step_forward)

text \<open>The loops only use the decoder from their start on.\<close>

lemma mp_items_cong:
  assumes "\<And>p. start \<le> p \<Longrightarrow> decode p = decode' p" and "\<And>p. p \<le> snd (decode p)" and "start \<le> offset"
  shows "mp_items decode n offset = mp_items decode' n offset"
  using assms(3)
proof (induction n arbitrary: offset)
  case (Suc n)
  then have "start \<le> snd (decode offset)" using assms(2) order.trans by blast
  then show ?case using Suc assms(1) by (simp add: split_beta)
qed simp

lemma mp_entries_cong:
  assumes "\<And>p. start \<le> p \<Longrightarrow> decode p = decode' p" and "\<And>p. p \<le> snd (decode p)" and "start \<le> offset"
  shows "mp_entries key decode n offset kvs = mp_entries key decode' n offset kvs"
  using assms(3)
proof (induction n arbitrary: offset kvs)
  case (Suc n)
  have 1: "start \<le> snd (decode offset)" using Suc.prems assms(2) order.trans by blast
  then have "start \<le> snd (decode (snd (decode offset)))" using assms(2) order.trans by blast
  then show ?case using 1 Suc assms(1) by (simp add: split_beta)
qed simp

lemma decode_step_cong:
  assumes "\<And>p. Suc offset \<le> p \<Longrightarrow> decode p = decode' p" and "\<And>p. p \<le> snd (decode p)"
  shows "decode_step key decode bytes offset = decode_step key decode' bytes offset"
proof -
  have "mp_items decode n p = mp_items decode' n p" if "Suc offset \<le> p" for n p
    using assms that by (rule mp_items_cong)
  moreover have "mp_entries key decode n p kvs = mp_entries key decode' n p kvs" if "Suc offset \<le> p" for n p kvs
    using assms that by (rule mp_entries_cong)
  ultimately show ?thesis by (simp add: decode_step_def Let_def)
qed

lemma decode_enough:
  "length bytes - offset < d \<Longrightarrow> length bytes - offset < d'
   \<Longrightarrow> decode_depth key d bytes offset = decode_depth key d' bytes offset"
proof (induction d arbitrary: d' offset)
  case (Suc d)
  then obtain e where d': "d' = Suc e" by (cases d') auto
  show ?case
  proof (cases "offset < length bytes")
    case True
    have "decode_depth key d bytes p = decode_depth key e bytes p" if "Suc offset \<le> p" for p
      by (rule Suc.IH) (use True that Suc.prems d' in linarith)+
    then show ?thesis
      unfolding d' decode_depth.simps by (rule decode_step_cong) (simp_all add: decode_depth_forward)
  qed (simp add: d' decode_step_def)
qed simp

lemma decode_recursion:
  "decodeMessagePack key bytes offset = decode_step key (decodeMessagePack key bytes) bytes offset"
proof -
  have "decode_step key (decode_depth key (length bytes - offset) bytes) bytes offset
      = decode_step key (decodeMessagePack key bytes) bytes offset"
  proof (cases "offset < length bytes")
    case True
    then have "decode_depth key (length bytes - offset) bytes p = decodeMessagePack key bytes p" if "Suc offset \<le> p" for p
      unfolding decodeMessagePack_def using that by (intro decode_enough) linarith+
    then show ?thesis by (rule decode_step_cong) (simp_all add: decode_depth_forward)
  qed (simp add: decode_step_def)
  then show ?thesis by (simp add: decodeMessagePack_def)
qed

section \<open>The format\<close>

text \<open>\<open>packs key v bs\<close>: the bytes \<open>bs\<close> stand for \<open>v\<close>.\<close>

definition float32_bytes :: "bool \<Rightarrow> nat \<Rightarrow> nat \<Rightarrow> byte list" where
  "float32_bytes neg e m = [word_of_nat (of_bool neg * 128 + e div 2),
     word_of_nat (e mod 2 * 128 + m div 65536), word_of_nat (m div 256), word_of_nat m]"

definition char_bytes :: "string \<Rightarrow> byte list" where
  "char_bytes s = map (\<lambda>c. word_of_nat (of_char c)) s"

inductive packs :: "(jsval \<Rightarrow> string) \<Rightarrow> jsval \<Rightarrow> byte list \<Rightarrow> bool" for key where
  fixint: "n < 128 \<Longrightarrow> packs key (NumI (int n)) [word_of_nat n]"
| negint: "n < 32 \<Longrightarrow> packs key (NumI (int n - 32)) [word_of_nat (224 + n)]"
| nil: "packs key Null [0xC0]"
| false: "packs key (Bool False) [0xC2]"
| true: "packs key (Bool True) [0xC3]"
| uint8: "packs key (NumI (uint a)) [0xCC, a]"
| uint16: "packs key (NumI (le_value [b, a])) [0xCD, a, b]"
| uint32: "packs key (NumI (le_value [d, c, b, a])) [0xCE, a, b, c, d]"
| int8: "packs key (NumI (twos 8 (uint a))) [0xD0, a]"
| int16: "packs key (NumI (twos 16 (le_value [b, a]))) [0xD1, a, b]"
| int32: "packs key (NumI (twos 32 (le_value [d, c, b, a]))) [0xD2, a, b, c, d]"
| float32: "0 < e \<Longrightarrow> e < 255 \<Longrightarrow> m < 8388608
    \<Longrightarrow> packs key (Num ((if neg then -1 else 1) * (1 + of_nat m / 8388608) * 2 powi (int e - 127)))
      (0xCA # float32_bytes neg e m)"
| fixstr: "length s < 32 \<Longrightarrow> list_all (\<lambda>c. of_char c < (128 :: nat)) s \<Longrightarrow> packs key (Str s) (word_of_nat (160 + length s) # char_bytes s)"
| fixarray: "list_all2 (packs key) vs bss \<Longrightarrow> length vs < 16
    \<Longrightarrow> packs key (Arr vs) (word_of_nat (144 + length vs) # concat bss)"
| array16: "list_all2 (packs key) vs bss \<Longrightarrow> length vs = 256 * unat a + unat b
    \<Longrightarrow> packs key (Arr vs) (0xDC # a # b # concat bss)"
| fixmap: "list_all2 (packs key) ks kss \<Longrightarrow> list_all2 (packs key) vs bss \<Longrightarrow> length ks = length vs
    \<Longrightarrow> distinct (map key ks) \<Longrightarrow> length vs < 16
    \<Longrightarrow> packs key (Obj (zip (map key ks) vs)) (word_of_nat (128 + length vs) # concat (map2 (@) kss bss))"
| map16: "list_all2 (packs key) ks kss \<Longrightarrow> list_all2 (packs key) vs bss \<Longrightarrow> length ks = length vs
    \<Longrightarrow> distinct (map key ks) \<Longrightarrow> length vs = 256 * unat a + unat b
    \<Longrightarrow> packs key (Obj (zip (map key ks) vs)) (0xDE # a # b # concat (map2 (@) kss bss))"

section \<open>Every packed value is decoded\<close>

definition stands :: "byte list \<Rightarrow> byte list \<Rightarrow> nat \<Rightarrow> bool" where
  "stands bs bytes offset \<longleftrightarrow> (\<exists>pre post. bytes = pre @ bs @ post \<and> length pre = offset)"

lemma stands_Cons:
  assumes "stands (x # bs) bytes offset"
  shows "offset < length bytes" "rd bytes offset = uint x" "stands bs bytes (offset + 1)"
proof -
  obtain pre post where b: "bytes = pre @ x # bs @ post" "length pre = offset"
    using assms by (auto simp: stands_def)
  then show "offset < length bytes" "rd bytes offset = uint x" by (auto simp: rd_def nth_append)
  have "bytes = (pre @ [x]) @ bs @ post" using b by simp
  then show "stands bs bytes (offset + 1)" unfolding stands_def using b(2) by fastforce
qed

lemma stands_append:
  assumes "stands (bs @ cs) bytes offset"
  shows "stands bs bytes offset" "stands cs bytes (offset + length bs)"
proof -
  obtain pre post where b: "bytes = pre @ bs @ cs @ post" "length pre = offset"
    using assms by (auto simp: stands_def)
  then show "stands bs bytes offset" unfolding stands_def by blast
  have "bytes = (pre @ bs) @ cs @ post" using b by simp
  then show "stands cs bytes (offset + length bs)" unfolding stands_def using b(2) by fastforce
qed

lemma stands_field: "stands bs bytes offset \<Longrightarrow> field bytes offset (length bs) = bs"
  by (auto simp: stands_def field_def)

text \<open>What the recursive calls have to do for a value, and the loops for lists of values.\<close>

definition decodes :: "(nat \<Rightarrow> jsval \<times> nat) \<Rightarrow> byte list \<Rightarrow> nat \<Rightarrow> jsval \<Rightarrow> byte list \<Rightarrow> bool" where
  "decodes decode bytes start v bs \<longleftrightarrow>
     (\<forall>offset \<ge> start. stands bs bytes offset \<longrightarrow> decode offset = (v, offset + length bs))"

lemma mp_items_decodes:
  assumes "list_all2 (decodes decode bytes start) vs bss" and "stands (concat bss) bytes offset"
    and "start \<le> offset"
  shows "mp_items decode (length vs) offset = (vs, offset + length (concat bss))"
  using assms
proof (induction vs bss arbitrary: offset rule: list_all2_induct)
  case (Cons v vs bs bss)
  have "decode offset = (v, offset + length bs)"
    using Cons stands_append(1)[of bs "concat bss" bytes offset] by (simp add: decodes_def)
  then show ?case
    using Cons.IH[of "offset + length bs"] Cons.prems stands_append(2)[of bs "concat bss" bytes offset] by simp
qed simp

lemma mp_entries_decodes:
  assumes "list_all2 (decodes decode bytes start) ks kss" and "list_all2 (decodes decode bytes start) vs bss"
    and "length ks = length vs" and "stands (concat (map2 (@) kss bss)) bytes offset" and "start \<le> offset"
  shows "mp_entries key decode (length vs) offset kvs
    = (fold (\<lambda>(k, v). assoc_put k v) (zip (map key ks) vs) kvs, offset + length (concat (map2 (@) kss bss)))"
  using assms
proof (induction ks kss arbitrary: vs bss offset kvs rule: list_all2_induct)
  case (Cons k ks kb kss)
  then obtain v vs' vb bss' where v: "vs = v # vs'" "bss = vb # bss'" by (auto simp: list_all2_Cons1 Suc_length_conv)
  let ?rest = "concat (map2 (@) kss bss')"
  have st: "stands (kb @ (vb @ ?rest)) bytes offset" using Cons.prems v by simp
  note s1 = stands_append[OF st] note s2 = stands_append[OF s1(2)]
  have "decode offset = (k, offset + length kb)" using Cons s1 by (simp add: decodes_def)
  moreover have "decode (offset + length kb) = (v, offset + length kb + length vb)"
    using Cons.prems v s2 by (simp add: decodes_def)
  ultimately show ?case
    using Cons.IH[of vs' bss' "offset + length kb + length vb"] Cons.prems v s2 by (simp add: add.assoc)
qed simp

lemma assoc_put_fresh: "k \<notin> fst ` set kvs \<Longrightarrow> assoc_put k v kvs = kvs @ [(k, v)]"
  by (induction kvs) auto

lemma fold_assoc_put:
  "length ns = length vs \<Longrightarrow> distinct (map fst kvs @ ns)
   \<Longrightarrow> fold (\<lambda>(k, v). assoc_put k v) (zip ns vs) kvs = kvs @ zip ns vs"
proof (induction ns vs arbitrary: kvs rule: list_induct2)
  case (Cons n ns v vs)
  then have "assoc_put n v kvs = kvs @ [(n, v)]" by (intro assoc_put_fresh) auto
  then show ?case using Cons by auto
qed simp

lemma byte_of_nat: "n < 256 \<Longrightarrow> uint (word_of_nat n :: byte) = int n"
  by (simp add: unsigned_of_nat take_bit_eq_mod of_nat_mod)

lemma uint_byte: "0 \<le> uint (a :: byte)" "uint (a :: byte) < 256"
  using uint_lt2p[of a] by simp_all

lemma low_bits: "bit_and n 15 = n mod 16" "bit_and n 31 = n mod 32" "bit_and n 127 = n mod 128"
  using bit_and_mask[of 4 n] bit_and_mask[of 5 n] bit_and_mask[of 7 n] by (simp_all add: mask_eq_exp_minus_1)

lemma mp_uint16_stands: "stands [a, b] bytes offset \<Longrightarrow> mp_uint16 bytes offset = le_value [b, a]"
proof -
  assume st: "stands [a, b] bytes offset"
  show ?thesis using stands_Cons[OF st] stands_Cons[OF stands_Cons(3)[OF st]]
    unfolding mp_uint16_def or_be16 by simp
qed

lemma mp_int32_stands:
  assumes "stands [a, b, c, d] bytes offset"
  shows "mp_int32 bytes offset = to_int32 (le_value [d, c, b, a])"
proof -
  note s = stands_Cons[OF assms] note s1 = stands_Cons[OF s(3)] note s2 = stands_Cons[OF s1(3)]
  note s3 = stands_Cons[OF s2(3)]
  show ?thesis
    unfolding mp_int32_def or_be32 using s s1 s2 s3
    by (intro arg_cong[of _ _ to_int32]) (simp add: algebra_simps numeral_eq_Suc)
qed

lemma shr_zero_0: "0 \<le> v \<Longrightarrow> v < 4294967296 \<Longrightarrow> shr_zero (to_int32 v) 0 = v"
  by (simp add: shr_zero_def to_int32_def take_bit_signed_take_bit take_bit_int_eq_self)

lemma decodes_header:
  assumes "uint x = u"
    and "\<And>offset. rd bytes offset = u \<Longrightarrow> offset < length bytes \<Longrightarrow> stands bs bytes (Suc offset)
      \<Longrightarrow> decode_step key (decodeMessagePack key bytes) bytes offset = (v, Suc offset + length bs)"
  shows "decodes (decodeMessagePack key bytes) bytes 0 v (x # bs)"
  unfolding decodes_def
proof (intro allI impI)
  fix offset assume st: "stands (x # bs) bytes offset"
  show "decodeMessagePack key bytes offset = (v, offset + length (x # bs))"
    using assms(2)[of offset] stands_Cons[OF st] assms(1) by (subst decode_recursion) simp
qed

lemma header_byte: "n < 256 - k \<Longrightarrow> uint (word_of_nat (k + n) :: byte) = int k + int n"
  using byte_of_nat[of "k + n"] by (simp only: of_nat_add)

lemma element_rd: "i < length bytes \<Longrightarrow> element bytes i = NumI (rd bytes i)"
  by (simp add: element_def rd_def)

lemma element_stands: "stands [a] bytes offset \<Longrightarrow> element bytes offset = NumI (uint a)"
  by (simp add: element_rd stands_Cons)

lemma top_bit:
  assumes "0 \<le> n" and "n < 256"
  shows "bit_and n 128 \<noteq> 0 \<longleftrightarrow> 128 \<le> n"
proof -
  have "bit_and n 128 = (n AND 2 ^ 7)" using assms by (simp add: bit_and_def to_int32_small)
  moreover have "bit n 7 \<longleftrightarrow> odd (n div 128)" by (simp add: bit_iff_odd)
  moreover have "n div 128 = (if 128 \<le> n then 1 else 0)" using assms by auto
  moreover have "(n AND 2 ^ 7) = 0 \<longleftrightarrow> \<not> bit n 7" by (rule and_exp_eq_0_iff_not_bit)
  ultimately show ?thesis by simp
qed

lemma three_bytes:
  assumes "0 \<le> x" "x < 128" "0 \<le> y" "y < 256" "0 \<le> z" "z < 256"
  shows "bit_or (bit_or (shl x 16) (y * 256)) z = x * 65536 + y * 256 + z"
proof -
  have "bit_or (shl x 16) (y * 256) = shl (256 * x + y) 8"
    using assms by (subst bit_or_low) (simp_all add: shl_eq to_int32_small algebra_simps)
  then show ?thesis using assms by (simp add: bit_or_low to_int32_small)
qed

lemma counts:
  assumes "n < 16"
  shows "nat (bit_and (144 + int n) 15) = n" "nat (bit_and (128 + int n) 15) = n"
proof -
  have "(144 + int n) mod 16 = (int n + 9 * 16) mod 16" "(128 + int n) mod 16 = (int n + 8 * 16) mod 16"
    by (simp_all add: add.commute)
  then show "nat (bit_and (144 + int n) 15) = n" "nat (bit_and (128 + int n) 15) = n"
    using assms by (simp_all only: low_bits mod_mult_self1) simp_all
qed

lemma count16:
  assumes "stands (a # b # r) bytes offset"
  shows "nat (mp_uint16 bytes offset) = 256 * unat a + unat b" "stands r bytes (Suc (Suc offset))"
proof -
  have st: "stands ([a, b] @ r) bytes offset" using assms by simp
  have "mp_uint16 bytes offset = uint b + 256 * uint a"
    using mp_uint16_stands[OF stands_append(1)[OF st]] by simp
  then show "nat (mp_uint16 bytes offset) = 256 * unat a + unat b"
    by (simp add: nat_add_distrib nat_mult_distrib)
  show "stands r bytes (Suc (Suc offset))" using stands_append(2)[OF st] by simp
qed

lemma small_bytes:
  "k + n < 256 \<Longrightarrow> uint (of_nat k + of_nat n :: byte) = int k + int n"
  "numeral j + n < 256 \<Longrightarrow> uint (numeral j + of_nat n :: byte) = numeral j + int n"
  using byte_of_nat[of "k + n"] byte_of_nat[of "numeral j + n"] by simp_all

lemma char_bytes_string: "map (\<lambda>b. char_of (unat b)) (char_bytes s) = s"
proof -
  have "unat (word_of_nat (of_char c) :: byte) = of_char c" for c
    by (simp add: unat_of_nat)
  then show ?thesis by (simp add: char_bytes_def comp_def map_idI)
qed

lemma float32_value:
  assumes "e < 256" and "m < 8388608" and st: "stands (float32_bytes neg e m) bytes offset"
  shows "mp_float32 bytes offset = (if neg then -1 else 1) * (1 + of_nat m / 8388608) * 2 powi (int e - 127)"
proof -
  have st: "stands [word_of_nat (of_bool neg * 128 + e div 2), word_of_nat (e mod 2 * 128 + m div 65536),
      word_of_nat (m div 256), word_of_nat m] bytes offset"
    using st by (simp add: float32_bytes_def)
  note s0 = stands_Cons[OF st] note s1 = stands_Cons[OF s0(3)] note s2 = stands_Cons[OF s1(3)]
  note s3 = stands_Cons[OF s2(3)]
  have b0: "rd bytes offset = of_bool neg * 128 + int e div 2"
    using assms(1) s0(2) by (cases neg) (simp_all add: byte_of_nat small_bytes zdiv_int)
  have "m div 65536 < 128" using assms(2) by simp
  then have "uint (word_of_nat (e mod 2 * 128 + m div 65536) :: byte) = int (e mod 2 * 128 + m div 65536)"
    by (intro byte_of_nat) linarith
  with s1(2) have b1: "rd bytes (offset + 1) = int e mod 2 * 128 + int m div 65536"
    by (simp only: of_nat_add of_nat_mult zdiv_int zmod_int of_nat_numeral)
  have b2: "rd bytes (offset + 2) = int m div 256 mod 256" and b3: "rd bytes (offset + 3) = int m mod 256"
    using s2(2) s3(2)
    by (simp_all add: unsigned_of_nat take_bit_eq_mod zdiv_int zmod_int numeral_3_eq_3)
  have e: "int e div 2 < 128" "0 \<le> int e div 2" and m: "0 \<le> int m div 65536" "int m div 65536 < 128"
    using assms(1,2) by simp_all
  have neg: "bit_and (rd bytes offset) 128 \<noteq> 0 \<longleftrightarrow> neg"
    using top_bit[of "rd bytes offset"] e unfolding b0 by (cases neg) simp_all
  have "bit_and (rd bytes offset) 127 = int e div 2"
    unfolding b0 low_bits using e by (cases neg) simp_all
  moreover have "sar (rd bytes (offset + 1)) 7 = int e mod 2"
    unfolding b1 using m by (simp add: sar_eq to_int32_small)
  ultimately have exponent: "bit_or (shl (bit_and (rd bytes offset) 127) 1) (sar (rd bytes (offset + 1)) 7) = int e"
    using assms(1) by (simp add: bit_or_low to_int32_small)
  have "bit_and (rd bytes (offset + 1)) 127 = int m div 65536"
    unfolding b1 low_bits using m by simp
  moreover have "shl (rd bytes (offset + 2)) 8 = (int m div 256 mod 256) * 256"
    unfolding b2 by (simp add: shl_eq to_int32_small)
  moreover have "int m div 65536 * 65536 + (int m div 256 mod 256) * 256 + int m mod 256 = int m"
  proof -
    have "int m mod 65536 = 256 * (int m div 256 mod 256) + int m mod 256"
      using zmod_zmult2_eq[of 256 "int m" 256] by simp
    then show ?thesis using div_mult_mod_eq[of "int m" 65536] by linarith
  qed
  ultimately have mantissa: "bit_or (bit_or (shl (bit_and (rd bytes (offset + 1)) 127) 16) (shl (rd bytes (offset + 2)) 8))
      (rd bytes (offset + 3)) = int m"
    unfolding b3 using m by (simp add: three_bytes)
  show ?thesis
    unfolding mp_float32_def Let_def exponent mantissa using neg by simp
qed

lemma float32_decodes:
  assumes "e < 256" and "m < 8388608"
  shows "decodes (decodeMessagePack key bytes) bytes 0
    (Num ((if neg then -1 else 1) * (1 + of_nat m / 8388608) * 2 powi (int e - 127))) (0xCA # float32_bytes neg e m)"
proof -
  have "length (float32_bytes neg e m) = 4" by (simp add: float32_bytes_def)
  with assms show ?thesis
    by (intro decodes_header[OF refl]) (simp add: decode_step_def Let_def float32_value)
qed

lemma packs_decodes: "packs key v bs \<Longrightarrow> decodes (decodeMessagePack key bytes) bytes 0 v bs"
proof (induction rule: packs.induct)
  case (fixint n)
  then show ?case by (intro decodes_header[OF byte_of_nat]) (simp_all add: decode_step_def Let_def)
next
  case (negint n)
  then show ?case by (intro decodes_header[OF header_byte]) (simp_all add: decode_step_def Let_def)
next
  case nil
  show ?case by (rule decodes_header[OF refl]) (simp add: decode_step_def Let_def)
next
  case false
  show ?case by (rule decodes_header[OF refl]) (simp add: decode_step_def Let_def)
next
  case true
  show ?case by (rule decodes_header[OF refl]) (simp add: decode_step_def Let_def)
next
  case (uint8 a)
  show ?case
    by (rule decodes_header[OF refl])
      (simp add: decode_step_def Let_def element_stands)
next
  case (uint16 b a)
  show ?case by (rule decodes_header[OF refl]) (simp add: decode_step_def Let_def mp_uint16_stands del: le_value.simps)
next
  case (uint32 d c b a)
  show ?case
    using le_value_range[of "[d, c, b, a]"]
    by (intro decodes_header[OF refl])
      (simp add: decode_step_def Let_def mp_int32_stands shr_zero_0 del: le_value.simps)
next
  case (int8 a)
  show ?case
    by (rule decodes_header[OF refl])
      (auto simp: decode_step_def Let_def mp_int8_def twos_def dest: stands_Cons)
next
  case (int16 b a)
  show ?case
    by (rule decodes_header[OF refl])
      (simp add: decode_step_def Let_def mp_int16_def twos16 mp_uint16_stands del: le_value.simps)
next
  case (int32 d c b a)
  show ?case
    using le_value_range[of "[d, c, b, a]"]
    by (intro decodes_header[OF refl])
      (simp add: decode_step_def Let_def mp_int32_stands to_int32_twos del: le_value.simps)
next
  case (float32 e m neg)
  then show ?case by (intro float32_decodes) linarith+
next
  case (fixstr s)
  have "(160 + int (length s)) mod 32 = (int (length s) + 5 * 32) mod 32" by (simp add: add.commute)
  then have "nat (bit_and (160 + int (length s)) 31) = length s"
    using fixstr by (simp only: low_bits mod_mult_self1) simp
  moreover have n: "length s = length (char_bytes s)" by (simp add: char_bytes_def)
  moreover have "mp_string bytes p (length s) = (s, p + length s)" if "stands (char_bytes s) bytes p" for p
    unfolding mp_string_def n by (simp add: stands_field[OF that] char_bytes_string Let_def)
  ultimately show ?case
    using fixstr by (intro decodes_header[OF header_byte]) (simp_all add: decode_step_def Let_def)
next
  case (fixarray vs bss)
  have "list_all2 (decodes (decodeMessagePack key bytes) bytes 0) vs bss"
    using fixarray.IH by (rule list_all2_mono) simp
  from mp_items_decodes[OF this] show ?case
    using fixarray.hyps
    by (intro decodes_header[OF header_byte]) (simp_all add: decode_step_def Let_def counts)
next
  case (array16 vs bss a b)
  have "list_all2 (decodes (decodeMessagePack key bytes) bytes 0) vs bss"
    using array16.IH by (rule list_all2_mono) simp
  from mp_items_decodes[OF this] show ?case
    using array16.hyps[symmetric]
    by (intro decodes_header[OF refl]) (simp add: decode_step_def Let_def count16)
next
  case (fixmap ks kss vs bss)
  have "list_all2 (decodes (decodeMessagePack key bytes) bytes 0) ks kss"
    "list_all2 (decodes (decodeMessagePack key bytes) bytes 0) vs bss"
    using fixmap.IH by (auto elim: list_all2_mono)
  from mp_entries_decodes[OF this fixmap.hyps(1)] show ?case
    using fixmap.hyps
    by (intro decodes_header[OF header_byte]) (simp_all add: decode_step_def Let_def counts fold_assoc_put)
next
  case (map16 ks kss vs bss a b)
  have "list_all2 (decodes (decodeMessagePack key bytes) bytes 0) ks kss"
    "list_all2 (decodes (decodeMessagePack key bytes) bytes 0) vs bss"
    using map16.IH by (auto elim: list_all2_mono)
  from mp_entries_decodes[OF this map16.hyps(1)] show ?case
    using map16.hyps(1,2) map16.hyps(3)[symmetric]
    by (intro decodes_header[OF refl]) (simp add: decode_step_def Let_def count16 fold_assoc_put)
qed

section \<open>Map mode\<close>

interpretation mp: key_table mp_keyToIndexMap mp_numItems
  by unfold_locales (simp_all add: mp_keyToIndexMap_def mp_numItems_def)

lemma pack_example:
  "packs key (Arr [Num 5, Str ''hi'', Num (-3)]) [0x93, 5, 0xA2, 0x68, 0x69, 0xFD]"
proof -
  have "list_all2 (packs key) [Num 5, Str ''hi'', Num (-3)] [[5], [0xA2, 0x68, 0x69], [0xFD]]"
    using packs.fixint[of 5 key] packs.fixstr[of "''hi''" key] packs.negint[of 29 key]
    by (simp add: char_bytes_def)
  from packs.fixarray[OF this] show ?thesis by simp
qed

section \<open>Properties\<close>

text \<open>C6: A byte sequence that stands for a value is decoded to that value, wherever it stands in the
frame, and decoding continues right behind it: nil, booleans, integers of up to 32 bits, arrays, maps,
strings of ASCII characters and normal single-precision numbers (exponents 1 to 254), nested in any way.  The
last conjunct says what the bytes of any single-precision number are decoded to: always the value of
a normal one, so those of 0, of a subnormal number, of an infinity and of NaN come out as something else.\<close>

theorem messagepack_decodes:
  assumes "packs key v bs"
  shows "decodeMessagePack key (pre @ bs @ post) (length pre) = (v, length pre + length bs)
    \<and> mp_parse key mp_parseMode (bs @ post) = Some (case v of Arr vs \<Rightarrow> vs | _ \<Rightarrow> [v])
    \<and> (\<forall>neg e m. e < 256 \<and> m < 8388608
        \<longrightarrow> fst (decodeMessagePack key (pre @ 0xCA # float32_bytes neg e m @ post) (length pre))
          = Num ((if neg then -1 else 1) * (1 + of_nat m / 8388608) * 2 powi (int e - 127)))"
proof -
  have "decodeMessagePack key (pre @ bs @ post) (length pre) = (v, length pre + length bs)" for pre
    using packs_decodes[OF assms, of "pre @ bs @ post"] unfolding decodes_def stands_def by blast
  note packed = this this[of "[]"]
  have "fst (decodeMessagePack key (pre @ 0xCA # float32_bytes neg e m @ post) (length pre))
      = Num ((if neg then -1 else 1) * (1 + of_nat m / 8388608) * 2 powi (int e - 127))"
    if "e < 256" and "m < 8388608" for neg e m
    using float32_decodes[OF that, of key "pre @ 0xCA # float32_bytes neg e m @ post" neg]
    unfolding decodes_def stands_def by (metis append_Cons fst_conv le0)
  with packed show ?thesis by (simp add: mp_parse_def mp_parseMode_def)
qed

theorem messagepack_decodes_witness:
  "mp_parse (\<lambda>_. []) mp_parseMode [0x93, 5, 0xA2, 0x68, 0x69, 0xFD] = Some [Num 5, Str ''hi'', Num (-3)]"
  using conjunct1[OF conjunct2[OF messagepack_decodes[OF pack_example, of _ "[]" "[]"]]] by simp

text \<open>The decoder returns on every frame, damaged ones included: it satisfies the recursion of
the script, and never moves the offset back.\<close>

theorem messagepack_returns:
  "decodeMessagePack key bytes offset = decode_step key (decodeMessagePack key bytes) bytes offset
   \<and> offset \<le> snd (decodeMessagePack key bytes offset)"
  using decode_recursion unfolding decodeMessagePack_def by (blast intro: decode_depth_forward)

text \<open>In map mode each known key of the map is stored at its index and the other values are 0.\<close>

theorem messagepack_map_mode:
  assumes "packs key (Obj kvs) frame" and "distinct (map fst kvs)" and "''hasOwnProperty'' \<notin> fst ` set kvs"
  shows "\<exists>vs. mp_parse key ''map'' frame = Some vs \<and> length vs = mp_numItems
    \<and> (\<forall>k i. map_of mp_keyToIndexMap k = Some i
        \<longrightarrow> vs ! i = (case map_of kvs k of Some v \<Rightarrow> v | None \<Rightarrow> Num 0))"
proof -
  have "decodeMessagePack key frame 0 = (Obj kvs, length frame)"
    using packs_decodes[OF assms(1), of frame] unfolding decodes_def stands_def by fastforce
  then show ?thesis
    using mp.store_all_at[of "replicate mp_numItems (Num 0)" _ _ kvs] assms(2,3) mp.index_small
    by (auto simp: mp_parse_def mp_known_keys_def map_of_rev_distinct cong: option.case_cong)
qed

theorem messagepack_map_mode_witness:
  "\<exists>vs. mp_parse (\<lambda>v. case v of Str s \<Rightarrow> s | _ \<Rightarrow> []) ''map''
      [0x81, 0xA7, 0x76, 0x6F, 0x6C, 0x74, 0x61, 0x67, 0x65, 12] = Some vs \<and> vs ! 3 = Num 12"
proof -
  let ?key = "\<lambda>v. case v of Str s \<Rightarrow> s | _ \<Rightarrow> []"
  have "packs ?key (Str ''voltage'') [0xA7, 0x76, 0x6F, 0x6C, 0x74, 0x61, 0x67, 0x65]"
    using packs.fixstr[of "''voltage''" ?key] by (simp add: char_bytes_def)
  moreover have "packs ?key (Num 12) [12]" using packs.fixint[of 12 ?key] by simp
  ultimately have "packs ?key (Obj [(''voltage'', Num 12)]) [0x81, 0xA7, 0x76, 0x6F, 0x6C, 0x74, 0x61, 0x67, 0x65, 12]"
    using packs.fixmap[of ?key "[Str ''voltage'']" "[[0xA7, 0x76, 0x6F, 0x6C, 0x74, 0x61, 0x67, 0x65]]"
        "[Num 12]" "[[12]]"] by simp
  from messagepack_map_mode[OF this] obtain vs
    where "mp_parse ?key ''map'' [0x81, 0xA7, 0x76, 0x6F, 0x6C, 0x74, 0x61, 0x67, 0x65, 12] = Some vs"
      and "\<forall>k i. map_of mp_keyToIndexMap k = Some i
        \<longrightarrow> vs ! i = (case map_of [(''voltage'', Num 12)] k of Some v \<Rightarrow> v | None \<Rightarrow> Num 0)"
    by auto
  moreover have "map_of mp_keyToIndexMap ''voltage'' = Some 3" by (simp add: mp_keyToIndexMap_def)
  ultimately show ?thesis by fastforce
qed

end
