(* ===== verification/Signal_Transforms.thy ===== *)
theory Signal_Transforms
  imports Javascript "HOL-Library.Multiset"
begin

text \<open>
  The value transforms (\<^verbatim>\<open>app/rcc/scripts/transforms/js\<close>): each script has a function
  \<^verbatim>\<open>transform(value)\<close> that is called on every sample of a dataset, and the variables it keeps
  between calls.

  \<^item> A script without variables is a function on samples.  A script with variables is a step function
    from a state (its variables; \<open>undefined\<close> is \<open>None\<close>) and a sample to the transformed
    sample and the next state; \<open>outputs\<close> runs it on a sequence of samples.
  \<^item> Samples are exact: rational numbers, and real numbers where the script calls \<^verbatim>\<open>Math.sqrt\<close>,
    \<^verbatim>\<open>Math.log\<close> or uses \<^verbatim>\<open>Math.PI\<close>.  The rounding of doubles, \<open>NaN\<close> and infinite samples
    are not modelled.
  \<^item> Two contracts are shared.  \<open>windowed_filter\<close>: the output is a function of the last \<open>N\<close>
    samples, whatever ring buffer and running sum the script keeps.  \<open>range_filter\<close>: the
    output stays inside every interval that holds the samples.
\<close>

section \<open>Scripts without state\<close>

definition absolute_value :: "rat \<Rightarrow> rat" where
  "absolute_value value = \<bar>value\<bar>"

definition invert_sign :: "rat \<Rightarrow> rat" where
  "invert_sign value = - value"

definition adc_to_voltage :: "rat \<Rightarrow> rat" where
  "adc_to_voltage value = (let v_ref = 33 / 10; resolution = 1024 in value * v_ref / resolution)"

definition bitIndex :: nat where "bitIndex = 0"

definition trunc :: "rat \<Rightarrow> int" where
  "trunc r = (if r < 0 then \<lceil>r\<rceil> else \<lfloor>r\<rfloor>)"

definition bit_extract :: "rat \<Rightarrow> int" where
  "bit_extract value = bit_and (sar (trunc value) bitIndex) 1"

definition celsius_to_fahrenheit :: "rat \<Rightarrow> rat" where
  "celsius_to_fahrenheit value = value * 9 / 5 + 32"

definition fahrenheit_to_celsius :: "rat \<Rightarrow> rat" where
  "fahrenheit_to_celsius value = (value - 32) * 5 / 9"

definition kelvin_to_celsius :: "rat \<Rightarrow> rat" where
  "kelvin_to_celsius value = value - 27315 / 100"

definition degrees_to_radians :: "real \<Rightarrow> real" where
  "degrees_to_radians value = value * pi / 180"

definition radians_to_degrees :: "real \<Rightarrow> real" where
  "radians_to_degrees value = value * 180 / pi"

definition clamp :: "rat \<Rightarrow> rat" where
  "clamp value = (let min_val = 0; max_val = 100 in max min_val (min max_val value))"

definition dead_zone :: "rat \<Rightarrow> rat" where
  "dead_zone value = (let threshold = 1 / 2 in if \<bar>value\<bar> < threshold then 0 else value)"

definition linear_calibration :: "rat \<Rightarrow> rat" where
  "linear_calibration value = (let slope = 1 / 100; offset = 27315 / 100 in slope * value + offset)"

definition map_range :: "rat \<Rightarrow> rat" where
  "map_range value = (let in_min = 0; in_max = 1023; out_min = 0; out_max = 5
     in (value - in_min) / (in_max - in_min) * (out_max - out_min) + out_min)"

definition polynomial_2nd :: "rat \<Rightarrow> rat" where
  "polynomial_2nd value = (let a = 1; b = 0; c = 0 in a * value * value + b * value + c)"

text \<open>\<^verbatim>\<open>Math.round\<close> rounds halves up.\<close>

definition round_decimals :: "rat \<Rightarrow> rat" where
  "round_decimals value = (let N = 2; factor = 10 ^ N in of_int \<lfloor>value * factor + 1 / 2\<rfloor> / factor)"

text \<open>\<open>None\<close> stands for \<^verbatim>\<open>-Infinity\<close>.\<close>

definition logarithmic_db :: "real \<Rightarrow> real option" where
  "logarithmic_db value = (if value \<le> 0 then None else Some (20 * log 10 value))"

text \<open>The data table of the project is the argument \<open>tableGet\<close>; an entry it does not have is
\<open>None\<close>.\<close>

definition table_calibration :: "(string \<Rightarrow> string \<Rightarrow> rat option) \<Rightarrow> rat \<Rightarrow> rat" where
  "table_calibration tableGet value =
     (let slope = (case tableGet ''calibration'' ''slope'' of None \<Rightarrow> 1 | Some v \<Rightarrow> v);
          offset = (case tableGet ''calibration'' ''offset'' of None \<Rightarrow> 0 | Some v \<Rightarrow> v)
      in slope * value + offset)"

text \<open>For readings strictly between 0 and the maximum, where no division by zero and no logarithm of a
number that is not positive occurs.\<close>

definition thermistor_steinhart :: "real \<Rightarrow> real" where
  "thermistor_steinhart value =
     (let R_series = 10000; R_nominal = 10000; adc_max = 1023;
          R = R_series * value / (adc_max - value);
          ln_R = ln (R / R_nominal);
          A = 1009249 / 10 ^ 9; B = 2378405 / 10 ^ 10; C = 2019202 / 10 ^ 13;
          inv_T = A + B * ln_R + C * ln_R * ln_R * ln_R
      in 1 / inv_T - 27315 / 100)"

section \<open>Scripts with one variable\<close>

definition accumulator :: "rat \<Rightarrow> rat \<Rightarrow> rat \<times> rat" where
  "accumulator tot value = (let tot = tot + value in (tot, tot))"

definition rate_of_change :: "rat option \<Rightarrow> rat \<Rightarrow> rat \<times> rat option" where
  "rate_of_change prev value =
     (let prev = (case prev of None \<Rightarrow> value | Some p \<Rightarrow> p) in (value - prev, Some value))"

definition running_max :: "rat option \<Rightarrow> rat \<Rightarrow> rat \<times> rat option" where
  "running_max maxValue value =
     (let m = (case maxValue of None \<Rightarrow> value | Some m \<Rightarrow> if value > m then value else m) in (m, Some m))"

definition running_min :: "rat option \<Rightarrow> rat \<Rightarrow> rat \<times> rat option" where
  "running_min minValue value =
     (let m = (case minValue of None \<Rightarrow> value | Some m \<Rightarrow> if value < m then value else m) in (m, Some m))"

definition ema_alpha :: rat where "ema_alpha = 1 / 10"

definition ema_step :: "rat option \<Rightarrow> rat \<Rightarrow> rat \<times> rat option" where
  "ema_step ema value =
     (let ema = (case ema of None \<Rightarrow> value | Some e \<Rightarrow> e);
          ema = ema_alpha * value + (1 - ema_alpha) * ema in (ema, Some ema))"

definition low_pass_alpha :: rat where "low_pass_alpha = 5 / 100"

definition low_pass :: "rat option \<Rightarrow> rat \<Rightarrow> rat \<times> rat option" where
  "low_pass filtered value =
     (let filtered = (case filtered of None \<Rightarrow> value | Some f \<Rightarrow> f);
          filtered = filtered + low_pass_alpha * (value - filtered) in (filtered, Some filtered))"

definition highThreshold :: rat where "highThreshold = 7"
definition lowThreshold :: rat where "lowThreshold = 3"

definition schmitt_trigger :: "int \<Rightarrow> rat \<Rightarrow> int \<times> int" where
  "schmitt_trigger state value =
     (let state = (if state = 0 \<and> value > highThreshold then 1
                   else if state = 1 \<and> value < lowThreshold then 0 else state) in (state, state))"

definition maxDelta :: rat where "maxDelta = 10"

definition slew_rate_limiter :: "rat option \<Rightarrow> rat \<Rightarrow> rat \<times> rat option" where
  "slew_rate_limiter prev value = (case prev of None \<Rightarrow> (value, Some value)
     | Some prev \<Rightarrow>
         (let delta = value - prev;
              prev = (if delta > maxDelta then prev + maxDelta
                      else if delta < - maxDelta then prev - maxDelta else value)
          in (prev, Some prev)))"

text \<open>The remainder \<^verbatim>\<open>%\<close> has the sign of the dividend.\<close>

definition js_rem :: "rat \<Rightarrow> rat \<Rightarrow> rat" where
  "js_rem a b = a - b * of_int (trunc (a / b))"

definition sampleRateHz :: rat where "sampleRateHz = 100"

definition integrate_rate :: "rat \<Rightarrow> rat \<Rightarrow> rat \<times> rat" where
  "integrate_rate angle value =
     (let dt = 1 / sampleRateHz;
          angle = angle + value * dt;
          angle = js_rem (js_rem (angle + 180) 360 + 360) 360 - 180
      in (angle, angle))"

section \<open>Scripts with several variables\<close>

record auto_zero_state =
  az_bias :: rat
  az_samplesCollected :: nat

definition warmupSamples :: nat where "warmupSamples = 50"

definition auto_zero_start :: auto_zero_state where
  "auto_zero_start = \<lparr>az_bias = 0, az_samplesCollected = 0\<rparr>"

definition auto_zero :: "auto_zero_state \<Rightarrow> rat \<Rightarrow> rat \<times> auto_zero_state" where
  "auto_zero s value =
     (if az_samplesCollected s < warmupSamples
      then (let n = of_nat (az_samplesCollected s) in
        (0, s\<lparr>az_bias := (az_bias s * n + value) / (n + 1),
              az_samplesCollected := az_samplesCollected s + 1\<rparr>))
      else (value - az_bias s, s))"

record high_pass_state =
  hp_prevInput :: "rat option"
  hp_prevOutput :: rat

definition high_pass_alpha :: rat where "high_pass_alpha = 9 / 10"

definition high_pass_start :: high_pass_state where
  "high_pass_start = \<lparr>hp_prevInput = None, hp_prevOutput = 0\<rparr>"

definition high_pass :: "high_pass_state \<Rightarrow> rat \<Rightarrow> rat \<times> high_pass_state" where
  "high_pass s value = (case hp_prevInput s of
     None \<Rightarrow> (0, s\<lparr>hp_prevInput := Some value\<rparr>)
   | Some prevInput \<Rightarrow>
       (let prevOutput = high_pass_alpha * (hp_prevOutput s + value - prevInput)
        in (prevOutput, \<lparr>hp_prevInput = Some value, hp_prevOutput = prevOutput\<rparr>)))"

record kalman_state =
  km_x :: "rat option"
  km_P :: rat

definition kalman_Q :: rat where "kalman_Q = 1 / 100"
definition kalman_R :: rat where "kalman_R = 1"

definition kalman_start :: kalman_state where
  "kalman_start = \<lparr>km_x = None, km_P = 1\<rparr>"

definition kalman_1d :: "kalman_state \<Rightarrow> rat \<Rightarrow> rat \<times> kalman_state" where
  "kalman_1d s value = (case km_x s of None \<Rightarrow> (value, s\<lparr>km_x := Some value\<rparr>)
     | Some x \<Rightarrow>
         (let P = km_P s + kalman_Q;
              K = P / (P + kalman_R);
              x = x + K * (value - x);
              P = (1 - K) * P
          in (x, \<lparr>km_x = Some x, km_P = P\<rparr>)))"

record unwrap_state =
  uw_prev :: "rat option"
  uw_offset :: rat

definition unwrap_start :: unwrap_state where
  "unwrap_start = \<lparr>uw_prev = None, uw_offset = 0\<rparr>"

definition unwrap_angle :: "unwrap_state \<Rightarrow> rat \<Rightarrow> rat \<times> unwrap_state" where
  "unwrap_angle s value = (case uw_prev s of None \<Rightarrow> (value, s\<lparr>uw_prev := Some value\<rparr>)
     | Some prev \<Rightarrow>
         (let delta = value - prev;
              offset = (if delta > 180 then uw_offset s - 360
                        else if delta < -180 then uw_offset s + 360 else uw_offset s)
          in (value + offset, \<lparr>uw_prev = Some value, uw_offset = offset\<rparr>)))"

section \<open>Scripts with a window\<close>

text \<open>The ring buffer of the last samples, and what each of the three scripts keeps beside it.\<close>

record history_ring =
  hr_history :: "rat list"
  hr_idx :: nat
  hr_count :: nat

definition ring_store :: "nat \<Rightarrow> rat \<Rightarrow> 'a history_ring_scheme \<Rightarrow> 'a history_ring_scheme" where
  "ring_store N v s = s\<lparr>hr_history := (hr_history s)[hr_idx s := v],
     hr_idx := (hr_idx s + 1) mod N,
     hr_count := (if hr_count s < N then hr_count s + 1 else hr_count s)\<rparr>"

record averager = history_ring +
  av_sum :: rat

definition average_N :: nat where "average_N = 10"

definition average_start :: averager where
  "average_start = \<lparr>hr_history = replicate average_N 0, hr_idx = 0, hr_count = 0, av_sum = 0\<rparr>"

definition moving_average :: "averager \<Rightarrow> rat \<Rightarrow> rat \<times> averager" where
  "moving_average s value =
     (let s = s\<lparr>av_sum := av_sum s - hr_history s ! hr_idx s + value\<rparr>;
          s = ring_store average_N value s
      in (av_sum s / of_nat (hr_count s), s))"

definition rms_N :: nat where "rms_N = 32"

definition rms_start :: averager where
  "rms_start = \<lparr>hr_history = replicate rms_N 0, hr_idx = 0, hr_count = 0, av_sum = 0\<rparr>"

definition rolling_rms :: "averager \<Rightarrow> rat \<Rightarrow> real \<times> averager" where
  "rolling_rms s value =
     (let sq = value * value;
          s = s\<lparr>av_sum := av_sum s - hr_history s ! hr_idx s + sq\<rparr>;
          s = ring_store rms_N sq s;
          s = (if av_sum s < 0 then s\<lparr>av_sum := 0\<rparr> else s)
      in (sqrt (of_rat (av_sum s / of_nat (hr_count s))), s))"

record median_state = history_ring +
  md_sorted :: "rat list"

definition median_N :: nat where "median_N = 5"

definition median_start :: median_state where
  "median_start = \<lparr>hr_history = replicate median_N 0, hr_idx = 0, hr_count = 0,
     md_sorted = replicate median_N 0\<rparr>"

text \<open>The binary search for the first of the sorted values that is not below \<open>v\<close>, and the two loops
that close and open a gap.\<close>

function lower_bound :: "rat list \<Rightarrow> rat \<Rightarrow> nat \<Rightarrow> nat \<Rightarrow> nat" where
  "lower_bound xs v lo hi =
     (if lo < hi
      then (let mid = (lo + hi) div 2 in
        if xs ! mid < v then lower_bound xs v (mid + 1) hi else lower_bound xs v lo mid)
      else lo)"
  by pat_completeness auto
termination
  by (relation "measure (\<lambda>(xs, v, lo, hi). hi - lo)") auto

declare lower_bound.simps [simp del]

definition close_gap :: "nat \<Rightarrow> nat \<Rightarrow> rat list \<Rightarrow> rat list" where
  "close_gap lo n xs = fold (\<lambda>i xs. xs[i := xs ! (i + 1)]) [lo..<n - 1] xs"

definition open_gap :: "nat \<Rightarrow> nat \<Rightarrow> rat list \<Rightarrow> rat list" where
  "open_gap lo n xs = fold (\<lambda>i xs. xs[i := xs ! (i - 1)]) (rev [lo + 1..<n + 1]) xs"

definition median_evict :: "median_state \<Rightarrow> median_state" where
  "median_evict s =
     (if hr_count s = median_N
      then (let old = hr_history s ! hr_idx s;
                lo = lower_bound (md_sorted s) old 0 (hr_count s)
            in s\<lparr>md_sorted := close_gap lo (hr_count s) (md_sorted s), hr_count := hr_count s - 1\<rparr>)
      else s)"

definition median_insert :: "rat \<Rightarrow> median_state \<Rightarrow> median_state" where
  "median_insert value s =
     (let lo = lower_bound (md_sorted s) value 0 (hr_count s)
      in s\<lparr>md_sorted := (open_gap lo (hr_count s) (md_sorted s))[lo := value], hr_count := hr_count s + 1\<rparr>)"

definition median_filter :: "median_state \<Rightarrow> rat \<Rightarrow> rat \<times> median_state" where
  "median_filter s value =
     (let s = median_insert value (median_evict s);
          s = s\<lparr>hr_history := (hr_history s)[hr_idx s := value], hr_idx := (hr_idx s + 1) mod median_N\<rparr>
      in (md_sorted s ! ((hr_count s - 1) div 2), s))"

section \<open>The ring of last samples\<close>

definition ring_ok :: "nat \<Rightarrow> 'a history_ring_scheme \<Rightarrow> bool" where
  "ring_ok N s \<longleftrightarrow> length (hr_history s) = N \<and> hr_idx s < N \<and> hr_count s \<le> N
     \<and> (hr_count s < N \<longrightarrow> hr_idx s = hr_count s)"

definition ring_window :: "nat \<Rightarrow> 'a history_ring_scheme \<Rightarrow> rat list" where
  "ring_window N s = (if hr_count s < N then take (hr_count s) (hr_history s)
     else drop (hr_idx s) (hr_history s) @ take (hr_idx s) (hr_history s))"

lemma length_ring_window: "ring_ok N s \<Longrightarrow> length (ring_window N s) = hr_count s"
  by (auto simp: ring_ok_def ring_window_def)

lemma take_last_snoc:
  "length w < N \<Longrightarrow> take_last N (w @ [v]) = w @ [v]"
  "length w = N \<Longrightarrow> 0 < N \<Longrightarrow> take_last N (w @ [v]) = tl w @ [v]"
  by (auto simp: take_last_def drop_Suc Suc_diff_le)

lemma ring_store_ok:
  assumes "ring_ok N s"
  shows "ring_ok N (ring_store N v s)"
    "ring_window N (ring_store N v s) = take_last N (ring_window N s @ [v])"
    "hr_count s = N \<Longrightarrow> ring_window N s = hr_history s ! hr_idx s # tl (ring_window N s)"
proof -
  note s = assms[unfolded ring_ok_def]
  then have N: "0 < N" "Suc (hr_idx s) mod N = (if Suc (hr_idx s) = N then 0 else Suc (hr_idx s))" by auto
  show "ring_ok N (ring_store N v s)" using s N by (auto simp: ring_ok_def ring_store_def)
  have last: "(hr_history s)[i := v] = take i (hr_history s) @ [v]" if "Suc i = N" for i
    using that s by (subst upd_conv_take_nth_drop) auto
  show "hr_count s = N \<Longrightarrow> ring_window N s = hr_history s ! hr_idx s # tl (ring_window N s)"
    using s by (simp add: ring_window_def drop_Suc Cons_nth_drop_Suc[symmetric])
  show "ring_window N (ring_store N v s) = take_last N (ring_window N s @ [v])"
  proof (cases "hr_count s < N")
    case True
    then have "take_last N (ring_window N s @ [v]) = take (hr_count s) (hr_history s) @ [v]"
      using s by (subst take_last_snoc) (auto simp: ring_window_def)
    then show ?thesis using True s N last
      by (auto simp: ring_window_def ring_store_def take_Suc_conv_app_nth)
  next
    case False
    then have c: "hr_count s = N" using s by simp
    then have "take_last N (ring_window N s @ [v]) = drop (Suc (hr_idx s)) (hr_history s) @ take (hr_idx s) (hr_history s) @ [v]"
      using s N by (subst take_last_snoc(2)) (auto simp: ring_window_def Cons_nth_drop_Suc[symmetric])
    then show ?thesis using c s N last
      by (auto simp: ring_window_def ring_store_def take_Suc_conv_app_nth drop_update_cancel)
  qed
qed

text \<open>Until the ring is full its rest holds the zeros it was filled with.\<close>

definition zero_rest :: "'a history_ring_scheme \<Rightarrow> bool" where
  "zero_rest s \<longleftrightarrow> (\<forall>i < length (hr_history s). hr_count s \<le> i \<longrightarrow> hr_history s ! i = 0)"

lemma window_sum:
  assumes "ring_ok N s" and "zero_rest s"
  shows "sum_list (take_last N (ring_window N s @ [v])) = sum_list (ring_window N s) - hr_history s ! hr_idx s + v"
    "zero_rest (ring_store N v s)"
proof -
  note s = assms[unfolded ring_ok_def zero_rest_def] length_ring_window[OF assms(1)]
  show "sum_list (take_last N (ring_window N s @ [v])) = sum_list (ring_window N s) - hr_history s ! hr_idx s + v"
  proof (cases "hr_count s < N")
    case False
    then have c: "hr_count s = N" using s by simp
    have "take_last N (ring_window N s @ [v]) = tl (ring_window N s) @ [v]"
      using s c by (intro take_last_snoc) auto
    then show ?thesis using arg_cong[OF ring_store_ok(3)[OF assms(1) c], of sum_list] by simp
  qed (use s in \<open>simp add: take_last_snoc\<close>)
  show "zero_rest (ring_store N v s)"
    using s by (auto simp: zero_rest_def ring_store_def nth_list_update)
qed

section \<open>Windowed filters\<close>

text \<open>The output is \<open>f\<close> of the window; \<open>ok s w\<close>: the state \<open>s\<close> stands for the window \<open>w\<close>.\<close>

locale windowed_filter =
  fixes step :: "'s \<Rightarrow> rat \<Rightarrow> 'b \<times> 's" and start :: 's and N :: nat
    and f :: "rat list \<Rightarrow> 'b" and ok :: "'s \<Rightarrow> rat list \<Rightarrow> bool"
  assumes start_ok: "ok start []"
    and step_ok: "ok s w \<Longrightarrow> step s x = (y, s')
      \<Longrightarrow> y = f (take_last N (w @ [x])) \<and> ok s' (take_last N (w @ [x]))"
begin

lemma run_window:
  "ok s (take_last N past) \<Longrightarrow> outputs step s xs
    = map (\<lambda>k. f (take_last N (past @ take (Suc k) xs))) [0..<length xs]"
proof (induction xs arbitrary: s past)
  case (Cons x xs)
  obtain y s' where st: "step s x = (y, s')" by fastforce
  have "take_last N (take_last N past @ [x]) = take_last N (past @ [x])" by simp
  with step_ok[OF Cons.prems st] have "y = f (take_last N (past @ [x]))" "ok s' (take_last N (past @ [x]))" by auto
  then show ?case
    using Cons.IH[of s' "past @ [x]"] st by (simp add: map_upt_Suc del: upt_Suc)
qed simp

theorem outputs_window:
  "outputs step start xs = map (\<lambda>k. f (take_last N (take (Suc k) xs))) [0..<length xs]"
  using run_window[of start "[]"] start_ok by simp

end

definition mean :: "rat list \<Rightarrow> rat" where
  "mean xs = sum_list xs / of_nat (length xs)"

definition average_ok :: "nat \<Rightarrow> averager \<Rightarrow> rat list \<Rightarrow> bool" where
  "average_ok N s w \<longleftrightarrow> ring_ok N s \<and> zero_rest s \<and> ring_window N s = w \<and> av_sum s = sum_list w"

lemma ring_parts:
  "ring_ok N (s\<lparr>av_sum := x\<rparr>) = ring_ok N s" "zero_rest (s\<lparr>av_sum := x\<rparr>) = zero_rest s"
  "ring_window N (s\<lparr>av_sum := x\<rparr>) = ring_window N s" "av_sum (ring_store N v s) = av_sum s"
  by (simp_all add: ring_ok_def zero_rest_def ring_window_def ring_store_def)

lemma average_step:
  fixes v assumes "average_ok N s w"
  defines "s' \<equiv> ring_store N v (s\<lparr>av_sum := av_sum s - hr_history s ! hr_idx s + v\<rparr>)"
  shows "average_ok N s' (take_last N (w @ [v]))" "hr_count s' = length (take_last N (w @ [v]))"
proof -
  note s = assms(1)[unfolded average_ok_def]
  then show ok: "average_ok N s' (take_last N (w @ [v]))"
    using window_sum[of N s v] ring_store_ok(1,2)[of N "s\<lparr>av_sum := av_sum s - hr_history s ! hr_idx s + v\<rparr>" v]
      window_sum(2)[of N "s\<lparr>av_sum := av_sum s - hr_history s ! hr_idx s + v\<rparr>" v]
    by (simp add: average_ok_def s'_def ring_parts)
  then show "hr_count s' = length (take_last N (w @ [v]))"
    using length_ring_window[of N s'] by (simp add: average_ok_def)
qed

interpretation average: windowed_filter moving_average average_start average_N mean "average_ok average_N"
proof
  show "average_ok average_N average_start []"
    by (simp add: average_ok_def average_start_def average_N_def ring_ok_def zero_rest_def ring_window_def)
next
  fix s w x y s'
  assume "average_ok average_N s w" and "moving_average s x = (y, s')"
  with average_step[of average_N s w x]
  show "y = mean (take_last average_N (w @ [x])) \<and> average_ok average_N s' (take_last average_N (w @ [x]))"
    by (auto simp: moving_average_def mean_def average_ok_def Let_def)
qed

definition root_mean_square :: "rat list \<Rightarrow> real" where
  "root_mean_square xs = sqrt (of_rat (mean (map (\<lambda>x. x * x) xs)))"

text \<open>The ring of \<^verbatim>\<open>rolling_rms\<close> holds squares, so the guard against a negative sum is
never taken.\<close>

definition rms_ok :: "averager \<Rightarrow> rat list \<Rightarrow> bool" where
  "rms_ok s w \<longleftrightarrow> average_ok rms_N s (map (\<lambda>x. x * x) w)"

lemma sum_of_squares: "0 \<le> sum_list (map (\<lambda>x. x * x :: rat) xs)"
  by (induction xs) simp_all

lemma take_last_map: "take_last n (map f xs) = map f (take_last n xs)"
  by (simp add: take_last_def drop_map)

interpretation rms: windowed_filter rolling_rms rms_start rms_N root_mean_square rms_ok
proof
  show "rms_ok rms_start []"
    by (simp add: rms_ok_def average_ok_def rms_start_def rms_N_def ring_ok_def zero_rest_def ring_window_def)
next
  fix s w x y s'
  assume s: "rms_ok s w" and step: "rolling_rms s x = (y, s')"
  let ?sq = "\<lambda>x. x * x :: rat"
  let ?s = "ring_store rms_N (?sq x) (s\<lparr>av_sum := av_sum s - hr_history s ! hr_idx s + ?sq x\<rparr>)"
  have w: "take_last rms_N (map ?sq w @ [?sq x]) = map ?sq (take_last rms_N (w @ [x]))"
    by (simp flip: take_last_map)
  have ok: "average_ok rms_N ?s (map ?sq (take_last rms_N (w @ [x])))"
    and n: "hr_count ?s = length (take_last rms_N (w @ [x]))"
    using average_step[of rms_N s "map ?sq w" "?sq x"] s w by (simp_all add: rms_ok_def)
  from ok have sm: "av_sum ?s = sum_list (map ?sq (take_last rms_N (w @ [x])))" by (simp add: average_ok_def)
  then have "\<not> av_sum ?s < 0" using sum_of_squares by (metis not_less)
  then have "s' = ?s" "y = sqrt (of_rat (av_sum ?s / of_nat (hr_count ?s)))"
    using step by (auto simp: rolling_rms_def Let_def)
  then show "y = root_mean_square (take_last rms_N (w @ [x])) \<and> rms_ok s' (take_last rms_N (w @ [x]))"
    using ok by (simp add: root_mean_square_def mean_def rms_ok_def sm n)
qed

section \<open>The median\<close>

lemma lower_bound_spec:
  assumes "sorted (take n xs)" and "n \<le> length xs" and "lo \<le> hi" and "hi \<le> n"
    and "\<forall>i < lo. xs ! i < v" and "\<forall>i. hi \<le> i \<and> i < n \<longrightarrow> v \<le> xs ! i"
  shows "lower_bound xs v lo hi \<le> n \<and> (\<forall>i < lower_bound xs v lo hi. xs ! i < v)
    \<and> (\<forall>i. lower_bound xs v lo hi \<le> i \<and> i < n \<longrightarrow> v \<le> xs ! i)"
  using assms
proof (induction xs v lo hi rule: lower_bound.induct)
  case (1 xs v lo hi)
  have mono: "xs ! i \<le> xs ! j" if "i \<le> j" "j < n" for i j
    using sorted_nth_mono[OF 1(3) that(1)] that 1(4) by simp
  show ?case
  proof (cases "lo < hi")
    case True
    let ?mid = "(lo + hi) div 2"
    have mid: "lo \<le> ?mid" "?mid < hi" "?mid < n" using True 1(6) by auto
    show ?thesis
    proof (cases "xs ! ?mid < v")
      case below: True
      then have small: "\<forall>i < ?mid + 1. xs ! i < v"
        using mono[of _ ?mid] mid by (metis order.strict_trans1 less_Suc_eq_le Suc_eq_plus1)
      have eq: "lower_bound xs v lo hi = lower_bound xs v (?mid + 1) hi"
        using True below by (subst lower_bound.simps) (simp add: Let_def)
      have "?mid + 1 \<le> hi" using mid(2) by simp
      from 1(1)[OF True refl below 1(3,4) this 1(6) small 1(8)] show ?thesis unfolding eq .
    next
      case above: False
      then have big: "\<forall>i. ?mid \<le> i \<and> i < n \<longrightarrow> v \<le> xs ! i"
        using mono[of ?mid] by (meson leI order.trans)
      have eq: "lower_bound xs v lo hi = lower_bound xs v lo ?mid"
        using True above by (subst lower_bound.simps) (simp add: Let_def)
      have "?mid \<le> n" using mid(3) by simp
      from 1(2)[OF True refl above 1(3,4) mid(1) this 1(7) big] show ?thesis unfolding eq .
    qed
  next
    case False
    then have "lower_bound xs v lo hi = lo" by (subst lower_bound.simps) simp
    then show ?thesis using 1(3-) False by simp
  qed
qed

lemma shift_down:
  "k \<le> length xs \<Longrightarrow> fold (\<lambda>i xs. xs[i := xs ! (i + 1)]) [lo..<k - 1] xs
    = map (\<lambda>i. if lo \<le> i \<and> i < k - 1 then xs ! (i + 1) else xs ! i) [0..<length xs]"
proof (induction k)
  case (Suc k)
  show ?case
  proof (cases "lo < k")
    case True
    then have "[lo..<k] = [lo..<k - 1] @ [k - 1]" by (metis Suc_pred' less_nat_zero_code neq0_conv upt_Suc_append less_Suc_eq_le Suc_leI le_simps(3))
    then show ?thesis using Suc True
      by (intro nth_equalityI) (auto simp: nth_list_update)
  qed (auto intro!: nth_equalityI)
qed (auto intro!: nth_equalityI)

lemma shift_up:
  "k < length xs \<Longrightarrow> fold (\<lambda>i xs. xs[i := xs ! (i - 1)]) (rev [lo + 1..<k + 1]) xs
    = map (\<lambda>i. if lo < i \<and> i \<le> k then xs ! (i - 1) else xs ! i) [0..<length xs]"
proof (induction k arbitrary: xs)
  case (Suc k)
  show ?case
  proof (cases "lo < Suc k")
    case True
    then show ?thesis using Suc
      by (intro nth_equalityI) (auto simp: nth_list_update)
  qed (use Suc in \<open>auto intro!: nth_equalityI\<close>)
qed (auto intro!: nth_equalityI)

lemma close_gap_eq:
  "\<lbrakk>lo < n; n \<le> length xs\<rbrakk> \<Longrightarrow> length (close_gap lo n xs) = length xs
     \<and> take (n - 1) (close_gap lo n xs) = take lo xs @ drop (lo + 1) (take n xs)"
  by (simp only: close_gap_def shift_down) (auto simp: nth_append intro!: nth_equalityI)

lemma open_gap_eq:
  "\<lbrakk>lo \<le> n; n < length xs\<rbrakk> \<Longrightarrow> length (open_gap lo n xs) = length xs
     \<and> take (n + 1) ((open_gap lo n xs)[lo := v]) = take lo xs @ v # drop lo (take n xs)"
  by (simp only: open_gap_def shift_up)
    (auto simp: nth_append nth_list_update nth_Cons' intro!: nth_equalityI)

lemma search_sorted:
  assumes "sorted (take n xs)" and "n \<le> length xs"
  shows "\<forall>i < lower_bound xs v 0 n. xs ! i < v" "\<forall>i. lower_bound xs v 0 n \<le> i \<and> i < n \<longrightarrow> v \<le> xs ! i"
    "lower_bound xs v 0 n \<le> n"
  using lower_bound_spec[OF assms, of 0 n v] by simp_all

text \<open>The sorted part of the state: the values of the window in order.\<close>

definition lower_median :: "rat list \<Rightarrow> rat" where
  "lower_median w = sort w ! ((length w - 1) div 2)"

definition sorted_part :: "median_state \<Rightarrow> rat list \<Rightarrow> bool" where
  "sorted_part s w \<longleftrightarrow> length (md_sorted s) = median_N \<and> take (hr_count s) (md_sorted s) = sort w
     \<and> hr_count s = length w"

definition median_ok :: "median_state \<Rightarrow> rat list \<Rightarrow> bool" where
  "median_ok s w \<longleftrightarrow> ring_ok median_N s \<and> ring_window median_N s = w \<and> sorted_part s w"

lemma sorted_partD:
  assumes "sorted_part s w"
  shows "length (md_sorted s) = median_N" "take (hr_count s) (md_sorted s) = sort w"
    "take (length w) (md_sorted s) = sort w" "hr_count s = length w"
  using assms by (auto simp: sorted_part_def)

lemma median_evict_sorted:
  assumes "sorted_part s (x # w)" and "hr_count s = median_N" and "hr_history s ! hr_idx s = x"
  shows "sorted_part (median_evict s) w"
proof -
  let ?xs = "md_sorted s" and ?n = "hr_count s"
  let ?lo = "lower_bound ?xs x 0 ?n"
  have s: "take ?n ?xs = sort (x # w)" "?n \<le> length ?xs" "?n = Suc (length w)"
    using sorted_partD[OF assms(1)] assms(2) by simp_all
  have srt: "sorted (take ?n ?xs)" unfolding s(1) by (rule sorted_sort)
  note lo = search_sorted[OF srt s(2), of x]
  have "x \<in> set (take ?n ?xs)" unfolding s(1) set_sort by simp
  then obtain j where j: "j < ?n" "?xs ! j = x" by (auto simp: in_set_conv_nth)
  have "?lo \<le> j" using lo(1) j(2) by (metis leI less_irrefl)
  then have less: "?lo < ?n" using j(1) by simp
  have "length (take ?n ?xs) = ?n" using s(2) by (rule length_take[THEN trans, OF min.absorb2])
  then have "take ?n ?xs ! ?lo \<le> take ?n ?xs ! j"
    using sorted_nth_mono[OF srt \<open>?lo \<le> j\<close>] j(1) by simp
  then have "?xs ! ?lo \<le> ?xs ! j" using less j(1) by (simp only: nth_take)
  then have hit: "?xs ! ?lo = x" using lo(2) less j by (simp add: order.antisym)
  have "take ?lo ?xs @ drop (?lo + 1) (take ?n ?xs) = sort w"
  proof (rule properties_for_sort[symmetric])
    have "take ?n ?xs = take ?lo ?xs @ x # drop (?lo + 1) (take ?n ?xs)"
      using less s(2) hit by (subst id_take_nth_drop[of ?lo]) (auto simp: min_def)
    then have split: "sort (x # w) = take ?lo ?xs @ x # drop (?lo + 1) (take ?n ?xs)" using s(1) by simp
    then have "mset (x # w) = mset (take ?lo ?xs @ x # drop (?lo + 1) (take ?n ?xs))" by (metis mset_sort)
    then show "mset (take ?lo ?xs @ drop (?lo + 1) (take ?n ?xs)) = mset w" by simp
    have "sorted (take ?lo ?xs @ x # drop (?lo + 1) (take ?n ?xs))" using split by (metis sorted_sort)
    then show "sorted (take ?lo ?xs @ drop (?lo + 1) (take ?n ?xs))" by (auto simp: sorted_append)
  qed
  then show ?thesis
    using close_gap_eq[OF less s(2)] assms s by (simp add: sorted_part_def median_evict_def Let_def)
qed

lemma median_insert_sorted:
  assumes "sorted_part s w" and "hr_count s < median_N"
  shows "sorted_part (median_insert x s) (w @ [x])"
proof -
  let ?xs = "md_sorted s" and ?n = "hr_count s"
  let ?lo = "lower_bound ?xs x 0 ?n"
  have s: "take ?n ?xs = sort w" "?n \<le> length ?xs" "?n = length w" "?n < length ?xs"
    using sorted_partD[OF assms(1)] assms(2) by simp_all
  have "sorted (take ?n ?xs)" unfolding s(1) by (rule sorted_sort)
  note lo = search_sorted[OF this s(2), of x]
  have sorted: "sorted (take ?lo ?xs @ drop ?lo (take ?n ?xs))"
    using s(1) lo(3) by (metis append_take_drop_id min.absorb1 sorted_sort take_take)
  have "take ?lo ?xs @ x # drop ?lo (take ?n ?xs) = sort (w @ [x])"
  proof (rule properties_for_sort[symmetric])
    have "take ?lo ?xs @ drop ?lo (take ?n ?xs) = sort w"
      using s(1) lo(3) by (metis append_take_drop_id min.absorb1 take_take)
    then have "mset (take ?lo ?xs @ drop ?lo (take ?n ?xs)) = mset w" by simp
    then show "mset (take ?lo ?xs @ x # drop ?lo (take ?n ?xs)) = mset (w @ [x])" by simp
    have "y \<le> x" if y: "y \<in> set (take ?lo ?xs)" for y
    proof -
      obtain i where "i < ?lo" "y = ?xs ! i" using y by (auto simp: in_set_conv_nth)
      then show ?thesis using lo(1) less_imp_le by metis
    qed
    moreover have "\<forall>y \<in> set (drop ?lo (take ?n ?xs)). x \<le> y"
      using lo(2) s(4) by (auto simp: in_set_conv_nth)
    ultimately show "sorted (take ?lo ?xs @ x # drop ?lo (take ?n ?xs))"
      using sorted by (auto simp: sorted_append)
  qed
  then show ?thesis
    using open_gap_eq[OF lo(3) s(4), of x] assms s by (simp add: sorted_part_def median_insert_def Let_def)
qed

interpretation median: windowed_filter median_filter median_start median_N lower_median median_ok
proof
  show "median_ok median_start []"
    by (simp add: median_ok_def median_start_def median_N_def ring_ok_def ring_window_def sorted_part_def)
next
  fix s w x y s'
  assume s: "median_ok s w" and step: "median_filter s x = (y, s')"
  let ?e = "median_evict s" and ?w = "take_last median_N (w @ [x])"
  have ring: "ring_ok median_N s" "ring_window median_N s = w" using s by (simp_all add: median_ok_def)
  have "sorted_part (median_insert x ?e) ?w"
  proof (cases "hr_count s = median_N")
    case True
    have w: "w = hr_history s ! hr_idx s # tl w" using ring_store_ok(3)[OF ring(1) True] ring(2) by simp
    then have "sorted_part ?e (tl w)" using s True by (intro median_evict_sorted) (auto simp: median_ok_def)
    moreover have "hr_count ?e < median_N" using True by (simp add: median_evict_def Let_def median_N_def)
    moreover have "?w = tl w @ [x]"
      using length_ring_window[OF ring(1)] True ring(2) by (intro take_last_snoc) (simp_all add: median_N_def)
    ultimately show ?thesis using median_insert_sorted by metis
  next
    case False
    then have "hr_count s < median_N" using ring(1) by (simp add: ring_ok_def)
    moreover have "?e = s" using False by (simp add: median_evict_def)
    moreover have "?w = w @ [x]"
      using length_ring_window[OF ring(1)] calculation ring(2) by (intro take_last_snoc) simp
    ultimately show ?thesis using median_insert_sorted s by (simp add: median_ok_def)
  qed
  moreover have s': "hr_history s' = (hr_history s)[hr_idx s := x]" "hr_idx s' = (hr_idx s + 1) mod median_N"
    "md_sorted s' = md_sorted (median_insert x ?e)" "hr_count s' = hr_count (median_insert x ?e)"
    "y = md_sorted s' ! ((hr_count s' - 1) div 2)"
    using step by (auto simp: median_filter_def median_insert_def median_evict_def Let_def)
  moreover have "hr_count s' = (if hr_count s < median_N then hr_count s + 1 else hr_count s)"
    using s'(4) ring(1) by (auto simp: median_insert_def median_evict_def Let_def ring_ok_def)
  then have "ring_ok median_N s' = ring_ok median_N (ring_store median_N x s)"
    "ring_window median_N s' = ring_window median_N (ring_store median_N x s)"
    using s' by (simp_all add: ring_ok_def ring_window_def ring_store_def)
  then have "ring_ok median_N s'" "ring_window median_N s' = ?w"
    using ring_store_ok(1,2)[OF ring(1), of x] ring(2) by simp_all
  ultimately have "median_ok s' ?w" unfolding median_ok_def sorted_part_def by metis
  moreover have "y = take (hr_count s') (md_sorted s') ! ((hr_count s' - 1) div 2)"
    using s'(4,5) by (simp add: median_insert_def Let_def)
  ultimately show "y = lower_median ?w \<and> median_ok s' ?w"
    unfolding lower_median_def median_ok_def sorted_part_def by metis
qed

section \<open>Filters that stay in range\<close>

text \<open>\<open>inside lo hi s\<close>: what the state \<open>s\<close> remembers of the signal lies between \<open>lo\<close> and
\<open>hi\<close>.\<close>

locale range_filter =
  fixes step :: "'s \<Rightarrow> rat \<Rightarrow> rat \<times> 's" and start :: 's and inside :: "rat \<Rightarrow> rat \<Rightarrow> 's \<Rightarrow> bool"
  assumes start_inside: "inside lo hi start"
    and step_inside: "\<lbrakk>inside lo hi s; lo \<le> x; x \<le> hi; step s x = (y, s')\<rbrakk>
      \<Longrightarrow> lo \<le> y \<and> y \<le> hi \<and> inside lo hi s'"
begin

lemma run_inside:
  "\<lbrakk>inside lo hi s; \<forall>x \<in> set xs. lo \<le> x \<and> x \<le> hi\<rbrakk> \<Longrightarrow> \<forall>y \<in> set (outputs step s xs). lo \<le> y \<and> y \<le> hi"
proof (induction xs arbitrary: s)
  case (Cons x xs)
  obtain y s' where st: "step s x = (y, s')" by fastforce
  have "lo \<le> y \<and> y \<le> hi \<and> inside lo hi s'" using Cons.prems by (intro step_inside[OF _ _ _ st]) auto
  then show ?case using Cons.IH[of s'] Cons.prems(2) st by simp
qed simp

lemma outputs_inside:
  "\<forall>x \<in> set xs. lo \<le> x \<and> x \<le> hi \<Longrightarrow> \<forall>y \<in> set (outputs step start xs). lo \<le> y \<and> y \<le> hi"
  using start_inside by (rule run_inside)

end

definition last_inside :: "rat \<Rightarrow> rat \<Rightarrow> rat option \<Rightarrow> bool" where
  "last_inside lo hi s = (case s of None \<Rightarrow> True | Some v \<Rightarrow> lo \<le> v \<and> v \<le> hi)"

lemma convex_inside:
  fixes lo hi x v a :: rat
  assumes "lo \<le> v" "v \<le> hi" "lo \<le> x" "x \<le> hi" "0 \<le> a" "a \<le> 1"
  shows "lo \<le> a * x + (1 - a) * v" "a * x + (1 - a) * v \<le> hi"
proof -
  have "a * lo + (1 - a) * lo \<le> a * x + (1 - a) * v" "a * x + (1 - a) * v \<le> a * hi + (1 - a) * hi"
    using assms by (intro add_mono mult_left_mono; simp)+
  then show "lo \<le> a * x + (1 - a) * v" "a * x + (1 - a) * v \<le> hi" by (simp_all add: algebra_simps)
qed

interpretation ema: range_filter ema_step None last_inside
  by unfold_locales (use convex_inside[where a = ema_alpha] in
    \<open>auto simp: last_inside_def ema_step_def ema_alpha_def Let_def split: option.splits\<close>)

lemma low_pass_convex: "low_pass (Some v) x = (let y = low_pass_alpha * x + (1 - low_pass_alpha) * v in (y, Some y))"
  by (simp add: low_pass_def Let_def algebra_simps)

interpretation low_pass: range_filter low_pass None last_inside
proof
  fix lo hi s x y s'
  assume s: "last_inside lo hi s" and x: "lo \<le> x" "x \<le> hi" and step: "low_pass s x = (y, s')"
  have "low_pass s x = low_pass (Some (case s of None \<Rightarrow> x | Some v \<Rightarrow> v)) x"
    by (simp add: low_pass_def split: option.split)
  moreover have "lo \<le> (case s of None \<Rightarrow> x | Some v \<Rightarrow> v)" "(case s of None \<Rightarrow> x | Some v \<Rightarrow> v) \<le> hi"
    using s x by (auto simp: last_inside_def split: option.split)
  ultimately show "lo \<le> y \<and> y \<le> hi \<and> last_inside lo hi s'"
    using convex_inside[of lo "case s of None \<Rightarrow> x | Some v \<Rightarrow> v" hi x low_pass_alpha] x step
    by (auto simp: low_pass_convex Let_def last_inside_def low_pass_alpha_def)
qed (simp add: last_inside_def)

interpretation slew: range_filter slew_rate_limiter None last_inside
  by unfold_locales
    (auto simp: last_inside_def slew_rate_limiter_def maxDelta_def Let_def split: option.splits if_splits)

interpretation running_max: range_filter running_max None last_inside
  by unfold_locales (auto simp: last_inside_def running_max_def Let_def split: option.splits if_splits)

interpretation running_min: range_filter running_min None last_inside
  by unfold_locales (auto simp: last_inside_def running_min_def Let_def split: option.splits if_splits)

text \<open>The gain of the Kalman filter stays between 0 and 1 because the variance stays positive.\<close>

definition kalman_inside :: "rat \<Rightarrow> rat \<Rightarrow> kalman_state \<Rightarrow> bool" where
  "kalman_inside lo hi s \<longleftrightarrow> last_inside lo hi (km_x s) \<and> 0 < km_P s"

lemma kalman_step:
  assumes "km_x s = Some v" and "0 < km_P s"
  shows "\<exists>K. 0 < K \<and> K < 1 \<and> fst (kalman_1d s x) = K * x + (1 - K) * v
    \<and> km_x (snd (kalman_1d s x)) = Some (K * x + (1 - K) * v) \<and> 0 < km_P (snd (kalman_1d s x))"
proof -
  let ?P = "km_P s + kalman_Q" let ?K = "?P / (?P + kalman_R)"
  have P: "0 < ?P" using assms(2) by (simp add: kalman_Q_def)
  then have K: "0 < ?K" "?K < 1" by (simp_all add: kalman_R_def)
  then have "0 < (1 - ?K) * ?P" using P by simp
  with K show ?thesis
    using assms(1) by (intro exI[of _ ?K]) (simp add: kalman_1d_def Let_def algebra_simps)
qed

interpretation kalman: range_filter kalman_1d kalman_start kalman_inside
proof
  fix lo hi s x y s'
  assume s: "kalman_inside lo hi s" and x: "lo \<le> x" "x \<le> hi" and step: "kalman_1d s x = (y, s')"
  show "lo \<le> y \<and> y \<le> hi \<and> kalman_inside lo hi s'"
  proof (cases "km_x s")
    case None
    then show ?thesis using s x step by (auto simp: kalman_inside_def kalman_1d_def last_inside_def)
  next
    case (Some v)
    then have P: "0 < km_P s" and v: "lo \<le> v" "v \<le> hi" using s by (auto simp: kalman_inside_def last_inside_def)
    from kalman_step[OF Some P, of x] obtain K where "0 < K" "K < 1" "y = K * x + (1 - K) * v"
      "km_x s' = Some (K * x + (1 - K) * v)" "0 < km_P s'" using step by auto
    then show ?thesis using convex_inside[OF v x, of K] by (simp add: kalman_inside_def last_inside_def)
  qed
qed (simp add: kalman_inside_def kalman_start_def last_inside_def)

section \<open>Steps between outputs\<close>

text \<open>\<open>steps R ys\<close>: consecutive outputs are related by \<open>R\<close>.\<close>

definition steps :: "('b \<Rightarrow> 'b \<Rightarrow> bool) \<Rightarrow> 'b list \<Rightarrow> bool" where
  "steps R ys \<longleftrightarrow> (\<forall>k. Suc k < length ys \<longrightarrow> R (ys ! k) (ys ! Suc k))"

lemma steps_Cons: "steps R (y # ys) \<longleftrightarrow> (ys = [] \<or> R y (hd ys)) \<and> steps R ys"
  by (cases ys) (auto simp: steps_def nth_Cons split: nat.splits)

lemma steps_Nil [simp]: "steps R []"
  by (simp add: steps_def)

lemma slew_steps:
  "steps (\<lambda>a b. \<bar>b - a\<bar> \<le> maxDelta) (outputs slew_rate_limiter s xs)
   \<and> (\<forall>p. s = Some p \<and> xs \<noteq> [] \<longrightarrow> \<bar>hd (outputs slew_rate_limiter s xs) - p\<bar> \<le> maxDelta)"
proof (induction xs arbitrary: s)
  case (Cons x xs)
  obtain y where y: "slew_rate_limiter s x = (y, Some y)"
    by (cases s) (auto simp: slew_rate_limiter_def Let_def)
  moreover have "s = Some p \<Longrightarrow> \<bar>y - p\<bar> \<le> maxDelta" for p
    using y by (auto simp: slew_rate_limiter_def Let_def maxDelta_def split: if_splits)
  moreover have "outputs slew_rate_limiter (Some y) xs = [] \<longleftrightarrow> xs = []"
    by (metis length_0_conv length_outputs)
  ultimately show ?case using Cons[of "Some y"] by (auto simp: steps_Cons)
qed simp

definition unwrapped :: "rat \<Rightarrow> rat \<Rightarrow> bool" where
  "unwrapped x y \<longleftrightarrow> (\<exists>k. y = x + 360 * of_int k)"

lemma unwrap_run:
  assumes "steps (\<lambda>a b. \<bar>b - a\<bar> \<le> 360) xs"
    and "\<forall>p. uw_prev s = Some p \<and> xs \<noteq> [] \<longrightarrow> \<bar>hd xs - p\<bar> \<le> 360" and "\<exists>k. uw_offset s = 360 * of_int k"
    and "uw_prev s = None \<longrightarrow> uw_offset s = 0"
  shows "list_all2 unwrapped xs (outputs unwrap_angle s xs)
    \<and> steps (\<lambda>a b. \<bar>b - a\<bar> \<le> 180) (outputs unwrap_angle s xs)
    \<and> (\<forall>p. uw_prev s = Some p \<and> xs \<noteq> []
        \<longrightarrow> \<bar>hd (outputs unwrap_angle s xs) - (p + uw_offset s)\<bar> \<le> 180)"
  using assms
proof (induction xs arbitrary: s)
  case (Cons x xs)
  obtain y s' where st: "unwrap_angle s x = (y, s')" by fastforce
  from Cons.prems(3) obtain k where k: "uw_offset s = 360 * of_int k" by blast
  have x: "xs \<noteq> [] \<longrightarrow> \<bar>hd xs - x\<bar> \<le> 360" "steps (\<lambda>a b. \<bar>b - a\<bar> \<le> 360) xs"
    using Cons.prems(1) by (auto simp: steps_Cons)
  have s': "uw_prev s' = Some x" "y = x + uw_offset s'"
    using st Cons.prems(4) by (auto simp: unwrap_angle_def Let_def split: option.splits)
  have "uw_offset s' \<in> {360 * of_int (k - 1), 360 * of_int (k + 1), 360 * of_int k}"
    using st k by (auto simp: unwrap_angle_def Let_def algebra_simps split: option.splits if_splits)
  then have off: "\<exists>k. uw_offset s' = 360 * of_int k" by blast
  have near: "\<bar>y - (p + uw_offset s)\<bar> \<le> 180" if "uw_prev s = Some p" for p
    using that st Cons.prems(2) by (auto simp: unwrap_angle_def Let_def split: if_splits)
  have ih: "list_all2 unwrapped xs (outputs unwrap_angle s' xs)
    \<and> steps (\<lambda>a b. \<bar>b - a\<bar> \<le> 180) (outputs unwrap_angle s' xs)
    \<and> (xs \<noteq> [] \<longrightarrow> \<bar>hd (outputs unwrap_angle s' xs) - y\<bar> \<le> 180)"
    using Cons.IH[of s'] s' off x by auto
  moreover have "unwrapped x y" using off s' by (auto simp: unwrapped_def)
  moreover have "outputs unwrap_angle s' xs = [] \<longleftrightarrow> xs = []" by (metis length_0_conv length_outputs)
  ultimately show ?case using st near by (auto simp: steps_Cons)
qed simp

lemma js_rem_range:
  assumes "0 < b"
  shows "0 \<le> a \<Longrightarrow> 0 \<le> js_rem a b" "0 \<le> a \<Longrightarrow> js_rem a b < b" "- b < js_rem a b"
    "\<exists>k. js_rem a b = a + b * of_int k"
proof -
  have pos: "0 \<le> js_rem a b" "js_rem a b < b" if "0 \<le> a"
  proof -
    have t: "trunc (a / b) = \<lfloor>a / b\<rfloor>" using that assms by (simp add: trunc_def divide_less_0_iff)
    have "b * of_int \<lfloor>a / b\<rfloor> \<le> b * (a / b)" "b * (a / b) < b * (of_int \<lfloor>a / b\<rfloor> + 1)"
      using assms by (simp_all only: mult_le_cancel_left_pos mult_less_cancel_left_pos) linarith+
    then show "0 \<le> js_rem a b" "js_rem a b < b"
      unfolding js_rem_def t using assms by (simp_all add: algebra_simps)
  qed
  show "0 \<le> a \<Longrightarrow> 0 \<le> js_rem a b" "0 \<le> a \<Longrightarrow> js_rem a b < b" by (fact pos)+
  show "- b < js_rem a b"
  proof (cases "0 \<le> a")
    case False
    then have t: "trunc (a / b) = \<lceil>a / b\<rceil>" using assms by (simp add: trunc_def divide_less_0_iff)
    have "b * of_int \<lceil>a / b\<rceil> < b * (a / b + 1)"
      using assms by (simp only: mult_less_cancel_left_pos) linarith
    then show ?thesis unfolding js_rem_def t using assms by (simp add: algebra_simps)
  qed (use pos assms in linarith)
  show "\<exists>k. js_rem a b = a + b * of_int k"
    by (rule exI[of _ "- trunc (a / b)"]) (simp add: js_rem_def)
qed

lemma integrate_step:
  assumes "integrate_rate angle x = (y, s')"
  shows "s' = y" "- 180 \<le> y" "y < 180" "unwrapped (angle + x / 100) y"
proof -
  let ?a = "angle + x * (1 / sampleRateHz)"
  let ?r = "js_rem (?a + 180) 360"
  have y: "y = js_rem (?r + 360) 360 - 180" and "s' = y" using assms by (auto simp: integrate_rate_def Let_def)
  then show "s' = y" by simp
  have "0 \<le> ?r + 360" using js_rem_range(3)[of 360 "?a + 180"] by simp
  from js_rem_range(1)[OF _ this, of 360] js_rem_range(2)[OF _ this, of 360]
  show "- 180 \<le> y" "y < 180" unfolding y by simp_all
  obtain k l where "?r = ?a + 180 + 360 * of_int k" "js_rem (?r + 360) 360 = ?r + 360 + 360 * of_int l"
    using js_rem_range(4)[of 360] by (metis zero_less_numeral)
  then have "y = angle + x / 100 + 360 * of_int (k + l + 1)"
    unfolding y by (simp add: sampleRateHz_def algebra_simps)
  then show "unwrapped (angle + x / 100) y" unfolding unwrapped_def by blast
qed

lemma unwrapped_trans: "unwrapped x y \<Longrightarrow> unwrapped (y + d) z \<Longrightarrow> unwrapped (x + d) z"
proof -
  assume "unwrapped x y" "unwrapped (y + d) z"
  then obtain k l where "y = x + 360 * of_int k" "z = y + d + 360 * of_int l" by (auto simp: unwrapped_def)
  then have "z = x + d + 360 * of_int (k + l)" by (simp add: algebra_simps)
  then show ?thesis unfolding unwrapped_def by blast
qed

lemma integrate_run:
  "unwrapped tot angle \<Longrightarrow> k < length xs \<Longrightarrow> - 180 \<le> outputs integrate_rate angle xs ! k
    \<and> outputs integrate_rate angle xs ! k < 180
    \<and> unwrapped (tot + sum_list (take (Suc k) xs) / 100) (outputs integrate_rate angle xs ! k)"
proof (induction xs arbitrary: angle tot k)
  case (Cons x xs)
  obtain y s' where st: "integrate_rate angle x = (y, s')" by fastforce
  note i = integrate_step[OF st]
  have u: "unwrapped (tot + x / 100) y" using unwrapped_trans[OF Cons.prems(1) i(4)] .
  show ?case
  proof (cases k)
    case 0
    then show ?thesis using i u st by simp
  next
    case (Suc j)
    then show ?thesis
      using Cons.IH[OF u, of j] Cons.prems(2) st i(1) by (simp add: add_divide_distrib add.assoc)
  qed
qed simp

text \<open>The trigger: the last sample outside the two thresholds decides.\<close>

definition decisive :: "rat \<Rightarrow> bool" where
  "decisive x \<longleftrightarrow> x > highThreshold \<or> x < lowThreshold"

definition decided :: "int \<Rightarrow> rat list \<Rightarrow> int" where
  "decided state xs = (case find decisive (rev xs) of
     None \<Rightarrow> state | Some x \<Rightarrow> if x > highThreshold then 1 else 0)"

lemma find_append: "find P (xs @ ys) = (case find P xs of None \<Rightarrow> find P ys | Some x \<Rightarrow> Some x)"
  by (induction xs) simp_all

lemma decided_Cons: "decided state (x # xs) = decided (decided state [x]) xs"
  by (auto simp: decided_def find_append split: option.split)

lemma schmitt_run:
  "s \<in> {0, 1} \<Longrightarrow> k < length xs \<Longrightarrow> outputs schmitt_trigger s xs ! k = decided s (take (Suc k) xs)"
proof (induction xs arbitrary: s k)
  case (Cons x xs)
  have st: "schmitt_trigger s x = (decided s [x], decided s [x])" and d: "decided s [x] \<in> {0, 1}"
    using Cons.prems(1) by (auto simp: schmitt_trigger_def decided_def decisive_def Let_def
        highThreshold_def lowThreshold_def)
  show ?case
    using Cons.IH[OF d] Cons.prems(2) st by (cases k) (simp_all add: decided_Cons[of s x "take _ xs"])
qed simp

section \<open>Properties\<close>

text \<open>C10: The moving average, the rolling RMS and the median filter compute, for every sample, the
mean, the root of the mean square and the lower median of the last \<open>N\<close> samples (of all samples
so far while there are fewer).\<close>

theorem window_filters_exact:
  "outputs moving_average average_start xs
     = map (\<lambda>k. mean (take_last 10 (take (Suc k) xs))) [0..<length xs]
   \<and> outputs rolling_rms rms_start xs
     = map (\<lambda>k. root_mean_square (take_last 32 (take (Suc k) xs))) [0..<length xs]
   \<and> outputs median_filter median_start xs
     = map (\<lambda>k. lower_median (take_last 5 (take (Suc k) xs))) [0..<length xs]"
  using average.outputs_window[of xs] rms.outputs_window[of xs] median.outputs_window[of xs]
  by (simp add: average_N_def rms_N_def median_N_def)

text \<open>C11: The smoothing filters, the limiter and the extremes never leave an interval that holds all
samples, and the limiter never moves by more than its limit from one sample to the next.\<close>

theorem filters_stay_in_range:
  assumes "\<forall>x \<in> set xs. lo \<le> x \<and> x \<le> hi"
  shows "(\<forall>y \<in> set (outputs ema_step None xs). lo \<le> y \<and> y \<le> hi)
    \<and> (\<forall>y \<in> set (outputs low_pass None xs). lo \<le> y \<and> y \<le> hi)
    \<and> (\<forall>y \<in> set (outputs kalman_1d kalman_start xs). lo \<le> y \<and> y \<le> hi)
    \<and> (\<forall>y \<in> set (outputs running_max None xs). lo \<le> y \<and> y \<le> hi)
    \<and> (\<forall>y \<in> set (outputs running_min None xs). lo \<le> y \<and> y \<le> hi)
    \<and> (\<forall>y \<in> set (outputs slew_rate_limiter None xs). lo \<le> y \<and> y \<le> hi)
    \<and> steps (\<lambda>a b. \<bar>b - a\<bar> \<le> maxDelta) (outputs slew_rate_limiter None xs)"
  using ema.outputs_inside[OF assms] low_pass.outputs_inside[OF assms] kalman.outputs_inside[OF assms]
    running_max.outputs_inside[OF assms] running_min.outputs_inside[OF assms] slew.outputs_inside[OF assms]
    slew_steps[of None xs] by blast

theorem filters_stay_in_range_witness:
  "3 \<le> outputs ema_step None [3, 7, 5] ! 2 \<and> outputs ema_step None [3, 7, 5] ! 2 \<le> 7"
proof -
  have "\<forall>x \<in> set [3, 7, 5 :: rat]. 3 \<le> x \<and> x \<le> 7" by simp
  note inside = conjunct1[OF filters_stay_in_range[OF this]]
  have "2 < length (outputs ema_step None [3, 7, 5])" unfolding length_outputs by simp
  from bspec[OF inside nth_mem[OF this]] show ?thesis .
qed

text \<open>C12: When consecutive readings of an angle differ by at most one full turn, as those in \<open>[0, 360]\<close> and those in
\<open>[-180, 180]\<close> do, every reading is unwrapped to itself plus full turns, and the result jumps by at most half a turn
from one sample to the next; an integrated rate is the integral up to full turns, within
\<open>[-180, 180)\<close>.\<close>

theorem angles_continuous:
  assumes "steps (\<lambda>a b. \<bar>b - a\<bar> \<le> 360) xs"
  shows "list_all2 unwrapped xs (outputs unwrap_angle unwrap_start xs)
    \<and> steps (\<lambda>a b. \<bar>b - a\<bar> \<le> 180) (outputs unwrap_angle unwrap_start xs)
    \<and> (\<forall>rates k. k < length rates \<longrightarrow> - 180 \<le> outputs integrate_rate 0 rates ! k
        \<and> outputs integrate_rate 0 rates ! k < 180
        \<and> unwrapped (sum_list (take (Suc k) rates) / 100) (outputs integrate_rate 0 rates ! k))"
proof -
  have "unwrapped 0 0" by (auto simp: unwrapped_def intro: exI[of _ 0])
  then show ?thesis
    using unwrap_run[OF assms, of unwrap_start] integrate_run[of 0 0] exI[of "\<lambda>k. (0 :: int) = k" 0]
    by (auto simp: unwrap_start_def intro: exI[of _ 0])
qed

theorem angles_continuous_witness:
  "steps (\<lambda>a b. \<bar>b - a\<bar> \<le> 180) (outputs unwrap_angle unwrap_start [350, 10, 355])"
  by (rule conjunct1[OF conjunct2[OF angles_continuous]]) (simp add: steps_Cons)

text \<open>The output of the Schmitt trigger is decided by the last sample beyond one of the thresholds:
1 if it was above the upper one, 0 if it was below the lower one, and 0 before any such sample.\<close>

theorem schmitt_hysteresis:
  "outputs schmitt_trigger 0 xs = map (\<lambda>k. decided 0 (take (Suc k) xs)) [0..<length xs]"
  by (rule nth_equalityI) (simp_all add: schmitt_run)

text \<open>The conversions undo each other.\<close>

lemma unit_conversions:
  "fahrenheit_to_celsius (celsius_to_fahrenheit v) = v" "celsius_to_fahrenheit (fahrenheit_to_celsius v) = v"
  "radians_to_degrees (degrees_to_radians r) = r" "degrees_to_radians (radians_to_degrees r) = r"
  by (simp_all add: fahrenheit_to_celsius_def celsius_to_fahrenheit_def radians_to_degrees_def
      degrees_to_radians_def diff_divide_distrib left_diff_distrib)

end
