(* ===== verification/Text_Strings.thy ===== *)
theory Text_Strings
  imports Base64 Key_Tables
begin

text \<open>
  The string functions of JavaScript that the text parsers call, and the printed numbers they read.

  \<^item> \<open>trim\<close>, \<open>split_on\<close>, \<open>js_substring\<close>, \<open>index_of\<close>: the methods of strings.
  \<^item> \<open>parseFloat\<close>, \<open>parseInt10\<close>: the longest numeric prefix, as an exact rational; rounding to a
    double is not modelled, so a literal beyond the range of doubles stays finite.
  \<^item> \<open>scan_all\<close>: the loop \<^verbatim>\<open>while ((match = regex.exec(s)) !== null)\<close> of a global
    regular expression, over a function that matches it at the start of a string.  Every expression of
    the scripts consists of runs of characters, each followed by a character outside its class, so it
    matches at a place in at most one way and the greedy match is the only one.
  \<^item> \<open>decimal_text\<close> prints a decimal number; \<open>parseFloat\<close> reads it back
    (\<open>parseFloat_decimal\<close>).
\<close>

section \<open>Strings\<close>

definition trim :: "string \<Rightarrow> string" where
  "trim s = rev (dropWhile js_space (rev (dropWhile js_space s)))"

fun split_on :: "char \<Rightarrow> string \<Rightarrow> string list" where
  "split_on c [] = [[]]"
| "split_on c (x # s) =
     (if x = c then [] # split_on c s
      else (case split_on c s of p # ps \<Rightarrow> (x # p) # ps | [] \<Rightarrow> [[x]]))"

text \<open>\<^verbatim>\<open>split(/\s+/)\<close>: a run of blanks separates.\<close>

function split_blanks :: "string \<Rightarrow> string list" where
  "split_blanks s =
     (let p = takeWhile (\<lambda>c. \<not> js_space c) s; r = dropWhile (\<lambda>c. \<not> js_space c) s
      in if r = [] then [p] else p # split_blanks (dropWhile js_space r))"
  by pat_completeness auto
termination
proof (relation "measure length")
  fix s p r :: string
  assume p: "p = takeWhile (\<lambda>c. \<not> js_space c) s" and r: "r = dropWhile (\<lambda>c. \<not> js_space c) s" "r \<noteq> []"
  from r(2) obtain x xs where x: "r = x # xs" by (cases r) auto
  then have "js_space x" using r(1) by (simp add: dropWhile_eq_Cons_conv)
  then have "length (dropWhile js_space r) \<le> length xs" by (simp add: x length_dropWhile_le)
  moreover have "length r \<le> length s" by (simp add: r(1) length_dropWhile_le)
  ultimately show "(dropWhile js_space r, s) \<in> measure length" using x by simp
qed simp

declare split_blanks.simps [simp del]

text \<open>Arguments are clipped to the string and swapped when they are out of order.\<close>

definition js_substring :: "string \<Rightarrow> int \<Rightarrow> int \<Rightarrow> string" where
  "js_substring s a b =
     (let clip = \<lambda>i. nat (max 0 (min i (int (length s)))); lo = min (clip a) (clip b); hi = max (clip a) (clip b)
      in take (hi - lo) (drop lo s))"

definition substring_from :: "string \<Rightarrow> int \<Rightarrow> string" where
  "substring_from s a = js_substring s a (int (length s))"

definition starts :: "string \<Rightarrow> string \<Rightarrow> bool" where
  "starts p s \<longleftrightarrow> take (length p) s = p"

text \<open>\<^verbatim>\<open>s.indexOf(p, start)\<close>; \<open>None\<close> stands for -1.\<close>

fun find_text :: "string \<Rightarrow> string \<Rightarrow> nat option" where
  "find_text p [] = (if p = [] then Some 0 else None)"
| "find_text p (x # s) = (if starts p (x # s) then Some 0 else map_option Suc (find_text p s))"

definition index_of :: "string \<Rightarrow> string \<Rightarrow> nat \<Rightarrow> nat option" where
  "index_of s p start = map_option (\<lambda>i. i + start) (find_text p (drop start s))"

definition first_char :: "string \<Rightarrow> string" where
  "first_char s = take 1 s"

definition last_char :: "string \<Rightarrow> string" where
  "last_char s = (if s = [] then [] else [last s])"

text \<open>\<^verbatim>\<open>s.replace(c, '')\<close> removes the first occurrence only.\<close>

definition remove_first :: "char \<Rightarrow> string \<Rightarrow> string" where
  "remove_first c s = remove1 c s"

section \<open>Numbers\<close>

definition is_digit :: "char \<Rightarrow> bool" where
  "is_digit c \<longleftrightarrow> 48 \<le> (of_char c :: nat) \<and> (of_char c :: nat) \<le> 57"

definition digit_value :: "char \<Rightarrow> nat" where
  "digit_value c = of_char c - 48"

fun dec_run :: "nat \<Rightarrow> string \<Rightarrow> nat" where
  "dec_run acc [] = acc"
| "dec_run acc (c # s) = dec_run (10 * acc + digit_value c) s"

text \<open>Sign, and exponent when there is one.\<close>

definition sign_of :: "string \<Rightarrow> bool \<times> string" where
  "sign_of s = (case s of c # r \<Rightarrow>
       if c = CHR ''-'' then (True, r) else if c = CHR ''+'' then (False, r) else (False, s)
     | [] \<Rightarrow> (False, []))"

definition exponent_of :: "string \<Rightarrow> int" where
  "exponent_of s = (case s of c # r \<Rightarrow>
       if c = CHR ''e'' \<or> c = CHR ''E''
       then (let (neg, r) = sign_of r; n = int (dec_run 0 (takeWhile is_digit r)) in if neg then - n else n)
       else 0
     | [] \<Rightarrow> 0)"

definition parseFloat :: "string \<Rightarrow> jsval" where
  "parseFloat s =
     (let (neg, s) = sign_of (dropWhile js_space s) in
      if starts ''Infinity'' s then (if neg then NegInfinity else Infinity)
      else (let ip = takeWhile is_digit s; r = dropWhile is_digit s;
                (fp, r) = (case r of c # r' \<Rightarrow>
                    if c = CHR ''.'' then (takeWhile is_digit r', dropWhile is_digit r') else ([], r)
                  | [] \<Rightarrow> ([], []))
        in if ip = [] \<and> fp = [] then NaN
           else (let v = of_nat (dec_run 0 (ip @ fp)) * 10 powi (exponent_of r - int (length fp))
                 in Num (if neg then - v else v))))"

text \<open>\<^verbatim>\<open>parseInt(s)\<close>, which reads a prefix \<open>0x\<close> as hexadecimal.\<close>

definition parseInt10 :: "string \<Rightarrow> jsval" where
  "parseInt10 s =
     (let (neg, t) = sign_of (dropWhile js_space s) in
      if take 2 t \<in> {''0x'', ''0X''}
      then (case parse_hex_int s of Some v \<Rightarrow> NumI v | None \<Rightarrow> NaN)
      else (let ds = takeWhile is_digit t; n = int (dec_run 0 ds)
            in if ds = [] then NaN else NumI (if neg then - n else n)))"

text \<open>\<^verbatim>\<open>let v = parseFloat(s); if (isNaN(v)) v = s\<close>.\<close>

definition number_or_text :: "string \<Rightarrow> jsval" where
  "number_or_text s = (if parseFloat s = NaN then Str s else parseFloat s)"

section \<open>Regular expression loops\<close>

function scan_all :: "(string \<Rightarrow> ('a \<times> string) option) \<Rightarrow> string \<Rightarrow> 'a list" where
  "scan_all m s =
     (if s = [] then []
      else (case m s of
          Some (x, r) \<Rightarrow> x # (if length r < length s then scan_all m r else scan_all m (tl s))
        | None \<Rightarrow> scan_all m (tl s)))"
  by pat_completeness auto
termination
  by (relation "measure (length \<circ> snd)") auto

declare scan_all.simps [simp del]

section \<open>Lemmas\<close>

lemma split_on_nonempty [simp]: "split_on c s \<noteq> []"
  by (induction s) (auto split: list.split)

lemma split_on_no [simp]: "c \<notin> set s \<Longrightarrow> split_on c s = [s]"
  by (induction s) auto

lemma split_on_append: "c \<notin> set p \<Longrightarrow> split_on c (p @ c # s) = p # split_on c s"
  by (induction p) auto

fun join_with :: "char \<Rightarrow> string list \<Rightarrow> string" where
  "join_with c [] = []"
| "join_with c [p] = p"
| "join_with c (p # q # ps) = p @ c # join_with c (q # ps)"

lemma split_join:
  "\<lbrakk>ps \<noteq> []; \<forall>p \<in> set ps. c \<notin> set p\<rbrakk> \<Longrightarrow> split_on c (join_with c ps) = ps"
  by (induction c ps rule: join_with.induct) (simp_all add: split_on_append)

lemma join_split: "join_with c (split_on c s) = s"
proof (induction s)
  case (Cons x s)
  then show ?case by (cases "split_on c s" rule: remdups_adj.cases) auto
qed simp

lemma split_on_pieces: "p \<in> set (split_on c s) \<Longrightarrow> c \<notin> set p"
  by (induction s arbitrary: p) (auto split: list.splits if_splits)

lemma trim_id:
  "\<lbrakk>s \<noteq> [] \<Longrightarrow> \<not> js_space (hd s); s \<noteq> [] \<Longrightarrow> \<not> js_space (last s)\<rbrakk> \<Longrightarrow> trim s = s"
  by (cases s) (auto simp: trim_def dropWhile_eq_self_iff hd_append hd_rev split: if_splits)

lemma trim_blanks:
  assumes "\<forall>c \<in> set b. js_space c"
  shows "trim (s @ b) = trim s"
proof (cases "\<forall>c \<in> set s. js_space c")
  case True
  with assms have "dropWhile js_space (s @ b) = []" "dropWhile js_space s = []" by auto
  then show ?thesis by (simp only: trim_def)
next
  case False
  then have "dropWhile js_space (s @ b) = dropWhile js_space s @ b" by (auto intro: dropWhile_append1)
  moreover have "dropWhile js_space (rev b @ r) = dropWhile js_space r" for r
    using assms by (intro dropWhile_append2) simp
  ultimately show ?thesis by (simp add: trim_def)
qed

lemma hex_digit_plain:
  assumes "hex_digit c = Some d"
  shows "\<not> js_space c \<and> c \<notin> {CHR ''-'', CHR ''+'', CHR ''*'', CHR ''x'', CHR ''X''}"
proof -
  have "(of_char c :: int) = int (of_char c)" by (rule of_nat_of_char[symmetric])
  then show ?thesis using assms by (auto simp: hex_digit_def js_space_def Let_def split: if_splits)
qed

lemma trim_no_space: "\<forall>c \<in> set s. \<not> js_space c \<Longrightarrow> trim s = s"
  by (intro trim_id) auto

lemma starts_append [simp]: "starts p (p @ s)"
  by (simp add: starts_def)

lemma of_char_digit: "d < 10 \<Longrightarrow> of_char (char_of (48 + d) :: char) = (48 + d :: nat)"
  by simp

lemma nat_digits_digits: "\<forall>c \<in> set (nat_digits n). is_digit c"
  by (induction n rule: nat_digits.induct)
    (subst nat_digits.simps, auto simp: is_digit_def)

lemma nat_digits_nonempty [simp]: "nat_digits n \<noteq> []"
  by (subst nat_digits.simps) simp

lemma dec_run_append: "dec_run acc (s @ t) = dec_run (dec_run acc s) t"
  by (induction s arbitrary: acc) simp_all

lemma dec_run_nat_digits: "dec_run acc (nat_digits n) = acc * 10 ^ length (nat_digits n) + n"
proof (induction n arbitrary: acc rule: nat_digits.induct)
  case (1 n)
  show ?case
  proof (cases "n < 10")
    case True
    then show ?thesis by (subst (1 2) nat_digits.simps) (simp add: digit_value_def)
  next
    case False
    then have u: "nat_digits n = nat_digits (n div 10) @ [char_of (48 + n mod 10)]"
      by (subst nat_digits.simps) simp
    have "digit_value (char_of (48 + n mod 10)) = n mod 10"
      unfolding digit_value_def by (subst of_char_digit) simp_all
    then show ?thesis
      unfolding u dec_run_append using 1[OF False, of acc] by (simp add: algebra_simps)
  qed
qed

lemma nat_digits_inj: "nat_digits m = nat_digits n \<Longrightarrow> m = n"
  by (metis add_0 dec_run_nat_digits mult_0)

text \<open>A decimal number: \<open>n\<close> units of the \<open>k\<close>-th digit behind the point.\<close>

definition pad_zeros :: "nat \<Rightarrow> string \<Rightarrow> string" where
  "pad_zeros k s = replicate (k - length s) (CHR ''0'') @ s"

definition decimal_text :: "int \<Rightarrow> nat \<Rightarrow> string" where
  "decimal_text n k = (if n < 0 then ''-'' else []) @ nat_digits (nat \<bar>n\<bar> div 10 ^ k)
     @ (if k = 0 then [] else CHR ''.'' # pad_zeros k (nat_digits (nat \<bar>n\<bar> mod 10 ^ k)))"

lemma dec_run_zeros: "dec_run 0 (replicate j (CHR ''0'') @ s) = dec_run 0 s"
  by (induction j) (simp_all add: digit_value_def)

lemma dec_run_split: "dec_run acc s = acc * 10 ^ length s + dec_run 0 s"
proof (induction s arbitrary: acc)
  case (Cons c s)
  from Cons[of "10 * acc + digit_value c"] Cons[of "digit_value c"] show ?case
    by (simp add: algebra_simps)
qed simp

lemma length_nat_digits: "m < 10 ^ k \<Longrightarrow> 0 < k \<Longrightarrow> length (nat_digits m) \<le> k"
proof (induction m arbitrary: k rule: nat_digits.induct)
  case (1 n)
  show ?case
  proof (cases "n < 10")
    case True
    then show ?thesis using 1(3) by (subst nat_digits.simps) simp
  next
    case False
    then obtain j where k: "k = Suc j" "0 < j" using 1(2,3) by (cases k; cases "k - 1") auto
    then have "n div 10 < 10 ^ j" using 1(2) by (simp add: less_mult_imp_div_less mult.commute)
    then show ?thesis using 1(1)[OF False, of j] k False by (subst nat_digits.simps) simp
  qed
qed

lemma starts_Infinity_digit: "is_digit c \<Longrightarrow> \<not> starts ''Infinity'' (c # s)"
  by (auto simp: starts_def is_digit_def)

lemma digit_not: "is_digit c \<Longrightarrow> \<not> js_space c \<and> c \<noteq> CHR ''-'' \<and> c \<noteq> CHR ''+'' \<and> c \<noteq> CHR ''.''"
  by (auto simp: js_space_def is_digit_def)

lemma parseFloat_parts:
  assumes ip: "\<forall>c \<in> set ip. is_digit c" "ip \<noteq> []" and fp: "\<forall>c \<in> set fp. is_digit c"
  shows "parseFloat ((if neg then ''-'' else []) @ ip @ (if fp = [] then [] else CHR ''.'' # fp))
    = Num ((if neg then -1 else 1) * (of_nat (dec_run 0 (ip @ fp)) / 10 ^ length fp))"
proof -
  let ?t = "ip @ (if fp = [] then [] else CHR ''.'' # fp)"
  obtain c r where c: "ip = c # r" "is_digit c" using ip by (cases ip) auto
  have sign: "sign_of (dropWhile js_space ((if neg then ''-'' else []) @ ?t)) = (neg, ?t)"
    using c digit_not[OF c(2)] by (simp add: sign_of_def js_space_def)
  have inf: "\<not> starts ''Infinity'' ?t" using starts_Infinity_digit[OF c(2)] unfolding c(1) by simp
  have dot: "\<not> is_digit (CHR ''.'')" by (simp add: is_digit_def)
  have run: "takeWhile is_digit ?t = ip" "dropWhile is_digit ?t = (if fp = [] then [] else CHR ''.'' # fp)"
    "takeWhile is_digit fp = fp" "dropWhile is_digit fp = []"
    using ip fp dot by (simp_all add: takeWhile_append dropWhile_append)
  show ?thesis
  proof (cases "fp = []")
    case True
    then show ?thesis
      unfolding parseFloat_def sign Let_def prod.case run using inf ip(2) by (simp add: exponent_of_def)
  next
    case False
    then have f: "(if fp = [] then [] else CHR ''.'' # fp) = CHR ''.'' # fp" by simp
    show ?thesis
      unfolding parseFloat_def sign Let_def prod.case run using inf ip(2) False
      by (simp add: f run exponent_of_def power_int_minus divide_inverse)
  qed
qed

text \<open>The digits before and behind the point.\<close>

lemma fixed_digits:
  fixes N k :: nat
  defines "fp \<equiv> (if k = 0 then [] else pad_zeros k (nat_digits (N mod 10 ^ k)))"
  shows "length fp = k" "\<forall>c \<in> set fp. is_digit c" "dec_run 0 (nat_digits (N div 10 ^ k) @ fp) = N"
proof -
  show len: "length fp = k" using length_nat_digits[of "N mod 10 ^ k" k] by (simp add: fp_def pad_zeros_def)
  show "\<forall>c \<in> set fp. is_digit c" using nat_digits_digits by (auto simp: fp_def pad_zeros_def is_digit_def)
  have "dec_run 0 fp = N mod 10 ^ k"
    using dec_run_nat_digits[of 0 "N mod 10 ^ k"] by (simp add: fp_def pad_zeros_def dec_run_zeros)
  moreover have "dec_run (N div 10 ^ k) fp = N div 10 ^ k * 10 ^ length fp + dec_run 0 fp" by (rule dec_run_split)
  moreover have "dec_run 0 (nat_digits (N div 10 ^ k)) = N div 10 ^ k" using dec_run_nat_digits[of 0 "N div 10 ^ k"] by simp
  ultimately show "dec_run 0 (nat_digits (N div 10 ^ k) @ fp) = N"
    by (simp only: dec_run_append len div_mult_mod_eq)
qed

lemma parseFloat_decimal: "parseFloat (decimal_text n k) = Num (of_int n / 10 ^ k)"
proof -
  let ?N = "nat \<bar>n\<bar>" let ?ip = "nat_digits (nat \<bar>n\<bar> div 10 ^ k)"
  let ?fp = "if k = 0 then [] else pad_zeros k (nat_digits (?N mod 10 ^ k))"
  note fp = fixed_digits[where N = ?N and k = k]
  have "decimal_text n k = (if n < 0 then ''-'' else []) @ ?ip @ (if ?fp = [] then [] else CHR ''.'' # ?fp)"
    using fp(1) by (auto simp: decimal_text_def)
  moreover have "parseFloat ((if n < 0 then ''-'' else []) @ ?ip @ (if ?fp = [] then [] else CHR ''.'' # ?fp))
      = Num ((if n < 0 then -1 else 1) * (of_nat ?N / 10 ^ k))"
    using parseFloat_parts[OF nat_digits_digits nat_digits_nonempty fp(2), of "n < 0" "?N div 10 ^ k"]
    unfolding fp(1,3) .
  ultimately show ?thesis by simp
qed

lemma number_or_text_decimal: "number_or_text (decimal_text n k) = Num (of_int n / 10 ^ k)"
  by (simp add: number_or_text_def parseFloat_decimal)

lemma decimal_text_chars: "c \<in> set (decimal_text n k) \<Longrightarrow> is_digit c \<or> c = CHR ''-'' \<or> c = CHR ''.''"
  using nat_digits_digits by (auto simp: decimal_text_def pad_zeros_def is_digit_def split: if_splits)

lemma decimal_text_nonempty [simp]: "decimal_text n k \<noteq> []"
  by (simp add: decimal_text_def)

section \<open>Cutting strings\<close>

lemma find_char: "c \<notin> set p \<Longrightarrow> find_text [c] (p @ c # s) = Some (length p)"
  by (induction p) (auto simp: starts_def)

lemma find_char_None: "c \<notin> set s \<Longrightarrow> find_text [c] s = None"
  by (induction s) (auto simp: starts_def)

lemma index_of_char: "c \<notin> set p \<Longrightarrow> index_of (p @ c # s) [c] 0 = Some (length p)"
  by (simp add: index_of_def find_char)

lemma index_of_char_None: "c \<notin> set s \<Longrightarrow> index_of s [c] 0 = None"
  by (simp add: index_of_def find_char_None)

lemma substring_prefix: "js_substring (p @ s) 0 (int (length p)) = p"
  by (simp add: js_substring_def)

lemma substring_rest: "substring_from (p @ c # s) (int (length p) + 1) = s"
  by (simp add: substring_from_def js_substring_def nat_add_distrib)

lemma digit_word_space: "is_digit c \<Longrightarrow> \<not> js_space c"
  by (simp add: digit_not)

lemma decimal_text_no_space: "c \<in> set (decimal_text n k) \<Longrightarrow> \<not> js_space c"
  using decimal_text_chars[of c n k] digit_word_space[of c] by (auto simp: js_space_def is_digit_def)

lemma trim_decimal [simp]: "trim (decimal_text n k) = decimal_text n k"
  by (intro trim_no_space) (simp add: decimal_text_no_space)

section \<open>Joined pieces\<close>

lemma join_with_Cons: "ps \<noteq> [] \<Longrightarrow> join_with c (p # ps) = p @ c # join_with c ps"
  by (cases ps) simp_all

lemma join_with_ends:
  assumes "ps \<noteq> []" and "\<forall>p \<in> set ps. p \<noteq> []"
  shows "join_with c ps \<noteq> []" "hd (join_with c ps) = hd (hd ps)" "last (join_with c ps) = last (last ps)"
proof -
  have "join_with c ps \<noteq> [] \<and> hd (join_with c ps) = hd (hd ps) \<and> last (join_with c ps) = last (last ps)"
    using assms by (induction c ps rule: join_with.induct) auto
  then show "join_with c ps \<noteq> []" "hd (join_with c ps) = hd (hd ps)" "last (join_with c ps) = last (last ps)"
    by blast+
qed

lemma join_with_chars: "x \<in> set (join_with c ps) \<Longrightarrow> x = c \<or> (\<exists>p \<in> set ps. x \<in> set p)"
  by (induction c ps rule: join_with.induct) auto

end
