(* ===== verification/Text_Parsers.thy ===== *)
theory Text_Parsers
  imports Text_Strings
begin

text \<open>
  The parser scripts for text frames (\<^verbatim>\<open>app/rcc/scripts/parser/js\<close>): delimited and
  fixed-width fields, \<^verbatim>\<open>key=value\<close> pairs, AT responses, INI, URL-encoded, YAML and XML frames.
  A parser with a table of values is a function from the frame and the table to the new table.  Every
  one of them returns on every frame: the model is a total function, and no branch of the scripts
  throws.  Messages to the console are left out.
\<close>

section \<open>Delimited fields\<close>

definition comma_parse :: "string \<Rightarrow> string list" where
  "comma_parse frame = split_on (CHR '','') frame"

definition semicolon_parse :: "string \<Rightarrow> string list" where
  "semicolon_parse frame = split_on (CHR '';'') frame"

definition tab_parse :: "string \<Rightarrow> string list" where
  "tab_parse frame = split_on (CHR 0x09) frame"

definition pipe_parse :: "string \<Rightarrow> string list" where
  "pipe_parse frame = split_on (CHR ''|'') frame"

definition fixed_width_parse :: "string \<Rightarrow> string list" where
  "fixed_width_parse frame = filter (\<lambda>value. value \<noteq> []) (split_blanks frame)"

text \<open>The raw bytes as numbers.\<close>

definition raw_parse :: "byte list \<Rightarrow> jsval list" where
  "raw_parse frame = map (\<lambda>b. NumI (uint b)) frame"

section \<open>Key-value pairs\<close>

definition kv_keys :: "(string \<times> nat) list" where
  "kv_keys = [(''temperature'', 0), (''humidity'', 1), (''pressure'', 2)]"

definition kv_parsedValues :: "jsval list" where
  "kv_parsedValues = replicate (length kv_keys) (Num 0)"

definition is_word :: "char \<Rightarrow> bool" where
  "is_word c = (let n = (of_char c :: nat) in
     is_digit c \<or> 65 \<le> n \<and> n \<le> 90 \<or> 97 \<le> n \<and> n \<le> 122 \<or> n = 95)"

definition digit_or_dot :: "char \<Rightarrow> bool" where
  "digit_or_dot c \<longleftrightarrow> is_digit c \<or> c = CHR ''.''"

text \<open>\<^verbatim>\<open>/([\w]+)=([\d.]+)/\<close>\<close>

definition match_pair :: "string \<Rightarrow> ((string \<times> string) \<times> string) option" where
  "match_pair s =
     (let k = takeWhile is_word s; r = dropWhile is_word s in
      if k = [] then None
      else (case r of [] \<Rightarrow> None
        | c # r \<Rightarrow>
            (let v = takeWhile digit_or_dot r in
             if c \<noteq> CHR ''='' \<or> v = [] then None else Some ((k, v), dropWhile digit_or_dot r))))"

definition kv_parse :: "string \<Rightarrow> jsval list \<Rightarrow> jsval list" where
  "kv_parse frame parsedValues =
     fold (\<lambda>(key, v). store_known kv_keys key (parseFloat v)) (scan_all match_pair frame) parsedValues"

section \<open>AT commands\<close>

definition at_numItems :: nat where "at_numItems = 8"

definition commandToIndexMap :: "(string \<times> nat list) list" where
  "commandToIndexMap = [(''CSQ'', [0, 1]), (''CREG'', [2, 3]), (''CGATT'', [4]), (''COPS'', [5, 6, 7])]"

definition at_parse :: "string \<Rightarrow> jsval list \<Rightarrow> jsval list" where
  "at_parse frame parsedValues =
     (let frame = trim frame in
      if CHR '':'' \<notin> set frame then parsedValues
      else (let parts = split_on (CHR '':'') frame;
                command = trim (remove_first (CHR ''+'') (parts ! 0));
                params = map (\<lambda>p. number_or_text (trim p)) (split_on (CHR '','') (trim (parts ! 1)))
        in case map_of commandToIndexMap command of
             None \<Rightarrow> parsedValues
           | Some indices \<Rightarrow> store_values indices params parsedValues))"

section \<open>INI files\<close>

definition ini_numItems :: nat where "ini_numItems = 5"

definition ini_keys :: "(string \<times> nat) list" where
  "ini_keys = [(''temperature'', 0), (''humidity'', 1), (''pressure'', 2), (''battery'', 3), (''signal'', 4)]"

definition ini_line :: "string \<Rightarrow> jsval list \<Rightarrow> jsval list" where
  "ini_line l parsedValues =
     (let line = trim l in
      if length line = 0 then parsedValues
      else if first_char line = '';'' \<or> first_char line = ''#'' then parsedValues
      else (let parts = split_on (CHR ''='') line in
        if length parts < 2 then parsedValues
        else (let key = trim (parts ! 0); valueStr = trim (parts ! 1)
              in store_known ini_keys key (number_or_text valueStr) parsedValues)))"

definition ini_parse :: "string \<Rightarrow> jsval list \<Rightarrow> jsval list" where
  "ini_parse frame parsedValues = fold ini_line (split_on (CHR 0x0A) frame) parsedValues"

section \<open>URL-encoded forms\<close>

text \<open>The script's own \<^verbatim>\<open>decodeURIComponent\<close>.  Two characters that are no number give the code unit
0; a sign in front of a digit gives a code unit near \<open>0xFFFF\<close>, of which the model keeps the low
byte.\<close>

fun uri_decode :: "string \<Rightarrow> string" where
  "uri_decode [] = []"
| "uri_decode (c # r) =
     (if c = CHR ''%'' then
        (if 2 \<le> length r
         then js_char (case parse_hex_int (take 2 r) of Some n \<Rightarrow> n | None \<Rightarrow> 0) # uri_decode (drop 2 r)
         else c # uri_decode r)
      else if c = CHR ''+'' then CHR '' '' # uri_decode r
      else c # uri_decode r)"

definition url_numItems :: nat where "url_numItems = 6"

definition url_keys :: "(string \<times> nat) list" where
  "url_keys = [(''temperature'', 0), (''humidity'', 1), (''pressure'', 2), (''voltage'', 3),
     (''current'', 4), (''power'', 5)]"

definition url_pair :: "string \<Rightarrow> jsval list \<Rightarrow> jsval list" where
  "url_pair pair parsedValues =
     (if length pair = 0 then parsedValues
      else (case index_of pair ''='' 0 of
          None \<Rightarrow> parsedValues
        | Some equalPos \<Rightarrow>
            (let key = uri_decode (js_substring pair 0 (int equalPos));
                 valueStr = uri_decode (substring_from pair (int equalPos + 1))
             in store_known url_keys key (number_or_text valueStr) parsedValues)))"

definition url_parse :: "string \<Rightarrow> jsval list \<Rightarrow> jsval list" where
  "url_parse frame parsedValues =
     (let frame = trim frame in
      if length frame = 0 then parsedValues
      else fold url_pair (split_on (CHR ''&'') frame) parsedValues)"

section \<open>YAML\<close>

definition yaml_numItems :: nat where "yaml_numItems = 7"

definition yaml_keys :: "(string \<times> nat) list" where
  "yaml_keys = [(''temperature'', 0), (''humidity'', 1), (''pressure'', 2), (''voltage'', 3),
     (''current'', 4), (''altitude'', 5), (''speed'', 6)]"

definition quoted :: "string \<Rightarrow> bool" where
  "quoted s \<longleftrightarrow> first_char s = [CHR 0x22] \<and> last_char s = [CHR 0x22]
     \<or> first_char s = [CHR 0x27] \<and> last_char s = [CHR 0x27]"

definition unquote :: "string \<Rightarrow> string" where
  "unquote s = js_substring s 1 (int (length s) - 1)"

definition parseYAMLValue :: "string \<Rightarrow> jsval" where
  "parseYAMLValue v =
     (let valueStr = trim v in
      if valueStr \<in> {[], ''null'', ''~''} then Null
      else if valueStr \<in> {''true'', ''yes'', ''on''} then Bool True
      else if valueStr \<in> {''false'', ''no'', ''off''} then Bool False
      else if quoted valueStr then Str (unquote valueStr)
      else number_or_text valueStr)"

definition removeComment :: "string \<Rightarrow> string" where
  "removeComment line = (case index_of line ''#'' 0 of
     Some commentPos \<Rightarrow> js_substring line 0 (int commentPos) | None \<Rightarrow> line)"

definition yaml_line :: "string \<Rightarrow> jsval list \<Rightarrow> jsval list" where
  "yaml_line l parsedValues =
     (let line = trim (removeComment l) in
      if length line = 0 then parsedValues
      else if line = ''---'' \<or> line = ''...'' then parsedValues
      else (case index_of line '':'' 0 of
          None \<Rightarrow> parsedValues
        | Some colonPos \<Rightarrow>
            (let key = trim (js_substring line 0 (int colonPos));
                 valueStr = trim (substring_from line (int colonPos + 1)) in
             if length key = 0 then parsedValues
             else (let key = (if quoted key then unquote key else key); value = parseYAMLValue valueStr in
               if value = Null then parsedValues else store_known yaml_keys key value parsedValues))))"

definition yaml_parse :: "string \<Rightarrow> jsval list \<Rightarrow> jsval list" where
  "yaml_parse frame parsedValues =
     (let frame = trim frame in
      if length frame = 0 then parsedValues
      else fold yaml_line (split_on (CHR 0x0A) frame) parsedValues)"

section \<open>XML\<close>

definition xml_numItems :: nat where "xml_numItems = 8"

definition xml_keys :: "(string \<times> nat) list" where
  "xml_keys = [(''temperature'', 0), (''humidity'', 1), (''pressure'', 2), (''voltage'', 3),
     (''current'', 4), (''altitude'', 5), (''speed'', 6)]"

text \<open>The loop over the occurrences of a tag; the string is the part behind the search position.\<close>

function tag_values :: "string \<Rightarrow> string \<Rightarrow> string list" where
  "tag_values tagName xml =
     (let openTag = ''<'' @ tagName @ ''>''; closeTag = ''</'' @ tagName @ ''>'' in
      case find_text openTag xml of
        None \<Rightarrow> []
      | Some startPos \<Rightarrow>
          (let r = drop startPos xml in
           case find_text closeTag r of
             None \<Rightarrow> []
           | Some endPos \<Rightarrow>
               js_substring r (int (length openTag)) (int endPos)
               # (if xml = [] then [] else tag_values tagName (drop (endPos + length closeTag) r))))"
  by pat_completeness auto
termination
  by (relation "measure (length \<circ> snd)") auto

declare tag_values.simps [simp del]

definition extractTagValue :: "string \<Rightarrow> string \<Rightarrow> string list" where
  "extractTagValue xml tagName = tag_values tagName xml"

text \<open>\<^verbatim>\<open><tag([^>]*)>([^<]*)</tag>\<close> and \<^verbatim>\<open><tag([^/>]*)/\s*>\<close>\<close>

definition match_tag :: "string \<Rightarrow> string \<Rightarrow> (string \<times> string) option" where
  "match_tag tagName s =
     (if \<not> starts (''<'' @ tagName) s then None
      else (case dropWhile (\<lambda>c. c \<noteq> CHR ''>'') (drop (length tagName + 1) s) of
          [] \<Rightarrow> None
        | _ # r \<Rightarrow>
            (let content = takeWhile (\<lambda>c. c \<noteq> CHR ''<'') r; r = dropWhile (\<lambda>c. c \<noteq> CHR ''<'') r;
                 closeTag = ''</'' @ tagName @ ''>''
             in if starts closeTag r then Some (content, drop (length closeTag) r) else None)))"

definition match_self_closing :: "string \<Rightarrow> string \<Rightarrow> (string \<times> string) option" where
  "match_self_closing tagName s =
     (if \<not> starts (''<'' @ tagName) s then None
      else (let r = drop (length tagName + 1) s;
                attrs = takeWhile (\<lambda>c. c \<noteq> CHR ''/'' \<and> c \<noteq> CHR ''>'') r in
        case dropWhile (\<lambda>c. c \<noteq> CHR ''/'' \<and> c \<noteq> CHR ''>'') r of
          [] \<Rightarrow> None
        | c # r \<Rightarrow>
            if c \<noteq> CHR ''/'' then None
            else (case dropWhile js_space r of [] \<Rightarrow> None
              | c # r \<Rightarrow> if c = CHR ''>'' then Some (attrs, r) else None)))"

text \<open>\<^verbatim>\<open>/value\s*=\s*["']([^"']*)["']/\<close>\<close>

definition is_quote :: "char \<Rightarrow> bool" where
  "is_quote c \<longleftrightarrow> c = CHR 0x22 \<or> c = CHR 0x27"

definition match_value :: "string \<Rightarrow> (string \<times> string) option" where
  "match_value s =
     (if \<not> starts ''value'' s then None
      else (case dropWhile js_space (drop 5 s) of [] \<Rightarrow> None
        | c # r \<Rightarrow>
            if c \<noteq> CHR ''='' then None
            else (case dropWhile js_space r of [] \<Rightarrow> None
              | q # r \<Rightarrow>
                  if \<not> is_quote q then None
                  else (case dropWhile (\<lambda>c. \<not> is_quote c) r of [] \<Rightarrow> None
                    | _ # rest \<Rightarrow> Some (takeWhile (\<lambda>c. \<not> is_quote c) r, rest)))))"

definition extractTagWithAttributes :: "string \<Rightarrow> string \<Rightarrow> string list" where
  "extractTagWithAttributes xml tagName =
     filter (\<lambda>content. length content > 0) (map trim (scan_all (match_tag tagName) xml))
     @ concat (map (\<lambda>attrs. take 1 (scan_all match_value attrs)) (scan_all (match_self_closing tagName) xml))"

definition xml_tag :: "string \<Rightarrow> string \<times> nat \<Rightarrow> jsval list \<Rightarrow> jsval list" where
  "xml_tag frame tag parsedValues =
     (let (tagName, index) = tag;
          values1 = extractTagValue frame tagName;
          values2 = (if length values1 = 0 then extractTagWithAttributes frame tagName else values1)
      in if length values2 = 0 then parsedValues
         else set_element parsedValues index (number_or_text (trim (values2 ! 0))))"

definition xml_parse :: "string \<Rightarrow> jsval list \<Rightarrow> jsval list" where
  "xml_parse frame parsedValues =
     (let frame = trim frame in
      if length frame = 0 then parsedValues else fold (xml_tag frame) xml_keys parsedValues)"

section \<open>Frames of named values\<close>

text \<open>A setting is a name with a decimal value: \<open>n\<close> units of the \<open>d\<close>-th digit behind the point.
Plain names consist of letters, digits and underscores.\<close>

type_synonym setting = "string \<times> int \<times> nat"

definition plain :: "string \<Rightarrow> bool" where
  "plain k \<longleftrightarrow> k \<noteq> [] \<and> list_all is_word k"

definition setting_values :: "setting list \<Rightarrow> (string \<times> jsval) list" where
  "setting_values ss = map (\<lambda>(k, n, d). (k, Num (of_int n / 10 ^ d))) ss"

lemma is_word_facts:
  "is_word c \<Longrightarrow> \<not> js_space c"
  "is_word c \<Longrightarrow> c \<notin> set '';#=&:%+-.,<>''" "is_word c \<Longrightarrow> c \<noteq> CHR 0x22 \<and> c \<noteq> CHR 0x27 \<and> c \<noteq> CHR 0x0A"
  by (auto simp: is_word_def is_digit_def js_space_def Let_def)

lemma digit_is_word: "is_digit c \<Longrightarrow> is_word c"
  by (simp add: is_word_def Let_def)

lemma plain_facts:
  assumes "plain k"
  shows "c \<in> set k \<Longrightarrow> \<not> js_space c" "c \<in> set '';#=&:%+-.,<>'' \<Longrightarrow> c \<notin> set k" "CHR 0x0A \<notin> set k" "trim k = k" "k \<noteq> []"
    "\<not> js_space (hd k)"
proof -
  have w: "is_word c" if "c \<in> set k" for c using assms that by (simp add: plain_def list_all_iff)
  show "c \<in> set k \<Longrightarrow> \<not> js_space c" using w is_word_facts(1) by blast
  show "c \<in> set '';#=&:%+-.,<>'' \<Longrightarrow> c \<notin> set k" using w is_word_facts(2) by blast
  show "CHR 0x0A \<notin> set k" using w is_word_facts(3) by blast
  show "trim k = k" using w is_word_facts(1) by (intro trim_no_space) blast
  show "k \<noteq> []" using assms by (simp add: plain_def)
  then show "\<not> js_space (hd k)" using w is_word_facts(1) by simp
qed

text \<open>The contract of a format: one piece per setting, read by \<open>piece\<close>, with a separator that no piece
contains.\<close>

locale setting_format = key_table keys size for keys size +
  fixes piece :: "string \<Rightarrow> jsval list \<Rightarrow> jsval list" and print_setting :: "setting \<Rightarrow> string" and sep :: char
  assumes piece_reads: "plain k \<Longrightarrow> piece (print_setting (k, n, d)) vs = store_known keys k (Num (of_int n / 10 ^ d)) vs"
    and sep_free: "plain k \<Longrightarrow> sep \<notin> set (print_setting (k, n, d))"
begin

lemma pieces_read:
  assumes "ss \<noteq> []" and "\<forall>s \<in> set ss. plain (fst s)"
  shows "fold piece (split_on sep (join_with sep (map print_setting ss))) vs = store_all keys (setting_values ss) vs"
proof -
  have "split_on sep (join_with sep (map print_setting ss)) = map print_setting ss"
    using assms sep_free by (intro split_join) auto
  moreover have "fold piece (map print_setting ss) vs = store_all keys (setting_values ss) vs"
    using assms(2) by (induction ss arbitrary: vs) (auto simp: setting_values_def piece_reads)
  ultimately show ?thesis by simp
qed

lemma settings_at:
  assumes "ss \<noteq> []" and "\<forall>s \<in> set ss. plain (fst s)" and "map_of keys k = Some i"
  shows "fold piece (split_on sep (join_with sep (map print_setting ss))) (map old [0..<size]) ! i
    = (case map_of (rev (setting_values ss)) k of Some v \<Rightarrow> v | None \<Rightarrow> old i)"
  unfolding pieces_read[OF assms(1,2)] using store_all_at[of "map old [0..<size]" k i] index_small[OF assms(3)] assms(3)
  by (simp add: cong: option.case_cong)

end

definition ini_setting :: "setting \<Rightarrow> string" where
  "ini_setting = (\<lambda>(k, n, d). k @ ''='' @ decimal_text n d)"

lemma trim_two:
  assumes "plain k" shows "trim (k @ s @ decimal_text n d) = k @ s @ decimal_text n d"
proof (rule trim_id)
  show "\<not> js_space (hd (k @ s @ decimal_text n d))" using plain_facts(5,6)[OF assms] by simp
  show "\<not> js_space (last (k @ s @ decimal_text n d))"
    using decimal_text_no_space[OF last_in_set, of n d] by simp
qed

lemma decimal_text_free: "c \<in> set '';#=&:%+,<>'' \<or> c = CHR 0x0A \<Longrightarrow> c \<notin> set (decimal_text n d)"
proof -
  assume "c \<in> set '';#=&:%+,<>'' \<or> c = CHR 0x0A"
  then have "\<not> is_digit c" "c \<noteq> CHR ''-''" "c \<noteq> CHR ''.''" by (auto simp: is_digit_def)
  then show ?thesis using decimal_text_chars[of c n d] by blast
qed

interpretation ini: setting_format ini_keys ini_numItems ini_line ini_setting "CHR 0x0A"
proof
  show "list_all (\<lambda>(k, i). i < ini_numItems) ini_keys" "distinct (map snd ini_keys)"
    by (simp_all add: ini_keys_def ini_numItems_def)
next
  fix k n d vs assume k: "plain k"
  let ?l = "k @ ''='' @ decimal_text n d"
  have free: "CHR ''='' \<notin> set k" "CHR '';'' \<notin> set k" "CHR ''#'' \<notin> set k"
    by (rule plain_facts(2)[OF k], simp)+
  have "CHR ''='' \<notin> set (decimal_text n d)" by (rule decimal_text_free) simp
  then have parts: "split_on (CHR ''='') ?l = [k, decimal_text n d]"
    using split_on_append[OF free(1), of "decimal_text n d"] by simp
  obtain x r where x: "k = x # r" using plain_facts(5)[OF k] by (cases k) auto
  have "?l \<noteq> []" "first_char ?l \<noteq> '';''" "first_char ?l \<noteq> ''#''"
    using free(2,3) by (auto simp: x first_char_def)
  then show "ini_line (ini_setting (k, n, d)) vs = store_known ini_keys k (Num (of_int n / 10 ^ d)) vs"
    unfolding ini_line_def ini_setting_def prod.case Let_def trim_two[OF k] parts
    by (simp add: plain_facts(4)[OF k] number_or_text_decimal)
next
  fix k n d assume k: "plain k"
  have "CHR 0x0A \<notin> set (decimal_text n d)" by (rule decimal_text_free) simp
  then show "CHR 0x0A \<notin> set (ini_setting (k, n, d))"
    using plain_facts(3)[OF k] by (simp add: ini_setting_def)
qed

section \<open>Percent encoding\<close>

definition uri_encode :: "string \<Rightarrow> string" where
  "uri_encode s = concat (map (\<lambda>c. if is_word c then [c]
     else [CHR ''%'', hex_char (js_code c div 16), hex_char (js_code c mod 16)]) s)"

lemma hex_char_cases:
  assumes "0 \<le> d" and "d < 16"
  shows "hex_char d \<notin> set ''-+xX=&'' \<and> \<not> js_space (hex_char d)"
proof -
  have "d \<in> {0, 1, 2, 3, 4, 5, 6, 7, 8, 9, 10, 11, 12, 13, 14, 15}"
    using assms by simp presburger
  then show ?thesis by (auto simp: hex_char_def js_space_def)
qed

lemma code_parts: "0 \<le> js_code c div 16" "js_code c div 16 < 16" "0 \<le> js_code c mod 16" "js_code c mod 16 < 16"
  using js_code_range[of c] by (simp_all, presburger+)

lemma parse_hex_pair:
  "parse_hex_int [hex_char (js_code c div 16), hex_char (js_code c mod 16)] = Some (js_code c)"
  using hex_char_cases[OF code_parts(1,2)[of c]] hex_char_cases[OF code_parts(3,4)[of c]]
    hex_digit_char(1)[OF code_parts(1,2)[of c]] hex_digit_char(1)[OF code_parts(3,4)[of c]]
  by (simp add: parse_hex_int_def parseInt16_def)

lemma js_char_code [simp]: "js_char (js_code c) = c"
  by (simp add: js_char_def js_code_def)

lemma uri_encode_Cons: "uri_encode (c # s) = (if is_word c then [c]
     else [CHR ''%'', hex_char (js_code c div 16), hex_char (js_code c mod 16)]) @ uri_encode s"
  by (simp add: uri_encode_def)

lemma uri_decode_encode: "uri_decode (uri_encode s) = s"
proof (induction s)
  case (Cons c s)
  have "is_word c \<Longrightarrow> c \<noteq> CHR ''%'' \<and> c \<noteq> CHR ''+''"
    using is_word_facts(2)[of c] by auto
  then show ?case
    using Cons by (auto simp: uri_encode_Cons parse_hex_pair)
qed (simp add: uri_encode_def)

definition url_safe :: "char \<Rightarrow> bool" where
  "url_safe c \<longleftrightarrow> c \<noteq> CHR ''='' \<and> c \<noteq> CHR ''&'' \<and> \<not> js_space c"

lemma url_safe_chars: "is_word c \<Longrightarrow> url_safe c" "url_safe (CHR ''%'')"
  "url_safe (hex_char (js_code c div 16))" "url_safe (hex_char (js_code c mod 16))"
proof -
  show "is_word c \<Longrightarrow> url_safe c" using is_word_facts(1,2)[of c] by (auto simp: url_safe_def)
  show "url_safe (CHR ''%'')" by (simp add: url_safe_def js_space_def)
  show "url_safe (hex_char (js_code c div 16))" "url_safe (hex_char (js_code c mod 16))"
    using hex_char_cases[OF code_parts(1,2)[of c]] hex_char_cases[OF code_parts(3,4)[of c]]
    by (simp_all add: url_safe_def)
qed

lemma uri_encode_safe: "list_all url_safe (uri_encode s)"
  by (induction s) (simp_all add: uri_encode_Cons url_safe_chars, simp add: uri_encode_def)

lemma uri_encode_chars: "c \<in> set (uri_encode s) \<Longrightarrow> url_safe c"
  using uri_encode_safe[of s] by (simp add: list_all_iff)

definition url_setting :: "setting \<Rightarrow> string" where
  "url_setting = (\<lambda>(k, n, d). uri_encode k @ ''='' @ uri_encode (decimal_text n d))"

lemma url_pair_reads:
  "url_pair (url_setting (k, n, d)) vs = store_known url_keys k (Num (of_int n / 10 ^ d)) vs"
proof -
  let ?p = "uri_encode k @ CHR ''='' # uri_encode (decimal_text n d)"
  have "CHR ''='' \<notin> set (uri_encode k)" using uri_encode_chars[of "CHR ''=''" k] by (auto simp: url_safe_def)
  then have i: "index_of ?p ''='' 0 = Some (length (uri_encode k))" by (rule index_of_char)
  show ?thesis
    by (simp add: url_pair_def url_setting_def i substring_prefix substring_rest uri_decode_encode
        number_or_text_decimal)
qed

interpretation url: setting_format url_keys url_numItems url_pair url_setting "CHR ''&''"
proof
  show "list_all (\<lambda>(k, i). i < url_numItems) url_keys" "distinct (map snd url_keys)"
    by (simp_all add: url_keys_def url_numItems_def)
  show "url_pair (url_setting (k, n, d)) vs = store_known url_keys k (Num (of_int n / 10 ^ d)) vs" for k n d vs
    by (rule url_pair_reads)
  show "CHR ''&'' \<notin> set (url_setting (k, n, d))" for k n d
    using uri_encode_chars[of "CHR ''&''"] by (auto simp: url_setting_def url_safe_def)
qed

section \<open>YAML lines\<close>

definition yaml_setting :: "setting \<Rightarrow> string" where
  "yaml_setting = (\<lambda>(k, n, d). k @ '': '' @ decimal_text n d)"

lemma parseYAMLValue_decimal: "parseYAMLValue (decimal_text n d) = Num (of_int n / 10 ^ d)"
proof -
  obtain y q where "nat_digits (nat \<bar>n\<bar> div 10 ^ d) = y # q" "is_digit y"
    using nat_digits_digits[of "nat \<bar>n\<bar> div 10 ^ d"] nat_digits_nonempty[of "nat \<bar>n\<bar> div 10 ^ d"]
    by (cases "nat_digits (nat \<bar>n\<bar> div 10 ^ d)") auto
  then obtain x r where x: "decimal_text n d = x # r" "is_digit x \<or> x = CHR ''-''"
    unfolding decimal_text_def by (cases "n < 0") auto
  then have "x \<notin> set ''nt~yofe'' \<and> x \<noteq> CHR 0x22 \<and> x \<noteq> CHR 0x27" by (auto simp: is_digit_def)
  then have "x # r \<notin> {[], ''null'', ''~''}" "x # r \<notin> {''true'', ''yes'', ''on''}"
    "x # r \<notin> {''false'', ''no'', ''off''}" "\<not> quoted (x # r)"
    by (auto simp: quoted_def first_char_def)
  then show ?thesis
    using number_or_text_decimal[of n d] trim_decimal[of n d]
    unfolding parseYAMLValue_def Let_def x(1) by simp
qed

lemma yaml_line_reads:
  assumes k: "plain k"
  shows "yaml_line (yaml_setting (k, n, d)) vs = store_known yaml_keys k (Num (of_int n / 10 ^ d)) vs"
proof -
  let ?l = "k @ '': '' @ decimal_text n d"
  have free: "CHR '':'' \<notin> set k" "CHR ''#'' \<notin> set k" "CHR ''-'' \<notin> set k" "CHR ''.'' \<notin> set k"
    by (rule plain_facts(2)[OF k], simp)+
  have "CHR ''#'' \<notin> set (decimal_text n d)" by (rule decimal_text_free) simp
  then have comment: "removeComment ?l = ?l"
    using free(2) by (simp add: removeComment_def index_of_char_None)
  obtain x r where x: "k = x # r" using plain_facts(5)[OF k] by (cases k) auto
  have "x \<noteq> CHR ''-''" "x \<noteq> CHR ''.''" using free(3,4) x by auto
  then have marks: "?l \<noteq> []" "?l \<noteq> ''---''" "?l \<noteq> ''...''" by (simp_all add: x)
  have "is_word x" using k by (simp add: plain_def x)
  then have "\<not> quoted k" using is_word_facts(3)[of x] by (simp add: quoted_def first_char_def x)
  moreover have "index_of ?l '':'' 0 = Some (length k)"
    using index_of_char[OF free(1), of "'' '' @ decimal_text n d"] by simp
  moreover have "js_substring ?l 0 (int (length k)) = k"
    using substring_prefix[of k "'': '' @ decimal_text n d"] by simp
  moreover have "trim (substring_from ?l (int (length k) + 1)) = decimal_text n d"
  proof -
    have "substring_from ?l (int (length k) + 1) = '' '' @ decimal_text n d"
      using substring_rest[of k "CHR '':''" "'' '' @ decimal_text n d"] by simp
    moreover have "trim (CHR '' '' # s) = trim s" for s by (simp add: trim_def js_space_def)
    ultimately show ?thesis by simp
  qed
  ultimately show ?thesis
    using marks plain_facts(4,5)[OF k]
    by (simp only: yaml_line_def yaml_setting_def prod.case comment trim_two[OF k] Let_def length_0_conv
        if_False parseYAMLValue_decimal option.case jsval.distinct simp_thms)
qed

interpretation yaml: setting_format yaml_keys yaml_numItems yaml_line yaml_setting "CHR 0x0A"
proof
  show "list_all (\<lambda>(k, i). i < yaml_numItems) yaml_keys" "distinct (map snd yaml_keys)"
    by (simp_all add: yaml_keys_def yaml_numItems_def)
  show "plain k \<Longrightarrow> yaml_line (yaml_setting (k, n, d)) vs = store_known yaml_keys k (Num (of_int n / 10 ^ d)) vs" for k n d vs
    by (rule yaml_line_reads)
  fix k n d assume k: "plain k"
  have "CHR 0x0A \<notin> set (decimal_text n d)" by (rule decimal_text_free) simp
  then show "CHR 0x0A \<notin> set (yaml_setting (k, n, d))"
    using plain_facts(3)[OF k] by (simp add: yaml_setting_def)
qed

section \<open>Whole frames\<close>

definition ini_text :: "setting list \<Rightarrow> string" where
  "ini_text ss = join_with (CHR 0x0A) (map ini_setting ss)"

definition url_text :: "setting list \<Rightarrow> string" where
  "url_text ss = join_with (CHR ''&'') (map url_setting ss)"

definition yaml_text :: "setting list \<Rightarrow> string" where
  "yaml_text ss = join_with (CHR 0x0A) (map yaml_setting ss)"

lemma url_frame:
  assumes "ss \<noteq> []"
  shows "trim (url_text ss) = url_text ss" "url_text ss \<noteq> []"
proof -
  have "\<not> js_space c" if "c \<in> set (url_setting s)" for c s
    using that uri_encode_chars by (cases s) (auto simp: url_setting_def url_safe_def js_space_def)
  then have "\<not> js_space c" if "c \<in> set (url_text ss)" for c
    using that join_with_chars[of c "CHR ''&''" "map url_setting ss"] by (auto simp: url_text_def js_space_def)
  then show "trim (url_text ss) = url_text ss" by (intro trim_no_space) blast
  have "\<forall>p \<in> set (map url_setting ss). p \<noteq> []" by (auto simp: url_setting_def)
  then show "url_text ss \<noteq> []" using join_with_ends(1)[of "map url_setting ss"] assms by (simp add: url_text_def)
qed

lemma yaml_frame:
  assumes "ss \<noteq> []" and "\<forall>s \<in> set ss. plain (fst s)"
  shows "trim (yaml_text ss) = yaml_text ss" "yaml_text ss \<noteq> []"
proof -
  let ?ps = "map yaml_setting ss"
  have ne: "?ps \<noteq> []" "\<forall>p \<in> set ?ps. p \<noteq> []" using assms(1) by (auto simp: yaml_setting_def)
  note j = join_with_ends[OF ne, of "CHR 0x0A"]
  have "\<not> js_space (hd (yaml_setting s))" if "plain (fst s)" for s
    using plain_facts(5,6)[OF that] by (cases s) (simp add: yaml_setting_def)
  moreover have "\<not> js_space (last (yaml_setting s))" for s
    using decimal_text_no_space[OF last_in_set] by (cases s) (simp add: yaml_setting_def)
  ultimately show "trim (yaml_text ss) = yaml_text ss"
    unfolding yaml_text_def using assms j by (intro trim_id) (simp_all add: hd_map last_map)
  show "yaml_text ss \<noteq> []" unfolding yaml_text_def using j(1) .
qed

section \<open>Key-value pairs in free text\<close>

definition kv_setting :: "setting \<Rightarrow> string" where
  "kv_setting = (\<lambda>(k, n, d). k @ ''='' @ decimal_text n d)"

definition kv_text :: "setting list \<Rightarrow> string" where
  "kv_text ss = join_with (CHR '','') (map kv_setting ss)"

lemma match_pair_prefix:
  assumes "plain k" and "v \<noteq> []" and "\<forall>c \<in> set v. digit_or_dot c" and "rest \<noteq> [] \<Longrightarrow> \<not> digit_or_dot (hd rest)"
  shows "match_pair (k @ CHR ''='' # v @ rest) = Some ((k, v), rest)"
proof -
  have w: "\<forall>c \<in> set k. is_word c" "k \<noteq> []" using assms(1) by (simp_all add: plain_def list_all_iff)
  have eq: "\<not> is_word (CHR ''='')" by (simp add: is_word_def is_digit_def Let_def)
  have r: "takeWhile digit_or_dot (v @ rest) = v" "dropWhile digit_or_dot (v @ rest) = rest"
    using assms(3,4) by (cases rest; simp add: takeWhile_append dropWhile_append)+
  have t: "takeWhile is_word (k @ CHR ''='' # v @ rest) = k"
    "dropWhile is_word (k @ CHR ''='' # v @ rest) = CHR ''='' # v @ rest"
    using w(1) eq by (simp_all add: takeWhile_append dropWhile_append)
  show ?thesis unfolding match_pair_def t Let_def using w(2) assms(2) by (simp add: r)
qed

lemma match_pair_comma: "match_pair (CHR '','' # s) = None"
  by (simp add: match_pair_def is_word_def is_digit_def Let_def)

text \<open>Where nothing matches the scan moves on by one character: a number with a sign, after its name
and the equals sign, is passed over.\<close>

lemma scan_skip: "match_pair (c # s) = None \<Longrightarrow> scan_all match_pair (c # s) = scan_all match_pair s"
  by (subst scan_all.simps) simp

lemma match_pair_none:
  "dropWhile is_word s = [] \<or> hd (dropWhile is_word s) \<noteq> CHR ''='' \<Longrightarrow> match_pair s = None"
  unfolding match_pair_def Let_def by (cases "dropWhile is_word s") (simp_all del: dropWhile_eq_Nil_conv)

lemma scan_skip_number:
  assumes "\<forall>c \<in> set u. digit_or_dot c" and "rest = [] \<or> hd rest = CHR '',''"
  shows "scan_all match_pair (u @ rest) = scan_all match_pair rest"
  using assms(1)
proof (induction u)
  case (Cons c u)
  have comma: "\<not> is_word (CHR '','')" by (simp add: is_word_def is_digit_def Let_def)
  have "dropWhile is_word (v @ rest) = [] \<or> hd (dropWhile is_word (v @ rest)) \<noteq> CHR ''=''"
    if "\<forall>c \<in> set v. digit_or_dot c" for v
    using that
  proof (induction v)
    case Nil
    then show ?case using assms(2) comma by (cases rest) auto
  qed (auto simp: digit_or_dot_def is_digit_def)
  from match_pair_none[OF this[OF Cons.prems]] show ?case using Cons by (simp add: scan_skip)
qed simp

lemma scan_skip_signed:
  assumes "\<forall>c \<in> set k. is_word c" and "\<forall>c \<in> set u. digit_or_dot c" and "rest = [] \<or> hd rest = CHR '',''"
  shows "scan_all match_pair (k @ CHR ''='' # CHR ''-'' # u @ rest) = scan_all match_pair rest"
  using assms(1)
proof (induction k)
  case Nil
  have "match_pair (CHR ''='' # s) = None" "match_pair (CHR ''-'' # s) = None" for s
    by (simp_all add: match_pair_def is_word_def is_digit_def Let_def)
  then show ?case using scan_skip_number[OF assms(2,3)] by (simp add: scan_skip)
next
  case (Cons c k)
  have "\<not> is_word (CHR ''='')" by (simp add: is_word_def is_digit_def Let_def)
  then have "dropWhile is_word ((c # k) @ CHR ''='' # CHR ''-'' # u @ rest) = CHR ''='' # CHR ''-'' # u @ rest"
    using Cons.prems by (subst dropWhile_append2) auto
  then have "match_pair ((c # k) @ CHR ''='' # CHR ''-'' # u @ rest) = None"
    unfolding match_pair_def Let_def by (simp add: digit_or_dot_def is_digit_def)
  then show ?case using Cons by (simp add: scan_skip)
qed

definition unsigned :: "setting list \<Rightarrow> setting list" where
  "unsigned ss = filter (\<lambda>(k, n, d). 0 \<le> n) ss"

lemma kv_scan:
  assumes "\<forall>s \<in> set ss. plain (fst s)"
  shows "scan_all match_pair (kv_text ss) = map (\<lambda>(k, n, d). (k, decimal_text n d)) (unsigned ss)"
  using assms
proof (induction ss)
  case Nil
  show ?case by (subst scan_all.simps) (simp add: kv_text_def unsigned_def)
next
  case (Cons s ss)
  obtain k n d where s: "s = (k, n, d)" "plain k" using Cons.prems by (cases s) auto
  let ?u = "decimal_text \<bar>n\<bar> d"
  have u: "\<forall>c \<in> set ?u. digit_or_dot c"
    using nat_digits_digits by (auto simp: digit_or_dot_def decimal_text_def pad_zeros_def is_digit_def split: if_splits)
  define rest where "rest = (if ss = [] then [] else CHR '','' # kv_text ss)"
  have whole: "kv_text (s # ss) = k @ CHR ''='' # decimal_text n d @ rest"
    by (simp add: kv_text_def kv_setting_def s rest_def join_with_Cons)
  have "scan_all match_pair rest = scan_all match_pair (kv_text ss)"
    by (cases "ss = []") (simp_all add: rest_def kv_text_def scan_all.simps[of _ "_ # _"] match_pair_comma)
  then have rest: "scan_all match_pair rest = map (\<lambda>(k, n, d). (k, decimal_text n d)) (unsigned ss)"
    using Cons by simp
  show ?case
  proof (cases "0 \<le> n")
    case True
    have "rest \<noteq> [] \<Longrightarrow> \<not> digit_or_dot (hd rest)"
      by (simp add: rest_def digit_or_dot_def is_digit_def split: if_splits)
    then have m: "match_pair (kv_text (s # ss)) = Some ((k, decimal_text n d), rest)"
      unfolding whole using u True by (intro match_pair_prefix s) simp_all
    have "kv_text (s # ss) \<noteq> []" "length rest < length (kv_text (s # ss))" by (simp_all add: whole)
    then show ?thesis
      using m rest True by (subst scan_all.simps) (simp add: s(1) unsigned_def)
  next
    case False
    then have "decimal_text n d = CHR ''-'' # ?u" by (simp add: decimal_text_def)
    moreover have "\<forall>c \<in> set k. is_word c" using s(2) by (simp add: plain_def list_all_iff)
    moreover have "rest = [] \<or> hd rest = CHR '',''" by (simp add: rest_def)
    ultimately have "scan_all match_pair (kv_text (s # ss)) = scan_all match_pair rest"
      unfolding whole using scan_skip_signed[of k ?u rest] u by simp
    then show ?thesis using rest False by (simp add: s(1) unsigned_def)
  qed
qed

interpretation kv: key_table kv_keys 3
  by unfold_locales (simp_all add: kv_keys_def)

lemma kv_read:
  assumes "\<forall>s \<in> set ss. plain (fst s)"
  shows "kv_parse (kv_text ss) vs = store_all kv_keys (setting_values (unsigned ss)) vs"
proof -
  have "fold (\<lambda>(key, v). store_known kv_keys key (parseFloat v)) (map (\<lambda>(k, n, d). (k, decimal_text n d)) ts) vs
      = store_all kv_keys (setting_values ts) vs" for ts
    by (induction ts arbitrary: vs) (auto simp: setting_values_def parseFloat_decimal)
  then show ?thesis by (simp add: kv_parse_def kv_scan[OF assms])
qed

section \<open>AT responses\<close>

definition at_text :: "string \<Rightarrow> (int \<times> nat) list \<Rightarrow> string" where
  "at_text command ps = CHR ''+'' # command @ '': '' @ join_with (CHR '','') (map (\<lambda>(n, d). decimal_text n d) ps)"

lemma decimal_list:
  assumes "ps \<noteq> []"
  defines "t \<equiv> join_with (CHR '','') (map (\<lambda>(n, d). decimal_text n d) ps)"
  shows "trim t = t" "t \<noteq> []" "\<not> js_space (last t)" "CHR '':'' \<notin> set t"
    "map (\<lambda>p. number_or_text (trim p)) (split_on (CHR '','') t) = map (\<lambda>(n, d). Num (of_int n / 10 ^ d)) ps"
proof -
  let ?ts = "map (\<lambda>(n, d). decimal_text n d) ps"
  have ne: "?ts \<noteq> []" "\<forall>p \<in> set ?ts. p \<noteq> []" using assms(1) by auto
  note j = join_with_ends[OF ne, of "CHR '',''"]
  show "t \<noteq> []" unfolding t_def by (rule j(1))
  have sp: "\<not> js_space c" if "c \<in> set p" "p \<in> set ?ts" for c p
    using that decimal_text_no_space by auto
  have l: "last ?ts \<in> set ?ts" "hd ?ts \<in> set ?ts" by (rule last_in_set[OF ne(1)], rule hd_in_set[OF ne(1)])
  have "\<not> js_space (last (last ?ts))" "\<not> js_space (hd (hd ?ts))"
    using sp[OF last_in_set l(1)] sp[OF hd_in_set l(2)] bspec[OF ne(2) l(1)] bspec[OF ne(2) l(2)] by blast+
  then show "\<not> js_space (last t)" "trim t = t" unfolding t_def using j by (simp_all add: trim_id)
  have "CHR '':'' \<notin> set p" "CHR '','' \<notin> set p" if p: "p \<in> set ?ts" for p
  proof -
    obtain n d where "p = decimal_text n d" using p by auto
    moreover have "CHR '':'' \<notin> set (decimal_text n d)" "CHR '','' \<notin> set (decimal_text n d)"
      by (rule decimal_text_free, simp)+
    ultimately show "CHR '':'' \<notin> set p" "CHR '','' \<notin> set p" by simp_all
  qed
  then show "CHR '':'' \<notin> set t" "map (\<lambda>p. number_or_text (trim p)) (split_on (CHR '','') t)
      = map (\<lambda>(n, d). Num (of_int n / 10 ^ d)) ps"
    unfolding t_def using join_with_chars[of "CHR '':''" "CHR '',''" ?ts] split_join[OF ne(1), of "CHR '',''"]
    by (auto simp: number_or_text_decimal)
qed

lemma at_read:
  assumes k: "plain command" and "map_of commandToIndexMap command = Some indices" and "ps \<noteq> []"
  shows "at_parse (at_text command ps) vs = store_values indices (map (\<lambda>(n, d). Num (of_int n / 10 ^ d)) ps) vs"
proof -
  define t where "t = join_with (CHR '','') (map (\<lambda>(n, d). decimal_text n d) ps)"
  note d = decimal_list[OF assms(3), folded t_def]
  let ?f = "CHR ''+'' # command @ CHR '':'' # CHR '' '' # t"
  have f: "at_text command ps = ?f" by (simp add: at_text_def t_def)
  have "trim ?f = ?f" using d(2,3) by (intro trim_id) (simp_all add: js_space_def)
  moreover have "CHR '':'' \<notin> set command" by (rule plain_facts(2)[OF k]) simp
  then have parts: "split_on (CHR '':'') ?f = [CHR ''+'' # command, CHR '' '' # t]"
    using split_on_append[of "CHR '':''" "CHR ''+'' # command" "CHR '' '' # t"] d(4) by simp
  moreover have "trim (CHR '' '' # s) = trim s" for s by (simp add: trim_def js_space_def)
  ultimately show ?thesis
    unfolding at_parse_def f Let_def using assms(2) d(1,5)
    by (simp add: remove_first_def plain_facts(4)[OF k])
qed

section \<open>Fields between blanks\<close>

lemma split_blanks_word: "\<forall>c \<in> set w. \<not> js_space c \<Longrightarrow> split_blanks w = [w]"
  by (subst split_blanks.simps) (simp add: Let_def)

lemma split_blanks_step:
  assumes "\<forall>c \<in> set w. \<not> js_space c" and "b \<noteq> []" and "\<forall>c \<in> set b. js_space c"
    and "s = [] \<or> \<not> js_space (hd s)"
  shows "split_blanks (w @ b @ s) = w # split_blanks s"
proof -
  obtain x b' where b: "b = x # b'" "js_space x" using assms(2,3) by (cases b) auto
  have "takeWhile (\<lambda>c. \<not> js_space c) (w @ b @ s) = w" "dropWhile (\<lambda>c. \<not> js_space c) (w @ b @ s) = b @ s"
    using assms(1) b by simp_all
  moreover have "dropWhile js_space (b @ s) = s"
    using assms(3,4) by (cases s) auto
  ultimately show ?thesis using assms(2) by (subst split_blanks.simps) (simp add: Let_def)
qed

lemma fixed_width_fields:
  "\<forall>(w, b) \<in> set fs. w \<noteq> [] \<and> (\<forall>c \<in> set w. \<not> js_space c) \<and> b \<noteq> [] \<and> (\<forall>c \<in> set b. js_space c)
   \<Longrightarrow> fixed_width_parse (concat (map (\<lambda>(w, b). w @ b) fs)) = map fst fs"
proof (induction fs)
  case (Cons f fs)
  obtain w b where f: "f = (w, b)" by fastforce
  let ?s = "concat (map (\<lambda>(w, b). w @ b) fs)"
  have "?s = [] \<or> \<not> js_space (hd ?s)"
  proof (cases fs)
    case (Cons g gs)
    then show ?thesis using Cons.prems by (cases g) (auto simp: hd_append)
  qed simp
  then have "split_blanks (w @ b @ ?s) = w # split_blanks ?s"
    using Cons.prems f by (intro split_blanks_step) auto
  then show ?case using Cons f by (simp add: fixed_width_parse_def)
qed (simp add: fixed_width_parse_def split_blanks_word)

section \<open>Elements of an XML frame\<close>

lemma starts_iff: "starts p s \<longleftrightarrow> (\<exists>t. s = p @ t)"
  unfolding starts_def by (metis append_eq_conv_conj append_take_drop_id)

lemma find_text_here: "starts p s \<Longrightarrow> find_text p s = Some 0"
  by (cases s) (auto simp: starts_def)

lemma find_text_skip:
  assumes "\<forall>i < length a. \<not> starts p (drop i a @ s)"
  shows "find_text p (a @ s) = map_option (\<lambda>i. length a + i) (find_text p s)"
  using assms
proof (induction a)
  case (Cons x a)
  have "\<not> starts p (x # a @ s)" using Cons.prems[rule_format, of 0] by simp
  moreover have "\<forall>i < length a. \<not> starts p (drop i a @ s)"
    using Cons.prems[rule_format, of "Suc _"] by simp
  ultimately show ?case using Cons.IH by (simp add: option.map_comp comp_def)
qed (cases "find_text p s"; simp)

text \<open>A tag does not start inside a stretch without \<^verbatim>\<open><\<close>, nor at a tag with another name.\<close>

definition no_start :: "string \<Rightarrow> string \<Rightarrow> string \<Rightarrow> bool" where
  "no_start p a s \<longleftrightarrow> (\<forall>i < length a. \<not> starts p (drop i a @ s))"

lemma no_start_append: "no_start p a (b @ s) \<Longrightarrow> no_start p b s \<Longrightarrow> no_start p (a @ b) s"
  unfolding no_start_def
proof (intro allI impI)
  fix i assume a: "\<forall>i < length a. \<not> starts p (drop i a @ b @ s)" "\<forall>i < length b. \<not> starts p (drop i b @ s)"
    and i: "i < length (a @ b)"
  show "\<not> starts p (drop i (a @ b) @ s)"
    using a(1)[rule_format, of i] a(2)[rule_format, of "i - length a"] i by (cases "i < length a") auto
qed

lemma no_start_other: "c \<notin> set a \<Longrightarrow> no_start (c # q) a s"
proof -
  assume "c \<notin> set a"
  moreover have "i < length a \<Longrightarrow> drop i a @ s = a ! i # drop (Suc i) a @ s" for i
    by (simp add: Cons_nth_drop_Suc[symmetric])
  ultimately show ?thesis
    by (auto simp: no_start_def starts_iff)
qed

lemma no_start_head: "\<not> starts q (a @ s) \<Longrightarrow> c \<notin> set a \<Longrightarrow> no_start (c # q) (c # a) s"
  using no_start_append[of "c # q" "[c]" a s] no_start_other[of c a q s]
  by (simp add: no_start_def[of _ "[c]"] starts_iff)

lemma tag_name_unique:
  assumes "plain k" and "plain k'"
  shows "starts (k @ ''>'') (k' @ CHR ''>'' # s) \<longleftrightarrow> k = k'" "\<not> starts (k @ ''>'') (CHR ''/'' # s)"
proof -
  have w: "takeWhile is_word (k @ CHR ''>'' # s) = k" if "plain k" for k s
    using that by (subst takeWhile_append2) (auto simp: plain_def list_all_iff is_word_def is_digit_def Let_def)
  show "starts (k @ ''>'') (k' @ CHR ''>'' # s) \<longleftrightarrow> k = k'"
    unfolding starts_iff using w[OF assms(1)] w[OF assms(2)] by (auto, metis)
  have "CHR ''/'' \<noteq> c" if "is_word c" for c using that by (auto simp: is_word_def is_digit_def Let_def)
  then show "\<not> starts (k @ ''>'') (CHR ''/'' # s)"
    using assms(1) by (cases k) (auto simp: starts_iff plain_def)
qed

definition open_tag :: "string \<Rightarrow> string" where
  "open_tag k = ''<'' @ k @ ''>''"

definition close_tag :: "string \<Rightarrow> string" where
  "close_tag k = ''</'' @ k @ ''>''"

lemma plain_no_angle: "plain k \<Longrightarrow> CHR ''<'' \<notin> set k"
  by (rule plain_facts(2)) simp_all

lemma open_not_at_open: "\<lbrakk>plain k; plain k'; k \<noteq> k'\<rbrakk> \<Longrightarrow> no_start (open_tag k) (open_tag k') s"
  using tag_name_unique(1)[of k k' s] plain_no_angle[of k'] by (simp add: open_tag_def no_start_head)

lemma open_not_at_close: "\<lbrakk>plain k; plain k'\<rbrakk> \<Longrightarrow> no_start (open_tag k) (close_tag k') s"
  using tag_name_unique(2)[of k k' "k' @ CHR ''>'' # s"] plain_no_angle[of k']
  by (simp add: open_tag_def close_tag_def no_start_head)

lemma close_not_at_open: "\<lbrakk>plain k; plain k'\<rbrakk> \<Longrightarrow> no_start (close_tag k) (open_tag k') s"
proof -
  assume k: "plain k" "plain k'"
  obtain x r where x: "k' = x # r" "is_word x" using k(2) by (cases k') (auto simp: plain_def)
  then have "x \<noteq> CHR ''/''" by (auto simp: is_word_def is_digit_def Let_def)
  then have "\<not> starts (CHR ''/'' # k @ ''>'') ((k' @ ''>'') @ s)" by (auto simp: starts_iff x)
  then show ?thesis using plain_no_angle[OF k(2)] by (simp add: open_tag_def close_tag_def no_start_head)
qed

lemma tag_values_unfold:
  "tag_values k xml = (case find_text (open_tag k) xml of None \<Rightarrow> []
     | Some i \<Rightarrow> (case find_text (close_tag k) (drop i xml) of None \<Rightarrow> []
        | Some j \<Rightarrow> js_substring (drop i xml) (int (length (open_tag k))) (int j)
            # tag_values k (drop (j + length (close_tag k)) (drop i xml))))"
proof (cases "xml = []")
  case True
  then show ?thesis by (subst tag_values.simps) (simp add: open_tag_def)
next
  case False
  then show ?thesis
    by (subst tag_values.simps) (simp add: open_tag_def close_tag_def Let_def cong: option.case_cong)
qed

lemma tag_values_skip:
  assumes "no_start (open_tag k) a s" shows "tag_values k (a @ s) = tag_values k s"
proof -
  have f: "find_text (open_tag k) (a @ s) = map_option (\<lambda>i. length a + i) (find_text (open_tag k) s)"
    using assms unfolding no_start_def by (rule find_text_skip)
  show ?thesis
    unfolding tag_values_unfold[of k "a @ s"] tag_values_unfold[of k s] f by (simp split: option.split)
qed

lemma tag_values_hit:
  assumes k: "plain k" and v: "CHR ''<'' \<notin> set v"
  shows "tag_values k (open_tag k @ v @ close_tag k @ s) = v # tag_values k s"
proof -
  let ?r = "open_tag k @ v @ close_tag k @ s"
  have "find_text (open_tag k) ?r = Some 0" by (intro find_text_here) simp
  moreover have "no_start (close_tag k) (open_tag k @ v) (close_tag k @ s)"
    using close_not_at_open[OF k k] no_start_other[OF v, of "CHR ''/'' # k @ ''>''" "close_tag k @ s"]
    by (intro no_start_append) (simp_all add: close_tag_def)
  then have "find_text (close_tag k) ((open_tag k @ v) @ close_tag k @ s)
      = map_option (\<lambda>i. length (open_tag k @ v) + i) (find_text (close_tag k) (close_tag k @ s))"
    unfolding no_start_def by (rule find_text_skip)
  then have "find_text (close_tag k) ?r = Some (length (open_tag k @ v))"
    using find_text_here[of "close_tag k" "close_tag k @ s"] by simp
  moreover have "js_substring ?r (int (length (open_tag k))) (int (length (open_tag k @ v))) = v"
    by (simp add: js_substring_def)
  ultimately show ?thesis unfolding tag_values_unfold[of k ?r] by simp
qed

definition xml_setting :: "setting \<Rightarrow> string" where
  "xml_setting = (\<lambda>(k, n, d). open_tag k @ decimal_text n d @ close_tag k)"

definition xml_text :: "string \<Rightarrow> setting list \<Rightarrow> string" where
  "xml_text doc ss = open_tag doc @ concat (map xml_setting ss) @ close_tag doc"

lemma tag_values_settings:
  assumes "plain k" and "\<forall>s \<in> set ss. plain (fst s)"
  shows "tag_values k (concat (map xml_setting ss) @ rest)
    = map (\<lambda>(k, n, d). decimal_text n d) (filter (\<lambda>s. fst s = k) ss) @ tag_values k rest"
  using assms(2)
proof (induction ss)
  case (Cons s ss)
  obtain k' n d where s: "s = (k', n, d)" by (cases s) auto
  have k': "plain k'" using Cons.prems s by simp
  have free: "CHR ''<'' \<notin> set (decimal_text n d)" by (rule decimal_text_free) simp
  let ?rest = "concat (map xml_setting ss) @ rest"
  have "tag_values k (xml_setting s @ ?rest) = (if k' = k then [decimal_text n d] else []) @ tag_values k ?rest"
  proof (cases "k' = k")
    case True
    then show ?thesis using tag_values_hit[OF assms(1) free, of ?rest] by (simp add: xml_setting_def s)
  next
    case False
    have "no_start (open_tag k) (open_tag k' @ decimal_text n d @ close_tag k') ?rest"
      using open_not_at_open[OF assms(1) k'] False open_not_at_close[OF assms(1) k']
        no_start_other[OF free, of "k @ ''>''"]
      by (intro no_start_append) (simp_all add: open_tag_def)
    from tag_values_skip[OF this] show ?thesis using False by (simp add: xml_setting_def s)
  qed
  then show ?case using Cons s by simp
qed simp

lemma xml_values:
  assumes "plain k" and "plain doc" and "doc \<noteq> k" and "\<forall>s \<in> set ss. plain (fst s)"
  shows "extractTagValue (xml_text doc ss) k = map (\<lambda>(k, n, d). decimal_text n d) (filter (\<lambda>s. fst s = k) ss)"
proof -
  have "tag_values k (close_tag doc @ []) = tag_values k []"
    using open_not_at_close[OF assms(1,2)] by (rule tag_values_skip)
  moreover have "tag_values k [] = []" by (subst tag_values_unfold) (simp add: open_tag_def)
  moreover have "no_start (open_tag k) (open_tag doc) s" for s
    using assms by (intro open_not_at_open) auto
  ultimately show ?thesis
    unfolding extractTagValue_def xml_text_def by (simp add: tag_values_skip tag_values_settings assms)
qed

interpretation xml: key_table xml_keys xml_numItems
  by unfold_locales (simp_all add: xml_keys_def xml_numItems_def)

lemma xml_tag_other: "i \<noteq> j \<Longrightarrow> j < length vs \<Longrightarrow> xml_tag frame (k, j) vs ! i = vs ! i"
  by (simp add: xml_tag_def Let_def set_element_def)

lemma xml_tag_length: "j < length vs \<Longrightarrow> length (xml_tag frame (k, j) vs) = length vs"
  by (simp add: xml_tag_def Let_def)

lemma xml_fold_length:
  "\<forall>(k, j) \<in> set ts. j < length vs \<Longrightarrow> length (fold (xml_tag frame) ts vs) = length vs"
proof (induction ts arbitrary: vs)
  case (Cons t ts)
  then show ?case using Cons.IH[of "xml_tag frame t vs"] by (cases t) (auto simp: xml_tag_length split_beta)
qed simp

lemma xml_fold_other:
  "\<lbrakk>\<forall>(k, j) \<in> set ts. j < length vs; i \<notin> snd ` set ts\<rbrakk> \<Longrightarrow> fold (xml_tag frame) ts vs ! i = vs ! i"
proof (induction ts arbitrary: vs)
  case (Cons t ts)
  obtain k j where t: "t = (k, j)" by fastforce
  have "length (xml_tag frame (k, j) vs) = length vs" using Cons.prems t by (simp add: xml_tag_length)
  then show ?case using Cons.IH[of "xml_tag frame (k, j) vs"] Cons.prems t by (auto simp: xml_tag_other split_beta)
qed simp

lemma xml_read:
  assumes names: "plain doc" "doc \<noteq> k" "\<forall>s \<in> set ss. plain (fst s)"
    and k: "map_of xml_keys k = Some i" "map_of (setting_values ss) k = Some v" and len: "length vs = xml_numItems"
  shows "xml_parse (xml_text doc ss) vs ! i = v"
proof -
  let ?f = "xml_text doc ss"
  have "trim ?f = ?f"
    by (intro trim_id) (simp_all add: xml_text_def open_tag_def close_tag_def js_space_def)
  moreover have "?f \<noteq> []" by (simp add: xml_text_def open_tag_def)
  moreover have "fold (xml_tag ?f) xml_keys vs ! i = v"
  proof -
    have ki: "(k, i) \<in> set xml_keys" using k(1) by (rule map_of_SomeD)
    then obtain as bs where split: "xml_keys = as @ (k, i) # bs" by (meson split_list)
    have i: "i \<notin> snd ` set bs" using xml.indices_distinct unfolding split by auto
    have small: "\<forall>(k, j) \<in> set xml_keys. j < xml_numItems" using xml.indices_small by (simp add: list_all_iff)
    let ?vs = "fold (xml_tag ?f) as vs"
    have l1: "length ?vs = xml_numItems" using small len unfolding split by (subst xml_fold_length) auto
    have l2: "length (xml_tag ?f (k, i) ?vs) = xml_numItems"
      using l1 small ki by (subst xml_tag_length) auto
    have "plain k" using ki by (auto simp: xml_keys_def plain_def is_word_def is_digit_def Let_def)
    then have vals: "extractTagValue ?f k = map (\<lambda>(k, n, d). decimal_text n d) (filter (\<lambda>s. fst s = k) ss)"
      using names by (intro xml_values)
    have "\<exists>n d zs. filter (\<lambda>s. fst s = k) ss = (k, n, d) # zs \<and> v = Num (of_int n / 10 ^ d)"
      using k(2) by (induction ss) (auto simp: setting_values_def split: if_splits)
    then obtain n d zs where f: "filter (\<lambda>s. fst s = k) ss = (k, n, d) # zs" "v = Num (of_int n / 10 ^ d)" by blast
    have "xml_tag ?f (k, i) ?vs = set_element ?vs i v"
      by (simp add: xml_tag_def vals f number_or_text_decimal)
    moreover have "i < length ?vs" using l1 small ki by auto
    ultimately have "xml_tag ?f (k, i) ?vs ! i = v" by (simp add: set_element_def)
    moreover have "fold (xml_tag ?f) bs (xml_tag ?f (k, i) ?vs) ! i = xml_tag ?f (k, i) ?vs ! i"
      using small l2 i unfolding split by (intro xml_fold_other) auto
    ultimately show ?thesis unfolding split by simp
  qed
  ultimately show ?thesis by (simp add: xml_parse_def)
qed

section \<open>Properties\<close>

text \<open>Fields joined by a delimiter are split back into the same fields, and joining the fields of
any frame gives the frame; fields between blanks of any kind and number come out without the blanks.\<close>

theorem delimited_fields_roundtrip:
  assumes "fields \<noteq> []" and "\<forall>f \<in> set fields. set f \<inter> {CHR '','', CHR '';'', CHR ''|'', CHR 0x09} = {}"
    and "\<forall>(w, b) \<in> set blanked. w \<noteq> [] \<and> (\<forall>c \<in> set w. \<not> js_space c) \<and> b \<noteq> [] \<and> (\<forall>c \<in> set b. js_space c)"
  shows "comma_parse (join_with (CHR '','') fields) = fields
    \<and> semicolon_parse (join_with (CHR '';'') fields) = fields
    \<and> pipe_parse (join_with (CHR ''|'') fields) = fields
    \<and> tab_parse (join_with (CHR 0x09) fields) = fields
    \<and> fixed_width_parse (concat (map (\<lambda>(w, b). w @ b) blanked)) = map fst blanked
    \<and> join_with (CHR '','') (comma_parse frame) = frame"
proof -
  have "split_on c (join_with c fields) = fields" if "c \<in> {CHR '','', CHR '';'', CHR ''|'', CHR 0x09}" for c
    using that assms(1,2) by (intro split_join) auto
  then show ?thesis
    using fixed_width_fields[OF assms(3)]
    by (simp add: comma_parse_def semicolon_parse_def pipe_parse_def tab_parse_def join_split)
qed

theorem delimited_fields_roundtrip_witness:
  "comma_parse ''21.5,,x y'' = [''21.5'', [], ''x y'']
   \<and> fixed_width_parse ''21.5  48 '' = [''21.5'', ''48'']"
  using delimited_fields_roundtrip[of "[''21.5'', [], ''x y'']" "[(''21.5'', ''  ''), (''48'', '' '')]" "[]"]
  by (simp add: js_space_def)

text \<open>C7: A frame that writes named decimal numbers, with or without a sign, as INI lines, a URL-encoded
form or YAML lines sets each known name to the number last written for it, exactly, and leaves the other
values as they were; in an XML frame the first element with the name counts.  Key-value pairs do the same for
the numbers without a minus sign only: the script's pattern does not match a sign, so a setting below zero
is passed over as if it were not in the frame.\<close>

theorem settings_read_back:
  assumes "ss \<noteq> []" and "\<forall>s \<in> set ss. plain (fst s)"
  shows "(\<forall>k i. map_of ini_keys k = Some i \<longrightarrow> ini_parse (ini_text ss) (map old [0..<ini_numItems]) ! i
      = (case map_of (rev (setting_values ss)) k of Some v \<Rightarrow> v | None \<Rightarrow> old i))
    \<and> (\<forall>k i. map_of url_keys k = Some i \<longrightarrow> url_parse (url_text ss) (map old [0..<url_numItems]) ! i
      = (case map_of (rev (setting_values ss)) k of Some v \<Rightarrow> v | None \<Rightarrow> old i))
    \<and> (\<forall>k i. map_of yaml_keys k = Some i \<longrightarrow> yaml_parse (yaml_text ss) (map old [0..<yaml_numItems]) ! i
      = (case map_of (rev (setting_values ss)) k of Some v \<Rightarrow> v | None \<Rightarrow> old i))
    \<and> (\<forall>k i. map_of kv_keys k = Some i \<longrightarrow> kv_parse (kv_text ss) (map old [0..<3]) ! i
      = (case map_of (rev (setting_values (filter (\<lambda>(k, n, d). 0 \<le> n) ss))) k of Some v \<Rightarrow> v | None \<Rightarrow> old i))
    \<and> (\<forall>doc k i v. plain doc \<and> doc \<noteq> k \<and> map_of xml_keys k = Some i \<and> map_of (setting_values ss) k = Some v
      \<longrightarrow> xml_parse (xml_text doc ss) (map old [0..<xml_numItems]) ! i = v)"
proof (intro conjI allI impI)
  fix k i
  show "map_of ini_keys k = Some i \<Longrightarrow> ini_parse (ini_text ss) (map old [0..<ini_numItems]) ! i
      = (case map_of (rev (setting_values ss)) k of Some v \<Rightarrow> v | None \<Rightarrow> old i)"
    unfolding ini_parse_def ini_text_def by (rule ini.settings_at[OF assms])
  show "map_of url_keys k = Some i \<Longrightarrow> url_parse (url_text ss) (map old [0..<url_numItems]) ! i
      = (case map_of (rev (setting_values ss)) k of Some v \<Rightarrow> v | None \<Rightarrow> old i)"
    using url.settings_at[OF assms, of k i old] url_frame[OF assms(1)]
    by (simp add: url_parse_def url_text_def[symmetric])
  show "map_of yaml_keys k = Some i \<Longrightarrow> yaml_parse (yaml_text ss) (map old [0..<yaml_numItems]) ! i
      = (case map_of (rev (setting_values ss)) k of Some v \<Rightarrow> v | None \<Rightarrow> old i)"
    using yaml.settings_at[OF assms, of k i old] yaml_frame[OF assms]
    by (simp add: yaml_parse_def yaml_text_def[symmetric])
  show "map_of kv_keys k = Some i \<Longrightarrow> kv_parse (kv_text ss) (map old [0..<3]) ! i
      = (case map_of (rev (setting_values (filter (\<lambda>(k, n, d). 0 \<le> n) ss))) k of Some v \<Rightarrow> v | None \<Rightarrow> old i)"
    using kv.store_all_at[of "map old [0..<3]" k i] kv.index_small[of k i]
    by (simp add: kv_read[OF assms(2)] unsigned_def cong: option.case_cong)
next
  fix doc k i v
  show "plain doc \<and> doc \<noteq> k \<and> map_of xml_keys k = Some i \<and> map_of (setting_values ss) k = Some v
      \<Longrightarrow> xml_parse (xml_text doc ss) (map old [0..<xml_numItems]) ! i = v"
    using assms(2) by (intro xml_read) auto
qed

theorem settings_read_back_witness:
  "ini_parse (ini_text [(''signal'', 7, 0), (''humidity'', 485, 1), (''signal'', -9, 0)]) (replicate 5 (Num 1)) ! 4 = Num (-9)"
proof -
  let ?ss = "[(''signal'', 7, 0), (''humidity'', 485, 1), (''signal'', -9, 0)] :: setting list"
  have p: "\<forall>s \<in> set ?ss. plain (fst s)"
    by (simp add: plain_def is_word_def is_digit_def Let_def)
  have "replicate 5 (Num 1) = map (\<lambda>_. Num 1) [0..<ini_numItems]" by (simp add: ini_numItems_def map_replicate_const)
  moreover have "map_of ini_keys ''signal'' = Some 4" by (simp add: ini_keys_def)
  ultimately show ?thesis
    using conjunct1[OF settings_read_back[OF _ p, of "\<lambda>_. Num 1"]] by (simp add: setting_values_def)
qed

text \<open>The parameters of an AT response are stored, in order, at the indices configured for its
command.\<close>

theorem at_response_stored:
  assumes "map_of commandToIndexMap command = Some indices" and "ps \<noteq> []" and "length vs = at_numItems"
    and "j < length indices" and "j < length ps"
  shows "at_parse (at_text command ps) vs ! (indices ! j) = (case ps ! j of (n, d) \<Rightarrow> Num (of_int n / 10 ^ d))"
proof -
  have c: "plain command \<and> list_all (\<lambda>i. i < at_numItems) indices \<and> distinct indices"
    using assms(1) by (auto simp: commandToIndexMap_def at_numItems_def plain_def is_word_def is_digit_def
        Let_def split: if_splits)
  then have "at_parse (at_text command ps) vs = store_values indices (map (\<lambda>(n, d). Num (of_int n / 10 ^ d)) ps) vs"
    using at_read assms(1,2) by blast
  then show ?thesis
    using store_values_at[of vs indices j "map (\<lambda>(n, d). Num (of_int n / 10 ^ d)) ps"] c assms by simp
qed

theorem at_response_stored_witness:
  "at_parse (at_text ''CREG'' [(0, 0), (1, 0)]) (replicate 8 (Num 7)) ! 3 = Num 1"
  using at_response_stored[of "''CREG''" "[2, 3]" "[(0, 0), (1, 0)]" "replicate 8 (Num 7)" 1]
  by (simp add: commandToIndexMap_def at_numItems_def)

end
