(* ===== verification/Nmea_Sentences.thy ===== *)
theory Nmea_Sentences
  imports Text_Strings
begin

text \<open>
  The NMEA 0183 parser script (\<^verbatim>\<open>parser/js/nmea_0183.js\<close>): checksum, sentence types and the
  conversion of positions to degrees.  A field that the sentence does not have is \<open>None\<close>
  (\<^verbatim>\<open>undefined\<close>).  No branch of the script throws, so its \<^verbatim>\<open>catch\<close> is not reached.
\<close>

section \<open>The script\<close>

definition nmea_numItems :: nat where "nmea_numItems = 16"

text \<open>The sum, the sixtieth part and the negation of numbers.\<close>

fun num_add :: "jsval \<Rightarrow> jsval \<Rightarrow> jsval" where
  "num_add (Num a) (Num b) = Num (a + b)"
| "num_add (Num a) Infinity = Infinity"
| "num_add (Num a) NegInfinity = NegInfinity"
| "num_add Infinity (Num b) = Infinity"
| "num_add NegInfinity (Num b) = NegInfinity"
| "num_add Infinity Infinity = Infinity"
| "num_add NegInfinity NegInfinity = NegInfinity"
| "num_add _ _ = NaN"

definition sixtieth :: "jsval \<Rightarrow> jsval" where
  "sixtieth v = (case v of Num a \<Rightarrow> Num (a / 60) | Infinity \<Rightarrow> Infinity | NegInfinity \<Rightarrow> NegInfinity | _ \<Rightarrow> NaN)"

definition num_neg :: "jsval \<Rightarrow> jsval" where
  "num_neg v = (case v of Num a \<Rightarrow> Num (- a) | Infinity \<Rightarrow> NegInfinity | NegInfinity \<Rightarrow> Infinity | _ \<Rightarrow> NaN)"

definition nmea_field :: "string list \<Rightarrow> nat \<Rightarrow> string option" where
  "nmea_field fields i = (if i < length fields then Some (fields ! i) else None)"

text \<open>\<^verbatim>\<open>parseFloat(field) || 0\<close> and \<^verbatim>\<open>parseInt(field) || 0\<close>\<close>

definition float_or_0 :: "string option \<Rightarrow> jsval" where
  "float_or_0 f = or_else (case f of Some s \<Rightarrow> parseFloat s | None \<Rightarrow> NaN) (Num 0)"

definition int_or_0 :: "string option \<Rightarrow> jsval" where
  "int_or_0 f = or_else (case f of Some s \<Rightarrow> parseInt10 s | None \<Rightarrow> NaN) (Num 0)"

definition parseLatitude :: "string option \<Rightarrow> string option \<Rightarrow> jsval" where
  "parseLatitude latStr hemisphere = (case latStr of None \<Rightarrow> Num 0
     | Some s \<Rightarrow>
         if s = [] \<or> length s < 4 then Num 0
         else (let degrees = parseFloat (js_substring s 0 2);
                   minutes = parseFloat (substring_from s 2);
                   decimal = num_add degrees (sixtieth minutes)
               in if hemisphere = Some ''S'' then num_neg decimal else decimal))"

definition parseLongitude :: "string option \<Rightarrow> string option \<Rightarrow> jsval" where
  "parseLongitude lonStr hemisphere = (case lonStr of None \<Rightarrow> Num 0
     | Some s \<Rightarrow>
         if s = [] \<or> length s < 5 then Num 0
         else (let degrees = parseFloat (js_substring s 0 3);
                   minutes = parseFloat (substring_from s 3);
                   decimal = num_add degrees (sixtieth minutes)
               in if hemisphere = Some ''W'' then num_neg decimal else decimal))"

definition nmea_gga :: "string list \<Rightarrow> jsval list" where
  "nmea_gga fields = (let f = nmea_field fields;
       latitude = parseLatitude (f 2) (f 3); longitude = parseLongitude (f 4) (f 5);
       quality = int_or_0 (f 6); numSatellites = int_or_0 (f 7);
       altitude = float_or_0 (f 9); hdop = float_or_0 (f 8)
     in [latitude, longitude, altitude, quality, numSatellites, hdop])"

definition nmea_rmc :: "string list \<Rightarrow> jsval list" where
  "nmea_rmc fields = (let f = nmea_field fields;
       latitude = parseLatitude (f 3) (f 4); longitude = parseLongitude (f 5) (f 6);
       speed = float_or_0 (f 7); track = float_or_0 (f 8)
     in [latitude, longitude, speed, track])"

definition nmea_gll :: "string list \<Rightarrow> jsval list" where
  "nmea_gll fields = (let f = nmea_field fields;
       latitude = parseLatitude (f 1) (f 2); longitude = parseLongitude (f 3) (f 4)
     in [latitude, longitude])"

definition nmea_vtg :: "string list \<Rightarrow> jsval list" where
  "nmea_vtg fields = (let f = nmea_field fields; speedKnots = float_or_0 (f 5); speedKmh = float_or_0 (f 7)
     in [speedKnots, speedKmh])"

definition sentenceTypeMap :: "(string \<times> nat list \<times> (string list \<Rightarrow> jsval list)) list" where
  "sentenceTypeMap = [(''GPGGA'', [0, 1, 2, 3, 4, 5], nmea_gga), (''GPRMC'', [0, 1, 6, 7], nmea_rmc),
     (''GPGLL'', [0, 1], nmea_gll), (''GPVTG'', [6, 7], nmea_vtg)]"

definition xor_codes :: "string \<Rightarrow> int" where
  "xor_codes s = fold (\<lambda>c x. bit_xor x (js_code c)) s 0"

definition nmea_validateChecksum :: "string \<Rightarrow> bool" where
  "nmea_validateChecksum sentence = (case index_of sentence ''*'' 0 of None \<Rightarrow> False
     | Some starPos \<Rightarrow>
         (let dat = js_substring sentence 1 (int starPos);
              checksumStr = substring_from sentence (int starPos + 1)
          in parse_hex_int checksumStr = Some (xor_codes dat)))"

definition nmea_store :: "string \<Rightarrow> jsval list \<Rightarrow> jsval list" where
  "nmea_store dataStr parsedValues =
     (let fields = split_on (CHR '','') dataStr; sentenceId = substring_from (fields ! 0) 1 in
      case map_of sentenceTypeMap sentenceId of None \<Rightarrow> parsedValues
      | Some (indices, parser) \<Rightarrow> store_values indices (parser fields) parsedValues)"

definition nmea_parse :: "string \<Rightarrow> jsval list \<Rightarrow> jsval list" where
  "nmea_parse f parsedValues =
     (let frame = trim f; starPos = index_of frame ''*'' 0 in
      if first_char frame \<noteq> ''$'' then parsedValues
      else if starPos \<noteq> None \<and> \<not> nmea_validateChecksum frame then parsedValues
      else (let dataStr = (case starPos of Some p \<Rightarrow> js_substring frame 0 (int p) | None \<Rightarrow> frame)
            in nmea_store dataStr parsedValues))"

section \<open>Checksums\<close>

text \<open>A sentence with the checksum a transmitter appends.\<close>

definition nmea_sentence_text :: "string \<Rightarrow> string" where
  "nmea_sentence_text dat = CHR ''$'' # dat @ CHR ''*'' #
     [hex_char (xor_codes dat div 16), hex_char (xor_codes dat mod 16)]"

lemma bit_xor_byte: "\<lbrakk>0 \<le> a; a < 256; 0 \<le> b; b < 256\<rbrakk> \<Longrightarrow> bit_xor a b = (a XOR b)"
  by (simp add: bit_xor_def to_int32_small)

lemma xor_byte_range: "\<lbrakk>0 \<le> a; a < 256; 0 \<le> b; b < 256\<rbrakk> \<Longrightarrow> 0 \<le> (a XOR b) \<and> (a XOR b) < (256 :: int)"
  using XOR_upper[of a 8 b] by simp

lemma xor_run:
  "\<lbrakk>0 \<le> x; x < 256\<rbrakk> \<Longrightarrow> 0 \<le> fold (\<lambda>c x. bit_xor x (js_code c)) s x \<and> fold (\<lambda>c x. bit_xor x (js_code c)) s x < 256
     \<and> fold (\<lambda>c x. bit_xor x (js_code c)) s x = (x XOR xor_codes s)"
proof (induction s arbitrary: x)
  case (Cons c s)
  have e: "bit_xor y (js_code c) = (y XOR js_code c)" "0 \<le> (y XOR js_code c) \<and> (y XOR js_code c) < 256"
    if "0 \<le> y" "y < 256" for y
    using that bit_xor_byte[of y "js_code c"] xor_byte_range[of y "js_code c"] by simp_all
  have code: "xor_codes (c # s) = (js_code c XOR xor_codes s)"
    using Cons.IH[of "js_code c"] e(1)[of 0] by (simp add: xor_codes_def)
  have "fold (\<lambda>c x. bit_xor x (js_code c)) (c # s) x = fold (\<lambda>c x. bit_xor x (js_code c)) s (x XOR js_code c)"
    using e(1)[OF Cons.prems] by simp
  then show ?case
    using Cons.IH[of "x XOR js_code c"] e(2)[OF Cons.prems] unfolding code by (metis xor.assoc)
qed (simp add: xor_codes_def)

lemma xor_codes_range: "0 \<le> xor_codes s" "xor_codes s < 256"
  using xor_run[of 0 s] by (simp_all add: xor_codes_def)

lemma xor_codes_Cons: "xor_codes (c # s) = (js_code c XOR xor_codes s)"
  using xor_run[of "js_code c" s] by (simp add: xor_codes_def bit_xor_byte)

lemma xor_codes_append: "xor_codes (s @ t) = (xor_codes s XOR xor_codes t)"
  by (induction s) (simp_all add: xor_codes_Cons xor.assoc, simp add: xor_codes_def)

lemma js_code_inj: "js_code c = js_code d \<Longrightarrow> c = d"
  by (simp add: js_code_def)

lemma xor_codes_update:
  assumes "i < length s" and "c \<noteq> s ! i"
  shows "xor_codes (s[i := c]) \<noteq> xor_codes s"
proof
  assume eq: "xor_codes (s[i := c]) = xor_codes s"
  let ?a = "xor_codes (take i s)" and ?b = "xor_codes (drop (Suc i) s)"
  have "s = take i s @ s ! i # drop (Suc i) s" using assms(1) by (rule id_take_nth_drop)
  then have "xor_codes s = (?a XOR (js_code (s ! i) XOR ?b))" by (metis xor_codes_append xor_codes_Cons)
  moreover have "xor_codes (s[i := c]) = (?a XOR (js_code c XOR ?b))"
    using assms(1) by (simp add: upd_conv_take_nth_drop xor_codes_append xor_codes_Cons)
  ultimately have "(?a XOR (js_code c XOR ?b)) = (?a XOR (js_code (s ! i) XOR ?b))" using eq by simp
  then have "(?a XOR (?a XOR (js_code c XOR ?b))) = (?a XOR (?a XOR (js_code (s ! i) XOR ?b)))" by simp
  then have "(js_code c XOR ?b) = (js_code (s ! i) XOR ?b)" by (simp add: xor.assoc[symmetric])
  then have "((js_code c XOR ?b) XOR ?b) = ((js_code (s ! i) XOR ?b) XOR ?b)" by simp
  then have "js_code c = js_code (s ! i)" by (simp add: xor.assoc)
  then show False using assms(2) js_code_inj by blast
qed

lemma hex_pair_value:
  assumes "hex_digit h = Some a" and "hex_digit l = Some b"
  shows "parse_hex_int [h, l] = Some (16 * a + b)"
  using assms hex_digit_plain[OF assms(1)] hex_digit_plain[OF assms(2)]
  by (simp add: parse_hex_int_def parseInt16_def)

text \<open>What \<open>parse\<close> makes of any sentence with a star.\<close>

lemma starred_sentence:
  assumes "CHR ''*'' \<notin> set dat" and "r \<noteq> []" and "\<not> js_space (last r)" and "\<forall>c \<in> set blanks. js_space c"
  shows "nmea_parse (CHR ''$'' # dat @ CHR ''*'' # r @ blanks) vs
    = (if parse_hex_int r = Some (xor_codes dat) then nmea_store (CHR ''$'' # dat) vs else vs)"
proof -
  let ?s = "(CHR ''$'' # dat) @ CHR ''*'' # r"
  have "trim ?s = ?s"
    using assms(2,3) by (intro trim_id) (simp_all add: js_space_def)
  then have t: "trim (?s @ blanks) = ?s" using trim_blanks[OF assms(4)] by metis
  have star: "index_of ?s ''*'' 0 = Some (length (CHR ''$'' # dat))"
    using assms(1) by (intro index_of_char) simp
  have "js_substring ?s 1 (int (length (CHR ''$'' # dat))) = dat"
    by (simp add: js_substring_def)
  moreover have "substring_from ?s (int (length (CHR ''$'' # dat)) + 1) = r"
    by (rule substring_rest)
  ultimately have "nmea_validateChecksum ?s \<longleftrightarrow> parse_hex_int r = Some (xor_codes dat)"
    unfolding nmea_validateChecksum_def star by auto
  moreover have "js_substring ?s 0 (int (length (CHR ''$'' # dat))) = CHR ''$'' # dat"
    by (rule substring_prefix)
  moreover have "first_char ?s = ''$''" by (simp add: first_char_def)
  ultimately have "nmea_parse (?s @ blanks) vs
      = (if parse_hex_int r = Some (xor_codes dat) then nmea_store (CHR ''$'' # dat) vs else vs)"
    unfolding nmea_parse_def Let_def t star by simp
  then show ?thesis by simp
qed

text \<open>Two hexadecimal digits behind the star, in either case, and white space after them.\<close>

lemma checked_sentence_digits:
  assumes "CHR ''*'' \<notin> set dat" and "hex_digit h = Some (v div 16)" "hex_digit l = Some (v mod 16)"
    and "\<forall>c \<in> set blanks. js_space c"
  shows "nmea_parse (CHR ''$'' # dat @ CHR ''*'' # h # l # blanks) vs
    = (if xor_codes dat = v then nmea_store (CHR ''$'' # dat) vs else vs)"
proof -
  have "parse_hex_int [h, l] = Some v" using hex_pair_value[OF assms(2,3)] by simp
  then show ?thesis
    using starred_sentence[OF assms(1) _ _ assms(4), of "[h, l]" vs] hex_digit_plain[OF assms(3)] by auto
qed

lemma checked_sentence:
  assumes "CHR ''*'' \<notin> set dat" and "0 \<le> v" and "v < 256"
  shows "nmea_parse (CHR ''$'' # dat @ CHR ''*'' # [hex_char (v div 16), hex_char (v mod 16)]) vs
    = (if xor_codes dat = v then nmea_store (CHR ''$'' # dat) vs else vs)"
proof -
  have "0 \<le> v div 16" "v div 16 < 16" "0 \<le> v mod 16" "v mod 16 < 16" using assms(2,3) by linarith+
  from hex_digit_char(1)[OF this(1,2)] hex_digit_char(1)[OF this(3,4)] show ?thesis
    by (intro checked_sentence_digits[OF assms(1)]) simp_all
qed

section \<open>Positions\<close>

text \<open>How a receiver writes a position: degrees with a fixed number of digits, then minutes with two
digits and \<open>k\<close> decimals, without a point when there are none.\<close>

definition position_text :: "nat \<Rightarrow> nat \<Rightarrow> nat \<Rightarrow> nat \<Rightarrow> string" where
  "position_text w degrees m k = pad_zeros w (nat_digits degrees)
     @ pad_zeros 2 (nat_digits (m div 10 ^ k))
     @ (if k = 0 then [] else CHR ''.'' # pad_zeros k (nat_digits (m mod 10 ^ k)))"

lemma padded_digits: "\<forall>c \<in> set (pad_zeros w (nat_digits n)). is_digit c"
  using nat_digits_digits by (auto simp: pad_zeros_def is_digit_def)

lemma pad_zeros_nonempty [simp]: "pad_zeros w (nat_digits n) \<noteq> []"
  by (simp add: pad_zeros_def)

lemma padded_value: "dec_run 0 (pad_zeros w (nat_digits n)) = n"
  using dec_run_nat_digits[of 0 n] by (simp add: pad_zeros_def dec_run_zeros)

lemma padded_length: "n < 10 ^ w \<Longrightarrow> 0 < w \<Longrightarrow> length (pad_zeros w (nat_digits n)) = w"
  using length_nat_digits[of n w] by (simp add: pad_zeros_def)

lemma position_minutes:
  "parseFloat (pad_zeros 2 (nat_digits (m div 10 ^ k))
     @ (if k = 0 then [] else CHR ''.'' # pad_zeros k (nat_digits (m mod 10 ^ k)))) = Num (of_nat m / 10 ^ k)"
proof (cases "k = 0")
  case True
  then show ?thesis
    using parseFloat_parts[OF padded_digits pad_zeros_nonempty, of "[]" False 2 m] by (simp add: padded_value)
next
  case False
  let ?ip = "pad_zeros 2 (nat_digits (m div 10 ^ k))" and ?fp = "pad_zeros k (nat_digits (m mod 10 ^ k))"
  have len: "length ?fp = k" using False by (intro padded_length) simp_all
  have "dec_run (m div 10 ^ k) ?fp = m div 10 ^ k * 10 ^ length ?fp + dec_run 0 ?fp" by (rule dec_run_split)
  then have "dec_run 0 (?ip @ ?fp) = m" by (simp only: dec_run_append padded_value len div_mult_mod_eq)
  then show ?thesis
    using parseFloat_parts[OF padded_digits pad_zeros_nonempty padded_digits, of False 2 "m div 10 ^ k" k "m mod 10 ^ k"]
      False by (simp add: len)
qed

lemma position_parsed:
  assumes "degrees < 10 ^ w" and "0 < w" and "m < 100 * 10 ^ k"
  shows "js_substring (position_text w degrees m k) 0 (int w) = pad_zeros w (nat_digits degrees)"
    "substring_from (position_text w degrees m k) (int w)
      = pad_zeros 2 (nat_digits (m div 10 ^ k))
        @ (if k = 0 then [] else CHR ''.'' # pad_zeros k (nat_digits (m mod 10 ^ k)))"
    "parseFloat (pad_zeros w (nat_digits degrees)) = Num (of_nat degrees)"
    "w + 2 \<le> length (position_text w degrees m k)"
proof -
  have w: "length (pad_zeros w (nat_digits degrees)) = w" using assms(1,2) by (rule padded_length)
  show "js_substring (position_text w degrees m k) 0 (int w) = pad_zeros w (nat_digits degrees)"
    using substring_prefix[of "pad_zeros w (nat_digits degrees)"] w by (simp add: position_text_def)
  show "substring_from (position_text w degrees m k) (int w)
      = pad_zeros 2 (nat_digits (m div 10 ^ k))
        @ (if k = 0 then [] else CHR ''.'' # pad_zeros k (nat_digits (m mod 10 ^ k)))"
    using w by (simp add: position_text_def substring_from_def js_substring_def)
  show "parseFloat (pad_zeros w (nat_digits degrees)) = Num (of_nat degrees)"
    using parseFloat_parts[OF padded_digits pad_zeros_nonempty, of "[]" False w degrees] by (simp add: padded_value)
  have "m div 10 ^ k < 10 ^ 2" using assms(3) by (simp add: less_mult_imp_div_less)
  then have "length (pad_zeros 2 (nat_digits (m div 10 ^ k))) = 2" by (intro padded_length) simp_all
  then show "w + 2 \<le> length (position_text w degrees m k)" using w by (simp add: position_text_def)
qed

definition position_value :: "bool \<Rightarrow> nat \<Rightarrow> nat \<Rightarrow> nat \<Rightarrow> jsval" where
  "position_value neg degrees m k = (let v = of_nat degrees + of_nat m / 10 ^ k / 60 in Num (if neg then - v else v))"

lemma latitude_read:
  "\<lbrakk>degrees < 100; m < 100 * 10 ^ k\<rbrakk> \<Longrightarrow>
   parseLatitude (Some (position_text 2 degrees m k)) h = position_value (h = Some ''S'') degrees m k"
  using position_parsed[of degrees 2 m k] position_minutes[of m k]
  by (auto simp: parseLatitude_def position_value_def sixtieth_def num_neg_def Let_def)

lemma longitude_read:
  "\<lbrakk>degrees < 1000; m < 100 * 10 ^ k\<rbrakk> \<Longrightarrow>
   parseLongitude (Some (position_text 3 degrees m k)) h = position_value (h = Some ''W'') degrees m k"
  using position_parsed[of degrees 3 m k] position_minutes[of m k]
  by (auto simp: parseLongitude_def position_value_def sixtieth_def num_neg_def Let_def)

text \<open>Where the position starts in the sentences that carry one.\<close>

definition position_fields :: "(string \<times> nat) list" where
  "position_fields = [(''GPGGA'', 2), (''GPRMC'', 3), (''GPGLL'', 1)]"

lemma nmea_store_fields:
  assumes "\<forall>f \<in> set (ty # fields). CHR '','' \<notin> set f"
  shows "nmea_store (CHR ''$'' # join_with (CHR '','') (ty # fields)) vs
    = (case map_of sentenceTypeMap ty of None \<Rightarrow> vs
       | Some (indices, parser) \<Rightarrow> store_values indices (parser ((CHR ''$'' # ty) # fields)) vs)"
proof -
  have "CHR ''$'' # join_with (CHR '','') (ty # fields) = join_with (CHR '','') ((CHR ''$'' # ty) # fields)"
    by (cases fields) simp_all
  moreover have "split_on (CHR '','') (join_with (CHR '','') ((CHR ''$'' # ty) # fields)) = (CHR ''$'' # ty) # fields"
    using assms by (intro split_join) auto
  ultimately show ?thesis
    by (simp add: nmea_store_def substring_from_def js_substring_def)
qed

lemma join_free: "\<forall>f \<in> set fs. c \<notin> set f \<Longrightarrow> c \<noteq> d \<Longrightarrow> c \<notin> set (join_with d fs)"
  using join_with_chars[of c d fs] by blast

section \<open>Properties\<close>





end
