(* ===== verification/Json_Text.thy ===== *)
theory Json_Text
  imports Text_Strings
begin

text \<open>
  JSON text as the language library reads and writes it, for the scripts that call
  \<^verbatim>\<open>JSON.parse\<close> and \<^verbatim>\<open>JSON.stringify\<close>.

  \<^item> \<open>json_parse\<close> is the parser: \<open>None\<close> where \<^verbatim>\<open>JSON.parse\<close> throws.  A key that occurs twice keeps
    its place and its last value.  An escape \<^verbatim>\<open>\uXXXX\<close> above \<open>0xFF\<close> keeps the low byte, as strings
    hold code units below 256.
  \<^item> \<open>json_text\<close> is \<^verbatim>\<open>JSON.stringify(v)\<close> without indentation.  How a number is printed is the
    parameter \<open>numstr\<close>.
  \<^item> The parser recurses into arrays and objects with fuel; \<open>json_fuel\<close> shows that twice the length
    of the text is enough for every text, so that \<open>json_parse\<close> is the parser without a bound.
  \<^item> \<open>json_roundtrip\<close>: reading what was written gives the value back.
\<close>

section \<open>Reading\<close>

definition json_space :: "char \<Rightarrow> bool" where
  "json_space c \<longleftrightarrow> of_char c \<in> {9, 10, 13, 32 :: nat}"

text \<open>The next character that is no white space, when it is \<open>c\<close>.\<close>

definition expect :: "char \<Rightarrow> string \<Rightarrow> string option" where
  "expect c s = (case dropWhile json_space s of x # r \<Rightarrow> if x = c then Some r else None | [] \<Rightarrow> None)"

definition json_escapes :: "(char \<times> char) list" where
  "json_escapes = [(CHR 0x22, CHR 0x22), (CHR 0x5C, CHR 0x5C), (CHR ''/'', CHR ''/''), (CHR ''b'', CHR 0x08),
     (CHR ''f'', CHR 0x0C), (CHR ''n'', CHR 0x0A), (CHR ''r'', CHR 0x0D), (CHR ''t'', CHR 0x09)]"

definition unicode_escape :: "string \<Rightarrow> char option" where
  "unicode_escape ds = (if length ds = 4 \<and> (\<forall>d \<in> set ds. hex_digit d \<noteq> None)
     then Some (js_char (hex_run 0 ds)) else None)"

text \<open>The characters of a string literal, from behind its opening quote.\<close>

fun json_string :: "string \<Rightarrow> (string \<times> string) option" where
  "json_string [] = None"
| "json_string (c # r) =
     (if c = CHR 0x22 then Some ([], r)
      else if c = CHR 0x5C then
        (case r of [] \<Rightarrow> None
         | e # r' \<Rightarrow>
             if e = CHR ''u''
             then (case unicode_escape (take 4 r') of None \<Rightarrow> None
                   | Some x \<Rightarrow> map_option (apfst ((#) x)) (json_string (drop 4 r')))
             else (case map_of json_escapes e of None \<Rightarrow> None
                   | Some x \<Rightarrow> map_option (apfst ((#) x)) (json_string r')))
      else if js_code c < 32 then None
      else map_option (apfst ((#) c)) (json_string r))"

definition json_fraction :: "string \<Rightarrow> (string \<times> string) option" where
  "json_fraction s = (case s of [] \<Rightarrow> Some ([], [])
     | c # r \<Rightarrow>
         if c = CHR ''.''
         then (if takeWhile is_digit r = [] then None else Some (takeWhile is_digit r, dropWhile is_digit r))
         else Some ([], s))"

definition json_exponent :: "string \<Rightarrow> (int \<times> string) option" where
  "json_exponent s = (case s of [] \<Rightarrow> Some (0, [])
     | c # r \<Rightarrow>
         if c = CHR ''e'' \<or> c = CHR ''E''
         then (let (neg, r) = sign_of r; ds = takeWhile is_digit r; n = int (dec_run 0 ds)
               in if ds = [] then None else Some (if neg then - n else n, dropWhile is_digit r))
         else Some (0, s))"

definition json_number :: "string \<Rightarrow> (rat \<times> string) option" where
  "json_number s =
     (let (neg, s) = (case s of c # r \<Rightarrow> if c = CHR ''-'' then (True, r) else (False, s) | [] \<Rightarrow> (False, []));
          ip = takeWhile is_digit s
      in if ip = [] \<or> hd ip = CHR ''0'' \<and> 1 < length ip then None
         else (case json_fraction (dropWhile is_digit s) of None \<Rightarrow> None
           | Some (fp, r) \<Rightarrow> (case json_exponent r of None \<Rightarrow> None
             | Some (e, r) \<Rightarrow>
                 (let v = of_nat (dec_run 0 (ip @ fp)) * 10 powi (e - int (length fp))
                  in Some (if neg then - v else v, r)))))"

text \<open>Values without parts; \<open>s\<close> starts with no white space.\<close>

definition json_scalar :: "string \<Rightarrow> (jsval \<times> string) option" where
  "json_scalar s =
     (if starts [CHR 0x22] s then map_option (apfst Str) (json_string (tl s))
      else if starts ''true'' s then Some (Bool True, drop 4 s)
      else if starts ''false'' s then Some (Bool False, drop 5 s)
      else if starts ''null'' s then Some (Null, drop 4 s)
      else map_option (apfst Num) (json_number s))"

fun json_value :: "nat \<Rightarrow> string \<Rightarrow> (jsval \<times> string) option"
and json_elements :: "nat \<Rightarrow> string \<Rightarrow> (jsval list \<times> string) option"
and json_members :: "nat \<Rightarrow> (string \<times> jsval) list \<Rightarrow> string \<Rightarrow> ((string \<times> jsval) list \<times> string) option" where
  "json_value 0 s = None"
| "json_value (Suc n) s =
     (case expect (CHR ''{'') s of
        Some r \<Rightarrow> (case expect (CHR ''}'') r of Some r' \<Rightarrow> Some (Obj [], r')
                    | None \<Rightarrow> map_option (apfst Obj) (json_members n [] r))
      | None \<Rightarrow> (case expect (CHR ''['') s of
            Some r \<Rightarrow> (case expect (CHR '']'') r of Some r' \<Rightarrow> Some (Arr [], r')
                        | None \<Rightarrow> map_option (apfst Arr) (json_elements n r))
          | None \<Rightarrow> json_scalar (dropWhile json_space s)))"
| "json_elements 0 s = None"
| "json_elements (Suc n) s =
     (case json_value n s of None \<Rightarrow> None
      | Some (v, r) \<Rightarrow> (case expect (CHR '','') r of
            Some r' \<Rightarrow> map_option (apfst ((#) v)) (json_elements n r')
          | None \<Rightarrow> map_option (\<lambda>r'. ([v], r')) (expect (CHR '']'') r)))"
| "json_members 0 acc s = None"
| "json_members (Suc n) acc s =
     (case Option.bind (expect (CHR 0x22) s) json_string of None \<Rightarrow> None
      | Some (k, r) \<Rightarrow> (case Option.bind (expect (CHR '':'') r) (json_value n) of None \<Rightarrow> None
          | Some (v, r) \<Rightarrow> (case expect (CHR '','') r of
                Some r' \<Rightarrow> json_members n (assoc_put k v acc) r'
              | None \<Rightarrow> map_option (\<lambda>r'. (assoc_put k v acc, r')) (expect (CHR ''}'') r))))"

definition json_parse :: "string \<Rightarrow> jsval option" where
  "json_parse s = (case json_value (2 * length s + 1) s of None \<Rightarrow> None
     | Some (v, r) \<Rightarrow> if dropWhile json_space r = [] then Some v else None)"

section \<open>Writing\<close>

definition json_escape :: "char \<Rightarrow> string" where
  "json_escape c =
     (let n = js_code c in
      if n = 8 then [CHR 0x5C, CHR ''b''] else if n = 9 then [CHR 0x5C, CHR ''t'']
      else if n = 10 then [CHR 0x5C, CHR ''n''] else if n = 12 then [CHR 0x5C, CHR ''f'']
      else if n = 13 then [CHR 0x5C, CHR ''r''] else if c = CHR 0x22 \<or> c = CHR 0x5C then [CHR 0x5C, c]
      else if n < 32 then CHR 0x5C # ''u00'' @ [hex_char (n div 16), hex_char (n mod 16)]
      else [c])"

definition json_quote :: "string \<Rightarrow> string" where
  "json_quote s = CHR 0x22 # concat (map json_escape s) @ [CHR 0x22]"

fun json_text :: "(jsval \<Rightarrow> string) \<Rightarrow> jsval \<Rightarrow> string"
and json_items :: "(jsval \<Rightarrow> string) \<Rightarrow> jsval list \<Rightarrow> string list"
and json_entries :: "(jsval \<Rightarrow> string) \<Rightarrow> (string \<times> jsval) list \<Rightarrow> string list" where
  "json_text numstr (Str s) = json_quote s"
| "json_text numstr (Bool b) = (if b then ''true'' else ''false'')"
| "json_text numstr (Num q) = numstr (Num q)"
| "json_text numstr (Arr vs) = CHR ''['' # join_with (CHR '','') (json_items numstr vs) @ '']''"
| "json_text numstr (Obj kvs) = CHR ''{'' # join_with (CHR '','') (json_entries numstr kvs) @ ''}''"
| "json_text numstr v = ''null''"
| "json_items numstr [] = []"
| "json_items numstr (v # vs) = json_text numstr v # json_items numstr vs"
| "json_entries numstr [] = []"
| "json_entries numstr ((k, v) # kvs) =
     (if v = Undefined then json_entries numstr kvs
      else (json_quote k @ CHR '':'' # json_text numstr v) # json_entries numstr kvs)"

section \<open>Every text has enough fuel\<close>

lemma expect_shorter: "expect c s = Some r \<Longrightarrow> length r < length s"
  using length_dropWhile_le[of json_space s] by (auto simp: expect_def split: list.splits if_splits)

lemma json_string_shorter: "json_string s = Some (x, r) \<Longrightarrow> length r < length s"
proof (induction s arbitrary: x r rule: json_string.induct)
  case (2 c s)
  consider "c = CHR 0x22" | "c = CHR 0x5C" | "c \<noteq> CHR 0x22" "c \<noteq> CHR 0x5C" by blast
  then show ?case
  proof cases
    case 2
    show ?thesis
    proof (cases s)
      case Nil
      then show ?thesis using 2 "2.prems" by simp
    next
      case (Cons e t)
      show ?thesis
      proof (cases "e = CHR ''u''")
        case True
        then obtain y x' where y: "unicode_escape (take 4 t) = Some y" "json_string (drop 4 t) = Some (x', r)"
          using "2.prems" 2 Cons by (auto split: option.splits)
        show ?thesis using "2.IH"(1)[OF _ 2 Cons True y] 2 Cons by simp
      next
        case False
        then obtain y x' where y: "map_of json_escapes e = Some y" "json_string t = Some (x', r)"
          using "2.prems" 2 Cons by (auto split: option.splits)
        show ?thesis using "2.IH"(2)[OF _ 2 Cons False y] 2 Cons by simp
      qed
    qed
  next
    case 3
    then show ?thesis using "2.prems" "2.IH"(3)[of "tl x" r] by (auto split: if_splits)
  qed (use 2 in simp)
qed simp

lemma json_fraction_shorter: "json_fraction t = Some (fp, u) \<Longrightarrow> length u \<le> length t"
  using length_dropWhile_le[of is_digit "tl t"]
  by (auto simp: json_fraction_def split: list.splits if_splits)

lemma json_exponent_shorter:
  assumes "json_exponent t = Some (e, u)"
  shows "length u \<le> length t"
proof (cases t)
  case (Cons c r)
  have "length (snd (sign_of r)) \<le> length r" by (simp add: sign_of_def split: list.splits)
  moreover have "u = t \<or> u = dropWhile is_digit (snd (sign_of r))"
    using assms Cons by (auto simp: json_exponent_def Let_def split_beta split: if_splits)
  ultimately show ?thesis
    using Cons length_dropWhile_le[of is_digit "snd (sign_of r)"] by auto
qed (use assms in \<open>simp add: json_exponent_def\<close>)

lemma json_number_shorter:
  assumes "json_number s = Some (q, r)"
  shows "length r < length s"
proof -
  obtain neg t where t: "(neg, t) = (case s of c # r \<Rightarrow> if c = CHR ''-'' then (True, r) else (False, s)
      | [] \<Rightarrow> (False, []))" by (metis surj_pair)
  have short: "length t \<le> length s" using t by (auto split: list.splits if_splits)
  from assms t[symmetric] have ip: "takeWhile is_digit t \<noteq> []" by (auto simp: json_number_def split: if_splits)
  from assms t[symmetric] obtain fp u e where u: "json_fraction (dropWhile is_digit t) = Some (fp, u)" "json_exponent u = Some (e, r)"
    by (auto simp: json_number_def Let_def split: if_splits option.splits)
  have "length (dropWhile is_digit t) < length t"
    using ip length_dropWhile_le[of is_digit "tl t"] by (cases t) (auto split: if_splits)
  then show ?thesis
    using json_fraction_shorter[OF u(1)] json_exponent_shorter[OF u(2)] short by linarith
qed

lemma json_scalar_shorter: "json_scalar s = Some (v, r) \<Longrightarrow> length r < length s"
proof -
  assume a: "json_scalar s = Some (v, r)"
  have "starts (c # p) s \<Longrightarrow> length (drop (Suc n) s) < length s" for c p n
    by (cases s) (simp_all add: starts_def)
  then show ?thesis
    using a json_string_shorter[of "tl s"] json_number_shorter[of s]
    by (cases s) (auto simp: json_scalar_def starts_def split: if_splits)
qed

lemma json_value_shorter:
  "json_value n s = Some (v, r) \<Longrightarrow> length r < length s"
  "json_elements n s = Some (vs, r) \<Longrightarrow> length r < length s"
  "json_members n acc s = Some (kvs, r) \<Longrightarrow> length r < length s"
proof (induction n s and n s and n acc s arbitrary: v r and vs r and kvs r rule: json_value_json_elements_json_members.induct)
  case (2 n s)
  show ?case
  proof (cases "expect (CHR ''{'') s")
    case (Some t)
    then show ?thesis
      using 2 expect_shorter[OF Some] expect_shorter[of "CHR ''}''" t] by (force split: option.splits)
  next
    case o: None
    show ?thesis
    proof (cases "expect (CHR ''['') s")
      case (Some t)
      then show ?thesis
        using 2 o expect_shorter[OF Some] expect_shorter[of "CHR '']''" t] by (force split: option.splits)
    next
      case None
      then show ?thesis
        using 2 o json_scalar_shorter[of "dropWhile json_space s" v r] length_dropWhile_le[of json_space s] by simp
    qed
  qed
next
  case (4 n s)
  then obtain v t where v: "json_value n s = Some (v, t)" by (auto split: option.splits)
  with 4 have "length t < length s" by blast
  then show ?case
    using 4 v expect_shorter[of "CHR '','' " t] expect_shorter[of "CHR '']''" t] by (force split: option.splits)
next
  case (6 n acc s)
  from "6.prems" obtain k t u v w where k: "expect (CHR 0x22) s = Some t" "json_string t = Some (k, u)"
      "expect (CHR '':'') u = Some v" and w: "json_value n v = Some w"
    by (auto simp: bind_eq_Some_conv split: option.splits)
  obtain x y where [simp]: "w = (x, y)" by (cases w)
  have "length y < length s"
    using expect_shorter[OF k(1)] json_string_shorter[OF k(2)] expect_shorter[OF k(3)] "6.IH"(1)[of "(k, u)" k u v x y] k w
    by (simp add: bind_eq_Some_conv)
  then show ?case
    using "6.prems" "6.IH"(2) k w expect_shorter[of "CHR '','' " y] expect_shorter[of "CHR ''}''" y]
    by (force split: option.splits)
qed simp_all

declare json_value.simps(2) [simp del] json_elements.simps(2) [simp del] json_members.simps(2) [simp del]

text \<open>Enough fuel makes no difference, and the parser satisfies its recursion without fuel.\<close>

lemma json_fuel_step:
  "2 * length s + 1 \<le> n \<Longrightarrow> json_value (Suc n) s = json_value n s"
  "2 * length s + 2 \<le> n \<Longrightarrow> json_elements (Suc n) s = json_elements n s"
  "2 * length s + 2 \<le> n \<Longrightarrow> json_members (Suc n) acc s = json_members n acc s"
proof (induction n s and n s and n acc s rule: json_value_json_elements_json_members.induct)
  case (2 n s)
  have e: "expect c s = Some t \<Longrightarrow> 2 * length t + 2 \<le> n" for c t
    using expect_shorter[of c s t] "2.prems" by linarith
  show ?case
    unfolding json_value.simps(2)[of "Suc n" s] json_value.simps(2)[of n s]
    by (intro option.case_cong refl) (use "2.IH" e in simp_all)
next
  case (4 n s)
  have v: "json_value (Suc n) s = json_value n s" using 4 by linarith
  have e: "2 * length u + 2 \<le> n" if "json_value n s = Some (x, t)" "expect c t = Some u" for x t c u
    using json_value_shorter(1)[OF that(1)] expect_shorter[OF that(2)] "4.prems" by linarith
  show ?case
    unfolding json_elements.simps(2)[of "Suc n" s] json_elements.simps(2)[of n s] v
    using "4.IH"(2)[OF _ refl _ e] by (auto split: option.splits)
next
  case (6 n acc s)
  have e: "2 * length u + 1 \<le> n"
    if "Option.bind (expect (CHR 0x22) s) json_string = Some (k, t)" "expect c t = Some u" for k t c u
  proof -
    note h = that
    obtain q where q: "expect (CHR 0x22) s = Some q" "json_string q = Some (k, t)"
      using h(1) by (auto simp: bind_eq_Some_conv)
    show ?thesis
      using json_string_shorter[OF q(2)] expect_shorter[OF q(1)] expect_shorter[OF h(2)] "6.prems" by linarith
  qed
  have v: "Option.bind (expect (CHR '':'') t) (json_value (Suc n)) = Option.bind (expect (CHR '':'') t) (json_value n)"
    if "Option.bind (expect (CHR 0x22) s) json_string = Some (k, t)" for k t
    using "6.IH"(1)[OF that refl] e[OF that] by (cases "expect (CHR '':'') t") simp_all
  have m: "2 * length w + 2 \<le> n"
    if "Option.bind (expect (CHR 0x22) s) json_string = Some (k, t)"
      "Option.bind (expect (CHR '':'') t) (json_value n) = Some (x, u)" "expect c u = Some w" for k t x u c w
  proof -
    note h = that
    obtain q where q: "expect (CHR '':'') t = Some q" "json_value n q = Some (x, u)"
      using h(2) by (auto simp: bind_eq_Some_conv)
    show ?thesis using json_value_shorter(1)[OF q(2)] e[OF h(1) q(1)] expect_shorter[OF h(3)] by linarith
  qed
  show ?case
    unfolding json_members.simps(2)[of "Suc n" acc s] json_members.simps(2)[of n acc s]
    using "6.IH"(2)[OF _ refl _ refl _ m] by (auto split: option.splits simp: v)
qed simp_all

lemma json_fuel: "2 * length s + 1 \<le> n \<Longrightarrow> json_value n s = json_value (2 * length s + 1) s"
  by (induction n rule: dec_induct) (simp_all only: json_fuel_step(1))

section \<open>Decimal numbers\<close>

lemma nat_digits_leading: "hd (nat_digits n) = CHR ''0'' \<Longrightarrow> n = 0"
proof (induction n rule: nat_digits.induct)
  case (1 n)
  show ?case
  proof (cases "n < 10")
    case True
    then have "of_char (char_of (48 + n) :: char) = (of_char (CHR ''0'') :: nat)"
      using "1.prems" by (subst (asm) nat_digits.simps) simp
    then show ?thesis using of_char_digit[OF True] by simp
  next
    case False
    then have "hd (nat_digits n) = hd (nat_digits (n div 10))"
      by (subst nat_digits.simps) (simp add: hd_append)
    then show ?thesis using 1 False by simp
  qed
qed

text \<open>What \<open>decimal_text\<close> prints is a JSON number, too.\<close>

lemma json_number_decimal: "json_number (decimal_text n k) = Some (of_int n / 10 ^ k, [])"
proof -
  let ?N = "nat \<bar>n\<bar>"
  let ?ip = "nat_digits (?N div 10 ^ k)"
  define fp where "fp = (if k = 0 then [] else pad_zeros k (nat_digits (?N mod 10 ^ k)))"
  have v: "dec_run 0 (?ip @ fp) = ?N" and len: "length fp = k" and fp: "\<forall>c \<in> set fp. is_digit c"
    using fixed_digits[where N = ?N and k = k] by (simp_all add: fp_def)
  let ?t = "?ip @ (if fp = [] then [] else CHR ''.'' # fp)"
  have printed: "decimal_text n k = (if n < 0 then ''-'' else []) @ ?t"
    using len by (auto simp: decimal_text_def fp_def)
  have dot: "\<not> is_digit (CHR ''.'')" by (simp add: is_digit_def)
  have run: "takeWhile is_digit ?t = ?ip" "dropWhile is_digit ?t = (if fp = [] then [] else CHR ''.'' # fp)"
    "takeWhile is_digit fp = fp" "dropWhile is_digit fp = []"
    using nat_digits_digits fp dot by (simp_all add: takeWhile_append dropWhile_append)
  have lead: "\<not> (hd ?ip = CHR ''0'' \<and> 1 < length ?ip)"
    using nat_digits_leading[of "?N div 10 ^ k"] by (auto simp: nat_digits.simps[of 0])
  obtain c r where c: "?ip = c # r" "is_digit c"
    using nat_digits_digits[of "?N div 10 ^ k"] nat_digits_nonempty[of "?N div 10 ^ k"] by (cases ?ip) auto
  have sign: "(case decimal_text n k of c # r \<Rightarrow> if c = CHR ''-'' then (True, r) else (False, decimal_text n k)
      | [] \<Rightarrow> (False, [])) = (n < 0, ?t)"
    unfolding printed unfolding c(1) using digit_not[OF c(2)] by simp
  have fraction: "json_fraction (dropWhile is_digit ?t) = Some (fp, [])"
    unfolding run(2) by (cases "fp = []") (simp_all add: json_fraction_def run(3,4) del: takeWhile_eq_Nil_iff)
  have expo: "json_exponent [] = Some (0, [])" by (simp add: json_exponent_def)
  have "json_number (decimal_text n k) = (if ?ip = [] \<or> hd ?ip = CHR ''0'' \<and> 1 < length ?ip then None
      else Some (if n < 0 then - (of_nat ?N * 10 powi (0 - int k)) else of_nat ?N * 10 powi (0 - int k), []))"
    unfolding json_number_def sign Let_def prod.case run(1) fraction option.case expo v len by (rule refl)
  then show ?thesis
    using lead by (cases "n < 0") (simp_all add: power_int_minus divide_inverse)
qed

section \<open>Reading what was written\<close>

text \<open>The values that come back: no \<^verbatim>\<open>undefined\<close>, no \<^verbatim>\<open>NaN\<close> or infinity, no key twice, and numbers
that are printed as JSON numbers of the same value.\<close>

fun json_readable :: "(jsval \<Rightarrow> string) \<Rightarrow> jsval \<Rightarrow> bool"
and json_readable_list :: "(jsval \<Rightarrow> string) \<Rightarrow> jsval list \<Rightarrow> bool"
and json_readable_entries :: "(jsval \<Rightarrow> string) \<Rightarrow> (string \<times> jsval) list \<Rightarrow> bool" where
  "json_readable numstr (Num q) \<longleftrightarrow> json_number (numstr (Num q)) = Some (q, [])"
| "json_readable numstr (Arr vs) \<longleftrightarrow> json_readable_list numstr vs"
| "json_readable numstr (Obj kvs) \<longleftrightarrow> distinct (map fst kvs) \<and> json_readable_entries numstr kvs"
| "json_readable numstr v \<longleftrightarrow> v \<notin> {Undefined, NaN, Infinity, NegInfinity}"
| "json_readable_list numstr [] \<longleftrightarrow> True"
| "json_readable_list numstr (v # vs) \<longleftrightarrow> json_readable numstr v \<and> json_readable_list numstr vs"
| "json_readable_entries numstr [] \<longleftrightarrow> True"
| "json_readable_entries numstr ((k, v) # kvs) \<longleftrightarrow> json_readable numstr v \<and> json_readable_entries numstr kvs"

lemma json_space_code: "json_space c \<Longrightarrow> js_code c \<le> 32"
  by (auto simp: json_space_def js_code_def)

lemma expect_Cons [simp]: "\<not> json_space x \<Longrightarrow> expect c (x # s) = (if x = c then Some s else None)"
  by (simp add: expect_def)

text \<open>Strings.\<close>

lemma json_escape_read: "json_string (json_escape c @ r) = map_option (apfst ((#) c)) (json_string r)"
proof -
  have c: "c = js_char (js_code c)" by (simp add: js_char_def js_code_def)
  consider "js_code c \<in> {8, 9, 10, 12, 13}" | "c = CHR 0x22 \<or> c = CHR 0x5C"
    | "js_code c \<notin> {8, 9, 10, 12, 13}" "js_code c < 32" "c \<noteq> CHR 0x22" "c \<noteq> CHR 0x5C"
    | "32 \<le> js_code c" "c \<noteq> CHR 0x22" "c \<noteq> CHR 0x5C" by fastforce
  then show ?thesis
  proof cases
    case 1
    have "js_char 8 = CHR 0x08" "js_char 9 = CHR 0x09" "js_char 10 = CHR 0x0A" "js_char 12 = CHR 0x0C"
      "js_char 13 = CHR 0x0D" by code_simp+
    with 1 c have "c \<in> {CHR 0x08, CHR 0x09, CHR 0x0A, CHR 0x0C, CHR 0x0D}" by (metis insert_iff empty_iff)
    then show ?thesis by (auto simp: json_escape_def Let_def json_escapes_def js_code_def)
  next
    case 2
    then show ?thesis by (auto simp: json_escape_def Let_def json_escapes_def js_code_def)
  next
    case 3
    let ?h = "hex_char (js_code c div 16)" and ?l = "hex_char (js_code c mod 16)"
    have h: "hex_digit ?h = Some (js_code c div 16)" "hex_digit ?l = Some (js_code c mod 16)"
    proof -
      have "0 \<le> js_code c div 16" "js_code c div 16 < 16" "0 \<le> js_code c mod 16" "js_code c mod 16 < 16"
        using 3(2) js_code_range[of c] by linarith+
      then show "hex_digit ?h = Some (js_code c div 16)" "hex_digit ?l = Some (js_code c mod 16)"
        by (simp_all add: hex_digit_char)
    qed
    have "hex_digit (CHR ''0'') = Some 0" by (simp add: hex_digit_def)
    then have "unicode_escape (''00'' @ [?h, ?l]) = Some c"
      using h c by (simp add: unicode_escape_def)
    moreover have "json_escape c = CHR 0x5C # ''u00'' @ [?h, ?l]"
      using 3 by (simp add: json_escape_def Let_def)
    ultimately show ?thesis by simp
  next
    case 4
    then show ?thesis by (simp add: json_escape_def Let_def)
  qed
qed

lemma json_quote_read: "json_string (concat (map json_escape s) @ CHR 0x22 # r) = Some (s, r)"
  by (induction s) (simp_all add: json_escape_read)

text \<open>Numbers: they end where a part of a value ends.\<close>

definition json_stop :: "string \<Rightarrow> bool" where
  "json_stop s \<longleftrightarrow> s = [] \<or> hd s \<in> {CHR '','', CHR '']'', CHR ''}''} \<or> json_space (hd s)"

lemma stop_not_digit: "json_stop s \<Longrightarrow> takeWhile is_digit s = [] \<and> dropWhile is_digit s = s"
  by (cases s) (auto simp: json_stop_def is_digit_def json_space_def)

lemma digit_run_append:
  assumes "json_stop s"
  shows "takeWhile is_digit (t @ s) = takeWhile is_digit t"
    "dropWhile is_digit (t @ s) = dropWhile is_digit t @ s"
  using stop_not_digit[OF assms] by (induction t) simp_all

lemma json_fraction_append:
  "\<lbrakk>json_stop s; json_fraction t = Some (fp, r)\<rbrakk> \<Longrightarrow> json_fraction (t @ s) = Some (fp, r @ s)"
  by (cases t; cases s) (auto simp: json_fraction_def digit_run_append json_stop_def json_space_def split: if_splits)

lemma json_exponent_append:
  "\<lbrakk>json_stop s; json_exponent t = Some (e, r)\<rbrakk> \<Longrightarrow> json_exponent (t @ s) = Some (e, r @ s)"
proof (cases t)
  case Nil
  assume "json_stop s" "json_exponent t = Some (e, r)"
  then show ?thesis using Nil by (cases s) (auto simp: json_exponent_def json_stop_def json_space_def)
next
  case (Cons c u)
  assume a: "json_stop s" "json_exponent t = Some (e, r)"
  have "sign_of (u @ s) = (fst (sign_of u), snd (sign_of u) @ s)" if "u \<noteq> []"
    using that by (cases u) (simp_all add: sign_of_def)
  moreover have "u \<noteq> [] \<or> c \<notin> {CHR ''e'', CHR ''E''}"
    using a Cons by (auto simp: json_exponent_def sign_of_def)
  ultimately show ?thesis
    using a Cons by (auto simp: json_exponent_def Let_def split_beta digit_run_append split: if_splits)
qed

lemma json_number_append:
  assumes "json_stop s" and "json_number t = Some (q, r)"
  shows "json_number (t @ s) = Some (q, r @ s)"
proof -
  obtain neg u where u: "(neg, u) = (case t of c # r \<Rightarrow> if c = CHR ''-'' then (True, r) else (False, t)
      | [] \<Rightarrow> (False, []))" by (metis surj_pair)
  have ip: "takeWhile is_digit u \<noteq> []" using assms(2) u[symmetric] by (auto simp: json_number_def split: if_splits)
  then have us: "(case t @ s of c # r \<Rightarrow> if c = CHR ''-'' then (True, r) else (False, t @ s) | [] \<Rightarrow> (False, []))
      = (neg, u @ s)"
    using u by (auto split: list.splits if_splits)
  obtain fp v e where v: "json_fraction (dropWhile is_digit u) = Some (fp, v)" "json_exponent v = Some (e, r)"
    using assms(2) u[symmetric] by (auto simp: json_number_def Let_def split: if_splits option.splits)
  show ?thesis
    using assms(2) json_fraction_append[OF assms(1) v(1)] json_exponent_append[OF assms(1) v(2)] v
    by (auto simp: json_number_def us u[symmetric] Let_def digit_run_append[OF assms(1)] split: if_splits)
qed

lemma json_number_first:
  "json_number t = Some (q, r) \<Longrightarrow> \<exists>c u. t = c # u \<and> (c = CHR ''-'' \<or> is_digit c)"
  by (cases t) (auto simp: json_number_def split: if_splits)

lemma json_text_first:
  assumes "json_readable numstr v"
  shows "\<exists>c u. json_text numstr v = c # u \<and> \<not> json_space c \<and> c \<notin> {CHR '']'', CHR ''}'', CHR '','', CHR '':''}"
proof (cases v)
  case (Num q)
  then show ?thesis
    using assms json_number_first[of "numstr v"] by (fastforce simp: json_space_def is_digit_def)
qed (use assms in \<open>simp_all add: json_space_def json_quote_def\<close>)

lemma json_value_scalar:
  assumes "\<not> json_space c" and "c \<noteq> CHR ''{''" and "c \<noteq> CHR ''[''" and "0 < n"
  shows "json_value n (c # s) = json_scalar (c # s)"
  using assms by (cases n) (simp_all add: json_value.simps(2))

lemma assoc_put_new: "k \<notin> fst ` set acc \<Longrightarrow> assoc_put k v acc = acc @ [(k, v)]"
  by (induction acc) auto

lemma json_value_text:
  "\<lbrakk>json_readable numstr v; json_stop rest; 2 * length (json_text numstr v @ rest) + 1 \<le> n\<rbrakk>
    \<Longrightarrow> json_value n (json_text numstr v @ rest) = Some (v, rest)"
  "\<lbrakk>json_readable_list numstr vs; vs \<noteq> [];
     2 * length (join_with (CHR '','') (json_items numstr vs) @ CHR '']'' # rest) + 2 \<le> n\<rbrakk>
    \<Longrightarrow> json_elements n (join_with (CHR '','') (json_items numstr vs) @ CHR '']'' # rest) = Some (vs, rest)"
  "\<lbrakk>json_readable_entries numstr kvs; kvs \<noteq> []; distinct (map fst (acc @ kvs));
     2 * length (join_with (CHR '','') (json_entries numstr kvs) @ CHR ''}'' # rest) + 2 \<le> n\<rbrakk>
    \<Longrightarrow> json_members n acc (join_with (CHR '','') (json_entries numstr kvs) @ CHR ''}'' # rest) = Some (acc @ kvs, rest)"
proof (induction numstr v and numstr vs and numstr kvs arbitrary: rest n and rest n and acc rest n
    rule: json_text_json_items_json_entries.induct)
  case (1 numstr s)
  then show ?case
    by (simp add: json_quote_def json_value_scalar json_space_def json_scalar_def starts_def json_quote_read)
next
  case (2 numstr b)
  then show ?case
    by (cases b) (simp_all add: json_value_scalar json_space_def json_scalar_def starts_def)
next
  case (3 numstr q)
  then have q: "json_number (numstr (Num q)) = Some (q, [])" by simp
  then obtain c u where c: "numstr (Num q) = c # u" "c = CHR ''-'' \<or> is_digit c"
    using json_number_first by blast
  have "json_number (c # u @ rest) = Some (q, rest)"
    using json_number_append[OF "3.prems"(2) q] by (simp add: c(1))
  moreover have "\<not> json_space c" "c \<notin> {CHR ''{'', CHR ''['', CHR 0x22, CHR ''t'', CHR ''f'', CHR ''n''}"
    using c(2) by (auto simp: json_space_def is_digit_def)
  ultimately show ?case
    using "3.prems" by (simp add: c(1) json_value_scalar json_scalar_def starts_def)
next
  case (4 numstr vs)
  obtain m where m: "n = Suc m" using "4.prems" by (cases n) auto
  show ?case
  proof (cases "vs = []")
    case True
    then show ?thesis by (simp add: m json_value.simps(2) json_space_def)
  next
    case False
    then obtain w ws where vs: "vs = w # ws" by (cases vs) auto
    then obtain c u where c: "json_text numstr w = c # u" "\<not> json_space c" "c \<noteq> CHR '']''"
      using "4.prems"(1) json_text_first[of numstr w] by auto
    have "\<exists>t. join_with (CHR '','') (json_items numstr vs) = c # t"
      using vs c(1) by (cases "json_items numstr ws") simp_all
    then have "expect (CHR '']'') (join_with (CHR '','') (json_items numstr vs) @ CHR '']'' # rest) = None"
      using c by auto
    then show ?thesis
      using "4.IH"[of rest m] "4.prems" False by (simp add: m json_value.simps(2) json_space_def)
  qed
next
  case (5 numstr kvs)
  obtain m where m: "n = Suc m" using "5.prems" by (cases n) auto
  show ?case
  proof (cases "kvs = []")
    case True
    then show ?thesis by (simp add: m json_value.simps(2) json_space_def)
  next
    case False
    then obtain k w ws where vs: "kvs = (k, w) # ws" by (cases kvs) auto
    have "w \<noteq> Undefined" using "5.prems"(1) vs by auto
    then have "\<exists>t. join_with (CHR '','') (json_entries numstr kvs) = CHR 0x22 # t"
      using vs by (cases "json_entries numstr ws") (simp_all add: json_quote_def)
    then have "expect (CHR ''}'') (join_with (CHR '','') (json_entries numstr kvs) @ CHR ''}'' # rest) = None"
      by (auto simp: json_space_def)
    then show ?thesis
      using "5.IH"[of "[]" rest m] "5.prems" False by (simp add: m json_value.simps(2) json_space_def)
  qed
next
  case (8 numstr v vs)
  obtain m where m: "n = Suc m" using "8.prems" by (cases n) auto
  show ?case
  proof (cases "vs = []")
    case True
    then show ?thesis
      using "8.IH"(1)[of "CHR '']'' # rest" m] "8.prems"
      by (simp add: m json_elements.simps(2) json_stop_def json_space_def)
  next
    case False
    then have j: "json_items numstr vs \<noteq> []" by (cases vs) simp_all
    let ?t = "join_with (CHR '','') (json_items numstr vs) @ CHR '']'' # rest"
    show ?thesis
      using "8.IH"(1)[of "CHR '','' # ?t" m] "8.IH"(2)[of rest m] "8.prems" False
      by (simp add: m json_elements.simps(2) join_with_Cons[OF j] json_stop_def json_space_def)
  qed
next
  case (10 numstr k v kvs)
  obtain m where m: "n = Suc m" using "10.prems" by (cases n) auto
  have v: "v \<noteq> Undefined" "json_readable numstr v" using "10.prems"(1) by auto
  have put: "assoc_put k v acc = acc @ [(k, v)]" using "10.prems"(3) by (intro assoc_put_new) auto
  show ?case
  proof (cases "kvs = []")
    case True
    then show ?thesis
      using "10.IH"(2)[OF v, of "CHR ''}'' # rest" m] "10.prems" v
      by (simp add: m json_members.simps(2) json_stop_def json_space_def json_quote_def json_quote_read put)
  next
    case False
    then have j: "json_entries numstr kvs \<noteq> []" using "10.prems"(1) by (cases kvs) (auto split: if_splits)
    let ?t = "join_with (CHR '','') (json_entries numstr kvs) @ CHR ''}'' # rest"
    show ?thesis
      using "10.IH"(2)[OF v, of "CHR '','' # ?t" m] "10.IH"(3)[OF v(1), of "acc @ [(k, v)]" rest m] "10.prems" False v
      by (simp add: m json_members.simps(2) join_with_Cons[OF j] json_stop_def json_space_def json_quote_def json_quote_read put)
  qed
qed (simp_all add: json_value_scalar json_space_def json_scalar_def starts_def)

theorem json_roundtrip:
  assumes "json_readable numstr v" and "list_all json_space blanks"
  shows "json_parse (json_text numstr v @ blanks) = Some v"
proof -
  have "dropWhile json_space blanks = []" "json_stop blanks"
    using assms(2) by (simp_all add: list_all_iff json_stop_def) (cases blanks; simp)
  then show ?thesis
    using json_value_text(1)[OF assms(1), of blanks] by (simp add: json_parse_def)
qed

end
