(* ===== verification/Js_Numbers.thy ===== *)
theory Js_Numbers
  imports Json_Text
begin

text \<open>
  The conversions between numbers and text the scripts call: \<^verbatim>\<open>Number(v)\<close>, \<^verbatim>\<open>Math.round\<close>,
  \<^verbatim>\<open>toFixed\<close> and \<^verbatim>\<open>toString(16)\<close>.  Numbers are rationals, so a result the language would round to
  a double is exact here, and magnitudes beyond the doubles do not become infinite.

  \<^item> \<open>to_fixed_reads_back\<close>: the text of \<^verbatim>\<open>toFixed\<close> is a decimal number within half a unit of its last
    place.
  \<^item> \<open>hex_fixed\<close>: the idiom that pads a hexadecimal number with zeros and keeps its last digits.
\<close>

section \<open>Text to number\<close>

definition radix_number :: "int \<Rightarrow> string \<Rightarrow> jsval" where
  "radix_number base s =
     (if s \<noteq> [] \<and> (\<forall>c \<in> set s. case hex_digit c of Some d \<Rightarrow> d < base | None \<Rightarrow> False)
      then NumI (fold (\<lambda>c n. base * n + (case hex_digit c of Some d \<Rightarrow> d | None \<Rightarrow> 0)) s 0) else NaN)"

text \<open>A decimal literal; unlike \<^verbatim>\<open>parseFloat\<close> it has to be the whole text.\<close>

definition decimal_number :: "string \<Rightarrow> jsval" where
  "decimal_number s =
     (let (neg, u) = sign_of s in
      if u = ''Infinity'' then (if neg then NegInfinity else Infinity)
      else (let ip = takeWhile is_digit u; r = dropWhile is_digit u;
                (fp, r) = (case r of c # r' \<Rightarrow>
                    if c = CHR ''.'' then (takeWhile is_digit r', dropWhile is_digit r') else ([], r)
                  | [] \<Rightarrow> ([], []))
        in if ip = [] \<and> fp = [] then NaN
           else (case json_exponent r of
               Some (e, []) \<Rightarrow>
                 (let v = of_nat (dec_run 0 (ip @ fp)) * 10 powi (e - int (length fp))
                  in Num (if neg then - v else v))
             | _ \<Rightarrow> NaN)))"

definition string_number :: "string \<Rightarrow> jsval" where
  "string_number s =
     (let t = trim s in
      if t = [] then Num 0
      else if take 2 t \<in> {''0x'', ''0X''} then radix_number 16 (drop 2 t)
      else if take 2 t \<in> {''0o'', ''0O''} then radix_number 8 (drop 2 t)
      else if take 2 t \<in> {''0b'', ''0B''} then radix_number 2 (drop 2 t)
      else decimal_number t)"

text \<open>\<^verbatim>\<open>Number(v)\<close>; arrays and objects are converted to text first, which is part of the parameter
\<open>numstr\<close>.\<close>

fun to_number :: "(jsval \<Rightarrow> string) \<Rightarrow> jsval \<Rightarrow> jsval" where
  "to_number numstr Undefined = NaN"
| "to_number numstr Null = Num 0"
| "to_number numstr (Bool b) = Num (if b then 1 else 0)"
| "to_number numstr (Str s) = string_number s"
| "to_number numstr (Arr vs) = string_number (numstr (Arr vs))"
| "to_number numstr (Obj kvs) = string_number (numstr (Obj kvs))"
| "to_number numstr v = v"

text \<open>The operand of a bitwise operator: the integer part, and 0 for what is no finite number.\<close>

definition int_operand :: "jsval \<Rightarrow> int" where
  "int_operand v = (case v of Num q \<Rightarrow> (if 0 \<le> q then \<lfloor>q\<rfloor> else \<lceil>q\<rceil>) | _ \<Rightarrow> 0)"

definition js_round :: "jsval \<Rightarrow> jsval" where
  "js_round v = (case v of Num q \<Rightarrow> NumI \<lfloor>q + 1 / 2\<rfloor> | _ \<Rightarrow> v)"

section \<open>Number to text\<close>

text \<open>\<^verbatim>\<open>toFixed(f)\<close>: the sign, then the nearest decimal number with \<open>f\<close> places, the larger one of
two; numbers from \<open>10^21\<close> on are printed as \<^verbatim>\<open>String\<close> does.\<close>

definition to_fixed :: "(jsval \<Rightarrow> string) \<Rightarrow> nat \<Rightarrow> jsval \<Rightarrow> string" where
  "to_fixed numstr f v = (case v of
       Num q \<Rightarrow>
         (if 10 ^ 21 \<le> \<bar>q\<bar> then numstr v
          else (let n = nat \<lfloor>\<bar>q\<bar> * 10 ^ f + 1 / 2\<rfloor>
            in (if q < 0 then ''-'' else []) @ nat_digits (n div 10 ^ f)
              @ (if f = 0 then [] else CHR ''.'' # pad_zeros f (nat_digits (n mod 10 ^ f)))))
     | _ \<Rightarrow> numstr v)"

definition upper :: "char \<Rightarrow> char" where
  "upper c = (if 97 \<le> js_code c \<and> js_code c \<le> 122 then js_char (js_code c - 32) else c)"

text \<open>\<^verbatim>\<open>slice(-n)\<close>: the last \<open>n\<close> characters.\<close>

definition slice_last :: "nat \<Rightarrow> string \<Rightarrow> string" where
  "slice_last n s = drop (length s - n) s"

section \<open>Lemmas\<close>

lemma char_eq_code: "c = d \<longleftrightarrow> (of_char c :: nat) = of_char d"
  by simp

lemma hex_char_code: "d < 16 \<Longrightarrow> char_of (if d < 10 then 48 + d else 87 + d) = hex_char (int d)"
proof -
  assume "d < 16"
  then have "d \<in> {0, 1, 2, 3, 4, 5, 6, 7, 8, 9, 10, 11, 12, 13, 14, 15}" by simp presburger
  then show ?thesis by (auto simp: hex_char_def char_eq_code)
qed

lemma hex_digits_byte:
  assumes "n < 256"
  shows "hex_digits n = (if n < 16 then [hex_char (int n)] else [hex_char (int n div 16), hex_char (int n mod 16)])"
proof -
  have low: "hex_digits m = [hex_char (int m)]" if "m < 16" for m
    using that hex_char_code[of m] by (subst hex_digits.simps) (simp add: Let_def)
  have "n div 16 < 16" "n mod 16 < 16" using assms by auto
  then have "n \<ge> 16 \<Longrightarrow> hex_digits n = [hex_char (int (n div 16)), hex_char (int (n mod 16))]"
    using low[of "n div 16"] hex_char_code[of "n mod 16"] by (subst hex_digits.simps) (simp add: Let_def)
  then show ?thesis using low[of n] by (simp add: zdiv_int zmod_int)
qed

text \<open>\<^verbatim>\<open>("0" + n.toString(16)).slice(-2)\<close>, also with more zeros in front.\<close>

lemma hex_fixed:
  assumes "n < 256" and "0 < k"
  shows "slice_last 2 (replicate k (CHR ''0'') @ hex_digits n) = [hex_char (int n div 16), hex_char (int n mod 16)]"
proof (cases "n < 16")
  case True
  obtain j where k: "k = Suc j" using assms(2) by (cases k) auto
  have "replicate k (CHR ''0'') @ hex_digits n = replicate j (CHR ''0'') @ [CHR ''0'', hex_char (int n)]"
    using True assms(1) by (simp add: hex_digits_byte k replicate_app_Cons_same)
  moreover have "hex_char (int n div 16) = CHR ''0''" using True by (simp add: hex_char_def)
  ultimately show ?thesis using True by (simp add: slice_last_def)
next
  case False
  then show ?thesis using assms(1) by (simp add: slice_last_def hex_digits_byte)
qed

lemma upper_hex_chars:
  "d \<in> {0, 1, 2, 3, 4, 5, 6, 7, 8, 9, 10, 11, 12, 13, 14, 15} \<Longrightarrow> upper (hex_char d) = ''0123456789ABCDEF'' ! nat d"
  by (elim insertE emptyE; hypsubst; code_simp)

lemma upper_hex_char:
  assumes "0 \<le> d" and "d < 16"
  shows "hex_digit (upper (hex_char d)) = Some d"
proof -
  have d: "d \<in> {0, 1, 2, 3, 4, 5, 6, 7, 8, 9, 10, 11, 12, 13, 14, 15}" using assms by simp presburger
  then have "hex_digit (''0123456789ABCDEF'' ! nat d) = Some d" by (auto simp: hex_digit_def)
  then show ?thesis using upper_hex_chars[OF d] by simp
qed

text \<open>The text of \<^verbatim>\<open>toFixed\<close> is a decimal number next to the value.\<close>

theorem to_fixed_reads_back:
  assumes "\<bar>q\<bar> < 10 ^ 21"
  shows "\<exists>r. parseFloat (to_fixed numstr f (Num q)) = Num r \<and> \<bar>r - q\<bar> \<le> 1 / (2 * 10 ^ f)"
proof -
  let ?n = "nat \<lfloor>\<bar>q\<bar> * 10 ^ f + 1 / 2\<rfloor>"
  let ?ip = "nat_digits (?n div 10 ^ f)"
  define fp where "fp = (if f = 0 then [] else pad_zeros f (nat_digits (?n mod 10 ^ f)))"
  have printed: "to_fixed numstr f (Num q) = (if q < 0 then ''-'' else []) @ ?ip @ (if fp = [] then [] else CHR ''.'' # fp)"
    using assms by (auto simp: to_fixed_def fp_def Let_def pad_zeros_def)
  have v: "dec_run 0 (?ip @ fp) = ?n" and len: "length fp = f" and fp: "\<forall>c \<in> set fp. is_digit c"
    using fixed_digits[where N = ?n and k = f] by (simp_all add: fp_def)
  have n: "(of_nat ?n :: rat) = of_int \<lfloor>\<bar>q\<bar> * 10 ^ f + 1 / 2\<rfloor>"
    by (simp add: of_nat_nat)
  have r: "parseFloat (to_fixed numstr f (Num q)) = Num ((if q < 0 then -1 else 1) * (of_nat ?n / 10 ^ f))"
    using parseFloat_parts[OF nat_digits_digits nat_digits_nonempty fp, of "q < 0" "?n div 10 ^ f"] unfolding printed v len by simp
  have "of_nat ?n \<le> \<bar>q\<bar> * 10 ^ f + 1 / 2" "\<bar>q\<bar> * 10 ^ f + 1 / 2 < of_nat ?n + 1"
    unfolding n by linarith+
  then have "\<bar>of_nat ?n - \<bar>q\<bar> * 10 ^ f\<bar> \<le> 1 / 2" by linarith
  moreover have "\<bar>of_nat ?n / 10 ^ f - \<bar>q\<bar>\<bar> = \<bar>of_nat ?n - \<bar>q\<bar> * 10 ^ f\<bar> / 10 ^ f"
  proof -
    have "of_nat ?n / 10 ^ f - \<bar>q\<bar> = (of_nat ?n - \<bar>q\<bar> * 10 ^ f) / 10 ^ f" by (simp add: field_simps)
    then show ?thesis by (simp only: abs_divide abs_power_minus) simp
  qed
  ultimately have "\<bar>of_nat ?n / 10 ^ f - \<bar>q\<bar>\<bar> \<le> 1 / 2 / 10 ^ f"
    by (simp only: divide_right_mono zero_le_power)
  moreover obtain x :: rat where x: "x = of_nat ?n / 10 ^ f" by blast
  ultimately have "\<bar>x - \<bar>q\<bar>\<bar> \<le> 1 / (2 * 10 ^ f)" unfolding x by simp
  then have "\<bar>(if q < 0 then -1 else 1) * x - q\<bar> \<le> 1 / (2 * 10 ^ f)" by (simp add: abs_if split: if_splits)
  then show ?thesis unfolding r x[symmetric] by blast
qed

end
