(* ===== verification/Json_Parsers.thy ===== *)
theory Json_Parsers
  imports Key_Tables Js_Numbers
begin

text \<open>
  The frame parsers that read JSON text (\<^verbatim>\<open>json_data.js\<close>, \<^verbatim>\<open>batched_sensor_data.js\<close> and
  \<^verbatim>\<open>time_series_2d.js\<close>, under \<^verbatim>\<open>app/rcc/scripts/parser/js\<close>).

  \<^item> \<open>json_data.js\<close> stores the known members of an object in its table and catches every exception;
    the other two let exceptions through, so their \<open>parse\<close> returns an option.
  \<^item> \<open>json_frames_stored\<close>: an object written as JSON sets each known name it has and leaves the other
    values; a frame that is no JSON object leaves all of them.
  \<^item> \<open>batches_unpacked\<close>: the scalars and the samples, and the rows of the records, come out in order.
\<close>

section \<open>\<^verbatim>\<open>json_data.js\<close>\<close>

definition json_numItems :: nat where "json_numItems = 4"

definition fieldToIndexMap :: "(string \<times> nat) list" where
  "fieldToIndexMap = [(''time'', 0), (''speed'', 1), (''angle'', 2), (''distance'', 3)]"

text \<open>\<^verbatim>\<open>data.hasOwnProperty(field)\<close> throws when \<open>data\<close> is \<^verbatim>\<open>null\<close>, or has a member of that name, which is no
function; the first call throws then, before anything is stored.\<close>

definition has_own_throws :: "jsval \<Rightarrow> bool" where
  "has_own_throws data \<longleftrightarrow> data = Undefined \<or> data = Null \<or> has_own data ''hasOwnProperty''"

definition json_store :: "jsval \<Rightarrow> jsval list \<Rightarrow> jsval list" where
  "json_store data parsedValues =
     (if has_own_throws data then parsedValues
      else fold (\<lambda>(field, i) vs. if has_own data field then set_element vs i (get_prop data field) else vs)
        fieldToIndexMap parsedValues)"

definition json_data_parse :: "string \<Rightarrow> jsval list \<Rightarrow> jsval list" where
  "json_data_parse frame parsedValues =
     (case json_parse frame of None \<Rightarrow> parsedValues | Some data \<Rightarrow> json_store data parsedValues)"

section \<open>\<^verbatim>\<open>batched_sensor_data.js\<close>\<close>

definition batched_parse :: "string \<Rightarrow> jsval option" where
  "batched_parse frame = (case json_parse frame of None \<Rightarrow> None
     | Some data \<Rightarrow>
         if data = Null then None
         else (let device_id = or_else (get_prop data ''device_id'') (Num 0);
                   battery = or_else (get_prop data ''battery'') (Num 0);
                   temperature = or_else (get_prop data ''temperature'') (Num 0);
                   samples = or_else (get_prop data ''samples'') (Arr [])
           in Some (Arr [device_id, battery, temperature, samples])))"

section \<open>\<^verbatim>\<open>time_series_2d.js\<close>\<close>

definition record_row :: "jsval \<Rightarrow> jsval option" where
  "record_row r = (if r = Undefined \<or> r = Null then None
     else Some (Arr [or_else (get_prop r ''timestamp'') (Num 0), or_else (get_prop r ''temp'') (Num 0),
       or_else (get_prop r ''humidity'') (Num 0)]))"

text \<open>How often the loop \<open>i < records.length\<close> runs when \<open>records\<close> is an object with members \<open>kvs\<close>: the row of
the first missing index throws, so running past the number of members makes no difference
(\<open>missing_row\<close>).\<close>

definition object_length :: "(jsval \<Rightarrow> string) \<Rightarrow> (string \<times> jsval) list \<Rightarrow> nat" where
  "object_length numstr kvs = (case to_number numstr (get_prop (Obj kvs) ''length'') of
       Num q \<Rightarrow> min (nat \<lceil>q\<rceil>) (Suc (length kvs)) | Infinity \<Rightarrow> Suc (length kvs) | _ \<Rightarrow> 0)"

definition record_rows :: "(jsval \<Rightarrow> string) \<Rightarrow> jsval \<Rightarrow> jsval list option" where
  "record_rows numstr records = (case records of
       Arr rs \<Rightarrow> those (map record_row rs)
     | Str s \<Rightarrow> those (map (\<lambda>c. record_row (Str [c])) s)
     | Obj kvs \<Rightarrow> those (map (\<lambda>i. record_row (get_prop records (nat_digits i))) [0..<object_length numstr kvs])
     | _ \<Rightarrow> Some [])"

definition time_series_parse :: "(jsval \<Rightarrow> string) \<Rightarrow> string \<Rightarrow> jsval option" where
  "time_series_parse numstr frame = (case json_parse frame of None \<Rightarrow> None
     | Some data \<Rightarrow>
         if data = Null then None
         else (let records = or_else (get_prop data ''records'') (Arr [])
           in map_option Arr (record_rows numstr records)))"

section \<open>Lemmas\<close>

lemma those_None: "None \<in> set xs \<Longrightarrow> those xs = None"
  by (induction xs) (auto split: option.splits)

lemma those_map_Some: "\<forall>x. f x = Some (g x) \<Longrightarrow> those (map f xs) = Some (map g xs)"
  by (induction xs) simp_all

text \<open>More indices than members: one is missing.\<close>

lemma missing_row:
  assumes "length kvs < n"
  shows "those (map (\<lambda>i. record_row (get_prop (Obj kvs) (nat_digits i))) [0..<n]) = None"
proof -
  have "card (nat_digits ` {0..<n}) = n"
    using nat_digits_inj by (subst card_image) (auto intro: inj_onI)
  moreover have "card (fst ` set kvs) \<le> length kvs"
    using card_image_le[of "set kvs" fst] card_length[of kvs] by simp
  ultimately have "\<not> nat_digits ` {0..<n} \<subseteq> fst ` set kvs"
    using assms card_mono[of "fst ` set kvs" "nat_digits ` {0..<n}"] by auto
  then have "\<exists>i. i < n \<and> nat_digits i \<notin> fst ` set kvs" by (auto simp: image_subset_iff Bex_def)
  then obtain i where i: "i < n" "nat_digits i \<notin> fst ` set kvs" by blast
  then have "record_row (get_prop (Obj kvs) (nat_digits i)) = None"
    by (auto simp: record_row_def get_prop_def props_def map_of_eq_None_iff[symmetric] split: option.splits)
  with i(1) show ?thesis by (intro those_None) force
qed

lemma json_store_other: "\<forall>kvs. v \<noteq> Obj kvs \<Longrightarrow> json_store v vs = vs"
  by (cases v) (simp_all add: json_store_def has_own_def props_def fieldToIndexMap_def)

lemma json_store_object:
  assumes "''hasOwnProperty'' \<notin> fst ` set kvs" and "map_of fieldToIndexMap k = Some i"
  shows "json_store (Obj kvs) (map old [0..<json_numItems]) ! i = (case map_of kvs k of Some v \<Rightarrow> v | None \<Rightarrow> old i)"
proof -
  have own: "has_own (Obj kvs) k \<longleftrightarrow> map_of kvs k \<noteq> None" for k
    by (simp add: has_own_def props_def map_of_eq_None_iff)
  have "\<not> has_own_throws (Obj kvs)" using assms(1) by (simp add: has_own_throws_def own map_of_eq_None_iff)
  then show ?thesis
    using assms(2)
    by (auto simp: json_store_def fieldToIndexMap_def own get_prop_def props_def set_element_def json_numItems_def
        numeral_2_eq_2 split: if_splits option.splits)
qed

section \<open>Properties\<close>

text \<open>C13: A JSON object sets each value whose name it has to the member, whatever the values are and
however they are nested, and leaves the others; a frame that is no JSON text, or another kind of JSON
value, leaves all of them, and so does an object with a member named \<^verbatim>\<open>hasOwnProperty\<close>, which makes the
script's test throw.\<close>

theorem json_frames_stored:
  assumes "json_readable numstr (Obj kvs)"
  shows "(''hasOwnProperty'' \<notin> fst ` set kvs \<longrightarrow> (\<forall>k i. map_of fieldToIndexMap k = Some i
        \<longrightarrow> json_data_parse (json_text numstr (Obj kvs)) (map old [0..<json_numItems]) ! i
          = (case map_of kvs k of Some v \<Rightarrow> v | None \<Rightarrow> old i)))
    \<and> (''hasOwnProperty'' \<in> fst ` set kvs \<longrightarrow> (\<forall>vs. json_data_parse (json_text numstr (Obj kvs)) vs = vs))
    \<and> (\<forall>frame vs. (\<forall>members. json_parse frame \<noteq> Some (Obj members)) \<longrightarrow> json_data_parse frame vs = vs)"
proof (intro conjI allI impI)
  have parsed: "json_parse (json_text numstr (Obj kvs)) = Some (Obj kvs)"
    using json_roundtrip[OF assms, of "[]"] by simp
  { fix k i assume "''hasOwnProperty'' \<notin> fst ` set kvs" "map_of fieldToIndexMap k = Some i"
    with parsed show "json_data_parse (json_text numstr (Obj kvs)) (map old [0..<json_numItems]) ! i
        = (case map_of kvs k of Some v \<Rightarrow> v | None \<Rightarrow> old i)"
      using json_store_object by (simp add: json_data_parse_def) }
  { fix vs assume "''hasOwnProperty'' \<in> fst ` set kvs"
    with parsed show "json_data_parse (json_text numstr (Obj kvs)) vs = vs"
      by (simp add: json_data_parse_def json_store_def has_own_throws_def has_own_def props_def) }
next
  fix frame vs assume "\<forall>members. json_parse frame \<noteq> Some (Obj members)"
  then show "json_data_parse frame vs = vs"
    by (cases "json_parse frame") (auto simp: json_data_parse_def json_store_other)
qed

theorem json_frames_stored_witness:
  "json_data_parse (CHR ''{'' # CHR 0x22 # ''speed'' @ CHR 0x22 # CHR '':'' # ''48}'') (map (\<lambda>_. Num 7) [0..<4]) ! 1 = Num 48"
proof -
  let ?kvs = "[(''speed'', Num 48)]" let ?str = "\<lambda>_. ''48''"
  have "json_number ''48'' = Some (48, [])"
    by (simp add: json_number_def json_fraction_def json_exponent_def is_digit_def digit_value_def)
  then have r: "json_readable ?str (Obj ?kvs)" by simp
  have "''hasOwnProperty'' \<notin> fst ` set ?kvs" by simp
  from conjunct1[OF json_frames_stored[OF r, of "\<lambda>_. Num 7"], rule_format, OF this, of "''speed''" 1] show ?thesis
    by (simp add: fieldToIndexMap_def json_numItems_def json_quote_def json_escape_def js_code_def Let_def)
qed

definition series_record :: "rat \<times> rat \<times> rat \<Rightarrow> jsval" where
  "series_record r = (case r of (time, temp, hum) \<Rightarrow>
     Obj [(''timestamp'', Num time), (''temp'', Num temp), (''humidity'', Num hum)])"

definition series_row :: "rat \<times> rat \<times> rat \<Rightarrow> jsval" where
  "series_row r = (case r of (time, temp, hum) \<Rightarrow> Arr [Num time, Num temp, Num hum])"

text \<open>A batch written as JSON is unpacked into its scalars and its samples, and a series of records
into one row per record, in order; a frame that is no JSON text is reported as an exception.\<close>

theorem batches_unpacked:
  assumes "json_readable numstr (Obj [(''device_id'', Num d), (''battery'', Num b), (''temperature'', Num t), (''samples'', Arr xs)])"
    and "json_readable numstr (Obj [(''records'', Arr (map series_record rs))])"
  shows "batched_parse (json_text numstr (Obj [(''device_id'', Num d), (''battery'', Num b),
        (''temperature'', Num t), (''samples'', Arr xs)])) = Some (Arr [Num d, Num b, Num t, Arr xs])
    \<and> time_series_parse numstr (json_text numstr (Obj [(''records'', Arr (map series_record rs))]))
      = Some (Arr (map series_row rs))
    \<and> (\<forall>frame. json_parse frame = None \<longrightarrow> batched_parse frame = None \<and> time_series_parse numstr frame = None)"
proof (intro conjI allI impI)
  have zero: "or_else (Num q) (Num 0) = Num q" for q by (simp add: or_else_def truthy_def)
  have arr: "or_else (Arr vs) v = Arr vs" for vs v by (simp add: or_else_def truthy_def)
  show "batched_parse (json_text numstr (Obj [(''device_id'', Num d), (''battery'', Num b),
        (''temperature'', Num t), (''samples'', Arr xs)])) = Some (Arr [Num d, Num b, Num t, Arr xs])"
    using json_roundtrip[OF assms(1), of "[]"]
    by (simp add: batched_parse_def get_prop_def props_def Let_def zero arr del: json_text.simps)
  have row: "record_row (series_record r) = Some (series_row r)" for r
    by (simp add: record_row_def series_record_def series_row_def get_prop_def props_def zero split: prod.splits)
  have "those (map (record_row \<circ> series_record) rs) = Some (map series_row rs)"
    using those_map_Some[of "record_row \<circ> series_record" series_row rs] row by simp
  then show "time_series_parse numstr (json_text numstr (Obj [(''records'', Arr (map series_record rs))]))
      = Some (Arr (map series_row rs))"
    using json_roundtrip[OF assms(2), of "[]"]
    by (simp add: time_series_parse_def get_prop_def props_def Let_def arr record_rows_def del: json_text.simps)
qed (simp_all add: batched_parse_def time_series_parse_def)

theorem batches_unpacked_witness:
  "batched_parse (json_text (\<lambda>_. ''7'') (Obj [(''device_id'', Num 7), (''battery'', Num 7),
     (''temperature'', Num 7), (''samples'', Arr [Num 7, Num 7])])) = Some (Arr [Num 7, Num 7, Num 7, Arr [Num 7, Num 7]])"
proof -
  have "json_number ''7'' = Some (7, [])"
    by (simp add: json_number_def json_fraction_def json_exponent_def is_digit_def digit_value_def)
  then show ?thesis
    by (intro conjunct1[OF batches_unpacked[where rs = "[(7, 7, 7)]"]]) (simp_all add: series_record_def)
qed

end
