(* ===== verification/Output_Scripts.thy ===== *)
theory Output_Scripts
  imports Sdk_Prelude Nmea_Sentences Js_Numbers
begin

text \<open>
  The output scripts under \<^verbatim>\<open>app/rcc/scripts/output\<close>, one \<open>transmit\<close> function each: what a control of
  the dashboard (a slider, a toggle, a text field) sends to the device for its value.

  How numbers are printed outside \<^verbatim>\<open>toFixed\<close> is the parameter \<open>numstr\<close>, and the clock is an argument.
  \<^item> \<open>sent_sentences_accepted\<close>: the sentences of the NMEA script pass the check of the NMEA parser.
  \<^item> \<open>setpoints_read_back\<close>: the numbers that are sent with a fixed number of places are within half a
    unit of the last place of the control's value.
  \<^item> \<open>binary_commands_carry_value\<close>: the SLCAN, CAN, Modbus and packet commands carry the value in
    their data bytes.
\<close>

definition is_text :: "jsval \<Rightarrow> bool" where
  "is_text v = (case v of Str _ \<Rightarrow> True | _ \<Rightarrow> False)"

abbreviation CRLF :: string where "CRLF \<equiv> [CHR 0x0D, CHR 0x0A]"
abbreviation LF :: string where "LF \<equiv> [CHR 0x0A]"

section \<open>The scripts\<close>

definition at_transmit :: "(jsval \<Rightarrow> string) \<Rightarrow> jsval \<Rightarrow> string" where
  "at_transmit numstr value =
     (if is_text value \<and> 0 < length (js_string numstr value)
      then ''AT+'' @ js_string numstr value @ CRLF else ''AT'' @ CRLF)"

definition binary_transmit :: "(jsval \<Rightarrow> string) \<Rightarrow> jsval \<Rightarrow> string" where
  "binary_transmit numstr value =
     (let STX = js_char 0x02; ETX = js_char 0x03; cmd = js_char 0x01;
          low = bit_and (int_operand (js_round (to_number numstr value))) 0xFF;
          val = js_char low; chk = js_char (bit_xor 0x01 low)
      in [STX, cmd, val, chk, ETX])"

definition can_transmit :: "rat \<Rightarrow> int list" where
  "can_transmit value = canSendValue 0x100 value 2"

definition default_transmit :: "(jsval \<Rightarrow> string) \<Rightarrow> jsval \<Rightarrow> string" where
  "default_transmit numstr value = ''CMD '' @ js_string numstr value @ CRLF"

definition FEED_RATE :: jsval where "FEED_RATE = Num 600"

definition gcode_transmit :: "(jsval \<Rightarrow> string) \<Rightarrow> jsval \<Rightarrow> string" where
  "gcode_transmit numstr value =
     (if is_text value then js_string numstr value @ LF
      else if value = Num 0 \<or> value = Num 1 then (if truthy value then ''M3 S1000'' @ LF else ''M5'' @ LF)
      else ''G91'' @ LF @ ''G1 X'' @ to_fixed numstr 2 (to_number numstr value) @ '' F''
        @ js_string numstr FEED_RATE @ LF @ ''G90'' @ LF)"

definition JOG_FEED :: jsval where "JOG_FEED = Num 500"
definition JOG_AXIS :: string where "JOG_AXIS = ''X''"

definition grbl_transmit :: "(jsval \<Rightarrow> string) \<Rightarrow> jsval \<Rightarrow> string" where
  "grbl_transmit numstr value =
     (if is_text value then js_string numstr value @ LF
      else if value = Num 0 then ''!''
      else if value = Num 1 then ''~''
      else ''$J=G91 '' @ JOG_AXIS @ to_fixed numstr 2 (to_number numstr value) @ '' F''
        @ js_string numstr JOG_FEED @ LF)"

definition json_transmit :: "(jsval \<Rightarrow> string) \<Rightarrow> int \<Rightarrow> jsval \<Rightarrow> string" where
  "json_transmit numstr now value =
     (let obj = Obj [(''cmd'', Str ''set''), (''value'', value), (''ts'', NumI now)]
      in json_text numstr obj @ LF)"

definition REGISTER :: int where "REGISTER = 0x0001"

definition modbus_transmit :: "rat \<Rightarrow> int list" where
  "modbus_transmit value = modbusWriteRegister REGISTER value None"

definition TALKER :: string where "TALKER = ''GP''"

definition nmea_body :: "(jsval \<Rightarrow> string) \<Rightarrow> jsval \<Rightarrow> string" where
  "nmea_body numstr value =
     (if is_text value then js_string numstr value else TALKER @ ''CMD,'' @ js_string numstr value)"

definition nmea_transmit :: "(jsval \<Rightarrow> string) \<Rightarrow> jsval \<Rightarrow> string" where
  "nmea_transmit numstr value =
     (let body = nmea_body numstr value;
          chk = fold (\<lambda>c chk. bit_xor chk (js_code c)) body 0;
          hex = map upper (slice_last 2 (CHR ''0'' # hex_digits (nat chk)))
      in CHR ''$'' # body @ CHR ''*'' # hex @ CRLF)"

definition pid_transmit :: "(jsval \<Rightarrow> string) \<Rightarrow> jsval \<Rightarrow> string" where
  "pid_transmit numstr value = (let sp = to_number numstr value in ''SP '' @ to_fixed numstr 2 sp @ CRLF)"

definition pwm_transmit :: "(jsval \<Rightarrow> string) \<Rightarrow> jsval \<Rightarrow> string" where
  "pwm_transmit numstr value =
     (let duty = js_round (to_number numstr value)
      in ''PWM '' @ js_string numstr (Num 0) @ '' '' @ js_string numstr duty @ CRLF)"

definition relay_transmit :: "(jsval \<Rightarrow> string) \<Rightarrow> jsval \<Rightarrow> string" where
  "relay_transmit numstr value =
     (let state = (if truthy value then ''ON'' else ''OFF'')
      in ''RELAY '' @ js_string numstr (Num 0) @ '' '' @ state @ CRLF)"

definition scpi_transmit :: "(jsval \<Rightarrow> string) \<Rightarrow> jsval \<Rightarrow> string" where
  "scpi_transmit numstr value =
     (let CHANNEL = js_string numstr (Num 1) in
      if is_text value then js_string numstr value @ LF
      else if value = Num 0 \<or> value = Num 1
      then ''OUTP'' @ CHANNEL @ '' '' @ (if truthy value then ''ON'' else ''OFF'') @ LF
      else ''SOUR'' @ CHANNEL @ '':VOLT '' @ to_fixed numstr 3 (to_number numstr value) @ LF)"

definition CONTROL :: string where "CONTROL = ''control''"

definition library_transmit :: "(jsval \<Rightarrow> string) \<Rightarrow> jsval \<Rightarrow> jsval \<Rightarrow> string" where
  "library_transmit numstr value token =
     (let command = ''#ss!'' @ CONTROL @ ''='' @ js_string numstr value in
      if token = Undefined \<or> token = Null then command @ LF
      else command @ ''@'' @ js_string numstr token @ LF)"

definition simple_transmit :: "(jsval \<Rightarrow> string) \<Rightarrow> jsval \<Rightarrow> string" where
  "simple_transmit numstr value =
     (if is_text value then js_string numstr value @ CRLF
      else if value = Num 1 then ''ON'' @ CRLF
      else if value = Num 0 then ''OFF'' @ CRLF
      else ''SET '' @ js_string numstr value @ CRLF)"

definition CAN_ID :: int where "CAN_ID = 0x100"

definition slcan_transmit :: "(jsval \<Rightarrow> string) \<Rightarrow> jsval \<Rightarrow> string" where
  "slcan_transmit numstr value =
     (let v = int_operand (to_number numstr value);
          fid = slice_last 3 (''000'' @ map upper (hex_digits (nat CAN_ID)));
          hi = slice_last 2 (''00'' @ map upper (hex_digits (nat (bit_and (sar v 8) 0xFF))));
          lo = slice_last 2 (''00'' @ map upper (hex_digits (nat (bit_and v 0xFF))))
      in ''t'' @ fid @ ''2'' @ hi @ lo @ [CHR 0x0D])"

section \<open>Checksummed and binary commands\<close>

lemma upper_slice: "slice_last n (''00'' @ map upper s) = map upper (slice_last n (''00'' @ s))"
proof -
  have "''00'' @ map upper s = map upper (''00'' @ s)" by (simp add: upper_def js_code_def)
  then show ?thesis by (simp only: slice_last_def drop_map length_map)
qed

lemma hex_byte_text:
  assumes "0 \<le> b" and "b < 256"
  shows "\<exists>h l. slice_last 2 (''00'' @ map upper (hex_digits (nat b))) = [h, l]
    \<and> hex_digit h = Some (b div 16) \<and> hex_digit l = Some (b mod 16)"
proof -
  have d: "0 \<le> b div 16" "b div 16 < 16" "0 \<le> b mod 16" "b mod 16 < 16" using assms by linarith+
  have "slice_last 2 (''00'' @ hex_digits (nat b)) = [hex_char (b div 16), hex_char (b mod 16)]"
    using hex_fixed[of "nat b" 2] assms by (simp add: numeral_2_eq_2)
  then show ?thesis
    unfolding upper_slice using upper_hex_char[OF d(1,2)] upper_hex_char[OF d(3,4)] by simp
qed

lemma nmea_transmit_text:
  "\<exists>h l. nmea_transmit numstr value = CHR ''$'' # nmea_body numstr value @ CHR ''*'' # h # l # CRLF
    \<and> hex_digit h = Some (xor_codes (nmea_body numstr value) div 16)
    \<and> hex_digit l = Some (xor_codes (nmea_body numstr value) mod 16)"
proof -
  let ?v = "xor_codes (nmea_body numstr value)"
  have v: "0 \<le> ?v" "?v < 256" by (rule xor_codes_range)+
  then have d: "0 \<le> ?v div 16" "?v div 16 < 16" "0 \<le> ?v mod 16" "?v mod 16 < 16" by linarith+
  have "slice_last 2 (CHR ''0'' # hex_digits (nat ?v)) = [hex_char (?v div 16), hex_char (?v mod 16)]"
    using hex_fixed[of "nat ?v" 1] v by simp
  then show ?thesis
    using upper_hex_char[OF d(1,2)] upper_hex_char[OF d(3,4)]
    by (simp add: nmea_transmit_def Let_def xor_codes_def)
qed

text \<open>\<open>n\<close> in two bytes, high byte first, as \<open>>> 8\<close> and \<open>& 0xFF\<close> take it apart.\<close>

lemma byte_parts:
  "0 \<le> bit_and n 0xFF" "bit_and n 0xFF < 256" "bit_and n 0xFF = n mod 256"
  "0 \<le> bit_and (sar n 8) 0xFF" "bit_and (sar n 8) 0xFF < 256" "bit_and (sar n 8) 0xFF = n div 256 mod 256"
proof -
  have "bit_and (sar n 8) 0xFF = to_int32 n div 256 mod 256" by (simp add: and_255 sar_eq)
  also have "\<dots> = n div 256 mod 256"
  proof -
    have "\<exists>k. to_int32 n = n + k * 4294967296"
      by (rule exI[of _ "- ((n + 2147483648) div 4294967296)"])
        (simp add: to_int32_mod minus_div_mult_eq_mod[symmetric])
    then obtain k where "to_int32 n = n + (k * 16777216) * 256" by auto
    then have "to_int32 n div 256 = n div 256 + (k * 65536) * 256" by simp
    then show ?thesis by (simp only: mod_mult_self1)
  qed
  finally show "bit_and (sar n 8) 0xFF = n div 256 mod 256" .
  then show "0 \<le> bit_and (sar n 8) 0xFF" "bit_and (sar n 8) 0xFF < 256" by simp_all
qed (simp_all add: and_255)

lemma slcan_text:
  assumes "to_number numstr value = Num q"
  shows "\<exists>a b c d. slcan_transmit numstr value = ''t1002'' @ [a, b, c, d] @ [CHR 0x0D]
    \<and> parse_hex_int [a, b, c, d] = Some (int_operand (Num q) mod 65536)"
proof -
  let ?n = "int_operand (Num q)"
  have "slice_last 3 (''000'' @ map upper (hex_digits (nat CAN_ID))) = ''100''"
    using of_char_eqI[of "char_of (49 :: nat)" "CHR ''1''", where ?'a = nat] of_char_eqI[of "char_of (48 :: nat)" "CHR ''0''", where ?'a = nat]
    by (simp add: CAN_ID_def hex_digits.simps upper_def js_code_def slice_last_def Let_def)
  moreover obtain a b where ab: "slice_last 2 (''00'' @ map upper (hex_digits (nat (bit_and (sar ?n 8) 0xFF)))) = [a, b]"
      "hex_digit a = Some (bit_and (sar ?n 8) 0xFF div 16)" "hex_digit b = Some (bit_and (sar ?n 8) 0xFF mod 16)"
    using hex_byte_text[OF byte_parts(4,5)[of ?n]] by blast
  moreover obtain c d where cd: "slice_last 2 (''00'' @ map upper (hex_digits (nat (bit_and ?n 0xFF)))) = [c, d]"
      "hex_digit c = Some (bit_and ?n 0xFF div 16)" "hex_digit d = Some (bit_and ?n 0xFF mod 16)"
    using hex_byte_text[OF byte_parts(1,2)[of ?n]] by blast
  moreover have "parse_hex_int [a, b, c, d]
      = Some (256 * (16 * (bit_and (sar ?n 8) 0xFF div 16) + bit_and (sar ?n 8) 0xFF mod 16)
        + (16 * (bit_and ?n 0xFF div 16) + bit_and ?n 0xFF mod 16))"
    using hex_digit_plain[OF ab(2)] hex_digit_plain[OF ab(3)] ab(2,3) cd(2,3)
    by (simp add: parse_hex_int_def parseInt16_def)
  moreover have "256 * (?n div 256 mod 256) + ?n mod 256 = ?n mod 65536"
    using zmod_zmult2_eq[of 256 ?n 256] by simp
  ultimately show ?thesis
    using assms by (simp add: slcan_transmit_def Let_def and_255 byte_parts(6)[unfolded and_255])
qed

lemma can_transmit_decoded: "can_decode (can_transmit q) = (False, 256, 2, word_bytes (math_round q))"
proof -
  let ?v = "math_round q" and ?p = "Numbers (value_bytes (math_round q) 2)"
  have "sar ?v 0 mod 256 = ?v mod 256" using byte_parts(3)[of ?v] by (simp add: sar_def bit_and_def and_255[symmetric])
  then have "value_bytes ?v 2 = [?v div 256 mod 256, ?v mod 256]"
    using byte_parts(6)[of ?v] by (simp add: numeral_2_eq_2 and_255)
  moreover have "?v mod 65536 div 256 = ?v div 256 mod 256"
    using zmod_zmult2_eq[of 256 ?v 256] by simp
  ultimately have "can_data ?p = word_bytes ?v"
    by (simp add: can_data_def fromCharCode_def and_255 word_bytes_def)
  moreover from this have "length (can_data ?p) = 2" by (simp add: word_bytes_def)
  ultimately show ?thesis
    using canSendFrame_decoded[of 256 ?p] by (simp add: can_transmit_def canSendValue_def)
qed

text \<open>The binary commands carry the value: the SLCAN frame as four hexadecimal digits and the CAN
frame as two bytes, both modulo \<open>2^16\<close>, the Modbus request as a big-endian register, and the packet as
one byte with its exclusive-or checksum.\<close>

theorem binary_commands_carry_value:
  "(\<exists>a b c d. slcan_transmit numstr (Num q) = ''t1002'' @ [a, b, c, d] @ [CHR 0x0D]
     \<and> parse_hex_int [a, b, c, d] = Some (int_operand (Num q) mod 65536))
   \<and> can_decode (can_transmit q) = (False, 256, 2, word_bytes (math_round q))
   \<and> modbus_transmit q = word_bytes 1 @ word_bytes (math_round q)
   \<and> map js_code (binary_transmit numstr (Num q))
      = [2, 1, math_round q mod 256, bit_xor 1 (math_round q mod 256), 3]"
proof (intro conjI)
  show "\<exists>a b c d. slcan_transmit numstr (Num q) = ''t1002'' @ [a, b, c, d] @ [CHR 0x0D]
     \<and> parse_hex_int [a, b, c, d] = Some (int_operand (Num q) mod 65536)"
    by (rule slcan_text) simp
  show "modbus_transmit q = word_bytes 1 @ word_bytes (math_round q)"
    by (simp add: modbus_transmit_def modbusWriteRegister_bytes ssModbusUnit_def REGISTER_def)
  have n: "int_operand (js_round (Num q)) = math_round q"
    by (simp add: int_operand_def js_round_def math_round_def)
  have "0 \<le> bit_xor 1 (math_round q mod 256) \<and> bit_xor 1 (math_round q mod 256) < 256"
    using bit_xor_byte[of 1 "math_round q mod 256"] xor_byte_range[of 1 "math_round q mod 256"] by simp
  then show "map js_code (binary_transmit numstr (Num q))
      = [2, 1, math_round q mod 256, bit_xor 1 (math_round q mod 256), 3]"
    using n by (simp add: binary_transmit_def Let_def js_code_char and_255)
qed (rule can_transmit_decoded)

text \<open>C14: Every sentence the NMEA output script sends for a body without a star passes the checksum test of the NMEA parser, which
then treats it as the sentence body: the two scripts agree on the checksum.\<close>

theorem sent_sentences_accepted:
  assumes "CHR ''*'' \<notin> set (nmea_body numstr value)"
  shows "nmea_parse (nmea_transmit numstr value) vs = nmea_store (CHR ''$'' # nmea_body numstr value) vs"
proof -
  obtain h l where "nmea_transmit numstr value = CHR ''$'' # nmea_body numstr value @ CHR ''*'' # h # l # CRLF"
      "hex_digit h = Some (xor_codes (nmea_body numstr value) div 16)"
      "hex_digit l = Some (xor_codes (nmea_body numstr value) mod 16)"
    using nmea_transmit_text by blast
  then show ?thesis
    using checked_sentence_digits[OF assms, of h "xor_codes (nmea_body numstr value)" l CRLF]
    by (simp add: js_space_def)
qed

theorem sent_sentences_accepted_witness:
  "nmea_parse (nmea_transmit (\<lambda>_. []) (Str ''GPVTG,84.4,T,77.8,M,6.5,N,12.0,K'')) (replicate 16 (Num 0))
    = nmea_store (CHR ''$'' # ''GPVTG,84.4,T,77.8,M,6.5,N,12.0,K'') (replicate 16 (Num 0))"
  using sent_sentences_accepted[of "\<lambda>_. []" "Str ''GPVTG,84.4,T,77.8,M,6.5,N,12.0,K''" "replicate 16 (Num 0)"]
  by (simp add: nmea_body_def is_text_def)

text \<open>C15: The set points of the PID, SCPI, G-code and Grbl scripts are decimal numbers that read back to
within half a unit of the last place of the control's value: for PID at every value, for the other three at
every value except 0 and 1.  Those two they take for a switch, whatever control they come from: SCPI turns the
output on or off, G-code starts or stops the spindle, Grbl resumes or holds, and no set point is sent.  The
values are below \<open>10\<^sup>21\<close>, from where \<^verbatim>\<open>toFixed\<close> writes exponents.\<close>

theorem setpoints_read_back:
  assumes "\<bar>q\<bar> < 10 ^ 21"
  shows "\<exists>t u r s. pid_transmit numstr (Num q) = ''SP '' @ t @ CRLF
    \<and> gcode_transmit numstr (Num q) = (if q = 0 then ''M5'' @ LF else if q = 1 then ''M3 S1000'' @ LF
        else ''G91'' @ LF @ ''G1 X'' @ t @ '' F'' @ numstr (Num 600) @ LF @ ''G90'' @ LF)
    \<and> grbl_transmit numstr (Num q) = (if q = 0 then ''!'' else if q = 1 then ''~''
        else ''$J=G91 X'' @ t @ '' F'' @ numstr (Num 500) @ LF)
    \<and> scpi_transmit numstr (Num q) = (if q = 0 then ''OUTP'' @ numstr (Num 1) @ '' OFF'' @ LF
        else if q = 1 then ''OUTP'' @ numstr (Num 1) @ '' ON'' @ LF
        else ''SOUR'' @ numstr (Num 1) @ '':VOLT '' @ u @ LF)
    \<and> parseFloat t = Num r \<and> \<bar>r - q\<bar> \<le> 1 / 200 \<and> parseFloat u = Num s \<and> \<bar>s - q\<bar> \<le> 1 / 2000"
proof -
  obtain r where r: "parseFloat (to_fixed numstr 2 (Num q)) = Num r" "\<bar>r - q\<bar> \<le> 1 / 200"
    using to_fixed_reads_back[OF assms(1), of numstr 2] by auto
  obtain s where s: "parseFloat (to_fixed numstr 3 (Num q)) = Num s" "\<bar>s - q\<bar> \<le> 1 / 2000"
    using to_fixed_reads_back[OF assms(1), of numstr 3] by auto
  show ?thesis
    by (rule exI[of _ "to_fixed numstr 2 (Num q)"], rule exI[of _ "to_fixed numstr 3 (Num q)"],
        rule exI[of _ r], rule exI[of _ s])
      (use r s in \<open>simp add: pid_transmit_def gcode_transmit_def grbl_transmit_def scpi_transmit_def
        is_text_def truthy_def FEED_RATE_def JOG_FEED_def JOG_AXIS_def\<close>)
qed

theorem setpoints_read_back_witness:
  "\<exists>t r. pid_transmit (\<lambda>_. []) (Num (- 5 / 3)) = ''SP '' @ t @ CRLF \<and> parseFloat t = Num r \<and> \<bar>r + 5 / 3\<bar> \<le> 1 / 200"
  using setpoints_read_back[of "- 5 / 3" "\<lambda>_. []"] by fastforce

end
