(* ===== verification/Mqtt_Scripts.thy ===== *)
theory Mqtt_Scripts
  imports Json_Parsers
begin

text \<open>
  The MQTT publisher scripts under \<^verbatim>\<open>app/rcc/scripts/mqtt/js\<close>: \<open>mqtt(frame)\<close> turns a comma-separated frame
  into the payload that is published.  \<open>numstr\<close> prints numbers, and the clock is an argument; the
  product with \<open>10^6\<close> in the InfluxDB script is exact here, while the script rounds it to a double.

  \<^item> \<open>mqtt_payloads_read_back\<close>: a frame of given numbers and texts (\<open>frame_of\<close>) comes back field by field
    from the JSON payloads.
  \<^item> \<open>mqtt_messages_numbered\<close>: the discovery message is sent once, and the sequence numbers count the
    messages modulo 256.
  \<^item> \<open>influx_line\<close>: the line protocol holds exactly the fields that are numbers, and nothing is published
    without one.
\<close>

abbreviation newline :: string where "newline \<equiv> [CHR 0x0A]"

text \<open>\<^verbatim>\<open>var v = parseFloat(parts[i]); isFinite(v) ? v : parts[i]\<close>\<close>

definition finite_or_text :: "string \<Rightarrow> jsval" where
  "finite_or_text part = (case parseFloat part of Num q \<Rightarrow> Num q | _ \<Rightarrow> Str part)"

definition frame_parts :: "(jsval \<Rightarrow> string) \<Rightarrow> jsval \<Rightarrow> string list" where
  "frame_parts numstr frame = split_on (CHR '','') (js_string numstr frame)"

text \<open>The loop \<open>i < FIELDS.length && i < parts.length\<close> that fills an object.\<close>

definition fill_fields :: "string list \<Rightarrow> string list \<Rightarrow> (string \<times> jsval) list" where
  "fill_fields names parts = fold (\<lambda>(name, part) kvs. assoc_put name (finite_or_text part) kvs) (zip names parts) []"

section \<open>AWS IoT\<close>

definition aws_FIELDS :: "string list" where
  "aws_FIELDS = [''temperature'', ''humidity'', ''pressure'']"

definition aws_mqtt :: "(jsval \<Rightarrow> string) \<Rightarrow> jsval \<Rightarrow> string" where
  "aws_mqtt numstr frame =
     (let reported = fill_fields aws_FIELDS (frame_parts numstr frame)
      in json_text numstr (Obj [(''state'', Obj [(''reported'', Obj reported)])]) @ newline)"

section \<open>Home Assistant\<close>

definition DEVICE_ID :: string where "DEVICE_ID = ''serial_studio_device''"
definition DEVICE_NAME :: string where "DEVICE_NAME = ''Serial Studio Device''"

definition ha_FIELDS :: "(string \<times> string) list" where
  "ha_FIELDS = [(''temperature'', ''C''), (''humidity'', ''%''), (''pressure'', ''hPa'')]"

definition ha_discovery :: jsval where
  "ha_discovery = Obj
     [(''device'', Obj [(''identifiers'', Arr [Str DEVICE_ID]), (''name'', Str DEVICE_NAME)]),
      (''state_topic'', Str (''homeassistant/sensor/'' @ DEVICE_ID @ ''/state'')),
      (''unique_id'', Str DEVICE_ID),
      (''value_template'', Str ''{{ value_json.temperature }}''),
      (''unit_of_measurement'', Str (snd (ha_FIELDS ! 0)))]"

text \<open>The state is \<open>discoverySent\<close>.\<close>

definition ha_mqtt :: "(jsval \<Rightarrow> string) \<Rightarrow> bool \<Rightarrow> jsval \<Rightarrow> string \<times> bool" where
  "ha_mqtt numstr discoverySent frame =
     (let payload = fill_fields (map fst ha_FIELDS) (frame_parts numstr frame) in
      if \<not> discoverySent
      then (json_text numstr ha_discovery @ newline @ json_text numstr (Obj payload), True)
      else (json_text numstr (Obj payload), discoverySent))"

section \<open>InfluxDB\<close>

definition MEASUREMENT :: string where "MEASUREMENT = ''serial_studio''"
definition TAGS :: string where "TAGS = ''device=dev01''"

definition influx_FIELDS :: "string list" where
  "influx_FIELDS = [''temperature'', ''humidity'', ''pressure'']"

definition influx_fields :: "(jsval \<Rightarrow> string) \<Rightarrow> string list \<Rightarrow> string list" where
  "influx_fields numstr parts = concat (map (\<lambda>(name, part).
     case parseFloat part of Num q \<Rightarrow> [name @ ''='' @ numstr (Num q)] | _ \<Rightarrow> []) (zip influx_FIELDS parts))"

definition influx_mqtt :: "(jsval \<Rightarrow> string) \<Rightarrow> int \<Rightarrow> jsval \<Rightarrow> jsval" where
  "influx_mqtt numstr now frame =
     (let fields = influx_fields numstr (frame_parts numstr frame) in
      if fields = [] then Null
      else (let ts = to_fixed numstr 0 (Num (of_int now * 10 ^ 6))
        in Str (MEASUREMENT @ '','' @ TAGS @ '' '' @ join_with (CHR '','') fields @ '' '' @ ts @ newline)))"

section \<open>Sparkplug B\<close>

definition METRICS :: "string list" where
  "METRICS = [''temperature'', ''humidity'', ''pressure'']"

text \<open>Every call of \<^verbatim>\<open>Date.now()\<close> reads the clock again: \<open>now k\<close> is what the \<open>k\<close>-th call returns.\<close>

definition sparkplug_metric :: "(nat \<Rightarrow> int) \<Rightarrow> nat \<Rightarrow> string \<times> string \<Rightarrow> jsval" where
  "sparkplug_metric now i m = (case m of (name, part) \<Rightarrow>
     Obj [(''name'', Str name), (''timestamp'', NumI (now i)), (''dataType'', Str ''Double''),
       (''value'', case parseFloat part of Num q \<Rightarrow> Num q | _ \<Rightarrow> Null)])"

definition sparkplug_data :: "(nat \<Rightarrow> int) \<Rightarrow> int \<Rightarrow> string list \<Rightarrow> jsval" where
  "sparkplug_data now seq parts =
     (let ms = zip METRICS parts; metrics = map (\<lambda>i. sparkplug_metric now i (ms ! i)) [0..<length ms]
      in Obj [(''timestamp'', NumI (now (length metrics))), (''metrics'', Arr metrics), (''seq'', NumI (bit_and seq 0xff))])"

definition sparkplug_mqtt :: "(jsval \<Rightarrow> string) \<Rightarrow> int \<Rightarrow> jsval \<times> (nat \<Rightarrow> int) \<Rightarrow> string \<times> int" where
  "sparkplug_mqtt numstr seq frame_now = (case frame_now of (frame, now) \<Rightarrow>
     (json_text numstr (sparkplug_data now seq (frame_parts numstr frame)) @ newline, seq + 1))"

section \<open>Lemmas\<close>

lemma fold_assoc_put_new:
  "distinct (map fst (acc @ kvs)) \<Longrightarrow> fold (\<lambda>(k, v) acc. assoc_put k v acc) kvs acc = acc @ kvs"
proof (induction kvs arbitrary: acc)
  case (Cons p kvs)
  obtain k v where p: "p = (k, v)" by (cases p)
  have "assoc_put k v acc = acc @ [(k, v)]" using Cons.prems p by (intro assoc_put_new) auto
  then show ?case using Cons.IH[of "acc @ [(k, v)]"] Cons.prems p by simp
qed simp

definition field_values :: "string list \<Rightarrow> string list \<Rightarrow> (string \<times> jsval) list" where
  "field_values names parts = map (\<lambda>(name, part). (name, finite_or_text part)) (zip names parts)"

lemma fill_fields_eq:
  assumes "distinct names"
  shows "fill_fields names parts = field_values names parts"
proof -
  have "distinct (map fst (field_values names parts))"
    using assms by (simp add: field_values_def split_beta comp_def map_fst_zip_take)
  then have "fold (\<lambda>(k, v) acc. assoc_put k v acc) (field_values names parts) [] = field_values names parts"
    using fold_assoc_put_new[of "[]"] by simp
  then show ?thesis by (simp add: fill_fields_def field_values_def fold_map comp_def case_prod_unfold)
qed

text \<open>The numbers of a frame, as \<open>numstr\<close> prints them, are JSON numbers of the same value.\<close>

definition prints_numbers :: "(jsval \<Rightarrow> string) \<Rightarrow> string list \<Rightarrow> bool" where
  "prints_numbers numstr parts \<longleftrightarrow> list_all (\<lambda>p. case parseFloat p of
     Num q \<Rightarrow> json_number (numstr (Num q)) = Some (q, []) | _ \<Rightarrow> True) parts"

lemma finite_or_text_readable:
  "prints_numbers numstr [p] \<Longrightarrow> json_readable numstr (finite_or_text p)"
  by (auto simp: prints_numbers_def finite_or_text_def split: jsval.splits)

lemma prints_numbers_part: "prints_numbers numstr parts \<Longrightarrow> p \<in> set parts \<Longrightarrow> prints_numbers numstr [p]"
  by (auto simp: prints_numbers_def list_all_iff)

lemma readable_entries:
  "json_readable_entries numstr kvs \<longleftrightarrow> (\<forall>(k, v) \<in> set kvs. json_readable numstr v)"
  by (induction kvs) auto

lemma readable_list: "json_readable_list numstr vs \<longleftrightarrow> (\<forall>v \<in> set vs. json_readable numstr v)"
  by (induction vs) auto

lemma field_values_readable:
  assumes "distinct names" and "prints_numbers numstr parts"
  shows "json_readable numstr (Obj (field_values names parts))"
proof -
  have "distinct (map fst (field_values names parts))"
    using assms(1) by (simp add: field_values_def split_beta comp_def map_fst_zip_take)
  moreover have "json_readable numstr (finite_or_text p)" if "(k, p) \<in> set (zip names parts)" for k p
    using that assms(2) by (intro finite_or_text_readable prints_numbers_part) (auto dest: set_zip_rightD)
  ultimately show ?thesis by (auto simp: readable_entries field_values_def)
qed

lemma newline_blank: "list_all json_space newline" by (simp add: json_space_def)

lemma sparkplug_readable:
  assumes "prints_numbers numstr parts" and "\<forall>n :: int. json_number (numstr (NumI n)) = Some (of_int n, [])"
  shows "json_readable numstr (sparkplug_data now seq parts)"
proof -
  let ?ms = "zip METRICS parts"
  have "json_readable numstr (sparkplug_metric now i (?ms ! i))" if i: "i < length ?ms" for i
  proof -
    have "prints_numbers numstr [snd (?ms ! i)]"
      using i by (intro prints_numbers_part[OF assms(1)]) simp
    then show ?thesis
      using assms(2) by (auto simp: sparkplug_metric_def prints_numbers_def split: jsval.splits prod.splits)
  qed
  then show ?thesis using assms(2) by (auto simp: sparkplug_data_def Let_def readable_list)
qed

text \<open>A frame given by its fields: decimal numbers with their places, and other texts.\<close>

datatype frame_field = Number int nat | Word string

fun field_text :: "frame_field \<Rightarrow> string" where
  "field_text (Number n d) = decimal_text n d"
| "field_text (Word s) = s"

fun field_json :: "frame_field \<Rightarrow> jsval" where
  "field_json (Number n d) = Num (of_int n / 10 ^ d)"
| "field_json (Word s) = Str s"

fun field_ok :: "frame_field \<Rightarrow> bool" where
  "field_ok (Number n d) \<longleftrightarrow> True"
| "field_ok (Word s) \<longleftrightarrow> CHR '','' \<notin> set s \<and> (case parseFloat s of Num q \<Rightarrow> False | _ \<Rightarrow> True)"

definition frame_of :: "frame_field list \<Rightarrow> jsval" where
  "frame_of fs = Str (join_with (CHR '','') (map field_text fs))"

lemma decimal_text_no_comma: "CHR '','' \<notin> set (decimal_text n d)"
proof -
  have "CHR '','' \<notin> set (nat_digits m)" for m
    using nat_digits_digits[of m] by (force simp: is_digit_def)
  then show ?thesis by (simp add: decimal_text_def pad_zeros_def)
qed

lemma frame_of_parts:
  assumes "fs \<noteq> []" and "\<forall>f \<in> set fs. field_ok f"
  shows "frame_parts numstr (frame_of fs) = map field_text fs"
proof -
  have "CHR '','' \<notin> set (field_text f)" if "field_ok f" for f
    using that decimal_text_no_comma by (cases f) simp_all
  then have "split_on (CHR '','') (join_with (CHR '','') (map field_text fs)) = map field_text fs"
    using assms by (intro split_join) auto
  then show ?thesis by (simp add: frame_parts_def frame_of_def)
qed

lemma field_text_value: "field_ok f \<Longrightarrow> finite_or_text (field_text f) = field_json f"
  by (cases f) (auto simp: finite_or_text_def parseFloat_decimal split: jsval.splits)

lemma field_values_fields:
  assumes "\<forall>f \<in> set fs. field_ok f"
  shows "field_values names (map field_text fs) = zip names (map field_json fs)"
  unfolding field_values_def zip_map2
  using assms by (auto simp: field_text_value dest: set_zip_rightD)

lemma prints_fields:
  assumes "\<forall>f \<in> set fs. field_ok f"
    and "\<forall>n d. Number n d \<in> set fs \<longrightarrow> json_number (numstr (Num (of_int n / 10 ^ d))) = Some (of_int n / 10 ^ d, [])"
  shows "prints_numbers numstr (map field_text fs)"
proof -
  have "case parseFloat (field_text f) of Num q \<Rightarrow> json_number (numstr (Num q)) = Some (q, []) | _ \<Rightarrow> True"
    if f: "f \<in> set fs" for f
  proof (cases f)
    case (Number n d)
    then show ?thesis using f assms(2) by (simp add: parseFloat_decimal)
  next
    case (Word s)
    then have "field_ok (Word s)" using f assms(1) by blast
    then show ?thesis by (simp add: Word split: jsval.splits)
  qed
  then show ?thesis by (simp add: prints_numbers_def list_all_iff)
qed

lemma sparkplug_fields:
  assumes "\<forall>f \<in> set fs. field_ok f"
  shows "\<exists>metrics. get_prop (sparkplug_data now seq (map field_text fs)) ''seq'' = NumI (seq mod 256)
    \<and> get_prop (sparkplug_data now seq (map field_text fs)) ''metrics'' = Arr metrics
    \<and> length metrics = min 3 (length fs)
    \<and> get_prop (sparkplug_data now seq (map field_text fs)) ''timestamp'' = NumI (now (length metrics))
    \<and> (\<forall>i < length metrics. get_prop (metrics ! i) ''name'' = Str ([''temperature'', ''humidity'', ''pressure''] ! i)
      \<and> get_prop (metrics ! i) ''dataType'' = Str ''Double'' \<and> get_prop (metrics ! i) ''timestamp'' = NumI (now i)
      \<and> get_prop (metrics ! i) ''value'' = (case fs ! i of Number n d \<Rightarrow> Num (of_int n / 10 ^ d) | Word s \<Rightarrow> Null))"
proof -
  let ?ms = "zip METRICS (map field_text fs)"
  let ?metrics = "map (\<lambda>i. sparkplug_metric now i (?ms ! i)) [0..<length ?ms]"
  have len: "length ?ms = min 3 (length fs)" by (simp add: METRICS_def)
  have val: "(case parseFloat (field_text f) of Num q \<Rightarrow> Num q | _ \<Rightarrow> Null)
      = (case f of Number n d \<Rightarrow> Num (of_int n / 10 ^ d) | Word s \<Rightarrow> Null)" if "field_ok f" for f
    using that by (cases f) (auto simp: parseFloat_decimal split: jsval.splits)
  have "sparkplug_metric now i (?ms ! i) = Obj [(''name'', Str ([''temperature'', ''humidity'', ''pressure''] ! i)),
      (''timestamp'', NumI (now i)), (''dataType'', Str ''Double''),
      (''value'', case fs ! i of Number n d \<Rightarrow> Num (of_int n / 10 ^ d) | Word s \<Rightarrow> Null)]" if "i < length ?ms" for i
    using that assms val[of "fs ! i"] by (simp add: sparkplug_metric_def METRICS_def)
  then have nth: "?metrics ! i = Obj [(''name'', Str ([''temperature'', ''humidity'', ''pressure''] ! i)),
      (''timestamp'', NumI (now i)), (''dataType'', Str ''Double''),
      (''value'', case fs ! i of Number n d \<Rightarrow> Num (of_int n / 10 ^ d) | Word s \<Rightarrow> Null)]" if "i < length ?metrics" for i
    using that by simp
  show ?thesis
  proof (intro exI[of _ ?metrics] conjI allI impI)
    show "length ?metrics = min 3 (length fs)" using len by simp
  qed (simp_all only: nth, simp_all add: sparkplug_data_def Let_def get_prop_def props_def and_255)
qed

text \<open>The line protocol.\<close>

lemma influx_line:
  "influx_mqtt numstr now frame = Null
     \<longleftrightarrow> (\<forall>(name, part) \<in> set (zip influx_FIELDS (frame_parts numstr frame)). \<forall>q. parseFloat part \<noteq> Num q)"
  by (auto simp: influx_mqtt_def influx_fields_def Let_def split: jsval.splits) blast+

section \<open>Properties\<close>

text \<open>C16: A frame of comma-separated fields, each a decimal number or a text that does not begin with one,
comes back from the published JSON field by field: under the configured names, numbers with their value.  AWS
puts them in \<^verbatim>\<open>state.reported\<close>, with texts as they are.  Home Assistant publishes them so too, after its
first message: that one is two JSON texts on two lines, the discovery and the payload, so it is not a JSON text
itself.  Sparkplug publishes one metric for each field, with name, type and clock reading, the value of a
number and \<^verbatim>\<open>null\<close> for a text, and numbers its messages modulo 256.  Fields behind the third are dropped.
Numbers are taken to be printed as JSON numbers of the same value.\<close>

theorem mqtt_payloads_read_back:
  assumes "fs \<noteq> []" and "\<forall>f \<in> set fs. field_ok f"
    and "\<forall>n d. Number n d \<in> set fs \<longrightarrow> json_number (numstr (Num (of_int n / 10 ^ d))) = Some (of_int n / 10 ^ d, [])"
    and "\<forall>n :: int. json_number (numstr (NumI n)) = Some (of_int n, [])"
  shows "json_parse (aws_mqtt numstr (frame_of fs)) = Some (Obj [(''state'', Obj [(''reported'',
        Obj (zip [''temperature'', ''humidity'', ''pressure''] (map field_json fs)))])])
    \<and> json_parse (fst (ha_mqtt numstr True (frame_of fs)))
      = Some (Obj (zip [''temperature'', ''humidity'', ''pressure''] (map field_json fs)))
    \<and> (\<exists>d t. ha_mqtt numstr False (frame_of fs) = (d @ newline @ t, True) \<and> json_parse d = Some ha_discovery
        \<and> json_parse t = Some (Obj (zip [''temperature'', ''humidity'', ''pressure''] (map field_json fs))))
    \<and> (\<exists>msg metrics. json_parse (fst (sparkplug_mqtt numstr seq (frame_of fs, now))) = Some msg
        \<and> get_prop msg ''seq'' = NumI (seq mod 256) \<and> get_prop msg ''metrics'' = Arr metrics
        \<and> length metrics = min 3 (length fs) \<and> get_prop msg ''timestamp'' = NumI (now (length metrics))
        \<and> (\<forall>i < length metrics. get_prop (metrics ! i) ''name'' = Str ([''temperature'', ''humidity'', ''pressure''] ! i)
            \<and> get_prop (metrics ! i) ''dataType'' = Str ''Double'' \<and> get_prop (metrics ! i) ''timestamp'' = NumI (now i)
            \<and> get_prop (metrics ! i) ''value'' = (case fs ! i of Number n d \<Rightarrow> Num (of_int n / 10 ^ d) | Word s \<Rightarrow> Null)))"
proof -
  let ?p = "frame_parts numstr (frame_of fs)"
  have parts: "?p = map field_text fs" by (rule frame_of_parts[OF assms(1,2)])
  have pr: "prints_numbers numstr ?p" unfolding parts by (rule prints_fields[OF assms(2,3)])
  have d: "distinct aws_FIELDS" "distinct (map fst ha_FIELDS)" by (simp_all add: aws_FIELDS_def ha_FIELDS_def)
  have vals: "field_values names ?p = zip names (map field_json fs)" for names
    unfolding parts by (rule field_values_fields[OF assms(2)])
  note r = field_values_readable[OF d(1) pr, unfolded vals] field_values_readable[OF d(2) pr, unfolded vals]
  have aws: "json_parse (aws_mqtt numstr (frame_of fs)) = Some (Obj [(''state'', Obj [(''reported'',
        Obj (zip aws_FIELDS (map field_json fs)))])])"
    unfolding aws_mqtt_def Let_def fill_fields_eq[OF d(1)] vals
    by (rule json_roundtrip[OF _ newline_blank]) (use r(1) in simp)
  let ?t = "json_text numstr (Obj (zip (map fst ha_FIELDS) (map field_json fs)))"
  have ha: "json_parse ?t = Some (Obj (zip (map fst ha_FIELDS) (map field_json fs)))"
    using json_roundtrip[OF r(2), of "[]"] by (simp del: json_text.simps)
  have "json_readable numstr ha_discovery" by (simp add: ha_discovery_def)
  from json_roundtrip[OF this, of "[]"] have disc: "json_parse (json_text numstr ha_discovery) = Some ha_discovery"
    by (simp del: json_text.simps)
  have sp: "json_parse (fst (sparkplug_mqtt numstr seq (frame_of fs, now))) = Some (sparkplug_data now seq ?p)"
    using json_roundtrip[OF sparkplug_readable[OF pr assms(4)] newline_blank] by (simp add: sparkplug_mqtt_def)
  have "ha_mqtt numstr True (frame_of fs) = (?t, True)"
    "ha_mqtt numstr False (frame_of fs) = (json_text numstr ha_discovery @ newline @ ?t, True)"
    by (simp_all add: ha_mqtt_def fill_fields_eq[OF d(2)] vals)
  then show ?thesis
    using aws ha disc sp sparkplug_fields[OF assms(2), of now seq, folded parts]
    by (simp add: aws_FIELDS_def ha_FIELDS_def) blast
qed

text \<open>How a number with one place is printed.\<close>

definition one_place :: "jsval \<Rightarrow> string" where
  "one_place v = (case v of Num q \<Rightarrow> decimal_text \<lfloor>q * 10\<rfloor> 1 | _ \<Rightarrow> [])"

theorem mqtt_payloads_read_back_witness:
  "json_parse (fst (ha_mqtt one_place True (frame_of [Number 215 1, Word ''wet''])))
     = Some (Obj [(''temperature'', Num 21.5), (''humidity'', Str ''wet'')])"
proof -
  have ints: "json_number (one_place (NumI n)) = Some (of_int n, [])" for n
  proof -
    have "\<lfloor>(of_int n :: rat) * 10\<rfloor> = n * 10" by (metis floor_of_int of_int_mult of_int_numeral)
    then show ?thesis using json_number_decimal[of "n * 10" 1] by (simp add: one_place_def)
  qed
  let ?fs = "[Number 215 1, Word ''wet'']"
  have words: "parseFloat ''wet'' = NaN"
    by (simp add: parseFloat_def sign_of_def starts_def is_digit_def digit_value_def exponent_of_def js_space_def)
  then have ok: "\<forall>f \<in> set ?fs. field_ok f" by simp
  have nums: "\<forall>n d. Number n d \<in> set ?fs \<longrightarrow> json_number (one_place (Num (of_int n / 10 ^ d))) = Some (of_int n / 10 ^ d, [])"
    using json_number_decimal[of 215 1] by (simp add: one_place_def)
  from conjunct1[OF conjunct2[OF mqtt_payloads_read_back[OF _ ok nums allI[OF ints]]]] show ?thesis by simp
qed

text \<open>The Home Assistant script announces the device in front of its first payload and never again,
and the messages of the Sparkplug script are numbered 0 to 255 over and over.\<close>

theorem mqtt_messages_numbered:
  "outputs (ha_mqtt numstr) False (frame # frames)
     = (json_text numstr ha_discovery @ newline @ fst (ha_mqtt numstr True frame)) # map (\<lambda>f. fst (ha_mqtt numstr True f)) frames
   \<and> outputs (sparkplug_mqtt numstr) 0 ticks
     = map (\<lambda>k. json_text numstr (sparkplug_data (snd (ticks ! k)) (int k) (frame_parts numstr (fst (ticks ! k)))) @ newline)
         [0..<length ticks]
   \<and> get_prop (sparkplug_data now (int k) parts) ''seq'' = NumI (int k mod 256)"
proof (intro conjI)
  have sent: "outputs (ha_mqtt numstr) True fs = map (\<lambda>f. fst (ha_mqtt numstr True f)) fs" for fs
    by (induction fs) (simp_all add: ha_mqtt_def Let_def)
  show "outputs (ha_mqtt numstr) False (frame # frames)
     = (json_text numstr ha_discovery @ newline @ fst (ha_mqtt numstr True frame)) # map (\<lambda>f. fst (ha_mqtt numstr True f)) frames"
    by (simp add: ha_mqtt_def[of numstr False] Let_def sent) (simp add: ha_mqtt_def Let_def)
  have "outputs (sparkplug_mqtt numstr) (int n) ts
     = map (\<lambda>k. json_text numstr (sparkplug_data (snd (ts ! k)) (int (n + k)) (frame_parts numstr (fst (ts ! k)))) @ newline)
         [0..<length ts]" for n ts
  proof (induction ts arbitrary: n)
    case (Cons t ts)
    show ?case
      using Cons.IH[of "Suc n"]
      by (cases t) (simp add: sparkplug_mqtt_def upt_conv_Cons map_Suc_upt[symmetric] ac_simps del: upt_Suc)
  qed simp
  from this[of 0 ticks] show "outputs (sparkplug_mqtt numstr) 0 ticks
     = map (\<lambda>k. json_text numstr (sparkplug_data (snd (ticks ! k)) (int k) (frame_parts numstr (fst (ticks ! k)))) @ newline)
         [0..<length ticks]" by simp
  show "get_prop (sparkplug_data now (int k) parts) ''seq'' = NumI (int k mod 256)"
    by (simp add: sparkplug_data_def Let_def get_prop_def props_def and_255)
qed

end
