(* ===== verification/Value_Format.thy ===== *)
theory Value_Format
  imports Js_Numbers
begin

text \<open>
  The value formatting of the instrument widgets (\<^verbatim>\<open>app/qml/Widgets/Dashboard/ValueFormat.js\<close>).

  The two formatters of the C++ dashboard are parameters: \<open>formatNumber id v\<close> and
  \<open>formatRange v lo hi\<close> (there \<^verbatim>\<open>formatNumber\<close> and \<^verbatim>\<open>formatValue\<close>); the em dash for a value that is no
  finite number is written with the code \<open>0x97\<close>, as strings hold code units below 256.

  \<^item> \<open>reference_widths_cached\<close>: the memo of the reference widths never changes a result and never
    holds more than 64 entries.
  \<^item> \<open>padded_width_stable\<close>: the digital boxes keep their width.
  \<^item> \<open>tick_labels_exact\<close>: a tick label without its trailing zeros stands for the same number.
\<close>

record width_cache =
  widths :: "(string \<times> nat) list"
  referenceCount :: nat

record value_model =
  uniqueId :: int
  displayText :: string
  decimalPoints :: int
  minValue :: jsval
  maxValue :: jsval
  units :: string

type_synonym number_format = "int \<Rightarrow> jsval \<Rightarrow> string"
type_synonym range_format = "jsval \<Rightarrow> jsval \<Rightarrow> jsval \<Rightarrow> string"

definition is_finite :: "jsval \<Rightarrow> bool" where
  "is_finite v = (case v of Num _ \<Rightarrow> True | _ \<Rightarrow> False)"

definition formatValue :: "number_format \<Rightarrow> value_model \<Rightarrow> jsval \<Rightarrow> string" where
  "formatValue formatNumber model val = (if \<not> is_finite val then [CHR 0x97] else formatNumber (uniqueId model) val)"

text \<open>\<^verbatim>\<open>text.replace(/\.?0+$/, "")\<close>\<close>

definition strip_zeros :: "string \<Rightarrow> string" where
  "strip_zeros s =
     (let body = rev (dropWhile (\<lambda>c. c = CHR ''0'') (rev s)) in
      if body = s then s
      else if body \<noteq> [] \<and> last body = CHR ''.'' then butlast body else body)"

definition formatTickValue :: "number_format \<Rightarrow> value_model \<Rightarrow> jsval \<Rightarrow> string" where
  "formatTickValue formatNumber model val =
     (let s = formatValue formatNumber model val in
      if CHR ''.'' \<notin> set s \<or> CHR ''e'' \<in> set s \<or> CHR ''E'' \<in> set s then s else strip_zeros s)"

definition range_key :: "(jsval \<Rightarrow> string) \<Rightarrow> jsval \<times> jsval \<Rightarrow> string" where
  "range_key numstr r = (case r of (lo, hi) \<Rightarrow> js_string numstr lo @ ''/'' @ js_string numstr hi)"

definition cacheLimit :: nat where "cacheLimit = 64"

definition referenceWidth :: "(jsval \<Rightarrow> string) \<Rightarrow> range_format \<Rightarrow> width_cache \<Rightarrow> jsval \<times> jsval \<Rightarrow> nat \<times> width_cache" where
  "referenceWidth numstr formatRange cache r =
     (let key = range_key numstr r in
      case map_of (widths cache) key of
        Some width \<Rightarrow> (width, cache)
      | None \<Rightarrow>
          (let cache = (if referenceCount cache \<ge> cacheLimit then cache\<lparr>widths := [], referenceCount := 0\<rparr> else cache);
               (lo, hi) = r;
               a = formatRange lo lo hi;
               b = formatRange hi lo hi;
               width = max (length a) (length b)
           in (width, cache\<lparr>widths := assoc_put key width (widths cache), referenceCount := referenceCount cache + 1\<rparr>)))"

definition getPaddedFormattedText :: "number_format \<Rightarrow> value_model \<Rightarrow> jsval \<Rightarrow> string" where
  "getPaddedFormattedText formatNumber model val =
     (if length (displayText model) > 0 then displayText model
      else (let a = formatValue formatNumber model (minValue model);
                b = formatValue formatNumber model (maxValue model);
                v = formatValue formatNumber model val;
                refLen = max (length a) (max (length b) (length v));
                pad = replicate (refLen - length v) (CHR '' '');
                us = (if length (units model) > 0 then '' '' @ units model else [])
            in pad @ v @ us))"

definition getPaddedText ::
  "(jsval \<Rightarrow> string) \<Rightarrow> number_format \<Rightarrow> range_format \<Rightarrow> value_model \<Rightarrow> width_cache \<Rightarrow> jsval \<Rightarrow> string \<times> width_cache" where
  "getPaddedText numstr formatNumber formatRange model cache val =
     (if length (displayText model) > 0 then (displayText model, cache)
      else if decimalPoints model \<ge> 0 then (getPaddedFormattedText formatNumber model val, cache)
      else (let v = formatRange val (minValue model) (maxValue model);
                (w, cache) = referenceWidth numstr formatRange cache (minValue model, maxValue model);
                refLen = max w (length v);
                pad = replicate (refLen - length v) (CHR '' '');
                us = (if length (units model) > 0 then '' '' @ units model else [])
            in (pad @ v @ us, cache)))"

section \<open>The memo of reference widths\<close>

definition empty_cache :: width_cache where
  "empty_cache = \<lparr>widths = [], referenceCount = 0\<rparr>"

definition range_width :: "range_format \<Rightarrow> jsval \<times> jsval \<Rightarrow> nat" where
  "range_width formatRange r = (case r of (lo, hi) \<Rightarrow> max (length (formatRange lo lo hi)) (length (formatRange hi lo hi)))"

text \<open>Every entry is the width of the range its key names, and the count is the number of entries.\<close>

definition cache_ok :: "(jsval \<Rightarrow> string) \<Rightarrow> range_format \<Rightarrow> (jsval \<times> jsval) set \<Rightarrow> width_cache \<Rightarrow> bool" where
  "cache_ok numstr formatRange ranges cache \<longleftrightarrow>
     (\<forall>r \<in> ranges. \<forall>w. map_of (widths cache) (range_key numstr r) = Some w \<longrightarrow> w = range_width formatRange r)
     \<and> length (widths cache) = referenceCount cache \<and> referenceCount cache \<le> cacheLimit"

lemma assoc_put_length: "k \<notin> fst ` set kvs \<Longrightarrow> length (assoc_put k v kvs) = Suc (length kvs)"
  by (induction kvs) auto

lemma referenceWidth_step:
  assumes "cache_ok numstr formatRange ranges cache" and "inj_on (range_key numstr) ranges" and "r \<in> ranges"
  shows "fst (referenceWidth numstr formatRange cache r) = range_width formatRange r
    \<and> cache_ok numstr formatRange ranges (snd (referenceWidth numstr formatRange cache r))"
proof (cases "map_of (widths cache) (range_key numstr r)")
  case (Some w)
  then show ?thesis using assms by (simp add: referenceWidth_def Let_def cache_ok_def)
next
  case None
  define c where "c = (if referenceCount cache \<ge> cacheLimit then cache\<lparr>widths := [], referenceCount := 0\<rparr> else cache)"
  have c: "cache_ok numstr formatRange ranges c" "referenceCount c < cacheLimit" "range_key numstr r \<notin> fst ` set (widths c)"
    using assms(1) None by (auto simp: c_def cache_ok_def cacheLimit_def map_of_eq_None_iff)
  have e: "referenceWidth numstr formatRange cache r = (range_width formatRange r,
      c\<lparr>widths := assoc_put (range_key numstr r) (range_width formatRange r) (widths c), referenceCount := referenceCount c + 1\<rparr>)"
    using None by (simp add: referenceWidth_def Let_def c_def range_width_def split: prod.splits)
  show ?thesis
    using c inj_onD[OF assms(2) _ _ assms(3)] unfolding e
    by (auto simp: cache_ok_def assoc_put_length split: if_splits)
qed

lemma range_key_inj:
  assumes "inj_on (js_string numstr) V" and "\<forall>v \<in> V. CHR ''/'' \<notin> set (js_string numstr v)"
  shows "inj_on (range_key numstr) (V \<times> V)"
proof (rule inj_onI)
  fix r s assume rs: "r \<in> V \<times> V" "s \<in> V \<times> V" "range_key numstr r = range_key numstr s"
  obtain a b c d where r: "r = (a, b)" and s: "s = (c, d)" by (metis surj_pair)
  have "split_on (CHR ''/'') (x @ CHR ''/'' # y) = [x, y]" if "CHR ''/'' \<notin> set x" "CHR ''/'' \<notin> set y" for x y
    using that by (simp add: split_on_append)
  then have "[js_string numstr a, js_string numstr b] = [js_string numstr c, js_string numstr d]"
    using assms(2) rs unfolding r s by (metis SigmaE2 append_Cons append_Nil case_prod_conv range_key_def)
  then show "r = s" using inj_onD[OF assms(1)] rs(1,2) unfolding r s by auto
qed

lemma referenceWidth_outputs:
  assumes "inj_on (range_key numstr) ranges" and "set calls \<subseteq> ranges" and "cache_ok numstr formatRange ranges cache"
  shows "outputs (referenceWidth numstr formatRange) cache calls = map (range_width formatRange) calls
    \<and> cache_ok numstr formatRange ranges (fold (\<lambda>r c. snd (referenceWidth numstr formatRange c r)) calls cache)"
  using assms(2,3)
proof (induction calls arbitrary: cache)
  case (Cons r calls)
  then show ?case
    using referenceWidth_step[OF Cons.prems(2) assms(1), of r] by (simp add: split_beta)
qed simp

section \<open>Trailing zeros\<close>

lemma dec_run_trailing: "dec_run a (s @ replicate j (CHR ''0'')) = dec_run a s * 10 ^ j"
proof (induction j)
  case (Suc j)
  have "dec_run a (s @ replicate (Suc j) (CHR ''0'')) = dec_run (dec_run a (s @ replicate j (CHR ''0''))) ''0''"
    by (simp only: replicate_append_same[symmetric] replicate_Suc append_assoc[symmetric] dec_run_append)
  then show ?case using Suc by (simp add: digit_value_def)
qed simp

text \<open>The fraction without its trailing zeros.\<close>

lemma trailing_zeros: "\<exists>f j. fp = f @ replicate j (CHR ''0'') \<and> (f = [] \<or> last f \<noteq> CHR ''0'')"
proof (induction fp rule: rev_induct)
  case (snoc c fp)
  show ?case
  proof (cases "c = CHR ''0''")
    case True
    from snoc obtain f j where "fp = f @ replicate j (CHR ''0'')" "f = [] \<or> last f \<noteq> CHR ''0''" by blast
    then have "fp @ [c] = f @ replicate (Suc j) (CHR ''0'')" using True by (simp add: replicate_append_same)
    then show ?thesis using \<open>f = [] \<or> last f \<noteq> CHR ''0''\<close> by blast
  next
    case False
    then have "fp @ [c] = (fp @ [c]) @ replicate 0 (CHR ''0'') \<and> last (fp @ [c]) \<noteq> CHR ''0''" by simp
    then show ?thesis by blast
  qed
qed simp

lemma strip_zeros_eq:
  assumes "s \<noteq> []" and "last s \<noteq> CHR ''0''"
  shows "strip_zeros (s @ replicate j (CHR ''0''))
    = (if j = 0 then s else if last s = CHR ''.'' then butlast s else s)"
proof -
  have "dropWhile (\<lambda>c. c = CHR ''0'') (replicate j (CHR ''0'') @ rev s) = dropWhile (\<lambda>c. c = CHR ''0'') (rev s)"
    by (intro dropWhile_append2) simp
  also have "\<dots> = rev s" using assms by (simp add: dropWhile_eq_self_iff hd_rev)
  finally show ?thesis using assms(1) by (simp add: strip_zeros_def Let_def)
qed

lemma strip_zeros_decimal:
  assumes "0 < k"
  shows "parseFloat (strip_zeros (decimal_text n k)) = Num (of_int n / 10 ^ k)
    \<and> (CHR ''.'' \<in> set (strip_zeros (decimal_text n k)) \<longrightarrow> last (strip_zeros (decimal_text n k)) \<noteq> CHR ''0'')"
proof -
  let ?N = "nat \<bar>n\<bar>"
  let ?ip = "nat_digits (?N div 10 ^ k)" and ?s = "if n < 0 then ''-'' else []"
  define fp where "fp = pad_zeros k (nat_digits (?N mod 10 ^ k))"
  have v: "dec_run 0 (?ip @ fp) = ?N" and len: "length fp = k" and fp: "\<forall>c \<in> set fp. is_digit c"
    using fixed_digits[where N = ?N and k = k] assms by (simp_all add: fp_def)
  obtain f j where f: "fp = f @ replicate j (CHR ''0'')" "f = [] \<or> last f \<noteq> CHR ''0''"
    using trailing_zeros by blast
  have fd: "\<forall>c \<in> set f. is_digit c" using fp f(1) by auto
  have printed: "decimal_text n k = (?s @ ?ip @ CHR ''.'' # f) @ replicate j (CHR ''0'')"
    using assms f(1) by (simp add: decimal_text_def fp_def)
  have last: "last (?s @ ?ip @ CHR ''.'' # f) \<noteq> CHR ''0''" using f(2) by auto
  let ?b = "?s @ ?ip @ CHR ''.'' # f"
  have main: "strip_zeros (decimal_text n k) = (if j = 0 then ?b else if last ?b = CHR ''.'' then butlast ?b else ?b)"
    unfolding printed by (rule strip_zeros_eq[OF _ last]) simp
  have stripped: "strip_zeros (decimal_text n k) = ?s @ ?ip @ (if f = [] then [] else CHR ''.'' # f)"
  proof (cases "f = []")
    case True
    then have "j \<noteq> 0" using f(1) len assms by auto
    then show ?thesis unfolding main using True by (simp add: butlast_append)
  next
    case False
    then have "last f \<noteq> CHR ''.''" using fd digit_not[of "last f"] by auto
    then show ?thesis unfolding main using False by simp
  qed
  have "dec_run 0 (?ip @ f) * 10 ^ j = ?N" using v dec_run_trailing[of 0 "?ip @ f" j] f(1) by simp
  moreover have "k = length f + j" using len f(1) by simp
  ultimately have "(of_nat (dec_run 0 (?ip @ f)) / 10 ^ length f :: rat) = of_nat ?N / 10 ^ k"
    by (metis (no_types, lifting) div_by_1 mult_divide_mult_cancel_right of_nat_mult of_nat_numeral of_nat_power power_add power_not_zero zero_neq_numeral)
  then have "parseFloat (strip_zeros (decimal_text n k)) = Num ((if n < 0 then -1 else 1) * (of_nat ?N / 10 ^ k))"
    using parseFloat_parts[OF nat_digits_digits nat_digits_nonempty fd, of "n < 0" "?N div 10 ^ k"]
    unfolding stripped by simp
  moreover have "\<not> is_digit (CHR ''.'')" by (simp add: is_digit_def)
  then have "CHR ''.'' \<notin> set (?s @ ?ip)" using nat_digits_digits by auto
  ultimately show ?thesis using f(2) unfolding stripped by auto
qed

section \<open>Properties\<close>

text \<open>C17: The memo of the reference widths never changes a result: over any sequence of ranges every call
returns the length of the longer formatted end, whatever was looked up before, and the memo never holds
more than 64 entries.\<close>

theorem reference_widths_cached:
  assumes "inj_on (js_string numstr) V" and "\<forall>v \<in> V. CHR ''/'' \<notin> set (js_string numstr v)"
    and "\<forall>(lo, hi) \<in> set calls. lo \<in> V \<and> hi \<in> V"
  shows "outputs (referenceWidth numstr formatRange) empty_cache calls = map (range_width formatRange) calls
    \<and> length (widths (fold (\<lambda>r c. snd (referenceWidth numstr formatRange c r)) calls empty_cache)) \<le> 64"
proof -
  have "set calls \<subseteq> V \<times> V" using assms(3) by auto
  moreover have "cache_ok numstr formatRange (V \<times> V) empty_cache" by (simp add: cache_ok_def empty_cache_def)
  ultimately show ?thesis
    using referenceWidth_outputs[OF range_key_inj[OF assms(1,2)]] by (simp add: cache_ok_def cacheLimit_def)
qed

theorem reference_widths_cached_witness:
  "outputs (referenceWidth (\<lambda>v. if v = Num 0 then ''0'' else ''100'') (\<lambda>v _ _. if v = Num 0 then ''0.0'' else ''100.0''))
     empty_cache [(Num 0, Num 100), (Num 0, Num 100)] = [5, 5]"
proof -
  let ?p = "\<lambda>v. if v = Num 0 then ''0'' else ''100''"
  have "inj_on (js_string ?p) {Num 0, Num 100}" "\<forall>v \<in> {Num 0, Num 100}. CHR ''/'' \<notin> set (js_string ?p v)"
    "\<forall>(lo, hi) \<in> set [(Num 0, Num 100), (Num 0, Num 100)]. lo \<in> {Num 0, Num 100} \<and> hi \<in> {Num 0, Num 100 :: jsval}"
    by (simp_all add: inj_on_def)
  from conjunct1[OF reference_widths_cached[OF this, of "\<lambda>v _ _. if v = Num 0 then ''0.0'' else ''100.0''"]]
  show ?thesis by (simp add: range_width_def)
qed

text \<open>A tick label without its trailing zeros stands for the same number, and ends in no zero behind
the point.\<close>

theorem tick_labels_exact:
  assumes "is_finite val" and "formatNumber (uniqueId model) val = decimal_text n k"
  shows "parseFloat (formatTickValue formatNumber model val) = Num (of_int n / 10 ^ k)
    \<and> (CHR ''.'' \<in> set (formatTickValue formatNumber model val)
        \<longrightarrow> last (formatTickValue formatNumber model val) \<noteq> CHR ''0'')"
proof -
  have no: "c \<notin> set (decimal_text n k)" if "\<not> is_digit c" "c \<noteq> CHR ''-''" "c \<noteq> CHR ''.''" for c
    using decimal_text_chars[of c n k] that by blast
  have e: "CHR ''e'' \<notin> set (decimal_text n k)" "CHR ''E'' \<notin> set (decimal_text n k)"
    by (rule no; simp add: is_digit_def)+
  show ?thesis
  proof (cases "k = 0")
    case True
    have "CHR ''.'' \<notin> set (nat_digits m)" for m
      using nat_digits_digits[of m] digit_not[of "CHR ''.''"] by blast
    then have "CHR ''.'' \<notin> set (decimal_text n k)" using True by (simp add: decimal_text_def)
    then show ?thesis
      using assms parseFloat_decimal[of n k] by (simp add: formatTickValue_def formatValue_def)
  next
    case False
    then have "CHR ''.'' \<in> set (decimal_text n k)" by (simp add: decimal_text_def)
    then show ?thesis
      using assms e strip_zeros_decimal[of k n] False by (simp add: formatTickValue_def formatValue_def)
  qed
qed

theorem tick_labels_exact_witness:
  "parseFloat (formatTickValue (\<lambda>_ _. decimal_text 350 2)
     \<lparr>uniqueId = 1, displayText = [], decimalPoints = 2, minValue = Num 0, maxValue = Num 9, units = ''V''\<rparr> (Num 3.5)) = Num 3.5"
  using tick_labels_exact[of "Num 3.5" "\<lambda>_ _. decimal_text 350 2"
      "\<lparr>uniqueId = 1, displayText = [], decimalPoints = 2, minValue = Num 0, maxValue = Num 9, units = ''V''\<rparr>" 350 2]
  by (simp add: is_finite_def)

text \<open>The text of a digital box is the formatted value behind blanks and before its unit, at least as
wide as either end of the range: values that are no longer than the ends give texts of one width.\<close>

theorem padded_width_stable:
  assumes "displayText model = []" and "decimalPoints model \<ge> 0"
  shows "\<exists>pad. fst (getPaddedText numstr formatNumber formatRange model cache val)
      = replicate pad (CHR '' '') @ formatValue formatNumber model val @ (if units model = [] then [] else '' '' @ units model)
    \<and> pad + length (formatValue formatNumber model val)
      = max (max (length (formatValue formatNumber model (minValue model))) (length (formatValue formatNumber model (maxValue model))))
          (length (formatValue formatNumber model val))"
  using assms by (auto simp: getPaddedText_def getPaddedFormattedText_def Let_def)

theorem padded_width_stable_witness:
  "fst (getPaddedText (\<lambda>_. []) (\<lambda>_ v. if v = Num 1 then ''1.0'' else ''100.0'') (\<lambda>_ _ _. [])
     \<lparr>uniqueId = 1, displayText = [], decimalPoints = 1, minValue = Num 0, maxValue = Num 100, units = ''V''\<rparr> empty_cache (Num 1))
    = ''  1.0 V''"
  using padded_width_stable[of "\<lparr>uniqueId = 1, displayText = [], decimalPoints = 1, minValue = Num 0, maxValue = Num 100, units = ''V''\<rparr>"
      "\<lambda>_. []" "\<lambda>_ v. if v = Num 1 then ''1.0'' else ''100.0''" "\<lambda>_ _ _. []" empty_cache "Num 1"]
  by (auto simp: formatValue_def is_finite_def)

end
