(* ===== verification/Painter_Canvas.thy ===== *)
theory Painter_Canvas
  imports Js_Numbers
begin

text \<open>
  The drawing surface of the painter scripts (\<^verbatim>\<open>core/Ui/UI/Widgets/PainterContext.cpp\<close>) and the globals
  the scripts read: datasets, theme and frame.  A script is a function from its data to the list of
  calls it makes on \<^verbatim>\<open>ctx\<close>; \<open>exec_ops\<close> runs that list on a pen that outlives the frame and collects
  the marks left on the image, each with the attributes in force when it was made.

  \<^item> \<open>inits A ops\<close>: the calls read no attribute that is neither in \<open>A\<close> nor set before; \<open>exec_inits\<close>
    is its soundness, as for the definite initialisation of variables.
  \<^item> \<open>painter_script\<close>: the contract of a script whose frames do not depend on the frames before
    them.  Its lemmas are proved once; every script's theory interprets it.
  \<^item> \<open>arcs_ok\<close>: the discipline the scripts state for partial arcs, a move to the start before each.

  Coordinates are a linearly ordered field: rationals for the scripts that only add, multiply and
  divide, reals for those that use \<^verbatim>\<open>Math.cos\<close>, \<^verbatim>\<open>Math.sin\<close> and \<^verbatim>\<open>Math.hypot\<close>.  Angles are multiples of
  \<^verbatim>\<open>Math.PI\<close>.  The widget is at least one pixel wide and high (\<^verbatim>\<open>renderFrame\<close>).
\<close>

section \<open>The globals of a script\<close>

text \<open>One entry of \<^verbatim>\<open>datasets\<close>: the bridge reads a number or NaN for the value and the alarm limits,
and finite bounds.\<close>

record dataset =
  ds_value :: jsval
  ds_min :: rat
  ds_max :: rat
  ds_title :: string
  ds_units :: string
  ds_alarmLow :: jsval
  ds_alarmHigh :: jsval

text \<open>The palette: the named colours, and the series colours, of which every theme has twenty.\<close>

record theme =
  named :: "string \<Rightarrow> string"
  widget_colors :: "string list"

definition series_color :: "theme \<Rightarrow> nat \<Rightarrow> string" where
  "series_color th i = widget_colors th ! (i mod length (widget_colors th))"

fun finite_value :: "jsval \<Rightarrow> rat option" where
  "finite_value (Num q) = Some q"
| "finite_value _ = None"

definition clamp01 :: "'c::linordered_field \<Rightarrow> 'c" where
  "clamp01 x = max 0 (min 1 x)"

text \<open>\<^verbatim>\<open>(ds.max - ds.min) || 1\<close>\<close>

definition span_of :: "dataset \<Rightarrow> rat" where
  "span_of ds = (if ds_max ds - ds_min ds = 0 then 1 else ds_max ds - ds_min ds)"

definition value_text :: "(jsval \<Rightarrow> string) \<Rightarrow> nat \<Rightarrow> dataset \<Rightarrow> string" where
  "value_text numstr k ds = (case finite_value (ds_value ds) of
       Some q \<Rightarrow> to_fixed numstr k (Num q) | None \<Rightarrow> ''--'')"

definition or_text :: "string \<Rightarrow> string \<Rightarrow> string" where
  "or_text s d = (if s = [] then d else s)"

section \<open>Calls on the context\<close>

datatype 'c op = FillStyle string | StrokeStyle string | LineWidth 'c | LineCap string
  | Font string | TextAlign string | TextBaseline string | GlobalAlpha 'c
  | FillRect 'c 'c 'c 'c | StrokeRect 'c 'c 'c 'c | FillText string 'c 'c
  | BeginPath | ClosePath | MoveTo 'c 'c | LineTo 'c 'c | Arc 'c 'c 'c 'c 'c
  | Stroke | Fill | Clip | Translate 'c 'c | Rotate 'c
  | Saved "'c op list"  \<comment> \<open>\<^verbatim>\<open>ctx.save(); ...; ctx.restore();\<close>\<close>

record 'c pen =
  fill_style :: string
  stroke_style :: string
  line_width :: 'c
  line_cap :: string
  font_spec :: string
  text_align :: string
  text_baseline :: string
  global_alpha :: 'c

datatype 'c view_op = Moved 'c 'c | Turned 'c | Clipped "'c op list"

datatype 'c mark =
    RectFilled "'c view_op list" 'c string 'c 'c 'c 'c
  | RectStroked "'c view_op list" 'c string 'c string 'c 'c 'c 'c
  | TextFilled "'c view_op list" 'c string string string string string 'c 'c
  | PathFilled "'c view_op list" 'c string "'c op list"
  | PathStroked "'c view_op list" 'c string 'c string "'c op list"

record 'c canvas =
  pen :: "'c pen"
  cur_path :: "'c op list"
  view :: "'c view_op list"
  marks :: "'c mark list"

definition leave_mark :: "'c mark \<Rightarrow> 'c canvas \<Rightarrow> 'c canvas" where
  "leave_mark m c = c\<lparr>marks := marks c @ [m]\<rparr>"

fun exec_op :: "('c::linordered_field) op \<Rightarrow> 'c canvas \<Rightarrow> 'c canvas"
and exec_ops :: "('c::linordered_field) op list \<Rightarrow> 'c canvas \<Rightarrow> 'c canvas" where
  "exec_op (FillStyle s) c = c\<lparr>pen := (pen c)\<lparr>fill_style := s\<rparr>\<rparr>"
| "exec_op (StrokeStyle s) c = c\<lparr>pen := (pen c)\<lparr>stroke_style := s\<rparr>\<rparr>"
| "exec_op (LineWidth x) c = (if x \<le> 0 then c else c\<lparr>pen := (pen c)\<lparr>line_width := x\<rparr>\<rparr>)"
| "exec_op (LineCap s) c = c\<lparr>pen := (pen c)\<lparr>line_cap := s\<rparr>\<rparr>"
| "exec_op (Font s) c = c\<lparr>pen := (pen c)\<lparr>font_spec := s\<rparr>\<rparr>"
| "exec_op (TextAlign s) c = c\<lparr>pen := (pen c)\<lparr>text_align := s\<rparr>\<rparr>"
| "exec_op (TextBaseline s) c = c\<lparr>pen := (pen c)\<lparr>text_baseline := s\<rparr>\<rparr>"
| "exec_op (GlobalAlpha a) c = c\<lparr>pen := (pen c)\<lparr>global_alpha := clamp01 a\<rparr>\<rparr>"
| "exec_op (FillRect x y w h) c =
     leave_mark (RectFilled (view c) (global_alpha (pen c)) (fill_style (pen c)) x y w h) c"
| "exec_op (StrokeRect x y w h) c =
     leave_mark (RectStroked (view c) (global_alpha (pen c)) (stroke_style (pen c)) (line_width (pen c))
       (line_cap (pen c)) x y w h) c"
| "exec_op (FillText s x y) c =
     (if s = [] then c
      else leave_mark (TextFilled (view c) (global_alpha (pen c)) (fill_style (pen c)) (font_spec (pen c))
        (text_align (pen c)) (text_baseline (pen c)) s x y) c)"
| "exec_op BeginPath c = c\<lparr>cur_path := []\<rparr>"
| "exec_op ClosePath c = c\<lparr>cur_path := cur_path c @ [ClosePath]\<rparr>"
| "exec_op (MoveTo x y) c = c\<lparr>cur_path := cur_path c @ [MoveTo x y]\<rparr>"
| "exec_op (LineTo x y) c = c\<lparr>cur_path := cur_path c @ [LineTo x y]\<rparr>"
| "exec_op (Arc x y r a b) c = c\<lparr>cur_path := cur_path c @ [Arc x y r a b]\<rparr>"
| "exec_op Stroke c =
     leave_mark (PathStroked (view c) (global_alpha (pen c)) (stroke_style (pen c)) (line_width (pen c))
       (line_cap (pen c)) (cur_path c)) c"
| "exec_op Fill c = leave_mark (PathFilled (view c) (global_alpha (pen c)) (fill_style (pen c)) (cur_path c)) c"
| "exec_op Clip c = c\<lparr>view := view c @ [Clipped (cur_path c)]\<rparr>"
| "exec_op (Translate x y) c = c\<lparr>view := view c @ [Moved x y]\<rparr>"
| "exec_op (Rotate a) c = c\<lparr>view := view c @ [Turned a]\<rparr>"
| "exec_op (Saved b) c = (exec_ops b c)\<lparr>pen := pen c, view := view c\<rparr>"
| "exec_ops [] c = c"
| "exec_ops (x # xs) c = exec_ops xs (exec_op x c)"

text \<open>The pen of a new context; the cap is the one a \<^verbatim>\<open>QPen\<close> starts with.\<close>

definition context_pen :: "string \<Rightarrow> ('c::linordered_field) pen" where
  "context_pen family = \<lparr>fill_style = ''#000000'', stroke_style = ''#000000'', line_width = 1, line_cap = ''square'',
     font_spec = ''10px '' @ family, text_align = ''start'', text_baseline = ''alphabetic'', global_alpha = 1\<rparr>"

text \<open>\<^verbatim>\<open>beginFrame\<close>: a new path and a new image; the pen is the one the last frame left.\<close>

definition begin_frame :: "'c pen \<Rightarrow> 'c canvas" where
  "begin_frame p = \<lparr>pen = p, cur_path = [], view = [], marks = []\<rparr>"

definition render :: "('c::linordered_field) pen \<Rightarrow> 'c op list \<Rightarrow> 'c mark list \<times> 'c pen" where
  "render p ops = (let c = exec_ops ops (begin_frame p) in (marks c, pen c))"

lemma exec_ops_append [simp]: "exec_ops (a @ b) c = exec_ops b (exec_ops a c)"
  by (induction a arbitrary: c) simp_all

section \<open>Attributes set before they are read\<close>

datatype attr = AFill | AStroke | AWidth | ACap | AFont | AAlign | ABaseline | AAlpha

fun same_attr :: "'c pen \<Rightarrow> 'c pen \<Rightarrow> attr \<Rightarrow> bool" where
  "same_attr p q AFill = (fill_style p = fill_style q)"
| "same_attr p q AStroke = (stroke_style p = stroke_style q)"
| "same_attr p q AWidth = (line_width p = line_width q)"
| "same_attr p q ACap = (line_cap p = line_cap q)"
| "same_attr p q AFont = (font_spec p = font_spec q)"
| "same_attr p q AAlign = (text_align p = text_align q)"
| "same_attr p q ABaseline = (text_baseline p = text_baseline q)"
| "same_attr p q AAlpha = (global_alpha p = global_alpha q)"

fun op_gives :: "('c::linordered_field) op \<Rightarrow> attr set" where
  "op_gives (FillStyle _) = {AFill}"
| "op_gives (StrokeStyle _) = {AStroke}"
| "op_gives (LineWidth x) = (if x \<le> 0 then {} else {AWidth})"
| "op_gives (LineCap _) = {ACap}"
| "op_gives (Font _) = {AFont}"
| "op_gives (TextAlign _) = {AAlign}"
| "op_gives (TextBaseline _) = {ABaseline}"
| "op_gives (GlobalAlpha _) = {AAlpha}"
| "op_gives _ = {}"

definition gives :: "('c::linordered_field) op list \<Rightarrow> attr set" where
  "gives ops = (\<Union>x \<in> set ops. op_gives x)"

fun inits_op :: "attr set \<Rightarrow> ('c::linordered_field) op \<Rightarrow> bool"
and inits :: "attr set \<Rightarrow> ('c::linordered_field) op list \<Rightarrow> bool" where
  "inits_op A (FillRect _ _ _ _) = ({AAlpha, AFill} \<subseteq> A)"
| "inits_op A (StrokeRect _ _ _ _) = ({AAlpha, AStroke, AWidth, ACap} \<subseteq> A)"
| "inits_op A (FillText _ _ _) = ({AAlpha, AFill, AFont, AAlign, ABaseline} \<subseteq> A)"
| "inits_op A Stroke = ({AAlpha, AStroke, AWidth, ACap} \<subseteq> A)"
| "inits_op A Fill = ({AAlpha, AFill} \<subseteq> A)"
| "inits_op A (Saved b) = inits A b"
| "inits_op A _ = True"
| "inits A [] = True"
| "inits A (x # xs) = (inits_op A x \<and> inits (A \<union> op_gives x) xs)"

lemma gives_simps [simp]:
  "gives [] = {}" "gives (x # xs) = op_gives x \<union> gives xs" "gives (a @ b) = gives a \<union> gives b"
  by (auto simp: gives_def)

lemma inits_mono:
  fixes x :: "('c::linordered_field) op" and xs :: "'c op list"
  shows "inits_op A x \<Longrightarrow> A \<subseteq> B \<Longrightarrow> inits_op B x"
    and "inits A xs \<Longrightarrow> A \<subseteq> B \<Longrightarrow> inits B xs"
proof (induction A x and A xs arbitrary: B and B rule: inits_op_inits.induct)
  case (9 A x xs)
  have "A \<union> op_gives x \<subseteq> B \<union> op_gives x" using 9(4) by auto
  then show ?case using 9 by simp
qed auto

lemma inits_append [simp]: "inits A (a @ b) \<longleftrightarrow> inits A a \<and> inits (A \<union> gives a) b"
  by (induction a arbitrary: A) (simp_all add: Un_assoc)

lemma inits_concat [simp]: "(\<And>x. x \<in> set xs \<Longrightarrow> inits A (f x)) \<Longrightarrow> inits A (concat (map f xs))"
  by (induction xs) (auto intro: inits_mono(2))

text \<open>Soundness: pens that agree on \<open>A\<close> make the same marks and agree on what was set besides.\<close>

definition alike :: "attr set \<Rightarrow> ('c::linordered_field) canvas \<Rightarrow> 'c canvas \<Rightarrow> bool" where
  "alike A c d \<longleftrightarrow> (\<forall>a \<in> A. same_attr (pen c) (pen d) a) \<and> cur_path c = cur_path d \<and> view c = view d \<and> marks c = marks d"

lemma alike_mono: "alike A c d \<Longrightarrow> B \<subseteq> A \<Longrightarrow> alike B c d"
  by (auto simp: alike_def)

lemma same_attr_update [intro]:
  assumes "same_attr p q a"
  shows "same_attr (p\<lparr>fill_style := s\<rparr>) (q\<lparr>fill_style := s\<rparr>) a"
    and "same_attr (p\<lparr>stroke_style := s\<rparr>) (q\<lparr>stroke_style := s\<rparr>) a"
    and "same_attr (p\<lparr>line_width := x\<rparr>) (q\<lparr>line_width := x\<rparr>) a"
    and "same_attr (p\<lparr>line_cap := s\<rparr>) (q\<lparr>line_cap := s\<rparr>) a"
    and "same_attr (p\<lparr>font_spec := s\<rparr>) (q\<lparr>font_spec := s\<rparr>) a"
    and "same_attr (p\<lparr>text_align := s\<rparr>) (q\<lparr>text_align := s\<rparr>) a"
    and "same_attr (p\<lparr>text_baseline := s\<rparr>) (q\<lparr>text_baseline := s\<rparr>) a"
    and "same_attr (p\<lparr>global_alpha := x\<rparr>) (q\<lparr>global_alpha := x\<rparr>) a"
  using assms by (cases a; simp)+

lemma exec_inits:
  fixes x :: "('c::linordered_field) op" and xs :: "'c op list"
  shows "inits_op A x \<Longrightarrow> alike A c d \<Longrightarrow> alike (A \<union> op_gives x) (exec_op x c) (exec_op x d)"
    and "inits A xs \<Longrightarrow> alike A c d \<Longrightarrow> alike (A \<union> gives xs) (exec_ops xs c) (exec_ops xs d)"
proof (induction A x and A xs arbitrary: c d and c d rule: inits_op_inits.induct)
  case (6 A b)
  then have "alike (A \<union> gives b) (exec_ops b c) (exec_ops b d)" by simp
  then show ?case using 6(3) by (simp add: alike_def)
next
  case (9 A x xs)
  then have "alike (A \<union> op_gives x \<union> gives xs) (exec_ops xs (exec_op x c)) (exec_ops xs (exec_op x d))"
    by simp
  then show ?case by (simp add: Un_assoc)
qed (auto simp: alike_def leave_mark_def)

section \<open>What the next frame starts with\<close>

text \<open>The value the calls leave in an attribute, if they set it.\<close>

fun sets_baseline :: "'c op \<Rightarrow> string option" where
  "sets_baseline (TextBaseline s) = Some s"
| "sets_baseline _ = None"

fun sets_cap :: "'c op \<Rightarrow> string option" where
  "sets_cap (LineCap s) = Some s"
| "sets_cap _ = None"

fun sets_alpha :: "('c::linordered_field) op \<Rightarrow> 'c option" where
  "sets_alpha (GlobalAlpha a) = Some (clamp01 a)"
| "sets_alpha _ = None"

primrec last_set :: "('c op \<Rightarrow> 'v option) \<Rightarrow> 'c op list \<Rightarrow> 'v option" where
  "last_set f [] = None"
| "last_set f (x # xs) = (case last_set f xs of Some v \<Rightarrow> Some v | None \<Rightarrow> f x)"

definition leaves :: "('c op \<Rightarrow> 'v option) \<Rightarrow> 'v \<Rightarrow> 'c op list \<Rightarrow> bool" where
  "leaves f v ops \<longleftrightarrow> last_set f ops = None \<or> last_set f ops = Some v"

lemma last_set_append [simp]:
  "last_set f (a @ b) = (case last_set f b of Some v \<Rightarrow> Some v | None \<Rightarrow> last_set f a)"
  by (induction a) (simp_all split: option.splits)

lemma last_set_concat [simp]:
  "(\<And>x. x \<in> set xs \<Longrightarrow> last_set f (g x) = None) \<Longrightarrow> last_set f (concat (map g xs)) = None"
  by (induction xs) simp_all

lemma leaves_concat [simp]:
  assumes "\<And>x. x \<in> set xs \<Longrightarrow> leaves f v (g x)"
  shows "leaves f v (concat (map g xs))"
  using assms by (induction xs) (auto simp: leaves_def split: option.splits)

lemma leaves_simps [simp]:
  "leaves f v []"
  "leaves f v (x # xs) \<longleftrightarrow>
     (if f x = None \<or> f x = Some v then leaves f v xs else leaves f v xs \<and> last_set f xs \<noteq> None)"
  by (auto simp: leaves_def split: option.splits)

lemma leaves_inert [simp]: "last_set f ops = None \<Longrightarrow> leaves f v ops"
  by (simp add: leaves_def)

text \<open>A part that leaves the value may be followed by anything that does; a part that does not has to be
followed by one that sets it.\<close>

lemma leaves_append [simp]:
  "leaves f v a \<Longrightarrow> leaves f v (a @ b) \<longleftrightarrow> leaves f v b"
  "last_set f b \<noteq> None \<Longrightarrow> leaves f v (a @ b) \<longleftrightarrow> leaves f v b"
  by (auto simp: leaves_def split: option.splits)

lemma exec_last_set:
  fixes ops :: "('c::linordered_field) op list"
  shows "text_baseline (pen (exec_ops ops c)) = case_option (text_baseline (pen c)) id (last_set sets_baseline ops)"
    and "line_cap (pen (exec_ops ops c)) = case_option (line_cap (pen c)) id (last_set sets_cap ops)"
    and "global_alpha (pen (exec_ops ops c)) = case_option (global_alpha (pen c)) id (last_set sets_alpha ops)"
proof (induction ops arbitrary: c)
  case (Cons x xs)
  { case 1 then show ?case using Cons(1) by (cases x) (auto simp: leave_mark_def split: option.splits) next
    case 2 then show ?case using Cons(2) by (cases x) (auto simp: leave_mark_def split: option.splits) next
    case 3 then show ?case using Cons(3) by (cases x) (auto simp: leave_mark_def split: option.splits) }
qed simp_all

text \<open>The pen between two frames: the attributes a script may rely on.  The line cap is a parameter: a context
starts with a square cap, and the scripts that set a cap leave a butt one.\<close>

definition rested :: "string \<Rightarrow> ('c::linordered_field) pen \<Rightarrow> bool" where
  "rested cap p \<longleftrightarrow> text_baseline p = ''alphabetic'' \<and> global_alpha p = 1 \<and> line_cap p = cap"

definition rest_attrs :: "attr set" where
  "rest_attrs = {ABaseline, AAlpha, ACap}"

definition rests :: "string \<Rightarrow> ('c::linordered_field) op list \<Rightarrow> bool" where
  "rests cap ops \<longleftrightarrow> leaves sets_baseline ''alphabetic'' ops \<and> leaves sets_cap cap ops
     \<and> leaves sets_alpha 1 ops"

text \<open>The contract of a script: no attribute is read before it is set, those of the resting pen apart,
and these are back at the end of the frame.\<close>

locale painter_script =
  fixes cap :: string
    and ops :: "'i \<Rightarrow> ('c::linordered_field) op list"
  assumes reads_what_it_set: "inits rest_attrs (ops i)"
    and puts_back: "rests cap (ops i)"
begin

lemma pen_rests: "rested cap p \<Longrightarrow> rested cap (snd (render p (ops i)))"
  using puts_back[of i] unfolding rested_def rests_def leaves_def
  by (auto simp: render_def begin_frame_def exec_last_set Let_def)

lemma marks_determined:
  assumes "rested c p" and "rested c q"
  shows "fst (render p (ops i)) = fst (render q (ops i))"
proof -
  have "alike rest_attrs (begin_frame p) (begin_frame q)"
    using assms by (auto simp: alike_def begin_frame_def rested_def rest_attrs_def)
  then have "alike (rest_attrs \<union> gives (ops i)) (exec_ops (ops i) (begin_frame p)) (exec_ops (ops i) (begin_frame q))"
    by (rule exec_inits(2)[OF reads_what_it_set])
  then show ?thesis by (simp add: render_def Let_def alike_def)
qed

text \<open>From a pen with another cap: a frame that sets the cap leaves its own, any other the one it found.\<close>

lemma pen_after:
  assumes "rested c p"
  shows "rested (if last_set sets_cap (ops i) = None then c else cap) (snd (render p (ops i)))"
  using assms puts_back[of i] unfolding rested_def rests_def leaves_def
  by (auto simp: render_def begin_frame_def exec_last_set Let_def)

end

text \<open>A sequence of frames on one context.\<close>

fun frames :: "('i \<Rightarrow> ('c::linordered_field) op list) \<Rightarrow> 'c pen \<Rightarrow> 'i list \<Rightarrow> 'c mark list list" where
  "frames ops p [] = []"
| "frames ops p (i # is) = (case render p (ops i) of (m, p') \<Rightarrow> m # frames ops p' is)"

text \<open>The same frames, each drawn on its own from the pen \<open>q\<close>.\<close>

definition alone :: "('i \<Rightarrow> ('c::linordered_field) op list) \<Rightarrow> 'c pen \<Rightarrow> 'i list \<Rightarrow> 'c mark list list" where
  "alone ops q is = map (\<lambda>i. fst (render q (ops i))) is"

context painter_script
begin

theorem frames_independent:
  assumes "rested cap p" and "rested cap q"
  shows "frames ops p is = alone ops q is"
  using assms(1)
proof (induction "is" arbitrary: p)
  case (Cons i "is")
  obtain m p' where r: "render p (ops i) = (m, p')" by fastforce
  then have "rested cap p'" and "m = fst (render q (ops i))"
    using pen_rests[OF Cons.prems, of i] marks_determined[OF Cons.prems assms(2), of i] by auto
  then show ?case using Cons.IH by (simp add: r alone_def)
qed (simp add: alone_def)

end

text \<open>How many frames it takes until one has set the line cap.\<close>

definition until_cap :: "('i \<Rightarrow> ('c::linordered_field) op list) \<Rightarrow> 'i list \<Rightarrow> nat" where
  "until_cap ops is = length (takeWhile (\<lambda>i. last_set sets_cap (ops i) = None) is) + 1"

text \<open>Frames drawn on their own, from \<open>q\<close> until one has set the cap and from \<open>r\<close> afterwards.\<close>

definition alone_settling ::
  "('i \<Rightarrow> ('c::linordered_field) op list) \<Rightarrow> 'c pen \<Rightarrow> 'c pen \<Rightarrow> 'i list \<Rightarrow> 'c mark list list" where
  "alone_settling ops q r is
     = alone ops q (take (until_cap ops is) is) @ alone ops r (drop (until_cap ops is) is)"

context painter_script
begin

text \<open>From a pen with any cap \<open>c\<close>, the one of a new context for instance: the frames up to the first that sets
the cap are drawn as from a resting pen with \<open>c\<close>, all others as from one with the script's own cap.\<close>

theorem frames_from_any_cap:
  assumes "rested c p" and "rested c q" and "rested cap r"
  shows "frames ops p is = alone_settling ops q r is"
  using assms(1)
proof (induction "is" arbitrary: p)
  case (Cons i "is")
  obtain m p' where m: "render p (ops i) = (m, p')" by fastforce
  then have here: "m = fst (render q (ops i))" using marks_determined[OF Cons.prems assms(2), of i] by simp
  have p': "rested (if last_set sets_cap (ops i) = None then c else cap) p'"
    using pen_after[OF Cons.prems, of i] m by simp
  show ?case
  proof (cases "last_set sets_cap (ops i) = None")
    case True
    then show ?thesis using Cons.IH[of p'] p' m here by (simp add: alone_settling_def until_cap_def alone_def)
  next
    case False
    then have "rested cap p'" using p' by (simp only: if_False)
    from frames_independent[OF this assms(3)] False m here show ?thesis
      by (auto simp: alone_settling_def until_cap_def alone_def)
  qed
qed (simp add: alone_settling_def alone_def)

end

section \<open>Arcs\<close>

text \<open>\<^verbatim>\<open>PainterContext::arc\<close> joins the cursor to the start of the arc, so every arc has to follow a move
to that start; \<open>dir a\<close> is the point of the unit circle at the angle \<open>a\<close>.  Over the rationals only the angle
0 has one.\<close>

fun arcs_ok :: "('c::linordered_field \<Rightarrow> ('c \<times> 'c) option) \<Rightarrow> 'c op option \<Rightarrow> 'c op list \<Rightarrow> bool" where
  "arcs_ok dir prev [] = True"
| "arcs_ok dir prev (Arc x y r a b # xs) =
     ((case dir a of Some (u, v) \<Rightarrow> prev = Some (MoveTo (x + u * r) (y + v * r)) | None \<Rightarrow> False)
      \<and> arcs_ok dir (Some (Arc x y r a b)) xs)"
| "arcs_ok dir prev (Saved b # xs) = (arcs_ok dir None b \<and> arcs_ok dir None xs)"
| "arcs_ok dir prev (z # xs) = arcs_ok dir (Some z) xs"

definition east :: "rat \<Rightarrow> (rat \<times> rat) option" where
  "east a = (if a = 0 then Some (1, 0) else None)"

definition unit_circle :: "real \<Rightarrow> (real \<times> real) option" where
  "unit_circle a = Some (cos (pi * a), sin (pi * a))"

lemma arcs_ok_any: "arcs_ok dir None xs \<Longrightarrow> arcs_ok dir prev xs"
  by (cases xs; cases "hd xs") (auto split: option.splits)

lemma arcs_ok_append [simp]: "arcs_ok dir None b \<Longrightarrow> arcs_ok dir prev (a @ b) \<longleftrightarrow> arcs_ok dir prev a"
  by (induction dir prev a rule: arcs_ok.induct) (auto intro: arcs_ok_any)

lemma arcs_ok_concat [simp]:
  "(\<And>x. x \<in> set xs \<Longrightarrow> arcs_ok dir None (g x)) \<Longrightarrow> arcs_ok dir prev (concat (map g xs))"
  by (induction xs arbitrary: prev) (auto intro: arcs_ok_any)

text \<open>A sector is the other shape: from a move to its centre the line to the start of the arc is one of its
two straight sides, and the path is closed right behind the arc.\<close>

fun arcs_or_sectors :: "('c::linordered_field \<Rightarrow> ('c \<times> 'c) option) \<Rightarrow> 'c op option \<Rightarrow> 'c op list \<Rightarrow> bool" where
  "arcs_or_sectors dir prev [] = True"
| "arcs_or_sectors dir prev (Arc x y r a b # xs) =
     (((case dir a of Some (u, v) \<Rightarrow> prev = Some (MoveTo (x + u * r) (y + v * r)) | None \<Rightarrow> False)
       \<or> prev = Some (MoveTo x y) \<and> xs \<noteq> [] \<and> hd xs = ClosePath)
      \<and> arcs_or_sectors dir (Some (Arc x y r a b)) xs)"
| "arcs_or_sectors dir prev (Saved b # xs) = (arcs_or_sectors dir None b \<and> arcs_or_sectors dir None xs)"
| "arcs_or_sectors dir prev (z # xs) = arcs_or_sectors dir (Some z) xs"

lemma sectors_any: "arcs_or_sectors dir None xs \<Longrightarrow> arcs_or_sectors dir prev xs"
  by (cases xs; cases "hd xs") (auto split: option.splits)

lemma arcs_sectors: "arcs_ok dir prev xs \<Longrightarrow> arcs_or_sectors dir prev xs"
  by (induction dir prev xs rule: arcs_ok.induct) (auto split: option.splits)

lemma sectors_append:
  "\<lbrakk>arcs_or_sectors dir prev a; arcs_or_sectors dir None b\<rbrakk> \<Longrightarrow> arcs_or_sectors dir prev (a @ b)"
  by (induction dir prev a rule: arcs_or_sectors.induct) (auto intro: sectors_any)

lemma sectors_concat:
  "(\<And>x. x \<in> set xs \<Longrightarrow> arcs_or_sectors dir None (g x)) \<Longrightarrow> arcs_or_sectors dir None (concat (map g xs))"
  by (induction xs) (auto intro: sectors_append)

section \<open>Shared drawing steps\<close>

abbreviation FillKey :: "theme \<Rightarrow> string \<Rightarrow> 'c op" where
  "FillKey th k \<equiv> FillStyle (named th k)"

abbreviation StrokeKey :: "theme \<Rightarrow> string \<Rightarrow> 'c op" where
  "StrokeKey th k \<equiv> StrokeStyle (named th k)"

text \<open>The background, the header strip and the card frame the scripts repeat.\<close>

definition background :: "theme \<Rightarrow> 'c \<Rightarrow> 'c \<Rightarrow> ('c::linordered_field) op list" where
  "background th w h = [FillKey th ''widget_base'', FillRect 0 0 w h]"

definition header_strip :: "theme \<Rightarrow> 'c \<Rightarrow> string \<Rightarrow> string \<Rightarrow> ('c::linordered_field) op list" where
  "header_strip th w heading info =
     [FillKey th ''widget_text'', Font ''bold 11px sans-serif'', TextAlign ''start'', FillText heading 14 18,
      FillKey th ''placeholder_text'', Font ''10px sans-serif'', TextAlign ''end'', FillText info (w - 14) 18,
      FillKey th ''widget_border'', FillRect 14 22 (w - 28) 1]"

definition outline :: "theme \<Rightarrow> 'c \<Rightarrow> 'c \<Rightarrow> 'c \<Rightarrow> 'c \<Rightarrow> ('c::linordered_field) op list" where
  "outline th x y w h =
     [StrokeKey th ''widget_border'', LineWidth 1, StrokeRect (x + 1 / 2) (y + 1 / 2) (w - 1) (h - 1)]"

definition panel :: "theme \<Rightarrow> 'c \<Rightarrow> 'c \<Rightarrow> 'c \<Rightarrow> 'c \<Rightarrow> ('c::linordered_field) op list" where
  "panel th x y w h =
     [FillKey th ''widget_border'', FillRect (x + 1) (y + 2) w h, FillKey th ''alternate_base'', FillRect x y w h]"

definition card :: "theme \<Rightarrow> 'c \<Rightarrow> 'c \<Rightarrow> 'c \<Rightarrow> 'c \<Rightarrow> ('c::linordered_field) op list" where
  "card th x y w h = panel th x y w h @ outline th x y w h"

definition segment :: "'c \<Rightarrow> 'c \<Rightarrow> 'c \<Rightarrow> 'c \<Rightarrow> ('c::linordered_field) op list" where
  "segment x1 y1 x2 y2 = [BeginPath, MoveTo x1 y1, LineTo x2 y2, Stroke]"

definition circle_path :: "'c \<Rightarrow> 'c \<Rightarrow> 'c \<Rightarrow> ('c::linordered_field) op list" where
  "circle_path x y r = [BeginPath, MoveTo (x + r) y, Arc x y r 0 2]"

definition disc :: "'c \<Rightarrow> 'c \<Rightarrow> 'c \<Rightarrow> ('c::linordered_field) op list" where
  "disc x y r = circle_path x y r @ [Fill]"

definition ring :: "'c \<Rightarrow> 'c \<Rightarrow> 'c \<Rightarrow> ('c::linordered_field) op list" where
  "ring x y r = circle_path x y r @ [Stroke]"

fun polyline :: "('c \<times> 'c) list \<Rightarrow> ('c::linordered_field) op list" where
  "polyline [] = []"
| "polyline ((x, y) # ps) = MoveTo x y # map (\<lambda>(x, y). LineTo x y) ps"

lemmas drawing_steps = background_def header_strip_def outline_def panel_def card_def segment_def circle_path_def
  disc_def ring_def

text \<open>What the shared steps read and leave, so that the proofs about a script need not unfold them.\<close>

lemma steps_inits [simp]:
  "inits A (background th w h) \<longleftrightarrow> AAlpha \<in> A"
  "inits A (header_strip th w heading info) \<longleftrightarrow> AAlpha \<in> A \<and> ABaseline \<in> A"
  "inits A (outline th x y w h) \<longleftrightarrow> AAlpha \<in> A \<and> ACap \<in> A"
  "inits A (panel th x y w h) \<longleftrightarrow> AAlpha \<in> A"
  "inits A (card th x y w h) \<longleftrightarrow> AAlpha \<in> A \<and> ACap \<in> A"
  "inits A (segment x y x' y') \<longleftrightarrow> AAlpha \<in> A \<and> AStroke \<in> A \<and> AWidth \<in> A \<and> ACap \<in> A"
  "inits A (circle_path x y r)"
  "inits A (disc x y r) \<longleftrightarrow> AAlpha \<in> A \<and> AFill \<in> A"
  "inits A (ring x y r) \<longleftrightarrow> AAlpha \<in> A \<and> AStroke \<in> A \<and> AWidth \<in> A \<and> ACap \<in> A"
  by (auto simp: drawing_steps)

lemma steps_gives [simp]:
  "gives (background th w h) = {AFill}"
  "gives (header_strip th w heading info) = {AFill, AFont, AAlign}"
  "gives (outline th x y w h) = {AStroke, AWidth}"
  "gives (panel th x y w h) = {AFill}"
  "gives (card th x y w h) = {AFill, AStroke, AWidth}"
  "gives (segment x y x' y') = {}" "gives (circle_path x y r) = {}" "gives (disc x y r) = {}" "gives (ring x y r) = {}"
  by (auto simp: drawing_steps)

lemma steps_last_set [simp]:
  assumes "f = sets_baseline \<or> f = sets_cap"
  shows "last_set f (background th w h) = None" "last_set f (header_strip th w heading info) = None"
    "last_set f (outline th x y w h) = None" "last_set f (panel th x y w h) = None" "last_set f (card th x y w h) = None"
    "last_set f (segment x y x' y') = None" "last_set f (circle_path x y r) = None" "last_set f (disc x y r) = None"
    "last_set f (ring x y r) = None"
  using assms by (auto simp: drawing_steps)

lemma steps_last_alpha [simp]:
  "last_set sets_alpha (background th w h) = None" "last_set sets_alpha (header_strip th w heading info) = None"
  "last_set sets_alpha (outline th x y w h) = None" "last_set sets_alpha (panel th x y w h) = None"
  "last_set sets_alpha (card th x y w h) = None" "last_set sets_alpha (segment x y x' y') = None"
  "last_set sets_alpha (circle_path x y r) = None" "last_set sets_alpha (disc x y r) = None"
  "last_set sets_alpha (ring x y r) = None"
  by (auto simp: drawing_steps)

lemma steps_arcs [simp]:
  assumes "dir 0 = Some (1, 0)"
  shows "arcs_ok dir prev (background th w h)" "arcs_ok dir prev (header_strip th w heading info)"
    "arcs_ok dir prev (outline th x y w h)" "arcs_ok dir prev (panel th x y w h)" "arcs_ok dir prev (card th x y w h)"
    "arcs_ok dir prev (segment x y x' y')" "arcs_ok dir prev (circle_path x y r)" "arcs_ok dir prev (disc x y r)"
    "arcs_ok dir prev (ring x y r)"
  using assms by (auto simp: drawing_steps)

lemma starts_at_zero [simp]: "east 0 = Some (1, 0)" "unit_circle 0 = Some (1, 0)"
  by (simp_all add: east_def unit_circle_def)

declare upt_rec_numeral [simp del]

text \<open>The points the paths of a list of calls go through.\<close>

fun op_points :: "'c op \<Rightarrow> ('c \<times> 'c) list" where
  "op_points (MoveTo x y) = [(x, y)]"
| "op_points (LineTo x y) = [(x, y)]"
| "op_points _ = []"

definition points :: "'c op list \<Rightarrow> ('c \<times> 'c) list" where
  "points ops = concat (map op_points ops)"

lemma points_simps [simp]:
  "points [] = []" "points (x # xs) = op_points x @ points xs" "points (a @ b) = points a @ points b"
  by (simp_all add: points_def)

lemma points_concat: "set (points (concat (map f xs))) = (\<Union>x \<in> set xs. set (points (f x)))"
  by (induction xs) auto

text \<open>A run of lines changes no attribute.\<close>

lemma lines_inert [simp]:
  fixes ps :: "('c::linordered_field \<times> 'c) list"
  shows "inits A (map (\<lambda>(x, y). LineTo x y) ps)" and "gives (map (\<lambda>(x, y). LineTo x y) ps) = {}"
    and "last_set sets_baseline (map (\<lambda>(x, y). LineTo x y) ps) = None"
    and "last_set sets_cap (map (\<lambda>(x, y). LineTo x y) ps) = None"
    and "last_set sets_alpha (map (\<lambda>(x, y). LineTo x y) ps) = None"
    and "arcs_ok dir prev (map (\<lambda>(x, y). LineTo x y) ps)"
    and "points (map (\<lambda>(x, y). LineTo x y) ps) = ps"
  by (induction ps arbitrary: A prev) auto

lemma polyline_inert [simp]:
  fixes ps :: "('c::linordered_field \<times> 'c) list"
  shows "inits A (polyline ps)" and "gives (polyline ps) = {}" and "last_set sets_baseline (polyline ps) = None"
    and "last_set sets_cap (polyline ps) = None" and "last_set sets_alpha (polyline ps) = None"
    and "arcs_ok dir prev (polyline ps)" and "points (polyline ps) = ps"
  by (cases ps rule: polyline.cases; simp)+

lemma clamp01_bounds [simp]: "0 \<le> clamp01 x" "clamp01 x \<le> 1"
  by (simp_all add: clamp01_def)

end
