(* ===== verification/Painter_Layout.thy ===== *)
theory Painter_Layout
  imports Painter_Canvas
begin

text \<open>
  How the painter scripts place their cards: the number of columns is a square root rounded up or to the
  nearest, the cards fill the widget row by row.

  \<^item> \<open>ceil_sqrt_ceiling\<close>, \<open>round_sqrt_floor\<close>: the root computed on natural numbers is the one of the script.
  \<^item> \<open>grid_cell_inside\<close>, \<open>grid_cells_apart\<close>: the cells of a grid stay inside its margins and apart by its gap.
\<close>

section \<open>Square roots of a layout\<close>

text \<open>The number of columns is \<^verbatim>\<open>Math.ceil(Math.sqrt(q))\<close> or \<^verbatim>\<open>Math.round(Math.sqrt(q))\<close>, computed here
without the root.\<close>

primrec floor_sqrt :: "nat \<Rightarrow> nat" where
  "floor_sqrt 0 = 0"
| "floor_sqrt (Suc n) = (let r = floor_sqrt n in if (r + 1) * (r + 1) \<le> Suc n then r + 1 else r)"

definition ceil_sqrt :: "rat \<Rightarrow> nat" where
  "ceil_sqrt q = (let n = nat \<lceil>q\<rceil>; r = floor_sqrt n in if r * r = n then r else r + 1)"

definition round_sqrt :: "rat \<Rightarrow> nat" where
  "round_sqrt q = (floor_sqrt (nat \<lfloor>4 * q\<rfloor>) + 1) div 2"

lemma floor_sqrt_bounds: "floor_sqrt n * floor_sqrt n \<le> n" "n < (floor_sqrt n + 1) * (floor_sqrt n + 1)"
proof -
  have "floor_sqrt n * floor_sqrt n \<le> n \<and> n < (floor_sqrt n + 1) * (floor_sqrt n + 1)"
    by (induction n) (auto simp: Let_def)
  then show "floor_sqrt n * floor_sqrt n \<le> n" "n < (floor_sqrt n + 1) * (floor_sqrt n + 1)" by auto
qed

lemma square_le_iff: "a * a \<le> b * b \<longleftrightarrow> a \<le> b" for a b :: nat
  by (metis power2_eq_square power2_nat_le_eq_le)

lemma ceil_sqrt_le: "0 \<le> q \<Longrightarrow> ceil_sqrt q \<le> m \<longleftrightarrow> q \<le> of_nat (m * m)"
proof -
  assume q: "0 \<le> q"
  let ?n = "nat \<lceil>q\<rceil>" and ?r = "floor_sqrt (nat \<lceil>q\<rceil>)"
  have le: "q \<le> of_nat (m * m) \<longleftrightarrow> ?n \<le> m * m" using q by (simp add: ceiling_le_iff nat_le_iff flip: of_nat_mult)
  have "?n \<le> m * m \<longleftrightarrow> ?r \<le> m" if "?r * ?r = ?n"
    using that square_le_iff[of ?r m] by simp
  moreover have "?n \<le> m * m \<longleftrightarrow> ?r + 1 \<le> m" if "?r * ?r \<noteq> ?n"
  proof
    assume "?n \<le> m * m"
    then have "?r * ?r < m * m" using floor_sqrt_bounds(1)[of ?n] that by linarith
    then have "\<not> m * m \<le> ?r * ?r" by simp
    then show "?r + 1 \<le> m" unfolding square_le_iff by simp
  next
    assume "?r + 1 \<le> m"
    then have "(?r + 1) * (?r + 1) \<le> m * m" unfolding square_le_iff .
    then show "?n \<le> m * m" using floor_sqrt_bounds(2)[of ?n] by linarith
  qed
  ultimately show ?thesis using le by (simp add: ceil_sqrt_def Let_def)
qed

lemma ceil_sqrt_ceiling:
  assumes "0 \<le> q"
  shows "int (ceil_sqrt q) = \<lceil>sqrt (of_rat q)\<rceil>"
proof -
  have le: "ceil_sqrt q \<le> m \<longleftrightarrow> sqrt (of_rat q) \<le> of_nat m" for m
  proof -
    have "sqrt (of_rat q) \<le> of_nat m \<longleftrightarrow> real_of_rat q \<le> (of_nat m)\<^sup>2"
      using assms by (metis abs_of_nat real_sqrt_abs real_sqrt_le_iff)
    also have "\<dots> \<longleftrightarrow> q \<le> of_nat (m * m)"
      by (metis of_nat_power of_rat_less_eq of_rat_of_nat_eq power2_eq_square)
    finally show ?thesis using ceil_sqrt_le[OF assms, of m] by simp
  qed
  have "- 1 < sqrt (real_of_rat q)" by (rule less_le_trans[of _ 0]) (use assms in simp_all)
  then have up: "\<lceil>sqrt (of_rat q)\<rceil> = int (nat \<lceil>sqrt (of_rat q)\<rceil>)" by simp
  have "sqrt (of_rat q) \<le> of_nat (nat \<lceil>sqrt (of_rat q)\<rceil>)" by (simp add: of_nat_ceiling)
  then have "ceil_sqrt q \<le> nat \<lceil>sqrt (of_rat q)\<rceil>" using le by blast
  moreover have "\<lceil>sqrt (of_rat q)\<rceil> \<le> int (ceil_sqrt q)" using le[of "ceil_sqrt q"] by (simp add: ceiling_le_iff)
  ultimately show ?thesis using up by linarith
qed

lemma round_sqrt_floor:
  assumes "0 \<le> q"
  shows "int (round_sqrt q) = \<lfloor>sqrt (of_rat q) + 1 / 2\<rfloor>"
proof -
  let ?n = "nat \<lfloor>4 * q\<rfloor>" and ?k = "\<lfloor>2 * sqrt (real_of_rat q)\<rfloor>"
  have n: "of_nat ?n \<le> 4 * q" "4 * q < of_nat (?n + 1)" using assms by (simp_all add: floor_less_iff) linarith+
  have s4: "2 * sqrt (real_of_rat q) = sqrt (real_of_rat (4 * q))" by (simp add: of_rat_mult real_sqrt_mult)
  have "int (floor_sqrt ?n) = ?k"
    unfolding s4
  proof (rule floor_unique[symmetric])
    have "(real (floor_sqrt ?n))\<^sup>2 \<le> real ?n"
      using floor_sqrt_bounds(1)[of ?n] by (simp add: power2_eq_square flip: of_nat_mult)
    also have "\<dots> \<le> real_of_rat (4 * q)" using n(1) by (metis of_rat_less_eq of_rat_of_nat_eq)
    finally show "of_int (int (floor_sqrt ?n)) \<le> sqrt (real_of_rat (4 * q))" by (simp add: real_le_rsqrt)
  next
    have "real_of_rat (4 * q) < real (?n + 1)" using n(2) by (metis of_rat_less of_rat_of_nat_eq)
    also have "real (?n + 1) \<le> real ((floor_sqrt ?n + 1) * (floor_sqrt ?n + 1))"
      using floor_sqrt_bounds(2)[of ?n] by (subst of_nat_le_iff) simp
    also have "\<dots> = (real (floor_sqrt ?n) + 1)\<^sup>2" by (simp add: power2_eq_square algebra_simps)
    finally show "sqrt (real_of_rat (4 * q)) < of_int (int (floor_sqrt ?n)) + 1"
      by (simp add: real_less_lsqrt assms)
  qed
  moreover have "\<lfloor>sqrt (real_of_rat q) + 1 / 2\<rfloor> = (?k + 1) div 2"
  proof -
    have "\<lfloor>sqrt (real_of_rat q) + 1 / 2\<rfloor> = \<lfloor>(2 * sqrt (real_of_rat q) + 1) / real_of_int 2\<rfloor>"
      by (simp add: field_simps)
    also have "\<dots> = (?k + 1) div 2" by (simp only: floor_divide_real_eq_div[of 2] ) simp
    finally show ?thesis .
  qed
  ultimately show ?thesis by (simp add: round_sqrt_def)
qed

section \<open>Cards in a grid\<close>

text \<open>The scripts lay their cards out in rows of \<open>cols\<close>: left and right margin \<open>padX\<close>, upper and lower margin
\<open>padTop\<close> and \<open>padBot\<close>, a gap between neighbours.\<close>

record 'c box =
  box_x :: 'c
  box_y :: 'c
  box_w :: 'c
  box_h :: 'c

definition ceil_div :: "nat \<Rightarrow> nat \<Rightarrow> nat" where
  "ceil_div n c = (n + c - 1) div c"

definition grid_cell ::
  "'c \<Rightarrow> 'c \<Rightarrow> 'c \<Rightarrow> 'c \<Rightarrow> nat \<Rightarrow> nat \<Rightarrow> 'c \<Rightarrow> 'c \<Rightarrow> nat \<Rightarrow> ('c::linordered_field) box" where
  "grid_cell padX padTop padBot gap cols rows w h i =
     (let cw = (w - padX * 2 - gap * (of_nat cols - 1)) / of_nat cols;
          ch = (h - padTop - padBot - gap * (of_nat rows - 1)) / of_nat rows
      in \<lparr>box_x = padX + of_nat (i mod cols) * (cw + gap), box_y = padTop + of_nat (i div cols) * (ch + gap),
          box_w = cw, box_h = ch\<rparr>)"

definition apart :: "'c \<Rightarrow> ('c::linordered_field) box \<Rightarrow> 'c box \<Rightarrow> bool" where
  "apart gap a b \<longleftrightarrow> box_x a + box_w a + gap \<le> box_x b \<or> box_x b + box_w b + gap \<le> box_x a
     \<or> box_y a + box_h a + gap \<le> box_y b \<or> box_y b + box_h b + gap \<le> box_y a"

definition inside :: "('c::linordered_field) box \<Rightarrow> 'c box \<Rightarrow> bool" where
  "inside a b \<longleftrightarrow> box_x b \<le> box_x a \<and> box_x a + box_w a \<le> box_x b + box_w b
     \<and> box_y b \<le> box_y a \<and> box_y a + box_h a \<le> box_y b + box_h b"

lemma ceil_div_covers: "0 < c \<Longrightarrow> n \<le> c * ceil_div n c"
proof -
  assume c: "0 < c"
  have "c * ((n + c - 1) div c) = (n + c - 1) - (n + c - 1) mod c" by (simp add: minus_mod_eq_mult_div)
  moreover have "(n + c - 1) mod c < c" using c by simp
  ultimately have "n \<le> c * ((n + c - 1) div c)" using c by linarith
  then show ?thesis by (simp only: ceil_div_def)
qed

lemma ceil_div_row: "i < n \<Longrightarrow> 0 < c \<Longrightarrow> i div c < ceil_div n c"
  using ceil_div_covers[of c n] by (auto simp: div_less_iff_less_mult mult.commute)

lemma slots_fit:
  fixes s :: "'c::linordered_field"
  assumes "0 \<le> s" and "0 \<le> gap" and "k < n" and "of_nat n * s + gap * (of_nat n - 1) = extent"
  shows "of_nat k * (s + gap) + s \<le> extent"
proof -
  have k: "of_nat k \<le> (of_nat n - 1 :: 'c)" using assms(3) 
  proof -
    have "of_nat (Suc k) \<le> (of_nat n :: 'c)" using assms(3) by (simp only: of_nat_le_iff Suc_le_eq)
    then show ?thesis by simp
  qed
  have "of_nat k * (s + gap) + s \<le> (of_nat n - 1) * (s + gap) + s"
    using mult_right_mono[OF k, of "s + gap"] assms(1,2) by simp
  also have "\<dots> = extent" using assms(4) by (simp add: algebra_simps)
  finally show ?thesis .
qed

lemma slots_apart:
  fixes s :: "'c::linordered_field"
  assumes "0 \<le> s" and "0 \<le> gap" and "j < k"
  shows "of_nat j * (s + gap) + s + gap \<le> of_nat k * (s + gap)"
proof -
  have "(of_nat j + 1 :: 'c) \<le> of_nat k" 
  proof -
    have "of_nat (Suc j) \<le> (of_nat k :: 'c)" using assms(3) by (simp only: of_nat_le_iff Suc_le_eq)
    then show ?thesis by simp
  qed
  from mult_right_mono[OF this, of "s + gap"] show ?thesis using assms(1,2) by (simp add: algebra_simps)
qed

lemma grid_cell_inside:
  fixes w :: "'c::linordered_field"
  assumes "0 < cols" and "i < n" and "0 \<le> gap" and "rows = ceil_div n cols"
    and "0 \<le> w - padX * 2 - gap * (of_nat cols - 1)" and "0 \<le> h - padTop - padBot - gap * (of_nat rows - 1)"
  shows "inside (grid_cell padX padTop padBot gap cols rows w h i)
    \<lparr>box_x = padX, box_y = padTop, box_w = w - 2 * padX, box_h = h - padTop - padBot\<rparr>"
proof -
  define cw where "cw = (w - padX * 2 - gap * (of_nat cols - 1)) / of_nat cols"
  define ch where "ch = (h - padTop - padBot - gap * (of_nat rows - 1)) / of_nat rows"
  have row: "i div cols < rows" using ceil_div_row[OF assms(2,1)] by (simp add: assms(4))
  have "0 \<le> cw" "0 \<le> ch" using assms(5,6) by (simp_all add: cw_def ch_def)
  moreover have "of_nat cols * cw + gap * (of_nat cols - 1) = w - 2 * padX"
    using assms(1) by (simp add: cw_def)
  moreover have "of_nat rows * ch + gap * (of_nat rows - 1) = h - padTop - padBot"
    using row by (simp add: ch_def)
  ultimately have "of_nat (i mod cols) * (cw + gap) + cw \<le> w - 2 * padX"
    "of_nat (i div cols) * (ch + gap) + ch \<le> h - padTop - padBot"
    "0 \<le> of_nat (i mod cols) * (cw + gap)" "0 \<le> of_nat (i div cols) * (ch + gap)"
    using slots_fit[of cw gap "i mod cols" cols] slots_fit[of ch gap "i div cols" rows] assms(1,3) row by simp_all
  then show ?thesis by (simp add: inside_def grid_cell_def cw_def[symmetric] ch_def[symmetric])
qed

lemma grid_cells_apart:
  fixes w :: "'c::linordered_field"
  assumes "i \<noteq> j" and "0 \<le> gap"
    and "0 \<le> w - padX * 2 - gap * (of_nat cols - 1)" and "0 \<le> h - padTop - padBot - gap * (of_nat rows - 1)"
  shows "apart gap (grid_cell padX padTop padBot gap cols rows w h i) (grid_cell padX padTop padBot gap cols rows w h j)"
proof -
  define cw where "cw = (w - padX * 2 - gap * (of_nat cols - 1)) / of_nat cols"
  define ch where "ch = (h - padTop - padBot - gap * (of_nat rows - 1)) / of_nat rows"
  have nn: "0 \<le> cw" "0 \<le> ch" using assms(3,4) by (simp_all add: cw_def ch_def)
  have "i mod cols \<noteq> j mod cols \<or> i div cols \<noteq> j div cols" using assms(1) by (metis mult_div_mod_eq)
  then have "i mod cols < j mod cols \<or> j mod cols < i mod cols \<or> i div cols < j div cols \<or> j div cols < i div cols"
    by linarith
  then show ?thesis
    using slots_apart[OF nn(1) assms(2)] slots_apart[OF nn(2) assms(2)]
    by (auto simp: apart_def grid_cell_def cw_def[symmetric] ch_def[symmetric] add.assoc)
qed

end
