(* ===== verification/Painter_Traces.thy ===== *)
theory Painter_Traces
  imports Painter_Layout
begin

text \<open>
  The painter scripts that keep a history: \<^verbatim>\<open>strip_chart.js\<close>, \<^verbatim>\<open>sparklines.js\<close>, \<^verbatim>\<open>oscilloscope.js\<close> and
  \<^verbatim>\<open>xy_scope.js\<close>.  \<^verbatim>\<open>onFrame\<close> appends the finite values to one trace per dataset and drops the oldest
  beyond the cap; \<^verbatim>\<open>paint\<close> turns traces and datasets into drawing calls.

  \<^item> \<open>traces_hold_last\<close>: a trace holds exactly the last finite values of its channel.
  \<^item> \<open>strip_chart_inside\<close>, \<open>sparkline_inside\<close>: what is drawn of a reachable history stays inside the plot.
  \<^item> \<open>oscilloscope_returns\<close>, \<open>xy_scope_returns\<close>: \<^verbatim>\<open>paint\<close> fails exactly when a history belongs to a dataset that
    is gone.
  \<^item> the interpretations of \<open>painter_script\<close>: frames do not depend on the frames before them.
\<close>

section \<open>Histories\<close>

definition push_sample :: "nat \<Rightarrow> 'a option \<Rightarrow> 'a list \<Rightarrow> 'a list" where
  "push_sample cap v t = (case v of
       Some x \<Rightarrow> (let t' = t @ [x] in if length t' > cap then tl t' else t')
     | None \<Rightarrow> t)"

text \<open>\<^verbatim>\<open>while (traces.length < datasets.length) traces.push([])\<close>\<close>

definition grow :: "'a list list \<Rightarrow> nat \<Rightarrow> 'a list list" where
  "grow ts n = ts @ replicate (n - length ts) []"

fun push_all :: "nat \<Rightarrow> 'a option list \<Rightarrow> 'a list list \<Rightarrow> 'a list list" where
  "push_all cap (v # vs) (t # ts) = push_sample cap v t # push_all cap vs ts"
| "push_all cap _ ts = ts"

definition record_values :: "nat \<Rightarrow> 'a option list \<Rightarrow> 'a list list \<Rightarrow> 'a list list" where
  "record_values cap vs ts = push_all cap vs (grow ts (length vs))"

definition ds_values :: "dataset list \<Rightarrow> rat option list" where
  "ds_values ds = map (\<lambda>d. finite_value (ds_value d)) ds"

definition strip_history :: nat where "strip_history = 240"
definition spark_history :: nat where "spark_history = 60"
definition scope_history :: nat where "scope_history = 256"
definition xy_history :: nat where "xy_history = 200"

definition strip_on_frame :: "dataset list \<Rightarrow> rat list list \<Rightarrow> rat list list" where
  "strip_on_frame ds = record_values strip_history (ds_values ds)"

definition spark_on_frame :: "dataset list \<Rightarrow> rat list list \<Rightarrow> rat list list" where
  "spark_on_frame ds = record_values spark_history (ds_values ds)"

definition scope_on_frame :: "dataset list \<Rightarrow> rat list list \<Rightarrow> rat list list" where
  "scope_on_frame ds = record_values scope_history (ds_values ds)"

text \<open>\<^verbatim>\<open>xy_scope\<close> pairs the datasets; a pair counts when both values are finite.\<close>

fun xy_values :: "dataset list \<Rightarrow> (rat \<times> rat) option list" where
  "xy_values (a # b # ds) =
     (case (finite_value (ds_value a), finite_value (ds_value b)) of
        (Some x, Some y) \<Rightarrow> Some (x, y) | _ \<Rightarrow> None) # xy_values ds"
| "xy_values _ = []"

definition xy_on_frame :: "dataset list \<Rightarrow> (rat \<times> rat) list list \<Rightarrow> (rat \<times> rat) list list" where
  "xy_on_frame ds = record_values xy_history (xy_values ds)"

lemma push_sample_take_last:
  assumes "0 < cap"
  shows "push_sample cap v (take_last cap xs) = take_last cap (xs @ (case v of Some x \<Rightarrow> [x] | None \<Rightarrow> []))"
proof (cases v)
  case (Some x)
  show ?thesis
  proof (cases "length xs < cap")
    case False
    then have "tl (take_last cap xs @ [x]) = tl (drop (length xs - cap) (xs @ [x]))" by (simp add: take_last_def)
    also have "\<dots> = drop (Suc (length xs - cap)) (xs @ [x])" by (simp only: drop_Suc tl_drop)
    also have "\<dots> = take_last cap (xs @ [x])" using False by (simp add: take_last_def Suc_diff_le)
    finally show ?thesis using False by (simp add: Some push_sample_def Let_def)
  qed (simp add: Some push_sample_def Let_def)
qed (simp add: push_sample_def)

lemma push_all_nth:
  "i < length ts \<Longrightarrow> push_all cap vs ts ! i = (if i < length vs then push_sample cap (vs ! i) (ts ! i) else ts ! i)"
  by (induction cap vs ts arbitrary: i rule: push_all.induct) (auto simp: nth_Cons split: nat.splits)

lemma length_push_all [simp]: "length (push_all cap vs ts) = length ts"
  by (induction cap vs ts rule: push_all.induct) auto

lemma length_record_values [simp]: "length (record_values cap vs ts) = max (length ts) (length vs)"
  by (simp add: record_values_def grow_def)

text \<open>What one frame adds to channel \<open>i\<close>.\<close>

definition sample_of :: "nat \<Rightarrow> 'a option list \<Rightarrow> 'a list" where
  "sample_of i vs = (if i < length vs then (case vs ! i of Some x \<Rightarrow> [x] | None \<Rightarrow> []) else [])"

definition channel :: "nat \<Rightarrow> 'a option list list \<Rightarrow> 'a list" where
  "channel i fs = concat (map (sample_of i) fs)"

definition history :: "nat \<Rightarrow> 'a option list list \<Rightarrow> 'a list list" where
  "history cap fs = fold (record_values cap) fs []"

lemma record_values_nth:
  assumes "0 < cap" and "i < length (record_values cap vs ts)"
    and "i < length ts \<Longrightarrow> ts ! i = take_last cap xs" and "length ts \<le> i \<Longrightarrow> xs = []"
  shows "record_values cap vs ts ! i = take_last cap (xs @ sample_of i vs)"
proof -
  have "grow ts (length vs) ! i = take_last cap xs"
    using assms by (auto simp: grow_def nth_append)
  moreover have "i < length (grow ts (length vs))" using assms(2) by (auto simp: grow_def)
  ultimately show ?thesis
    using push_sample_take_last[OF assms(1)]
    by (auto simp: record_values_def push_all_nth sample_of_def)
qed

lemma history_invariant:
  assumes "0 < cap"
  shows "length (history cap fs) = fold max (map length fs) 0"
    and "i < length (history cap fs) \<Longrightarrow> history cap fs ! i = take_last cap (channel i fs)"
    and "length (history cap fs) \<le> i \<Longrightarrow> channel i fs = []"
proof (induction fs arbitrary: i rule: rev_induct)
  case (snoc vs fs)
  have step: "history cap (fs @ [vs]) = record_values cap vs (history cap fs)"
    and ch: "channel i (fs @ [vs]) = channel i fs @ sample_of i vs" for i
    by (simp_all add: history_def channel_def)
  { case 1 then show ?case using snoc(1) by (simp add: step) next
    case 2 then show ?case unfolding ch step
      using record_values_nth[OF assms, of i vs "history cap fs" "channel i fs"] snoc(2,3) by simp next
    case 3 then show ?case unfolding ch step using snoc(3) by (simp add: sample_of_def) }
qed (simp_all add: history_def channel_def)

section \<open>Strip chart\<close>

text \<open>\<^verbatim>\<open>Math.min\<close> and \<^verbatim>\<open>Math.max\<close> over the bounds of all datasets, of which there is at least one.\<close>

definition lowest :: "dataset list \<Rightarrow> rat" where
  "lowest ds = fold (\<lambda>d lo. min lo (ds_min d)) (tl ds) (ds_min (hd ds))"

definition highest :: "dataset list \<Rightarrow> rat" where
  "highest ds = fold (\<lambda>d hi. max hi (ds_max d)) (tl ds) (ds_max (hd ds))"

definition strip_range :: "dataset list \<Rightarrow> rat \<times> rat" where
  "strip_range ds = (let lo = lowest ds; hi = highest ds in if hi \<le> lo then (0, 100) else (lo, hi))"

text \<open>A point of a trace: sample \<open>k\<close> of \<open>cap\<close>, the value clamped into the plot.\<close>

definition plot_point :: "nat \<Rightarrow> rat \<Rightarrow> rat \<Rightarrow> rat \<Rightarrow> rat \<Rightarrow> rat \<Rightarrow> rat \<Rightarrow> nat \<Rightarrow> rat \<Rightarrow> rat \<times> rat" where
  "plot_point cap lo extent x0 base w h k v =
     (x0 + (of_nat k / (of_nat cap - 1)) * w, base - clamp01 ((v - lo) / extent) * h)"

definition plot_points :: "nat \<Rightarrow> rat \<Rightarrow> rat \<Rightarrow> rat \<Rightarrow> rat \<Rightarrow> rat \<Rightarrow> rat \<Rightarrow> rat list \<Rightarrow> (rat \<times> rat) list" where
  "plot_points cap lo extent x0 base w h t = map (\<lambda>k. plot_point cap lo extent x0 base w h k (t ! k)) [0..<length t]"

definition strip_grid :: "(jsval \<Rightarrow> string) \<Rightarrow> theme \<Rightarrow> rat \<Rightarrow> rat \<Rightarrow> rat \<Rightarrow> rat \<Rightarrow> rat \<Rightarrow> rat \<Rightarrow> rat op list" where
  "strip_grid numstr th hi extent plotX plotY plotW plotH =
     [StrokeKey th ''widget_border'', FillKey th ''placeholder_text'', Font ''9px sans-serif'',
      TextBaseline ''middle'', TextAlign ''right'']
     @ concat (map (\<lambda>i. let y = plotY + (plotH / 4) * of_nat i; v = hi - (extent / 4) * of_nat i in
         (if 0 < i \<and> i < 4 then segment plotX y (plotX + plotW) y else [])
         @ [FillText (to_fixed numstr 1 (Num v)) (plotX - 6) y]) [0..<5])
     @ [TextBaseline ''alphabetic'', TextAlign ''start'', StrokeKey th ''widget_border'']
     @ concat (map (\<lambda>i. let x = plotX + (plotW / 4) * of_nat i in segment x plotY x (plotY + plotH)) [1..<4])"

definition strip_trace ::
  "theme \<Rightarrow> rat \<Rightarrow> rat \<Rightarrow> rat \<Rightarrow> rat \<Rightarrow> rat \<Rightarrow> rat \<Rightarrow> nat \<Rightarrow> rat list \<Rightarrow> rat op list" where
  "strip_trace th lo extent plotX plotY plotW plotH i t =
     (if length t < 2 then []
      else (let color = series_color th i;
                ps = plot_points strip_history lo extent plotX (plotY + plotH) plotW plotH t;
                (lastX, lastY) = last ps
        in [StrokeStyle color, LineWidth (18 / 10), BeginPath] @ polyline ps @ [Stroke]
           @ [FillStyle color] @ disc lastX lastY 3))"

fun strip_legend :: "(string \<Rightarrow> string \<Rightarrow> rat) \<Rightarrow> theme \<Rightarrow> rat \<Rightarrow> rat \<Rightarrow> nat \<Rightarrow> rat \<Rightarrow> dataset list \<Rightarrow> rat op list" where
  "strip_legend textw th limit y i lx [] = []"
| "strip_legend textw th limit y i lx (d # ds) =
     (let label = or_text (ds_title d) (''CH '' @ nat_digits (i + 1));
          tw = textw ''10px sans-serif'' label;
          pillW = 14 + tw + 14
      in if lx + pillW > limit then []
         else [FillStyle (series_color th i), FillRect lx (y + 12) 8 8,
               FillKey th ''placeholder_text'', FillText label (lx + 12) (y + 19)]
           @ strip_legend textw th limit y (i + 1) (lx + pillW) ds)"

definition strip_paint ::
  "(jsval \<Rightarrow> string) \<Rightarrow> (string \<Rightarrow> string \<Rightarrow> rat) \<Rightarrow> theme \<Rightarrow> dataset list \<Rightarrow> rat list list \<Rightarrow> rat \<Rightarrow> rat \<Rightarrow> rat op list" where
  "strip_paint numstr textw th ds ts w h =
     (let plotX = 50; plotY = 32; plotW = w - 50 - 14; plotH = h - 32 - 38 in
      background th w h
      @ header_strip th w ''STRIP  CHART'' (nat_digits (length ds) @ '' channels'')
      @ card th plotX plotY plotW plotH
      @ (if ds = [] then []
         else (let (lo, hi) = strip_range ds; extent = hi - lo in
           strip_grid numstr th hi extent plotX plotY plotW plotH
           @ concat (map (\<lambda>i. strip_trace th lo extent plotX plotY plotW plotH i (ts ! i)) [0..<length ts])
           @ [Font ''10px sans-serif'']
           @ strip_legend textw th (plotX + plotW) (h - 38) 0 plotX ds)))"

section \<open>Sparklines\<close>

definition trend_dir :: "rat list \<Rightarrow> int" where
  "trend_dir t =
     (if length t < 8 then 0
      else (let tail = take_last 8 t; a = hd tail; b = last tail;
                extent = fold max (tl tail) (hd tail) - fold min (tl tail) (hd tail)
        in if extent = 0 then 0
           else (let delta = (b - a) / extent in if delta > 15 / 100 then 1 else if delta < - 15 / 100 then - 1 else 0)))"

definition spark_cell :: "nat \<Rightarrow> rat \<Rightarrow> rat \<Rightarrow> nat \<Rightarrow> rat box" where
  "spark_cell n w h i =
     (let cols = max 1 (ceil_sqrt (of_nat n * w / h)); rows = ceil_div n cols
      in grid_cell 12 12 12 8 cols rows w h i)"

definition spark_arrow :: "theme \<Rightarrow> int \<Rightarrow> rat \<Rightarrow> rat \<Rightarrow> rat op list" where
  "spark_arrow th dir ax ay =
     (if dir = 0 then []
      else [FillStyle (if dir > 0 then named th ''widget_highlight'' else named th ''alarm''), BeginPath]
        @ (if dir > 0 then [MoveTo ax (ay - 4), LineTo (ax + 5) (ay + 3), LineTo (ax - 5) (ay + 3)]
           else [MoveTo ax (ay + 4), LineTo (ax + 5) (ay - 3), LineTo (ax - 5) (ay - 3)])
        @ [ClosePath, Fill])"

definition spark_trace :: "string \<Rightarrow> dataset \<Rightarrow> rat box \<Rightarrow> rat list \<Rightarrow> rat op list" where
  "spark_trace color d b t =
     (if length t < 2 then []
      else (let px = box_x b + 8; pw = box_w b - 16; ph = box_h b - 50; py = box_y b + box_h b - 6;
                ps = plot_points spark_history (ds_min d) (span_of d) px py pw ph t;
                (lastX, lastY) = last ps
        in [FillStyle color, GlobalAlpha (18 / 100), BeginPath, MoveTo px py] @ map (\<lambda>(x, y). LineTo x y) ps
           @ [LineTo lastX py, ClosePath, Fill, GlobalAlpha 1]
           @ [StrokeStyle color, LineWidth (15 / 10), BeginPath] @ polyline ps @ [Stroke]
           @ [FillStyle color] @ disc lastX lastY 3))"

definition spark_card ::
  "(jsval \<Rightarrow> string) \<Rightarrow> (string \<Rightarrow> string \<Rightarrow> rat) \<Rightarrow> theme \<Rightarrow> nat \<Rightarrow> dataset \<Rightarrow> rat box \<Rightarrow> rat list \<Rightarrow> rat op list" where
  "spark_card numstr textw th i d b t =
     (let x = box_x b; y = box_y b; valTxt = value_text numstr 2 d in
      card th x y (box_w b) (box_h b)
      @ [FillKey th ''placeholder_text'', Font ''bold 10px sans-serif'', TextAlign ''start'',
         TextBaseline ''alphabetic'', FillText (take 22 (ds_title d)) (x + 10) (y + 16)]
      @ spark_arrow th (trend_dir t) (x + box_w b - 14) (y + 14)
      @ [FillKey th ''widget_text'', Font ''bold 18px sans-serif'', FillText valTxt (x + 10) (y + 38)]
      @ (if ds_units d = [] then []
         else [FillKey th ''placeholder_text'', Font ''10px sans-serif'',
               FillText (ds_units d) (x + 14 + textw ''bold 18px sans-serif'' valTxt) (y + 38)])
      @ spark_trace (series_color th i) d b t)"

text \<open>A dataset that has no trace yet is drawn like one with an empty trace.\<close>

definition trace_at :: "'a list list \<Rightarrow> nat \<Rightarrow> 'a list" where
  "trace_at ts i = (if i < length ts then ts ! i else [])"

definition spark_paint ::
  "(jsval \<Rightarrow> string) \<Rightarrow> (string \<Rightarrow> string \<Rightarrow> rat) \<Rightarrow> theme \<Rightarrow> dataset list \<Rightarrow> rat list list \<Rightarrow> rat \<Rightarrow> rat \<Rightarrow> rat op list" where
  "spark_paint numstr textw th ds ts w h =
     background th w h
     @ (if ds = [] then []
        else concat (map (\<lambda>i. spark_card numstr textw th i (ds ! i) (spark_cell (length ds) w h i) (trace_at ts i))
               [0..<length ds])
          @ [TextBaseline ''alphabetic'', TextAlign ''start''])"

section \<open>Oscilloscope\<close>

text \<open>Reading a property of a dataset that is not there raises a TypeError.\<close>

datatype script_error = TypeError

definition scope_points :: "dataset \<Rightarrow> rat \<Rightarrow> rat \<Rightarrow> rat \<Rightarrow> rat \<Rightarrow> rat list \<Rightarrow> (rat \<times> rat) list" where
  "scope_points d sx sw cy laneH t = map (\<lambda>k.
     (sx + (of_nat k / (of_nat scope_history - 1)) * sw,
      cy - ((t ! k - ds_min d) / span_of d - 1 / 2) * laneH * (85 / 100))) [0..<length t]"

definition scope_lane :: "theme \<Rightarrow> rat \<Rightarrow> rat \<Rightarrow> rat \<Rightarrow> rat \<Rightarrow> nat \<Rightarrow> dataset \<Rightarrow> rat list \<Rightarrow> rat op list" where
  "scope_lane th sx sy sw laneH i d t =
     (let cy = sy + laneH * (of_nat i + 1 / 2); color = series_color th i;
          trace_path = [BeginPath] @ polyline (scope_points d sx sw cy laneH t) @ [Stroke]
      in [StrokeStyle color, LineWidth 4, GlobalAlpha (18 / 100)] @ trace_path @ [GlobalAlpha 1]
         @ [StrokeStyle color, LineWidth 2] @ trace_path
         @ [FillStyle color, Font ''bold 10px monospace'', TextAlign ''start'', TextBaseline ''top'',
            FillText (''CH'' @ nat_digits (i + 1) @ ''  '' @ ds_title d) (sx + 8) (sy + of_nat i * laneH + 6)])"

fun scope_lanes ::
  "theme \<Rightarrow> rat \<Rightarrow> rat \<Rightarrow> rat \<Rightarrow> rat \<Rightarrow> dataset list \<Rightarrow> nat \<Rightarrow> rat list list \<Rightarrow> script_error + rat op list" where
  "scope_lanes th sx sy sw laneH ds i [] = Inr []"
| "scope_lanes th sx sy sw laneH ds i (t # ts) =
     (if length t < 2 then scope_lanes th sx sy sw laneH ds (i + 1) ts
      else if length ds \<le> i then Inl TypeError
      else (case scope_lanes th sx sy sw laneH ds (i + 1) ts of
          Inl e \<Rightarrow> Inl e | Inr ops \<Rightarrow> Inr (scope_lane th sx sy sw laneH i (ds ! i) t @ ops)))"

definition plural :: "nat \<Rightarrow> string \<Rightarrow> string" where
  "plural n noun = nat_digits n @ '' '' @ noun @ (if n = 1 then [] else ''s'')"

definition scope_screen :: "theme \<Rightarrow> nat \<Rightarrow> rat \<Rightarrow> rat \<Rightarrow> rat op list" where
  "scope_screen th n w h =
     (let sx = 14; sy = 30; sw = w - 14 * 2; sh = h - 30 - 14 in
      background th w h @ header_strip th w ''OSCILLOSCOPE'' (plural n ''channel'')
      @ panel th sx sy sw sh
      @ concat (map (\<lambda>i. let x = sx + (sw / 10) * of_nat i in
          [StrokeKey th ''widget_border'', LineWidth (if i = 5 then 15 / 10 else 1)] @ segment x sy x (sy + sh)) [1..<10])
      @ concat (map (\<lambda>i. let y = sy + (sh / 8) * of_nat i in
          [StrokeKey th ''widget_border'', LineWidth (if i = 4 then 15 / 10 else 1)] @ segment sx y (sx + sw) y) [1..<8])
      @ outline th sx sy sw sh)"

definition scope_paint ::
  "theme \<Rightarrow> dataset list \<Rightarrow> rat list list \<Rightarrow> rat \<Rightarrow> rat \<Rightarrow> script_error + rat op list" where
  "scope_paint th ds ts w h =
     (let screen = scope_screen th (length ds) w h; sw = w - 14 * 2; sh = h - 30 - 14 in
      if ds = [] then Inr screen
      else (case scope_lanes th 14 30 sw (sh / of_nat (length ds)) ds 0 ts of
          Inl e \<Rightarrow> Inl e
        | Inr lanes \<Rightarrow> Inr (screen @ lanes @ [TextBaseline ''alphabetic'', TextAlign ''start''])))"

section \<open>XY scope\<close>

definition xy_cell :: "nat \<Rightarrow> rat \<Rightarrow> rat \<Rightarrow> nat \<Rightarrow> rat box" where
  "xy_cell pairs w h p =
     (let cols = ceil_sqrt (of_nat pairs * w / h); rows = ceil_div pairs cols
      in grid_cell 14 30 14 8 cols rows w h p)"

definition xy_point :: "dataset \<Rightarrow> dataset \<Rightarrow> rat \<Rightarrow> rat \<Rightarrow> rat \<Rightarrow> rat \<times> rat \<Rightarrow> rat \<times> rat" where
  "xy_point dx dy cx cy sz v =
     (cx + ((fst v - (ds_min dx + ds_max dx) * (1 / 2)) / span_of dx) * sz * 2,
      cy - ((snd v - (ds_min dy + ds_max dy) * (1 / 2)) / span_of dy) * sz * 2)"

definition xy_trail ::
  "theme \<Rightarrow> nat \<Rightarrow> dataset \<Rightarrow> dataset \<Rightarrow> rat \<Rightarrow> rat \<Rightarrow> rat \<Rightarrow> (rat \<times> rat) list \<Rightarrow> rat op list" where
  "xy_trail th p dx dy cx cy sz t =
     (if length t < 2 then []
      else (let color = series_color th p; pt = xy_point dx dy cx cy sz; (lx, ly) = pt (last t) in
        [StrokeStyle color, LineWidth (16 / 10)]
        @ concat (map (\<lambda>k. let (xa, ya) = pt (t ! (k - 1)); (xb, yb) = pt (t ! k) in
            [GlobalAlpha (15 / 100 + (85 / 100) * (of_nat k / of_nat (length t)))] @ segment xa ya xb yb) [1..<length t])
        @ [GlobalAlpha 1, FillKey th ''widget_base''] @ disc lx ly 5 @ [FillStyle color] @ disc lx ly 3))"

definition xy_card ::
  "theme \<Rightarrow> nat \<Rightarrow> dataset \<Rightarrow> dataset \<Rightarrow> rat box \<Rightarrow> (rat \<times> rat) list \<Rightarrow> rat op list" where
  "xy_card th p dx dy b t =
     (let x0 = box_x b; y0 = box_y b; cw = box_w b; ch = box_h b;
          cx = x0 + cw * (1 / 2); cy = y0 + ch * (1 / 2) + 6; sz = min cw (ch - 16) * (42 / 100) in
      card th x0 y0 cw ch
      @ [FillKey th ''placeholder_text'', Font ''bold 10px sans-serif'', TextAlign ''start'', TextBaseline ''alphabetic'',
         FillText (take 24 (or_text (ds_title dx) ''X'' @ '' x '' @ or_text (ds_title dy) ''Y'')) (x0 + 8) (y0 + 14),
         StrokeKey th ''widget_border'', LineWidth 1, BeginPath,
         MoveTo (cx - sz) cy, LineTo (cx + sz) cy, MoveTo cx (cy - sz), LineTo cx (cy + sz), Stroke,
         StrokeKey th ''widget_border'', StrokeRect (cx - sz + 1 / 2) (cy - sz + 1 / 2) (sz * 2 - 1) (sz * 2 - 1)]
      @ xy_trail th p dx dy cx cy sz t)"

text \<open>The calls a script makes before it fails are not part of the result.\<close>

fun xy_cards ::
  "theme \<Rightarrow> nat \<Rightarrow> rat \<Rightarrow> rat \<Rightarrow> dataset list \<Rightarrow> (rat \<times> rat) list list \<Rightarrow> nat list \<Rightarrow> script_error + rat op list" where
  "xy_cards th pairs w h ds ts [] = Inr []"
| "xy_cards th pairs w h ds ts (p # ps) =
     (if length ds \<le> p * 2 + 1 then Inl TypeError
      else (case xy_cards th pairs w h ds ts ps of
          Inl e \<Rightarrow> Inl e
        | Inr ops \<Rightarrow> Inr (xy_card th p (ds ! (p * 2)) (ds ! (p * 2 + 1)) (xy_cell pairs w h p) (trace_at ts p) @ ops)))"

definition xy_paint ::
  "theme \<Rightarrow> dataset list \<Rightarrow> (rat \<times> rat) list list \<Rightarrow> rat \<Rightarrow> rat \<Rightarrow> script_error + rat op list" where
  "xy_paint th ds ts w h =
     (let pairs = max (length ts) (length ds div 2);
          start = background th w h @ header_strip th w ''XY  SCOPE'' (plural pairs ''pair'') in
      if pairs = 0 then
        Inr (start @ [FillKey th ''placeholder_text'', Font ''12px sans-serif'', TextAlign ''center'',
                      FillText ''Add datasets in (X, Y) pairs'' (w / 2) (h / 2)])
      else (case xy_cards th pairs w h ds ts [0..<pairs] of
          Inl e \<Rightarrow> Inl e
        | Inr cards \<Rightarrow> Inr (start @ cards @ [TextBaseline ''alphabetic'', TextAlign ''start''])))"

section \<open>Frames do not depend on the frames before\<close>

lemma strip_legend_inert:
  "{AAlpha, ABaseline, AFont, AAlign} \<subseteq> A \<Longrightarrow> inits A (strip_legend textw th limit y i lx ds)"
  "last_set sets_baseline (strip_legend textw th limit y i lx ds) = None"
  "last_set sets_cap (strip_legend textw th limit y i lx ds) = None"
  "last_set sets_alpha (strip_legend textw th limit y i lx ds) = None"
  "arcs_ok east prev (strip_legend textw th limit y i lx ds)"
  "points (strip_legend textw th limit y i lx ds) = []"
  by (induction textw th limit y i lx ds arbitrary: A prev rule: strip_legend.induct) (auto simp: Let_def)

lemmas strip_defs = strip_paint_def strip_grid_def strip_trace_def
lemmas spark_defs = spark_paint_def spark_card_def spark_arrow_def spark_trace_def

text \<open>A frame: the datasets, the traces and the size of the widget.\<close>

interpretation strip: painter_script cap "\<lambda>(ds, ts, w, h). strip_paint numstr textw th ds ts w h"
proof (unfold_locales, goal_cases)
  case (1 i) show ?case
    by (cases i) (simp add: strip_defs Let_def rest_attrs_def case_prod_beta strip_legend_inert)
next
  case (2 i) show ?case
    by (cases i) (simp add: rests_def strip_defs Let_def case_prod_beta strip_legend_inert)
qed

interpretation spark: painter_script cap "\<lambda>(ds, ts, w, h). spark_paint numstr textw th ds ts w h"
proof (unfold_locales, goal_cases)
  case (1 i) show ?case
    by (cases i) (simp add: spark_defs Let_def rest_attrs_def case_prod_beta)
next
  case (2 i) show ?case
    by (cases i) (simp add: rests_def spark_defs Let_def case_prod_beta clamp01_def)
qed

lemma spark_arcs: "arcs_ok east None (spark_paint numstr textw th ds ts w h)"
  by (simp add: spark_defs Let_def case_prod_beta east_def)

lemma strip_arcs: "arcs_ok east None (strip_paint numstr textw th ds ts w h)"
  by (simp add: strip_defs Let_def case_prod_beta east_def strip_legend_inert)

lemma scope_lane_steps:
  "{AAlpha, ACap} \<subseteq> A \<Longrightarrow> inits A (scope_lane th sx sy sw laneH i d t)"
  "leaves sets_cap v (scope_lane th sx sy sw laneH i d t)"
  "leaves sets_alpha 1 (scope_lane th sx sy sw laneH i d t)"
  "arcs_ok east None (scope_lane th sx sy sw laneH i d t)"
  by (simp_all add: scope_lane_def Let_def clamp01_def)

lemma scope_lanes_steps:
  "scope_lanes th sx sy sw laneH ds i ts = Inr ops \<Longrightarrow>
     inits {AAlpha, ACap} ops \<and> leaves sets_cap cap ops \<and> leaves sets_alpha 1 ops \<and> arcs_ok east None ops"
proof (induction th sx sy sw laneH ds i ts arbitrary: ops rule: scope_lanes.induct)
  case (2 th sx sy sw laneH ds i t ts)
  show ?case
  proof (cases "length t < 2")
    case False
    with 2(3) obtain rest where r: "scope_lanes th sx sy sw laneH ds (i + 1) ts = Inr rest"
      and ops: "ops = scope_lane th sx sy sw laneH i (ds ! i) t @ rest" and "\<not> length ds \<le> i"
      by (auto split: if_splits sum.splits)
    then have "inits {AAlpha, ACap} rest" "leaves sets_cap cap rest" "leaves sets_alpha 1 rest" "arcs_ok east None rest"
      using 2(2) False by blast+
    then show ?thesis unfolding ops by (auto simp: scope_lane_steps elim: inits_mono(2))
  qed (use 2 in simp)
qed simp

lemma scope_lanes_return:
  "(\<exists>ops. scope_lanes th sx sy sw laneH ds i ts = Inr ops)
     \<longleftrightarrow> (\<forall>k < length ts. length ds \<le> i + k \<longrightarrow> length (ts ! k) < 2)"
proof (induction th sx sy sw laneH ds i ts rule: scope_lanes.induct)
  case (2 th sx sy sw laneH ds i t ts)
  have split: "(\<forall>k < length (t # ts). length ds \<le> i + k \<longrightarrow> length ((t # ts) ! k) < 2)
      \<longleftrightarrow> (length ds \<le> i \<longrightarrow> length t < 2) \<and> (\<forall>k < length ts. length ds \<le> i + 1 + k \<longrightarrow> length (ts ! k) < 2)"
    by (auto simp: less_Suc_eq_0_disj)
  show ?case using 2 unfolding split by (auto split: sum.splits)
qed simp

lemma xy_card_steps:
  "{AAlpha, ACap} \<subseteq> A \<Longrightarrow> inits A (xy_card th p dx dy b t)"
  "leaves sets_baseline ''alphabetic'' (xy_card th p dx dy b t)"
  "leaves sets_cap v (xy_card th p dx dy b t)"
  "leaves sets_alpha 1 (xy_card th p dx dy b t)"
  "arcs_ok east None (xy_card th p dx dy b t)"
  by (simp_all add: xy_card_def xy_trail_def Let_def case_prod_beta clamp01_def east_def)

lemma xy_cards_eq:
  "xy_cards th pairs w h ds ts ps =
     (if \<forall>p \<in> set ps. p * 2 + 1 < length ds
      then Inr (concat (map (\<lambda>p. xy_card th p (ds ! (p * 2)) (ds ! (p * 2 + 1)) (xy_cell pairs w h p) (trace_at ts p)) ps))
      else Inl TypeError)"
  by (induction th pairs w h ds ts ps rule: xy_cards.induct) auto

definition steps_of :: "script_error + 'c op list \<Rightarrow> 'c op list" where
  "steps_of r = (case r of Inr ops \<Rightarrow> ops | Inl _ \<Rightarrow> [])"

lemma scope_screen_steps:
  "{AAlpha, ABaseline, ACap} \<subseteq> A \<Longrightarrow> inits A (scope_screen th n w h)"
  "last_set sets_baseline (scope_screen th n w h) = None" "last_set sets_cap (scope_screen th n w h) = None"
  "last_set sets_alpha (scope_screen th n w h) = None" "arcs_ok east prev (scope_screen th n w h)"
  by (simp_all add: scope_screen_def Let_def)

interpretation scope: painter_script cap "\<lambda>(ds, ts, w, h). steps_of (scope_paint th ds ts w h)"
proof (unfold_locales, goal_cases)
  case (1 i) 
  obtain ds ts w h where i: "i = (ds, ts, w, h)" by (cases i)
  show ?case
    by (auto simp: i steps_of_def scope_paint_def Let_def scope_screen_steps rest_attrs_def
        dest!: scope_lanes_steps split: sum.splits elim: inits_mono(2))
next
  case (2 i)
  obtain ds ts w h where i: "i = (ds, ts, w, h)" by (cases i)
  show ?case
    by (auto simp: i rests_def steps_of_def scope_paint_def Let_def scope_screen_steps
        dest!: scope_lanes_steps[where cap = cap] split: sum.splits)
qed

interpretation xy: painter_script cap "\<lambda>(ds, ts, w, h). steps_of (xy_paint th ds ts w h)"
proof (unfold_locales, goal_cases)
  case (1 i) show ?case
    by (cases i) (simp add: steps_of_def xy_paint_def xy_cards_eq Let_def rest_attrs_def xy_card_steps)
next
  case (2 i) show ?case
    by (cases i) (simp add: rests_def steps_of_def xy_paint_def xy_cards_eq Let_def xy_card_steps)
qed

lemma scope_arcs: "arcs_ok east None (steps_of (scope_paint th ds ts w h))"
  by (auto simp: steps_of_def scope_paint_def Let_def scope_screen_steps dest!: scope_lanes_steps split: sum.splits)

lemma xy_arcs: "arcs_ok east None (steps_of (xy_paint th ds ts w h))"
  by (simp add: steps_of_def xy_paint_def xy_cards_eq Let_def xy_card_steps)

section \<open>Properties\<close>

lemma trace_at_history:
  "0 < cap \<Longrightarrow> trace_at (history cap fs) i = take_last cap (channel i fs)"
  using history_invariant(2)[of cap i fs] history_invariant(3)[of cap fs i] by (auto simp: trace_at_def)

lemma fold_history:
  "fold strip_on_frame fs [] = history 240 (map ds_values fs)"
  "fold spark_on_frame fs [] = history 60 (map ds_values fs)"
  "fold scope_on_frame fs [] = history 256 (map ds_values fs)"
  "fold xy_on_frame fs [] = history 200 (map xy_values fs)"
proof -
  have frames: "strip_on_frame = record_values 240 \<circ> ds_values" "spark_on_frame = record_values 60 \<circ> ds_values"
    "scope_on_frame = record_values 256 \<circ> ds_values" "xy_on_frame = record_values 200 \<circ> xy_values"
    by (simp_all add: fun_eq_iff strip_on_frame_def strip_history_def spark_on_frame_def spark_history_def
        scope_on_frame_def scope_history_def xy_on_frame_def xy_history_def)
  show "fold strip_on_frame fs [] = history 240 (map ds_values fs)"
    "fold spark_on_frame fs [] = history 60 (map ds_values fs)"
    "fold scope_on_frame fs [] = history 256 (map ds_values fs)"
    "fold xy_on_frame fs [] = history 200 (map xy_values fs)"
    by (simp_all add: frames history_def fold_map)
qed

text \<open>C20: After any sequence of frames, the trace of a dataset (of a pair, in the XY scope) holds exactly the
last finite values reported for it, in order: 240 in the strip chart, 60 in the sparklines, 256 in the
oscilloscope, 200 in the XY scope.  Frames with fewer datasets and values that are no finite numbers add
nothing.\<close>

theorem traces_hold_last:
  shows "(trace_at (fold strip_on_frame fs []) i = take_last 240 (channel i (map ds_values fs)))
    \<and> (trace_at (fold spark_on_frame fs []) i = take_last 60 (channel i (map ds_values fs)))
    \<and> (trace_at (fold scope_on_frame fs []) i = take_last 256 (channel i (map ds_values fs)))
    \<and> (trace_at (fold xy_on_frame fs []) i = take_last 200 (channel i (map xy_values fs)))"
  by (simp add: fold_history trace_at_history)

lemma history_length_le: "0 < cap \<Longrightarrow> length (trace_at (history cap fs) i) \<le> cap"
  by (simp add: trace_at_history)

lemma scaled_unit: "0 \<le> a \<Longrightarrow> a \<le> 1 \<Longrightarrow> 0 \<le> w \<Longrightarrow> 0 \<le> a * w \<and> a * w \<le> (w :: rat)"
  using mult_right_mono[of a 1 w] by simp

text \<open>A trace no longer than its cap is drawn inside its plot.\<close>

lemma plot_points_inside:
  assumes "(x, y) \<in> set (plot_points cap lo extent x0 base w h t)"
    and "length t \<le> cap" and "1 < cap" and "0 \<le> w" and "0 \<le> h"
  shows "x0 \<le> x \<and> x \<le> x0 + w \<and> base - h \<le> y \<and> y \<le> base"
proof -
  obtain k where k: "k < length t" "x = x0 + (of_nat k / (of_nat cap - 1)) * w"
    "y = base - clamp01 ((t ! k - lo) / extent) * h"
    using assms(1) by (auto simp: plot_points_def plot_point_def)
  have "(of_nat k :: rat) \<le> of_nat cap - 1"
  proof -
    have "of_nat (Suc k) \<le> (of_nat cap :: rat)" using k(1) assms(2) by (simp only: of_nat_le_iff)
    then show ?thesis by simp
  qed
  moreover have "(1 :: rat) < of_nat cap" using assms(3) by simp
  ultimately have "(of_nat k :: rat) / (of_nat cap - 1) \<le> 1" "(0 :: rat) \<le> of_nat k / (of_nat cap - 1)" by simp_all
  then show ?thesis
    using k scaled_unit[of "of_nat k / (of_nat cap - 1)" w] scaled_unit[of "clamp01 ((t ! k - lo) / extent)" h] assms(4,5)
    by simp
qed

lemma last_plot_point:
  "2 \<le> length t \<Longrightarrow> last (plot_points cap lo extent x0 base w h t) \<in> set (plot_points cap lo extent x0 base w h t)"
  by (rule last_in_set) (auto simp: plot_points_def)

lemma strip_trace_inside:
  assumes "(x, y) \<in> set (points (strip_trace th lo extent plotX plotY plotW plotH i t))"
    and "length t \<le> 240" and "0 \<le> plotW" and "0 \<le> plotH"
  shows "plotX \<le> x \<and> x \<le> plotX + plotW + 3 \<and> plotY \<le> y \<and> y \<le> plotY + plotH"
proof -
  let ?ps = "plot_points strip_history lo extent plotX (plotY + plotH) plotW plotH t"
  have t: "2 \<le> length t" using assms(1) by (auto simp: strip_trace_def split: if_splits)
  have in_plot: "plotX \<le> a \<and> a \<le> plotX + plotW \<and> plotY \<le> b \<and> b \<le> plotY + plotH" if "(a, b) \<in> set ?ps" for a b
    using plot_points_inside[OF that] assms(2-4) by (simp add: strip_history_def)
  obtain a b where l: "last ?ps = (a, b)" by fastforce
  then have "(a, b) \<in> set ?ps" using last_plot_point[OF t, of strip_history lo extent plotX "plotY + plotH" plotW plotH] by simp
  moreover have "(x, y) \<in> set ?ps \<or> (x, y) = (a + 3, b)"
    using assms(1) t by (auto simp: strip_trace_def Let_def l drawing_steps)
  ultimately show ?thesis using in_plot[of a b] in_plot[of x y] by auto
qed

text \<open>On a widget that leaves room for the plot, whatever frames came before, every path the strip chart
draws stays inside the plot card, but for the three pixels by which the dot at the latest sample may reach
over its right edge: values outside the range of the axis are held at its ends, and a full history ends at
the right edge.\<close>

theorem strip_chart_inside:
  assumes "64 \<le> w" and "70 \<le> h"
    and "(x, y) \<in> set (points (strip_paint numstr textw th ds (fold strip_on_frame fs []) w h))"
  shows "50 \<le> x" and "x \<le> w - 14 + 3" and "32 \<le> y" and "y \<le> h - 38"
proof -
  let ?ts = "fold strip_on_frame fs []"
  obtain lo hi where r: "strip_range ds = (lo, hi)" by fastforce
  have len: "length (?ts ! i) \<le> 240" if "i < length ?ts" for i
    using that history_length_le[of 240 "map ds_values fs" i] by (simp add: fold_history trace_at_def)
  have "50 \<le> x \<and> x \<le> w - 14 + 3 \<and> 32 \<le> y \<and> y \<le> h - 38"
  proof (cases "(x, y) \<in> set (points (strip_grid numstr th hi (hi - lo) 50 32 (w - 64) (h - 70)))")
    case True
    then obtain k where "k < 4"
      "y = 32 + of_nat k / 4 * (h - 70) \<and> (x = 50 \<or> x = 50 + (w - 64))
       \<or> x = 50 + of_nat k / 4 * (w - 64) \<and> (y = 32 \<or> y = 32 + (h - 70))"
      by (auto simp: strip_grid_def Let_def drawing_steps points_concat split: if_splits)
    then show ?thesis
      using assms(1,2) scaled_unit[of "of_nat k / 4" "h - 70"] scaled_unit[of "of_nat k / 4" "w - 64"] by auto
  next
    case False
    then obtain i where "i < length ?ts" "(x, y) \<in> set (points (strip_trace th lo (hi - lo) 50 32 (w - 64) (h - 70) i (?ts ! i)))"
      using assms(3) by (auto simp: strip_paint_def Let_def drawing_steps r strip_legend_inert points_concat split: if_splits)
    then show ?thesis using strip_trace_inside[OF _ len] assms(1,2) by fastforce
  qed
  then show "50 \<le> x" "x \<le> w - 14 + 3" "32 \<le> y" "y \<le> h - 38" by auto
qed

lemma spark_trace_inside:
  assumes "(x, y) \<in> set (points (spark_trace color d b t))"
    and "length t \<le> 60" and "16 \<le> box_w b" and "50 \<le> box_h b"
  shows "box_x b + 8 \<le> x \<and> x \<le> box_x b + box_w b - 8 + 3
    \<and> box_y b + 44 \<le> y \<and> y \<le> box_y b + box_h b - 6"
proof -
  let ?ps = "plot_points spark_history (ds_min d) (span_of d) (box_x b + 8) (box_y b + box_h b - 6)
    (box_w b - 16) (box_h b - 50) t"
  have t: "2 \<le> length t" using assms(1) by (auto simp: spark_trace_def split: if_splits)
  have in_plot: "box_x b + 8 \<le> a \<and> a \<le> box_x b + box_w b - 8 \<and> box_y b + 44 \<le> c \<and> c \<le> box_y b + box_h b - 6"
    if "(a, c) \<in> set ?ps" for a c
    using plot_points_inside[OF that] assms(2-4) by (simp add: spark_history_def)
  obtain a c where l: "last ?ps = (a, c)" by fastforce
  then have ac: "(a, c) \<in> set ?ps"
    using last_plot_point[OF t, of spark_history "ds_min d" "span_of d" "box_x b + 8" "box_y b + box_h b - 6"
        "box_w b - 16" "box_h b - 50"] by simp
  have "(x, y) \<in> set ?ps \<or> (x, y) = (a + 3, c)
      \<or> (x, y) \<in> {(box_x b + 8, box_y b + box_h b - 6), (a, box_y b + box_h b - 6)}"
    using assms(1) t by (auto simp: spark_trace_def Let_def l drawing_steps)
  then show ?thesis using in_plot[OF ac] in_plot[of x y] assms(3,4) by auto
qed

lemma spark_columns: "0 < w \<Longrightarrow> 0 < h \<Longrightarrow> 0 < max 1 (ceil_sqrt (of_nat n * w / h))"
  by simp

text \<open>C21: On every widget whose cells are at least 16 pixels wide and 50 high, the history of dataset \<open>i\<close> is drawn
inside the cell of card \<open>i\<close>, the cells lie inside the margins of the widget, and two cells keep a gap of 8
pixels: the charts never overlap, whatever the number of datasets, their values and the shape of the widget.\<close>

theorem sparklines_in_cards:
  assumes "i < length ds" and "i \<noteq> j"
    and "16 \<le> box_w (spark_cell (length ds) w h i)" and "50 \<le> box_h (spark_cell (length ds) w h i)"
    and "(x, y) \<in> set (points (spark_trace color (ds ! i) (spark_cell (length ds) w h i) (trace_at (fold spark_on_frame fs []) i)))"
  shows "(inside \<lparr>box_x = x, box_y = y, box_w = 0, box_h = 0\<rparr> (spark_cell (length ds) w h i))
    \<and> (inside (spark_cell (length ds) w h i) \<lparr>box_x = 12, box_y = 12, box_w = w - 24, box_h = h - 24\<rparr>)
    \<and> (apart 8 (spark_cell (length ds) w h i) (spark_cell (length ds) w h j))"
proof -
  let ?cell = "spark_cell (length ds) w h"
  have "length (trace_at (fold spark_on_frame fs []) i) \<le> 60"
    using history_length_le[of 60 "map ds_values fs" i] by (simp add: fold_history)
  then have here: "inside \<lparr>box_x = x, box_y = y, box_w = 0, box_h = 0\<rparr> (?cell i)"
    using spark_trace_inside[OF assms(5)] assms(3,4) by (simp add: inside_def)
  define cols where "cols = max 1 (ceil_sqrt (of_nat (length ds) * w / h))"
  define rows where "rows = ceil_div (length ds) cols"
  have cols: "0 < cols" by (simp add: cols_def)
  have rows: "0 < rows" using ceil_div_row[OF assms(1) cols] by (simp add: rows_def)
  have cell: "?cell k = grid_cell 12 12 12 8 cols rows w h k" for k
    by (simp add: spark_cell_def cols_def rows_def Let_def)
  have room: "0 \<le> w - 12 * 2 - 8 * (of_nat cols - 1)" "0 \<le> h - 12 - 12 - 8 * (of_nat rows - 1)"
  proof -
    have "0 < (w - 12 * 2 - 8 * (of_nat cols - 1)) / of_nat cols" "0 < (h - 12 - 12 - 8 * (of_nat rows - 1)) / of_nat rows"
      using assms(3,4) unfolding cell grid_cell_def Let_def by (simp_all del: zero_less_divide_iff)
    then show "0 \<le> w - 12 * 2 - 8 * (of_nat cols - 1)" "0 \<le> h - 12 - 12 - 8 * (of_nat rows - 1)"
      using cols rows by (simp_all add: zero_less_divide_iff)
  qed
  have there: "inside (?cell i) \<lparr>box_x = 12, box_y = 12, box_w = w - 24, box_h = h - 24\<rparr>"
    using grid_cell_inside[OF cols assms(1) _ rows_def room] unfolding cell by simp
  have "apart 8 (?cell i) (?cell j)"
    unfolding cell by (rule grid_cells_apart[OF assms(2) _ room]) simp
  then show ?thesis using here there by blast
qed

text \<open>C22: \<^verbatim>\<open>paint\<close> of the oscilloscope and of the XY scope returns exactly when no history belongs to a
dataset that is gone: the oscilloscope fails (and the host stops the script) as soon as a channel beyond the
datasets of the frame has two samples, the XY scope as soon as an earlier frame had more pairs.\<close>

theorem scopes_return:
  shows "((\<exists>ops. scope_paint th ds (fold scope_on_frame fs []) w h = Inr ops)
      \<longleftrightarrow> ds = [] \<or> (\<forall>k. length ds \<le> k \<longrightarrow> length (channel k (map ds_values fs)) < 2))
    \<and> ((\<exists>ops. xy_paint th ds (fold xy_on_frame fs []) w h = Inr ops)
      \<longleftrightarrow> (\<forall>f \<in> set fs. length f div 2 * 2 \<le> length ds))"
proof -
  let ?ts = "fold scope_on_frame fs []" and ?xs = "fold xy_on_frame fs []"
  have at: "trace_at ?ts k = take_last 256 (channel k (map ds_values fs))" for k
    by (simp add: fold_history trace_at_history)
  have "(\<forall>k < length ?ts. length ds \<le> k \<longrightarrow> length (?ts ! k) < 2)
      \<longleftrightarrow> (\<forall>k. length ds \<le> k \<longrightarrow> length (channel k (map ds_values fs)) < 2)" (is "?L \<longleftrightarrow> ?R")
  proof -
    have "?L \<longleftrightarrow> (\<forall>k. length ds \<le> k \<longrightarrow> length (trace_at ?ts k) < 2)" by (auto simp: trace_at_def)
    also have "\<dots> \<longleftrightarrow> ?R" unfolding at by auto
    finally show ?thesis .
  qed
  then have scope: "(\<exists>ops. scope_paint th ds ?ts w h = Inr ops)
      \<longleftrightarrow> ds = [] \<or> (\<forall>k. length ds \<le> k \<longrightarrow> length (channel k (map ds_values fs)) < 2)"
    using scope_lanes_return[of th 14 30 "w - 14 * 2" "(h - 30 - 14) / of_nat (length ds)" ds 0 ?ts]
    by (auto simp: scope_paint_def Let_def split: sum.splits)
  have len_xy: "length (xy_values f) = length f div 2" for f by (induction f rule: xy_values.induct) auto
  have "length ?xs * 2 \<le> length ds \<longleftrightarrow> (\<forall>f \<in> set fs. length f div 2 * 2 \<le> length ds)"
  proof -
    have "length ?xs = fold max (map (\<lambda>f. length f div 2) fs) 0"
      using history_invariant(1)[of 200 "map xy_values fs"] by (simp add: fold_history comp_def len_xy)
    moreover have "fold max ns 0 * 2 \<le> m \<longleftrightarrow> (\<forall>n \<in> set ns. n * 2 \<le> m)" for ns and m :: nat
      by (induction ns rule: rev_induct) (auto simp: max_def)
    ultimately show ?thesis by simp
  qed
  moreover have "(\<exists>ops. xy_paint th ds ?xs w h = Inr ops) \<longleftrightarrow> length ?xs * 2 \<le> length ds"
  proof -
    have pairs: "(\<forall>p \<in> set [0..<m]. p * 2 + 1 < n) \<longleftrightarrow> m * 2 \<le> n" for m n :: nat
      by (induction m) auto
    have "max (length ?xs) (length ds div 2) * 2 \<le> length ds \<longleftrightarrow> length ?xs * 2 \<le> length ds" by auto
    then show ?thesis unfolding xy_paint_def Let_def xy_cards_eq pairs by auto
  qed
  ultimately show ?thesis using scope by blast
qed

section \<open>Concrete frames\<close>

definition example_dataset :: "rat \<Rightarrow> dataset" where
  "example_dataset v = \<lparr>ds_value = Num v, ds_min = 0, ds_max = 100, ds_title = ''T'', ds_units = [],
     ds_alarmLow = NaN, ds_alarmHigh = NaN\<rparr>"

definition example_theme :: theme where
  "example_theme = \<lparr>named = (\<lambda>k. k), widget_colors = [''red'', ''blue'']\<rparr>"

lemma example_frames:
  "fold strip_on_frame [[example_dataset 50], [example_dataset 250]] [] = [[50, 250]]"
  "fold spark_on_frame [[example_dataset 50], [example_dataset 250]] [] = [[50, 250]]"
  by (simp_all add: strip_on_frame_def spark_on_frame_def record_values_def grow_def ds_values_def example_dataset_def
      push_sample_def strip_history_def spark_history_def)

theorem strip_chart_inside_witness:
  "(50 + 100 / 239, 32) \<in> set (points (strip_paint (\<lambda>_. []) (\<lambda>_ _. 0) example_theme [example_dataset 7]
      (fold strip_on_frame [[example_dataset 50], [example_dataset 250]] []) 164 170))
   \<and> (50 + 100 / 239 :: rat) \<le> 164 - 14 + 3"
proof -
  have mem: "(50 + 100 / 239, 32) \<in> set (points (strip_paint (\<lambda>_. []) (\<lambda>_ _. 0) example_theme [example_dataset 7]
      (fold strip_on_frame [[example_dataset 50], [example_dataset 250]] []) 164 170))"
    unfolding example_frames by code_simp
  show ?thesis using mem strip_chart_inside(2)[OF _ _ mem] by simp
qed

theorem sparklines_in_cards_witness:
  "apart 8 (spark_cell (length [example_dataset 7, example_dataset 8]) 400 200 0)
     (spark_cell (length [example_dataset 7, example_dataset 8]) 400 200 1)"
proof -
  let ?fs = "[[example_dataset 50], [example_dataset 250]]"
  let ?ds = "[example_dataset 7, example_dataset 8]"
  have cell: "spark_cell (length ?ds) 400 200 0 = \<lparr>box_x = 12, box_y = 12, box_w = 184, box_h = 176\<rparr>"
    by code_simp
  have mem: "(20, 182) \<in> set (points (spark_trace ''c'' (?ds ! 0) (spark_cell (length ?ds) 400 200 0)
      (trace_at (fold spark_on_frame ?fs []) 0)))"
    unfolding example_frames cell by code_simp
  show ?thesis
    by (rule conjunct2[OF conjunct2[OF sparklines_in_cards[OF _ _ _ _ mem]]]) (simp_all only: cell, simp_all)
qed

theorem scopes_return_witness:
  "\<not> (\<exists>ops. scope_paint example_theme [example_dataset 1]
      (fold scope_on_frame [[example_dataset 1, example_dataset 2], [example_dataset 3, example_dataset 4]] []) 300 200 = Inr ops)
   \<and> \<not> (\<exists>ops. xy_paint example_theme [] (fold xy_on_frame [[example_dataset 1, example_dataset 2]] []) 300 200 = Inr ops)"
  unfolding scopes_return[THEN conjunct1] scopes_return[THEN conjunct2]
  by (auto simp: channel_def sample_of_def ds_values_def example_dataset_def intro!: exI[of _ 1])

end
