(* ===== verification/Painter_Meters.thy ===== *)
theory Painter_Meters
  imports Painter_Traces
begin

text \<open>
  The painter scripts that show levels as rows of lit cells: \<^verbatim>\<open>audio_meter.js\<close> and \<^verbatim>\<open>bar_peak_hold.js\<close>
  (segmented bars with a peak that is held and then falls) and \<^verbatim>\<open>led_matrix.js\<close>.

  \<^item> \<open>peak_holds_maximum\<close>, \<open>peaks_in_range\<close>: the peak of a channel is the largest level since it was set, for
    as long as it is held, and always a level.
  \<^item> \<open>segments_agree\<close>: the three scripts light the same share of their cells for the same value.
\<close>

section \<open>Peak hold\<close>

text \<open>The level of a bar; \<^verbatim>\<open>audio_meter.js\<close> takes 0 for what is no finite number, \<^verbatim>\<open>bar_peak_hold.js\<close> (and
\<^verbatim>\<open>led_matrix.js\<close>) the lower bound.\<close>

definition audio_level :: "dataset \<Rightarrow> rat" where
  "audio_level d = (case finite_value (ds_value d) of
       Some v \<Rightarrow> clamp01 ((v - ds_min d) / span_of d) | None \<Rightarrow> 0)"

definition bar_level :: "dataset \<Rightarrow> rat" where
  "bar_level d =
     (let v = (case finite_value (ds_value d) of Some v \<Rightarrow> v | None \<Rightarrow> ds_min d)
      in clamp01 ((v - ds_min d) / span_of d))"

record meter =
  peaks :: "rat list"
  peak_at :: "int list"
  last_ts :: int

definition meter_start :: meter where
  "meter_start = \<lparr>peaks = [], peak_at = [], last_ts = 0\<rparr>"

definition hold_step :: "int \<Rightarrow> rat \<Rightarrow> int \<Rightarrow> rat \<Rightarrow> rat \<Rightarrow> rat \<times> int \<Rightarrow> rat \<times> int" where
  "hold_step hold fall now dt level p =
     (if level > fst p then (level, now)
      else if now - snd p > hold then (max 0 (fst p - fall * dt), snd p)
      else p)"

fun hold_all :: "int \<Rightarrow> rat \<Rightarrow> int \<Rightarrow> rat \<Rightarrow> rat list \<Rightarrow> (rat \<times> int) list \<Rightarrow> (rat \<times> int) list" where
  "hold_all hold fall now dt (l # ls) (p # ps) = hold_step hold fall now dt l p # hold_all hold fall now dt ls ps"
| "hold_all hold fall now dt _ ps = ps"

definition frame_dt :: "int \<Rightarrow> int \<Rightarrow> rat" where
  "frame_dt prev now = (if prev > 0 then max 0 (of_int (now - prev) * (1 / 1000)) else 0)"

definition meter_frame :: "int \<Rightarrow> rat \<Rightarrow> int \<Rightarrow> rat list \<Rightarrow> meter \<Rightarrow> meter" where
  "meter_frame hold fall now levels m =
     (let dt = frame_dt (last_ts m) now;
          more = length levels - length (peaks m);
          ps = hold_all hold fall now dt levels
            (zip (peaks m @ replicate more 0) (peak_at m @ replicate more 0))
      in \<lparr>peaks = map fst ps, peak_at = map snd ps, last_ts = now\<rparr>)"

definition audio_on_frame :: "int \<times> dataset list \<Rightarrow> meter \<Rightarrow> meter" where
  "audio_on_frame f = meter_frame 1400 (18 / 66) (fst f) (map audio_level (snd f))"

definition bars_on_frame :: "int \<times> dataset list \<Rightarrow> meter \<Rightarrow> meter" where
  "bars_on_frame f = meter_frame 1200 (6 / 10) (fst f) (map bar_level (snd f))"

definition peak_of :: "meter \<Rightarrow> nat \<Rightarrow> rat" where
  "peak_of m i = (if i < length (peaks m) then peaks m ! i else 0)"

section \<open>Segmented bars\<close>

definition units_suffix :: "dataset \<Rightarrow> string" where
  "units_suffix d = (if ds_units d = [] then [] else '' '' @ ds_units d)"

definition audio_lit_color :: "theme \<Rightarrow> rat \<Rightarrow> string" where
  "audio_lit_color th t = (if t < 70 / 100 then named th ''widget_highlight''
     else if t < 90 / 100 then named th ''accent'' else named th ''alarm'')"

definition lit_color :: "theme \<Rightarrow> rat \<Rightarrow> string" where
  "lit_color th t = (if t < 66 / 100 then named th ''widget_highlight''
     else if t < 85 / 100 then named th ''accent'' else named th ''alarm'')"

definition unlit_color :: "theme \<Rightarrow> rat \<Rightarrow> string" where
  "unlit_color th t = named th ''widget_border''"

text \<open>The centre of segment \<open>i\<close> of \<open>n\<close>.\<close>

definition segment_t :: "nat \<Rightarrow> nat \<Rightarrow> rat" where
  "segment_t n i = (of_nat i + 1 / 2) / of_nat n"

definition audio_segments :: "theme \<Rightarrow> rat \<Rightarrow> rat \<Rightarrow> rat \<Rightarrow> rat \<Rightarrow> rat \<Rightarrow> rat op list" where
  "audio_segments th x y w h level =
     (let segW = (w - 2 * (32 - 1)) / 32 in
      concat (map (\<lambda>i. let t = segment_t 32 i in
        [FillStyle (if t \<le> level then audio_lit_color th t else unlit_color th t),
         FillRect (x + of_nat i * (segW + 2)) (y + 2) segW (h - 4)]) [0..<32]))"

definition audio_bar :: "theme \<Rightarrow> rat \<Rightarrow> rat \<Rightarrow> rat \<Rightarrow> rat \<Rightarrow> rat \<Rightarrow> rat \<Rightarrow> rat op list" where
  "audio_bar th x y w h level peak =
     [FillKey th ''alternate_base'', FillRect x y w h, FillKey th ''widget_border'', FillRect x y w 1,
      FillKey th ''widget_base'', FillRect x (y + h - 1) w 1]
     @ audio_segments th x y w h level
     @ (if peak > 0 then
          (let px = x + w * peak in
           [FillKey th ''widget_border'', FillRect (px - 2) (y - 2) 1 (h + 4), FillRect (px + 2) (y - 2) 1 (h + 4),
            FillKey th ''accent'', FillRect (px - 1) (y - 3) 2 (h + 6)])
        else [])
     @ outline th x y w h"

definition audio_row ::
  "(jsval \<Rightarrow> string) \<Rightarrow> theme \<Rightarrow> rat \<Rightarrow> meter \<Rightarrow> nat \<Rightarrow> dataset \<Rightarrow> rat \<Rightarrow> rat op list" where
  "audio_row numstr th w m i d y =
     [FillKey th ''widget_text'', Font ''bold 12px sans-serif'', TextAlign ''center'',
      FillText (if ds_title d = [] then nat_digits (i + 1) else map upper (take 2 (ds_title d)))
        (14 + 12 + 28 * (1 / 2)) (y + 16 * (1 / 2) + 4)]
     @ audio_bar th (14 + 12 + 28) y (w - 14 * 2 - 24 - 28 - 64) 16 (audio_level d) (peak_of m i)
     @ [FillKey th ''widget_text'', Font ''bold 11px sans-serif'', TextAlign ''end'',
        FillText (value_text numstr 1 d @ units_suffix d) (w - 14 - 14) (y + 16 * (1 / 2) + 4)]"

definition audio_paint ::
  "(jsval \<Rightarrow> string) \<Rightarrow> theme \<Rightarrow> dataset list \<Rightarrow> meter \<Rightarrow> rat \<Rightarrow> rat \<Rightarrow> rat op list" where
  "audio_paint numstr th ds m w h =
     background th w h
     @ (if ds = [] then []
        else (let headerY = 14 + 10; y1 = headerY + 24; y2 = h - 14 - 16;
                  extent = of_nat (length ds) * 16 + (of_nat (length ds) - 1) * 6;
                  y = y1 + max 0 (((y2 - y1) - extent) * (1 / 2))
          in [FillKey th ''alternate_base'', FillRect 14 14 (w - 14 * 2) (h - 14 * 2)]
             @ [StrokeKey th ''widget_border'', LineWidth 1,
                StrokeRect (14 + 1 / 2) (14 + 1 / 2) (w - 14 * 2 - 1) (h - 14 * 2 - 1)]
             @ [FillKey th ''widget_text'', Font ''bold 11px sans-serif'', TextAlign ''start'',
                FillText ''LEVEL  METER'' (14 + 16) (headerY + 4),
                FillKey th ''placeholder_text'', Font ''9px sans-serif'', TextAlign ''end'',
                FillText (if length ds = 1 then ds_title (ds ! 0) else ''MULTI'') (w - 14 - 16) (headerY + 4),
                FillKey th ''widget_border'', FillRect (14 + 12) (headerY + 12) (w - (14 + 12) * 2) 1]
             @ concat (map (\<lambda>i. audio_row numstr th w m i (ds ! i) (y + of_nat i * (16 + 6))) [0..<length ds])
             @ [TextAlign ''start'']))"

definition bar_segments :: "theme \<Rightarrow> rat \<Rightarrow> rat \<Rightarrow> rat \<Rightarrow> rat \<Rightarrow> rat \<Rightarrow> rat op list" where
  "bar_segments th x y w h level =
     (let segH = (h - 2 * (24 - 1)) / 24 in
      concat (map (\<lambda>i. let t = segment_t 24 i; sy = y + h - (of_nat i + 1) * segH - of_nat i * 2 in
        [FillStyle (if t \<le> level then lit_color th t else unlit_color th t),
         FillRect (x + 2) sy (w - 4) segH]) [0..<24]))"

definition vertical_bar :: "theme \<Rightarrow> rat \<Rightarrow> rat \<Rightarrow> rat \<Rightarrow> rat \<Rightarrow> rat \<Rightarrow> rat \<Rightarrow> rat op list" where
  "vertical_bar th x y w h level peak =
     [FillKey th ''alternate_base'', FillRect x y w h]
     @ bar_segments th x y w h level
     @ (if peak > 0 then
          (let py = y + h - peak * h in
           [FillKey th ''widget_border'', FillRect (x - 2) (py - 2) (w + 4) 1, FillRect (x - 2) (py + 2) (w + 4) 1,
            FillKey th ''accent'', FillRect (x - 3) (py - 1) (w + 6) 2])
        else [])
     @ outline th x y w h"

definition bars_paint ::
  "(jsval \<Rightarrow> string) \<Rightarrow> theme \<Rightarrow> dataset list \<Rightarrow> meter \<Rightarrow> rat \<Rightarrow> rat \<Rightarrow> rat op list" where
  "bars_paint numstr th ds m w h =
     background th w h
     @ (if ds = [] then []
        else (let cellW = (w - 14 * 2) / of_nat (length ds); barW = min 40 (cellW * (55 / 100)); y1 = 24; y2 = h - 36 in
          [FillKey th ''widget_text'', Font ''bold 11px sans-serif'', TextAlign ''start'', FillText ''BARS'' 14 16,
           FillKey th ''widget_border'', FillRect 14 20 (w - 14 * 2) 1]
          @ concat (map (\<lambda>i. let d = ds ! i; x = 14 + of_nat i * cellW + (cellW - barW) * (1 / 2) in
              vertical_bar th x y1 barW (y2 - y1) (bar_level d) (peak_of m i)
              @ [FillKey th ''placeholder_text'', Font ''10px sans-serif'', TextAlign ''center'',
                 FillText (take 14 (ds_title d)) (x + barW * (1 / 2)) (h - 36 + 14),
                 FillKey th ''widget_text'', Font ''bold 11px sans-serif'',
                 FillText (value_text numstr 1 d) (x + barW * (1 / 2)) (h - 36 + 28)]) [0..<length ds])
          @ [TextAlign ''start'']))"

section \<open>LED matrix\<close>

definition led_count :: "dataset \<Rightarrow> int" where
  "led_count d = \<lfloor>bar_level d * 16 + 1 / 2\<rfloor>"

definition led_segments :: "theme \<Rightarrow> rat \<Rightarrow> rat \<Rightarrow> rat \<Rightarrow> rat \<Rightarrow> dataset \<Rightarrow> rat op list" where
  "led_segments th ledX0 ledY ledW ledH d =
     concat (map (\<lambda>k. let t = segment_t 16 k in
       [FillStyle (if int k < led_count d then lit_color th t else unlit_color th t),
        FillRect (ledX0 + of_nat k * (ledW + 2)) ledY ledW ledH]) [0..<16])"

definition led_row ::
  "(jsval \<Rightarrow> string) \<Rightarrow> theme \<Rightarrow> nat \<Rightarrow> nat \<Rightarrow> dataset \<Rightarrow> rat \<Rightarrow> rat \<Rightarrow> rat op list" where
  "led_row numstr th n i d cardW cardH =
     (let cardX = 14; cardY = 30; innerPad = 12; rowH = cardH / of_nat n;
          ledH = max 8 (min (rowH * (55 / 100)) 22);
          ledArea = cardW - innerPad * 2 - 78 - 60 - 16;
          ledW = (ledArea - 2 * (16 - 1)) / 16;
          yMid = cardY + of_nat i * rowH + rowH * (1 / 2);
          ledX0 = cardX + innerPad + 78 + 8; ledY = yMid - ledH * (1 / 2)
      in [FillKey th ''widget_text'', Font ''bold 11px sans-serif'', TextAlign ''start'', TextBaseline ''middle'',
          FillText (take 14 (or_text (ds_title d) (''CH '' @ nat_digits (i + 1)))) (cardX + innerPad) yMid]
         @ led_segments th ledX0 ledY ledW ledH d
         @ [FillKey th ''widget_text'', Font ''bold 11px sans-serif'', TextAlign ''end'',
            FillText (value_text numstr 1 d @ units_suffix d) (cardX + cardW - innerPad) yMid]
         @ (if i + 1 < n then
              [FillKey th ''widget_border'',
               FillRect (cardX + innerPad) (cardY + of_nat (i + 1) * rowH - 1 / 2) (cardW - innerPad * 2) 1]
            else []))"

definition led_paint :: "(jsval \<Rightarrow> string) \<Rightarrow> theme \<Rightarrow> dataset list \<Rightarrow> rat \<Rightarrow> rat \<Rightarrow> rat op list" where
  "led_paint numstr th ds w h =
     background th w h
     @ (if ds = [] then []
        else (let cardW = w - 14 * 2; cardH = h - 30 - 14 in
          header_strip th w ''LED  MATRIX'' ''16 LEDs / row'' @ card th 14 30 cardW cardH
          @ concat (map (\<lambda>i. led_row numstr th (length ds) i (ds ! i) cardW cardH) [0..<length ds])
          @ [TextBaseline ''alphabetic'', TextAlign ''start'']))"

section \<open>Contracts\<close>

lemmas audio_defs = audio_paint_def audio_row_def audio_bar_def audio_segments_def
lemmas bars_defs = bars_paint_def vertical_bar_def bar_segments_def
lemmas led_defs = led_paint_def led_row_def led_segments_def

interpretation audio: painter_script cap "\<lambda>(ds, m, w, h). audio_paint numstr th ds m w h"
proof (unfold_locales, goal_cases)
  case (1 i) show ?case by (cases i) (simp add: audio_defs Let_def rest_attrs_def)
next
  case (2 i) show ?case by (cases i) (simp add: rests_def audio_defs Let_def)
qed

interpretation bars: painter_script cap "\<lambda>(ds, m, w, h). bars_paint numstr th ds m w h"
proof (unfold_locales, goal_cases)
  case (1 i) show ?case by (cases i) (simp add: bars_defs Let_def rest_attrs_def)
next
  case (2 i) show ?case by (cases i) (simp add: rests_def bars_defs Let_def)
qed

interpretation led: painter_script cap "\<lambda>(ds, w, h). led_paint numstr th ds w h"
proof (unfold_locales, goal_cases)
  case (1 i) show ?case by (cases i) (simp add: led_defs Let_def rest_attrs_def)
next
  case (2 i) show ?case by (cases i) (simp add: rests_def led_defs Let_def)
qed

section \<open>Peaks\<close>

text \<open>The state of channel \<open>i\<close>, a channel that is not there yet starting at 0.\<close>

definition channel_peak :: "meter \<Rightarrow> nat \<Rightarrow> rat \<times> int" where
  "channel_peak m i = (if i < length (peaks m) then (peaks m ! i, peak_at m ! i) else (0, 0))"

definition meter_ok :: "meter \<Rightarrow> bool" where
  "meter_ok m \<longleftrightarrow> length (peak_at m) = length (peaks m)"

lemma peak_of_channel: "peak_of m i = fst (channel_peak m i)"
  by (simp add: peak_of_def channel_peak_def)

lemma length_hold_all [simp]: "length (hold_all hold fall now dt ls ps) = length ps"
  by (induction hold fall now dt ls ps rule: hold_all.induct) auto

lemma hold_all_nth:
  "i < length ps \<Longrightarrow> hold_all hold fall now dt ls ps ! i =
     (if i < length ls then hold_step hold fall now dt (ls ! i) (ps ! i) else ps ! i)"
  by (induction hold fall now dt ls ps arbitrary: i rule: hold_all.induct) (auto simp: nth_Cons split: nat.splits)

lemma meter_frame_ok:
  assumes "meter_ok m"
  shows "meter_ok (meter_frame hold fall now levels m)"
    and "length (peaks (meter_frame hold fall now levels m)) = max (length (peaks m)) (length levels)"
    and "last_ts (meter_frame hold fall now levels m) = now"
  using assms by (auto simp: meter_ok_def meter_frame_def Let_def)

lemma meter_frame_channel:
  assumes "meter_ok m"
  shows "channel_peak (meter_frame hold fall now levels m) i =
    (if i < length levels then hold_step hold fall now (frame_dt (last_ts m) now) (levels ! i) (channel_peak m i)
     else channel_peak m i)"
proof -
  let ?m = "meter_frame hold fall now levels m" and ?k = "length levels - length (peaks m)"
  have ok: "length (peak_at m) = length (peaks m)" using assms by (simp add: meter_ok_def)
  show ?thesis
  proof (cases "i < max (length (peaks m)) (length levels)")
    case True
    have z: "zip (peaks m @ replicate ?k 0) (peak_at m @ replicate ?k 0) ! i = channel_peak m i"
      using True ok by (auto simp: channel_peak_def nth_append)
    have "i < length (peaks ?m)" using True meter_frame_ok(2)[OF assms] by simp
    then have ch: "channel_peak ?m i = hold_all hold fall now (frame_dt (last_ts m) now) levels
        (zip (peaks m @ replicate ?k 0) (peak_at m @ replicate ?k 0)) ! i"
      using True ok by (simp add: channel_peak_def meter_frame_def Let_def)
    have "i < length (zip (peaks m @ replicate ?k 0) (peak_at m @ replicate ?k 0))" using True ok by simp
    then show ?thesis unfolding ch z[symmetric] by (rule hold_all_nth)
  next
    case False
    then show ?thesis using meter_frame_ok(2)[OF assms, of hold fall now levels] by (auto simp: channel_peak_def)
  qed
qed

definition run_meter :: "int \<Rightarrow> rat \<Rightarrow> (int \<times> rat list) list \<Rightarrow> meter \<Rightarrow> meter" where
  "run_meter hold fall fs m = fold (\<lambda>f. meter_frame hold fall (fst f) (snd f)) fs m"

lemma run_meter_simps [simp]:
  "run_meter hold fall [] m = m"
  "run_meter hold fall (f # fs) m = run_meter hold fall fs (meter_frame hold fall (fst f) (snd f) m)"
  "run_meter hold fall (fs @ gs) m = run_meter hold fall gs (run_meter hold fall fs m)"
  by (simp_all add: run_meter_def)

lemma run_meter_ok: "meter_ok m \<Longrightarrow> meter_ok (run_meter hold fall fs m)"
  by (induction fs arbitrary: m) (simp_all add: meter_frame_ok)

lemma meter_start_ok: "meter_ok meter_start"
  by (simp add: meter_ok_def meter_start_def)

text \<open>What a channel showed over a sequence of frames.\<close>

definition levels_of :: "nat \<Rightarrow> (int \<times> rat list) list \<Rightarrow> rat list" where
  "levels_of i fs = concat (map (\<lambda>f. if i < length (snd f) then [snd f ! i] else []) fs)"

lemma levels_of_simps [simp]:
  "levels_of i [] = []"
  "levels_of i (f # fs) = (if i < length (snd f) then [snd f ! i] else []) @ levels_of i fs"
  by (simp_all add: levels_of_def)

lemma run_meter_held:
  assumes "meter_ok m" and "start \<le> snd (channel_peak m i)"
    and "\<forall>f \<in> set fs. start \<le> fst f \<and> fst f \<le> start + hold"
  shows "fst (channel_peak (run_meter hold fall fs m) i) = fold max (levels_of i fs) (fst (channel_peak m i))"
  using assms
proof (induction fs arbitrary: m)
  case (Cons f fs)
  let ?m = "meter_frame hold fall (fst f) (snd f) m"
  have f: "start \<le> fst f" "fst f \<le> start + hold" using Cons.prems(3) by auto
  have ch: "fst (channel_peak ?m i) = (if i < length (snd f) then max (snd f ! i) (fst (channel_peak m i)) else fst (channel_peak m i))"
    and at: "start \<le> snd (channel_peak ?m i)"
    using f Cons.prems(2) by (auto simp: meter_frame_channel[OF Cons.prems(1)] hold_step_def max_def)
  have "fst (channel_peak (run_meter hold fall fs ?m) i) = fold max (levels_of i fs) (fst (channel_peak ?m i))"
    by (rule Cons.IH[OF meter_frame_ok(1)[OF Cons.prems(1)] at]) (use Cons.prems(3) in auto)
  then show ?case by (simp add: ch)
qed simp

lemma run_meter_range:
  assumes "meter_ok m" and "0 \<le> fst (channel_peak m i) \<and> fst (channel_peak m i) \<le> 1" and "0 \<le> fall"
    and "\<forall>f \<in> set fs. \<forall>l \<in> set (snd f). l \<le> 1"
  shows "0 \<le> fst (channel_peak (run_meter hold fall fs m) i) \<and> fst (channel_peak (run_meter hold fall fs m) i) \<le> 1"
  using assms
proof (induction fs arbitrary: m)
  case (Cons f fs)
  have dt: "0 \<le> frame_dt (last_ts m) (fst f)" by (simp add: frame_dt_def)
  have "0 \<le> fst (hold_step hold fall (fst f) (frame_dt (last_ts m) (fst f)) l p)
      \<and> fst (hold_step hold fall (fst f) (frame_dt (last_ts m) (fst f)) l p) \<le> 1"
    if "l \<le> 1" "0 \<le> fst p \<and> fst p \<le> 1" for l p
    using that mult_nonneg_nonneg[OF Cons.prems(3) dt] by (auto simp: hold_step_def)
  moreover have "i < length (snd f) \<Longrightarrow> snd f ! i \<le> 1" using Cons.prems(4) by simp
  ultimately have now: "0 \<le> fst (channel_peak (meter_frame hold fall (fst f) (snd f) m) i)
      \<and> fst (channel_peak (meter_frame hold fall (fst f) (snd f) m) i) \<le> 1"
    using Cons.prems(2) by (simp add: meter_frame_channel[OF Cons.prems(1)])
  have rest: "\<forall>f \<in> set fs. \<forall>l \<in> set (snd f). l \<le> 1" using Cons.prems(4) by simp
  show ?case using Cons.IH[OF meter_frame_ok(1)[OF Cons.prems(1)] now Cons.prems(3) rest] by simp
qed simp

lemma level_bounds: "0 \<le> audio_level d \<and> audio_level d \<le> 1" "0 \<le> bar_level d \<and> bar_level d \<le> 1"
  by (simp_all add: audio_level_def bar_level_def Let_def split: option.split)

text \<open>The two scripts give one level: what is no finite number counts as the lower bound.\<close>

lemma levels_equal: "audio_level d = bar_level d"
  by (simp add: audio_level_def bar_level_def clamp01_def split: option.split)

abbreviation audio_frames :: "(int \<times> dataset list) list \<Rightarrow> (int \<times> rat list) list" where
  "audio_frames fs \<equiv> map (\<lambda>f. (fst f, map audio_level (snd f))) fs"

lemma run_audio: "fold audio_on_frame fs m = run_meter 1400 (18 / 66) (audio_frames fs) m"
  and run_bars: "fold bars_on_frame fs m = run_meter 1200 (6 / 10) (audio_frames fs) m"
  by (simp_all add: run_meter_def fold_map comp_def audio_on_frame_def[abs_def] bars_on_frame_def[abs_def] levels_equal[abs_def])

text \<open>The frame at which a channel exceeds its peak records the level and the time; while no later one exceeds it
and the hold time is not over, both stay.\<close>

lemma frame_records:
  assumes "meter_ok m" and "i < length levels" and "fst (channel_peak m i) < levels ! i"
  shows "channel_peak (meter_frame hold fall now levels m) i = (levels ! i, now)"
  using assms by (simp add: meter_frame_channel hold_step_def)

lemma run_meter_kept:
  assumes "meter_ok m" and "channel_peak m i = (l, now)"
    and "\<forall>f \<in> set fs. fst f \<le> now + hold" and "\<forall>x \<in> set (levels_of i fs). x \<le> l"
  shows "channel_peak (run_meter hold fall fs m) i = (l, now)"
  using assms
proof (induction fs arbitrary: m)
  case (Cons f fs)
  have "channel_peak (meter_frame hold fall (fst f) (snd f) m) i = (l, now)"
    using Cons.prems by (auto simp: meter_frame_channel hold_step_def split: if_splits)
  then show ?case
    using Cons.IH[OF meter_frame_ok(1)[OF Cons.prems(1)]] Cons.prems(3,4) by (auto split: if_splits)
qed simp

lemma run_meter_last: "meter_ok m \<Longrightarrow> last_ts (run_meter hold fall fs m) = (if fs = [] then last_ts m else fst (last fs))"
  by (induction fs arbitrary: m) (simp_all add: meter_frame_ok)

lemma peak_recorded:
  assumes "meter_ok m" and "i < length levels" and "fst (channel_peak m i) < levels ! i"
    and "\<forall>f \<in> set fs. now \<le> fst f \<and> fst f \<le> now + hold"
  shows "peak_of (run_meter hold fall fs (meter_frame hold fall now levels m)) i = fold max (levels_of i fs) (levels ! i)"
    and "\<lbrakk>\<forall>x \<in> set (levels_of i fs). x \<le> levels ! i; now + hold < t; i < length ls; ls ! i \<le> levels ! i\<rbrakk>
      \<Longrightarrow> peak_of (meter_frame hold fall t ls (run_meter hold fall fs (meter_frame hold fall now levels m))) i
        = max 0 (levels ! i - fall * frame_dt (if fs = [] then now else fst (last fs)) t)"
proof -
  let ?m = "meter_frame hold fall now levels m"
  have ok: "meter_ok ?m" by (rule meter_frame_ok(1)[OF assms(1)])
  have ch: "channel_peak ?m i = (levels ! i, now)" by (rule frame_records[OF assms(1-3)])
  then show "peak_of (run_meter hold fall fs ?m) i = fold max (levels_of i fs) (levels ! i)"
    using run_meter_held[OF ok, of now i fs hold fall] assms(4) by (simp add: peak_of_channel)
  show "peak_of (meter_frame hold fall t ls (run_meter hold fall fs ?m)) i
      = max 0 (levels ! i - fall * frame_dt (if fs = [] then now else fst (last fs)) t)"
    if "\<forall>x \<in> set (levels_of i fs). x \<le> levels ! i" and "now + hold < t" and "i < length ls" and "ls ! i \<le> levels ! i"
  proof -
    have "channel_peak (run_meter hold fall fs ?m) i = (levels ! i, now)"
      using run_meter_kept[OF ok ch _ that(1)] assms(4) by blast
    moreover have "last_ts (run_meter hold fall fs ?m) = (if fs = [] then now else fst (last fs))"
      using run_meter_last[OF ok] meter_frame_ok(3)[OF assms(1)] by simp
    ultimately show ?thesis
      using that(2-4) by (simp add: peak_of_channel meter_frame_channel[OF run_meter_ok[OF ok]] hold_step_def)
  qed
qed

text \<open>C23: A frame in which a channel's level exceeds its peak sets the peak and starts the hold time, 1400 ms in
the audio meter and 1200 ms in the bars.  In frames that are no earlier and no later than that, with any number of
datasets, the peak is the largest level since; and if none of them exceeded it, the first frame behind the
hold time, unless it does, lets the peak fall, by 18/66 or 6/10 of the bar each second since the frame before, and
not below 0.\<close>

theorem peak_holds_maximum:
  assumes "meter_ok m" and "i < length ds" and "peak_of m i < audio_level (ds ! i)" and "\<forall>f \<in> set fs. now \<le> fst f"
  shows "((\<forall>f \<in> set fs. fst f \<le> now + 1400) \<longrightarrow>
      peak_of (fold audio_on_frame fs (audio_on_frame (now, ds) m)) i
        = fold max (levels_of i (audio_frames fs)) (audio_level (ds ! i)))
    \<and> ((\<forall>f \<in> set fs. fst f \<le> now + 1200) \<longrightarrow>
      peak_of (fold bars_on_frame fs (bars_on_frame (now, ds) m)) i
        = fold max (levels_of i (audio_frames fs)) (audio_level (ds ! i)))
    \<and> (\<forall>t ds'. (\<forall>f \<in> set fs. fst f \<le> now + 1400) \<and> (\<forall>x \<in> set (levels_of i (audio_frames fs)). x \<le> audio_level (ds ! i))
        \<and> now + 1400 < t \<and> i < length ds' \<and> audio_level (ds' ! i) \<le> audio_level (ds ! i) \<longrightarrow>
      peak_of (audio_on_frame (t, ds') (fold audio_on_frame fs (audio_on_frame (now, ds) m))) i
        = max 0 (audio_level (ds ! i) - 18 / 66 * frame_dt (if fs = [] then now else fst (last fs)) t))
    \<and> (\<forall>t ds'. (\<forall>f \<in> set fs. fst f \<le> now + 1200) \<and> (\<forall>x \<in> set (levels_of i (audio_frames fs)). x \<le> audio_level (ds ! i))
        \<and> now + 1200 < t \<and> i < length ds' \<and> audio_level (ds' ! i) \<le> audio_level (ds ! i) \<longrightarrow>
      peak_of (bars_on_frame (t, ds') (fold bars_on_frame fs (bars_on_frame (now, ds) m))) i
        = max 0 (audio_level (ds ! i) - 6 / 10 * frame_dt (if fs = [] then now else fst (last fs)) t))"
proof -
  have l: "i < length (map audio_level ds)" "fst (channel_peak m i) < map audio_level ds ! i"
    using assms(2,3) by (simp_all add: peak_of_channel)
  have w: "\<forall>f \<in> set (audio_frames fs). now \<le> fst f \<and> fst f \<le> now + hold" if "\<forall>f \<in> set fs. fst f \<le> now + hold" for hold
    using that assms(4) by simp
  have e: "(if audio_frames fs = [] then now else fst (last (audio_frames fs))) = (if fs = [] then now else fst (last fs))"
    by (simp add: last_map)
  have a: "audio_on_frame (t, xs) n = meter_frame 1400 (18 / 66) t (map audio_level xs) n"
    and b: "bars_on_frame (t, xs) n = meter_frame 1200 (6 / 10) t (map audio_level xs) n" for t xs n
    by (simp_all add: audio_on_frame_def bars_on_frame_def levels_equal[abs_def])
  note r = peak_recorded[OF assms(1) l w, unfolded e]
  show ?thesis
    using r(1)[of 1400 "18 / 66"] r(1)[of 1200 "6 / 10"] r(2)[of 1400 _ "map audio_level _" "18 / 66"]
      r(2)[of 1200 _ "map audio_level _" "6 / 10"] assms(2)
    by (simp add: run_audio run_bars a b)
qed

text \<open>After any sequence of frames with any timestamps the peaks are levels, between 0 and 1, and the peak of
a channel is at most one step of the decay below the level just shown.\<close>

theorem peaks_in_range:
  shows "0 \<le> peak_of (fold audio_on_frame fs meter_start) i" and "peak_of (fold audio_on_frame fs meter_start) i \<le> 1"
    and "0 \<le> peak_of (fold bars_on_frame fs meter_start) i" and "peak_of (fold bars_on_frame fs meter_start) i \<le> 1"
    and "i < length ds \<Longrightarrow> audio_level (ds ! i) - 18 / 66 * frame_dt (last_ts (fold audio_on_frame fs meter_start)) now
      \<le> peak_of (audio_on_frame (now, ds) (fold audio_on_frame fs meter_start)) i"
proof -
  have lv: "\<forall>f \<in> set (audio_frames fs). \<forall>l \<in> set (snd f). l \<le> 1" using level_bounds(1) by auto
  have "channel_peak meter_start i = (0, 0)" by (simp add: channel_peak_def meter_start_def)
  then have "0 \<le> fst (channel_peak meter_start i) \<and> fst (channel_peak meter_start i) \<le> 1" by simp
  note range = run_meter_range[OF meter_start_ok this _ lv]
  show "0 \<le> peak_of (fold audio_on_frame fs meter_start) i" "peak_of (fold audio_on_frame fs meter_start) i \<le> 1"
    "0 \<le> peak_of (fold bars_on_frame fs meter_start) i" "peak_of (fold bars_on_frame fs meter_start) i \<le> 1"
    using range[of "18 / 66"] range[of "6 / 10"] by (simp_all add: run_audio run_bars peak_of_channel)
  show "audio_level (ds ! i) - 18 / 66 * frame_dt (last_ts (fold audio_on_frame fs meter_start)) now
      \<le> peak_of (audio_on_frame (now, ds) (fold audio_on_frame fs meter_start)) i" if "i < length ds"
  proof -
    let ?m = "fold audio_on_frame fs meter_start" and ?dt = "frame_dt (last_ts (fold audio_on_frame fs meter_start)) now"
    have "meter_ok ?m" by (simp add: run_audio run_meter_ok meter_start_ok)
    then have "channel_peak (audio_on_frame (now, ds) ?m) i
        = hold_step 1400 (18 / 66) now ?dt (audio_level (ds ! i)) (channel_peak ?m i)"
      using that by (simp add: audio_on_frame_def meter_frame_channel)
    moreover have "0 \<le> 18 / 66 * ?dt" by (simp add: frame_dt_def)
    ultimately show ?thesis by (auto simp: peak_of_channel hold_step_def max_def)
  qed
qed

section \<open>Lit segments\<close>

text \<open>The rectangles filled by a list of calls, with their colours.\<close>

fun styled_rects :: "string \<Rightarrow> 'c op list \<Rightarrow> (string \<times> 'c \<times> 'c \<times> 'c \<times> 'c) list" where
  "styled_rects s [] = []"
| "styled_rects s (FillStyle t # xs) = styled_rects t xs"
| "styled_rects s (FillRect x y w h # xs) = (s, x, y, w, h) # styled_rects s xs"
| "styled_rects s (_ # xs) = styled_rects s xs"

lemma styled_rects_cells:
  "map fst (styled_rects s (concat (map (\<lambda>i. [FillStyle (c i), FillRect (x i) (y i) (w i) (h i)]) is))) = map c is"
  by (induction "is" arbitrary: s) auto

lemma lit_iff:
  assumes "0 < n"
  shows "segment_t n i \<le> level \<longleftrightarrow> int i < \<lfloor>level * of_nat n + 1 / 2\<rfloor>"
proof -
  have "segment_t n i \<le> level \<longleftrightarrow> of_nat i + 1 / 2 \<le> level * of_nat n"
    using assms by (simp add: segment_t_def pos_divide_le_eq)
  also have "\<dots> \<longleftrightarrow> int i + 1 \<le> \<lfloor>level * of_nat n + 1 / 2\<rfloor>" unfolding le_floor_iff by (simp only: of_int_add of_int_of_nat_eq of_int_1) (rule iffI; linarith)
  finally show ?thesis by linarith
qed

text \<open>The three kinds of bar light the same share of their cells for the same value: of the \<open>n\<close> cells of a
bar (32 in the audio meter, 24 in the bars, 16 in the LED rows) exactly the first \<^verbatim>\<open>Math.round(level * n)\<close>
are lit, in the colour of their zone, and the others are not; comparing the centre of each cell with the
level and counting the cells beforehand come to the same.\<close>

theorem segments_agree:
  shows "map fst (styled_rects s (audio_segments th x y w h (audio_level d))) =
      map (\<lambda>i. if int i < \<lfloor>bar_level d * 32 + 1 / 2\<rfloor> then audio_lit_color th (segment_t 32 i)
               else named th ''widget_border'') [0..<32]"
    and "map fst (styled_rects s (bar_segments th x y w h (bar_level d))) =
      map (\<lambda>i. if int i < \<lfloor>bar_level d * 24 + 1 / 2\<rfloor> then lit_color th (segment_t 24 i)
               else named th ''widget_border'') [0..<24]"
    and "map fst (styled_rects s (led_segments th x y w h d)) =
      map (\<lambda>i. if segment_t 16 i \<le> bar_level d then lit_color th (segment_t 16 i)
               else named th ''widget_border'') [0..<16]"
  using lit_iff[of 32 _ "bar_level d"] lit_iff[of 24 _ "bar_level d"] lit_iff[of 16 _ "bar_level d"]
  by (simp_all del: upt_rec_numeral upt_Suc add: audio_segments_def bar_segments_def led_segments_def Let_def styled_rects_cells
      unlit_color_def led_count_def levels_equal)

section \<open>Concrete frames\<close>

text \<open>A burst of 90 per cent, then 40 per cent while the peak is held, then a frame after the hold time.\<close>

theorem peak_holds_maximum_witness:
  "peak_of (fold audio_on_frame [(1200, [example_dataset 40])] (audio_on_frame (1000, [example_dataset 90]) meter_start)) 0
   = fold max (levels_of 0 (audio_frames [(1200, [example_dataset 40])])) (audio_level (example_dataset 90))"
proof -
  have m: "peak_of meter_start 0 < audio_level ([example_dataset 90] ! 0)" by code_simp
  show ?thesis
    using conjunct1[OF peak_holds_maximum[OF meter_start_ok _ m, of "[(1200, [example_dataset 40])]" 1000]] by simp
qed

theorem peaks_in_range_witness:
  "audio_level (example_dataset 50) - 18 / 66 * frame_dt 1 2001
     \<le> peak_of (audio_on_frame (2001, [example_dataset 50]) (fold audio_on_frame [(1, [example_dataset 50])] meter_start)) 0
   \<and> peak_of (audio_on_frame (2001, [example_dataset 50]) (fold audio_on_frame [(1, [example_dataset 50])] meter_start)) 0
     < audio_level (example_dataset 50)"
proof -
  have ts: "last_ts (fold audio_on_frame [(1, [example_dataset 50])] meter_start) = 1" by code_simp
  have below: "peak_of (audio_on_frame (2001, [example_dataset 50]) (fold audio_on_frame [(1, [example_dataset 50])] meter_start)) 0
     < audio_level (example_dataset 50)" by code_simp
  show ?thesis
    using peaks_in_range(5)[of 0 "[example_dataset 50]" "[(1, [example_dataset 50])]" 2001] below unfolding ts by simp
qed

end
