(* ===== verification/Painter_Displays.thy ===== *)
theory Painter_Displays
  imports Painter_Meters
begin

text \<open>
  The painter scripts that show values as colours, texts and positions: \<^verbatim>\<open>heatmap.js\<close> (the last rows of
  values as colours), \<^verbatim>\<open>status_grid.js\<close>, \<^verbatim>\<open>segment_display.js\<close> and \<^verbatim>\<open>default_template.js\<close>.

  \<^item> \<open>heat_map_colours\<close>: the colours of the map are bytes and order the values.
  \<^item> \<open>readout_determines_value\<close>: the lit segments determine the number shown.
  \<^item> \<open>status_of_cases\<close>: the tag of a card says where the value lies between the alarm limits.
  \<^item> \<open>template_dot_inside\<close>: the dot of the template is in its plot.
\<close>

section \<open>Heat map\<close>

record heat =
  heat_rows :: "rat list list"
  last_lo :: rat
  last_hi :: rat

definition heat_start :: heat where
  "heat_start = \<lparr>heat_rows = [], last_lo = 0, last_hi = 1\<rparr>"

definition heat_range :: "dataset list \<Rightarrow> rat \<times> rat" where
  "heat_range ds = (if highest ds \<le> lowest ds then (0, 1) else (lowest ds, highest ds))"

definition heat_row :: "dataset list \<Rightarrow> rat list" where
  "heat_row ds = (let (lo, hi) = heat_range ds in
     map (\<lambda>d. case finite_value (ds_value d) of Some v \<Rightarrow> clamp01 ((v - lo) / (hi - lo)) | None \<Rightarrow> 0) ds)"

definition heat_on_frame :: "dataset list \<Rightarrow> heat \<Rightarrow> heat" where
  "heat_on_frame ds st =
     (if ds = [] then st
      else \<lparr>heat_rows = push_sample 120 (Some (heat_row ds)) (heat_rows st),
            last_lo = fst (heat_range ds), last_hi = snd (heat_range ds)\<rparr>)"

definition viridis_stops :: "(rat \<times> rat \<times> rat \<times> rat) list" where
  "viridis_stops = [(0, 68, 1, 84), (1 / 4, 59, 82, 139), (1 / 2, 33, 145, 140), (3 / 4, 94, 201, 98), (1, 253, 231, 37)]"

text \<open>The colour between the two stops around \<open>t\<close>, as whole numbers; a cell that is not there (a row from a
frame with fewer datasets) compares as NaN and gets the last colour.\<close>

fun viridis_from :: "rat \<Rightarrow> (rat \<times> rat \<times> rat \<times> rat) list \<Rightarrow> (int \<times> int \<times> int) option" where
  "viridis_from t ((a0, a1, a2, a3) # (b0, b1, b2, b3) # rest) =
     (if t \<le> b0 then
        (let k = (t - a0) / (b0 - a0)
         in Some (int_operand (Num (a1 + (b1 - a1) * k)), int_operand (Num (a2 + (b2 - a2) * k)),
                  int_operand (Num (a3 + (b3 - a3) * k))))
      else viridis_from t ((b0, b1, b2, b3) # rest))"
| "viridis_from t _ = None"

definition viridis_rgb :: "rat option \<Rightarrow> int \<times> int \<times> int" where
  "viridis_rgb t = (case t of None \<Rightarrow> (253, 231, 37)
     | Some t \<Rightarrow> (case viridis_from t viridis_stops of Some c \<Rightarrow> c | None \<Rightarrow> (253, 231, 37)))"

definition int_digits :: "int \<Rightarrow> string" where
  "int_digits n = (if n < 0 then ''-'' else []) @ nat_digits (nat \<bar>n\<bar>)"

definition viridis :: "rat option \<Rightarrow> string" where
  "viridis t = (let (r, g, b) = viridis_rgb t in
     ''rgb('' @ int_digits r @ '', '' @ int_digits g @ '', '' @ int_digits b @ '')'')"

definition cell_at :: "rat list \<Rightarrow> nat \<Rightarrow> rat option" where
  "cell_at row c = (if c < length row then Some (row ! c) else None)"

definition heat_paint :: "(jsval \<Rightarrow> string) \<Rightarrow> theme \<Rightarrow> dataset list \<Rightarrow> heat \<Rightarrow> rat \<Rightarrow> rat \<Rightarrow> rat op list" where
  "heat_paint numstr th ds st w h =
     background th w h
     @ header_strip th w ''HEATMAP'' (nat_digits (length ds) @ '' channels  /  viridis'')
     @ (if heat_rows st = [] \<or> ds = [] then []
        else (let cardX = 14; cardY = 30; cardW = w - 14 * 2; cardH = h - 30 - 30; scaleW = 22; scaleGap = 8;
                  plotX = cardX + 1; plotY = cardY + 1; plotW = cardW - scaleW - scaleGap - 2; plotH = cardH - 2;
                  cellW = plotW / 120; cellH = plotH / of_nat (length ds);
                  scaleX = plotX + plotW + scaleGap; segH = plotH / 32
          in [FillKey th ''widget_border'', FillRect (cardX + 1) (cardY + 2) cardW cardH,
              FillKey th ''widget_base'', FillRect cardX cardY cardW cardH]
             @ concat (map (\<lambda>r. concat (map (\<lambda>c.
                 [FillStyle (viridis (cell_at (heat_rows st ! r) c)),
                  FillRect (plotX + of_nat r * cellW) (plotY + of_nat c * cellH) (cellW + 1) (cellH + 1)]) [0..<length ds]))
                 [0..<length (heat_rows st)])
             @ outline th cardX cardY cardW cardH
             @ [FillKey th ''widget_border'', FillRect (plotX + plotW) plotY 1 plotH]
             @ concat (map (\<lambda>i. [FillStyle (viridis (Some (1 - segment_t 32 i))),
                 FillRect scaleX (plotY + of_nat i * segH) scaleW (segH + 1)]) [0..<32])
             @ outline th scaleX plotY scaleW plotH
             @ [FillKey th ''widget_text'', Font ''9px sans-serif'', TextAlign ''start'', TextBaseline ''alphabetic'',
                FillText (to_fixed numstr 2 (Num (last_hi st))) (scaleX + scaleW + 4) (plotY + 8),
                FillText (to_fixed numstr 2 (Num (last_lo st))) (scaleX + scaleW + 4) (plotY + plotH - 2),
                FillKey th ''placeholder_text'', Font ''9px sans-serif'', TextAlign ''start'',
                FillText ''oldest'' plotX (h - 30 + 14), TextAlign ''end'',
                FillText ''newest'' (plotX + plotW) (h - 30 + 14), TextAlign ''start'']))"

section \<open>Status grid\<close>

datatype status_tag = NoData | Alarm | Warn | Ok | Info

definition status_of :: "dataset \<Rightarrow> status_tag" where
  "status_of d = (case finite_value (ds_value d) of
       None \<Rightarrow> NoData
     | Some v \<Rightarrow> (case (finite_value (ds_alarmLow d), finite_value (ds_alarmHigh d)) of
         (Some lo, Some hi) \<Rightarrow>
           (if hi > lo then
              (if v < lo \<or> v > hi then Alarm
               else (let pad = (hi - lo) * (10 / 100) in if v < lo + pad \<or> v > hi - pad then Warn else Ok))
            else Info)
       | _ \<Rightarrow> Info))"

fun tag_text :: "status_tag \<Rightarrow> string" where
  "tag_text NoData = ''no-data''"
| "tag_text Alarm = ''alarm''"
| "tag_text Warn = ''warn''"
| "tag_text Ok = ''ok''"
| "tag_text Info = ''info''"

fun tag_color :: "theme \<Rightarrow> status_tag \<Rightarrow> string" where
  "tag_color th NoData = named th ''placeholder_text''"
| "tag_color th Alarm = named th ''alarm''"
| "tag_color th Warn = named th ''accent''"
| "tag_color th _ = named th ''widget_highlight''"

text \<open>\<^verbatim>\<open>group.columns || ...\<close>; the root is that of a widget higher than its header.\<close>

definition status_columns :: "nat \<Rightarrow> nat \<Rightarrow> rat \<Rightarrow> rat \<Rightarrow> nat" where
  "status_columns columns n w h =
     max 1 (if columns \<noteq> 0 then columns else min n (max 1 (round_sqrt (of_nat n * w / (h - 22)))))"

definition status_cell :: "nat \<Rightarrow> nat \<Rightarrow> rat \<Rightarrow> rat \<Rightarrow> nat \<Rightarrow> rat box" where
  "status_cell columns n w h i =
     (let cols = status_columns columns n w h; rows = ceil_div n cols
      in grid_cell 14 (22 + 6) 14 8 cols rows w h i)"

definition status_card ::
  "(jsval \<Rightarrow> string) \<Rightarrow> (string \<Rightarrow> string \<Rightarrow> rat) \<Rightarrow> theme \<Rightarrow> dataset \<Rightarrow> rat box \<Rightarrow> rat op list" where
  "status_card numstr textw th d b =
     (let x = box_x b; y = box_y b; cellW = box_w b; cellH = box_h b; pillW = 38; pillH = 14;
          color = tag_color th (status_of d); val = value_text numstr 2 d in
      card th x y cellW cellH
      @ [FillStyle color, FillRect x y 4 cellH,
         FillStyle color, FillRect (x + cellW - pillW - 6) (y + 6) pillW pillH,
         FillKey th ''highlighted_text'', Font ''bold 9px sans-serif'', TextAlign ''center'', TextBaseline ''middle'',
         FillText (map upper (tag_text (status_of d))) (x + cellW - pillW * (1 / 2) - 6) (y + 6 + pillH * (1 / 2)),
         FillKey th ''placeholder_text'', Font ''10px sans-serif'', TextAlign ''start'', TextBaseline ''alphabetic'',
         FillText (take 28 (ds_title d)) (x + 12) (y + 24),
         FillKey th ''widget_text'', Font ''bold 18px sans-serif'', FillText val (x + 12) (y + 50)]
      @ (if ds_units d = [] then []
         else [FillKey th ''placeholder_text'', Font ''10px sans-serif'',
               FillText (ds_units d) (x + 12 + textw ''bold 18px sans-serif'' val + 6) (y + 50)]))"

definition status_paint ::
  "(jsval \<Rightarrow> string) \<Rightarrow> (string \<Rightarrow> string \<Rightarrow> rat) \<Rightarrow> theme \<Rightarrow> nat \<Rightarrow> dataset list \<Rightarrow> rat \<Rightarrow> rat \<Rightarrow> rat op list" where
  "status_paint numstr textw th columns ds w h =
     background th w h
     @ (if ds = [] then []
        else [FillKey th ''widget_text'', Font ''bold 11px sans-serif'', TextAlign ''start'', FillText ''STATUS  GRID'' 14 16,
              FillKey th ''placeholder_text'', Font ''10px sans-serif'', TextAlign ''end'',
              FillText (nat_digits (length ds) @ '' channels'') (w - 14) 16,
              FillKey th ''widget_border'', FillRect 14 20 (w - 28) 1]
          @ concat (map (\<lambda>i. status_card numstr textw th (ds ! i) (status_cell columns (length ds) w h i)) [0..<length ds])
          @ [TextAlign ''start'', TextBaseline ''alphabetic''])"

section \<open>Seven-segment display\<close>

text \<open>The segments a to g of a character; what has no entry is drawn as a blank.\<close>

definition segments_of :: "char \<Rightarrow> bool list option" where
  "segments_of c = map_of
     [(CHR ''0'', [True, True, True, True, True, True, False]),
      (CHR ''1'', [False, True, True, False, False, False, False]),
      (CHR ''2'', [True, True, False, True, True, False, True]),
      (CHR ''3'', [True, True, True, True, False, False, True]),
      (CHR ''4'', [False, True, True, False, False, True, True]),
      (CHR ''5'', [True, False, True, True, False, True, True]),
      (CHR ''6'', [True, False, True, True, True, True, True]),
      (CHR ''7'', [True, True, True, False, False, False, False]),
      (CHR ''8'', [True, True, True, True, True, True, True]),
      (CHR ''9'', [True, True, True, True, False, True, True]),
      (CHR ''-'', [False, False, False, False, False, False, True]),
      (CHR '' '', [False, False, False, False, False, False, False])] c"

definition lit_segments :: "char \<Rightarrow> bool list" where
  "lit_segments c = (case segments_of c of Some s \<Rightarrow> s | None \<Rightarrow> replicate 7 False)"

definition draw_digit :: "theme \<Rightarrow> rat \<Rightarrow> rat \<Rightarrow> rat \<Rightarrow> rat \<Rightarrow> char \<Rightarrow> rat op list" where
  "draw_digit th x y w h ch =
     (let segs = lit_segments ch; t = max 2 (h * (10 / 100));
          bar = (\<lambda>on px py pw ph. [FillStyle (if on then named th ''widget_text'' else named th ''widget_border''),
                                  FillRect px py pw ph])
      in bar (segs ! 0) (x + t) y (w - 2 * t) t
         @ bar (segs ! 1) (x + w - t) (y + t) t (h * (1 / 2) - t * (15 / 10))
         @ bar (segs ! 2) (x + w - t) (y + h * (1 / 2) + t * (1 / 2)) t (h * (1 / 2) - t * (15 / 10))
         @ bar (segs ! 3) (x + t) (y + h - t) (w - 2 * t) t
         @ bar (segs ! 4) x (y + h * (1 / 2) + t * (1 / 2)) t (h * (1 / 2) - t * (15 / 10))
         @ bar (segs ! 5) x (y + t) t (h * (1 / 2) - t * (15 / 10))
         @ bar (segs ! 6) (x + t) (y + h * (1 / 2) - t * (1 / 2)) (w - 2 * t) t)"

definition pad_left :: "nat \<Rightarrow> string \<Rightarrow> string" where
  "pad_left n s = replicate (n - length s) (CHR '' '') @ s"

text \<open>The text of a row, and the strip of digits from \<open>cx\<close> on.\<close>

definition readout_text :: "(jsval \<Rightarrow> string) \<Rightarrow> dataset \<Rightarrow> string" where
  "readout_text numstr d = pad_left 6 (to_fixed numstr 1 (Num (case finite_value (ds_value d) of Some v \<Rightarrow> v | None \<Rightarrow> 0)))"

fun draw_digits :: "theme \<Rightarrow> rat \<Rightarrow> rat \<Rightarrow> rat \<Rightarrow> rat \<Rightarrow> string \<Rightarrow> rat op list" where
  "draw_digits th dw dh y cx [] = []"
| "draw_digits th dw dh y cx (c # cs) =
     (if c = CHR ''.'' then
        [FillKey th ''widget_text'',
         FillRect (cx - dw * (10 / 100)) (y + dh - dw * (18 / 100)) (dw * (18 / 100)) (dw * (18 / 100))]
        @ draw_digits th dw dh y cx cs
      else draw_digit th cx y dw dh c @ draw_digits th dw dh y (cx + (dw + dw * (20 / 100))) cs)"

definition segment_row :: "(jsval \<Rightarrow> string) \<Rightarrow> theme \<Rightarrow> rat \<Rightarrow> rat \<Rightarrow> nat \<Rightarrow> dataset \<Rightarrow> rat op list" where
  "segment_row numstr th w rowH i d =
     (let padX = 14; y0 = 32 + of_nat i * (rowH + 8); s = readout_text numstr d;
          dh = max 12 (rowH - 22); dw = dh * (55 / 100); dgap = dw * (20 / 100);
          totalW = of_nat (length s) * (dw + dgap); xT = padX + (w - padX * 2 - totalW) * (1 / 2); yT = y0 + 16
      in card th padX y0 (w - padX * 2) rowH
         @ [FillKey th ''widget_text'', Font ''bold 9px sans-serif'', TextAlign ''start'', TextBaseline ''alphabetic'',
            FillText (map upper (or_text (ds_title d) (''CH '' @ nat_digits (i + 1)))) (padX + 8) (y0 + 12)]
         @ (if ds_units d = [] then []
            else [FillKey th ''placeholder_text'', Font ''9px sans-serif'', TextAlign ''end'',
                  FillText (ds_units d) (w - padX - 8) (y0 + 12)])
         @ draw_digits th dw dh yT xT s)"

definition segment_paint :: "(jsval \<Rightarrow> string) \<Rightarrow> theme \<Rightarrow> dataset list \<Rightarrow> rat \<Rightarrow> rat \<Rightarrow> rat op list" where
  "segment_paint numstr th ds w h =
     background th w h
     @ (if ds = [] then []
        else header_strip th w ''7-SEGMENT  READOUT'' (plural (length ds) ''channel'')
          @ (let rowH = (h - 32 - 14 - 8 * (of_nat (length ds) - 1)) / of_nat (length ds) in
             concat (map (\<lambda>i. segment_row numstr th w rowH i (ds ! i)) [0..<length ds]))
          @ [TextBaseline ''alphabetic'', TextAlign ''start''])"

section \<open>Default template\<close>

definition norm01 :: "jsval \<Rightarrow> rat \<Rightarrow> rat \<Rightarrow> rat" where
  "norm01 v lo hi = (case finite_value v of
       None \<Rightarrow> 1 / 2 | Some q \<Rightarrow> if hi \<le> lo then 1 / 2 else clamp01 ((q - lo) / (hi - lo)))"

definition axis_label :: "dataset \<Rightarrow> string" where
  "axis_label d = ds_title d @ (if ds_units d = [] then [] else '' ('' @ ds_units d @ '')'')"

definition stat_card :: "theme \<Rightarrow> rat \<Rightarrow> rat \<Rightarrow> rat \<Rightarrow> nat \<Rightarrow> string \<Rightarrow> string \<Rightarrow> string \<Rightarrow> rat op list" where
  "stat_card th panelX panelY cardW i tag val color =
     (let cardH = 30; y = panelY + of_nat i * (cardH + 6) in
      card th panelX y cardW cardH
      @ [FillStyle color, FillRect panelX y 3 cardH,
         FillKey th ''placeholder_text'', Font ''bold 9px sans-serif'', TextAlign ''start'',
         FillText tag (panelX + 8) (y + 12),
         FillKey th ''widget_text'', Font ''bold 13px sans-serif'', FillText val (panelX + 8) (y + 25)])"

text \<open>The level of Z and its text: half a level and dashes without a finite Z.\<close>

definition z_level :: "(jsval \<Rightarrow> string) \<Rightarrow> dataset list \<Rightarrow> rat \<times> string" where
  "z_level numstr ds =
     (if length ds \<ge> 3 \<and> finite_value (ds_value (ds ! 2)) \<noteq> None
      then (let d = ds ! 2 in (norm01 (ds_value d) (ds_min d) (ds_max d), value_text numstr 2 d @ units_suffix d))
      else (1 / 2, ''--''))"

definition dot_color :: "theme \<Rightarrow> rat \<Rightarrow> string" where
  "dot_color th nz = (if nz > 85 / 100 then named th ''alarm'' else if nz > 66 / 100 then named th ''accent''
     else if nz < 20 / 100 then widget_colors th ! 5 else named th ''widget_highlight'')"

text \<open>The plot area and the place of the dot in it.\<close>

definition template_plot :: "rat \<Rightarrow> rat \<Rightarrow> rat box" where
  "template_plot w h = \<lparr>box_x = 50, box_y = 38, box_w = max 1 (w - 50 - 132), box_h = max 1 (h - 38 - 38)\<rparr>"

definition template_dot :: "dataset \<Rightarrow> dataset \<Rightarrow> rat box \<Rightarrow> rat \<times> rat" where
  "template_dot dx dy b =
     (box_x b + norm01 (ds_value dx) (ds_min dx) (ds_max dx) * box_w b,
      box_y b + (1 - norm01 (ds_value dy) (ds_min dy) (ds_max dy)) * box_h b)"

definition template_grid :: "theme \<Rightarrow> rat box \<Rightarrow> rat \<Rightarrow> rat \<Rightarrow> rat op list" where
  "template_grid th b cx cy =
     [StrokeKey th ''widget_border'', BeginPath, MoveTo (box_x b) cy, LineTo (box_x b + box_w b) cy,
      MoveTo cx (box_y b), LineTo cx (box_y b + box_h b), Stroke, StrokeKey th ''widget_border'']
     @ concat (map (\<lambda>i. let x = box_x b + (box_w b / 4) * of_nat i; y = box_y b + (box_h b / 4) * of_nat i in
         if i = 2 then []
         else segment x (box_y b) x (box_y b + box_h b) @ segment (box_x b) y (box_x b + box_w b) y) [1..<4])"

definition template_marker :: "theme \<Rightarrow> rat box \<Rightarrow> rat \<Rightarrow> rat \<Rightarrow> rat \<Rightarrow> string \<Rightarrow> rat op list" where
  "template_marker th b px py dotR color =
     [StrokeKey th ''widget_border'', LineWidth 1, BeginPath, MoveTo (box_x b) py, LineTo px py,
      MoveTo px (box_y b + box_h b), LineTo px py, Stroke]
     @ [FillKey th ''widget_border''] @ disc px py (dotR * (22 / 10))
     @ [FillStyle color] @ disc px py dotR
     @ [StrokeKey th ''widget_base'', LineWidth 2] @ ring px py dotR
     @ [FillKey th ''widget_text''] @ disc px py 2"

definition template_paint ::
  "(jsval \<Rightarrow> string) \<Rightarrow> theme \<Rightarrow> string \<Rightarrow> dataset list \<Rightarrow> rat \<Rightarrow> rat \<Rightarrow> rat op list" where
  "template_paint numstr th title ds w h =
     background th w h @ header_strip th w (map upper (or_text title ''PAINTER'')) ''XY  /  Z''
     @ (if length ds < 2 then
          [FillKey th ''placeholder_text'', Font ''12px sans-serif'', TextAlign ''center'',
           FillText ''Add at least 2 datasets (X, Y) to see the indicator.'' (w / 2) (h / 2)]
        else (let dx = ds ! 0; dy = ds ! 1; b = template_plot w h;
                  cx = box_x b + box_w b * (1 / 2); cy = box_y b + box_h b * (1 / 2);
                  (px, py) = template_dot dx dy b; (nz, zText) = z_level numstr ds; color = dot_color th nz;
                  panelX = box_x b + box_w b + 14; panelY = box_y b; cardW = w - panelX - 14
          in card th (box_x b) (box_y b) (box_w b) (box_h b)
             @ template_grid th b cx cy
             @ template_marker th b px py (6 + nz * 12) color
             @ [FillKey th ''widget_text'', Font ''10px sans-serif'', TextAlign ''center'', TextBaseline ''top'',
                FillText (axis_label dx) cx (box_y b + box_h b + 8),
                Saved [Translate (box_x b - 28) cy, Rotate (- (1 / 2)), TextAlign ''center'', TextBaseline ''middle'',
                       FillText (axis_label dy) 0 0],
                TextAlign ''start'', TextBaseline ''alphabetic'']
             @ stat_card th panelX panelY cardW 0 ''X'' (value_text numstr 2 dx @ units_suffix dx) (widget_colors th ! 0)
             @ stat_card th panelX panelY cardW 1 ''Y'' (value_text numstr 2 dy @ units_suffix dy) (widget_colors th ! 1)
             @ (if length ds \<ge> 3 then stat_card th panelX panelY cardW 2 ''Z'' zText color else [])))"

section \<open>Contracts\<close>

lemmas template_defs = template_paint_def template_grid_def template_marker_def stat_card_def

interpretation heat: painter_script cap "\<lambda>(ds, st, w, h). heat_paint numstr th ds st w h"
proof (unfold_locales, goal_cases)
  case (1 i) show ?case by (cases i) (simp add: heat_paint_def Let_def rest_attrs_def)
next
  case (2 i) show ?case by (cases i) (simp add: rests_def heat_paint_def Let_def)
qed

interpretation status: painter_script cap "\<lambda>(ds, w, h). status_paint numstr textw th columns ds w h"
proof (unfold_locales, goal_cases)
  case (1 i) show ?case by (cases i) (simp add: status_paint_def status_card_def Let_def rest_attrs_def)
next
  case (2 i) show ?case by (cases i) (simp add: rests_def status_paint_def status_card_def Let_def)
qed

lemma draw_digits_inert [simp]:
  "AAlpha \<in> A \<Longrightarrow> inits A (draw_digits th dw dh y cx cs)"
  "last_set sets_baseline (draw_digits th dw dh y cx cs) = None"
  "last_set sets_cap (draw_digits th dw dh y cx cs) = None"
  "last_set sets_alpha (draw_digits th dw dh y cx cs) = None"
  "arcs_ok east prev (draw_digits th dw dh y cx cs)"
  by (induction th dw dh y cx cs arbitrary: A prev rule: draw_digits.induct) (simp_all add: draw_digit_def Let_def)

interpretation seven_segment: painter_script cap "\<lambda>(ds, w, h). segment_paint numstr th ds w h"
proof (unfold_locales, goal_cases)
  case (1 i) show ?case by (cases i) (simp add: segment_paint_def segment_row_def Let_def rest_attrs_def)
next
  case (2 i) show ?case by (cases i) (simp add: rests_def segment_paint_def segment_row_def Let_def)
qed

interpretation template: painter_script cap "\<lambda>(ds, w, h). template_paint numstr th title ds w h"
proof (unfold_locales, goal_cases)
  case (1 i) show ?case by (cases i) (simp add: template_defs Let_def rest_attrs_def case_prod_beta)
next
  case (2 i) show ?case by (cases i) (simp add: rests_def template_defs Let_def case_prod_beta)
qed

lemma template_arcs: "arcs_ok east None (template_paint numstr th title ds w h)"
  by (simp add: template_defs Let_def case_prod_beta east_def)

section \<open>Colours of the heat map\<close>

fun green :: "int \<times> int \<times> int \<Rightarrow> int" where
  "green (r, g, b) = g"

fun is_rgb :: "int \<times> int \<times> int \<Rightarrow> bool" where
  "is_rgb (r, g, b) = (0 \<le> r \<and> r < 256 \<and> 0 \<le> g \<and> g < 256 \<and> 0 \<le> b \<and> b < 256)"

text \<open>The green component as a piecewise linear function.\<close>

definition green_at :: "rat \<Rightarrow> rat" where
  "green_at t = (if t \<le> 1 / 4 then 1 + 324 * t else if t \<le> 1 / 2 then 82 + 252 * (t - 1 / 4)
     else if t \<le> 3 / 4 then 145 + 224 * (t - 1 / 2) else 201 + 120 * (t - 3 / 4))"

lemma int_operand_nonneg: "0 \<le> q \<Longrightarrow> int_operand (Num q) = \<lfloor>q\<rfloor>"
  by (simp add: int_operand_def)

lemma viridis_green:
  assumes "0 \<le> t" and "t \<le> 1"
  shows "green (viridis_rgb (Some t)) = \<lfloor>green_at t\<rfloor>"
proof -
  have "0 \<le> green_at t" using assms by (simp add: green_at_def)
  then have "int_operand (Num (green_at t)) = \<lfloor>green_at t\<rfloor>" by (rule int_operand_nonneg)
  moreover have "green (viridis_rgb (Some t)) = int_operand (Num (green_at t))"
    using assms by (simp add: viridis_rgb_def viridis_stops_def green_at_def)
  ultimately show ?thesis by simp
qed

lemma green_at_mono: "t \<le> u \<Longrightarrow> green_at t \<le> green_at u"
  by (simp add: green_at_def split: if_splits)

lemma int_operand_byte: "0 \<le> q \<Longrightarrow> q < 256 \<Longrightarrow> 0 \<le> int_operand (Num q) \<and> int_operand (Num q) < 256"
  by (simp add: int_operand_nonneg floor_less_iff)

lemma viridis_is_rgb: "0 \<le> t \<Longrightarrow> is_rgb (viridis_rgb (Some t))"
proof -
  assume t: "0 \<le> t"
  have lin: "0 \<le> int_operand (Num (a + b * t)) \<and> int_operand (Num (a + b * t)) < 256"
    if "0 \<le> a + b * t" "a + b * t < 256" for a b
    using that by (rule int_operand_byte)
  show ?thesis
    using t lin[of 68 "- 36"] lin[of 1 324] lin[of 84 220] lin[of 85 "- 104"] lin[of 19 252] lin[of 138 4]
    lin[of "- 89" 244] lin[of 33 224] lin[of 224 "- 168"] lin[of "-383" 636] lin[of 111 120] lin[of 281 "- 244"]
    by (simp add: viridis_rgb_def viridis_stops_def mult.commute[of t 4])
qed

lemma heat_range_ordered: "fst (heat_range ds) < snd (heat_range ds)"
  by (simp add: heat_range_def)

lemma heat_row_cell:
  assumes "i < length ds"
  shows "cell_at (heat_row ds) i = Some (case finite_value (ds_value (ds ! i)) of
      Some v \<Rightarrow> clamp01 ((v - fst (heat_range ds)) / (snd (heat_range ds) - fst (heat_range ds))) | None \<Rightarrow> 0)"
  using assms by (simp add: cell_at_def heat_row_def Let_def case_prod_beta)

lemma heat_rows_run:
  "heat_rows (fold heat_on_frame fs heat_start) = take_last 120 (map heat_row (filter (\<lambda>ds. ds \<noteq> []) fs))"
proof (induction fs rule: rev_induct)
  case (snoc ds fs)
  then show ?case
    using push_sample_take_last[of 120 "Some (heat_row ds)" "map heat_row (filter (\<lambda>ds. ds \<noteq> []) fs)"]
    by (simp add: heat_on_frame_def)
qed (simp add: heat_start_def)

text \<open>After any sequence of frames the map holds one row for each of the last 120 frames that had datasets; every
cell of a row is drawn in a colour whose components are bytes; and within a frame the colours order the
values: the green component never falls from a value to a larger one, whatever the common range.\<close>

theorem heat_map_colours:
  shows "heat_rows (fold heat_on_frame fs heat_start) = take_last 120 (map heat_row (filter (\<lambda>ds. ds \<noteq> []) fs))"
    and "is_rgb (viridis_rgb (cell_at (heat_row ds) c))"
    and "i < length ds \<Longrightarrow> j < length ds \<Longrightarrow> ds_value (ds ! i) = Num v \<Longrightarrow> ds_value (ds ! j) = Num u \<Longrightarrow> v \<le> u
      \<Longrightarrow> green (viridis_rgb (cell_at (heat_row ds) i)) \<le> green (viridis_rgb (cell_at (heat_row ds) j))"
proof -
  show "heat_rows (fold heat_on_frame fs heat_start) = take_last 120 (map heat_row (filter (\<lambda>ds. ds \<noteq> []) fs))"
    by (rule heat_rows_run)
  show "is_rgb (viridis_rgb (cell_at (heat_row ds) c))"
  proof (cases "c < length ds")
    case True
    then show ?thesis by (auto simp: heat_row_cell intro!: viridis_is_rgb split: option.splits)
  next
    case False
    then have "cell_at (heat_row ds) c = None" by (simp add: cell_at_def heat_row_def Let_def case_prod_beta)
    then show ?thesis by (simp add: viridis_rgb_def)
  qed
  assume a: "i < length ds" "j < length ds" "ds_value (ds ! i) = Num v" "ds_value (ds ! j) = Num u" "v \<le> u"
  define pos where "pos q = clamp01 ((q - fst (heat_range ds)) / (snd (heat_range ds) - fst (heat_range ds)))" for q
  have "pos v \<le> pos u"
    using a(5) heat_range_ordered[of ds] unfolding pos_def clamp01_def
    by (intro max.mono min.mono order_refl divide_right_mono) simp_all
  then have "green_at (pos v) \<le> green_at (pos u)" by (rule green_at_mono)
  then have "\<lfloor>green_at (pos v)\<rfloor> \<le> \<lfloor>green_at (pos u)\<rfloor>" by (rule floor_mono)
  moreover have "0 \<le> pos q" "pos q \<le> 1" for q by (simp_all add: pos_def)
  ultimately show "green (viridis_rgb (cell_at (heat_row ds) i)) \<le> green (viridis_rgb (cell_at (heat_row ds) j))"
    using a by (simp add: heat_row_cell viridis_green flip: pos_def)
qed

section \<open>Reading the display\<close>

definition shown :: "char set" where
  "shown = set ''0123456789- ''"

lemma lit_segments_inj: "c \<in> shown \<Longrightarrow> d \<in> shown \<Longrightarrow> lit_segments c = lit_segments d \<Longrightarrow> c = d"
proof -
  have "list_all (\<lambda>c. list_all (\<lambda>d. lit_segments c = lit_segments d \<longrightarrow> c = d) ''0123456789- '') ''0123456789- ''"
    by code_simp
  then show "c \<in> shown \<Longrightarrow> d \<in> shown \<Longrightarrow> lit_segments c = lit_segments d \<Longrightarrow> c = d"
    unfolding shown_def list_all_iff by blast
qed

lemma length_lit_segments: "c \<in> shown \<Longrightarrow> length (lit_segments c) = 7"
proof -
  have "list_all (\<lambda>c. length (lit_segments c) = 7) ''0123456789- ''" by code_simp
  then show "c \<in> shown \<Longrightarrow> length (lit_segments c) = 7" unfolding shown_def list_all_iff by blast
qed

lemma list7_eqI:
  assumes "length xs = 7" "length ys = 7" "xs ! 0 = ys ! 0" "xs ! 1 = ys ! 1" "xs ! 2 = ys ! 2" "xs ! 3 = ys ! 3"
    "xs ! 4 = ys ! 4" "xs ! 5 = ys ! 5" "xs ! 6 = ys ! 6"
  shows "xs = ys"
proof (rule nth_equalityI)
  fix i assume "i < length xs"
  then have "i = 0 \<or> i = 1 \<or> i = 2 \<or> i = 3 \<or> i = 4 \<or> i = 5 \<or> i = 6" using assms(1) by linarith
  then show "xs ! i = ys ! i" using assms(3-9) by blast
qed (use assms(1,2) in simp)

lemma draw_digit_inj:
  assumes "draw_digit th x y w h c = draw_digit th x y w h d" and "named th ''widget_text'' \<noteq> named th ''widget_border''"
    and "c \<in> shown" and "d \<in> shown"
  shows "c = d"
proof -
  have style: "p \<longleftrightarrow> q" if "(if p then named th ''widget_text'' else named th ''widget_border'')
      = (if q then named th ''widget_text'' else named th ''widget_border'')" for p q
    using that assms(2) by (auto split: if_splits)
  have "lit_segments c = lit_segments d"
    by (rule list7_eqI[OF length_lit_segments[OF assms(3)] length_lit_segments[OF assms(4)]])
      (use assms(1) in \<open>simp only: draw_digit_def Let_def append.simps list.inject op.inject; blast dest: style\<close>)+
  then show ?thesis using lit_segments_inj assms(3,4) by blast
qed

lemma draw_digits_inj:
  assumes "0 < dw" and "named th ''widget_text'' \<noteq> named th ''widget_border''"
    and "set cs \<subseteq> insert (CHR ''.'') shown" and "set ds \<subseteq> insert (CHR ''.'') shown"
    and "draw_digits th dw dh y cx cs = draw_digits th dw dh y cx ds"
  shows "cs = ds"
  using assms(3-5)
proof (induction cs arbitrary: ds cx)
  case Nil
  then show ?case by (cases ds) (auto simp: draw_digit_def Let_def split: if_splits)
next
  case (Cons c cs)
  obtain d ds' where ds: "ds = d # ds'" using Cons.prems(3) by (cases ds) (auto simp: draw_digit_def Let_def split: if_splits)
  have apart: "cx - dw * (10 / 100) \<noteq> cx + max 2 (dh * (10 / 100))" using assms(1) by (simp add: max_def)
  show ?case
  proof (cases "c = CHR ''.''")
    case True
    then have "d = CHR ''.''" using Cons.prems(3) apart
      by (simp add: ds draw_digit_def Let_def split: if_splits)
    then show ?thesis using Cons.IH[of ds' cx] Cons.prems True by (simp add: ds)
  next
    case False
    then have d: "d \<noteq> CHR ''.''" using Cons.prems(3) apart
      by (auto simp: ds draw_digit_def Let_def split: if_splits)
    have eq: "draw_digit th cx y dw dh c @ draw_digits th dw dh y (cx + (dw + dw * (20 / 100))) cs
        = draw_digit th cx y dw dh d @ draw_digits th dw dh y (cx + (dw + dw * (20 / 100))) ds'"
      using Cons.prems(3) False d by (simp add: ds)
    have len: "length (draw_digit th cx y dw dh c) = length (draw_digit th cx y dw dh d)" by (simp add: draw_digit_def Let_def)
    have parts: "draw_digit th cx y dw dh c = draw_digit th cx y dw dh d
      \<and> draw_digits th dw dh y (cx + (dw + dw * (20 / 100))) cs = draw_digits th dw dh y (cx + (dw + dw * (20 / 100))) ds'"
      by (rule iffD1[OF append_eq_append_conv[OF disjI1[OF len]] eq])
    show ?thesis
      using draw_digit_inj[OF conjunct1[OF parts] assms(2)] Cons.IH[OF _ _ conjunct2[OF parts]] Cons.prems(1,2) False d by (simp add: ds)
  qed
qed

lemma pad_zeros_set: "set (pad_zeros k s) \<subseteq> insert (CHR ''0'') (set s)"
  by (auto simp: pad_zeros_def)

lemma digit_shown: "is_digit c \<Longrightarrow> c \<in> shown \<and> c \<noteq> CHR '' ''"
proof -
  assume "is_digit c"
  then have "(of_char c :: nat) \<in> set [48..<58]" by (simp only: is_digit_def set_upt atLeastLessThan_iff) simp
  moreover have "list_all (\<lambda>n. char_of n \<in> shown \<and> char_of n \<noteq> CHR '' '') [48..<58 :: nat]" unfolding shown_def by code_simp
  ultimately have "char_of (of_char c :: nat) \<in> shown \<and> char_of (of_char c :: nat) \<noteq> CHR '' ''" unfolding list_all_iff by blast
  then show ?thesis by simp
qed

lemma to_fixed_shown:
  assumes "\<bar>q\<bar> < 10 ^ 21"
  shows "set (to_fixed numstr 1 (Num q)) \<subseteq> insert (CHR ''.'') shown"
    and "to_fixed numstr 1 (Num q) \<noteq> []" and "hd (to_fixed numstr 1 (Num q)) \<noteq> CHR '' ''"
proof -
  define n where "n = nat \<lfloor>\<bar>q\<bar> * 10 + 1 / 2\<rfloor>"
  have tx: "to_fixed numstr 1 (Num q) = (if q < 0 then ''-'' else []) @ nat_digits (n div 10)
      @ CHR ''.'' # pad_zeros 1 (nat_digits (n mod 10))"
    using assms by (simp add: to_fixed_def Let_def n_def)
  have "set (nat_digits k) \<subseteq> shown" for k using nat_digits_digits digit_shown by blast
  moreover have "set (pad_zeros 1 (nat_digits k)) \<subseteq> shown" for k
    using calculation[of k] by (auto simp: pad_zeros_def shown_def)
  moreover have "CHR ''-'' \<in> shown" by (simp add: shown_def)
  ultimately show "set (to_fixed numstr 1 (Num q)) \<subseteq> insert (CHR ''.'') shown" unfolding tx by auto
  show "to_fixed numstr 1 (Num q) \<noteq> []" unfolding tx by simp
  have "hd (nat_digits k) \<noteq> CHR '' ''" for k using nat_digits_digits[of k] digit_shown by (meson hd_in_set nat_digits_nonempty)
  then show "hd (to_fixed numstr 1 (Num q)) \<noteq> CHR '' ''" unfolding tx by (simp add: hd_append)
qed

lemma pad_left_inj:
  assumes "pad_left n s = pad_left n t" and "s \<noteq> []" "hd s \<noteq> CHR '' ''" "t \<noteq> []" "hd t \<noteq> CHR '' ''"
  shows "s = t"
proof -
  have strip: "dropWhile (\<lambda>c. c = CHR '' '') (pad_left n u) = u" if "u \<noteq> []" "hd u \<noteq> CHR '' ''" for u
    using that by (cases u) (simp_all add: pad_left_def dropWhile_append)
  show ?thesis using strip[of s] strip[of t] assms by metis
qed

text \<open>C24: When two values that \<^verbatim>\<open>toFixed\<close> prints in full are drawn the same in a row of the seven-segment display,
under a theme that tells lit segments from unlit ones, they differ by at most a tenth: the pattern of lit
segments and points determines the text, and the text the value to its last place.\<close>

theorem readout_determines_value:
  assumes "finite_value (ds_value a) = Some p" and "\<bar>p\<bar> < 10 ^ 21"
    and "finite_value (ds_value b) = Some q" and "\<bar>q\<bar> < 10 ^ 21"
    and "named th ''widget_text'' \<noteq> named th ''widget_border''" and "0 < dw"
    and "draw_digits th dw dh y x (readout_text numstr a) = draw_digits th dw dh y x (readout_text numstr b)"
  shows "(readout_text numstr a = readout_text numstr b)
    \<and> (\<bar>p - q\<bar> \<le> 1 / 10)"
proof -
  let ?s = "\<lambda>v. to_fixed numstr 1 (Num v)"
  have texts: "readout_text numstr a = pad_left 6 (?s p)" "readout_text numstr b = pad_left 6 (?s q)"
    using assms(1,3) by (simp_all add: readout_text_def)
  have "set (pad_left 6 (?s v)) \<subseteq> insert (CHR ''.'') shown" if "\<bar>v\<bar> < 10 ^ 21" for v
    using to_fixed_shown(1)[OF that, of numstr] by (auto simp: pad_left_def shown_def)
  then have same: "readout_text numstr a = readout_text numstr b"
    using draw_digits_inj[OF assms(6,5) _ _ assms(7)] assms(2,4) by (simp add: texts)
  have "?s p = ?s q"
    using same to_fixed_shown(2,3)[OF assms(2)] to_fixed_shown(2,3)[OF assms(4)] pad_left_inj[of 6 "?s p" "?s q"]
    by (simp add: texts)
  moreover obtain r where "parseFloat (?s p) = Num r" "\<bar>r - p\<bar> \<le> 1 / (2 * 10 ^ 1)"
    using to_fixed_reads_back[OF assms(2)] by blast
  moreover obtain r' where "parseFloat (?s q) = Num r'" "\<bar>r' - q\<bar> \<le> 1 / (2 * 10 ^ 1)"
    using to_fixed_reads_back[OF assms(4)] by blast
  ultimately have "r = r'" "\<bar>r - p\<bar> \<le> 1 / 20" "\<bar>r' - q\<bar> \<le> 1 / 20" by simp_all
  then have "\<bar>p - q\<bar> \<le> 1 / 10" by linarith
  then show ?thesis using same by blast
qed

section \<open>Status and position\<close>

lemma status_of_cases:
  assumes "finite_value (ds_alarmLow d) = Some lo" and "finite_value (ds_alarmHigh d) = Some hi" and "lo < hi"
    and "finite_value (ds_value d) = Some v"
  shows "status_of d = Alarm \<longleftrightarrow> v < lo \<or> hi < v"
    and "status_of d = Ok \<longleftrightarrow> lo + (hi - lo) / 10 \<le> v \<and> v \<le> hi - (hi - lo) / 10"
    and "status_of d = Warn \<longleftrightarrow> lo \<le> v \<and> v \<le> hi \<and> (v < lo + (hi - lo) / 10 \<or> hi - (hi - lo) / 10 < v)"
  using assms by (auto simp: status_of_def Let_def field_simps)

lemma template_dot_inside:
  "inside \<lparr>box_x = fst (template_dot dx dy (template_plot w h)), box_y = snd (template_dot dx dy (template_plot w h)),
      box_w = 0, box_h = 0\<rparr> (template_plot w h)"
proof -
  have n: "0 \<le> norm01 v lo hi \<and> norm01 v lo hi \<le> 1" for v lo hi
    by (simp add: norm01_def split: option.split)
  have "0 \<le> box_w (template_plot w h)" "0 \<le> box_h (template_plot w h)" by (simp_all add: template_plot_def)
  then show ?thesis
    using scaled_unit[of "norm01 (ds_value dx) (ds_min dx) (ds_max dx)" "box_w (template_plot w h)"]
      scaled_unit[of "1 - norm01 (ds_value dy) (ds_min dy) (ds_max dy)" "box_h (template_plot w h)"] n
    by (simp add: inside_def template_dot_def)
qed

section \<open>Concrete displays\<close>

theorem heat_map_colours_witness:
  "green (viridis_rgb (cell_at (heat_row [example_dataset 60, example_dataset 10]) 1))
     \<le> green (viridis_rgb (cell_at (heat_row [example_dataset 60, example_dataset 10]) 0))"
  by (rule heat_map_colours(3)[of 1 _ 0 10 60]) (simp_all add: example_dataset_def)

theorem readout_determines_value_witness:
  "\<bar>(5 :: rat) - 501 / 100\<bar> \<le> 1 / 10
   \<and> readout_text (\<lambda>_. []) (example_dataset 5) = readout_text (\<lambda>_. []) (example_dataset (501 / 100))"
proof -
  have same: "readout_text (\<lambda>_. []) (example_dataset 5) = readout_text (\<lambda>_. []) (example_dataset (501 / 100))"
    by code_simp
  have "readout_text (\<lambda>_. []) (example_dataset 5) = readout_text (\<lambda>_. []) (example_dataset (501 / 100))
      \<and> \<bar>(5 :: rat) - 501 / 100\<bar> \<le> 1 / 10"
    by (rule readout_determines_value[where a = "example_dataset 5" and b = "example_dataset (501 / 100)"
          and th = example_theme and dw = 1 and dh = 2 and y = 0 and x = 0 and numstr = "\<lambda>_. []"])
      (simp_all add: same, simp_all add: example_dataset_def example_theme_def)
  then show ?thesis by blast
qed

end
