(* ===== verification/Painter_Dials.thy ===== *)
theory Painter_Dials
  imports Painter_Displays
begin

text \<open>
  The painter scripts that draw on a circle: \<^verbatim>\<open>dial_gauge.js\<close>, \<^verbatim>\<open>radar_sweep.js\<close>, \<^verbatim>\<open>polar_plot.js\<close>,
  \<^verbatim>\<open>progress_rings.js\<close>, \<^verbatim>\<open>clock_face.js\<close>, \<^verbatim>\<open>vector_field.js\<close> and \<^verbatim>\<open>horizon.js\<close>.  Their coordinates are real
  numbers; the state the gauge and the radar keep between frames is rational.  An angle \<open>a\<close> stands for
  \<^verbatim>\<open>a * Math.PI\<close>.

  \<^item> \<open>needle_settles\<close>: the needle of the gauge approaches a constant value geometrically.
  \<^item> \<open>radar_contacts_recent\<close>, \<open>radar_contact_inside\<close>: the contacts are those of the last four seconds, and are
    drawn inside the scope.
  \<^item> \<open>arcs_start_at_cursor\<close>: no arc is joined to what was drawn before by a stray chord.
\<close>

definition px_cos :: "real \<Rightarrow> real" where "px_cos a = cos (pi * a)"
definition px_sin :: "real \<Rightarrow> real" where "px_sin a = sin (pi * a)"

text \<open>The remainder of the language, with the sign of the dividend.\<close>

definition trunc_mod :: "rat \<Rightarrow> rat \<Rightarrow> rat" where
  "trunc_mod x m = x - m * of_int (int_operand (Num (x / m)))"

section \<open>Dial gauge\<close>

record dial =
  smoothed :: rat
  dial_peak :: rat
  dial_peak_at :: int
  dial_ts :: int

definition dial_start :: dial where
  "dial_start = \<lparr>smoothed = 0, dial_peak = 0, dial_peak_at = 0, dial_ts = 0\<rparr>"

definition dial_on_frame :: "int \<times> dataset list \<Rightarrow> dial \<Rightarrow> dial" where
  "dial_on_frame f st =
     (let now = fst f; ds = snd f in
      if ds = [] then st
      else (let v = (case finite_value (ds_value (ds ! 0)) of Some q \<Rightarrow> q | None \<Rightarrow> 0);
                dt = frame_dt (dial_ts st) now;
                st = st\<lparr>dial_ts := now, smoothed := smoothed st + 18 / 100 * (v - smoothed st)\<rparr>;
                a = \<bar>v\<bar>
        in if a > dial_peak st then st\<lparr>dial_peak := a, dial_peak_at := now\<rparr>
           else if now - dial_peak_at st > 1200
             then st\<lparr>dial_peak := max 0 (dial_peak st - span_of (ds ! 0) * (4 / 100) * dt)\<rparr>
           else st))"

record dial_geometry =
  dg_r :: real
  dg_cx :: real
  dg_cy :: real

definition dial_layout :: "real \<Rightarrow> real \<Rightarrow> dial_geometry" where
  "dial_layout w h =
     (let availW = w - 12 * 2; availH = h - 12 * 2 - 36; r = max 8 (min availW availH * (1 / 2) - 8)
      in \<lparr>dg_r = r, dg_cx = w / 2, dg_cy = 12 + r + 8\<rparr>)"

definition dial_angle :: "real \<Rightarrow> real" where
  "dial_angle t = 85 / 100 + (215 / 100 - 85 / 100) * t"

definition dial_range :: "dataset \<Rightarrow> rat \<times> rat" where
  "dial_range d = (ds_min d, if ds_max d > ds_min d then ds_max d else ds_min d + 100)"

definition dial_zone :: "dial_geometry \<Rightarrow> real \<Rightarrow> real \<Rightarrow> string \<Rightarrow> real op list" where
  "dial_zone g t0 t1 color =
     [BeginPath, MoveTo (dg_cx g + px_cos (dial_angle t0) * dg_r g) (dg_cy g + px_sin (dial_angle t0) * dg_r g),
      Arc (dg_cx g) (dg_cy g) (dg_r g) (dial_angle t0) (dial_angle t1),
      LineWidth 14, LineCap ''butt'', StrokeStyle color, Stroke]"

text \<open>A line along the ray at the angle \<open>a\<close>, from radius \<open>inner\<close> to radius \<open>outer\<close>.\<close>

definition ray :: "real \<Rightarrow> real \<Rightarrow> real \<Rightarrow> real \<Rightarrow> real \<Rightarrow> real op list" where
  "ray cx cy a inner outer =
     segment (cx + px_cos a * inner) (cy + px_sin a * inner) (cx + px_cos a * outer) (cy + px_sin a * outer)"

definition needle_tip :: "dial_geometry \<Rightarrow> dataset \<Rightarrow> rat \<Rightarrow> real \<times> real" where
  "needle_tip g d v =
     (let (lo, hi) = dial_range d; a = dial_angle (of_rat (clamp01 ((v - lo) / (hi - lo))))
      in (dg_cx g + px_cos a * (dg_r g - 12), dg_cy g + px_sin a * (dg_r g - 12)))"

definition dial_paint :: "(jsval \<Rightarrow> string) \<Rightarrow> theme \<Rightarrow> dataset list \<Rightarrow> dial \<Rightarrow> real \<Rightarrow> real \<Rightarrow> real op list" where
  "dial_paint numstr th ds st w h =
     background th w h
     @ (if ds = [] then []
        else (let d = ds ! 0; v = smoothed st; (lo, hi) = dial_range d; extent = hi - lo;
                  g = dial_layout w h; r = dg_r g; cx = dg_cx g; cy = dg_cy g; labelY = cy + r + 22
          in dial_zone g 0 (60 / 100) (named th ''widget_highlight'')
             @ dial_zone g (60 / 100) (85 / 100) (named th ''accent'')
             @ dial_zone g (85 / 100) 1 (named th ''alarm'')
             @ [StrokeKey th ''widget_text'']
             @ concat (map (\<lambda>i. let major = (i mod 2 = 0) in
                 [LineWidth (if major then 2 else 1)]
                 @ ray cx cy (dial_angle (of_nat i / 20)) (r - (if major then 22 else 14)) (r - 6)) [0..<21])
             @ [FillKey th ''widget_text'', Font ''bold 10px sans-serif'', TextAlign ''center'', TextBaseline ''middle'']
             @ map (\<lambda>i. FillText (to_fixed numstr 0 (Num (lo + extent * of_nat i / 5)))
                 (cx + px_cos (dial_angle (of_nat i / 5)) * (r - 34))
                 (cy + px_sin (dial_angle (of_nat i / 5)) * (r - 34))) [0..<6]
             @ (if dial_peak st > 0 then
                  [StrokeKey th ''accent'', LineWidth 3]
                  @ ray cx cy (dial_angle (of_rat (clamp01 ((dial_peak st - lo) / extent)))) (r - 22) (r + 4)
                else [])
             @ [StrokeKey th ''widget_text'', LineWidth 3, LineCap ''round'']
             @ segment cx cy (fst (needle_tip g d v)) (snd (needle_tip g d v))
             @ [LineCap ''butt'', FillKey th ''widget_text''] @ disc cx cy 6
             @ [FillKey th ''placeholder_text'', Font ''10px sans-serif'', TextAlign ''center'', TextBaseline ''alphabetic'',
                FillText (ds_title d @ (if ds_units d = [] then [] else ''  ('' @ ds_units d @ '')'')) cx labelY,
                FillKey th ''widget_text'', Font ''bold 18px sans-serif'',
                FillText (to_fixed numstr 2 (Num v) @ units_suffix d) cx (labelY + 20), TextAlign ''start'']))"

section \<open>Radar sweep\<close>

record contact =
  c_az :: rat
  c_rng :: rat
  c_max :: rat
  c_ts :: int

record radar =
  radar_ts :: int
  sweep_deg :: rat
  contacts :: "contact list"

definition radar_start :: radar where
  "radar_start = \<lparr>radar_ts = 0, sweep_deg = 0, contacts = []\<rparr>"

fun frame_contacts :: "int \<Rightarrow> dataset list \<Rightarrow> contact list" where
  "frame_contacts now (a # b # ds) =
     (case (finite_value (ds_value a), finite_value (ds_value b)) of
        (Some az, Some rng) \<Rightarrow>
          [\<lparr>c_az = az, c_rng = rng, c_max = (if ds_max b = 0 then 1 else ds_max b), c_ts = now\<rparr>]
      | _ \<Rightarrow> []) @ frame_contacts now ds"
| "frame_contacts now _ = []"

definition radar_on_frame :: "int \<times> dataset list \<Rightarrow> radar \<Rightarrow> radar" where
  "radar_on_frame f st =
     (let now = fst f; dt = (if radar_ts st > 0 then max 0 (now - radar_ts st) else 16) in
      \<lparr>radar_ts = now, sweep_deg = trunc_mod (sweep_deg st + 60 * of_int dt * (1 / 1000)) 360,
       contacts = filter (\<lambda>c. now - c_ts c < 4000) (contacts st @ frame_contacts now (snd f))\<rparr>)"

definition contact_point :: "real \<Rightarrow> real \<Rightarrow> real \<Rightarrow> contact \<Rightarrow> real \<times> real" where
  "contact_point cx cy r c =
     (let rad = of_rat ((c_az c - 90) / 180); norm = of_rat (clamp01 (c_rng c / c_max c))
      in (cx + px_cos rad * r * norm, cy + px_sin rad * r * norm))"

definition contact_alpha :: "int \<Rightarrow> contact \<Rightarrow> real" where
  "contact_alpha now c = 1 - of_int (now - c_ts c) / 4000"

definition contact_marks :: "theme \<Rightarrow> int \<Rightarrow> real \<Rightarrow> real \<Rightarrow> real \<Rightarrow> contact \<Rightarrow> real op list" where
  "contact_marks th now cx cy r c =
     (let (x, y) = contact_point cx cy r c in
      [GlobalAlpha (contact_alpha now c), FillKey th ''widget_highlight''] @ disc x y 4)"

text \<open>The wedge behind the sweep: twelve slivers of 0.04 radians, joined to the centre.\<close>

definition radar_wedge :: "theme \<Rightarrow> rat \<Rightarrow> real \<Rightarrow> real \<Rightarrow> real \<Rightarrow> real op list" where
  "radar_wedge th deg cx cy r =
     (let sweep = of_rat ((deg - 90) / 180) in
      concat (map (\<lambda>i. [GlobalAlpha ((1 - of_nat i / 12) * (6 / 10)), FillKey th ''widget_highlight'', BeginPath, MoveTo cx cy,
        Arc cx cy r (sweep - (of_nat i + 1) * (4 / 100 / pi)) (sweep - of_nat i * (4 / 100 / pi)), ClosePath, Fill]) [0..<12]))"

definition radar_paint :: "theme \<Rightarrow> int \<Rightarrow> dataset list \<Rightarrow> radar \<Rightarrow> real \<Rightarrow> real \<Rightarrow> real op list" where
  "radar_paint th now ds st w h =
     (let cardX = 14; cardY = 30; cardW = w - 14 * 2; cardH = h - 30 - 14;
          cx = cardX + cardW * (1 / 2); cy = cardY + cardH * (1 / 2); r = min cardW cardH * (42 / 100)
      in background th w h
         @ header_strip th w ''RADAR  PPI'' (nat_digits (length (contacts st)) @ '' contacts'')
         @ panel th cardX cardY cardW cardH
         @ [StrokeKey th ''widget_border'', LineWidth 1]
         @ concat (map (\<lambda>i. ring cx cy ((r / 4) * of_nat i)) [1..<5])
         @ concat (map (\<lambda>k. let a = (of_nat (30 * k) - 90) / 180 in
             segment cx cy (cx + px_cos a * r) (cy + px_sin a * r)) [0..<12])
         @ [FillKey th ''widget_text'', Font ''bold 9px monospace'', TextAlign ''center'', TextBaseline ''middle'',
            FillText ''N'' cx (cy - r - 8), FillText ''S'' cx (cy + r + 8), FillText ''E'' (cx + r + 8) cy,
            FillText ''W'' (cx - r - 8) cy, TextBaseline ''alphabetic'']
         @ radar_wedge th (sweep_deg st) cx cy r
         @ [GlobalAlpha 1, StrokeKey th ''widget_border'', LineWidth 1] @ ring cx cy r
         @ concat (map (contact_marks th now cx cy r) (contacts st))
         @ [GlobalAlpha 1] @ outline th cardX cardY cardW cardH)"

section \<open>Polar plot\<close>

fun polar_rays :: "theme \<Rightarrow> real \<Rightarrow> real \<Rightarrow> real \<Rightarrow> nat \<Rightarrow> dataset list \<Rightarrow> real op list" where
  "polar_rays th cx cy r k (a # b # ds) =
     (case (finite_value (ds_value a), finite_value (ds_value b)) of
        (Some deg, Some mag) \<Rightarrow>
          (let (x, y) = contact_point cx cy r
                 \<lparr>c_az = deg, c_rng = mag, c_max = (if ds_max b = 0 then 1 else ds_max b), c_ts = 0\<rparr>;
               color = series_color th k
           in [StrokeStyle color, LineWidth (25 / 10), LineCap ''round''] @ segment cx cy x y
              @ [FillKey th ''widget_base''] @ disc x y 5 @ [FillStyle color] @ disc x y 3)
      | _ \<Rightarrow> []) @ polar_rays th cx cy r (k + 1) ds"
| "polar_rays th cx cy r k _ = []"

text \<open>The dial around \<open>(cx, cy)\<close>: range rings, cross, spokes, labels, one ray per pair.\<close>

definition polar_dial :: "theme \<Rightarrow> dataset list \<Rightarrow> real \<Rightarrow> real \<Rightarrow> real \<Rightarrow> real op list" where
  "polar_dial th ds cx cy r =
     [StrokeKey th ''widget_border'', LineWidth 1]
     @ concat (map (\<lambda>i. ring cx cy ((r / 4) * of_nat i)) [1..<5])
     @ [StrokeKey th ''widget_border'', BeginPath, MoveTo (cx - r) cy, LineTo (cx + r) cy,
        MoveTo cx (cy - r), LineTo cx (cy + r), Stroke, StrokeKey th ''widget_border'']
     @ concat (map (\<lambda>k. if 30 * k mod 90 = 0 then []
         else (let a = (of_nat (30 * k) - 90) / 180 in segment cx cy (cx + px_cos a * r) (cy + px_sin a * r))) [1..<12])
     @ [FillKey th ''widget_text'', Font ''bold 10px sans-serif'', TextAlign ''center'', TextBaseline ''middle'',
        FillText ''N'' cx (cy - r - 8), FillText ''S'' cx (cy + r + 8), FillText ''E'' (cx + r + 10) cy,
        FillText ''W'' (cx - r - 10) cy, TextBaseline ''alphabetic'', StrokeKey th ''widget_border'', LineWidth 1]
     @ ring cx cy r
     @ polar_rays th cx cy r 0 ds
     @ [FillKey th ''widget_text''] @ disc cx cy 4 @ [LineCap ''butt'', TextAlign ''start'']"

definition polar_paint :: "theme \<Rightarrow> dataset list \<Rightarrow> real \<Rightarrow> real \<Rightarrow> real op list" where
  "polar_paint th ds w h =
     (let cardX = 14; cardY = 30; cardW = w - 14 * 2; cardH = h - 30 - 14 in
      background th w h @ header_strip th w ''POLAR  PLOT'' (plural (length ds div 2) ''ray'')
      @ card th cardX cardY cardW cardH
      @ polar_dial th ds (cardX + cardW * (1 / 2)) (cardY + cardH * (1 / 2)) (max 20 (min cardW cardH * (42 / 100))))"

section \<open>Progress rings\<close>

definition progress_norm :: "dataset \<Rightarrow> rat" where
  "progress_norm d = clamp01 (((case finite_value (ds_value d) of Some v \<Rightarrow> v | None \<Rightarrow> 0) - ds_min d) / span_of d)"

definition progress_ring :: "(jsval \<Rightarrow> string) \<Rightarrow> theme \<Rightarrow> dataset \<Rightarrow> real \<Rightarrow> real \<Rightarrow> real \<Rightarrow> real op list" where
  "progress_ring numstr th d cx cy rr =
     (let norm = progress_norm d in
      [StrokeKey th ''mid'', LineWidth 12, LineCap ''butt''] @ ring cx cy rr
      @ (if norm > 0 then
           (let startA = - (1 / 2); endA = startA + 2 * of_rat norm in
            [StrokeKey th ''highlight'', LineCap ''round'', BeginPath,
             MoveTo (cx + px_cos startA * rr) (cy + px_sin startA * rr), Arc cx cy rr startA endA, Stroke, LineCap ''butt''])
         else [])
      @ [FillKey th ''text'', Font ''bold 18px sans-serif'', TextAlign ''center'', TextBaseline ''middle'',
         FillText (to_fixed numstr 0 (Num (norm * 100)) @ ''%'') cx cy,
         FillStyle (or_text (named th ''pane_section_label'') (named th ''text'')), Font ''10px sans-serif'',
         TextBaseline ''alphabetic'', FillText (take 16 (ds_title d)) cx (cy + rr + 18)])"

text \<open>The centre and the radius of ring \<open>i\<close> of \<open>n\<close>.\<close>

definition progress_place :: "nat \<Rightarrow> rat \<Rightarrow> rat \<Rightarrow> nat \<Rightarrow> real \<times> real \<times> real" where
  "progress_place n w h i =
     (let cols = min n (max 1 (round_sqrt (of_nat n * w / h))); rows = ceil_div n cols;
          b = grid_cell 12 12 12 0 cols rows w h i
      in (of_rat (box_x b + box_w b * (1 / 2)), of_rat (box_y b + box_h b * (1 / 2) - 6),
          of_rat (max 10 (min (box_w b) (box_h b) * (38 / 100) - 4))))"

definition progress_paint :: "(jsval \<Rightarrow> string) \<Rightarrow> theme \<Rightarrow> dataset list \<Rightarrow> rat \<Rightarrow> rat \<Rightarrow> real op list" where
  "progress_paint numstr th ds w h =
     [FillKey th ''groupbox_background'', FillRect 0 0 (of_rat w) (of_rat h)]
     @ (if ds = [] then []
        else concat (map (\<lambda>i. let (cx, cy, rr) = progress_place (length ds) w h i
               in progress_ring numstr th (ds ! i) cx cy rr) [0..<length ds])
          @ [TextAlign ''start'', TextBaseline ''alphabetic''])"

section \<open>Clock face\<close>

text \<open>The seconds since midnight: the first dataset, or the local time of the frame, which is a parameter.\<close>

definition time_of_day :: "(int \<Rightarrow> rat) \<Rightarrow> int \<Rightarrow> dataset list \<Rightarrow> rat" where
  "time_of_day local_time now ds =
     (case ds of [] \<Rightarrow> local_time now
      | d # _ \<Rightarrow> (case finite_value (ds_value d) of Some v \<Rightarrow> v | None \<Rightarrow> local_time now))"

definition clock_hand :: "real \<Rightarrow> real \<Rightarrow> real \<Rightarrow> real \<Rightarrow> real \<Rightarrow> string \<Rightarrow> real op list" where
  "clock_hand cx cy angle len width color =
     [StrokeStyle color, LineWidth width, LineCap ''round'']
     @ segment cx cy (cx + px_cos angle * len) (cy + px_sin angle * len)"

text \<open>The angles of the three hands.\<close>

definition hand_angles :: "rat \<Rightarrow> rat \<times> rat \<times> rat" where
  "hand_angles tod =
     (let sec = trunc_mod tod 60; mins = trunc_mod (tod / 60) 60; hour = trunc_mod (tod / 3600) 12
      in ((hour / 12) * 2 - 1 / 2, (mins / 60) * 2 - 1 / 2, (sec / 60) * 2 - 1 / 2))"

definition clock_paint :: "(int \<Rightarrow> rat) \<Rightarrow> theme \<Rightarrow> int \<Rightarrow> dataset list \<Rightarrow> real \<Rightarrow> real \<Rightarrow> real op list" where
  "clock_paint local_time th now ds w h =
     (let cx = w * (1 / 2); cy = h * (1 / 2); r = min w h * (42 / 100);
          (hour, mins, sec) = hand_angles (time_of_day local_time now ds)
      in [FillKey th ''groupbox_background'', FillRect 0 0 w h, FillKey th ''window''] @ disc cx cy r
         @ [StrokeKey th ''groupbox_border'', LineWidth 3] @ ring cx cy r
         @ [FillKey th ''text'', Font ''bold 14px serif'', TextAlign ''center'', TextBaseline ''middle'']
         @ map (\<lambda>i. let ang = (of_nat i / 12) * 2 - 1 / 2 in
             FillText (nat_digits i) (cx + px_cos ang * r * (82 / 100)) (cy + px_sin ang * r * (82 / 100))) [1..<13]
         @ [StrokeKey th ''mid'']
         @ concat (map (\<lambda>i. let ang = (of_nat i / 60) * 2 - 1 / 2; major = (i mod 5 = 0) in
             [LineWidth (if major then 2 else 1)]
             @ ray cx cy ang (r * (if major then 93 / 100 else 96 / 100)) (r * (99 / 100))) [0..<60])
         @ clock_hand cx cy (of_rat hour) (r * (50 / 100)) 6 (named th ''text'')
         @ clock_hand cx cy (of_rat mins) (r * (72 / 100)) 4 (named th ''text'')
         @ clock_hand cx cy (of_rat sec) (r * (85 / 100)) 1 (named th ''alarm'')
         @ [FillKey th ''alarm''] @ disc cx cy 4 @ [FillKey th ''text''] @ disc cx cy 2
         @ [LineCap ''butt'', TextAlign ''start'', TextBaseline ''alphabetic''])"

section \<open>Vector field\<close>

definition axis_max :: "dataset \<Rightarrow> rat" where
  "axis_max d = max (max \<bar>ds_min d\<bar> \<bar>ds_max d\<bar>) 1"

definition magnitude :: "real \<Rightarrow> real \<Rightarrow> real" where
  "magnitude nx ny = min 1 (sqrt (nx\<^sup>2 + ny\<^sup>2))"

definition magnitude_color :: "theme \<Rightarrow> real \<Rightarrow> string" where
  "magnitude_color th mag = (if mag > 85 / 100 then named th ''alarm'' else if mag > 55 / 100 then named th ''accent''
     else if mag > 10 / 100 then named th ''widget_highlight'' else named th ''placeholder_text'')"

text \<open>\<^verbatim>\<open>toFixed(2)\<close> of a magnitude, which lies between 0 and 1.\<close>

definition magnitude_text :: "real \<Rightarrow> string" where
  "magnitude_text mag = (let n = nat \<lfloor>mag * 100 + 1 / 2\<rfloor> in nat_digits (n div 100) @ ''.'' @ pad_zeros 2 (nat_digits (n mod 100)))"

definition atan2 :: "real \<Rightarrow> real \<Rightarrow> real" where
  "atan2 y x = Arg (Complex x y)"

definition vector_arrow :: "theme \<Rightarrow> real \<Rightarrow> real \<Rightarrow> real \<Rightarrow> real \<Rightarrow> real \<Rightarrow> real \<Rightarrow> real op list" where
  "vector_arrow th cx cy arrowMax nx ny textY =
     (let mag = magnitude nx ny; ex = cx + nx * arrowMax; ey = cy - ny * arrowMax; color = magnitude_color th mag;
          a = atan2 (ey - cy) (ex - cx); tip = 9
      in [StrokeStyle color, LineWidth (25 / 10), LineCap ''round''] @ segment cx cy ex ey
         @ [FillStyle color, BeginPath, MoveTo ex ey,
            LineTo (ex - cos (a - 4 / 10) * tip) (ey - sin (a - 4 / 10) * tip),
            LineTo (ex - cos (a + 4 / 10) * tip) (ey - sin (a + 4 / 10) * tip), ClosePath, Fill, LineCap ''butt'',
            FillKey th ''widget_text''] @ disc cx cy 3
         @ [FillKey th ''widget_text'', Font ''bold 11px sans-serif'', TextAlign ''center'', TextBaseline ''alphabetic'',
            FillText (''|v| = '' @ magnitude_text mag) cx textY])"

definition vector_card :: "theme \<Rightarrow> dataset \<Rightarrow> dataset \<Rightarrow> rat box \<Rightarrow> real op list" where
  "vector_card th dx dy b =
     (let x0 = of_rat (box_x b); y0 = of_rat (box_y b); cw = of_rat (box_w b); ch = of_rat (box_h b);
          cx = x0 + cw * (1 / 2); cy = y0 + ch * (1 / 2) + 4; arrowMax = max 8 (min cw (ch - 24) * (40 / 100))
      in card th x0 y0 cw ch
         @ [FillKey th ''placeholder_text'', Font ''bold 10px sans-serif'', TextAlign ''start'',
            FillText (or_text (ds_title dx) ''Vx'' @ '', '' @ or_text (ds_title dy) ''Vy'') (x0 + 8) (y0 + 14),
            StrokeKey th ''widget_border'']
         @ concat (map (\<lambda>k. ring cx cy (arrowMax * (of_nat k / 3))) [1..<4])
         @ [StrokeKey th ''widget_border'', LineWidth 1, BeginPath, MoveTo (cx - arrowMax) cy, LineTo (cx + arrowMax) cy,
            MoveTo cx (cy - arrowMax), LineTo cx (cy + arrowMax), Stroke, StrokeKey th ''widget_border'', LineWidth 1]
         @ ring cx cy arrowMax
         @ (case (finite_value (ds_value dx), finite_value (ds_value dy)) of
              (Some vx, Some vy) \<Rightarrow>
                vector_arrow th cx cy arrowMax (of_rat (vx / axis_max dx)) (of_rat (vy / axis_max dy)) (y0 + ch - 6)
            | _ \<Rightarrow> []))"

definition vector_cell :: "nat \<Rightarrow> rat \<Rightarrow> rat \<Rightarrow> nat \<Rightarrow> rat box" where
  "vector_cell pairs w h i =
     (let cols = ceil_sqrt (of_nat pairs * w / h); rows = ceil_div pairs cols
      in grid_cell 14 30 14 8 cols rows w h i)"

definition vector_paint :: "theme \<Rightarrow> dataset list \<Rightarrow> rat \<Rightarrow> rat \<Rightarrow> real op list" where
  "vector_paint th ds w h =
     (let pairs = length ds div 2 in
      background th (of_rat w) (of_rat h) @ header_strip th (of_rat w) ''VECTOR  FIELD'' (plural pairs ''vector'')
      @ (if pairs = 0 then
           [FillKey th ''placeholder_text'', Font ''12px sans-serif'', TextAlign ''center'',
            FillText ''Add datasets in (Vx, Vy) pairs'' (of_rat w / 2) (of_rat h / 2)]
         else concat (map (\<lambda>i. vector_card th (ds ! (i * 2)) (ds ! (i * 2 + 1)) (vector_cell pairs w h i)) [0..<pairs])
           @ [TextAlign ''start'', TextBaseline ''alphabetic'']))"

section \<open>Artificial horizon\<close>

text \<open>\<^verbatim>\<open>datasets[i].value || 0\<close>, for values that are a finite number or NaN.\<close>

definition angle_of :: "dataset list \<Rightarrow> nat \<Rightarrow> rat" where
  "angle_of ds i = (if i < length ds then (case finite_value (ds_value (ds ! i)) of Some v \<Rightarrow> v | None \<Rightarrow> 0) else 0)"

definition pitch_ladder :: "theme \<Rightarrow> real \<Rightarrow> real \<Rightarrow> real op list" where
  "pitch_ladder th r pxPerD =
     concat (map (\<lambda>k. let p = 10 * int k - 90; y = - of_int p * pxPerD;
                         half = (if p mod 30 = 0 then r * (25 / 100) else r * (12 / 100)) in
       if p = 0 then []
       else segment (- half) y half y
         @ (if p mod 30 = 0 then
              [FillKey th ''widget_text'', Font ''10px monospace'', TextAlign ''right'', TextBaseline ''middle'',
               FillText (nat_digits (nat \<bar>p\<bar>)) (- half - 4) y, TextAlign ''left'', FillText (nat_digits (nat \<bar>p\<bar>)) (half + 4) y]
            else [])) [0..<19])"

definition horizon_world :: "theme \<Rightarrow> rat \<Rightarrow> rat \<Rightarrow> real \<Rightarrow> real \<Rightarrow> real \<Rightarrow> real op list" where
  "horizon_world th pitch roll cx cy r =
     (let pxPerD = r / 30 in
      circle_path cx cy r @ [Clip, Translate cx cy, Rotate (of_rat (- roll / 180)), Translate 0 (of_rat pitch * pxPerD)]
      @ [FillStyle (widget_colors th ! 0), FillRect (- r * 2) (- r * 2) (r * 4) (r * 2),
         FillStyle (widget_colors th ! 3), FillRect (- r * 2) 0 (r * 4) (r * 2),
         StrokeKey th ''widget_text'', LineWidth 2] @ segment (- r) 0 r 0
      @ [LineWidth 1] @ pitch_ladder th r pxPerD)"

definition horizon_paint :: "(jsval \<Rightarrow> string) \<Rightarrow> theme \<Rightarrow> dataset list \<Rightarrow> real \<Rightarrow> real \<Rightarrow> real op list" where
  "horizon_paint numstr th ds w h =
     (let pitch = angle_of ds 0; roll = angle_of ds 1; cardX = 14; cardY = 30; cardW = w - 14 * 2; cardH = h - 30 - 36;
          cx = cardX + cardW * (1 / 2); cy = cardY + cardH * (1 / 2); r = min cardW cardH * (42 / 100)
      in background th w h @ header_strip th w ''ATTITUDE  INDICATOR'' ''pitch / roll''
         @ panel th cardX cardY cardW cardH
         @ [Saved (horizon_world th pitch roll cx cy r)]
         @ [StrokeKey th ''accent'', LineWidth 3, BeginPath, MoveTo (cx - r * (3 / 10)) cy, LineTo (cx - r * (5 / 100)) cy,
            MoveTo (cx + r * (5 / 100)) cy, LineTo (cx + r * (3 / 10)) cy,
            MoveTo cx (cy - r * (5 / 100)), LineTo cx (cy + r * (5 / 100)), Stroke,
            StrokeKey th ''widget_text'', LineWidth 2] @ ring cx cy r
         @ outline th cardX cardY cardW cardH
         @ [FillKey th ''widget_text'', Font ''bold 12px sans-serif'', TextAlign ''start'', TextBaseline ''alphabetic'',
            FillText (''PITCH  '' @ to_fixed numstr 1 (Num pitch) @ [CHR 0xB0]) (cardX + 6) (h - 12),
            TextAlign ''end'',
            FillText (''ROLL  '' @ to_fixed numstr 1 (Num roll) @ [CHR 0xB0]) (w - cardX - 6) (h - 12), TextAlign ''start''])"

section \<open>Contracts\<close>

lemma texts_inert [simp]:
  "last_set sets_baseline (map (\<lambda>i. FillText (s i) (x i) (y i)) is) = None"
  "last_set sets_cap (map (\<lambda>i. FillText (s i) (x i) (y i)) is) = None"
  "last_set sets_alpha (map (\<lambda>i. FillText (s i) (x i) (y i)) is) = None"
  "gives (map (\<lambda>i. FillText (s i) (x i) (y i)) is) = {}"
  "arcs_ok dir prev (map (\<lambda>i. FillText (s i) (x i) (y i)) is)"
  "{AAlpha, AFill, AFont, AAlign, ABaseline} \<subseteq> A \<Longrightarrow> inits A (map (\<lambda>i. FillText (s i) (x i) (y i)) is)"
  by (induction "is" arbitrary: A prev) auto

lemma px_zero [simp]: "px_cos 0 = 1" "px_sin 0 = 0"
  by (simp_all add: px_cos_def px_sin_def)

lemma unit_circle_eq: "unit_circle a = Some (px_cos a, px_sin a)"
  by (simp add: unit_circle_def px_cos_def px_sin_def)

lemmas dial_defs = dial_paint_def dial_zone_def ray_def
lemmas radar_defs = radar_paint_def radar_wedge_def contact_marks_def
lemmas clock_defs = clock_paint_def clock_hand_def ray_def
lemmas horizon_defs = horizon_paint_def horizon_world_def pitch_ladder_def

interpretation dial: painter_script "''butt''" "\<lambda>(ds, st, w, h). dial_paint numstr th ds st w h"
proof (unfold_locales, goal_cases)
  case (1 i) show ?case by (cases i) (simp add: dial_defs Let_def rest_attrs_def case_prod_beta)
next
  case (2 i) show ?case by (cases i) (simp add: rests_def dial_defs Let_def case_prod_beta)
qed

interpretation radar: painter_script cap "\<lambda>(now, ds, st, w, h). radar_paint th now ds st w h"
proof (unfold_locales, goal_cases)
  case (1 i) show ?case by (cases i) (simp add: radar_defs Let_def rest_attrs_def case_prod_beta)
next
  case (2 i) show ?case by (cases i) (simp add: rests_def radar_defs Let_def case_prod_beta clamp01_def)
qed

lemma polar_rays_inert:
  "AAlpha \<in> A \<Longrightarrow> inits A (polar_rays th cx cy r k ds)"
  "last_set sets_baseline (polar_rays th cx cy r k ds) = None"
  "last_set sets_alpha (polar_rays th cx cy r k ds) = None"
  "arcs_ok unit_circle None (polar_rays th cx cy r k ds)"
  by (induction th cx cy r k ds arbitrary: A rule: polar_rays.induct)
    (simp_all add: Let_def case_prod_beta split: option.splits)

lemma polar_dial_steps:
  "{AAlpha, ACap} \<subseteq> A \<Longrightarrow> inits A (polar_dial th ds cx cy r)"
  "leaves sets_baseline ''alphabetic'' (polar_dial th ds cx cy r)"
  "leaves sets_cap ''butt'' (polar_dial th ds cx cy r)"
  "last_set sets_alpha (polar_dial th ds cx cy r) = None"
  "arcs_ok unit_circle None (polar_dial th ds cx cy r)"
proof -
  have "last_set sets_cap (polar_dial th ds cx cy r) = Some ''butt''" by (simp add: polar_dial_def)
  then show "leaves sets_cap ''butt'' (polar_dial th ds cx cy r)" by (simp add: leaves_def)
qed (simp_all add: polar_dial_def Let_def polar_rays_inert)

interpretation polar: painter_script "''butt''" "\<lambda>(ds, w, h). polar_paint th ds w h"
proof (unfold_locales, goal_cases)
  case (1 i) show ?case by (cases i) (simp add: polar_paint_def polar_dial_steps Let_def rest_attrs_def)
next
  case (2 i) show ?case
    by (cases i) (simp add: rests_def polar_paint_def polar_dial_steps Let_def)
qed

lemma progress_ring_steps:
  "{AAlpha, ABaseline, ACap} \<subseteq> A \<Longrightarrow> inits A (progress_ring numstr th d cx cy rr)"
  "leaves sets_baseline ''alphabetic'' (progress_ring numstr th d cx cy rr)"
  "leaves sets_cap ''butt'' (progress_ring numstr th d cx cy rr)"
  "leaves sets_alpha v (progress_ring numstr th d cx cy rr)"
  "arcs_ok unit_circle None (progress_ring numstr th d cx cy rr)"
  by (simp_all add: progress_ring_def Let_def unit_circle_eq)

interpretation progress: painter_script "''butt''" "\<lambda>(ds, w, h). progress_paint numstr th ds w h"
proof (unfold_locales, goal_cases)
  case (1 i) show ?case by (cases i) (simp add: progress_paint_def progress_ring_steps case_prod_beta Let_def rest_attrs_def)
next
  case (2 i) show ?case by (cases i) (simp add: rests_def progress_paint_def progress_ring_steps case_prod_beta Let_def)
qed

interpretation clock: painter_script "''butt''" "\<lambda>(now, ds, w, h). clock_paint local_time th now ds w h"
proof (unfold_locales, goal_cases)
  case (1 i) show ?case by (cases i) (simp add: clock_defs Let_def rest_attrs_def case_prod_beta)
next
  case (2 i) show ?case by (cases i) (simp add: rests_def clock_defs Let_def case_prod_beta)
qed

lemma vector_arrow_steps:
  "AAlpha \<in> A \<Longrightarrow> inits A (vector_arrow th cx cy arrowMax nx ny y)"
  "leaves sets_baseline ''alphabetic'' (vector_arrow th cx cy arrowMax nx ny y)"
  "leaves sets_cap ''butt'' (vector_arrow th cx cy arrowMax nx ny y)"
  "last_set sets_alpha (vector_arrow th cx cy arrowMax nx ny y) = None"
  "arcs_ok unit_circle None (vector_arrow th cx cy arrowMax nx ny y)"
  by (simp_all add: vector_arrow_def Let_def)

lemma vector_card_steps:
  "{AAlpha, ABaseline, ACap} \<subseteq> A \<Longrightarrow> inits A (vector_card th dx dy b)"
  "leaves sets_baseline ''alphabetic'' (vector_card th dx dy b)"
  "leaves sets_cap ''butt'' (vector_card th dx dy b)"
  "leaves sets_alpha v (vector_card th dx dy b)"
  "arcs_ok unit_circle None (vector_card th dx dy b)"
  by (simp_all add: vector_card_def Let_def vector_arrow_steps split: option.split)

interpretation vector: painter_script "''butt''" "\<lambda>(ds, w, h). vector_paint th ds w h"
proof (unfold_locales, goal_cases)
  case (1 i) show ?case by (cases i) (simp add: vector_paint_def vector_card_steps Let_def rest_attrs_def)
next
  case (2 i) show ?case by (cases i) (simp add: rests_def vector_paint_def vector_card_steps Let_def)
qed

interpretation horizon: painter_script cap "\<lambda>(ds, w, h). horizon_paint numstr th ds w h"
proof (unfold_locales, goal_cases)
  case (1 i) show ?case by (cases i) (simp add: horizon_defs Let_def rest_attrs_def)
next
  case (2 i) show ?case by (cases i) (simp add: rests_def horizon_defs Let_def)
qed

section \<open>Arcs start at the cursor\<close>

lemma dial_arcs: "arcs_ok unit_circle None (dial_paint numstr th ds st w h)"
  by (simp add: dial_defs Let_def case_prod_beta unit_circle_eq)

lemma polar_arcs: "arcs_ok unit_circle None (polar_paint th ds w h)"
  by (simp add: polar_paint_def polar_dial_steps Let_def)

lemma progress_arcs: "arcs_ok unit_circle None (progress_paint numstr th ds w h)"
  by (simp add: progress_paint_def progress_ring_steps Let_def case_prod_beta)

lemma clock_arcs: "arcs_ok unit_circle None (clock_paint local_time th now ds w h)"
  by (simp add: clock_defs Let_def case_prod_beta)

lemma vector_arcs: "arcs_ok unit_circle None (vector_paint th ds w h)"
  by (simp add: vector_paint_def vector_card_steps Let_def)

lemma horizon_arcs: "arcs_ok unit_circle None (horizon_paint numstr th ds w h)"
  by (simp add: horizon_defs Let_def)

lemma radar_arcs: "arcs_or_sectors unit_circle None (radar_paint th now ds st w h)"
proof -
  have wedge: "arcs_or_sectors unit_circle None (radar_wedge th deg cx cy r)" for deg cx cy r
    unfolding radar_wedge_def Let_def by (rule sectors_concat) simp
  have "arcs_ok unit_circle None (contact_marks th now cx cy r c)" for cx cy r c
    by (simp add: contact_marks_def Let_def case_prod_beta)
  then have contacts: "arcs_ok unit_circle None (concat (map (contact_marks th now cx cy r) cs))" for cx cy r cs
    by simp
  show ?thesis
    unfolding radar_paint_def Let_def
    by (intro sectors_append wedge) (rule arcs_sectors, use contacts in simp)+
qed

lemma audio_arcs: "arcs_ok east None (audio_paint numstr th ds m w h)"
  by (simp add: audio_defs Let_def)

lemma bars_arcs: "arcs_ok east None (bars_paint numstr th ds m w h)"
  by (simp add: bars_defs Let_def)

lemma led_arcs: "arcs_ok east None (led_paint numstr th ds w h)"
  by (simp add: led_defs Let_def)

lemma heat_arcs: "arcs_ok east None (heat_paint numstr th ds hs w h)"
  by (simp add: heat_paint_def Let_def)

lemma status_arcs: "arcs_ok east None (status_paint numstr textw th columns ds w h)"
  by (simp add: status_paint_def status_card_def Let_def)

lemma segment_arcs: "arcs_ok east None (segment_paint numstr th ds w h)"
  by (simp add: segment_paint_def segment_row_def Let_def)

text \<open>C19: In all eighteen scripts every arc follows a move of the cursor to its start, so the context, which joins
the two by a line, adds no stray chord.  The one exception is meant: the twelve slivers behind the sweep of the
radar are sectors, an arc that follows a move to its centre and is closed at once (\<open>arcs_or_sectors\<close>); the
radar's rings and contacts start at the cursor as well.\<close>

theorem arcs_start_at_cursor:
  shows "(arcs_ok east None (strip_paint numstr textw th ds ts a b))
    \<and> (arcs_ok east None (spark_paint numstr textw th ds ts a b))
    \<and> (arcs_ok east None (steps_of (scope_paint th ds ts a b)))
    \<and> (arcs_ok east None (steps_of (xy_paint th ds xs a b)))
    \<and> (arcs_ok east None (audio_paint numstr th ds m a b))
    \<and> (arcs_ok east None (bars_paint numstr th ds m a b))
    \<and> (arcs_ok east None (led_paint numstr th ds a b))
    \<and> (arcs_ok east None (heat_paint numstr th ds hs a b))
    \<and> (arcs_ok east None (status_paint numstr textw th columns ds a b))
    \<and> (arcs_ok east None (segment_paint numstr th ds a b))
    \<and> (arcs_ok east None (template_paint numstr th title ds a b))
    \<and> (arcs_ok unit_circle None (dial_paint numstr th ds st w h))
    \<and> (arcs_ok unit_circle None (polar_paint th ds w h))
    \<and> (arcs_ok unit_circle None (progress_paint numstr th ds a b))
    \<and> (arcs_ok unit_circle None (clock_paint local_time th now ds w h))
    \<and> (arcs_ok unit_circle None (vector_paint th ds a b))
    \<and> (arcs_ok unit_circle None (horizon_paint numstr th ds w h))
    \<and> (arcs_or_sectors unit_circle None (radar_paint th now ds rs w h))"
  by (intro conjI; rule strip_arcs spark_arcs scope_arcs xy_arcs audio_arcs bars_arcs led_arcs heat_arcs status_arcs
      segment_arcs template_arcs dial_arcs polar_arcs progress_arcs clock_arcs vector_arcs horizon_arcs radar_arcs)

text \<open>C18: What a frame of a painter script depends on: its data and, of all the attributes the context keeps from
one frame to the next, the line cap at most.  On one context, from any resting pen, that of a new context
included, the marks of a sequence of frames are for thirteen scripts those each frame makes on its own from any
resting pen with the same cap, and these never change it.  The other five, the dial, the polar plot, the rings,
the clock and the vector field, set a cap and leave \<^verbatim>\<open>butt\<close>: their frames up to the first that sets it
(\<open>alone_settling\<close>) are those of a resting pen with the cap the context had, \<^verbatim>\<open>square\<close> when it is new, and all
frames after it those of a resting pen with \<^verbatim>\<open>butt\<close>; so the first frame on a new context may differ from the
same frame later.\<close>

theorem painter_frames_independent:
  assumes "rested cap p" and "rested cap q" and "rested cap' p'" and "rested cap' q'"
    and "rested ''butt'' r"
  shows "(frames (\<lambda>(ds, ts, w, h). strip_paint numstr textw th ds ts w h) p fs1
      = alone (\<lambda>(ds, ts, w, h). strip_paint numstr textw th ds ts w h) q fs1)
    \<and> (frames (\<lambda>(ds, ts, w, h). spark_paint numstr textw th ds ts w h) p fs1
      = alone (\<lambda>(ds, ts, w, h). spark_paint numstr textw th ds ts w h) q fs1)
    \<and> (frames (\<lambda>(ds, ts, w, h). steps_of (scope_paint th ds ts w h)) p fs1
      = alone (\<lambda>(ds, ts, w, h). steps_of (scope_paint th ds ts w h)) q fs1)
    \<and> (frames (\<lambda>(ds, ts, w, h). steps_of (xy_paint th ds ts w h)) p fs2
      = alone (\<lambda>(ds, ts, w, h). steps_of (xy_paint th ds ts w h)) q fs2)
    \<and> (frames (\<lambda>(ds, m, w, h). audio_paint numstr th ds m w h) p fs3
      = alone (\<lambda>(ds, m, w, h). audio_paint numstr th ds m w h) q fs3)
    \<and> (frames (\<lambda>(ds, m, w, h). bars_paint numstr th ds m w h) p fs3
      = alone (\<lambda>(ds, m, w, h). bars_paint numstr th ds m w h) q fs3)
    \<and> (frames (\<lambda>(ds, w, h). led_paint numstr th ds w h) p fs4
      = alone (\<lambda>(ds, w, h). led_paint numstr th ds w h) q fs4)
    \<and> (frames (\<lambda>(ds, st, w, h). heat_paint numstr th ds st w h) p fs5
      = alone (\<lambda>(ds, st, w, h). heat_paint numstr th ds st w h) q fs5)
    \<and> (frames (\<lambda>(ds, w, h). status_paint numstr textw th columns ds w h) p fs4
      = alone (\<lambda>(ds, w, h). status_paint numstr textw th columns ds w h) q fs4)
    \<and> (frames (\<lambda>(ds, w, h). segment_paint numstr th ds w h) p fs4
      = alone (\<lambda>(ds, w, h). segment_paint numstr th ds w h) q fs4)
    \<and> (frames (\<lambda>(ds, w, h). template_paint numstr th title ds w h) p fs4
      = alone (\<lambda>(ds, w, h). template_paint numstr th title ds w h) q fs4)
    \<and> (frames (\<lambda>(now, ds, st, w, h). radar_paint th now ds st w h) p' fs7
      = alone (\<lambda>(now, ds, st, w, h). radar_paint th now ds st w h) q' fs7)
    \<and> (frames (\<lambda>(ds, w, h). horizon_paint numstr th ds w h) p' fs8
      = alone (\<lambda>(ds, w, h). horizon_paint numstr th ds w h) q' fs8)
    \<and> (frames (\<lambda>(ds, st, w, h). dial_paint numstr th ds st w h) p' fs6
      = alone_settling (\<lambda>(ds, st, w, h). dial_paint numstr th ds st w h) q' r fs6)
    \<and> (frames (\<lambda>(ds, w, h). polar_paint th ds w h) p' fs8
      = alone_settling (\<lambda>(ds, w, h). polar_paint th ds w h) q' r fs8)
    \<and> (frames (\<lambda>(ds, w, h). progress_paint numstr th ds w h) p' fs10
      = alone_settling (\<lambda>(ds, w, h). progress_paint numstr th ds w h) q' r fs10)
    \<and> (frames (\<lambda>(now, ds, w, h). clock_paint local_time th now ds w h) p' fs9
      = alone_settling (\<lambda>(now, ds, w, h). clock_paint local_time th now ds w h) q' r fs9)
    \<and> (frames (\<lambda>(ds, w, h). vector_paint th ds w h) p' fs10
      = alone_settling (\<lambda>(ds, w, h). vector_paint th ds w h) q' r fs10)"
  by (intro conjI; rule strip.frames_independent spark.frames_independent scope.frames_independent xy.frames_independent
      audio.frames_independent bars.frames_independent led.frames_independent heat.frames_independent
      status.frames_independent seven_segment.frames_independent template.frames_independent
      dial.frames_from_any_cap radar.frames_independent polar.frames_from_any_cap progress.frames_from_any_cap
      clock.frames_from_any_cap vector.frames_from_any_cap horizon.frames_independent; fact)

section \<open>Needle and contacts\<close>

lemma shrinks: "0 < e \<Longrightarrow> \<exists>n. (82 / 100) ^ n * c < (e :: rat)"
proof -
  assume e: "0 < e"
  have c: "0 < \<bar>c\<bar> + 1" by (simp add: add_nonneg_pos)
  have "0 < real_of_rat (e / (\<bar>c\<bar> + 1))" using e c by simp
  then obtain n where "(82 / 100 :: real) ^ n < real_of_rat (e / (\<bar>c\<bar> + 1))"
    using real_arch_pow_inv[of "real_of_rat (e / (\<bar>c\<bar> + 1))" "82 / 100"] by auto
  then have "real_of_rat ((82 / 100) ^ n) < real_of_rat (e / (\<bar>c\<bar> + 1))" by (simp add: of_rat_power of_rat_divide)
  then have "(82 / 100) ^ n < e / (\<bar>c\<bar> + 1)" by (simp only: of_rat_less)
  then have "(82 / 100) ^ n * (\<bar>c\<bar> + 1) < e" using c by (simp only: pos_less_divide_eq)
  moreover have "(82 / 100) ^ n * c \<le> (82 / 100) ^ n * (\<bar>c\<bar> + 1)" by (rule mult_left_mono) simp_all
  ultimately show ?thesis using le_less_trans by blast
qed

text \<open>While the first dataset keeps a value, the needle's distance from it shrinks by the factor 0.82 in every
frame, whatever the timestamps and the other datasets, which brings it within any distance of the value after
finitely many frames; and the tip of the needle is always on the circle of radius \<open>r - 12\<close> around the pivot.\<close>

theorem needle_settles:
  assumes "\<forall>f \<in> set fs. \<exists>d ds. snd f = d # ds \<and> ds_value d = Num v"
  shows "smoothed (fold dial_on_frame fs st) - v = (82 / 100) ^ length fs * (smoothed st - v)"
    and "0 < e \<Longrightarrow> \<exists>n. (82 / 100) ^ n * \<bar>smoothed st - v\<bar> < e"
    and "(fst (needle_tip g d q) - dg_cx g)\<^sup>2 + (snd (needle_tip g d q) - dg_cy g)\<^sup>2 = (dg_r g - 12)\<^sup>2"
proof -
  show "smoothed (fold dial_on_frame fs st) - v = (82 / 100) ^ length fs * (smoothed st - v)"
    using assms
  proof (induction fs arbitrary: st)
    case (Cons f fs)
    obtain d ds where f: "snd f = d # ds" "ds_value d = Num v" using Cons.prems by auto
    have "smoothed (dial_on_frame f st) = smoothed st + 18 / 100 * (v - smoothed st)"
      using f by (simp add: dial_on_frame_def Let_def)
    then have "smoothed (dial_on_frame f st) - v = (82 / 100) * (smoothed st - v)" by (simp add: field_simps)
    then show ?case using Cons.IH[of "dial_on_frame f st"] Cons.prems by simp
  qed simp
  show "0 < e \<Longrightarrow> \<exists>n. (82 / 100) ^ n * \<bar>smoothed st - v\<bar> < e" by (rule shrinks)
  show "(fst (needle_tip g d q) - dg_cx g)\<^sup>2 + (snd (needle_tip g d q) - dg_cy g)\<^sup>2 = (dg_r g - 12)\<^sup>2"
    by (simp add: needle_tip_def Let_def case_prod_beta px_cos_def px_sin_def power_mult_distrib flip: distrib_right)
qed

text \<open>The radar keeps the contacts of the last four seconds.\<close>

lemma contact_times: "c \<in> set (frame_contacts now ds) \<Longrightarrow> c_ts c = now"
  by (induction now ds rule: frame_contacts.induct) (auto split: option.splits)

lemma trunc_mod_range: "0 \<le> x \<Longrightarrow> 0 < m \<Longrightarrow> 0 \<le> trunc_mod x m \<and> trunc_mod x m < m"
proof -
  assume a: "0 \<le> x" "0 < m"
  then have "int_operand (Num (x / m)) = \<lfloor>x / m\<rfloor>" by (simp add: int_operand_def)
  moreover have "of_int \<lfloor>x / m\<rfloor> * m \<le> x"
    using of_int_floor_le[of "x / m"] a(2) by (simp only: pos_le_divide_eq)
  moreover have "x < (of_int \<lfloor>x / m\<rfloor> + 1) * m"
    using floor_correct[of "x / m"] a(2) by (simp add: pos_divide_less_eq)
  ultimately show ?thesis by (simp add: trunc_mod_def algebra_simps)
qed

text \<open>C25: After any sequence of frames with timestamps that do not go back, the contacts are exactly the finite pairs
reported less than 4000 ms before the last frame, in order; the sweep is an angle in \<open>[0, 360)\<close>; and every
contact is drawn inside the scope's circle, with an opacity that is positive and at most 1.\<close>

theorem radar_contacts_recent:
  assumes "sorted (map fst fs)" and "fs \<noteq> []"
  shows "contacts (fold radar_on_frame fs radar_start)
        = filter (\<lambda>c. fst (last fs) - c_ts c < 4000) (concat (map (\<lambda>f. frame_contacts (fst f) (snd f)) fs))
    \<and> 0 \<le> sweep_deg (fold radar_on_frame fs radar_start) \<and> sweep_deg (fold radar_on_frame fs radar_start) < 360
    \<and> (\<forall>c \<in> set (contacts (fold radar_on_frame fs radar_start)).
        0 < contact_alpha (fst (last fs)) c \<and> contact_alpha (fst (last fs)) c \<le> 1
        \<and> (0 \<le> r \<longrightarrow> (fst (contact_point cx cy r c) - cx)\<^sup>2 + (snd (contact_point cx cy r c) - cy)\<^sup>2 \<le> r\<^sup>2))"
proof -
  let ?st = "fold radar_on_frame fs radar_start"
  have cont: "contacts (fold radar_on_frame gs radar_start)
      = filter (\<lambda>c. fst (last gs) - c_ts c < 4000) (concat (map (\<lambda>f. frame_contacts (fst f) (snd f)) gs))"
    if "sorted (map fst gs)" "gs \<noteq> []" for gs
    using that
  proof (induction gs rule: rev_induct)
    case (snoc f gs)
    show ?case
    proof (cases "gs = []")
      case False
      have "fst (last gs) \<le> fst f" using snoc.prems(1) False by (simp add: sorted_append)
      then have "filter (\<lambda>c. fst f - c_ts c < 4000) (filter (\<lambda>c. fst (last gs) - c_ts c < 4000) cs)
          = filter (\<lambda>c. fst f - c_ts c < 4000) cs" for cs
        by (induction cs) auto
      then show ?thesis using snoc False by (simp add: radar_on_frame_def Let_def sorted_append)
    qed (simp add: radar_on_frame_def radar_start_def Let_def)
  qed simp
  have con: "contacts ?st = filter (\<lambda>c. fst (last fs) - c_ts c < 4000) (concat (map (\<lambda>f. frame_contacts (fst f) (snd f)) fs))"
    by (rule cont[OF assms(1,2)])
  have sweep: "0 \<le> sweep_deg (fold radar_on_frame gs radar_start) \<and> sweep_deg (fold radar_on_frame gs radar_start) < 360" for gs
  proof (induction gs rule: rev_induct)
    case (snoc f gs)
    then show ?case by (auto simp: radar_on_frame_def Let_def intro!: conjunct1[OF trunc_mod_range] conjunct2[OF trunc_mod_range])
  qed (simp add: radar_start_def)
  have inside: "(fst (contact_point cx cy r c) - cx)\<^sup>2 + (snd (contact_point cx cy r c) - cy)\<^sup>2 \<le> r\<^sup>2" if "0 \<le> r" for c
  proof -
    let ?n = "real_of_rat (clamp01 (c_rng c / c_max c))"
    have n: "0 \<le> ?n" "?n \<le> 1" by simp_all
    have "(fst (contact_point cx cy r c) - cx)\<^sup>2 + (snd (contact_point cx cy r c) - cy)\<^sup>2 = (r * ?n)\<^sup>2"
      by (simp add: contact_point_def Let_def px_cos_def px_sin_def power_mult_distrib flip: distrib_right)
    also have "\<dots> \<le> r\<^sup>2" using n that by (intro power_mono mult_left_le) simp_all
    finally show ?thesis .
  qed
  have alpha: "0 < contact_alpha (fst (last fs)) c \<and> contact_alpha (fst (last fs)) c \<le> 1" if "c \<in> set (contacts ?st)" for c
  proof -
    note c = that[unfolded con]
    obtain f where f: "f \<in> set fs" "c \<in> set (frame_contacts (fst f) (snd f))" and young: "fst (last fs) - c_ts c < 4000"
      using c by auto
    obtain k where k: "k < length fs" "fs ! k = f" using f(1) by (auto simp: in_set_conv_nth)
    have "map fst fs ! k \<le> map fst fs ! (length fs - 1)"
      using k(1) assms(1) by (intro sorted_nth_mono) auto
    then have "fst f \<le> fst (last fs)" using k assms(2) by (simp add: last_conv_nth)
    then show ?thesis using contact_times[OF f(2)] young by (simp add: contact_alpha_def)
  qed
  show ?thesis using con sweep[of fs] inside alpha by blast
qed

section \<open>Concrete frames\<close>

lemma context_pen_rested: "rested ''square'' (context_pen family)"
  by (simp add: context_pen_def rested_def)

lemma butt_pen_rested: "rested ''butt'' ((context_pen family)\<lparr>line_cap := ''butt''\<rparr>)"
  by (simp add: context_pen_def rested_def)

theorem painter_frames_independent_witness:
  "frames (\<lambda>(ds, ts, w, h). strip_paint (\<lambda>_. []) (\<lambda>_ _. 0) example_theme ds ts w h) (context_pen ''Sans'')
       [([example_dataset 30], [[20, 30]], 300, 200)]
   = alone (\<lambda>(ds, ts, w, h). strip_paint (\<lambda>_. []) (\<lambda>_ _. 0) example_theme ds ts w h)
       ((context_pen [])\<lparr>fill_style := ''red''\<rparr>) [([example_dataset 30], [[20, 30]], 300, 200)]"
  by (rule conjunct1[OF painter_frames_independent[where cap = "''square''" and p' = "context_pen []" and q' = "context_pen []"
        and r = "(context_pen [])\<lparr>line_cap := ''butt''\<rparr>"]])
    (simp_all add: context_pen_def rested_def)

theorem needle_settles_witness:
  "smoothed (fold dial_on_frame [(1, [example_dataset 50]), (2, [example_dataset 50])] dial_start) - 50
   = (82 / 100) ^ length [(1 :: int, [example_dataset 50]), (2, [example_dataset 50])] * (smoothed dial_start - 50)"
  by (rule needle_settles(1)) (simp add: example_dataset_def)

theorem radar_contacts_recent_witness:
  "0 < contact_alpha (fst (last [(1000, [example_dataset 90, example_dataset 50]), (6000, [example_dataset 10, example_dataset 20])]))
      \<lparr>c_az = 10, c_rng = 20, c_max = 100, c_ts = 6000\<rparr>"
proof -
  let ?fs = "[(1000 :: int, [example_dataset 90, example_dataset 50]), (6000, [example_dataset 10, example_dataset 20])]"
  have mem: "\<lparr>c_az = 10, c_rng = 20, c_max = 100, c_ts = 6000\<rparr> \<in> set (contacts (fold radar_on_frame ?fs radar_start))"
    by code_simp
  have "sorted (map fst ?fs)" "?fs \<noteq> []" by simp_all
  from radar_contacts_recent[OF this] show ?thesis using mem by blast
qed

end
