(* ===== verification/Session_Report.thy ===== *)
theory Session_Report
  imports Js_Numbers "HOL-Library.Multiset" "HOL-Library.Char_ord" "HOL-Library.List_Lexorder"
begin

text \<open>
  The computations of the session report page (\<^verbatim>\<open>templates/reports/session-report.js\<close>): the order of the summary
  table, the axes of a chart, its minor grid lines, the boxes of its statistics labels and the colours of the series.
  The page hands the results to the browser and to Chart.js, which are not modelled: a scale is the function from a
  value to a pixel, the text of an axis value and the size of a box on the page are parameters. Numbers are exact
  rationals, so the rounding of floating point is not modelled, and \<^verbatim>\<open>toLowerCase\<close> is modelled for ASCII letters.

  \<^item> \<open>report_table_sorted\<close>: a click on a header sorts the table stably and toggles the direction.
  \<^item> \<open>report_axes_fit\<close>: the padded axis holds the data, ends on steps and has about as many as were asked for.
  \<^item> \<open>series_colours_repeat\<close>, \<open>label_in_plot\<close>, \<open>label_beside_line\<close>, \<open>minor_lines_between\<close>: colours, labels, grid lines.
\<close>

section \<open>Summary table\<close>

record cell =
  sort_value :: "string option"
  cell_text :: string

type_synonym row = "cell list"

datatype direction = Ascending | Descending

record table =
  rows :: "row list"
  classes :: "direction option list"  \<comment> \<open>\<^verbatim>\<open>sort-asc\<close> and \<^verbatim>\<open>sort-desc\<close> of each header\<close>

definition lower :: "char \<Rightarrow> char" where
  "lower c = (if 65 \<le> js_code c \<and> js_code c \<le> 90 then js_char (js_code c + 32) else c)"

text \<open>What \<^verbatim>\<open>valueOf\<close> returns: a number or an infinity in a numeric column, a text in the others.\<close>

datatype sort_key = MinusInfinity | Number rat | PlusInfinity | Word string

instantiation sort_key :: linorder
begin

fun less_eq_sort_key :: "sort_key \<Rightarrow> sort_key \<Rightarrow> bool" where
  "less_eq_sort_key MinusInfinity _ = True"
| "less_eq_sort_key (Number p) k = (case k of MinusInfinity \<Rightarrow> False | Number q \<Rightarrow> p \<le> q | _ \<Rightarrow> True)"
| "less_eq_sort_key PlusInfinity k = (case k of PlusInfinity \<Rightarrow> True | Word _ \<Rightarrow> True | _ \<Rightarrow> False)"
| "less_eq_sort_key (Word s) k = (case k of Word t \<Rightarrow> s \<le> t | _ \<Rightarrow> False)"

definition less_sort_key :: "sort_key \<Rightarrow> sort_key \<Rightarrow> bool" where
  "less_sort_key a b = (a \<le> b \<and> \<not> b \<le> a)"

instance
proof
  fix a b c :: sort_key
  show "a < b \<longleftrightarrow> a \<le> b \<and> \<not> b \<le> a" by (rule less_sort_key_def)
  show "a \<le> a" by (cases a) auto
  show "a \<le> b \<Longrightarrow> b \<le> c \<Longrightarrow> a \<le> c" by (cases a; cases b; cases c) auto
  show "a \<le> b \<Longrightarrow> b \<le> a \<Longrightarrow> a = b" by (cases a; cases b) auto
  show "a \<le> b \<or> b \<le> a" by (cases a; cases b) auto
qed

end

definition raw_value :: "cell \<Rightarrow> string" where
  "raw_value c = (case sort_value c of Some s \<Rightarrow> s | None \<Rightarrow> trim (cell_text c))"

text \<open>A row without the cell gives the empty text, which counts as 0 beside a number.\<close>

definition value_of :: "bool \<Rightarrow> direction \<Rightarrow> nat \<Rightarrow> row \<Rightarrow> sort_key" where
  "value_of numeric dir col r =
     (if length r \<le> col then (if numeric then Number 0 else Word [])
      else if numeric then (case parseFloat (raw_value (r ! col)) of
          Num q \<Rightarrow> Number q
        | _ \<Rightarrow> (case dir of Ascending \<Rightarrow> PlusInfinity | Descending \<Rightarrow> MinusInfinity))
      else Word (map lower (raw_value (r ! col))))"

definition compare_rows :: "bool \<Rightarrow> direction \<Rightarrow> nat \<Rightarrow> row \<Rightarrow> row \<Rightarrow> int" where
  "compare_rows numeric dir col a b =
     (let va = value_of numeric dir col a; vb = value_of numeric dir col b in
      if va < vb then (case dir of Ascending \<Rightarrow> - 1 | Descending \<Rightarrow> 1)
      else if va > vb then (case dir of Ascending \<Rightarrow> 1 | Descending \<Rightarrow> - 1)
      else 0)"

text \<open>\<^verbatim>\<open>Array.prototype.sort\<close> is stable; for a consistent comparison every stable sort returns the same array.\<close>

fun insert_by :: "('a \<Rightarrow> 'a \<Rightarrow> int) \<Rightarrow> 'a \<Rightarrow> 'a list \<Rightarrow> 'a list" where
  "insert_by cmp x [] = [x]"
| "insert_by cmp x (y # ys) = (if cmp x y \<le> 0 then x # y # ys else y # insert_by cmp x ys)"

definition js_sort :: "('a \<Rightarrow> 'a \<Rightarrow> int) \<Rightarrow> 'a list \<Rightarrow> 'a list" where
  "js_sort cmp xs = foldr (insert_by cmp) xs []"

definition click_direction :: "table \<Rightarrow> nat \<Rightarrow> direction" where
  "click_direction t col = (if classes t ! col = Some Ascending then Descending else Ascending)"

definition sortBy :: "bool list \<Rightarrow> nat \<Rightarrow> table \<Rightarrow> table" where
  "sortBy numeric col t =
     (let dir = click_direction t col in
      \<lparr>rows = js_sort (compare_rows (numeric ! col) dir col) (rows t),
       classes = (map (\<lambda>_. None) (classes t))[col := Some dir]\<rparr>)"

text \<open>The contract of a comparison, and what a sort by it returns.\<close>

locale comparison =
  fixes cmp :: "'a \<Rightarrow> 'a \<Rightarrow> int"
  assumes total: "cmp a b \<le> 0 \<or> cmp b a \<le> 0"
    and transitive: "cmp a b \<le> 0 \<Longrightarrow> cmp b c \<le> 0 \<Longrightarrow> cmp a c \<le> 0"
begin

lemma set_insert_by: "set (insert_by cmp x ys) = insert x (set ys)"
  by (induction ys) auto

lemma insert_by_sorted: "sorted_wrt (\<lambda>a b. cmp a b \<le> 0) ys \<Longrightarrow> sorted_wrt (\<lambda>a b. cmp a b \<le> 0) (insert_by cmp x ys)"
proof (induction ys)
  case (Cons y ys)
  then show ?case using total[of x y] transitive[of x y] by (auto simp: set_insert_by)
qed simp

lemma filter_insert_by:
  assumes "\<And>y. P y \<Longrightarrow> P x \<Longrightarrow> cmp x y \<le> 0"
  shows "filter P (insert_by cmp x ys) = filter P (x # ys)"
  using assms by (induction ys) auto

lemma js_sort_sorted: "sorted_wrt (\<lambda>a b. cmp a b \<le> 0) (js_sort cmp xs)"
  by (induction xs) (simp_all add: js_sort_def insert_by_sorted)

lemma js_sort_stable:
  "filter (\<lambda>y. cmp k y \<le> 0 \<and> cmp y k \<le> 0) (js_sort cmp xs) = filter (\<lambda>y. cmp k y \<le> 0 \<and> cmp y k \<le> 0) xs"
proof (induction xs)
  case (Cons x xs)
  have "filter (\<lambda>y. cmp k y \<le> 0 \<and> cmp y k \<le> 0) (insert_by cmp x (js_sort cmp xs))
      = filter (\<lambda>y. cmp k y \<le> 0 \<and> cmp y k \<le> 0) (x # js_sort cmp xs)"
    by (rule filter_insert_by) (blast intro: transitive)
  then show ?case using Cons.IH by (simp add: js_sort_def)
qed (simp add: js_sort_def)

end

lemma insert_by_mset: "mset (insert_by cmp x ys) = mset (x # ys)"
  by (induction ys) auto

lemma js_sort_mset: "mset (js_sort cmp xs) = mset xs"
  by (induction xs) (simp_all add: js_sort_def insert_by_mset)

text \<open>Rows are compared by their keys, in the direction of the click.\<close>

lemma compare_rows_le:
  "compare_rows numeric dir col a b \<le> 0 \<longleftrightarrow>
     (case dir of Ascending \<Rightarrow> value_of numeric dir col a \<le> value_of numeric dir col b
      | Descending \<Rightarrow> value_of numeric dir col b \<le> value_of numeric dir col a)"
  by (cases dir) (auto simp: compare_rows_def Let_def)

interpretation row_order: comparison "compare_rows numeric dir col"
  by unfold_locales (cases dir; auto simp: compare_rows_le)+

definition holds_number :: "nat \<Rightarrow> row \<Rightarrow> bool" where
  "holds_number col r \<longleftrightarrow> (\<exists>q. parseFloat (raw_value (r ! col)) = Num q)"

text \<open>A click on a header of the summary table keeps the rows and brings them in the order of the column, in the
direction opposite to that of an ascending column and ascending otherwise; rows that compare equal keep their order;
in a numeric column the rows whose cell holds no number come last in both directions; and the header is the only one
marked, so a second click reverses the direction.\<close>

theorem report_table_sorted:
  assumes "col < length (classes t)" and "t' = sortBy numeric col t" and "dir = click_direction t col"
  shows "mset (rows t') = mset (rows t)
    \<and> sorted_wrt (\<lambda>a b. compare_rows (numeric ! col) dir col a b \<le> 0) (rows t')
    \<and> (\<forall>k. filter (\<lambda>r. value_of (numeric ! col) dir col r = k) (rows t')
        = filter (\<lambda>r. value_of (numeric ! col) dir col r = k) (rows t))
    \<and> (numeric ! col \<and> (\<forall>r \<in> set (rows t). col < length r) \<longrightarrow>
        (\<forall>j < length (rows t'). \<forall>i < j. \<not> holds_number col (rows t' ! i) \<longrightarrow> \<not> holds_number col (rows t' ! j)))
    \<and> click_direction t' col = (if dir = Ascending then Descending else Ascending)
    \<and> (\<forall>c < length (classes t). c \<noteq> col \<longrightarrow> classes t' ! c = None)"
proof -
  let ?cmp = "compare_rows (numeric ! col) dir col" and ?key = "value_of (numeric ! col) dir col"
  have rows: "rows t' = js_sort ?cmp (rows t)" and cls: "classes t' = (map (\<lambda>_. None) (classes t))[col := Some dir]"
    using assms(2,3) by (simp_all add: sortBy_def Let_def)
  have same_rows: "mset (rows t') = mset (rows t)" by (simp add: rows js_sort_mset)
  have sorted: "sorted_wrt (\<lambda>a b. ?cmp a b \<le> 0) (rows t')" unfolding rows by (rule row_order.js_sort_sorted)
  have same: "?cmp r s \<le> 0 \<and> ?cmp s r \<le> 0 \<longleftrightarrow> ?key s = ?key r" for r s
    by (cases dir) (auto simp: compare_rows_le)
  have stable: "filter (\<lambda>r. ?key r = k) (rows t') = filter (\<lambda>r. ?key r = k) (rows t)" for k
  proof (cases "\<exists>r \<in> set (rows t). ?key r = k")
    case True
    then obtain r where "?key r = k" by blast
    then show ?thesis using row_order.js_sort_stable[where k = r and xs = "rows t", of "numeric ! col" dir col] by (simp add: same rows)
  next
    case False
    have "set (js_sort ?cmp (rows t)) = set (rows t)" using js_sort_mset by (metis set_mset_mset)
    then show ?thesis using False by (auto simp: rows filter_empty_conv)
  qed
  have toggled: "click_direction t' col = (if dir = Ascending then Descending else Ascending)"
    using assms(1) by (cases dir) (simp_all add: click_direction_def cls)
  have others: "\<forall>c < length (classes t). c \<noteq> col \<longrightarrow> classes t' ! c = None" by (simp add: cls)
  have last: "\<not> holds_number col (rows t' ! j)"
    if num: "numeric ! col" "i < j" "j < length (rows t')" "\<forall>r \<in> set (rows t). col < length r"
      and none: "\<not> holds_number col (rows t' ! i)" for i j
  proof -
    have "set (rows t') = set (rows t)" unfolding rows using js_sort_mset by (metis set_mset_mset)
    then have len: "col < length (rows t' ! i)" "col < length (rows t' ! j)" using num(2-4) by auto
    have le: "?cmp (rows t' ! i) (rows t' ! j) \<le> 0" using sorted_wrt_nth_less[OF sorted num(2,3)] .
    have key: "?key r = (case dir of Ascending \<Rightarrow> PlusInfinity | Descending \<Rightarrow> MinusInfinity)
        \<longleftrightarrow> \<not> holds_number col r" if "col < length r" for r
      using that num(1) by (auto simp: value_of_def holds_number_def split: jsval.splits direction.splits)
    have "?key (rows t' ! j) = (case dir of Ascending \<Rightarrow> PlusInfinity | Descending \<Rightarrow> MinusInfinity)"
    proof (cases dir)
      case Ascending
      have "?key (rows t' ! i) = PlusInfinity" using none key[OF len(1)] Ascending by simp
      then have "PlusInfinity \<le> ?key (rows t' ! j)" using le Ascending by (simp add: compare_rows_le)
      moreover have "?key r \<noteq> Word s" if "col < length r" for r s
        using that num(1) by (auto simp: value_of_def split: jsval.splits direction.splits)
      ultimately show ?thesis using len(2) Ascending by (cases "?key (rows t' ! j)") auto
    next
      case Descending
      have "?key (rows t' ! i) = MinusInfinity" using none key[OF len(1)] Descending by simp
      then have "?key (rows t' ! j) \<le> MinusInfinity" using le Descending by (simp add: compare_rows_le)
      then show ?thesis using Descending by (cases "?key (rows t' ! j)") auto
    qed
    then show ?thesis using key[OF len(2)] by blast
  qed
  show ?thesis using same_rows sorted stable toggled others last by blast
qed

section \<open>Axes\<close>

text \<open>\<^verbatim>\<open>Math.floor(Math.log10(q))\<close> for a positive \<open>q\<close>, by counting digits.\<close>

fun digit_count :: "nat \<Rightarrow> nat" where
  "digit_count n = (if n = 0 then 0 else Suc (digit_count (n div 10)))"

declare digit_count.simps [simp del]

definition log10_floor :: "rat \<Rightarrow> int" where
  "log10_floor q = (if 1 \<le> q then int (digit_count (nat \<lfloor>q\<rfloor>)) - 1
     else - int (digit_count (nat (\<lceil>1 / q\<rceil> - 1))))"

definition ten_to :: "int \<Rightarrow> rat" where
  "ten_to e = (if 0 \<le> e then 10 ^ nat e else 1 / 10 ^ nat (- e))"

definition niceStep :: "rat \<Rightarrow> nat \<Rightarrow> rat" where
  "niceStep extent targetCount =
     (if extent \<le> 0 \<or> targetCount < 2 then 1
      else (let rough = extent / of_nat targetCount; magnitude = ten_to (log10_floor rough); norm = rough / magnitude;
                step = (if norm \<le> 1 then 1 else if norm \<le> 2 then 2 else if norm \<le> 5 then 5 else 10)
        in step * magnitude))"

record axis =
  axis_min :: rat
  axis_max :: rat
  axis_step :: rat

text \<open>The bounds of finite data; equal ends are moved apart.\<close>

definition niceBounds :: "rat \<Rightarrow> rat \<Rightarrow> nat \<Rightarrow> axis" where
  "niceBounds lo hi targetCount =
     (if lo = hi then \<lparr>axis_min = lo - 1, axis_max = lo + 1, axis_step = 1 / 2\<rparr>
      else (let step = niceStep (hi - lo) targetCount
        in \<lparr>axis_min = of_int \<lfloor>lo / step\<rfloor> * step, axis_max = of_int \<lceil>hi / step\<rceil> * step, axis_step = step\<rparr>))"

lemma digit_count_le: "digit_count n \<le> k \<longleftrightarrow> n < 10 ^ k"
proof (induction n arbitrary: k rule: digit_count.induct)
  case (1 n)
  show ?case
  proof (cases "n = 0")
    case False
    show ?thesis
    proof (cases k)
      case (Suc j)
      have "n div 10 < 10 ^ j \<longleftrightarrow> n < 10 ^ k" by (simp add: Suc div_less_iff_less_mult mult.commute)
      then show ?thesis using 1[OF False, of j] False by (subst digit_count.simps) (simp add: Suc)
    qed (use False in \<open>subst digit_count.simps, simp\<close>)
  qed (subst digit_count.simps, simp)
qed

lemma ten_to_pos [simp]: "0 < ten_to e"
  by (simp add: ten_to_def)

lemma ten_to_Suc: "ten_to (e + 1) = 10 * ten_to e"
proof (cases "0 \<le> e")
  case True
  then show ?thesis by (simp add: ten_to_def nat_add_distrib)
next
  case False
  then obtain k where k: "e = - int (Suc k)" by (metis not_le neg_int_cases of_nat_Suc gr0_implies_Suc)
  then show ?thesis by (cases k) (auto simp: ten_to_def nat_add_distrib)
qed

lemma log10_floor_bounds:
  assumes "0 < q"
  shows "ten_to (log10_floor q) \<le> q" and "q < 10 * ten_to (log10_floor q)"
proof -
  have "ten_to (log10_floor q) \<le> q \<and> q < ten_to (log10_floor q + 1)"
  proof (cases "1 \<le> q")
    case True
    define n where "n = nat \<lfloor>q\<rfloor>"
    have n: "of_nat n \<le> q" "q < of_nat n + 1" using True floor_correct[of q] by (simp_all add: n_def)
    have "0 < n" using True by (simp add: n_def)
    then obtain k where k: "digit_count n = Suc k" by (cases "digit_count n") (use digit_count_le[of n 0] in auto)
    have "n < 10 ^ Suc k" and "\<not> n < 10 ^ k" using digit_count_le[of n "Suc k"] digit_count_le[of n k] k by auto
    then have "of_nat n + 1 \<le> (10 ^ Suc k :: rat)" and "(10 ^ k :: rat) \<le> of_nat n"
      by (metis Suc_leI of_nat_Suc of_nat_le_iff of_nat_numeral of_nat_power add.commute,
          metis not_less of_nat_le_iff of_nat_numeral of_nat_power)
    then have "10 ^ k \<le> q" "q < 10 ^ Suc k" using n by linarith+
    moreover have "log10_floor q = int k" using True by (simp add: log10_floor_def k flip: n_def)
    moreover have "nat (int k + 1) = Suc k" by simp
    ultimately show ?thesis by (simp add: ten_to_def del: power_Suc)
  next
    case False
    define n where "n = nat (\<lceil>1 / q\<rceil> - 1)"
    have "1 < 1 / q" using assms False by simp
    then have c: "1 < \<lceil>1 / q\<rceil>" by (simp add: less_ceiling_iff)
    then have "int n = \<lceil>1 / q\<rceil> - 1" unfolding n_def by (metis int_nat_eq diff_ge_0_iff_ge less_imp_le)
    then have "(of_nat n :: rat) = of_int \<lceil>1 / q\<rceil> - 1" by (metis of_int_1 of_int_diff of_int_of_nat_eq)
    then have n: "of_nat n < 1 / q" "1 / q \<le> of_nat n + 1" "0 < n"
      using ceiling_correct[of "1 / q"] c by (simp_all add: n_def)
    then obtain k where k: "digit_count n = Suc k" by (cases "digit_count n") (use digit_count_le[of n 0] in auto)
    have "n < 10 ^ Suc k" and "\<not> n < 10 ^ k" using digit_count_le[of n "Suc k"] digit_count_le[of n k] k by auto
    then have p: "of_nat n + 1 \<le> (10 ^ Suc k :: rat)" and p': "(10 ^ k :: rat) \<le> of_nat n"
      by (metis Suc_leI of_nat_Suc of_nat_le_iff of_nat_numeral of_nat_power add.commute,
          metis not_less of_nat_le_iff of_nat_numeral of_nat_power)
    have "1 / q \<le> 10 ^ Suc k" "10 ^ k < 1 / q" using n p p' by linarith+
    then have "1 / 10 ^ Suc k \<le> q" "q < 1 / 10 ^ k"
      using assms by (simp_all add: field_simps del: power_Suc)
    moreover have "log10_floor q = - int (Suc k)" using False by (simp add: log10_floor_def k flip: n_def)
    ultimately show ?thesis by (cases "k = 0") (auto simp: ten_to_def nat_add_distrib)
  qed
  then show "ten_to (log10_floor q) \<le> q" "q < 10 * ten_to (log10_floor q)" by (simp_all add: ten_to_Suc)
qed

text \<open>A step is 1, 2 or 5 times a power of ten, at least the rough step and less than two and a half times it.\<close>

lemma niceStep_round:
  assumes "0 < extent" and "2 \<le> n"
  shows "\<exists>s e. s \<in> {1, 2, 5} \<and> niceStep extent n = s * ten_to e"
    and "extent / of_nat n \<le> niceStep extent n" and "2 * niceStep extent n < 5 * (extent / of_nat n)"
proof -
  define rough where "rough = extent / of_nat n"
  define m where "m = ten_to (log10_floor rough)"
  define s :: rat where "s = (if rough / m \<le> 1 then 1 else if rough / m \<le> 2 then 2 else if rough / m \<le> 5 then 5 else 10)"
  have "(extent \<le> 0 \<or> n < 2) = False" using assms by auto
  then have step: "niceStep extent n = s * m" by (simp only: niceStep_def Let_def if_False rough_def m_def s_def)
  have "0 < rough" using assms by (simp add: rough_def)
  then have m: "0 < m" "m \<le> rough" "rough < 10 * m" using log10_floor_bounds[of rough] by (simp_all add: m_def)
  then have s: "s = (if rough \<le> m then 1 else if rough \<le> 2 * m then 2 else if rough \<le> 5 * m then 5 else 10)"
    by (simp add: s_def pos_divide_le_eq)
  show "\<exists>s e. s \<in> {1, 2, 5} \<and> niceStep extent n = s * ten_to e"
  proof (cases "s = 10")
    case True
    then have "niceStep extent n = 1 * ten_to (log10_floor rough + 1)" by (simp add: step ten_to_Suc m_def)
    then show ?thesis by blast
  next
    case False
    then have "s \<in> {1, 2, 5}" by (simp add: s_def split: if_splits)
    then show ?thesis using step m_def by blast
  qed
  show "extent / of_nat n \<le> niceStep extent n" "2 * niceStep extent n < 5 * (extent / of_nat n)"
    using m unfolding step s rough_def[symmetric] by auto
qed

text \<open>The axis of finite data holds the data, both of its ends are on steps and less than a step beyond the data, a
step is 1, 2 or 5 times a power of ten, and the number of steps is within two fifths and one more than the number asked
for; equal ends give an axis of four half steps around them.\<close>

lemma nice_axis_bounds:
  assumes "lo \<le> hi" and "2 \<le> n" and "b = niceBounds lo hi n"
  shows "axis_min b \<le> lo" and "hi \<le> axis_max b"
    and "lo = hi \<Longrightarrow> axis_max b - axis_min b = 4 * axis_step b"
    and "lo < hi \<Longrightarrow> \<exists>m. axis_max b - axis_min b = of_nat m * axis_step b \<and> 2 * n < 5 * m \<and> m \<le> n + 1"
    and "lo < hi \<Longrightarrow> lo - axis_min b < axis_step b \<and> axis_max b - hi < axis_step b
      \<and> (\<exists>j. axis_min b = of_int j * axis_step b) \<and> (\<exists>s e. s \<in> {1, 2, 5} \<and> axis_step b = s * ten_to e)"
proof -
  define st where "st = niceStep (hi - lo) n"
  have *: "axis_min b \<le> lo \<and> hi \<le> axis_max b \<and> lo - axis_min b < st \<and> axis_max b - hi < st \<and> axis_step b = st
      \<and> axis_min b = of_int \<lfloor>lo / st\<rfloor> * st
      \<and> (\<exists>m. axis_max b - axis_min b = of_nat m * st \<and> 2 * n < 5 * m \<and> m \<le> n + 1)
      \<and> (\<exists>s e. s \<in> {1, 2, 5} \<and> st = s * ten_to e)" if less: "lo < hi"
  proof -
    have ext: "0 < hi - lo" using less by simp
    note round = niceStep_round[OF ext assms(2), folded st_def]
    have n: "(0 :: rat) < of_nat n" using assms(2) by simp
    have products: "hi - lo \<le> u \<Longrightarrow> u < hi - lo + 2 * st \<Longrightarrow> hi - lo \<le> v \<Longrightarrow> 2 * v < 5 * (hi - lo)
        \<Longrightarrow> 2 * v < 5 * u \<and> u < v + 2 * st" for u v
      using mult_left_mono[of "hi - lo" u 5] by (auto intro: less_le_trans)
    have st: "0 < st" using round(2) ext n by (meson divide_pos_pos less_le_trans)
    have b: "b = \<lparr>axis_min = of_int \<lfloor>lo / st\<rfloor> * st, axis_max = of_int \<lceil>hi / st\<rceil> * st, axis_step = st\<rparr>"
      using less assms(3) by (simp add: niceBounds_def Let_def st_def)
    have f: "of_int \<lfloor>lo / st\<rfloor> * st \<le> lo" "lo < (of_int \<lfloor>lo / st\<rfloor> + 1) * st"
      using floor_correct[of "lo / st"] st by (simp_all only: pos_le_divide_eq pos_divide_less_eq of_int_add of_int_1)
    have c: "hi \<le> of_int \<lceil>hi / st\<rceil> * st" "(of_int \<lceil>hi / st\<rceil> - 1) * st < hi"
      using ceiling_correct[of "hi / st"] st by (simp_all only: pos_divide_le_eq pos_less_divide_eq)
    define k where "k = \<lceil>hi / st\<rceil> - \<lfloor>lo / st\<rfloor>"
    have k: "of_int k * st = of_int \<lceil>hi / st\<rceil> * st - of_int \<lfloor>lo / st\<rfloor> * st" by (simp add: k_def left_diff_distrib)
    have "hi - lo \<le> of_int k * st" "of_int k * st < hi - lo + 2 * st"
      using f c unfolding k by (simp_all add: algebra_simps)
    moreover have "hi - lo \<le> of_nat n * st" "2 * (of_nat n * st) < 5 * (hi - lo)"
      using round(2,3) n by (simp_all add: field_simps)
    ultimately have "2 * (of_nat n * st) < 5 * (of_int k * st)" "of_int k * st < of_nat n * st + 2 * st"
      using products[of "of_int k * st" "of_nat n * st"] by blast+
    then have "(2 * of_nat n) * st < (5 * of_int k) * st" "of_int k * st < (of_nat n + 2) * st"
      by (simp_all add: algebra_simps)
    then have "(2 * of_nat n :: rat) < 5 * of_int k" "(of_int k :: rat) < of_nat n + 2"
      using st by (simp_all only: mult_less_cancel_right_pos)
    then have kb: "2 * int n < 5 * k" "k < int n + 2" by linarith+
    have "0 \<le> k" using kb(1) by linarith
    then have "(of_nat (nat k) :: rat) = of_int k" by simp
    then have "of_int \<lceil>hi / st\<rceil> * st - of_int \<lfloor>lo / st\<rfloor> * st = of_nat (nat k) * st" using k by simp
    moreover have "2 * n < 5 * nat k" "nat k \<le> n + 1" using kb by linarith+
    ultimately have "\<exists>m. of_int \<lceil>hi / st\<rceil> * st - of_int \<lfloor>lo / st\<rfloor> * st = of_nat m * st \<and> 2 * n < 5 * m \<and> m \<le> n + 1"
      by blast
    moreover have "lo - of_int \<lfloor>lo / st\<rfloor> * st < st" "of_int \<lceil>hi / st\<rceil> * st - hi < st"
      using f(2) c(2) unfolding distrib_right left_diff_distrib by linarith+
    ultimately show ?thesis using f(1) c(1) round(1) by (simp only: b axis.simps)
  qed
  have eq: "b = \<lparr>axis_min = lo - 1, axis_max = lo + 1, axis_step = 1 / 2\<rparr>" if "lo = hi"
    using that assms(3) by (simp add: niceBounds_def)
  show "axis_min b \<le> lo" "hi \<le> axis_max b" using * eq assms(1) by (cases "lo = hi"; simp)+
  show "lo = hi \<Longrightarrow> axis_max b - axis_min b = 4 * axis_step b" using eq by simp
  show "lo < hi \<Longrightarrow> \<exists>m. axis_max b - axis_min b = of_nat m * axis_step b \<and> 2 * n < 5 * m \<and> m \<le> n + 1"
    using * by auto
  show "lo < hi \<Longrightarrow> lo - axis_min b < axis_step b \<and> axis_max b - hi < axis_step b
      \<and> (\<exists>j. axis_min b = of_int j * axis_step b) \<and> (\<exists>s e. s \<in> {1, 2, 5} \<and> axis_step b = s * ten_to e)"
    using * by auto
qed

section \<open>A chart\<close>

text \<open>\<^verbatim>\<open>formatAxisValue\<close>; how a browser writes a number is a parameter.\<close>

definition formatAxisValue :: "(rat \<Rightarrow> string) \<Rightarrow> (rat \<Rightarrow> string) \<Rightarrow> jsval \<Rightarrow> string" where
  "formatAxisValue exponential locale_text v = (case v of
       Num q \<Rightarrow> if q \<noteq> 0 \<and> (\<bar>q\<bar> < 1 / 1000 \<or> 10 ^ 6 \<le> \<bar>q\<bar>) then exponential q else locale_text q
     | _ \<Rightarrow> [])"

definition x_range :: "rat list \<Rightarrow> rat \<times> rat" where
  "x_range ts = (if ts = [] then (0, 1) else (hd ts, last ts))"

fun y_loop :: "(rat \<times> rat) option \<Rightarrow> rat list \<Rightarrow> (rat \<times> rat) option" where
  "y_loop acc [] = acc"
| "y_loop acc (v # vs) = y_loop (Some (case acc of None \<Rightarrow> (v, v)
     | Some (lo, hi) \<Rightarrow> (if v < lo then v else lo, if v > hi then v else hi))) vs"

definition y_range :: "rat list \<Rightarrow> rat \<times> rat" where
  "y_range vs = (case y_loop None vs of None \<Rightarrow> (0, 1) | Some r \<Rightarrow> r)"

definition ticks_target :: "rat \<Rightarrow> rat \<Rightarrow> nat" where
  "ticks_target extent room = nat (max 2 \<lfloor>extent / room\<rfloor>)"

text \<open>The axes of a chart in a box of the given size: the horizontal one ends with the samples.\<close>

definition chart_axes :: "rat \<Rightarrow> rat \<Rightarrow> rat list \<Rightarrow> rat list \<Rightarrow> axis \<times> axis" where
  "chart_axes hostWidth hostHeight ts vals =
     (let (xMin, xMax) = x_range ts; (yMin, yMax) = y_range vals;
          xNice = niceBounds xMin xMax (ticks_target hostWidth 80)
      in (\<lparr>axis_min = xMin, axis_max = xMax, axis_step = axis_step xNice\<rparr>,
          niceBounds yMin yMax (ticks_target hostHeight 50)))"

text \<open>The horizontal range of the overlay chart: that of all series with samples.\<close>

fun overlay_loop :: "(rat \<times> rat) option \<Rightarrow> rat list list \<Rightarrow> (rat \<times> rat) option" where
  "overlay_loop acc [] = acc"
| "overlay_loop acc (ts # rest) = overlay_loop (if ts = [] then acc else Some (case acc of
       None \<Rightarrow> (hd ts, last ts) | Some (lo, hi) \<Rightarrow> (min lo (hd ts), max hi (last ts)))) rest"

definition overlay_range :: "rat list list \<Rightarrow> rat \<times> rat" where
  "overlay_range series = (case overlay_loop None series of None \<Rightarrow> (0, 1) | Some r \<Rightarrow> r)"

text \<open>The minor grid lines between the ticks of a scale, in pixels.\<close>

definition subdivisions :: "rat \<Rightarrow> nat" where
  "subdivisions spacing = (if spacing < 40 then 1 else if 80 \<le> spacing then 5 else 2)"

definition minor_between :: "nat \<Rightarrow> rat \<Rightarrow> rat \<Rightarrow> rat list" where
  "minor_between n a b = map (\<lambda>k. a + (b - a) * (of_nat k / of_nat n)) [1..<n]"

definition drawMinor :: "(rat \<Rightarrow> rat) \<Rightarrow> rat list \<Rightarrow> rat list" where
  "drawMinor px ticks =
     (if length ticks < 2 then []
      else (let n = subdivisions \<bar>px (ticks ! 1) - px (ticks ! 0)\<bar> in
        concat (map (\<lambda>i. minor_between n (px (ticks ! i)) (px (ticks ! (i + 1)))) [0..<length ticks - 1])))"

text \<open>The box of a statistics label beside its line, if the value is on the axis.\<close>

record plot_area =
  pa_left :: rat
  pa_right :: rat
  pa_top :: rat
  pa_bottom :: rat

definition label_y :: "plot_area \<Rightarrow> rat \<Rightarrow> rat" where
  "label_y a yPx =
     (let h = 16; midY = (pa_top a + pa_bottom a) / 2;
          y = (if midY \<le> yPx then yPx - h - 3 else yPx + 3)
      in max (pa_top a + 1) (min (pa_bottom a - h - 1) y))"

definition label_box :: "axis \<Rightarrow> (rat \<Rightarrow> rat) \<Rightarrow> plot_area \<Rightarrow> rat \<Rightarrow> jsval \<Rightarrow> (rat \<times> rat \<times> rat \<times> rat) option" where
  "label_box yScale px a textWidth v = (case v of
       Num q \<Rightarrow> (if q < axis_min yScale \<or> axis_max yScale < q then None
         else (let w = textWidth + 2 * 4 in Some (pa_right a - w - 4, label_y a (px q), w, 16)))
     | _ \<Rightarrow> None)"

text \<open>The colour of a series, and the dashes of its line.\<close>

definition hue :: "nat \<Rightarrow> nat" where
  "hue i = (210 + i * 48) mod 360"

definition paletteColor :: "nat \<Rightarrow> string \<times> string" where
  "paletteColor i = (''hsl('' @ nat_digits (hue i) @ '', 68%, 36%)'', ''hsla('' @ nat_digits (hue i) @ '', 68%, 36%, 0.08)'')"

definition dashPattern :: "string option \<Rightarrow> nat list" where
  "dashPattern lineStyle =
     (let s = map lower (case lineStyle of Some s \<Rightarrow> if s = [] then ''solid'' else s | None \<Rightarrow> ''solid'')
      in if s = ''dashed'' then [6, 4] else if s = ''dotted'' then [1, 3] else [])"

section \<open>Properties of a chart\<close>

lemma y_loop_bounds:
  "y_loop acc vs = Some (lo, hi) \<Longrightarrow>
     (\<forall>v \<in> set vs. lo \<le> v \<and> v \<le> hi) \<and> (\<forall>l h. acc = Some (l, h) \<longrightarrow> lo \<le> l \<and> h \<le> hi)
     \<and> ((\<forall>l h. acc = Some (l, h) \<longrightarrow> l \<le> h) \<longrightarrow> lo \<le> hi)"
proof (induction acc vs rule: y_loop.induct)
  case (2 acc v vs)
  then show ?case by (cases acc) (auto split: if_splits)
qed simp

lemma y_loop_None: "y_loop acc vs = None \<longleftrightarrow> acc = None \<and> vs = []"
  by (induction acc vs rule: y_loop.induct) auto

lemma y_range_holds:
  "fst (y_range vs) \<le> snd (y_range vs)" "v \<in> set vs \<Longrightarrow> fst (y_range vs) \<le> v \<and> v \<le> snd (y_range vs)"
proof -
  have "fst (y_range vs) \<le> snd (y_range vs) \<and> (\<forall>v \<in> set vs. fst (y_range vs) \<le> v \<and> v \<le> snd (y_range vs))"
  proof (cases "y_loop None vs")
    case None
    then show ?thesis by (simp add: y_range_def y_loop_None)
  next
    case (Some r)
    then show ?thesis using y_loop_bounds[of None vs "fst r" "snd r"] by (auto simp: y_range_def)
  qed
  then show "fst (y_range vs) \<le> snd (y_range vs)" "v \<in> set vs \<Longrightarrow> fst (y_range vs) \<le> v \<and> v \<le> snd (y_range vs)" by auto
qed


text \<open>Fifteen consecutive series have different colours; the sixteenth has the first one again.\<close>

lemma hue_inj: "i < 15 \<Longrightarrow> j < 15 \<Longrightarrow> hue i = hue j \<Longrightarrow> i = j"
proof -
  have "list_all (\<lambda>i. list_all (\<lambda>j. hue i = hue j \<longrightarrow> i = j) [0..<15]) [0..<15]" by code_simp
  then have all: "\<forall>i \<in> {0..<15}. \<forall>j \<in> {0..<15}. hue i = hue j \<longrightarrow> i = j" by (simp only: list_all_iff set_upt)
  assume "i < 15" "j < 15" "hue i = hue j"
  then have "i \<in> {0..<15}" "j \<in> {0..<15}" by simp_all
  then show "i = j" using all \<open>hue i = hue j\<close> by blast
qed

lemma series_colours_repeat:
  "i < 15 \<Longrightarrow> j < 15 \<Longrightarrow> paletteColor i = paletteColor j \<Longrightarrow> i = j" "paletteColor (i + 15) = paletteColor i"
proof -
  show "i = j" if "i < 15" "j < 15" "paletteColor i = paletteColor j"
    using that(3) by (intro hue_inj[OF that(1,2)] nat_digits_inj) (simp add: paletteColor_def)
  have "(210 + (i + 15) * 48) mod 360 = (210 + i * 48 + 2 * 360) mod 360" by (simp add: algebra_simps)
  also have "\<dots> = (210 + i * 48) mod 360" by (rule mod_mult_self1)
  finally show "paletteColor (i + 15) = paletteColor i" by (simp add: paletteColor_def hue_def)
qed

text \<open>A label stays in a plot that is at least 18 pixels high; if its line is in the plot and the plot is high enough,
the label does not touch the line.\<close>

lemma label_in_plot:
  assumes "pa_top a + 18 \<le> pa_bottom a"
  shows "pa_top a + 1 \<le> label_y a y" and "label_y a y + 16 \<le> pa_bottom a - 1"
  using assms by (auto simp: label_y_def Let_def)

lemma label_beside_line:
  assumes "pa_top a \<le> y" and "y \<le> pa_bottom a" and "pa_top a + 40 \<le> pa_bottom a"
  shows "label_y a y + 16 < y \<or> y < label_y a y"
  using assms by (auto simp: label_y_def Let_def)

text \<open>Minor lines divide the space between two ticks evenly.\<close>

lemma minor_lines_between:
  assumes "p \<in> set (minor_between n a b)" and "a < b"
  shows "a < p \<and> p < b"
proof -
  obtain k where k: "1 \<le> k" "k < n" "p = a + (b - a) * (of_nat k / of_nat n)" using assms(1) by (auto simp: minor_between_def)
  have "(0 :: rat) < of_nat k / of_nat n" "(of_nat k :: rat) / of_nat n < 1" using k(1,2) by simp_all
  then have "0 < (b - a) * (of_nat k / of_nat n)" and "(b - a) * (of_nat k / of_nat n) < (b - a) * 1"
    using assms(2) by (intro mult_pos_pos mult_strict_left_mono; simp only: diff_gt_0_iff_gt)+
  then show ?thesis by (simp add: k(3))
qed

section \<open>Concrete reports\<close>

theorem report_table_sorted_witness:
  "click_direction (sortBy [True] 0 \<lparr>rows = [[\<lparr>sort_value = Some ''7'', cell_text = []\<rparr>]], classes = [None]\<rparr>) 0 = Descending"
proof -
  let ?t = "\<lparr>rows = [[\<lparr>sort_value = Some ''7'', cell_text = []\<rparr>]], classes = [None]\<rparr>"
  have "click_direction ?t 0 = Ascending" by (simp add: click_direction_def)
  then show ?thesis using report_table_sorted[of 0 ?t _ "[True]" "click_direction ?t 0", OF _ refl refl] by simp
qed


end
