(* ===== verification/Spec2Isabelle.thy ===== *)
theory Spec2Isabelle
  imports Prelude Fifo_Interface Circular_Buffer Pattern_Scan Fixed_Queue Checksums Frame_Reader
    Iec104_Apci Iec104_Link Javascript Base64 Byte_Stuffing Table_Parsers Message_Parsers Annotations
    Sdk_Model Sdk_Commands Sdk_Prelude Key_Tables Messagepack Signal_Transforms Text_Strings Text_Parsers
    Nmea_Sentences Json_Text Js_Numbers Json_Parsers Output_Scripts Mqtt_Scripts Value_Format
    Painter_Canvas Painter_Layout Painter_Traces Painter_Meters Painter_Displays Painter_Dials
    Session_Report
begin

text \<open>
  Serial Studio: verification library of its script layer and its stream core.

  Serial Studio reads telemetry from a device, cuts the byte stream into frames, lets scripts turn every
  frame into values, and shows the values on a dashboard whose controls send commands back.  The scripts
  are JavaScript (\<^verbatim>\<open>src/app/rcc\<close>): frame parsers, signal transforms, console annotation decoders, painters,
  output and MQTT scripts, and the SDK they all call.  The stream core is C++ (\<^verbatim>\<open>src/core\<close>).

  How a frame travels, and the theories that model each stop:

  \<^enum> The driver's bytes enter a ring (\<^verbatim>\<open>Core/CircularBuffer.h\<close>: \<open>Circular_Buffer\<close>, and \<open>Pattern_Scan\<close> for its
    delimiter searches), and samples a history queue (\<^verbatim>\<open>DSP/FixedQueue.h\<close>: \<open>Fixed_Queue\<close>).  Both implement
    the bounded queue of \<open>Fifo_Interface\<close>.
  \<^enum> The frame reader (\<^verbatim>\<open>Pipeline/IO/FrameReader.cpp\<close>: \<open>Frame_Reader\<close>) cuts the ring's contents into frames
    and checks their checksums (\<^verbatim>\<open>Core/Checksum.cpp\<close>, \<^verbatim>\<open>FileTransfer/CRC.h\<close>: \<open>Checksums\<close>).  The IEC 60870-5-104
    driver has its own framing and flow control (\<^verbatim>\<open>Protocols/Iec104/Apci.cpp\<close>: \<open>Iec104_Apci\<close>; \<open>Iec104_Link\<close>
    joins two endpoints).
  \<^enum> A frame parser script turns the frame into an array (\<^verbatim>\<open>scripts/parser/js\<close>): \<open>Byte_Stuffing\<close> (SLIP, COBS),
    \<open>Base64\<close> (Base64, hexadecimal), \<open>Table_Parsers\<close> (TLV, Modbus), \<open>Message_Parsers\<close> (UBX, SiRF, NMEA 2000, MAVLink,
    RTCM), \<open>Messagepack\<close>, \<open>Text_Parsers\<close> (delimited, fixed-width and raw frames, key-value pairs, AT responses, INI,
    URL-encoded forms, YAML, XML), \<open>Nmea_Sentences\<close> (NMEA 0183), \<open>Json_Parsers\<close> (JSON, batches, series).
  \<^enum> A transform script filters each value (\<^verbatim>\<open>scripts/transforms/js\<close>: \<open>Signal_Transforms\<close>, all 33 of them).
  \<^enum> The dashboard prints it (\<^verbatim>\<open>qml/Widgets/Dashboard/ValueFormat.js\<close>: \<open>Value_Format\<close>), the console marks packets in
    the raw stream (\<^verbatim>\<open>scripts/annotations\<close>, \<^verbatim>\<open>Ui/Console/Annotations.cpp\<close>: \<open>Annotations\<close>), and an MQTT script may
    publish it (\<^verbatim>\<open>scripts/mqtt/js\<close>: \<open>Mqtt_Scripts\<close>).
  \<^enum> A painter script draws the datasets of a group (\<^verbatim>\<open>scripts/painter\<close>, all 18 of them): \<^verbatim>\<open>onFrame\<close> keeps a state,
    \<^verbatim>\<open>paint\<close> makes calls on a drawing context (\<^verbatim>\<open>Ui/UI/Widgets/PainterContext.cpp\<close>: \<open>Painter_Canvas\<close>, which runs a
    list of calls and collects the marks they leave).  \<open>Painter_Layout\<close> places cards in a grid; \<open>Painter_Traces\<close> models
    the strip chart, the sparklines, the oscilloscope and the XY scope, \<open>Painter_Meters\<close> the audio meter, the bars
    and the LED matrix, \<open>Painter_Displays\<close> the heat map, the status grid, the seven-segment display and the default
    template, \<open>Painter_Dials\<close> the gauge, the radar, the polar plot, the progress rings, the clock, the vector field and
    the horizon.
  \<^enum> Controls send commands (\<^verbatim>\<open>scripts/output\<close>: \<open>Output_Scripts\<close>), and control scripts drive the application through
    the SDK (\<^verbatim>\<open>api/SerialStudio.js\<close>): \<open>Sdk_Model\<close> says what running the generated lines (390 to 3203) and
    calling one of their functions do, \<open>Sdk_Commands\<close> holds these 464 functions as data, \<open>Sdk_Prelude\<close> models the
    operations of the hand-written lines before them, which are not part of that run.
  \<^enum> A recorded session becomes a report page (\<^verbatim>\<open>templates/reports/session-report.js\<close>): \<open>Session_Report\<close> models the
    order of its table and the numbers behind its charts.

  Shared ground: \<open>Prelude\<close> (lists, slices), \<open>Javascript\<close> (values, 32-bit operators, arrays and objects),
  \<open>Text_Strings\<close> (the string functions, \<^verbatim>\<open>parseFloat\<close>), \<open>Json_Text\<close> (\<^verbatim>\<open>JSON.parse\<close> and \<^verbatim>\<open>JSON.stringify\<close>),
  \<open>Js_Numbers\<close> (\<^verbatim>\<open>Number\<close>, \<^verbatim>\<open>toFixed\<close>), \<open>Key_Tables\<close> (a parser's table of named values).

  Interfaces are locales, each interpreted on the model of every component that provides it: the bounded queue
  (\<open>Fifo_Interface\<close>), the named-value table and the formats that write settings into it (\<open>Key_Tables\<close>,
  \<open>Text_Parsers\<close>), the windowed filters and the filters that stay in range (\<open>Signal_Transforms\<close>), the decoders whose
  marks do not depend on how the stream is cut (\<open>Annotations\<close>), and the painter whose frames do not depend on the
  frames before them (\<open>painter_script\<close> of \<open>Painter_Canvas\<close>, interpreted on all 18 scripts).

  What the properties show:

  \<^item> Round trips.  What an encoder, a device or a script writes is read back exactly: Base64, SLIP, COBS, JSON in and
    out, MessagePack in the formats of its script with ASCII strings and normal single-precision numbers, settings in
    five text formats (key-value pairs without negative ones, which that script passes over), CAN payloads, Modbus
    registers under any table, MQTT payloads field by field, set points up to the printed places (but for 0 and 1,
    which three of the scripts send as a switch).
  \<^item> Agreement of two parts: the NMEA output script against the NMEA parser, the body of every SDK function against its
    signature, the streaming reader (with one end delimiter, while chunks and queue stay in their limits) and the
    annotation decoders (while what waits fits into the carry buffer) against the undivided stream, the filters with ring buffers against their definitions on the last
    samples, the memo of reference widths against the computation.
  \<^item> Errors: damaged frames and sentences leave the values (but for a sentence damaged by a star, which the NMEA parser
    may accept), exceptions are recorded, failed SDK calls are retried.
  \<^item> Invariants, safety and liveness of the stateful parts: the reader delivers only what was on the wire; two IEC
    104 endpoints lose, repeat and reorder nothing in any interleaving, and can always drain the link; each call of
    an endpoint moves its four timers as stated, any confirmation stopping the control timer.
  \<^item> Painters: of all the attributes the context keeps between frames a frame depends on the line cap at most, and in
    the five scripts that set the cap only until the first frame that does; arcs start at the cursor, the sectors of
    the radar's sweep apart; histories, peaks and contacts are what the frames reported; charts stay in their cards; the
    segments of a display determine the value; two scripts fail exactly when a history outlives its dataset.  The
    axes of a report chart hold the samples and end on steps.

  Bounds and fuel.  \<open>Json_Text\<close> parses with fuel twice the length of the text plus one, which \<open>json_fuel\<close> shows to be
  enough for every text.  \<open>Messagepack\<close> bounds the nesting by the number of bytes left, and \<open>messagepack_returns\<close>
  shows that the result satisfies the recursion of the script without a bound.  The reader's loops are bounded by the
  code itself (\<^verbatim>\<open>kMaxFramesPerCall\<close>), and \<^verbatim>\<open>countBits\<close> of the RTCM script, which may not return, is a partial
  function whose value is then \<open>None\<close>.  All other loops are total by a measure.

  What the model leaves out, everywhere: script numbers are rationals, so the rounding and the range of doubles are not
  modelled; strings hold code units below 256, and changes of case are modelled for ASCII letters.  Parameters stand for what the scripts call and \<^verbatim>\<open>src\<close> does not
  define or the model does not follow: the text of a number (\<open>numstr\<close>), the width of a text in a font (\<open>textw\<close>), the
  clock (\<open>now\<close>, \<open>local_time\<close>), the host's gateway (\<open>call\<close>), the C++ formatters of the dashboard; so is the
  Modbus script's table of registers, which its users edit.  Painter
  coordinates are rationals where a script only adds, multiplies and divides (its square roots of a layout are computed
  on natural numbers and proved to be the rounded real ones), and reals in the seven scripts on a circle.  A widget is
  at least one pixel wide and high, as the host makes it, that of the status grid higher than its header; the theme
  has valid colours; a dataset has finite bounds, and its value is a finite number or NaN.

  Not modelled: what Qt makes of a mark (the pixels), and the images, gradients, shadows and dashes no script of
  the repository uses; the elements of the report page and the configuration of its charts (DOM and Chart.js),
  vendored JavaScript and generated documentation scripts, the one-line aliases of bridge objects in the SDK prelude,
  the Qt user interface, the device drivers, the thread that runs scripts and its watchdog; and the Lua twins of the
  scripts, which repeat the JavaScript ones.
\<close>

section \<open>The generated SDK\<close>

lemma sdk_load:
  assumes "w \<in> set sdk_commands"
  shows "\<exists>world. load sdk_file start = Inr world \<and> map_of (callables world) (path w) = Some w"
  unfolding sdk_file_def
  by (rule load_file[OF sdk_spaces_in_order sdk_commands_parents sdk_commands_distinct assms])

lemma sdk_well_formed: "w \<in> set sdk_commands \<Longrightarrow> well_formed w"
  using sdk_commands_ok by (simp add: list_all_iff)

text \<open>C1: Running the generated lines of \<^verbatim>\<open>SerialStudio.js\<close> (390 to 3203) on any script world throws nothing, and
afterwards every one of their 464 functions is callable under its own dotted name, which is the name of the command
it sends.\<close>

theorem sdk_functions_reachable:
  assumes "w \<in> set sdk_commands"
  shows "\<exists>world. load sdk_file start = Inr world \<and> map_of (callables world) (path w) = Some w
    \<and> command w = dotted (path w)"
  using sdk_load[OF assms] sdk_well_formed[OF assms] by (auto simp: well_formed_def)

lemma setMuted_listed:
  "Wrapper [''alarms'', ''setMuted''] [''muted'']
     [sdk_stmt.Put ''muted'' (Param ''muted'')] ''alarms.setMuted''
   \<in> set sdk_commands"
  unfolding sdk_commands_def sdk_commands_1_def by (simp only: append_Cons) (intro list.set_intros)

theorem sdk_functions_reachable_witness:
  "\<exists>world. load sdk_file \<lparr>spaces = [], callables = []\<rparr> = Inr world
    \<and> map_of (callables world) [''alarms'', ''setMuted''] \<noteq> None"
  using sdk_functions_reachable[OF setMuted_listed, of "\<lparr>spaces = [], callables = []\<rparr>"] by auto

text \<open>No two SDK functions send the same command, and none is assigned twice.\<close>

theorem sdk_commands_unique: "distinct (map command sdk_commands) \<and> distinct (map path sdk_commands)"
  using ascending_distinct[OF sdk_commands_names] sdk_commands_distinct by blast

text \<open>C2: Said of the signature of each of the 464 functions, not of its body: a call sends the
function's dotted name and an object whose members are the formals of the signature (an encoding and an
options object apart; in three functions \<^verbatim>\<open>options\<close> is a bit mask and sent like the rest) and the properties
of the options object, if one is given.  Each formal carries its argument, or \<^verbatim>\<open>undefined\<close> where the call has
too few, \<^verbatim>\<open>data\<close> its encoded form where the signature has a \<^verbatim>\<open>dataEncoding\<close>; a property of the options of
the same name takes its place.\<close>

theorem sdk_request_parameters:
  assumes "w \<in> set sdk_commands"
  shows "fst (request numstr w args) = dotted (path w)
    \<and> fst ` set (props (snd (request numstr w args))) = sent_formals w \<union> fst ` set (given_options w args)
    \<and> (\<forall>x \<in> sent_formals w. get_prop (snd (request numstr w args)) x
        = (case map_of (rev (given_options w args)) x of Some v \<Rightarrow> v
           | None \<Rightarrow> formal_value numstr (formals w) args x))
    \<and> (\<forall>k v. map_of (rev (given_options w args)) k = Some v
        \<longrightarrow> get_prop (snd (request numstr w args)) k = v)"
  using parameters_of_signature[OF sdk_well_formed[OF assms]]
    parameters_options[OF sdk_well_formed[OF assms]] sdk_well_formed[OF assms]
  by (simp add: request_def props_def get_prop_def well_formed_def)

theorem sdk_request_parameters_witness:
  "get_prop (snd (request (\<lambda>_. []) (Wrapper [''alarms'', ''setMuted''] [''muted'']
     [sdk_stmt.Put ''muted'' (Param ''muted'')] ''alarms.setMuted'') [Bool True])) ''muted'' = Bool True"
  using sdk_request_parameters[OF setMuted_listed, of "\<lambda>_. []" "[Bool True]"]
  by (simp add: sent_formals_def formal_value_def given_options_def argument_def Let_def truthy_def)

end
